(* ===== verification/Prelude.thy ===== *)
theory Prelude
  imports Main "HOL-Library.Word" "HOL-Library.Monad_Syntax"
begin

text \<open>
  Shared vocabulary of the development: the machine types, the outcome of a call,
  checked memory accesses, 32-bit wrap-around and little-endian encodings.

  The outcome of a C function is an \<open>option\<close>. \<open>None\<close> is a call that does not come
  back in a defined way: a failing \<open>ASSERT\<close> or \<open>PANIC\<close> (both end in
  \<open>while(1)\<close>, \<open>src/src/kernel/debug.c\<close>), an access outside the memory the pointer
  owns, or a loop that never ends. \<open>Some\<close> carries the value and the new state; the
  C error returns (\<open>-1\<close>, \<open>NULL\<close>) are values inside \<open>Some\<close>.
\<close>

type_synonym u8 = "8 word"
type_synonym u16 = "16 word"
type_synonym u32 = "32 word"

text \<open>The collections the component theories fill and the proofs use by name.\<close>

named_theorems outcome_simps "rewriting of outcomes: asserts, checked reads and writes"
named_theorems codec_simps "decoding of an encoded value"

declare One_nat_def [simp del]

lemma less_add_1: "(i :: nat) < n + 1 \<longleftrightarrow> i < n \<or> i = n"
  by linarith

lemma take_add_1_update [simp]:
  "i < length xs \<Longrightarrow> take (i + 1) (xs[i := d]) = take i xs @ [d]"
  by (simp add: Suc_eq_plus1 [symmetric] take_Suc_conv_app_nth)

section \<open>Outcomes\<close>

definition kassert :: "bool \<Rightarrow> unit option" where
  "kassert b = (if b then Some () else None)"

lemma kassert_simps [simp, outcome_simps]:
  "kassert True = Some ()" "kassert False = None"
  by (simp_all add: kassert_def)

lemma kassert_eq_Some [simp]: "kassert b = Some u \<longleftrightarrow> b"
  by (simp add: kassert_def)

lemma kassert_bind_eq_Some [outcome_simps]:
  "(kassert b \<bind> f) = Some y \<longleftrightarrow> b \<and> f () = Some y"
  by (simp add: kassert_def)

lemma bind_Some_iff [outcome_simps]:
  "(m \<bind> f) = Some y \<longleftrightarrow> (\<exists>x. m = Some x \<and> f x = Some y)"
  by (cases m) auto

definition rd :: "'a list \<Rightarrow> nat \<Rightarrow> 'a option" where
  "rd xs i = (if i < length xs then Some (xs ! i) else None)"

definition wr :: "'a list \<Rightarrow> nat \<Rightarrow> 'a \<Rightarrow> 'a list option" where
  "wr xs i v = (if i < length xs then Some (xs[i := v]) else None)"

lemma rd_eq_Some [outcome_simps]: "rd xs i = Some x \<longleftrightarrow> i < length xs \<and> x = xs ! i"
  by (auto simp: rd_def)

lemma wr_eq_Some [outcome_simps]: "wr xs i v = Some ys \<longleftrightarrow> i < length xs \<and> ys = xs[i := v]"
  by (auto simp: wr_def)

lemma rd_in [simp]: "i < length xs \<Longrightarrow> rd xs i = Some (xs ! i)"
  by (simp add: rd_def)

lemma wr_in [simp]: "i < length xs \<Longrightarrow> wr xs i v = Some (xs[i := v])"
  by (simp add: wr_def)

lemma rd_out [simp]: "length xs \<le> i \<Longrightarrow> rd xs i = None"
  by (simp add: rd_def)

lemma wr_out [simp]: "length xs \<le> i \<Longrightarrow> wr xs i v = None"
  by (simp add: wr_def)

text \<open>Writing a block of bytes over a buffer, as \<open>memcpy\<close> into an array does.\<close>

definition wr_block :: "'a list \<Rightarrow> nat \<Rightarrow> 'a list \<Rightarrow> 'a list option" where
  "wr_block xs off ys =
     (if off + length ys \<le> length xs
      then Some (take off xs @ ys @ drop (off + length ys) xs) else None)"

definition rd_block :: "'a list \<Rightarrow> nat \<Rightarrow> nat \<Rightarrow> 'a list option" where
  "rd_block xs off n = (if off + n \<le> length xs then Some (take n (drop off xs)) else None)"

lemma wr_block_length: "wr_block xs off ys = Some zs \<Longrightarrow> length zs = length xs"
  by (auto simp: wr_block_def split: if_splits)

lemma wr_block_eq_Some [outcome_simps]:
  "wr_block xs off ys = Some zs \<longleftrightarrow>
     off + length ys \<le> length xs \<and> zs = take off xs @ ys @ drop (off + length ys) xs"
  by (auto simp: wr_block_def)

lemma rd_block_eq_Some [outcome_simps]:
  "rd_block xs off n = Some ys \<longleftrightarrow> off + n \<le> length xs \<and> ys = take n (drop off xs)"
  by (auto simp: rd_block_def)

lemma rd_block_wr_block_same:
  "wr_block xs off ys = Some zs \<Longrightarrow> rd_block zs off (length ys) = Some ys"
  by (auto simp: wr_block_def rd_block_def split: if_splits)

lemma nth_wr_block:
  assumes "wr_block xs off ys = Some zs" and "i < length xs"
  shows "zs ! i = (if off \<le> i \<and> i < off + length ys then ys ! (i - off) else xs ! i)"
  using assms by (auto simp: wr_block_def nth_append split: if_splits)

section \<open>Thirty-two bit arithmetic on naturals\<close>

text \<open>
  Where only comparison, sums and products matter, a \<open>uint32_t\<close> is a \<open>nat\<close> and the
  wrap-around is written out. \<open>w32\<close> reduces a result to 32 bits, \<open>sub32\<close> is C's
  subtraction.
\<close>

definition w32 :: "nat \<Rightarrow> nat" where
  "w32 x = x mod 4294967296"

definition sub32 :: "nat \<Rightarrow> nat \<Rightarrow> nat" where
  "sub32 a b = (a + (4294967296 - b mod 4294967296)) mod 4294967296"

definition w8 :: "nat \<Rightarrow> nat" where
  "w8 x = x mod 256"

definition w16 :: "nat \<Rightarrow> nat" where
  "w16 x = x mod 65536"

lemma w32_small [simp]: "x < 4294967296 \<Longrightarrow> w32 x = x"
  by (simp add: w32_def)

lemma w32_less [simp]: "w32 x < 4294967296"
  by (simp add: w32_def)

lemma w8_small [simp]: "x < 256 \<Longrightarrow> w8 x = x"
  by (simp add: w8_def)

lemma w16_small [simp]: "x < 65536 \<Longrightarrow> w16 x = x"
  by (simp add: w16_def)

lemma sub32_le: "b \<le> a \<Longrightarrow> a < 4294967296 \<Longrightarrow> sub32 a b = a - b"
proof -
  assume "b \<le> a" "a < 4294967296"
  then have "a + (4294967296 - b mod 4294967296) = (a - b) + 4294967296" by simp
  then show ?thesis using \<open>a < 4294967296\<close> by (simp add: sub32_def)
qed

definition div_round_up :: "nat \<Rightarrow> nat \<Rightarrow> nat" where
  "div_round_up x step = (x + step - 1) div step"

lemma div_round_up_enough: "0 < step \<Longrightarrow> x \<le> div_round_up x step * step"
proof -
  assume "0 < step"
  have "x + step - 1 = div_round_up x step * step + (x + step - 1) mod step"
    by (simp add: div_round_up_def)
  moreover have "(x + step - 1) mod step \<le> step - 1"
    using \<open>0 < step\<close> by (simp add: Suc_leI less_Suc_eq_le [symmetric])
  ultimately show ?thesis using \<open>0 < step\<close> by linarith
qed

lemma div_round_up_tight: "0 < x \<Longrightarrow> 0 < step \<Longrightarrow> (div_round_up x step - 1) * step < x"
proof -
  assume "0 < x" "0 < step"
  then have "div_round_up x step = (x - 1) div step + 1"
    by (simp add: div_round_up_def add.commute div_add_self1 Suc_diff_le
        le_div_geq)
  then have "(div_round_up x step - 1) * step \<le> x - 1" by simp
  then show ?thesis using \<open>0 < x\<close> by linarith
qed

section \<open>Little-endian encoding of a 32-bit value\<close>

definition enc32 :: "nat \<Rightarrow> u8 list" where
  "enc32 n = [of_nat n, of_nat (n div 256), of_nat (n div 65536), of_nat (n div 16777216)]"

definition dec32 :: "u8 list \<Rightarrow> nat" where
  "dec32 bs = unat (bs ! 0) + 256 * unat (bs ! 1) + 65536 * unat (bs ! 2)
     + 16777216 * unat (bs ! 3)"

lemma length_enc32 [simp]: "length (enc32 n) = 4"
  by (simp add: enc32_def)

lemma unat_of_nat8: "unat (of_nat n :: u8) = n mod 256"
  by (simp add: unat_of_nat)

lemma bytes32_sum:
  "n < 4294967296 \<Longrightarrow>
     n mod 256 + 256 * (n div 256 mod 256) + 65536 * (n div 65536 mod 256)
       + 16777216 * (n div 16777216 mod 256) = (n :: nat)"
  using mod_mult2_eq [of n 256 256] mod_mult2_eq [of n 65536 256]
    mod_mult2_eq [of n 16777216 256]
  by simp

lemma dec32_enc32 [simp, codec_simps]: "n < 4294967296 \<Longrightarrow> dec32 (enc32 n @ bs) = n"
  using bytes32_sum [of n] by (simp add: dec32_def enc32_def unat_of_nat8)

lemma dec32_enc32' [simp, codec_simps]: "n < 4294967296 \<Longrightarrow> dec32 (enc32 n) = n"
  using dec32_enc32 [of n "[]"] by simp

lemma dec32_less: "dec32 bs < 4294967296"
proof -
  have "unat (b :: u8) < 2 ^ LENGTH(8)" for b
    by (rule unsigned_less)
  then have "unat (b :: u8) \<le> 255" for b
    by (simp add: less_Suc_eq_le [symmetric])
  then have "unat (bs ! 0) \<le> 255" "unat (bs ! 1) \<le> 255" "unat (bs ! 2) \<le> 255"
    "unat (bs ! 3) \<le> 255" by blast+
  then show ?thesis by (simp add: dec32_def)
qed

text \<open>Arrays of 32-bit values, as the block tables of the file system.\<close>

definition enc_words :: "nat list \<Rightarrow> u8 list" where
  "enc_words xs = concat (map enc32 xs)"

definition dec_words :: "nat \<Rightarrow> u8 list \<Rightarrow> nat list" where
  "dec_words n bs = map (\<lambda>k. dec32 (drop (4 * k) bs)) [0..<n]"

lemma enc_words_simps [simp]:
  "enc_words [] = []" "enc_words (x # xs) = enc32 x @ enc_words xs"
  "enc_words (xs @ ys) = enc_words xs @ enc_words ys"
  by (simp_all add: enc_words_def)

lemma length_enc_words [simp]: "length (enc_words xs) = 4 * length xs"
  by (induction xs) simp_all

lemma length_dec_words [simp]: "length (dec_words n bs) = n"
  by (simp add: dec_words_def)

lemma nth_dec_words: "k < n \<Longrightarrow> dec_words n bs ! k = dec32 (drop (4 * k) bs)"
  by (simp add: dec_words_def)

lemma dec_words_enc_words [simp, codec_simps]:
  "(\<forall>x \<in> set xs. x < 4294967296) \<Longrightarrow> dec_words (length xs) (enc_words xs @ bs) = xs"
proof (induction xs)
  case Nil
  then show ?case by (simp add: dec_words_def)
next
  case (Cons x xs)
  have "dec_words (length (x # xs)) (enc_words (x # xs) @ bs)
      = dec32 (enc_words (x # xs) @ bs) # dec_words (length xs) (enc_words xs @ bs)"
    by (simp add: dec_words_def upt_conv_Cons map_Suc_upt [symmetric] del: upt_Suc)
  with Cons show ?case by simp
qed

lemma dec_words_less: "x \<in> set (dec_words n bs) \<Longrightarrow> x < 4294967296"
  by (auto simp: dec_words_def dec32_less)

section \<open>Pools of numbered slots\<close>

text \<open>Taking \<open>n\<close> slots one after the other with an allocator.\<close>

fun alloc_n :: "('s \<Rightarrow> (nat \<times> 's) option) \<Rightarrow> nat \<Rightarrow> 's \<Rightarrow> (nat list \<times> 's) option" where
  "alloc_n alloc 0 s = Some ([], s)"
| "alloc_n alloc (Suc n) s =
     do { (i, s1) \<leftarrow> alloc s; (is, s2) \<leftarrow> alloc_n alloc n s1; Some (i # is, s2) }"

text \<open>
  The interface the pid pool, the physical page pools and the block and inode bitmaps
  offer to their clients: a set of slots in use below a capacity, an allocator that
  returns a slot not in use and a release.
\<close>

locale slot_pool =
  fixes alloc :: "'s \<Rightarrow> (nat \<times> 's) option"
    and release :: "'s \<Rightarrow> nat \<Rightarrow> 's option"
    and used :: "'s \<Rightarrow> nat set"
    and capacity :: "'s \<Rightarrow> nat"
    and inv :: "'s \<Rightarrow> bool"
  assumes alloc_spec: "inv s \<Longrightarrow> alloc s = Some (i, s') \<Longrightarrow>
      i < capacity s \<and> i \<notin> used s \<and> used s' = insert i (used s)
      \<and> capacity s' = capacity s \<and> inv s'"
    and alloc_progress: "inv s \<Longrightarrow> \<exists>i < capacity s. i \<notin> used s \<Longrightarrow> \<exists>i s'. alloc s = Some (i, s')"
    and release_spec: "inv s \<Longrightarrow> i < capacity s \<Longrightarrow>
      \<exists>s'. release s i = Some s' \<and> used s' = used s - {i} \<and> capacity s' = capacity s \<and> inv s'"
begin

lemma alloc_n_spec:
  "inv s \<Longrightarrow> alloc_n alloc n s = Some (is, s') \<Longrightarrow>
     length is = n \<and> distinct is \<and> set is \<inter> used s = {} \<and> used s' = used s \<union> set is
     \<and> (\<forall>i \<in> set is. i < capacity s) \<and> capacity s' = capacity s \<and> inv s'"
proof (induction n arbitrary: s "is")
  case 0
  then show ?case by simp
next
  case (Suc n)
  from Suc.prems(2) obtain i s1 js where
    a: "alloc s = Some (i, s1)" and r: "alloc_n alloc n s1 = Some (js, s')" and e: "is = i # js"
    by (auto simp: outcome_simps)
  note h = alloc_spec [OF Suc.prems(1) a]
  with r Suc.IH [of s1 js] show ?case by (auto simp: e)
qed

lemma alloc_n_progress:
  "inv s \<Longrightarrow> used s \<subseteq> {..<capacity s} \<Longrightarrow> card (used s) + n \<le> capacity s \<Longrightarrow>
     \<exists>is s'. alloc_n alloc n s = Some (is, s')"
proof (induction n arbitrary: s)
  case 0
  then show ?case by simp
next
  case (Suc n)
  have fin: "finite (used s)" using Suc.prems(2) by (rule finite_subset) simp
  have "\<exists>i < capacity s. i \<notin> used s"
  proof (rule ccontr)
    assume "\<not> ?thesis"
    with Suc.prems(2) have "used s = {..<capacity s}" by auto
    with Suc.prems(3) show False by simp
  qed
  with alloc_progress Suc.prems(1) obtain i s1 where a: "alloc s = Some (i, s1)" by blast
  note h = alloc_spec [OF Suc.prems(1) a]
  have "card (used s1) = Suc (card (used s))" using h fin by simp
  with h Suc.prems obtain js s2 where "alloc_n alloc n s1 = Some (js, s2)"
    using Suc.IH [of s1] by auto
  with a show ?case by simp
qed

lemma alloc_release_used:
  assumes "inv s" and "alloc s = Some (i, s1)" and "release s1 i = Some s2"
  shows "used s2 = used s"
proof -
  note h = alloc_spec [OF assms(1,2)]
  with release_spec [of s1 i] assms(3) show ?thesis by auto
qed

end

end
