(* ===== verification/Bitmap.thy ===== *)
theory Bitmap
  imports Prelude
begin

unbundle bit_operations_syntax

text \<open>
  \<open>src/src/lib/kernel/bitmap.c\<close>: a bitmap is a pointer to bytes and a byte count.
  \<open>bits\<close> is the memory reachable from the pointer, which may be longer than
  \<open>btmp_bytes_len\<close>; reading past it is \<open>None\<close>. Bit \<open>i\<close> is bit \<open>i mod 8\<close> of byte
  \<open>i div 8\<close> and 1 means taken.
\<close>

record bitmap =
  btmp_bytes_len :: nat
  bits :: "u8 list"

definition bitmap_init :: "bitmap \<Rightarrow> bitmap option" where
  "bitmap_init b = (if btmp_bytes_len b \<le> length (bits b)
     then Some (b\<lparr>bits := replicate (btmp_bytes_len b) 0 @ drop (btmp_bytes_len b) (bits b)\<rparr>)
     else None)"

definition bitmap_scan_test :: "bitmap \<Rightarrow> nat \<Rightarrow> bool option" where
  "bitmap_scan_test b bit_idx =
     do { byte \<leftarrow> rd (bits b) (bit_idx div 8);
          Some (byte AND push_bit (bit_idx mod 8) 1 \<noteq> 0) }"

text \<open>The first loop of \<open>bitmap_scan\<close> reads the byte before it compares the index.\<close>

function scan_byte :: "bitmap \<Rightarrow> nat \<Rightarrow> nat option" where
  "scan_byte b idx_byte =
     (if idx_byte < length (bits b) then
        (if bits b ! idx_byte = 0xff \<and> idx_byte < btmp_bytes_len b
         then scan_byte b (Suc idx_byte) else Some idx_byte)
      else None)"
  by pat_completeness auto
termination
  by (relation "measure (\<lambda>(b, i). length (bits b) - i)") auto

function scan_bit :: "u8 \<Rightarrow> nat \<Rightarrow> nat" where
  "scan_bit byte idx_bit =
     (if push_bit idx_bit 1 AND byte \<noteq> 0 then scan_bit byte (Suc idx_bit) else idx_bit)"
  by pat_completeness auto

text \<open>\<open>(uint8_t)(1 << 8)\<close> is 0, so the loop stops at the latest there.\<close>

lemma push_bit_beyond: "8 \<le> n \<Longrightarrow> (2 :: u8) ^ n = 0"
  by (rule bit_word_eqI) (simp add: bit_simps)

termination scan_bit
proof (relation "measure (\<lambda>(byte, i). 9 - i)")
  fix byte :: u8 and i :: nat
  assume "push_bit i 1 AND byte \<noteq> 0"
  then have "i < 8" using push_bit_beyond [of i] by (cases "i < 8") auto
  then show "((byte, Suc i), (byte, i)) \<in> measure (\<lambda>(byte, i). 9 - i)" by simp
qed simp

function scan_run :: "bitmap \<Rightarrow> nat \<Rightarrow> nat \<Rightarrow> nat \<Rightarrow> nat \<Rightarrow> int option" where
  "scan_run b cnt bit_left next_bit count =
     (if 0 < bit_left then
        do { t \<leftarrow> bitmap_scan_test b next_bit;
             let count = (if \<not> t then count + 1 else 0) in
             if count = cnt then Some (int next_bit - int cnt + 1)
             else scan_run b cnt (bit_left - 1) (next_bit + 1) count }
      else Some (- 1))"
  by pat_completeness auto
termination
  by (relation "measure (\<lambda>(b, cnt, bit_left, next_bit, count). bit_left)") auto

definition bitmap_scan :: "bitmap \<Rightarrow> nat \<Rightarrow> int option" where
  "bitmap_scan b cnt =
     do { idx_byte \<leftarrow> scan_byte b 0;
          kassert (idx_byte < btmp_bytes_len b);
          if idx_byte = btmp_bytes_len b then Some (- 1)
          else
            let idx_bit = scan_bit (bits b ! idx_byte) 0;
                bit_idx_start = idx_byte * 8 + idx_bit in
            if cnt = 1 then Some (int bit_idx_start)
            else scan_run b cnt (btmp_bytes_len b * 8 - bit_idx_start) (bit_idx_start + 1) 1 }"

definition bitmap_set :: "bitmap \<Rightarrow> nat \<Rightarrow> nat \<Rightarrow> bitmap option" where
  "bitmap_set b bit_idx v =
     do { kassert (v = 0 \<or> v = 1);
          let byte_idx = bit_idx div 8; bit_odd = bit_idx mod 8 in
          do { byte \<leftarrow> rd (bits b) byte_idx;
               bs \<leftarrow> wr (bits b) byte_idx
                 (if v \<noteq> 0 then byte OR push_bit bit_odd 1
                  else byte AND NOT (push_bit bit_odd 1));
               Some (b\<lparr>bits := bs\<rparr>) } }"

definition bitmap_get :: "bitmap \<Rightarrow> nat \<Rightarrow> nat option" where
  "bitmap_get b bit_idx =
     do { byte \<leftarrow> rd (bits b) (bit_idx div 8);
          Some (unat (drop_bit (bit_idx mod 8) byte AND 1)) }"

declare scan_byte.simps [simp del] scan_bit.simps [simp del] scan_run.simps [simp del]

section \<open>The bits of a bitmap\<close>

definition bit_at :: "bitmap \<Rightarrow> nat \<Rightarrow> bool" where
  "bit_at b i = bit (bits b ! (i div 8)) (i mod 8)"

definition bitmap_wf :: "bitmap \<Rightarrow> bool" where
  "bitmap_wf b \<longleftrightarrow> btmp_bytes_len b \<le> length (bits b)"

abbreviation nbits :: "bitmap \<Rightarrow> nat" where
  "nbits b \<equiv> 8 * btmp_bytes_len b"

definition used_bits :: "bitmap \<Rightarrow> nat set" where
  "used_bits b = {i. i < nbits b \<and> bit_at b i}"

lemma byte_index: "bitmap_wf b \<Longrightarrow> i < nbits b \<Longrightarrow> i div 8 < length (bits b)"
  by (auto simp: bitmap_wf_def)

lemma and_push_bit_ne_0: "(w AND 2 ^ k \<noteq> 0) = bit (w :: u8) k"
  by (simp add: bit_iff_and_push_bit_not_eq_0)

lemma scan_test_eq [outcome_simps]:
  "bitmap_scan_test b i = (if i div 8 < length (bits b) then Some (bit_at b i) else None)"
  by (simp add: bitmap_scan_test_def rd_def bit_at_def and_push_bit_ne_0)

lemma bitmap_get_eq:
  "bitmap_get b i = (if i div 8 < length (bits b) then Some (of_bool (bit_at b i)) else None)"
proof -
  have "drop_bit k (w :: u8) AND 1 = of_bool (bit w k)" for k w
    by (simp add: and_one_eq bit_iff_odd_drop_bit mod_2_eq_odd)
  then show ?thesis by (simp add: bitmap_get_def rd_def bit_at_def)
qed

section \<open>Setting one bit\<close>

lemma bit_set_byte:
  "bit (if v \<noteq> 0 then (w :: u8) OR 2 ^ k else w AND NOT (2 ^ k)) j
     = (if j = k \<and> k < 8 then v \<noteq> (0 :: nat) else bit w j)" if "j < 8"
  using that by (auto simp: bit_simps)

lemma bitmap_set_Some:
  "i div 8 < length (bits b) \<Longrightarrow> v = 0 \<or> v = 1 \<Longrightarrow> \<exists>b'. bitmap_set b i v = Some b'"
  by (auto simp: bitmap_set_def Let_def)

lemma bitmap_set_length:
  "bitmap_set b i v = Some b' \<Longrightarrow>
     btmp_bytes_len b' = btmp_bytes_len b \<and> length (bits b') = length (bits b)"
  by (auto simp: bitmap_set_def Let_def outcome_simps)

lemma bit_at_bitmap_set:
  assumes "bitmap_set b i v = Some b'"
  shows "bit_at b' j = (if j = i then v = 1 else bit_at b j)"
proof -
  from assms have v: "v = 0 \<or> v = 1" and i: "i div 8 < length (bits b)"
    and b': "bits b' = (bits b)[i div 8 :=
      (if v \<noteq> 0 then bits b ! (i div 8) OR 2 ^ (i mod 8)
       else bits b ! (i div 8) AND NOT (2 ^ (i mod 8)))]"
    by (auto simp: bitmap_set_def Let_def outcome_simps)
  show ?thesis
  proof (cases "j div 8 = i div 8")
    case True
    have eq: "j mod 8 = i mod 8 \<longleftrightarrow> j = i"
      using True div_mult_mod_eq [of j 8] div_mult_mod_eq [of i 8] by auto
    have "bit_at b' j = bit (if v \<noteq> 0 then bits b ! (i div 8) OR 2 ^ (i mod 8)
       else bits b ! (i div 8) AND NOT (2 ^ (i mod 8))) (j mod 8)"
      using True i by (simp add: bit_at_def b')
    also have "\<dots> = (if j = i then v = 1 else bit_at b j)"
      using v True by (subst bit_set_byte) (auto simp: eq bit_at_def)
    finally show ?thesis .
  next
    case False
    then show ?thesis by (auto simp: bit_at_def b')
  qed
qed

lemma used_bits_bitmap_set:
  assumes "bitmap_set b i v = Some b'"
  shows "used_bits b' = (if v = 1 then used_bits b \<union> ({i} \<inter> {..<nbits b}) else used_bits b - {i})"
  using bitmap_set_length [OF assms] bit_at_bitmap_set [OF assms]
  by (auto simp: used_bits_def split: if_splits)

lemma bitmap_wf_set: "bitmap_set b i v = Some b' \<Longrightarrow> bitmap_wf b' = bitmap_wf b"
  by (drule bitmap_set_length) (simp add: bitmap_wf_def)

lemma bitmap_init_bits:
  assumes "bitmap_wf b"
  shows "\<exists>b'. bitmap_init b = Some b' \<and> btmp_bytes_len b' = btmp_bytes_len b
     \<and> bitmap_wf b' \<and> used_bits b' = {}"
proof -
  let ?b' = "b\<lparr>bits := replicate (btmp_bytes_len b) 0 @ drop (btmp_bytes_len b) (bits b)\<rparr>"
  have "\<not> bit_at ?b' i" if "i < nbits b" for i
  proof -
    have "i div 8 < btmp_bytes_len b" using that by auto
    then show ?thesis by (simp add: bit_at_def nth_append)
  qed
  with assms show ?thesis
    by (auto simp: bitmap_init_def bitmap_wf_def used_bits_def)
qed

section \<open>Scanning\<close>

lemma byte_full: "(w = 0xff) = (\<forall>k < 8. bit (w :: u8) k)"
proof
  assume "w = 0xff"
  moreover have "(0xff :: u8) = mask 8" by (simp add: mask_eq_exp_minus_1)
  ultimately show "\<forall>k < 8. bit w k" by (simp only: bit_mask_iff) simp
next
  assume a: "\<forall>k < 8. bit w k"
  have "w = mask 8" by (rule bit_word_eqI) (use a in \<open>simp add: bit_mask_iff\<close>)
  then show "w = 0xff" by (simp add: mask_eq_exp_minus_1)
qed

lemma scan_byte_spec:
  "scan_byte b i = Some r \<Longrightarrow>
     i \<le> r \<and> r < length (bits b) \<and> (bits b ! r \<noteq> 0xff \<or> btmp_bytes_len b \<le> r)
     \<and> (\<forall>j. i \<le> j \<longrightarrow> j < r \<longrightarrow> bits b ! j = 0xff \<and> j < btmp_bytes_len b)"
proof (induction b i rule: scan_byte.induct)
  case (1 b i)
  show ?case
  proof (cases "i < length (bits b) \<and> bits b ! i = 0xff \<and> i < btmp_bytes_len b")
    case True
    with "1.prems" have "scan_byte b (Suc i) = Some r" by (simp add: scan_byte.simps [of b i])
    with True "1.IH" have h: "Suc i \<le> r" "r < length (bits b)"
      "bits b ! r \<noteq> 0xff \<or> btmp_bytes_len b \<le> r"
      "\<forall>j. Suc i \<le> j \<longrightarrow> j < r \<longrightarrow> bits b ! j = 0xff \<and> j < btmp_bytes_len b"
      by auto
    have "bits b ! j = 0xff \<and> j < btmp_bytes_len b" if "i \<le> j" "j < r" for j
      using h(4) True that by (cases "j = i") auto
    with h show ?thesis by auto
  next
    case False
    with "1.prems" show ?thesis
      by (subst (asm) scan_byte.simps) (auto split: if_splits)
  qed
qed

lemma scan_byte_finds:
  "i \<le> k \<Longrightarrow> k < btmp_bytes_len b \<Longrightarrow> btmp_bytes_len b \<le> length (bits b) \<Longrightarrow>
     bits b ! k \<noteq> 0xff \<Longrightarrow> \<exists>r \<le> k. scan_byte b i = Some r"
proof (induction b i rule: scan_byte.induct)
  case (1 b i)
  show ?case
  proof (cases "bits b ! i = 0xff")
    case True
    with "1.prems" have "i \<noteq> k" by auto
    with "1.prems" True "1.IH" show ?thesis by (auto simp: scan_byte.simps [of b i])
  next
    case False
    with "1.prems" show ?thesis by (auto simp: scan_byte.simps [of b i])
  qed
qed

lemma scan_bit_spec:
  "i \<le> scan_bit w i \<and> \<not> bit w (scan_bit w i) \<and> (\<forall>j. i \<le> j \<longrightarrow> j < scan_bit w i \<longrightarrow> bit w j)"
proof (induction w i rule: scan_bit.induct)
  case (1 w i)
  show ?case
  proof (cases "bit w i")
    case True
    then have g: "push_bit i 1 AND w \<noteq> 0"
      using and_push_bit_ne_0 [of w i] by (simp add: and.commute)
    with "1.IH" have h: "Suc i \<le> scan_bit w (Suc i)" "\<not> bit w (scan_bit w (Suc i))"
      "\<forall>j. Suc i \<le> j \<longrightarrow> j < scan_bit w (Suc i) \<longrightarrow> bit w j" by auto
    have "bit w j" if "i \<le> j" "j < scan_bit w (Suc i)" for j
      using h(3) True that by (cases "j = i") auto
    with h g show ?thesis by (auto simp: scan_bit.simps [of w i])
  next
    case False
    then have "push_bit i 1 AND w = 0"
      using and_push_bit_ne_0 [of w i] by (simp add: and.commute)
    with False show ?thesis by (auto simp: scan_bit.simps [of w i])
  qed
qed

lemma scan_bit_less_8: "w \<noteq> 0xff \<Longrightarrow> scan_bit w 0 < 8"
  using scan_bit_spec [of 0 w] byte_full [of w] by (metis not_le_imp_less less_le_trans zero_le)

definition first_clear :: "bitmap \<Rightarrow> nat \<Rightarrow> bool" where
  "first_clear b i \<longleftrightarrow> i < nbits b \<and> \<not> bit_at b i \<and> (\<forall>j < i. bit_at b j)"

lemma scan_start_first_clear:
  assumes "scan_byte b 0 = Some r" and "r < btmp_bytes_len b"
  shows "first_clear b (r * 8 + scan_bit (bits b ! r) 0)"
proof -
  from scan_byte_spec [OF assms(1)] assms(2) have ne: "bits b ! r \<noteq> 0xff"
    and full: "\<And>j. j < r \<Longrightarrow> bits b ! j = 0xff" by auto
  let ?k = "scan_bit (bits b ! r) 0"
  have k: "?k < 8" using ne by (rule scan_bit_less_8)
  have clear: "\<not> bit_at b (r * 8 + ?k)"
    using scan_bit_spec [of 0 "bits b ! r"] k by (simp add: bit_at_def)
  have "bit_at b j" if "j < r * 8 + ?k" for j
  proof (cases "j div 8 < r")
    case True
    with full [of "j div 8"] show ?thesis by (simp add: bit_at_def byte_full)
  next
    case False
    with that k have jr: "j div 8 = r" by auto
    with that div_mult_mod_eq [of j 8] have "j mod 8 < ?k" by simp
    note jr this
    with scan_bit_spec [of 0 "bits b ! r"] show ?thesis by (simp add: bit_at_def)
  qed
  with clear k assms(2) show ?thesis by (auto simp: first_clear_def)
qed

lemma first_clear_unique: "first_clear b i \<Longrightarrow> first_clear b j \<Longrightarrow> i = j"
  by (auto simp: first_clear_def) (metis linorder_neqE_nat)

lemma scan_one_eq_Some:
  "bitmap_scan b 1 = Some r \<longleftrightarrow>
     (\<exists>k. scan_byte b 0 = Some k \<and> k < btmp_bytes_len b
        \<and> r = int (k * 8 + scan_bit (bits b ! k) 0))"
proof (cases "scan_byte b 0")
  case (Some k)
  then show ?thesis by (auto simp: bitmap_scan_def Let_def kassert_def)
qed (simp add: bitmap_scan_def)

lemma scan_one_cases:
  "bitmap_scan b 1 = Some r \<Longrightarrow> \<exists>i. r = int i \<and> first_clear b i"
  unfolding scan_one_eq_Some by (blast dest: scan_start_first_clear)

lemma scan_one_finds:
  assumes "bitmap_wf b" and "i < nbits b" and "\<not> bit_at b i"
  shows "\<exists>k. bitmap_scan b 1 = Some (int k) \<and> first_clear b k"
proof -
  have ne: "bits b ! (i div 8) \<noteq> 0xff"
    using assms(3) unfolding bit_at_def byte_full by (meson mod_less_divisor zero_less_numeral)
  have len: "i div 8 < btmp_bytes_len b" using assms(2) by auto
  with ne assms(1) scan_byte_finds [of 0 "i div 8" b] obtain r where
    r: "scan_byte b 0 = Some r" "r \<le> i div 8" by (auto simp: bitmap_wf_def)
  with len have "r < btmp_bytes_len b" by linarith
  with r scan_start_first_clear [of b r] show ?thesis
    unfolding scan_one_eq_Some by blast
qed

lemma scan_full_None:
  assumes "\<forall>i < nbits b. bit_at b i"
  shows "bitmap_scan b cnt = None"
proof -
  have False if "scan_byte b 0 = Some r" "r < btmp_bytes_len b" for r
    using scan_start_first_clear [OF that] assms by (auto simp: first_clear_def)
  then show ?thesis by (cases "scan_byte b 0") (auto simp: bitmap_scan_def kassert_def)
qed

text \<open>
  The run search: at a call, the \<open>count\<close> bits before \<open>next_bit\<close> are clear. A run it
  returns is clear and lies below \<open>next_bit + bit_left\<close>, which \<open>bitmap_scan\<close> sets to one
  bit more than the bitmap holds.
\<close>

lemma scan_run_spec:
  "scan_run b cnt left nxt count = Some r \<Longrightarrow> count < cnt \<Longrightarrow> count \<le> nxt \<Longrightarrow>
     (\<forall>i. nxt - count \<le> i \<longrightarrow> i < nxt \<longrightarrow> \<not> bit_at b i) \<Longrightarrow>
     r = - 1 \<or> (\<exists>s. r = int s \<and> s + cnt \<le> nxt + left \<and> (\<forall>i. s \<le> i \<longrightarrow> i < s + cnt \<longrightarrow> \<not> bit_at b i))"
proof (induction b cnt left nxt count rule: scan_run.induct)
  case (1 b cnt left nxt count)
  show ?case
  proof (cases "0 < left")
    case False
    with "1.prems"(1) show ?thesis by (simp add: scan_run.simps [of b cnt left])
  next
    case True
    with "1.prems"(1) have mem: "nxt div 8 < length (bits b)"
      by (auto simp: scan_run.simps [of b cnt left] scan_test_eq split: if_splits)
    define c where "c = (if \<not> bit_at b nxt then count + 1 else 0)"
    have step: "(if c = cnt then Some (int nxt - int cnt + 1)
        else scan_run b cnt (left - 1) (nxt + 1) c) = Some r"
      using "1.prems"(1) True mem
      by (simp add: scan_run.simps [of b cnt left] scan_test_eq c_def Let_def split: if_splits)
    have clear: "\<forall>i. nxt + 1 - c \<le> i \<longrightarrow> i < nxt + 1 \<longrightarrow> \<not> bit_at b i"
      using "1.prems"(4) by (auto simp: c_def less_add_1)
    have c_le: "c \<le> nxt + 1" using "1.prems"(3) by (simp add: c_def)
    show ?thesis
    proof (cases "c = cnt")
      case hit: True
      with step c_le have "r = int (nxt + 1 - cnt)" by auto
      moreover have "\<forall>i. nxt + 1 - cnt \<le> i \<longrightarrow> i < nxt + 1 - cnt + cnt \<longrightarrow> \<not> bit_at b i"
        using clear hit c_le by auto
      moreover have "nxt + 1 - cnt + cnt \<le> nxt + left" using True hit c_le by linarith
      ultimately show ?thesis by blast
    next
      case miss: False
      have c_lt: "c < cnt" using miss "1.prems"(2) by (auto simp: c_def)
      from mem have tst: "bitmap_scan_test b nxt = Some (bit_at b nxt)" by (simp add: scan_test_eq)
      from step miss have "scan_run b cnt (left - 1) (nxt + 1) c = Some r" by simp
      from "1.IH" [OF True tst c_def miss this c_lt c_le clear]
      have "r = - 1 \<or> (\<exists>s. r = int s \<and> s + cnt \<le> nxt + 1 + (left - 1)
          \<and> (\<forall>i. s \<le> i \<longrightarrow> i < s + cnt \<longrightarrow> \<not> bit_at b i))" .
      with True show ?thesis by simp
    qed
  qed
qed

lemma scan_spec:
  assumes "bitmap_scan b cnt = Some r" and "0 < cnt"
  shows "r = - 1 \<or> (\<exists>s. r = int s \<and> s < nbits b \<and> s + cnt \<le> nbits b + 1
     \<and> (\<forall>i. s \<le> i \<longrightarrow> i < s + cnt \<longrightarrow> \<not> bit_at b i))"
proof (cases "cnt = 1")
  case True
  with assms scan_one_cases [of b r] obtain s where "r = int s" "first_clear b s" by auto
  with True show ?thesis by (auto simp: first_clear_def less_add_1)
next
  case False
  from assms(1) obtain k where k: "scan_byte b 0 = Some k" "k < btmp_bytes_len b"
    by (auto simp: bitmap_scan_def outcome_simps)
  define s0 where "s0 = k * 8 + scan_bit (bits b ! k) 0"
  have fc: "first_clear b s0" unfolding s0_def using k by (rule scan_start_first_clear)
  have run: "scan_run b cnt (nbits b - s0) (s0 + 1) 1 = Some r"
    using assms(1) k False by (simp add: bitmap_scan_def Let_def s0_def mult.commute)
  have "r = - 1 \<or> (\<exists>s. r = int s \<and> s + cnt \<le> s0 + 1 + (nbits b - s0)
      \<and> (\<forall>i. s \<le> i \<longrightarrow> i < s + cnt \<longrightarrow> \<not> bit_at b i))"
    using scan_run_spec [OF run] False assms(2) fc by (auto simp: first_clear_def less_add_1)
  then show ?thesis using fc False assms(2) by (auto simp: first_clear_def)
qed

section \<open>The pool view\<close>

text \<open>
  The pattern of every allocator of the kernel: look for one clear bit, give up on \<open>-1\<close>,
  set the bit.
\<close>

definition bitmap_take :: "bitmap \<Rightarrow> (nat \<times> bitmap) option" where
  "bitmap_take b = do { r \<leftarrow> bitmap_scan b 1;
     b' \<leftarrow> bitmap_set b (nat r) 1; Some (nat r, b') }"

definition bitmap_drop :: "bitmap \<Rightarrow> nat \<Rightarrow> bitmap option" where
  "bitmap_drop b i = bitmap_set b i 0"

lemma bitmap_take_spec:
  assumes "bitmap_take b = Some (i, b')"
  shows "first_clear b i \<and> bitmap_set b i 1 = Some b'"
  using assms by (auto simp: bitmap_take_def outcome_simps dest!: scan_one_cases)

lemma first_clear_unused: "first_clear b i \<Longrightarrow> i < nbits b \<and> i \<notin> used_bits b"
  by (simp add: first_clear_def used_bits_def)

interpretation bitmap_pool: slot_pool bitmap_take bitmap_drop used_bits nbits bitmap_wf
proof (unfold_locales, goal_cases)
  case (1 s i s')
  then have "first_clear s i" "bitmap_set s i 1 = Some s'" by (auto dest: bitmap_take_spec)
  with 1(1) first_clear_unused [of s i] bitmap_set_length [of s i 1 s'] bitmap_wf_set [of s i 1 s']
    used_bits_bitmap_set [of s i 1 s']
  show ?case by simp
next
  case (2 s)
  then obtain i where i: "i < nbits s" "\<not> bit_at s i" by (auto simp: used_bits_def)
  with 2 scan_one_finds [of s i] obtain k where
    k: "bitmap_scan s 1 = Some (int k)" "first_clear s k" by auto
  with 2 obtain s' where "bitmap_set s k 1 = Some s'"
    using bitmap_set_Some [of k s 1] byte_index [of s k] by (auto simp: first_clear_def)
  with k show ?case by (auto simp: bitmap_take_def)
next
  case (3 s i)
  then obtain s' where s': "bitmap_set s i 0 = Some s'"
    using bitmap_set_Some [of i s 0] byte_index [of s i] by auto
  with 3 bitmap_set_length [OF s'] used_bits_bitmap_set [OF s'] bitmap_wf_set [OF s']
  show ?case by (auto simp: bitmap_drop_def)
qed

section \<open>Properties\<close>

text \<open>
  A range of \<open>cnt\<close> bits that \<open>bitmap_scan\<close> returns starts inside the map
  and all its bits read as free; for one bit it is the lowest free one. Its end may
  lie one bit past the map, never further.
\<close>

theorem bitmap_scan_range_free:
  assumes "bitmap_scan b cnt = Some r" and "0 < cnt"
  shows "r = - 1 \<or> (\<exists>s. r = int s \<and> s < nbits b \<and> s + cnt \<le> nbits b + 1
     \<and> (\<forall>i. s \<le> i \<longrightarrow> i < s + cnt \<longrightarrow> \<not> bit_at b i) \<and> (cnt = 1 \<longrightarrow> first_clear b s))"
  using scan_spec [OF assms] scan_one_cases [of b r] assms by auto

definition demo_map :: bitmap where
  "demo_map = \<lparr>btmp_bytes_len = 2, bits = [0xff, 0x13]\<rparr>"

lemma demo_scan: "bitmap_scan demo_map 1 = Some 10" "bitmap_scan demo_map 3 = Some 13"
  by code_simp+

theorem bitmap_scan_range_free_witness:
  "(10 :: int) = - 1 \<or> (\<exists>s. 10 = int s \<and> s < nbits demo_map \<and> s + 1 \<le> nbits demo_map + 1
     \<and> (\<forall>i. s \<le> i \<longrightarrow> i < s + 1 \<longrightarrow> \<not> bit_at demo_map i)
     \<and> ((1 :: nat) = 1 \<longrightarrow> first_clear demo_map s))"
  using bitmap_scan_range_free [OF demo_scan(1)] by simp

text \<open>
  Property C34. As long as the map has a free bit, the pattern of every allocator of the
  kernel, scan for one bit and set it, returns, takes the lowest free bit, marks exactly
  that bit, and releasing it restores the set of used bits.
\<close>

theorem bitmap_take_drop:
  assumes "bitmap_wf b" and "\<exists>i < nbits b. \<not> bit_at b i"
  shows "\<exists>i b1 b2. bitmap_take b = Some (i, b1) \<and> first_clear b i
     \<and> used_bits b1 = insert i (used_bits b)
     \<and> bitmap_drop b1 i = Some b2 \<and> used_bits b2 = used_bits b"
proof -
  from assms have free: "\<exists>i < nbits b. i \<notin> used_bits b" by (auto simp: used_bits_def)
  with assms(1) bitmap_pool.alloc_progress [of b] obtain i b1 where
    t: "bitmap_take b = Some (i, b1)" by blast
  note h = bitmap_pool.alloc_spec [OF assms(1) t]
  with bitmap_pool.release_spec [of b1 i] obtain b2 where d: "bitmap_drop b1 i = Some b2" by auto
  with t h bitmap_take_spec [OF t] bitmap_pool.alloc_release_used [OF assms(1) t d]
  show ?thesis by blast
qed

lemma demo_map_free: "bitmap_wf demo_map" "10 < nbits demo_map" "\<not> bit_at demo_map 10"
  by code_simp+

theorem bitmap_take_drop_witness:
  "\<exists>i b1 b2. bitmap_take demo_map = Some (i, b1) \<and> first_clear demo_map i
     \<and> used_bits b1 = insert i (used_bits demo_map)
     \<and> bitmap_drop b1 i = Some b2 \<and> used_bits b2 = used_bits demo_map"
  by (rule bitmap_take_drop) (use demo_map_free in blast)+

end
