(* ===== verification/Klist.thy ===== *)
theory Klist
  imports Prelude
begin

text \<open>
  \<open>src/src/lib/kernel/list.c\<close>: intrusive doubly linked lists with a head and a tail
  sentinel. The heap maps the address of a \<open>struct list_elem\<close> to its two links; a
  dereference of an unmapped address is \<open>None\<close>. The functions run with interrupts off,
  so each is one atomic step of the heap. \<open>klist_rel\<close> relates a list in the heap to the
  sequence of its element addresses.
\<close>

record list_elem =
  prev :: nat
  "next" :: nat

type_synonym heap = "nat \<rightharpoonup> list_elem"

text \<open>\<open>struct list\<close> is named by the addresses of its two sentinels.\<close>

record klist =
  head :: nat
  tail :: nat

definition NULL :: nat where
  "NULL = 0"

definition get_next :: "heap \<Rightarrow> nat \<Rightarrow> nat option" where
  "get_next h a = map_option next (h a)"

definition get_prev :: "heap \<Rightarrow> nat \<Rightarrow> nat option" where
  "get_prev h a = map_option prev (h a)"

definition set_next :: "heap \<Rightarrow> nat \<Rightarrow> nat \<Rightarrow> heap option" where
  "set_next h a v = map_option (\<lambda>n. h(a \<mapsto> n\<lparr>next := v\<rparr>)) (h a)"

definition set_prev :: "heap \<Rightarrow> nat \<Rightarrow> nat \<Rightarrow> heap option" where
  "set_prev h a v = map_option (\<lambda>n. h(a \<mapsto> n\<lparr>prev := v\<rparr>)) (h a)"

definition list_init :: "heap \<Rightarrow> klist \<Rightarrow> heap option" where
  "list_init h l =
     do { h \<leftarrow> set_prev h (head l) NULL;
          h \<leftarrow> set_next h (head l) (tail l);
          h \<leftarrow> set_prev h (tail l) (head l);
          set_next h (tail l) NULL }"

definition list_insert_before :: "heap \<Rightarrow> nat \<Rightarrow> nat \<Rightarrow> heap option" where
  "list_insert_before h before elem =
     do { p \<leftarrow> get_prev h before;
          h \<leftarrow> set_next h p elem;
          p \<leftarrow> get_prev h before;
          h \<leftarrow> set_prev h elem p;
          h \<leftarrow> set_next h elem before;
          set_prev h before elem }"

definition list_push :: "heap \<Rightarrow> klist \<Rightarrow> nat \<Rightarrow> heap option" where
  "list_push h l elem =
     do { first \<leftarrow> get_next h (head l); list_insert_before h first elem }"

definition list_append :: "heap \<Rightarrow> klist \<Rightarrow> nat \<Rightarrow> heap option" where
  "list_append h l elem = list_insert_before h (tail l) elem"

definition list_remove :: "heap \<Rightarrow> nat \<Rightarrow> heap option" where
  "list_remove h pelem =
     do { p \<leftarrow> get_prev h pelem;
          n \<leftarrow> get_next h pelem;
          h \<leftarrow> set_next h p n;
          n \<leftarrow> get_next h pelem;
          p \<leftarrow> get_prev h pelem;
          set_prev h n p }"

definition list_pop :: "heap \<Rightarrow> klist \<Rightarrow> (nat \<times> heap) option" where
  "list_pop h l =
     do { elem \<leftarrow> get_next h (head l);
          h \<leftarrow> list_remove h elem;
          Some (elem, h) }"

partial_function (option) elem_find_from :: "heap \<Rightarrow> klist \<Rightarrow> nat \<Rightarrow> nat \<Rightarrow> bool option" where
  "elem_find_from h l obj_elem elem =
     (if elem = tail l then Some False
      else if elem = obj_elem then Some True
      else do { n \<leftarrow> get_next h elem; elem_find_from h l obj_elem n })"

definition elem_find :: "heap \<Rightarrow> klist \<Rightarrow> nat \<Rightarrow> bool option" where
  "elem_find h l obj_elem =
     do { first \<leftarrow> get_next h (head l); elem_find_from h l obj_elem first }"

definition list_empty :: "heap \<Rightarrow> klist \<Rightarrow> bool option" where
  "list_empty h l = do { first \<leftarrow> get_next h (head l); Some (first = tail l) }"

text \<open>
  \<open>list_traversal\<close> calls back with the element and an argument. The callbacks of the
  kernel change other objects (\<open>init_adopt_a_child\<close>), so the callback threads a state.
\<close>

partial_function (option) traverse_from ::
    "heap \<Rightarrow> klist \<Rightarrow> (nat \<Rightarrow> int \<Rightarrow> 's \<Rightarrow> bool \<times> 's) \<Rightarrow> int \<Rightarrow> nat \<Rightarrow> 's \<Rightarrow> (nat \<times> 's) option" where
  "traverse_from h l func arg elem s =
     (if elem = tail l then Some (NULL, s)
      else case func elem arg s of (hit, s') \<Rightarrow>
        if hit then Some (elem, s')
        else do { n \<leftarrow> get_next h elem; traverse_from h l func arg n s' })"

definition list_traversal ::
    "heap \<Rightarrow> klist \<Rightarrow> (nat \<Rightarrow> int \<Rightarrow> 's \<Rightarrow> bool \<times> 's) \<Rightarrow> int \<Rightarrow> 's \<Rightarrow> (nat \<times> 's) option" where
  "list_traversal h l func arg s =
     do { elem \<leftarrow> get_next h (head l);
          e \<leftarrow> list_empty h l;
          if e then Some (NULL, s) else traverse_from h l func arg elem s }"

partial_function (option) len_from :: "heap \<Rightarrow> klist \<Rightarrow> nat \<Rightarrow> nat \<Rightarrow> nat option" where
  "len_from h l elem n =
     (if elem = tail l then Some n
      else do { nx \<leftarrow> get_next h elem; len_from h l nx (w32 (n + 1)) })"

definition list_len :: "heap \<Rightarrow> klist \<Rightarrow> nat option" where
  "list_len h l = do { elem \<leftarrow> get_next h (head l); len_from h l elem 0 }"

section \<open>Abstraction to sequences\<close>

definition adj :: "heap \<Rightarrow> nat \<Rightarrow> nat \<Rightarrow> bool" where
  "adj h a b \<longleftrightarrow> get_next h a = Some b \<and> get_prev h b = Some a"

definition cells :: "klist \<Rightarrow> nat list \<Rightarrow> nat list" where
  "cells l xs = head l # xs @ [tail l]"

definition klist_rel :: "heap \<Rightarrow> klist \<Rightarrow> nat list \<Rightarrow> bool" where
  "klist_rel h l xs \<longleftrightarrow> distinct (cells l xs) \<and> successively (adj h) (cells l xs)"

lemma link_of_update [simp]:
  "get_next (h(a \<mapsto> n)) b = (if b = a then Some (next n) else get_next h b)"
  "get_prev (h(a \<mapsto> n)) b = (if b = a then Some (prev n) else get_prev h b)"
  by (simp_all add: get_next_def get_prev_def)

lemma set_link_eq_Some:
  "set_next h a v = Some h' \<longleftrightarrow> (\<exists>n. h a = Some n \<and> h' = h(a \<mapsto> n\<lparr>next := v\<rparr>))"
  "set_prev h a v = Some h' \<longleftrightarrow> (\<exists>n. h a = Some n \<and> h' = h(a \<mapsto> n\<lparr>prev := v\<rparr>))"
  by (auto simp: set_next_def set_prev_def)

lemma get_link_eq_Some:
  "get_next h a = Some b \<longleftrightarrow> (\<exists>n. h a = Some n \<and> next n = b)"
  "get_prev h a = Some b \<longleftrightarrow> (\<exists>n. h a = Some n \<and> prev n = b)"
  by (auto simp: get_next_def get_prev_def)

lemmas link_simps = set_link_eq_Some get_link_eq_Some outcome_simps

lemma successively_frame:
  "(\<And>a. a \<in> set (butlast xs) \<Longrightarrow> get_next h' a = get_next h a) \<Longrightarrow>
   (\<And>a. a \<in> set (tl xs) \<Longrightarrow> get_prev h' a = get_prev h a) \<Longrightarrow>
   successively (adj h) xs \<Longrightarrow> successively (adj h') xs"
proof (induction xs)
  case Nil
  then show ?case by simp
next
  case (Cons x xs)
  show ?case
  proof (cases xs)
    case Nil
    then show ?thesis by simp
  next
    case (Cons y ys)
    have "successively (adj h') xs"
    proof (rule Cons.IH)
      show "get_next h' a = get_next h a" if "a \<in> set (butlast xs)" for a
        using Cons.prems(1) that Cons by auto
      show "get_prev h' a = get_prev h a" if "a \<in> set (tl xs)" for a
        using Cons.prems(2) that Cons by auto
      show "successively (adj h) xs"
        using Cons.prems(3) Cons by (auto simp: successively_Cons)
    qed
    moreover have "adj h' x y"
      using Cons.prems Cons by (simp add: successively_Cons adj_def)
    ultimately show ?thesis using Cons by (simp add: successively_Cons)
  qed
qed

lemma cells_split: "\<exists>as p b bs. head l # xs = as @ [p] \<and> ys @ [tail l] = b # bs
    \<and> cells l (xs @ ys) = as @ p # b # bs"
  by (rule exI [of _ "butlast (head l # xs)"], rule exI [of _ "last (head l # xs)"],
      rule exI [of _ "hd (ys @ [tail l])"], rule exI [of _ "tl (ys @ [tail l])"])
    (simp add: cells_def)

lemma in_set_tlD: "x \<in> set (tl xs) \<Longrightarrow> x \<in> set xs"
  by (cases xs) auto

text \<open>The general insertion: between the neighbours \<open>p\<close> and \<open>b\<close>.\<close>

lemma insert_between:
  assumes succ: "successively (adj h) (as @ p # b # bs)" and dis: "distinct (as @ p # b # bs)"
    and e: "h e = Some n" "e \<notin> set (as @ p # b # bs)"
  shows "\<exists>h'. list_insert_before h b e = Some h' \<and> successively (adj h') (as @ p # e # b # bs)
    \<and> (\<forall>a. a \<notin> {p, b, e} \<longrightarrow> h' a = h a)"
proof -
  from succ have pb: "adj h p b" and A: "successively (adj h) (as @ [p])"
    and B: "successively (adj h) (b # bs)"
    by (auto simp: successively_append_iff successively_Cons)
  from pb obtain np nb where np: "h p = Some np" and nb: "h b = Some nb" "prev nb = p"
    by (auto simp: adj_def get_link_eq_Some)
  have ne: "p \<noteq> b" "e \<noteq> p" "e \<noteq> b" using dis e(2) by auto
  let ?h' = "h(p \<mapsto> np\<lparr>next := e\<rparr>, e \<mapsto> n\<lparr>prev := p, next := b\<rparr>, b \<mapsto> nb\<lparr>prev := e\<rparr>)"
  have run: "list_insert_before h b e = Some ?h'"
    using np nb e(1) ne
    by (auto simp: list_insert_before_def set_next_def set_prev_def get_prev_def fun_upd_twist)
  have A': "successively (adj ?h') (as @ [p])"
    by (rule successively_frame [OF _ _ A]) (use dis e(2) ne np in
        \<open>auto simp: get_link_eq_Some get_prev_def dest: in_set_tlD\<close>)
  have B': "successively (adj ?h') (b # bs)"
    by (rule successively_frame [OF _ _ B])
      (use dis e(2) ne nb in \<open>auto simp: get_next_def get_prev_def dest: in_set_butlastD split: if_splits\<close>)
  have "adj ?h' p e" "adj ?h' e b" using ne by (auto simp: adj_def)
  with A' B' have "successively (adj ?h') (as @ p # e # b # bs)"
    by (auto simp: successively_append_iff successively_Cons)
  with run show ?thesis by auto
qed

lemma remove_between:
  assumes succ: "successively (adj h) (as @ p # e # b # bs)" and dis: "distinct (as @ p # e # b # bs)"
  shows "\<exists>h'. list_remove h e = Some h' \<and> successively (adj h') (as @ p # b # bs)
    \<and> (\<forall>a. a \<notin> {p, b} \<longrightarrow> h' a = h a)"
proof -
  from succ have pe: "adj h p e" and eb: "adj h e b" and A: "successively (adj h) (as @ [p])"
    and B: "successively (adj h) (b # bs)"
    by (auto simp: successively_append_iff successively_Cons)
  from pe eb obtain np ne nb where np: "h p = Some np" and ne: "h e = Some ne" "prev ne = p" "next ne = b"
    and nb: "h b = Some nb"
    by (auto simp: adj_def get_link_eq_Some)
  have d: "p \<noteq> b" "e \<noteq> p" "e \<noteq> b" using dis by auto
  let ?h' = "h(p \<mapsto> np\<lparr>next := b\<rparr>, b \<mapsto> nb\<lparr>prev := p\<rparr>)"
  have run: "list_remove h e = Some ?h'"
    using np ne nb d
    by (auto simp: list_remove_def set_next_def set_prev_def get_prev_def get_next_def)
  have A': "successively (adj ?h') (as @ [p])"
    by (rule successively_frame [OF _ _ A])
      (use dis d np in \<open>auto simp: get_link_eq_Some get_prev_def dest: in_set_tlD\<close>)
  have B': "successively (adj ?h') (b # bs)"
    by (rule successively_frame [OF _ _ B])
      (use dis d nb in \<open>auto simp: get_next_def get_prev_def dest: in_set_butlastD split: if_splits\<close>)
  have "adj ?h' p b" using d by (auto simp: adj_def)
  with A' B' have "successively (adj ?h') (as @ p # b # bs)"
    by (auto simp: successively_append_iff successively_Cons)
  with run show ?thesis by auto
qed

section \<open>Each operation implements its operation on sequences\<close>

lemma klist_relD:
  "klist_rel h l xs \<Longrightarrow> distinct (cells l xs)"
  "klist_rel h l xs \<Longrightarrow> successively (adj h) (cells l xs)"
  by (auto simp: klist_rel_def)

lemma insert_before_rel:
  assumes r: "klist_rel h l (xs @ ys)" and e: "h e = Some n" "e \<notin> set (cells l (xs @ ys))"
  shows "\<exists>h'. list_insert_before h (hd (ys @ [tail l])) e = Some h' \<and> klist_rel h' l (xs @ e # ys)
    \<and> (\<forall>a. a \<notin> insert e (set (cells l (xs @ ys))) \<longrightarrow> h' a = h a)"
proof -
  obtain as p b bs where c: "head l # xs = as @ [p]" "ys @ [tail l] = b # bs"
    "cells l (xs @ ys) = as @ p # b # bs"
    using cells_split by blast
  from insert_between [of h as p b bs e n] klist_relD [OF r] e c(3) obtain h' where
    h': "list_insert_before h b e = Some h'" "successively (adj h') (as @ p # e # b # bs)"
    "\<forall>a. a \<notin> {p, b, e} \<longrightarrow> h' a = h a" by auto
  have cells': "cells l (xs @ e # ys) = as @ p # e # b # bs"
    using c(1,2) by (simp add: cells_def)
  moreover have "distinct (as @ p # e # b # bs)"
    using klist_relD(1) [OF r] e(2) c(3) by auto
  ultimately show ?thesis using h' c by (auto simp: klist_rel_def)
qed

lemma first_link: "klist_rel h l xs \<Longrightarrow> get_next h (head l) = Some (hd (xs @ [tail l]))"
  by (cases xs) (auto simp: klist_rel_def cells_def successively_Cons adj_def)

lemma list_init_rel:
  assumes "head l \<noteq> tail l" "h (head l) \<noteq> None" "h (tail l) \<noteq> None"
  shows "\<exists>h'. list_init h l = Some h' \<and> klist_rel h' l []"
  using assms by (auto simp: list_init_def set_next_def set_prev_def klist_rel_def cells_def adj_def)

lemma list_push_rel:
  assumes "klist_rel h l xs" "h e = Some n" "e \<notin> set (cells l xs)"
  shows "\<exists>h'. list_push h l e = Some h' \<and> klist_rel h' l (e # xs)
    \<and> (\<forall>a. a \<notin> insert e (set (cells l xs)) \<longrightarrow> h' a = h a)"
  using insert_before_rel [of h l "[]" xs e n] assms first_link [of h l xs]
  by (simp add: list_push_def)

lemma list_append_rel:
  assumes "klist_rel h l xs" "h e = Some n" "e \<notin> set (cells l xs)"
  shows "\<exists>h'. list_append h l e = Some h' \<and> klist_rel h' l (xs @ [e])
    \<and> (\<forall>a. a \<notin> insert e (set (cells l xs)) \<longrightarrow> h' a = h a)"
  using insert_before_rel [of h l xs "[]" e n] assms by (simp add: list_append_def)

lemma list_remove_rel:
  assumes r: "klist_rel h l (xs @ e # ys)"
  shows "\<exists>h'. list_remove h e = Some h' \<and> klist_rel h' l (xs @ ys)
    \<and> (\<forall>a. a \<notin> set (cells l (xs @ ys)) \<longrightarrow> h' a = h a)"
proof -
  obtain as p b bs where c: "head l # xs = as @ [p]" "ys @ [tail l] = b # bs"
    "cells l (xs @ ys) = as @ p # b # bs"
    using cells_split by blast
  have cells': "cells l (xs @ e # ys) = as @ p # e # b # bs"
    using c(1,2) by (simp add: cells_def)
  from remove_between [of h as p e b bs] klist_relD [OF r] cells' obtain h' where
    h': "list_remove h e = Some h'" "successively (adj h') (as @ p # b # bs)"
    "\<forall>a. a \<notin> {p, b} \<longrightarrow> h' a = h a" by auto
  moreover have "distinct (as @ p # b # bs)"
    using klist_relD(1) [OF r] cells' by auto
  ultimately show ?thesis using c(3) by (auto simp: klist_rel_def)
qed

lemma list_pop_rel:
  assumes "klist_rel h l (x # xs)"
  shows "\<exists>h'. list_pop h l = Some (x, h') \<and> klist_rel h' l xs
    \<and> (\<forall>a. a \<notin> set (cells l xs) \<longrightarrow> h' a = h a)"
  using list_remove_rel [of h l "[]" x xs] first_link [OF assms] assms
  by (auto simp: list_pop_def)

lemma list_empty_rel: "klist_rel h l xs \<Longrightarrow> list_empty h l = Some (xs = [])"
proof -
  assume r: "klist_rel h l xs"
  then have "hd (xs @ [tail l]) = tail l \<longleftrightarrow> xs = []"
    by (cases xs) (auto simp: klist_rel_def cells_def)
  with first_link [OF r] show ?thesis by (simp add: list_empty_def)
qed

lemma linked_tail:
  "successively (adj h) (x # xs @ [t]) \<Longrightarrow> get_next h x = Some (hd (xs @ [t]))"
  by (cases xs) (auto simp: successively_Cons adj_def)

lemma elem_find_from_rel:
  "successively (adj h) (xs @ [tail l]) \<Longrightarrow> tail l \<notin> set xs \<Longrightarrow>
     elem_find_from h l e (hd (xs @ [tail l])) = Some (e \<in> set xs)"
proof (induction xs)
  case Nil
  then show ?case by (simp add: elem_find_from.simps)
next
  case (Cons x xs)
  have nx: "get_next h x = Some (hd (xs @ [tail l]))"
    using Cons.prems(1) linked_tail by fastforce
  have "successively (adj h) (xs @ [tail l])"
    using Cons.prems(1) by (cases xs) (auto simp: successively_Cons)
  with Cons have "elem_find_from h l e (hd (xs @ [tail l])) = Some (e \<in> set xs)" by simp
  with Cons.prems(2) nx show ?case by (subst elem_find_from.simps) auto
qed

lemma len_from_rel:
  "successively (adj h) (xs @ [tail l]) \<Longrightarrow> tail l \<notin> set xs \<Longrightarrow>
     n + length xs < 4294967296 \<Longrightarrow> len_from h l (hd (xs @ [tail l])) n = Some (n + length xs)"
proof (induction xs arbitrary: n)
  case Nil
  then show ?case by (simp add: len_from.simps)
next
  case (Cons x xs)
  have nx: "get_next h x = Some (hd (xs @ [tail l]))"
    using Cons.prems(1) linked_tail by fastforce
  have "successively (adj h) (xs @ [tail l])"
    using Cons.prems(1) by (cases xs) (auto simp: successively_Cons)
  with Cons have "len_from h l (hd (xs @ [tail l])) (n + 1) = Some (n + 1 + length xs)" by simp
  with Cons.prems nx show ?case by (subst len_from.simps) auto
qed

text \<open>The abstract traversal: the callback runs over the sequence until it hits.\<close>

fun traverse :: "(nat \<Rightarrow> int \<Rightarrow> 's \<Rightarrow> bool \<times> 's) \<Rightarrow> int \<Rightarrow> nat list \<Rightarrow> 's \<Rightarrow> nat \<times> 's" where
  "traverse func arg [] s = (NULL, s)"
| "traverse func arg (x # xs) s =
     (case func x arg s of (hit, s') \<Rightarrow> if hit then (x, s') else traverse func arg xs s')"

lemma traverse_from_rel:
  "successively (adj h) (xs @ [tail l]) \<Longrightarrow> tail l \<notin> set xs \<Longrightarrow>
     traverse_from h l func arg (hd (xs @ [tail l])) s = Some (traverse func arg xs s)"
proof (induction xs arbitrary: s)
  case Nil
  then show ?case by (simp add: traverse_from.simps)
next
  case (Cons x xs)
  have nx: "get_next h x = Some (hd (xs @ [tail l]))"
    using Cons.prems(1) linked_tail by fastforce
  have "successively (adj h) (xs @ [tail l])"
    using Cons.prems(1) by (cases xs) (auto simp: successively_Cons)
  with Cons have "traverse_from h l func arg (hd (xs @ [tail l])) s' = Some (traverse func arg xs s')"
    for s' by simp
  with Cons.prems(2) nx show ?case
    by (subst traverse_from.simps) (auto split: prod.splits)
qed

lemma cells_tail: "klist_rel h l xs \<Longrightarrow> successively (adj h) (xs @ [tail l]) \<and> tail l \<notin> set xs"
  by (cases xs) (auto simp: klist_rel_def cells_def successively_Cons)

lemma elem_find_rel: "klist_rel h l xs \<Longrightarrow> elem_find h l e = Some (e \<in> set xs)"
  using elem_find_from_rel [of h xs l e] cells_tail [of h l xs] first_link [of h l xs]
  by (simp add: elem_find_def)

lemma list_len_rel:
  "klist_rel h l xs \<Longrightarrow> length xs < 4294967296 \<Longrightarrow> list_len h l = Some (length xs)"
  using len_from_rel [of h xs l 0] cells_tail [of h l xs] first_link [of h l xs]
  by (simp add: list_len_def)

lemma list_traversal_rel:
  "klist_rel h l xs \<Longrightarrow> list_traversal h l func arg s = Some (traverse func arg xs s)"
  using traverse_from_rel [of h xs l func arg s] cells_tail [of h l xs] first_link [of h l xs]
    list_empty_rel [of h l xs]
  by (cases xs) (auto simp: list_traversal_def)

section \<open>The queue the scheduler and the wait lists use\<close>

text \<open>
  What \<open>thread.c\<close> and \<open>sync.c\<close> rely on: a list to whose end an element is appended and
  whose first element is popped. \<open>rel s xs\<close> says the state holds the sequence \<open>xs\<close>;
  \<open>fresh s e\<close> that \<open>e\<close> is an element that can be linked.
\<close>

fun pop_n :: "('s \<Rightarrow> ('e \<times> 's) option) \<Rightarrow> nat \<Rightarrow> 's \<Rightarrow> ('e list \<times> 's) option" where
  "pop_n pop 0 s = Some ([], s)"
| "pop_n pop (Suc n) s = do { (x, s1) \<leftarrow> pop s; (xs, s2) \<leftarrow> pop_n pop n s1; Some (x # xs, s2) }"

fun rotate_n :: "('s \<Rightarrow> ('e \<times> 's) option) \<Rightarrow> ('s \<Rightarrow> 'e \<Rightarrow> 's option) \<Rightarrow> nat \<Rightarrow> 's \<Rightarrow> 's option" where
  "rotate_n pop app 0 s = Some s"
| "rotate_n pop app (Suc n) s = do { (x, s1) \<leftarrow> pop s; s2 \<leftarrow> app s1 x; rotate_n pop app n s2 }"

locale fifo_list =
  fixes rel :: "'s \<Rightarrow> 'e list \<Rightarrow> bool"
    and fresh :: "'s \<Rightarrow> 'e \<Rightarrow> bool"
    and app :: "'s \<Rightarrow> 'e \<Rightarrow> 's option"
    and pop :: "'s \<Rightarrow> ('e \<times> 's) option"
  assumes app_spec: "rel s xs \<Longrightarrow> fresh s e \<Longrightarrow> e \<notin> set xs \<Longrightarrow>
      \<exists>s'. app s e = Some s' \<and> rel s' (xs @ [e])"
    and pop_spec: "rel s (x # xs) \<Longrightarrow>
      \<exists>s'. pop s = Some (x, s') \<and> rel s' xs \<and> fresh s' x"
    and rel_distinct: "rel s xs \<Longrightarrow> distinct xs"
begin

lemma pop_all: "rel s (xs @ ys) \<Longrightarrow> \<exists>s'. pop_n pop (length xs) s = Some (xs, s') \<and> rel s' ys"
proof (induction xs arbitrary: s)
  case Nil
  then show ?case by simp
next
  case (Cons x xs)
  with pop_spec [of s x "xs @ ys"] obtain s1 where "pop s = Some (x, s1)" "rel s1 (xs @ ys)" by auto
  with Cons.IH [of s1] show ?case by auto
qed

lemma rotate_one:
  assumes "rel s (x # xs)"
  shows "\<exists>s1 s2. pop s = Some (x, s1) \<and> app s1 x = Some s2 \<and> rel s2 (xs @ [x])"
proof -
  from pop_spec [OF assms] obtain s1 where s1: "pop s = Some (x, s1)" "rel s1 xs" "fresh s1 x" by auto
  with rel_distinct [OF assms] app_spec [of s1 xs x] show ?thesis by auto
qed

lemma rotate_rel:
  "rel s (xs @ ys) \<Longrightarrow> \<exists>s'. rotate_n pop app (length xs) s = Some s' \<and> rel s' (ys @ xs)"
proof (induction xs arbitrary: s ys)
  case Nil
  then show ?case by simp
next
  case (Cons x xs)
  with rotate_one [of s x "xs @ ys"] obtain s1 s2 where
    "pop s = Some (x, s1)" "app s1 x = Some s2" "rel s2 (xs @ (ys @ [x]))" by auto
  with Cons.IH [of s2 "ys @ [x]"] show ?case by auto
qed

end

definition klist_state_rel :: "heap \<times> klist \<Rightarrow> nat list \<Rightarrow> bool" where
  "klist_state_rel s xs = klist_rel (fst s) (snd s) xs"

definition klist_fresh :: "heap \<times> klist \<Rightarrow> nat \<Rightarrow> bool" where
  "klist_fresh s e \<longleftrightarrow> fst s e \<noteq> None \<and> e \<noteq> head (snd s) \<and> e \<noteq> tail (snd s)"

definition klist_app :: "heap \<times> klist \<Rightarrow> nat \<Rightarrow> (heap \<times> klist) option" where
  "klist_app s e = map_option (\<lambda>h. (h, snd s)) (list_append (fst s) (snd s) e)"

definition klist_pop :: "heap \<times> klist \<Rightarrow> (nat \<times> heap \<times> klist) option" where
  "klist_pop s = map_option (\<lambda>(e, h). (e, h, snd s)) (list_pop (fst s) (snd s))"

lemma klist_rel_mapped: "klist_rel h l (x # xs) \<Longrightarrow> h x \<noteq> None"
  by (auto simp: klist_rel_def cells_def successively_Cons adj_def get_link_eq_Some)

interpretation kq: fifo_list klist_state_rel klist_fresh klist_app klist_pop
proof (unfold_locales, goal_cases)
  case (1 s xs e)
  with list_append_rel [of "fst s" "snd s" xs e] show ?case
    by (auto simp: klist_state_rel_def klist_fresh_def klist_app_def cells_def)
next
  case (2 s x xs)
  then have r: "klist_rel (fst s) (snd s) (x # xs)" by (simp add: klist_state_rel_def)
  from list_pop_rel [OF r] obtain h' where h': "list_pop (fst s) (snd s) = Some (x, h')"
    "klist_rel h' (snd s) xs" "\<forall>a. a \<notin> set (cells (snd s) xs) \<longrightarrow> h' a = fst s a" by auto
  have "distinct (cells (snd s) (x # xs))" using r by (simp add: klist_rel_def)
  then have "x \<notin> set (cells (snd s) xs)" by (auto simp: cells_def)
  with h' klist_rel_mapped [OF r] show ?case
    by (auto simp: klist_state_rel_def klist_fresh_def klist_pop_def cells_def)
next
  case (3 s xs)
  then show ?case by (simp add: klist_state_rel_def klist_rel_def cells_def)
qed

section \<open>Properties\<close>

text \<open>
  Property C25. Every list operation, run on the linked cells, is its operation on the
  sequence of elements: append, push, pop, unlinking from the middle, membership and
  length; no cell outside the list is written.
\<close>

theorem klist_refines_sequences:
  assumes r: "klist_rel h l (xs @ x # ys)" and e: "h e \<noteq> None" "e \<notin> set (cells l (xs @ x # ys))"
    and n: "length (xs @ x # ys) < 4294967296"
  shows "(\<exists>h'. list_append h l e = Some h' \<and> klist_rel h' l (xs @ x # ys @ [e])
        \<and> (\<forall>a. a \<notin> insert e (set (cells l (xs @ x # ys))) \<longrightarrow> h' a = h a))
    \<and> (\<exists>h'. list_push h l e = Some h' \<and> klist_rel h' l (e # xs @ x # ys))
    \<and> (\<exists>h'. list_remove h x = Some h' \<and> klist_rel h' l (xs @ ys))
    \<and> (\<exists>h'. list_pop h l = Some (hd (xs @ [x]), h') \<and> klist_rel h' l (tl (xs @ x # ys)))
    \<and> elem_find h l x = Some True \<and> elem_find h l e = Some False
    \<and> list_len h l = Some (length xs + length ys + 1)"
proof -
  from e(1) obtain n where h: "h e = Some n" by auto
  have "e \<notin> set (xs @ x # ys)" using e(2) by (simp add: cells_def)
  moreover have "\<exists>h'. list_pop h l = Some (hd (xs @ [x]), h') \<and> klist_rel h' l (tl (xs @ x # ys))"
    using list_pop_rel [of h l x ys] list_pop_rel [of h l "hd xs" "tl xs @ x # ys"] r
    by (cases xs) auto
  ultimately show ?thesis
    using list_append_rel [OF r h e(2)] list_push_rel [OF r h e(2)] list_remove_rel [OF r]
      elem_find_rel [OF r] list_len_rel [OF r n] by auto
qed

definition demo_list :: klist where
  "demo_list = \<lparr>head = 100, tail = 101\<rparr>"

definition demo_heap :: heap where
  "demo_heap = [100 \<mapsto> \<lparr>prev = 0, next = 1\<rparr>, 1 \<mapsto> \<lparr>prev = 100, next = 2\<rparr>,
     2 \<mapsto> \<lparr>prev = 1, next = 101\<rparr>, 101 \<mapsto> \<lparr>prev = 2, next = 0\<rparr>, 5 \<mapsto> \<lparr>prev = 0, next = 0\<rparr>]"

lemma demo_rel: "klist_rel demo_heap demo_list ([1] @ 2 # [])"
  by (simp add: klist_rel_def cells_def demo_heap_def demo_list_def adj_def get_next_def get_prev_def)

theorem klist_refines_sequences_witness:
  "\<exists>h'. list_append demo_heap demo_list 5 = Some h' \<and> klist_rel h' demo_list [1, 2, 5]"
  using klist_refines_sequences [OF demo_rel, of 5]
  by (simp add: demo_heap_def demo_list_def cells_def) blast

text \<open>
  Round robin: when the element popped from the front is appended again, as
  \<open>schedule\<close> does with the ready list, then after \<open>length xs\<close> rounds the elements \<open>xs\<close>
  that were in front have all had their turn, in order, and stand behind the rest.
\<close>

theorem klist_round_robin:
  assumes "klist_rel h l (xs @ ys)"
  shows "\<exists>h'. rotate_n klist_pop klist_app (length xs) (h, l) = Some (h', l) \<and> klist_rel h' l (ys @ xs)"
proof -
  have inv: "rotate_n klist_pop klist_app n s = Some s' \<Longrightarrow> snd s' = snd s" for n s s'
    by (induction n arbitrary: s) (auto simp: outcome_simps klist_pop_def klist_app_def)
  from kq.rotate_rel [of "(h, l)" xs ys] assms obtain s' where
    "rotate_n klist_pop klist_app (length xs) (h, l) = Some s'" "klist_state_rel s' (ys @ xs)"
    by (auto simp: klist_state_rel_def)
  with inv [of "length xs" "(h, l)" s'] show ?thesis by (cases s') (auto simp: klist_state_rel_def)
qed

theorem klist_round_robin_witness:
  "\<exists>h'. rotate_n klist_pop klist_app (length [1 :: nat]) (demo_heap, demo_list) = Some (h', demo_list)
     \<and> klist_rel h' demo_list ([2] @ [1])"
  by (rule klist_round_robin) (use demo_rel in simp)

end
