(* ===== verification/Cstring.thy ===== *)
theory Cstring
  imports Prelude
begin

text \<open>
  \<open>src/src/lib/string.c\<close> over a byte memory: an address is a \<open>nat\<close>, an unmapped address
  read or written is \<open>None\<close>, and so is a loop that runs off the mapped memory. \<open>char\<close> is
  signed on the target, so comparisons of characters read bytes with \<open>sint\<close>; a comparison
  with a \<open>uint8_t\<close> compares the promoted values.
\<close>

type_synonym mem = "nat \<rightharpoonup> u8"

definition st :: "mem \<Rightarrow> nat \<Rightarrow> u8 \<Rightarrow> mem option" where
  "st m a v = (if m a = None then None else Some (m(a \<mapsto> v)))"

fun memset :: "mem \<Rightarrow> nat \<Rightarrow> u8 \<Rightarrow> nat \<Rightarrow> mem option" where
  "memset m dst v 0 = Some m"
| "memset m dst v (Suc n) = do { m \<leftarrow> st m dst v; memset m (Suc dst) v n }"

fun memcpy :: "mem \<Rightarrow> nat \<Rightarrow> nat \<Rightarrow> nat \<Rightarrow> mem option" where
  "memcpy m dst src 0 = Some m"
| "memcpy m dst src (Suc n) =
     do { c \<leftarrow> m src; m \<leftarrow> st m dst c; memcpy m (Suc dst) (Suc src) n }"

fun memcmp :: "mem \<Rightarrow> nat \<Rightarrow> nat \<Rightarrow> nat \<Rightarrow> int option" where
  "memcmp m a b 0 = Some 0"
| "memcmp m a b (Suc n) =
     do { x \<leftarrow> m a; y \<leftarrow> m b;
          if x \<noteq> y then Some (if sint x > sint y then 1 else - 1)
          else memcmp m (Suc a) (Suc b) n }"

partial_function (option) strcpy_loop :: "mem \<Rightarrow> nat \<Rightarrow> nat \<Rightarrow> mem option" where
  "strcpy_loop m dst src =
     do { c \<leftarrow> m src; m \<leftarrow> st m dst c;
          if c \<noteq> 0 then strcpy_loop m (Suc dst) (Suc src) else Some m }"

definition strcpy :: "mem \<Rightarrow> nat \<Rightarrow> nat \<Rightarrow> (nat \<times> mem) option" where
  "strcpy m dst src = do { m \<leftarrow> strcpy_loop m dst src; Some (dst, m) }"

text \<open>\<open>strncpy\<close>: copy up to and including the zero, then pad; \<open>n\<close> is \<open>end - src\<close>.\<close>

fun strncpy_loop :: "mem \<Rightarrow> nat \<Rightarrow> nat \<Rightarrow> nat \<Rightarrow> mem option" where
  "strncpy_loop m dst src 0 = Some m"
| "strncpy_loop m dst src (Suc n) =
     do { c \<leftarrow> m src; m \<leftarrow> st m dst c;
          if c \<noteq> 0 then strncpy_loop m (Suc dst) (Suc src) n
          else memset m (Suc dst) 0 n }"

definition strncpy :: "mem \<Rightarrow> nat \<Rightarrow> nat \<Rightarrow> nat \<Rightarrow> (nat \<times> mem) option" where
  "strncpy m dst src count = do { m \<leftarrow> strncpy_loop m dst src count; Some (dst, m) }"

partial_function (option) strend :: "mem \<Rightarrow> nat \<Rightarrow> nat option" where
  "strend m p = do { c \<leftarrow> m p; if c \<noteq> 0 then strend m (Suc p) else Some p }"

definition strlen :: "mem \<Rightarrow> nat \<Rightarrow> nat option" where
  "strlen m str = do { p \<leftarrow> strend m str; Some (w32 (p - str)) }"

partial_function (option) strcmp :: "mem \<Rightarrow> nat \<Rightarrow> nat \<Rightarrow> int option" where
  "strcmp m a b =
     do { x \<leftarrow> m a;
          if x = 0 then do { y \<leftarrow> m b; Some (if sint x < sint y then - 1 else of_bool (sint x > sint y)) }
          else do { y \<leftarrow> m b;
               if x = y then strcmp m (Suc a) (Suc b)
               else Some (if sint x < sint y then - 1 else of_bool (sint x > sint y)) } }"

partial_function (option) strncmp_loop :: "mem \<Rightarrow> nat \<Rightarrow> nat \<Rightarrow> nat \<Rightarrow> nat \<Rightarrow> int option" where
  "strncmp_loop m lhs rhs i count =
     do { x \<leftarrow> m lhs;
          y \<leftarrow> (if x = 0 then Some 0 else m rhs);
          if x \<noteq> 0 \<and> x = y \<and> i < count then strncmp_loop m (Suc lhs) (Suc rhs) (Suc i) count
          else if i = count then Some 0
          else do { y \<leftarrow> m rhs;
               Some (if sint x < sint y then - 1 else of_bool (sint x > sint y)) } }"

definition strncmp :: "mem \<Rightarrow> nat \<Rightarrow> nat \<Rightarrow> nat \<Rightarrow> int option" where
  "strncmp m lhs rhs count = strncmp_loop m lhs rhs 0 count"

definition char_is :: "u8 \<Rightarrow> u8 \<Rightarrow> bool" where
  "char_is c ch \<longleftrightarrow> sint c = int (unat ch)"

partial_function (option) strchr :: "mem \<Rightarrow> nat \<Rightarrow> u8 \<Rightarrow> nat option" where
  "strchr m str ch =
     do { c \<leftarrow> m str;
          if c = 0 then Some 0 else if char_is c ch then Some str else strchr m (Suc str) ch }"

partial_function (option) strrchr_loop :: "mem \<Rightarrow> nat \<Rightarrow> u8 \<Rightarrow> nat \<Rightarrow> nat option" where
  "strrchr_loop m str ch last_char =
     do { c \<leftarrow> m str;
          if c = 0 then Some last_char
          else strrchr_loop m (Suc str) ch (if char_is c ch then str else last_char) }"

definition strrchr :: "mem \<Rightarrow> nat \<Rightarrow> u8 \<Rightarrow> nat option" where
  "strrchr m str ch = strrchr_loop m str ch 0"

definition strcat :: "mem \<Rightarrow> nat \<Rightarrow> nat \<Rightarrow> (nat \<times> mem) option" where
  "strcat m dst src = do { p \<leftarrow> strend m dst; m \<leftarrow> strcpy_loop m p src; Some (dst, m) }"

partial_function (option) strchrs_loop :: "mem \<Rightarrow> nat \<Rightarrow> u8 \<Rightarrow> nat \<Rightarrow> nat option" where
  "strchrs_loop m p ch ch_cnt =
     do { c \<leftarrow> m p;
          if c = 0 then Some ch_cnt
          else strchrs_loop m (Suc p) ch (if char_is c ch then w32 (ch_cnt + 1) else ch_cnt) }"

definition strchrs :: "mem \<Rightarrow> nat \<Rightarrow> u8 \<Rightarrow> nat option" where
  "strchrs m str ch = strchrs_loop m str ch 0"

section \<open>Zero-terminated strings\<close>

fun cstr :: "mem \<Rightarrow> nat \<Rightarrow> u8 list \<Rightarrow> bool" where
  "cstr m p [] \<longleftrightarrow> m p = Some 0"
| "cstr m p (c # s) \<longleftrightarrow> m p = Some c \<and> c \<noteq> 0 \<and> cstr m (Suc p) s"

lemma cstr_no_zero: "cstr m p s \<Longrightarrow> 0 \<notin> set s"
  by (induction s arbitrary: p) auto

lemma cstr_frame:
  "cstr m p s \<Longrightarrow> (\<And>a. p \<le> a \<Longrightarrow> a \<le> p + length s \<Longrightarrow> m' a = m a) \<Longrightarrow> cstr m' p s"
  by (induction s arbitrary: p) auto

lemma cstr_unique: "cstr m p s \<Longrightarrow> cstr m p t \<Longrightarrow> s = t"
proof (induction s arbitrary: p t)
  case Nil
  then show ?case by (cases t) auto
next
  case (Cons c s)
  then show ?case by (cases t) auto
qed

lemma strend_cstr: "cstr m p s \<Longrightarrow> strend m p = Some (p + length s)"
  by (induction s arbitrary: p) (simp_all add: strend.simps)

lemma strlen_cstr: "cstr m p s \<Longrightarrow> strlen m p = Some (w32 (length s))"
  by (simp add: strlen_def strend_cstr)

lemma strcpy_loop_cstr:
  "cstr m src s \<Longrightarrow> (\<forall>a. dst \<le> a \<and> a \<le> dst + length s \<longrightarrow> m a \<noteq> None) \<Longrightarrow>
   dst + length s < src \<or> src + length s < dst \<Longrightarrow>
   \<exists>m'. strcpy_loop m dst src = Some m' \<and> cstr m' dst s
     \<and> (\<forall>a. a < dst \<or> dst + length s < a \<longrightarrow> m' a = m a)"
proof (induction s arbitrary: m dst src)
  case Nil
  then show ?case by (auto simp: strcpy_loop.simps st_def)
next
  case (Cons c s)
  let ?m = "m(dst \<mapsto> c)"
  have d: "m dst \<noteq> None" using Cons.prems(2) by auto
  have "cstr ?m (Suc src) s"
    by (rule cstr_frame [of m]) (use Cons.prems in auto)
  moreover have "\<forall>a. Suc dst \<le> a \<and> a \<le> Suc dst + length s \<longrightarrow> ?m a \<noteq> None"
    using Cons.prems(2) by auto
  moreover have "Suc dst + length s < Suc src \<or> Suc src + length s < Suc dst"
    using Cons.prems(3) by auto
  ultimately obtain m' where m': "strcpy_loop ?m (Suc dst) (Suc src) = Some m'"
    "cstr m' (Suc dst) s" "\<forall>a. a < Suc dst \<or> Suc dst + length s < a \<longrightarrow> m' a = ?m a"
    using Cons.IH [of ?m "Suc src" "Suc dst"] by blast
  from Cons.prems(1) have "strcpy_loop m dst src = Some m'"
    using m'(1) d by (subst strcpy_loop.simps) (auto simp: st_def)
  moreover have "cstr m' dst (c # s)" using m' Cons.prems(1) by auto
  ultimately show ?case using m'(3) by (intro exI [of _ m']) auto
qed

text \<open>The order \<open>strcmp\<close> decides: lexicographic on signed characters.\<close>

fun sc_cmp :: "u8 list \<Rightarrow> u8 list \<Rightarrow> int" where
  "sc_cmp [] [] = 0"
| "sc_cmp [] (y # ys) = (if 0 < sint y then - 1 else 1)"
| "sc_cmp (x # xs) [] = (if sint x < 0 then - 1 else 1)"
| "sc_cmp (x # xs) (y # ys) =
     (if x = y then sc_cmp xs ys else if sint x < sint y then - 1 else 1)"

lemma sint_ne_0: "(x :: u8) \<noteq> 0 \<Longrightarrow> sint x \<noteq> 0"
  by (metis signed_0 signed_word_eqI)

lemma strcmp_cstr: "cstr m a s \<Longrightarrow> cstr m b t \<Longrightarrow> strcmp m a b = Some (sc_cmp s t)"
proof (induction s t arbitrary: a b rule: sc_cmp.induct)
  case (4 x xs y ys)
  have "x \<noteq> y \<Longrightarrow> sint x \<noteq> sint y" by (metis signed_word_eqI)
  with 4 show ?case by (subst strcmp.simps) (auto)
qed (use sint_ne_0 in \<open>fastforce simp: strcmp.simps\<close>)+

lemma sc_cmp_eq_0: "0 \<notin> set s \<Longrightarrow> 0 \<notin> set t \<Longrightarrow> sc_cmp s t = 0 \<longleftrightarrow> s = t"
  by (induction s t rule: sc_cmp.induct) auto

lemma sc_cmp_sym: "0 \<notin> set s \<Longrightarrow> 0 \<notin> set t \<Longrightarrow> sc_cmp t s = - sc_cmp s t"
proof (induction s t rule: sc_cmp.induct)
  case (2 y ys)
  then have "sint y \<noteq> 0" using sint_ne_0 [of y] by auto
  then show ?case by (simp add: not_less)
next
  case (3 x xs)
  then have "sint x \<noteq> 0" using sint_ne_0 [of x] by auto
  then show ?case by (simp add: not_less)
next
  case (4 x xs y ys)
  show ?case
  proof (cases "x = y")
    case False
    then have "sint x \<noteq> sint y" by (metis signed_word_eqI)
    with False show ?thesis by (simp add: not_less)
  qed (use 4 in simp)
qed simp

fun first_occ :: "nat \<Rightarrow> u8 list \<Rightarrow> u8 \<Rightarrow> nat" where
  "first_occ p [] ch = 0"
| "first_occ p (c # s) ch = (if char_is c ch then p else first_occ (Suc p) s ch)"

lemma strchr_cstr: "cstr m p s \<Longrightarrow> strchr m p ch = Some (first_occ p s ch)"
  by (induction s arbitrary: p) (auto simp: strchr.simps)

lemma strchrs_loop_cstr:
  "cstr m p s \<Longrightarrow> n + length s < 4294967296 \<Longrightarrow>
     strchrs_loop m p ch n = Some (n + length (filter (\<lambda>c. char_is c ch) s))"
  by (induction s arbitrary: p n) (auto simp: strchrs_loop.simps)

fun last_occ :: "nat \<Rightarrow> u8 list \<Rightarrow> u8 \<Rightarrow> nat \<Rightarrow> nat" where
  "last_occ p [] ch l = l"
| "last_occ p (c # s) ch l = last_occ (Suc p) s ch (if char_is c ch then p else l)"

lemma strrchr_loop_cstr: "cstr m p s \<Longrightarrow> strrchr_loop m p ch l = Some (last_occ p s ch l)"
  by (induction s arbitrary: p l) (auto simp: strrchr_loop.simps)

lemma last_occ_cases:
  "last_occ p s ch l = l \<and> (\<forall>c \<in> set s. \<not> char_is c ch) \<or>
   (\<exists>i < length s. last_occ p s ch l = p + i \<and> char_is (s ! i) ch
      \<and> (\<forall>j. i < j \<longrightarrow> j < length s \<longrightarrow> \<not> char_is (s ! j) ch))"
proof (induction s arbitrary: p l)
  case Nil
  then show ?case by simp
next
  case (Cons c s)
  let ?l = "if char_is c ch then p else l"
  from Cons.IH [of "Suc p" ?l] show ?case
  proof (elim disjE conjE exE)
    assume a: "last_occ (Suc p) s ch ?l = ?l" "\<forall>c \<in> set s. \<not> char_is c ch"
    show ?thesis
    proof (cases "char_is c ch")
      case True
      have "\<not> char_is ((c # s) ! j) ch" if "0 < j" "j < length (c # s)" for j
        using a(2) that by (cases j) auto
      with a(1) True show ?thesis by (intro disjI2 exI [of _ 0]) auto
    qed (use a in auto)
  next
    fix i assume a: "i < length s" "last_occ (Suc p) s ch ?l = Suc p + i" "char_is (s ! i) ch"
      "\<forall>j. i < j \<longrightarrow> j < length s \<longrightarrow> \<not> char_is (s ! j) ch"
    have "\<not> char_is ((c # s) ! j) ch" if "Suc i < j" "j < length (c # s)" for j
      using a(4) that by (cases j) auto
    with a show ?thesis by (intro disjI2 exI [of _ "Suc i"]) auto
  qed
qed

lemma memcpy_spec:
  "(\<forall>a. src \<le> a \<and> a < src + n \<longrightarrow> m a \<noteq> None) \<Longrightarrow>
   (\<forall>a. dst \<le> a \<and> a < dst + n \<longrightarrow> m a \<noteq> None) \<Longrightarrow>
   dst + n \<le> src \<or> src + n \<le> dst \<Longrightarrow>
   \<exists>m'. memcpy m dst src n = Some m' \<and> (\<forall>i < n. m' (dst + i) = m (src + i))
     \<and> (\<forall>a. a < dst \<or> dst + n \<le> a \<longrightarrow> m' a = m a)"
proof (induction n arbitrary: m dst src)
  case 0
  then show ?case by simp
next
  case (Suc n)
  from Suc.prems(1) obtain c where c: "m src = Some c" by auto
  let ?m = "m(dst \<mapsto> c)"
  have d: "m dst \<noteq> None" using Suc.prems(2) by auto
  have s: "\<forall>a. Suc src \<le> a \<and> a < Suc src + n \<longrightarrow> ?m a \<noteq> None"
    and w: "\<forall>a. Suc dst \<le> a \<and> a < Suc dst + n \<longrightarrow> ?m a \<noteq> None"
    and dj: "Suc dst + n \<le> Suc src \<or> Suc src + n \<le> Suc dst"
    using Suc.prems by auto
  from Suc.IH [OF s w dj] obtain m' where m': "memcpy ?m (Suc dst) (Suc src) n = Some m'"
    "\<forall>i < n. m' (Suc dst + i) = ?m (Suc src + i)"
    "\<forall>a. a < Suc dst \<or> Suc dst + n \<le> a \<longrightarrow> m' a = ?m a" by blast
  have "memcpy m dst src (Suc n) = Some m'" using c d m'(1) by (simp add: st_def)
  moreover have "m' (dst + i) = m (src + i)" if "i < Suc n" for i
    using m'(2,3) that Suc.prems(3) c by (cases i) auto
  ultimately show ?case using m'(3) by auto
qed

end
