(* ===== verification/Stdio.thy ===== *)
theory Stdio
  imports Prelude
begin

text \<open>
  \<open>src/src/lib/stdio.c\<close>: number and format printing into a buffer. A buffer is the list of the characters the pointer owns; a store past it is
  \<open>None\<close>. The variable arguments are a list of tagged values; taking one of the wrong
  kind, or one too many, is \<open>None\<close>. The streams of the same file are in theory \<open>Userprog\<close>.
\<close>

abbreviation nul :: char where
  "nul \<equiv> CHR 0x00"

datatype va_arg = AInt u32 | AStr string | AChar char

definition digit_char :: "nat \<Rightarrow> char" where
  "digit_char m = (if m < 10 then char_of (m + 48) else char_of (m - 10 + 65))"

text \<open>
  \<open>itoa\<close> recurses on the quotient before it stores the last digit. Base 0 traps and base
  1 never ends.
\<close>

function itoa :: "nat \<Rightarrow> nat \<Rightarrow> string option" where
  "itoa value base =
     (if base < 2 then None
      else let m = value mod base; i = value div base in
        if i \<noteq> 0 then do { s \<leftarrow> itoa i base; Some (s @ [digit_char m]) }
        else Some [digit_char m])"
  by pat_completeness auto
termination
  by (relation "measure fst") (auto simp: div_eq_0_iff)

declare itoa.simps [simp del]

section \<open>Formatting into a buffer\<close>

fun put_all :: "char list \<Rightarrow> nat \<Rightarrow> string \<Rightarrow> (char list \<times> nat) option" where
  "put_all buf p [] = Some (buf, p)"
| "put_all buf p (c # s) = do { buf \<leftarrow> wr buf p c; put_all buf (Suc p) s }"

definition put_str :: "char list \<Rightarrow> nat \<Rightarrow> string \<Rightarrow> (char list \<times> nat) option" where
  "put_str buf p s =
     do { (buf, q) \<leftarrow> put_all buf p s; buf \<leftarrow> wr buf q nul; Some (buf, q) }"

definition put_num :: "char list \<Rightarrow> nat \<Rightarrow> nat \<Rightarrow> nat \<Rightarrow> (char list \<times> nat) option" where
  "put_num buf p v base = do { s \<leftarrow> itoa v base; put_all buf p s }"

text \<open>
  \<open>%d\<close>: a negative number is negated at 32 bits after its sign was stored.
\<close>

definition put_dec :: "char list \<Rightarrow> nat \<Rightarrow> u32 \<Rightarrow> (char list \<times> nat) option" where
  "put_dec buf p arg_int =
     do { (buf, p) \<leftarrow> (if sint arg_int < 0 then put_all buf p ''-'' else Some (buf, p));
          put_num buf p (unat (if sint arg_int < 0 then 0 - arg_int else arg_int)) 10 }"

text \<open>
  The loop of \<open>vsprintf\<close>. A character after \<open>%\<close> that is no conversion is not skipped: the
  loop goes on with it, so \<open>%%d\<close> is a conversion.
\<close>

function vsprintf_loop :: "string \<Rightarrow> va_arg list \<Rightarrow> char list \<Rightarrow> nat \<Rightarrow> (char list \<times> nat) option" where
  "vsprintf_loop [] ap buf p = Some (buf, p)"
| "vsprintf_loop (c # f) ap buf p =
     (if c \<noteq> CHR ''%'' then do { (buf, p) \<leftarrow> put_all buf p [c]; vsprintf_loop f ap buf p }
      else case f of
        [] \<Rightarrow> Some (buf, p)
      | d # g \<Rightarrow>
          if d = CHR ''s'' then
            (case ap of AStr s # ap' \<Rightarrow> do { (buf, p) \<leftarrow> put_str buf p s; vsprintf_loop g ap' buf p }
             | _ \<Rightarrow> None)
          else if d = CHR ''c'' then
            (case ap of AChar c # ap' \<Rightarrow> do { (buf, p) \<leftarrow> put_all buf p [c]; vsprintf_loop g ap' buf p }
             | _ \<Rightarrow> None)
          else if d = CHR ''d'' then
            (case ap of AInt a # ap' \<Rightarrow>
               do { (buf, p) \<leftarrow> put_dec buf p a; vsprintf_loop g ap' buf p }
             | _ \<Rightarrow> None)
          else if d = CHR ''x'' then
            (case ap of AInt a # ap' \<Rightarrow>
               do { (buf, p) \<leftarrow> put_num buf p (unat a) 16; vsprintf_loop g ap' buf p }
             | _ \<Rightarrow> None)
          else vsprintf_loop f ap buf p)"
  by pat_completeness auto
termination
  by (relation "measure (\<lambda>(f, _). length f)") auto

text \<open>No terminating zero is stored at the end: \<open>strlen\<close> finds one in the buffer or not.\<close>

definition buf_strlen :: "char list \<Rightarrow> nat option" where
  "buf_strlen buf = (if nul \<in> set buf then Some (length (takeWhile (\<lambda>c. c \<noteq> nul) buf)) else None)"

definition vsprintf :: "char list \<Rightarrow> string \<Rightarrow> va_arg list \<Rightarrow> (nat \<times> char list) option" where
  "vsprintf str format ap =
     do { (buf, p) \<leftarrow> vsprintf_loop format ap str 0;
          n \<leftarrow> buf_strlen buf;
          Some (n, buf) }"

definition sprintf :: "char list \<Rightarrow> string \<Rightarrow> va_arg list \<Rightarrow> (nat \<times> char list) option" where
  "sprintf buf format args = vsprintf buf format args"

text \<open>\<open>vfprintf\<close> formats into a zeroed buffer of 1024 and hands it to \<open>write\<close>.\<close>

definition vfprintf :: "(string \<Rightarrow> 's \<Rightarrow> int \<times> 's) \<Rightarrow> string \<Rightarrow> va_arg list \<Rightarrow> 's \<Rightarrow> (int \<times> 's) option" where
  "vfprintf write format ap s =
     do { (n, buf) \<leftarrow> vsprintf (replicate 1024 nul) format ap;
          Some (write (take n buf) s) }"

section \<open>What a format stands for\<close>

definition dec_string :: "u32 \<Rightarrow> string option" where
  "dec_string a = do { s \<leftarrow> itoa (unat (if sint a < 0 then 0 - a else a)) 10;
     Some ((if sint a < 0 then ''-'' else []) @ s) }"

text \<open>The text of a format, as a function of the arguments alone.\<close>

function render :: "string \<Rightarrow> va_arg list \<Rightarrow> string option" where
  "render [] ap = Some []"
| "render (c # f) ap =
     (if c \<noteq> CHR ''%'' then map_option ((#) c) (render f ap)
      else case f of [] \<Rightarrow> Some []
      | d # g \<Rightarrow>
          if d = CHR ''s'' then
            (case ap of AStr s # ap' \<Rightarrow> map_option ((@) s) (render g ap') | _ \<Rightarrow> None)
          else if d = CHR ''c'' then
            (case ap of AChar c # ap' \<Rightarrow> map_option ((#) c) (render g ap') | _ \<Rightarrow> None)
          else if d = CHR ''d'' then
            (case ap of AInt a # ap' \<Rightarrow> do { s \<leftarrow> dec_string a; map_option ((@) s) (render g ap') } | _ \<Rightarrow> None)
          else if d = CHR ''x'' then
            (case ap of AInt a # ap' \<Rightarrow> do { s \<leftarrow> itoa (unat a) 16; map_option ((@) s) (render g ap') } | _ \<Rightarrow> None)
          else render f ap)"
  by pat_completeness auto
termination
  by (relation "measure (\<lambda>(f, _). length f)") auto

definition blank_from :: "char list \<Rightarrow> nat \<Rightarrow> bool" where
  "blank_from buf p \<longleftrightarrow> p \<le> length buf \<and> drop p buf = replicate (length buf - p) nul"

text \<open>\<open>writes buf p s r\<close>: the result \<open>r\<close> is \<open>buf\<close> with \<open>s\<close> stored at \<open>p\<close>, zeros behind it.\<close>

definition writes :: "char list \<Rightarrow> nat \<Rightarrow> string \<Rightarrow> (char list \<times> nat) option \<Rightarrow> bool" where
  "writes buf p s r \<longleftrightarrow> (\<exists>buf'. r = Some (buf', p + length s)
     \<and> take (p + length s) buf' = take p buf @ s
     \<and> blank_from buf' (p + length s) \<and> length buf' = length buf)"

lemma writes_refl: "blank_from buf p \<Longrightarrow> writes buf p [] (Some (buf, p))"
  by (simp add: writes_def)

lemma writes_bind:
  assumes "writes buf p s r"
    and "\<And>b. blank_from b (p + length s) \<Longrightarrow> length b = length buf \<Longrightarrow> writes b (p + length s) t (f b (p + length s))"
  shows "writes buf p (s @ t) (r \<bind> (\<lambda>(b, q). f b q))"
proof -
  from assms(1) obtain b where b: "r = Some (b, p + length s)"
    "take (p + length s) b = take p buf @ s" "blank_from b (p + length s)" "length b = length buf"
    by (auto simp: writes_def)
  with assms(2) [of b] show ?thesis by (auto simp: writes_def ac_simps)
qed

lemma drop_blank: "blank_from buf p \<Longrightarrow> p < length buf \<Longrightarrow> drop (Suc p) buf = replicate (length buf - Suc p) nul"
proof -
  assume "blank_from buf p" "p < length buf"
  then have "drop 1 (drop p buf) = drop 1 (replicate (length buf - p) nul)" by (simp add: blank_from_def)
  then show ?thesis by (simp add: One_nat_def)
qed

lemma put_all_writes:
  "blank_from buf p \<Longrightarrow> p + length s \<le> length buf \<Longrightarrow> writes buf p s (put_all buf p s)"
proof (induction s arbitrary: buf p)
  case Nil
  then show ?case by (simp add: writes_refl)
next
  case (Cons c s)
  let ?b = "buf[p := c]"
  have p: "p < length buf" using Cons.prems(2) by simp
  with Cons.prems(1) have "blank_from ?b (Suc p)" by (simp add: blank_from_def drop_blank)
  with Cons.IH [of ?b "Suc p"] Cons.prems(2) have "writes ?b (Suc p) s (put_all ?b (Suc p) s)" by simp
  moreover have "take (Suc p) ?b = take p buf @ [c]" using p by (simp add: take_Suc_conv_app_nth)
  ultimately show ?case using p by (auto simp: writes_def)
qed

lemma put_str_writes:
  assumes "blank_from buf p" and "p + length s < length buf"
  shows "writes buf p s (put_str buf p s)"
proof -
  from put_all_writes [OF assms(1), of s] assms(2) obtain b where
    b: "put_all buf p s = Some (b, p + length s)" "take (p + length s) b = take p buf @ s"
    "blank_from b (p + length s)" "length b = length buf" by (auto simp: writes_def)
  have "drop (p + length s) b ! 0 = nul" using b(3,4) assms(2) by (simp add: blank_from_def)
  then have "b ! (p + length s) = nul" using b(4) assms(2) by simp
  then have "b[p + length s := nul] = b" by (metis list_update_id)
  with b assms(2) show ?thesis by (auto simp: put_str_def writes_def)
qed

lemma put_num_writes:
  "itoa v base = Some s \<Longrightarrow> blank_from buf p \<Longrightarrow> p + length s \<le> length buf \<Longrightarrow>
     writes buf p s (put_num buf p v base)"
  by (simp add: put_num_def put_all_writes)

lemma put_dec_writes:
  assumes "dec_string a = Some s" and "blank_from buf p" and "p + length s \<le> length buf"
  shows "writes buf p s (put_dec buf p a)"
proof -
  define sg where "sg = (if sint a < 0 then ''-'' else [])"
  from assms(1) obtain n where n: "itoa (unat (if sint a < 0 then 0 - a else a)) 10 = Some n" "s = sg @ n"
    by (auto simp: dec_string_def sg_def outcome_simps)
  have "writes buf p sg (if sint a < 0 then put_all buf p ''-'' else Some (buf, p))"
    using assms n put_all_writes [of buf p "''-''"] by (auto simp: sg_def writes_refl)
  then show ?thesis
    unfolding put_dec_def n(2) by (rule writes_bind) (use n assms(3) in \<open>auto intro: put_num_writes\<close>)
qed

lemma render_conv_cases:
  assumes R: "render (CHR ''%'' # d # g) ap = Some out"
  obtains (s) s ap' o2 where "d = CHR ''s''" "ap = AStr s # ap'" "render g ap' = Some o2" "out = s @ o2"
  | (c) s ap' o2 where "d = CHR ''c''" "ap = AChar s # ap'" "render g ap' = Some o2" "out = [s] @ o2"
  | (d) a ap' s o2 where "d = CHR ''d''" "ap = AInt a # ap'" "dec_string a = Some s"
      "render g ap' = Some o2" "out = s @ o2"
  | (x) a ap' s o2 where "d = CHR ''x''" "ap = AInt a # ap'" "itoa (unat a) 16 = Some s"
      "render g ap' = Some o2" "out = s @ o2"
  | (other) "d \<notin> {CHR ''s'', CHR ''c'', CHR ''d'', CHR ''x''}" "render (d # g) ap = Some out"
proof (cases "d \<in> {CHR ''s'', CHR ''c'', CHR ''d'', CHR ''x''}")
  case False
  with R other show thesis by simp
next
  case True
  then consider "d = CHR ''s''" | "d = CHR ''c''" | "d = CHR ''d''" | "d = CHR ''x''" by blast
  then show thesis
  proof cases
    case 1
    with R s show thesis by (cases ap; cases "hd ap") auto
  next
    case 2
    with R c show thesis by (cases ap; cases "hd ap") auto
  next
    case 3
    with R d show thesis by (cases ap; cases "hd ap") (auto simp: outcome_simps)
  next
    case 4
    with R x show thesis by (cases ap; cases "hd ap") (auto simp: outcome_simps)
  qed
qed

lemma vsprintf_loop_render:
  "render f ap = Some out \<Longrightarrow> blank_from buf p \<Longrightarrow> p + length out < length buf \<Longrightarrow>
     writes buf p out (vsprintf_loop f ap buf p)"
proof (induction f ap arbitrary: out buf p rule: render.induct)
  case (1 ap)
  then show ?case by (simp add: writes_refl)
next
  case (2 c f ap)
  consider (lit) "c \<noteq> CHR ''%''" | (fin) "c = CHR ''%''" "f = []"
    | (conv) d g where "c = CHR ''%''" "f = d # g" by (cases f) auto
  then show ?case
  proof cases
    case lit
    with "2.prems"(1) obtain o2 where o2: "render f ap = Some o2" "out = [c] @ o2" by auto
    have "writes buf p ([c] @ o2) (put_all buf p [c] \<bind> (\<lambda>(b, q). vsprintf_loop f ap b q))"
      by (rule writes_bind [OF put_all_writes])
        (use "2.prems"(2,3) o2 "2.IH"(1) [OF lit o2(1)] in auto)
    with lit o2(2) show ?thesis by simp
  next
    case fin
    with "2.prems" show ?thesis by (auto intro: writes_refl)
  next
    case conv
    note IH = "2.IH"(2-) [unfolded conv, simplified]
    from "2.prems"(1) conv have "render (CHR ''%'' # d # g) ap = Some out" by simp
    then show ?thesis
    proof (cases rule: render_conv_cases)
      case (s s ap' o2)
      have "writes buf p (s @ o2) (put_str buf p s \<bind> (\<lambda>(b, q). vsprintf_loop g ap' b q))"
        by (rule writes_bind [OF put_str_writes]) (use s "2.prems"(2,3) IH in auto)
      with s conv show ?thesis by simp
    next
      case (c s ap' o2)
      have "writes buf p ([s] @ o2) (put_all buf p [s] \<bind> (\<lambda>(b, q). vsprintf_loop g ap' b q))"
        by (rule writes_bind [OF put_all_writes]) (use c "2.prems"(2,3) IH in auto)
      with c conv show ?thesis by simp
    next
      case (d a ap' s o2)
      have "writes buf p (s @ o2) (put_dec buf p a \<bind> (\<lambda>(b, q). vsprintf_loop g ap' b q))"
        by (rule writes_bind [OF put_dec_writes [OF d(3)]]) (use d "2.prems"(2,3) IH in auto)
      with d conv show ?thesis by simp
    next
      case (x a ap' s o2)
      have "writes buf p (s @ o2) (put_num buf p (unat a) 16 \<bind> (\<lambda>(b, q). vsprintf_loop g ap' b q))"
        by (rule writes_bind [OF put_num_writes [OF x(3)]]) (use x "2.prems"(2,3) IH in auto)
      with x conv show ?thesis by simp
    next
      case other
      with conv "2.prems"(2,3) IH show ?thesis by auto
    qed
  qed
qed

section \<open>Digits\<close>

definition char_digit :: "char \<Rightarrow> nat" where
  "char_digit c = (let k = of_char c in if k < 65 then k - 48 else k - 65 + 10)"

definition read_num :: "nat \<Rightarrow> string \<Rightarrow> nat" where
  "read_num base = foldl (\<lambda>n c. n * base + char_digit c) 0"

lemma char_digit_digit_char: "m < 36 \<Longrightarrow> char_digit (digit_char m) = m"
  by (simp add: char_digit_def digit_char_def Let_def)

lemma itoa_read:
  "2 \<le> base \<Longrightarrow> base \<le> 36 \<Longrightarrow> \<exists>s. itoa v base = Some s \<and> read_num base s = v \<and> s \<noteq> []"
proof (induction v base rule: itoa.induct)
  case (1 v base)
  have m: "char_digit (digit_char (v mod base)) = v mod base"
    using "1.prems" by (simp add: char_digit_digit_char less_le_trans [OF mod_less_divisor])
  show ?case
  proof (cases "v div base = 0")
    case True
    then have "v mod base = v" using "1.prems" by (simp add: div_eq_0_iff)
    with True m "1.prems" show ?thesis by (simp add: itoa.simps [of v base] read_num_def)
  next
    case False
    with "1.IH" [OF _ refl refl] "1.prems" obtain s where
      "itoa (v div base) base = Some s" "read_num base s = v div base" by auto
    with False m "1.prems" show ?thesis
      by (simp add: itoa.simps [of v base] read_num_def Let_def)
  qed
qed

section \<open>Properties\<close>

text \<open>
  Printing a number and reading its digits back gives the number, for every
  base the kernel can pass: \<open>itoa\<close> returns and its text denotes the value.
\<close>

theorem itoa_roundtrip:
  assumes "2 \<le> base" and "base \<le> 36"
  shows "\<exists>s. itoa v base = Some s \<and> s \<noteq> [] \<and> read_num base s = v"
  using itoa_read [OF assms] by blast

theorem itoa_roundtrip_witness: "\<exists>s. itoa 48879 16 = Some s \<and> s \<noteq> [] \<and> read_num 16 s = 48879"
  by (rule itoa_roundtrip) simp_all

lemma vsprintf_text:
  assumes "render format ap = Some out" and "length out < n" and "nul \<notin> set out"
  shows "vsprintf (replicate n nul) format ap
    = Some (length out, out @ replicate (n - length out) nul)"
proof -
  have "writes (replicate n nul) 0 out (vsprintf_loop format ap (replicate n nul) 0)"
    by (rule vsprintf_loop_render [OF assms(1)]) (use assms(2) in \<open>simp_all add: blank_from_def\<close>)
  then obtain b where b: "vsprintf_loop format ap (replicate n nul) 0 = Some (b, length out)"
    "take (length out) b = out" "drop (length out) b = replicate (n - length out) nul"
    by (auto simp: writes_def blank_from_def)
  then have be: "b = out @ replicate (n - length out) nul" by (metis append_take_drop_id)
  then have "nul \<in> set b" using assms(2) by simp
  moreover have "takeWhile (\<lambda>c. c \<noteq> nul) b = out"
  proof -
    have "takeWhile (\<lambda>c. c \<noteq> nul) (out @ ys) = out @ takeWhile (\<lambda>c. c \<noteq> nul) ys" for ys
      by (rule takeWhile_append2) (use assms(3) in auto)
    then show ?thesis using be by (simp add: takeWhile_replicate)
  qed
  ultimately show ?thesis using b(1) be by (simp add: vsprintf_def buf_strlen_def)
qed

text \<open>
  Into a zeroed buffer longer than the text, \<open>vsprintf\<close> stores exactly the
  text the format and the arguments stand for, leaves zeros behind it and returns its
  length, when no argument carries a zero character.
\<close>

theorem vsprintf_renders:
  assumes "render format ap = Some out" and "length out < n" and "nul \<notin> set out"
  shows "vsprintf (replicate n nul) format ap
    = Some (length out, out @ replicate (n - length out) nul)"
  by (rule vsprintf_text [OF assms])

lemma demo_render: "render ''fd=%d:%x%%'' [AInt (- 12), AInt 255] = Some ''fd=-12:FF''"
  by code_simp

theorem vsprintf_renders_witness:
  "vsprintf (replicate 16 nul) ''fd=%d:%x%%'' [AInt (- 12), AInt 255]
     = Some (length ''fd=-12:FF'', ''fd=-12:FF'' @ replicate (16 - length ''fd=-12:FF'') nul)"
  by (rule vsprintf_renders [OF demo_render]) simp_all

end
