(* ===== verification/Ide.thy ===== *)
theory Ide
  imports Stdio
begin

unbundle bit_operations_syntax

text \<open>
  \<open>src/src/device/ide.c\<close>: the disk driver. The platter is a function from sector numbers
  to 512 bytes. The controller behind the ports is a parameter, of which the driver
  relies on the documented LBA28 protocol (\<open>ata_protocol\<close>); \<open>disk_read\<close> and
  \<open>disk_write\<close> are what the file system sees, and the driver's chunked loops are proved to
  do just that. The channel lock makes a transfer one atomic step.
\<close>

type_synonym disk = "nat \<Rightarrow> u8 list"

definition max_lba :: nat where
  "max_lba = 80 * 1024 * 1024 div 512 - 1"

lemma max_lba_eq: "max_lba = 163839"
  by (simp add: max_lba_def)

section \<open>The task file registers\<close>

record ata_regs =
  reg_sect_cnt :: u8
  reg_lba_l :: u8
  reg_lba_m :: u8
  reg_lba_h :: u8
  reg_dev :: u8

definition select_disk :: "nat \<Rightarrow> ata_regs \<Rightarrow> ata_regs" where
  "select_disk dev_no r = r\<lparr>reg_dev := 0xa0 OR 0x40 OR (if dev_no = 1 then 0x10 else 0)\<rparr>"

text \<open>\<open>outb\<close> stores the low byte of its argument.\<close>

definition select_sector :: "nat \<Rightarrow> nat \<Rightarrow> u8 \<Rightarrow> ata_regs \<Rightarrow> ata_regs option" where
  "select_sector dev_no lba sec_cnt r =
     do { kassert (lba \<le> max_lba);
          Some (r\<lparr>reg_sect_cnt := sec_cnt,
                  reg_lba_l := of_nat lba,
                  reg_lba_m := of_nat (lba div 256),
                  reg_lba_h := of_nat (lba div 65536),
                  reg_dev := 0xa0 OR 0x40 OR (if dev_no = 1 then 0x10 else 0)
                    OR of_nat (lba div 16777216)\<rparr>) }"

definition regs_lba :: "ata_regs \<Rightarrow> nat" where
  "regs_lba r = unat (reg_lba_l r) + 256 * unat (reg_lba_m r) + 65536 * unat (reg_lba_h r)
     + 16777216 * unat (reg_dev r AND 0x0f)"

definition regs_count :: "ata_regs \<Rightarrow> nat" where
  "regs_count r = (if reg_sect_cnt r = 0 then 256 else unat (reg_sect_cnt r))"

definition regs_slave :: "ata_regs \<Rightarrow> bool" where
  "regs_slave r = bit (reg_dev r) 4"

text \<open>\<open>BIT_DEV_MBS\<close> and \<open>BIT_DEV_LBA\<close>: only then are the address registers a sector number.\<close>

definition regs_lba_mode :: "ata_regs \<Rightarrow> bool" where
  "regs_lba_mode r \<longleftrightarrow> reg_dev r AND 0xe0 = 0xe0"

text \<open>\<open>size_in_byte\<close> of \<open>read_from_sector\<close> and \<open>write2sector\<close>.\<close>

definition size_in_byte :: "u8 \<Rightarrow> nat" where
  "size_in_byte sec_cnt = (if sec_cnt = 0 then 256 * 512 else unat sec_cnt * 512)"

section \<open>Waiting for the controller\<close>

text \<open>
  \<open>time_limit -= 10 >= 0\<close> subtracts the truth value 1, so the loop polls up to 29999
  times. \<open>status k\<close> is what the \<open>k\<close>-th read of the status register gives.
\<close>

fun busy_wait_loop :: "(nat \<Rightarrow> u8) \<Rightarrow> nat \<Rightarrow> nat \<Rightarrow> bool \<times> nat" where
  "busy_wait_loop status 0 k = (False, k)"
| "busy_wait_loop status (Suc time_limit) k =
     (if time_limit = 0 then (False, k)
      else if status k AND 0x80 = 0 then (status (Suc k) AND 0x08 \<noteq> 0, Suc (Suc k))
      else busy_wait_loop status time_limit (Suc k))"

definition busy_wait :: "(nat \<Rightarrow> u8) \<Rightarrow> bool" where
  "busy_wait status = fst (busy_wait_loop status 30000 0)"

lemma busy_wait_loop_iff:
  "fst (busy_wait_loop status t k) \<longleftrightarrow>
     (\<exists>j. j + 1 < t \<and> (\<forall>i < j. status (k + i) AND 0x80 \<noteq> 0) \<and> status (k + j) AND 0x80 = 0
        \<and> status (Suc (k + j)) AND 0x08 \<noteq> 0)"
proof (induction status t k rule: busy_wait_loop.induct)
  case (1 status k)
  then show ?case by simp
next
  case (2 status t k)
  show ?case
  proof (cases "t = 0")
    case False
    show ?thesis
    proof (cases "status k AND 0x80 = 0")
      case True
      have z: "(\<forall>i < j. status (k + i) AND 0x80 \<noteq> 0) \<longleftrightarrow> j = 0" for j
        using True by (cases j) (auto dest: spec [of _ 0])
      show ?thesis using True False by (simp add: z)
    next
      case busy: False
      have "(\<exists>j. j + 1 < Suc t \<and> (\<forall>i < j. status (k + i) AND 0x80 \<noteq> 0) \<and> status (k + j) AND 0x80 = 0
          \<and> status (Suc (k + j)) AND 0x08 \<noteq> 0) \<longleftrightarrow>
        (\<exists>j. j + 1 < t \<and> (\<forall>i < j. status (Suc k + i) AND 0x80 \<noteq> 0) \<and> status (Suc k + j) AND 0x80 = 0
          \<and> status (Suc (Suc k + j)) AND 0x08 \<noteq> 0)" (is "(\<exists>j. ?P j) = (\<exists>j. ?Q j)")
      proof
        assume "\<exists>j. ?P j"
        then obtain j where j: "?P j" ..
        with busy have "j \<noteq> 0" by (intro notI) simp
        then obtain j' where "j = Suc j'" by (cases j) auto
        with j have "?Q j'" by auto
        then show "\<exists>j. ?Q j" ..
      next
        assume "\<exists>j. ?Q j"
        then obtain j where j: "?Q j" ..
        have "status (k + i) AND 0x80 \<noteq> 0" if "i < Suc j" for i
          using j busy that by (cases i) auto
        with j have "?P (Suc j)" by auto
        then show "\<exists>j. ?P j" ..
      qed
      with 2 False busy show ?thesis by simp
    qed
  qed simp
qed

section \<open>The driver's transfer loops\<close>

text \<open>
  One transfer: the command goes to the controller, which delivers or takes
  \<open>size_in_byte\<close> bytes. \<open>ready\<close> is the outcome of \<open>busy_wait\<close> at each command; a false
  one is the \<open>PANIC\<close>.
\<close>

function ide_read_loop ::
    "(ata_regs \<Rightarrow> 'd \<Rightarrow> u8 list) \<Rightarrow> (nat \<Rightarrow> bool) \<Rightarrow> nat \<Rightarrow> 'd \<Rightarrow> ata_regs \<Rightarrow> nat \<Rightarrow> nat \<Rightarrow> nat
      \<Rightarrow> u8 list \<Rightarrow> u8 list option" where
  "ide_read_loop rd_cmd ready dev_no d r lba sec_cnt secs_done buf =
     (if secs_done < sec_cnt then
        let secs_op = (if secs_done + 256 \<le> sec_cnt then 256 else sec_cnt - secs_done) in
        do { r \<leftarrow> select_sector dev_no (lba + secs_done) (of_nat secs_op) r;
             kassert (ready secs_done);
             ide_read_loop rd_cmd ready dev_no d r lba sec_cnt (secs_done + secs_op)
               (buf @ take (size_in_byte (of_nat secs_op)) (rd_cmd r d)) }
      else Some buf)"
  by pat_completeness auto
termination
  by (relation "measure (\<lambda>(_, _, _, _, _, _, sec_cnt, secs_done, _). sec_cnt - secs_done)") auto

definition ide_read ::
    "(ata_regs \<Rightarrow> 'd \<Rightarrow> u8 list) \<Rightarrow> (nat \<Rightarrow> bool) \<Rightarrow> nat \<Rightarrow> 'd \<Rightarrow> ata_regs \<Rightarrow> nat \<Rightarrow> nat
      \<Rightarrow> u8 list option" where
  "ide_read rd_cmd ready dev_no d r lba sec_cnt =
     do { kassert (lba \<le> max_lba); kassert (0 < sec_cnt);
          ide_read_loop rd_cmd ready dev_no d (select_disk dev_no r) lba sec_cnt 0 [] }"

function ide_write_loop ::
    "(ata_regs \<Rightarrow> u8 list \<Rightarrow> 'd \<Rightarrow> 'd) \<Rightarrow> (nat \<Rightarrow> bool) \<Rightarrow> nat \<Rightarrow> 'd \<Rightarrow> ata_regs \<Rightarrow> nat
      \<Rightarrow> u8 list \<Rightarrow> nat \<Rightarrow> nat \<Rightarrow> 'd option" where
  "ide_write_loop wr_cmd ready dev_no d r lba buf sec_cnt secs_done =
     (if secs_done < sec_cnt then
        let secs_op = (if secs_done + 256 \<le> sec_cnt then 256 else sec_cnt - secs_done) in
        do { r \<leftarrow> select_sector dev_no (lba + secs_done) (of_nat secs_op) r;
             kassert (ready secs_done);
             bs \<leftarrow> rd_block buf (secs_done * 512) (size_in_byte (of_nat secs_op));
             ide_write_loop wr_cmd ready dev_no (wr_cmd r bs d) r lba buf sec_cnt
               (secs_done + secs_op) }
      else Some d)"
  by pat_completeness auto
termination
  by (relation "measure (\<lambda>(_, _, _, _, _, _, _, sec_cnt, secs_done). sec_cnt - secs_done)") auto

definition ide_write ::
    "(ata_regs \<Rightarrow> u8 list \<Rightarrow> 'd \<Rightarrow> 'd) \<Rightarrow> (nat \<Rightarrow> bool) \<Rightarrow> nat \<Rightarrow> 'd \<Rightarrow> ata_regs \<Rightarrow> nat \<Rightarrow> u8 list \<Rightarrow> nat
      \<Rightarrow> 'd option" where
  "ide_write wr_cmd ready dev_no d r lba buf sec_cnt =
     do { kassert (lba \<le> max_lba); kassert (0 < sec_cnt);
          ide_write_loop wr_cmd ready dev_no d (select_disk dev_no r) lba buf sec_cnt 0 }"

declare ide_read_loop.simps [simp del] ide_write_loop.simps [simp del]

section \<open>The block device the file system uses\<close>

definition disk_ok :: "disk \<Rightarrow> bool" where
  "disk_ok d \<longleftrightarrow> (\<forall>s. length (d s) = 512)"

text \<open>The asserts of a whole transfer: the start of every chunk of 256 is in range.\<close>

definition ide_ok :: "nat \<Rightarrow> nat \<Rightarrow> bool" where
  "ide_ok lba sec_cnt \<longleftrightarrow> 0 < sec_cnt \<and> lba + 256 * ((sec_cnt - 1) div 256) \<le> max_lba"

definition disk_read :: "disk \<Rightarrow> nat \<Rightarrow> nat \<Rightarrow> u8 list option" where
  "disk_read d lba sec_cnt =
     (if ide_ok lba sec_cnt then Some (concat (map d [lba..<lba + sec_cnt])) else None)"

definition disk_write :: "disk \<Rightarrow> nat \<Rightarrow> u8 list \<Rightarrow> nat \<Rightarrow> disk option" where
  "disk_write d lba buf sec_cnt =
     (if ide_ok lba sec_cnt \<and> 512 * sec_cnt \<le> length buf
      then Some (\<lambda>s. if lba \<le> s \<and> s < lba + sec_cnt then take 512 (drop (512 * (s - lba)) buf) else d s)
      else None)"

lemma ide_ok_small: "0 < n \<Longrightarrow> n \<le> 256 \<Longrightarrow> ide_ok lba n = (lba \<le> max_lba)"
  by (auto simp: ide_ok_def)

text \<open>The byte view: byte \<open>i\<close> of the disk is byte \<open>i mod 512\<close> of sector \<open>i div 512\<close>.\<close>

definition disk_byte :: "disk \<Rightarrow> nat \<Rightarrow> u8" where
  "disk_byte d i = d (i div 512) ! (i mod 512)"

lemma concat_sectors:
  "disk_ok d \<Longrightarrow> concat (map d [lba..<lba + n]) = map (disk_byte d) [512 * lba..<512 * (lba + n)]"
proof (induction n)
  case 0
  then show ?case by simp
next
  case (Suc n)
  have sec: "map (disk_byte d) [512 * s..<512 * s + 512] = d s" for s
  proof (rule nth_equalityI)
    show "length (map (disk_byte d) [512 * s..<512 * s + 512]) = length (d s)"
      using Suc.prems by (simp add: disk_ok_def)
    fix i assume "i < length (map (disk_byte d) [512 * s..<512 * s + 512])"
    then show "map (disk_byte d) [512 * s..<512 * s + 512] ! i = d s ! i"
      by (simp add: disk_byte_def)
  qed
  have "[512 * lba..<512 * (lba + n) + 512] =
      [512 * lba..<512 * (lba + n)] @ [512 * (lba + n)..<512 * (lba + n) + 512]"
    by (rule upt_add_eq_append) simp
  moreover have "512 * (lba + Suc n) = 512 * (lba + n) + 512" by simp
  ultimately have "[512 * lba..<512 * (lba + Suc n)] =
      [512 * lba..<512 * (lba + n)] @ [512 * (lba + n)..<512 * (lba + n) + 512]" by metis
  with Suc sec [of "lba + n"] show ?case by simp
qed

lemma disk_read_bytes:
  "disk_ok d \<Longrightarrow> disk_read d lba n =
     (if ide_ok lba n then Some (map (disk_byte d) [512 * lba..<512 * (lba + n)]) else None)"
  by (simp add: disk_read_def concat_sectors)

lemma disk_write_ok:
  assumes "disk_write d lba buf n = Some d'" and "disk_ok d"
  shows "disk_ok d'"
proof -
  from assms(1) have n: "512 * n \<le> length buf" and
    d': "d' = (\<lambda>s. if lba \<le> s \<and> s < lba + n then take 512 (drop (512 * (s - lba)) buf) else d s)"
    by (auto simp: disk_write_def split: if_splits)
  have "512 \<le> length buf - 512 * (s - lba)" if "lba \<le> s" "s < lba + n" for s
  proof -
    have "512 * (s - lba) + 512 \<le> 512 * n" using that by simp
    with n show ?thesis by linarith
  qed
  then have "length (take 512 (drop (512 * (s - lba)) buf)) = 512" if "lba \<le> s" "s < lba + n" for s
    using that by (simp add: min_absorb2)
  with assms(2) show ?thesis unfolding disk_ok_def d' by presburger
qed

lemma disk_write_byte:
  assumes "disk_write d lba buf n = Some d'"
  shows "disk_byte d' i = (if 512 * lba \<le> i \<and> i < 512 * (lba + n) then buf ! (i - 512 * lba) else disk_byte d i)"
proof -
  from assms have n: "512 * n \<le> length buf" and
    d': "d' = (\<lambda>s. if lba \<le> s \<and> s < lba + n then take 512 (drop (512 * (s - lba)) buf) else d s)"
    by (auto simp: disk_write_def split: if_splits)
  have r: "lba \<le> i div 512 \<and> i div 512 < lba + n \<longleftrightarrow> 512 * lba \<le> i \<and> i < 512 * (lba + n)"
    by (simp add: less_eq_div_iff_mult_less_eq div_less_iff_less_mult mult.commute)
  show ?thesis
  proof (cases "512 * lba \<le> i \<and> i < 512 * (lba + n)")
    case True
    then have s: "lba \<le> i div 512" "i div 512 < lba + n" using r by auto
    have i: "512 * (i div 512 - lba) + i mod 512 = i - 512 * lba"
      using s(1) div_mult_mod_eq [of i 512] by (simp add: diff_mult_distrib2)
    have "i - 512 * lba < length buf" using True n by auto
    with i have "512 * (i div 512 - lba) + i mod 512 < length buf" by simp
    with s i True show ?thesis by (simp add: disk_byte_def d')
  qed (use r in \<open>auto simp: disk_byte_def d'\<close>)
qed

lemma disk_write_Some:
  "ide_ok lba n \<Longrightarrow> 512 * n \<le> length buf \<Longrightarrow> \<exists>d'. disk_write d lba buf n = Some d'"
  by (simp add: disk_write_def)

section \<open>The interface\<close>

text \<open>
  What every client of the driver relies on: reading gives the bytes of the sectors,
  writing replaces those bytes and no others.
\<close>

locale block_device =
  fixes read :: "'d \<Rightarrow> nat \<Rightarrow> nat \<Rightarrow> u8 list option"
    and "write" :: "'d \<Rightarrow> nat \<Rightarrow> u8 list \<Rightarrow> nat \<Rightarrow> 'd option"
    and byte :: "'d \<Rightarrow> nat \<Rightarrow> u8"
    and ok :: "'d \<Rightarrow> bool"
    and valid :: "nat \<Rightarrow> nat \<Rightarrow> bool"
  assumes read_spec: "ok d \<Longrightarrow> read d lba n =
      (if valid lba n then Some (map (byte d) [512 * lba..<512 * (lba + n)]) else None)"
    and write_spec: "ok d \<Longrightarrow> valid lba n \<Longrightarrow> length buf = 512 * n \<Longrightarrow>
      \<exists>d'. write d lba buf n = Some d' \<and> ok d' \<and>
        (\<forall>i. byte d' i = (if 512 * lba \<le> i \<and> i < 512 * (lba + n) then buf ! (i - 512 * lba) else byte d i))"
begin

lemma read_length: "ok d \<Longrightarrow> read d lba n = Some bs \<Longrightarrow> length bs = 512 * n"
  by (auto simp: read_spec split: if_splits)

text \<open>Read, change some bytes of the buffer, write back.\<close>

lemma modify_spec:
  assumes "ok d" and "valid lba n" and "off + length bs \<le> 512 * n"
  shows "\<exists>buf buf' d'. read d lba n = Some buf \<and> wr_block buf off bs = Some buf'
    \<and> write d lba buf' n = Some d' \<and> ok d'
    \<and> (\<forall>i. byte d' i = (if 512 * lba + off \<le> i \<and> i < 512 * lba + off + length bs
          then bs ! (i - (512 * lba + off)) else byte d i))"
proof -
  let ?buf = "map (byte d) [512 * lba..<512 * (lba + n)]"
  from assms(3) obtain buf' where b: "wr_block ?buf off bs = Some buf'"
    by (simp add: wr_block_def)
  then have len: "length buf' = 512 * n" by (auto dest: wr_block_length)
  from write_spec [OF assms(1,2) len] obtain d' where d': "write d lba buf' n = Some d'" "ok d'"
    "\<forall>i. byte d' i = (if 512 * lba \<le> i \<and> i < 512 * (lba + n) then buf' ! (i - 512 * lba) else byte d i)"
    by blast
  have "byte d' i = (if 512 * lba + off \<le> i \<and> i < 512 * lba + off + length bs
          then bs ! (i - (512 * lba + off)) else byte d i)" for i
  proof (cases "512 * lba \<le> i \<and> i < 512 * (lba + n)")
    case True
    then have "i - 512 * lba < length ?buf" by auto
    from nth_wr_block [OF b this] True d'(3) show ?thesis by (auto simp: diff_diff_add)
  next
    case False
    with d'(3) assms(3) show ?thesis by (auto simp: algebra_simps)
  qed
  with assms b d' show ?thesis by (auto simp: read_spec)
qed

lemma read_after_write:
  assumes "ok d" and "valid lba n" and "length buf = 512 * n"
  shows "\<exists>d'. write d lba buf n = Some d' \<and> ok d' \<and> read d' lba n = Some buf"
proof -
  from write_spec [OF assms] obtain d' where d': "write d lba buf n = Some d'" "ok d'"
    "\<forall>i. byte d' i = (if 512 * lba \<le> i \<and> i < 512 * (lba + n) then buf ! (i - 512 * lba) else byte d i)"
    by blast
  have "map (byte d') [512 * lba..<512 * (lba + n)] = buf"
    by (rule nth_equalityI) (use d'(3) assms(3) in auto)
  with d' assms show ?thesis by (simp add: read_spec)
qed

end

interpretation ide: block_device disk_read disk_write disk_byte disk_ok ide_ok
proof (unfold_locales, goal_cases)
  case (1 d lba n)
  then show ?case by (rule disk_read_bytes)
next
  case (2 d lba n buf)
  then obtain d' where d': "disk_write d lba buf n = Some d'"
    using disk_write_Some [of lba n buf d] by auto
  with disk_write_ok [OF d' 2(1)] disk_write_byte [OF d'] show ?case by blast
qed

section \<open>The loops implement the block device\<close>

text \<open>
  The documented behaviour of the controller the driver relies on: when the device register
  selects the drive and LBA addressing, a read command returns the sectors the registers
  select and a write command replaces them. With the LBA bit clear the registers are a
  cylinder, head and sector, and nothing is assumed of the command.
\<close>

definition ata_reads :: "(ata_regs \<Rightarrow> disk \<Rightarrow> u8 list) \<Rightarrow> nat \<Rightarrow> bool" where
  "ata_reads rd_cmd dev_no \<longleftrightarrow> (\<forall>r d. regs_lba_mode r \<longrightarrow> regs_slave r = (dev_no = 1) \<longrightarrow>
     rd_cmd r d = concat (map d [regs_lba r..<regs_lba r + regs_count r]))"

definition ata_writes :: "(ata_regs \<Rightarrow> u8 list \<Rightarrow> disk \<Rightarrow> disk) \<Rightarrow> nat \<Rightarrow> bool" where
  "ata_writes wr_cmd dev_no \<longleftrightarrow> (\<forall>r bs d s. regs_lba_mode r \<longrightarrow> regs_slave r = (dev_no = 1) \<longrightarrow>
     wr_cmd r bs d s = (if regs_lba r \<le> s \<and> s < regs_lba r + regs_count r
       then take 512 (drop (512 * (s - regs_lba r)) bs) else d s))"

lemma sector_count: "0 < k \<Longrightarrow> k \<le> 256 \<Longrightarrow>
    (if (of_nat k :: u8) = 0 then 256 else unat (of_nat k :: u8)) = k"
proof (cases "k = 256")
  case False
  assume "0 < k" "k \<le> 256"
  with False have "k mod 256 = k" by simp
  then have u: "unat (of_nat k :: u8) = k" by (simp add: unat_of_nat8)
  then have "(of_nat k :: u8) \<noteq> 0" using \<open>0 < k\<close> by auto
  with u show ?thesis by simp
next
  case True
  have "unat (of_nat 256 :: u8) = 0" unfolding unat_of_nat8 by simp
  then have "(of_nat 256 :: u8) = 0" by (simp only: unat_eq_0)
  with True show ?thesis by (simp only: simp_thms if_True)
qed

lemma size_in_byte_eq: "0 < k \<Longrightarrow> k \<le> 256 \<Longrightarrow> size_in_byte (of_nat k) = 512 * k"
  using sector_count [of k] unfolding size_in_byte_def by (simp split: if_splits)

lemma regs_count_eq: "0 < k \<Longrightarrow> k \<le> 256 \<Longrightarrow> regs_count (r\<lparr>reg_sect_cnt := of_nat k\<rparr>) = k"
  using sector_count [of k] by (simp add: regs_count_def split: if_splits)

lemma select_sector_spec:
  assumes "select_sector dev_no lba sc r = Some r'"
  shows "regs_lba r' = lba \<and> reg_sect_cnt r' = sc \<and> (regs_slave r' \<longleftrightarrow> dev_no = 1) \<and> regs_lba_mode r'"
proof -
  from assms have l: "lba \<le> 163839" and r': "r' = r\<lparr>reg_sect_cnt := sc, reg_lba_l := of_nat lba,
      reg_lba_m := of_nat (lba div 256), reg_lba_h := of_nat (lba div 65536),
      reg_dev := 0xa0 OR 0x40 OR (if dev_no = 1 then 0x10 else 0) OR of_nat (lba div 16777216)\<rparr>"
    by (auto simp: select_sector_def outcome_simps max_lba_eq)
  have hi: "lba div 16777216 = 0" using l by simp
  have "lba div 65536 mod 256 = lba div 65536" using l by simp
  moreover have "lba mod 256 + 256 * (lba div 256 mod 256) + 65536 * (lba div 65536) = lba"
    using mod_mult2_eq [of lba 256 256] div_mult_mod_eq [of lba 65536] by simp
  ultimately have "regs_lba r' = lba"
    by (simp add: r' regs_lba_def hi unat_of_nat8)
  then show ?thesis by (simp add: r' regs_slave_def regs_lba_mode_def hi One_nat_def)
qed

lemma select_sector_eq_None: "select_sector dev_no lba sc r = None \<longleftrightarrow> max_lba < lba"
  by (auto simp: select_sector_def kassert_def)

lemma map_upt_split: "i \<le> j \<Longrightarrow> j \<le> k \<Longrightarrow> map f [i..<j] @ map f [j..<k] = map f [i..<k]"
  by (metis le_Suc_ex map_append upt_add_eq_append)

lemma ide_read_loop_eq:
  assumes "ata_reads rd_cmd dev_no"
  shows "disk_ok d \<Longrightarrow> secs_done < sec_cnt \<Longrightarrow>
    ide_read_loop rd_cmd (\<lambda>_. True) dev_no d r lba sec_cnt secs_done buf =
      (if ide_ok (lba + secs_done) (sec_cnt - secs_done)
       then Some (buf @ concat (map d [lba + secs_done..<lba + sec_cnt])) else None)"
proof (induction "sec_cnt - secs_done" arbitrary: secs_done r buf rule: less_induct)
  case less
  let ?op = "if secs_done + 256 \<le> sec_cnt then 256 else sec_cnt - secs_done"
  have op: "0 < ?op" "?op \<le> 256" using less.prems by auto
  show ?case
  proof (cases "select_sector dev_no (lba + secs_done) (of_nat ?op) r")
    case None
    then have "max_lba < lba + secs_done" by (simp add: select_sector_eq_None)
    then have "\<not> ide_ok (lba + secs_done) (sec_cnt - secs_done)" by (simp add: ide_ok_def)
    moreover have "ide_read_loop rd_cmd (\<lambda>_. True) dev_no d r lba sec_cnt secs_done buf = None"
      using None less.prems by (subst ide_read_loop.simps) (simp add: Let_def)
    ultimately show ?thesis by simp
  next
    case (Some r')
    then have le: "lba + secs_done \<le> max_lba" using select_sector_eq_None [of dev_no "lba + secs_done"]
      by (metis not_le option.distinct(1))
    from select_sector_spec [OF Some] have r': "regs_lba r' = lba + secs_done"
      "reg_sect_cnt r' = of_nat ?op" "regs_slave r' \<longleftrightarrow> dev_no = 1" "regs_lba_mode r'" by auto
    have "regs_count r' = ?op" using r'(2) op sector_count [of ?op] by (simp only: regs_count_def)
    with assms r' have rc: "rd_cmd r' d = concat (map d [lba + secs_done..<lba + secs_done + ?op])"
      by (simp add: ata_reads_def)
    have tk: "take (size_in_byte (of_nat ?op)) (rd_cmd r' d) = rd_cmd r' d"
      using less.prems(1) by (simp only: size_in_byte_eq [OF op] rc concat_sectors) simp
    have step: "ide_read_loop rd_cmd (\<lambda>_. True) dev_no d r lba sec_cnt secs_done buf =
        ide_read_loop rd_cmd (\<lambda>_. True) dev_no d r' lba sec_cnt (secs_done + ?op)
          (buf @ concat (map d [lba + secs_done..<lba + secs_done + ?op]))"
      using Some less.prems(2) tk rc by (subst ide_read_loop.simps) (simp add: Let_def)
    show ?thesis
    proof (cases "secs_done + ?op < sec_cnt")
      case False
      then have e: "secs_done + ?op = sec_cnt" "sec_cnt - secs_done \<le> 256" using less.prems(2)
        by (auto split: if_splits)
      have "(sec_cnt - secs_done - 1) div 256 = 0" using e(2) less.prems(2) by simp
      then have "ide_ok (lba + secs_done) (sec_cnt - secs_done)"
        using le less.prems(2) by (simp add: ide_ok_def)
      moreover have "ide_read_loop rd_cmd (\<lambda>_. True) dev_no d r' lba sec_cnt sec_cnt b = Some b" for b
        by (subst ide_read_loop.simps) simp
      moreover have "lba + secs_done + ?op = lba + sec_cnt" using e(1) by linarith
      ultimately show ?thesis using step e(1) by (simp only: if_True)
    next
      case True
      then have op256: "?op = 256" by (auto split: if_splits)
      have lt: "sec_cnt - (secs_done + 256) < sec_cnt - secs_done" using True op256 by auto
      have "secs_done + 256 < sec_cnt" using True op256 by simp
      note IH = less.hyps [OF lt less.prems(1) this]
      have "sec_cnt - secs_done - 1 = (sec_cnt - (secs_done + 256) - 1) + 256"
        using True op256 by simp
      then have dv: "(sec_cnt - secs_done - 1) div 256 = (sec_cnt - (secs_done + 256) - 1) div 256 + 1"
        by simp
      have "ide_ok (lba + (secs_done + 256)) (sec_cnt - (secs_done + 256))
          = ide_ok (lba + secs_done) (sec_cnt - secs_done)"
        using True op256 unfolding ide_ok_def dv by auto
      moreover have "map d [lba + secs_done..<lba + secs_done + 256]
          @ map d [lba + secs_done + 256..<lba + sec_cnt] = map d [lba + secs_done..<lba + sec_cnt]"
        by (rule map_upt_split) (use True op256 in auto)
      ultimately show ?thesis using step IH op256
        by (simp add: concat_append [symmetric] add.assoc del: concat_append)
    qed
  qed
qed

definition put_sectors :: "nat \<Rightarrow> u8 list \<Rightarrow> nat \<Rightarrow> nat \<Rightarrow> disk \<Rightarrow> disk" where
  "put_sectors lba buf a b d =
     (\<lambda>s. if lba + a \<le> s \<and> s < lba + b then take 512 (drop (512 * (s - lba)) buf) else d s)"

lemma put_sectors_split:
  "a \<le> b \<Longrightarrow> b \<le> c \<Longrightarrow> put_sectors lba buf b c (put_sectors lba buf a b d) = put_sectors lba buf a c d"
  by (rule ext) (auto simp: put_sectors_def)

lemma wr_cmd_chunk:
  assumes "ata_writes wr_cmd dev_no" and "regs_lba r = lba + a" and "regs_count r = n"
    and "regs_slave r = (dev_no = 1)" and "regs_lba_mode r"
  shows "wr_cmd r (take (512 * n) (drop (a * 512) buf)) d = put_sectors lba buf a (a + n) d"
proof
  fix s
  have eq: "take 512 (drop (512 * (s - (lba + a))) (take (512 * n) (drop (a * 512) buf)))
      = take 512 (drop (512 * (s - lba)) buf)" if "lba + a \<le> s" "s < lba + a + n"
  proof -
    have le: "512 + 512 * (s - (lba + a)) \<le> 512 * n" using that by simp
    have "512 * (s - (lba + a)) + a * 512 = 512 * (s - lba)" using that(1) by simp
    moreover have "min 512 (512 * n - 512 * (s - (lba + a))) = 512" using le by simp
    ultimately show ?thesis by (simp add: drop_take add.commute)
  qed
  with assms show "wr_cmd r (take (512 * n) (drop (a * 512) buf)) d s = put_sectors lba buf a (a + n) d s"
    by (simp add: ata_writes_def put_sectors_def add.assoc)
qed

lemma ide_write_loop_eq:
  assumes "ata_writes wr_cmd dev_no" and len: "512 * sec_cnt \<le> length buf"
  shows "secs_done < sec_cnt \<Longrightarrow>
    ide_write_loop wr_cmd (\<lambda>_. True) dev_no d r lba buf sec_cnt secs_done =
      (if ide_ok (lba + secs_done) (sec_cnt - secs_done)
       then Some (put_sectors lba buf secs_done sec_cnt d) else None)"
proof (induction "sec_cnt - secs_done" arbitrary: secs_done r d rule: less_induct)
  case less
  let ?op = "if secs_done + 256 \<le> sec_cnt then 256 else sec_cnt - secs_done"
  have op: "0 < ?op" "?op \<le> 256" "secs_done + ?op \<le> sec_cnt" using less.prems by auto
  show ?case
  proof (cases "select_sector dev_no (lba + secs_done) (of_nat ?op) r")
    case None
    then have "max_lba < lba + secs_done" by (simp add: select_sector_eq_None)
    then have "\<not> ide_ok (lba + secs_done) (sec_cnt - secs_done)" by (simp add: ide_ok_def)
    moreover have "ide_write_loop wr_cmd (\<lambda>_. True) dev_no d r lba buf sec_cnt secs_done = None"
      using None less.prems by (subst ide_write_loop.simps) (simp add: Let_def)
    ultimately show ?thesis by simp
  next
    case (Some r')
    then have le: "lba + secs_done \<le> max_lba" using select_sector_eq_None [of dev_no "lba + secs_done"]
      by (metis not_le option.distinct(1))
    from select_sector_spec [OF Some] have r': "regs_lba r' = lba + secs_done"
      "reg_sect_cnt r' = of_nat ?op" "regs_slave r' = (dev_no = 1)" "regs_lba_mode r'" by auto
    have rc: "regs_count r' = ?op" using r'(2) op sector_count [of ?op] by (simp only: regs_count_def)
    have blk: "rd_block buf (secs_done * 512) (size_in_byte (of_nat ?op))
        = Some (take (512 * ?op) (drop (secs_done * 512) buf))"
      using len op(3) by (simp only: size_in_byte_eq [OF op(1,2)]) (simp add: rd_block_def)
    note wr = wr_cmd_chunk [OF assms(1) r'(1) rc r'(3,4), of buf d]
    have step: "ide_write_loop wr_cmd (\<lambda>_. True) dev_no d r lba buf sec_cnt secs_done =
        ide_write_loop wr_cmd (\<lambda>_. True) dev_no (put_sectors lba buf secs_done (secs_done + ?op) d)
          r' lba buf sec_cnt (secs_done + ?op)"
      using Some less.prems blk wr by (subst ide_write_loop.simps) (simp add: Let_def)
    show ?thesis
    proof (cases "secs_done + ?op < sec_cnt")
      case False
      then have e: "secs_done + ?op = sec_cnt" "sec_cnt - secs_done \<le> 256" using less.prems
        by (auto split: if_splits)
      have "(sec_cnt - secs_done - 1) div 256 = 0" using e(2) less.prems by simp
      then have "ide_ok (lba + secs_done) (sec_cnt - secs_done)"
        using le less.prems by (simp add: ide_ok_def)
      moreover have "ide_write_loop wr_cmd (\<lambda>_. True) dev_no x r' lba buf sec_cnt sec_cnt = Some x" for x
        by (subst ide_write_loop.simps) simp
      ultimately show ?thesis using step e(1) by (simp only: if_True)
    next
      case True
      then have op256: "?op = 256" by (auto split: if_splits)
      have lt: "sec_cnt - (secs_done + 256) < sec_cnt - secs_done" using True op256 by auto
      have lt': "secs_done + 256 < sec_cnt" using True op256 by simp
      note IH = less.hyps [OF lt lt']
      have "sec_cnt - secs_done - 1 = (sec_cnt - (secs_done + 256) - 1) + 256" using lt' by simp
      then have dv: "(sec_cnt - secs_done - 1) div 256 = (sec_cnt - (secs_done + 256) - 1) div 256 + 1"
        by simp
      have "ide_ok (lba + (secs_done + 256)) (sec_cnt - (secs_done + 256))
          = ide_ok (lba + secs_done) (sec_cnt - secs_done)"
        using lt' unfolding ide_ok_def dv by auto
      then show ?thesis using step IH lt' op256 by (simp add: put_sectors_split)
    qed
  qed
qed

section \<open>The disk interrupt\<close>

text \<open>
  The part of \<open>struct ide_channel\<close> the handler works on; \<open>disk_done\<close> is the value of the
  semaphore, and \<open>status_reads\<close> counts the reads of the status register.
\<close>

record ide_channel =
  port_base :: nat
  irq_no :: nat
  expecting_intr :: bool
  disk_done :: nat
  status_reads :: nat

definition cmd_out :: "ide_channel \<Rightarrow> ide_channel" where
  "cmd_out ch = ch\<lparr>expecting_intr := True\<rparr>"

definition intr_hd_handler :: "ide_channel list \<Rightarrow> nat \<Rightarrow> ide_channel list option" where
  "intr_hd_handler channels irq =
     do { kassert (irq = 0x2e \<or> irq = 0x2f);
          let ch_no = irq - 0x2e in
          do { ch \<leftarrow> rd channels ch_no;
               kassert (irq_no ch = irq);
               if expecting_intr ch
               then wr channels ch_no (ch\<lparr>expecting_intr := False, disk_done := disk_done ch + 1,
                      status_reads := status_reads ch + 1\<rparr>)
               else Some channels } }"

text \<open>The port base and interrupt number \<open>ide_init\<close> gives each channel.\<close>

definition init_channel :: "nat \<Rightarrow> ide_channel \<Rightarrow> ide_channel" where
  "init_channel channel_no ch =
     (let ch = (if channel_no = 0 then ch\<lparr>port_base := 0x1f0, irq_no := 0x20 + 14\<rparr>
                else if channel_no = 1 then ch\<lparr>port_base := 0x170, irq_no := 0x20 + 15\<rparr> else ch)
      in ch\<lparr>expecting_intr := False, disk_done := 0\<rparr>)"

section \<open>The partition table\<close>

record pt_entry =
  pt_fs_type :: u8
  pt_start_lba :: nat
  pt_sec_cnt :: nat

definition partition_entry :: "u8 list \<Rightarrow> nat \<Rightarrow> pt_entry" where
  "partition_entry bs i =
     (let e = drop (446 + 16 * i) bs in
      \<lparr>pt_fs_type = e ! 4, pt_start_lba = dec32 (drop 8 e), pt_sec_cnt = dec32 (drop 12 e)\<rparr>)"

record part_desc =
  pd_start_lba :: nat
  pd_sec_cnt :: nat
  pd_name :: string

record scan_state =
  ext_lba_base :: nat
  p_no :: nat
  l_no :: nat
  prim_parts :: "part_desc list"
  logic_parts :: "part_desc list"
  partition_list :: "part_desc list"

definition part_name :: "string \<Rightarrow> nat \<Rightarrow> string option" where
  "part_name dname n = do { (_, buf) \<leftarrow> sprintf (replicate 8 nul) ''%s%d'' [AStr dname, AInt (of_nat n)];
     Some (takeWhile (\<lambda>c. c \<noteq> nul) buf) }"

definition add_primary :: "string \<Rightarrow> nat \<Rightarrow> pt_entry \<Rightarrow> scan_state \<Rightarrow> scan_state option" where
  "add_primary dname ext_lba p s =
     do { nm \<leftarrow> part_name dname (p_no s + 1);
          let d = \<lparr>pd_start_lba = w32 (ext_lba + pt_start_lba p), pd_sec_cnt = pt_sec_cnt p, pd_name = nm\<rparr> in
          do { ps \<leftarrow> wr (prim_parts s) (p_no s) d;
               kassert (w8 (p_no s + 1) < 4);
               Some (s\<lparr>prim_parts := ps, partition_list := partition_list s @ [d],
                       p_no := w8 (p_no s + 1)\<rparr>) } }"

definition add_logical :: "string \<Rightarrow> nat \<Rightarrow> pt_entry \<Rightarrow> scan_state \<Rightarrow> scan_state option" where
  "add_logical dname ext_lba p s =
     do { nm \<leftarrow> part_name dname (l_no s + 5);
          let d = \<lparr>pd_start_lba = w32 (ext_lba + pt_start_lba p), pd_sec_cnt = pt_sec_cnt p, pd_name = nm\<rparr> in
          do { ps \<leftarrow> wr (logic_parts s) (l_no s) d;
               Some (s\<lparr>logic_parts := ps, partition_list := partition_list s @ [d],
                       l_no := w8 (l_no s + 1)\<rparr>) } }"

text \<open>
  \<open>scan_entries\<close> is the loop over the four entries of one boot sector; an extended entry
  recurses. A chain of boot sectors that closes on itself never ends.
\<close>

partial_function (option) scan_entries ::
    "string \<Rightarrow> disk \<Rightarrow> nat \<Rightarrow> u8 list \<Rightarrow> nat \<Rightarrow> scan_state \<Rightarrow> scan_state option" where
  "scan_entries dname d ext_lba bs i s =
     (if 4 \<le> i then Some s
      else let p = partition_entry bs i in
        if pt_fs_type p = 0x5 then
          (if ext_lba_base s \<noteq> 0 then
             do { let lba = w32 (pt_start_lba p + ext_lba_base s);
                  bs' \<leftarrow> disk_read d lba 1;
                  s \<leftarrow> scan_entries dname d lba bs' 0 s;
                  scan_entries dname d ext_lba bs (Suc i) s }
           else
             do { let s = s\<lparr>ext_lba_base := pt_start_lba p\<rparr>;
                  bs' \<leftarrow> disk_read d (pt_start_lba p) 1;
                  s \<leftarrow> scan_entries dname d (pt_start_lba p) bs' 0 s;
                  scan_entries dname d ext_lba bs (Suc i) s })
        else if pt_fs_type p \<noteq> 0 then
          (if ext_lba = 0 then
             do { s \<leftarrow> add_primary dname ext_lba p s; scan_entries dname d ext_lba bs (Suc i) s }
           else
             do { s \<leftarrow> add_logical dname ext_lba p s;
                  if 8 \<le> l_no s then Some s else scan_entries dname d ext_lba bs (Suc i) s })
        else scan_entries dname d ext_lba bs (Suc i) s)"

definition partition_scan :: "string \<Rightarrow> disk \<Rightarrow> nat \<Rightarrow> scan_state \<Rightarrow> scan_state option" where
  "partition_scan dname d ext_lba s =
     do { bs \<leftarrow> disk_read d ext_lba 1; scan_entries dname d ext_lba bs 0 s }"


section \<open>What a scan can produce\<close>

text \<open>The queue holds exactly the filled entries of the two arrays.\<close>

definition scan_inv :: "scan_state \<Rightarrow> bool" where
  "scan_inv s \<longleftrightarrow> p_no s < 4 \<and> l_no s \<le> 8 \<and> length (prim_parts s) = 4 \<and> length (logic_parts s) = 8
     \<and> length (partition_list s) = p_no s + l_no s
     \<and> set (partition_list s) = set (take (p_no s) (prim_parts s)) \<union> set (take (l_no s) (logic_parts s))"

lemma add_primary_inv:
  assumes "add_primary dname ext p s = Some s'" and "scan_inv s"
  shows "scan_inv s'"
proof -
  from assms obtain d where "s' = s\<lparr>prim_parts := (prim_parts s)[p_no s := d],
      partition_list := partition_list s @ [d], p_no := p_no s + 1\<rparr>" "p_no s + 1 < 4"
    by (auto simp: add_primary_def outcome_simps Let_def scan_inv_def)
  with assms(2) show ?thesis
    by (auto simp: scan_inv_def take_Suc_conv_app_nth)
qed

lemma add_logical_inv:
  assumes "add_logical dname ext p s = Some s'" and "scan_inv s"
  shows "scan_inv s'"
proof -
  from assms obtain d where "s' = s\<lparr>logic_parts := (logic_parts s)[l_no s := d],
      partition_list := partition_list s @ [d], l_no := l_no s + 1\<rparr>" "l_no s < 8"
    by (auto simp: add_logical_def outcome_simps Let_def scan_inv_def)
  with assms(2) show ?thesis
    by (auto simp: scan_inv_def take_Suc_conv_app_nth)
qed

lemma scan_inv_ext [simp]: "scan_inv (s\<lparr>ext_lba_base := x\<rparr>) = scan_inv s"
  by (simp add: scan_inv_def)

lemma scan_entries_inv:
  assumes "scan_entries dname d ext bs i s = Some s'"
  shows "scan_inv s \<longrightarrow> scan_inv s'"
  using assms
proof (rule scan_entries.raw_induct
    [where P = "\<lambda>dname d ext bs i s s'. scan_inv s \<longrightarrow> scan_inv s'", rotated], goal_cases)
  case (1 f dname d ext bs i s s')
  show ?case
  proof
    assume inv: "scan_inv s"
    with 1(2) show "scan_inv s'"
      by (auto simp: Let_def outcome_simps split: if_splits
          dest: add_primary_inv add_logical_inv dest!: 1(1))
  qed
qed

section \<open>Properties\<close>

text \<open>
  Property C14. For a controller that follows the LBA28 protocol and gets ready, the
  chunked loop of \<open>ide_read\<close>, with the sector count register that writes 256 as 0, reads
  exactly the sectors \<open>lba\<close> to \<open>lba + sec_cnt - 1\<close>, for every count; it panics exactly
  when a chunk starts above \<open>max_lba\<close> or the count is 0. The controller is assumed to use
  LBA addressing only when the device register asks for it, which \<open>select_disk\<close> and
  \<open>select_sector\<close> do.
\<close>

theorem ide_read_refines:
  assumes "ata_reads rd_cmd dev_no" and "disk_ok d"
  shows "ide_read rd_cmd (\<lambda>_. True) dev_no d r lba sec_cnt = disk_read d lba sec_cnt
    \<and> regs_lba_mode (select_disk dev_no r) \<and> regs_slave (select_disk dev_no r) = (dev_no = 1)"
proof -
  have "regs_lba_mode (select_disk dev_no r) \<and> regs_slave (select_disk dev_no r) = (dev_no = 1)"
    by (simp add: select_disk_def regs_lba_mode_def regs_slave_def One_nat_def)
  moreover have "ide_read rd_cmd (\<lambda>_. True) dev_no d r lba sec_cnt = disk_read d lba sec_cnt"
  proof (cases "lba \<le> max_lba \<and> 0 < sec_cnt")
    case True
    with ide_read_loop_eq [OF assms, of 0 sec_cnt "select_disk dev_no r" lba "[]"] show ?thesis
      by (simp add: ide_read_def disk_read_def)
  next
    case False
    then show ?thesis by (auto simp: ide_read_def disk_read_def ide_ok_def kassert_def)
  qed
  ultimately show ?thesis by blast
qed

definition demo_disk :: disk where
  "demo_disk = (\<lambda>s. replicate 512 (of_nat s))"

definition demo_rd_cmd :: "ata_regs \<Rightarrow> disk \<Rightarrow> u8 list" where
  "demo_rd_cmd r d = (if regs_lba_mode r then concat (map d [regs_lba r..<regs_lba r + regs_count r])
     else replicate (512 * regs_count r) 0xff)"

definition demo_wr_cmd :: "ata_regs \<Rightarrow> u8 list \<Rightarrow> disk \<Rightarrow> disk" where
  "demo_wr_cmd r bs d = (\<lambda>s. if regs_lba_mode r \<and> regs_lba r \<le> s \<and> s < regs_lba r + regs_count r
       then take 512 (drop (512 * (s - regs_lba r)) bs) else d s)"

definition demo_regs :: ata_regs where
  "demo_regs = \<lparr>reg_sect_cnt = 0, reg_lba_l = 0, reg_lba_m = 0, reg_lba_h = 0, reg_dev = 0\<rparr>"

theorem ide_read_refines_witness:
  "ide_read demo_rd_cmd (\<lambda>_. True) 1 demo_disk demo_regs 7 600 = disk_read demo_disk 7 600
    \<and> regs_lba_mode (select_disk 1 demo_regs) \<and> regs_slave (select_disk 1 demo_regs)"
  using ide_read_refines [of demo_rd_cmd 1 demo_disk demo_regs 7 600]
  by (simp add: ata_reads_def demo_rd_cmd_def disk_ok_def demo_disk_def)

text \<open>
  Property C33. The same for \<open>ide_write\<close>: the chunks together store the first
  \<open>512 * sec_cnt\<close> bytes of the buffer into the selected sectors and change no other.
\<close>

theorem ide_write_refines:
  assumes "ata_writes wr_cmd dev_no" and "512 * sec_cnt \<le> length buf"
  shows "ide_write wr_cmd (\<lambda>_. True) dev_no d r lba buf sec_cnt = disk_write d lba buf sec_cnt"
proof (cases "lba \<le> max_lba \<and> 0 < sec_cnt")
  case True
  with ide_write_loop_eq [OF assms, of 0 d "select_disk dev_no r" lba] assms(2) show ?thesis
    by (simp add: ide_write_def disk_write_def put_sectors_def)
next
  case False
  then show ?thesis by (auto simp: ide_write_def disk_write_def ide_ok_def kassert_def)
qed

theorem ide_write_refines_witness:
  "ide_write demo_wr_cmd (\<lambda>_. True) 0 demo_disk demo_regs 7 (replicate 1024 5) 2
     = disk_write demo_disk 7 (replicate 1024 5) 2"
  by (rule ide_write_refines) (simp_all add: ata_writes_def demo_wr_cmd_def)

text \<open>
  A scan that comes back has filled at most three primary and eight logical
  partitions, and the partition queue lists exactly those.
\<close>

theorem partition_scan_bounded:
  assumes "partition_scan dname d ext_lba s = Some s'" and "scan_inv s"
  shows "scan_inv s'"
  using assms scan_entries_inv by (auto simp: partition_scan_def outcome_simps)

definition demo_mbr :: "u8 list" where
  "demo_mbr = replicate 446 0 @ [0, 0, 0, 0, 0x83, 0, 0, 0] @ enc32 2048 @ enc32 4096
     @ replicate 48 0 @ [0x55, 0xaa]"

definition demo_scan0 :: scan_state where
  "demo_scan0 = (let z = \<lparr>pd_start_lba = 0, pd_sec_cnt = 0, pd_name = []\<rparr> in
     \<lparr>ext_lba_base = 0, p_no = 0, l_no = 0, prim_parts = replicate 4 z,
      logic_parts = replicate 8 z, partition_list = []\<rparr>)"

definition demo_mbr_disk :: disk where
  "demo_mbr_disk = (\<lambda>s. if s = 0 then demo_mbr else replicate 512 0)"

lemma demo_mbr_read: "disk_read demo_mbr_disk 0 1 = Some demo_mbr"
  by (simp add: disk_read_def demo_mbr_disk_def ide_ok_def max_lba_eq upt_rec)

lemma demo_mbr_entries:
  "partition_entry demo_mbr 0 = \<lparr>pt_fs_type = 0x83, pt_start_lba = 2048, pt_sec_cnt = 4096\<rparr>"
  "i \<in> {1, 2, 3} \<Longrightarrow> pt_fs_type (partition_entry demo_mbr i) = 0"
  by (auto simp: partition_entry_def demo_mbr_def Let_def nth_append)

lemma demo_name: "part_name ''sdb'' 1 = Some ''sdb1''"
  by code_simp

lemma demo_mbr_scan:
  "map_option p_no (partition_scan ''sdb'' demo_mbr_disk 0 demo_scan0) = Some 1"
proof -
  have "scan_entries dn d 0 demo_mbr 4 s = Some s" for dn d s by (simp add: scan_entries.simps)
  then have "scan_entries dn d 0 demo_mbr 3 s = Some s" for dn d s
    by (subst scan_entries.simps) (simp add: demo_mbr_entries)
  then have "scan_entries dn d 0 demo_mbr 2 s = Some s" for dn d s
    by (subst scan_entries.simps) (simp add: demo_mbr_entries)
  then have "scan_entries dn d 0 demo_mbr 1 s = Some s" for dn d s
    by (subst scan_entries.simps) (simp add: demo_mbr_entries)
  then have "scan_entries ''sdb'' d 0 demo_mbr 0 demo_scan0 =
      add_primary ''sdb'' 0 (partition_entry demo_mbr 0) demo_scan0" for d
    by (subst scan_entries.simps) (simp add: demo_mbr_entries One_nat_def split: option.splits bind_split)
  then show ?thesis
    by (simp add: partition_scan_def demo_mbr_read add_primary_def demo_mbr_entries demo_name
        demo_scan0_def Let_def)
qed

theorem partition_scan_bounded_witness:
  "\<exists>s'. partition_scan ''sdb'' demo_mbr_disk 0 demo_scan0 = Some s' \<and> p_no s' = 1 \<and> scan_inv s'"
proof -
  from demo_mbr_scan obtain s' where s': "partition_scan ''sdb'' demo_mbr_disk 0 demo_scan0 = Some s'"
    "p_no s' = 1" by auto
  have "scan_inv demo_scan0" by (simp add: scan_inv_def demo_scan0_def Let_def)
  with s' partition_scan_bounded [OF s'(1)] show ?thesis by blast
qed

end
