(* ===== verification/Memory.thy ===== *)
theory Memory
  imports Bitmap
begin

text \<open>
  \<open>src/src/kernel/memory.c\<close>: the two physical page pools, the page tables reached through
  their own mapping, virtual address pools, whole pages, and the heap of small blocks.

  Physical memory is a map from word-aligned addresses to 32-bit values; a page table is
  what the processor walks from \<open>cr3\<close>. An access to an address that is not mapped is a page
  fault and has no outcome. The locks around the pools make each call one atomic step. A free
  list is the sequence of its kernel list (theory \<open>Klist\<close>), and the header of an arena is
  kept by its address in \<open>arenas\<close>.
\<close>

unbundle bit_operations_syntax

definition PG_SIZE :: nat where "PG_SIZE = 4096"
definition K_HEAP_START :: nat where "K_HEAP_START = 0xc0100000"
definition MEM_BITMAP_BASE :: nat where "MEM_BITMAP_BASE = 0xc009a000"
definition DESC_CNT :: nat where "DESC_CNT = 7"
definition PG_P_1 :: nat where "PG_P_1 = 1"
definition PG_RW_W :: nat where "PG_RW_W = 2"
definition PG_US_U :: nat where "PG_US_U = 4"

text \<open>\<open>sizeof(struct arena)\<close>: a pointer, a counter and a padded flag.\<close>

definition arena_size :: nat where "arena_size = 12"

datatype pool_flags = PF_KERNEL | PF_USER

record pool =
  pool_bitmap :: bitmap
  phy_addr_start :: nat
  pool_size :: nat

record virtual_addr =
  vaddr_bitmap :: bitmap
  vaddr_start :: nat

record mem_block_desc =
  block_size :: nat
  blocks_per_arena :: nat
  free_list :: "nat list"

text \<open>\<open>a_desc\<close> points into a descriptor array: the kernel's or the running process's.\<close>

record arena =
  a_desc :: "(pool_flags \<times> nat) option"
  a_cnt :: nat
  a_large :: bool

text \<open>
  The state: physical memory and \<open>cr3\<close>, the pools, the kernel's and the running process's
  virtual addresses and descriptors, the arenas of the address space, and whether the
  running thread has a page directory.
\<close>

record mm =
  phys :: "nat \<Rightarrow> nat"
  cr3 :: nat
  kernel_pool :: pool
  user_pool :: pool
  kernel_vaddr :: virtual_addr
  user_vaddr :: virtual_addr
  k_block_descs :: "mem_block_desc list"
  u_block_descs :: "mem_block_desc list"
  arenas :: "nat \<rightharpoonup> arena"
  in_process :: bool

section \<open>Paging\<close>

text \<open>The walk the processor does for a virtual address.\<close>

definition mmu :: "mm \<Rightarrow> nat \<Rightarrow> nat option" where
  "mmu m v =
     (let pde = phys m (cr3 m + 4 * (v div 4194304)) in
      if pde AND 1 = 0 then None
      else let pte = phys m ((pde AND 0xfffff000) + 4 * (v div 4096 mod 1024)) in
        if pte AND 1 = 0 then None else Some ((pte AND 0xfffff000) + v mod 4096))"

definition vread :: "mm \<Rightarrow> nat \<Rightarrow> nat option" where
  "vread m v = do { p \<leftarrow> mmu m v; Some (phys m p) }"

definition vwrite :: "mm \<Rightarrow> nat \<Rightarrow> nat \<Rightarrow> mm option" where
  "vwrite m v x = do { p \<leftarrow> mmu m v; Some (m\<lparr>phys := (phys m)(p := x)\<rparr>) }"

text \<open>\<open>memset(v, 0, 4 * n)\<close> on a word-aligned address.\<close>

fun vzero :: "mm \<Rightarrow> nat \<Rightarrow> nat \<Rightarrow> mm option" where
  "vzero m v 0 = Some m"
| "vzero m v (Suc n) = do { m \<leftarrow> vwrite m v 0; vzero m (v + 4) n }"

definition PDE_IDX :: "nat \<Rightarrow> nat" where "PDE_IDX addr = drop_bit 22 (addr AND 0xffc00000)"
definition PTE_IDX :: "nat \<Rightarrow> nat" where "PTE_IDX addr = drop_bit 12 (addr AND 0x003ff000)"

definition pte_ptr :: "nat \<Rightarrow> nat" where
  "pte_ptr vaddr = w32 (0xffc00000 + drop_bit 10 (vaddr AND 0xffc00000) + PTE_IDX vaddr * 4)"

definition pde_ptr :: "nat \<Rightarrow> nat" where
  "pde_ptr vaddr = w32 (0xfffff000 + PDE_IDX vaddr * 4)"

section \<open>Physical pages\<close>

definition get_pool :: "mm \<Rightarrow> pool_flags \<Rightarrow> pool" where
  "get_pool m pf = (case pf of PF_KERNEL \<Rightarrow> kernel_pool m | PF_USER \<Rightarrow> user_pool m)"

definition set_pool_bitmap :: "mm \<Rightarrow> pool_flags \<Rightarrow> bitmap \<Rightarrow> mm" where
  "set_pool_bitmap m pf b =
     (case pf of PF_KERNEL \<Rightarrow> m\<lparr>kernel_pool := (kernel_pool m)\<lparr>pool_bitmap := b\<rparr>\<rparr>
      | PF_USER \<Rightarrow> m\<lparr>user_pool := (user_pool m)\<lparr>pool_bitmap := b\<rparr>\<rparr>)"

definition palloc :: "mm \<Rightarrow> pool_flags \<Rightarrow> (nat \<times> mm) option" where
  "palloc m pf =
     do { bit_idx \<leftarrow> bitmap_scan (pool_bitmap (get_pool m pf)) 1;
          if bit_idx = - 1 then Some (0, m)
          else
            do { b \<leftarrow> bitmap_set (pool_bitmap (get_pool m pf)) (nat bit_idx) 1;
                 Some (w32 (nat bit_idx * PG_SIZE + phy_addr_start (get_pool m pf)), set_pool_bitmap m pf b) } }"

definition pfree :: "mm \<Rightarrow> nat \<Rightarrow> mm option" where
  "pfree m pg_phy_addr =
     (let pf = (if phy_addr_start (user_pool m) \<le> pg_phy_addr then PF_USER else PF_KERNEL);
          bit_idx = sub32 pg_phy_addr (phy_addr_start (get_pool m pf)) div PG_SIZE in
      do { b \<leftarrow> bitmap_set (pool_bitmap (get_pool m pf)) bit_idx 0; Some (set_pool_bitmap m pf b) })"

definition free_a_phy_page :: "mm \<Rightarrow> nat \<Rightarrow> mm option" where
  "free_a_phy_page m pg_phy_addr =
     (let pf = (if phy_addr_start (user_pool m) \<le> pg_phy_addr then PF_USER else PF_KERNEL);
          bit_idx = sub32 pg_phy_addr (phy_addr_start (get_pool m pf)) div PG_SIZE in
      do { b \<leftarrow> bitmap_set (pool_bitmap (get_pool m pf)) bit_idx 0; Some (set_pool_bitmap m pf b) })"

section \<open>Entering and removing a mapping\<close>

definition page_table_add :: "mm \<Rightarrow> nat \<Rightarrow> nat \<Rightarrow> mm option" where
  "page_table_add m vaddr page_phyaddr =
     do { pde \<leftarrow> vread m (pde_ptr vaddr);
          if pde AND 1 \<noteq> 0 then
            do { pte \<leftarrow> vread m (pte_ptr vaddr);
                 kassert (pte AND 1 = 0);
                 vwrite m (pte_ptr vaddr) (page_phyaddr OR PG_US_U OR PG_RW_W OR PG_P_1) }
          else
            do { (pde_phyaddr, m) \<leftarrow> palloc m PF_KERNEL;
                 m \<leftarrow> vwrite m (pde_ptr vaddr) (pde_phyaddr OR PG_US_U OR PG_RW_W OR PG_P_1);
                 m \<leftarrow> vzero m (pte_ptr vaddr AND 0xfffff000) (PG_SIZE div 4);
                 pte \<leftarrow> vread m (pte_ptr vaddr);
                 kassert (pte AND 1 = 0);
                 vwrite m (pte_ptr vaddr) (page_phyaddr OR PG_US_U OR PG_RW_W OR PG_P_1) } }"

definition addr_v2p :: "mm \<Rightarrow> nat \<Rightarrow> nat option" where
  "addr_v2p m vaddr =
     do { pte \<leftarrow> vread m (pte_ptr vaddr); Some (w32 ((pte AND 0xfffff000) + (vaddr AND 0xfff))) }"

definition page_table_pte_remove :: "mm \<Rightarrow> nat \<Rightarrow> mm option" where
  "page_table_pte_remove m vaddr =
     do { pte \<leftarrow> vread m (pte_ptr vaddr); vwrite m (pte_ptr vaddr) (pte AND 0xfffffffe) }"

section \<open>Virtual pages\<close>

definition get_vaddr :: "mm \<Rightarrow> pool_flags \<Rightarrow> virtual_addr" where
  "get_vaddr m pf = (case pf of PF_KERNEL \<Rightarrow> kernel_vaddr m | PF_USER \<Rightarrow> user_vaddr m)"

definition set_vaddr_bitmap :: "mm \<Rightarrow> pool_flags \<Rightarrow> bitmap \<Rightarrow> mm" where
  "set_vaddr_bitmap m pf b =
     (case pf of PF_KERNEL \<Rightarrow> m\<lparr>kernel_vaddr := (kernel_vaddr m)\<lparr>vaddr_bitmap := b\<rparr>\<rparr>
      | PF_USER \<Rightarrow> m\<lparr>user_vaddr := (user_vaddr m)\<lparr>vaddr_bitmap := b\<rparr>\<rparr>)"

text \<open>The loop \<open>while (cnt < pg_cnt) bitmap_set(...)\<close>.\<close>

fun set_bits :: "bitmap \<Rightarrow> nat \<Rightarrow> nat \<Rightarrow> nat \<Rightarrow> bitmap option" where
  "set_bits b start 0 v = Some b"
| "set_bits b start (Suc n) v = do { b \<leftarrow> bitmap_set b start v; set_bits b (start + 1) n v }"

definition vaddr_get :: "mm \<Rightarrow> pool_flags \<Rightarrow> nat \<Rightarrow> (nat \<times> mm) option" where
  "vaddr_get m pf pg_cnt =
     do { bit_idx_start \<leftarrow> bitmap_scan (vaddr_bitmap (get_vaddr m pf)) pg_cnt;
          if bit_idx_start = - 1 then Some (0, m)
          else
            do { b \<leftarrow> set_bits (vaddr_bitmap (get_vaddr m pf)) (nat bit_idx_start) pg_cnt 1;
                 let v = w32 (vaddr_start (get_vaddr m pf) + nat bit_idx_start * PG_SIZE) in
                 do { kassert (pf = PF_USER \<longrightarrow> v < 0xc0000000 - PG_SIZE);
                      Some (v, set_vaddr_bitmap m pf b) } } }"

definition vaddr_remove :: "mm \<Rightarrow> pool_flags \<Rightarrow> nat \<Rightarrow> nat \<Rightarrow> mm option" where
  "vaddr_remove m pf vaddr pg_cnt =
     do { b \<leftarrow> set_bits (vaddr_bitmap (get_vaddr m pf)) (sub32 vaddr (vaddr_start (get_vaddr m pf)) div PG_SIZE) pg_cnt 0;
          Some (set_vaddr_bitmap m pf b) }"

text \<open>Mapping page after page; a failed \<open>palloc\<close> returns \<open>NULL\<close> and rolls nothing back.\<close>

fun map_pages :: "mm \<Rightarrow> pool_flags \<Rightarrow> nat \<Rightarrow> nat \<Rightarrow> (bool \<times> mm) option" where
  "map_pages m pf vaddr 0 = Some (True, m)"
| "map_pages m pf vaddr (Suc n) =
     do { (page_phyaddr, m) \<leftarrow> palloc m pf;
          if page_phyaddr = 0 then Some (False, m)
          else do { m \<leftarrow> page_table_add m vaddr page_phyaddr; map_pages m pf (w32 (vaddr + PG_SIZE)) n } }"

definition malloc_page :: "mm \<Rightarrow> pool_flags \<Rightarrow> nat \<Rightarrow> (nat \<times> mm) option" where
  "malloc_page m pf pg_cnt =
     do { kassert (0 < pg_cnt \<and> pg_cnt < 3840);
          (v, m) \<leftarrow> vaddr_get m pf pg_cnt;
          if v = 0 then Some (0, m)
          else do { (ok, m) \<leftarrow> map_pages m pf v pg_cnt; Some (if ok then v else 0, m) } }"

definition get_pages :: "mm \<Rightarrow> pool_flags \<Rightarrow> nat \<Rightarrow> (nat \<times> mm) option" where
  "get_pages m pf pg_cnt =
     do { (v, m) \<leftarrow> malloc_page m pf pg_cnt;
          if v \<noteq> 0 then do { m \<leftarrow> vzero m v (pg_cnt * PG_SIZE div 4); Some (v, m) } else Some (v, m) }"

definition get_kernel_pages :: "mm \<Rightarrow> nat \<Rightarrow> (nat \<times> mm) option" where
  "get_kernel_pages m pg_cnt = get_pages m PF_KERNEL pg_cnt"

definition get_user_pages :: "mm \<Rightarrow> nat \<Rightarrow> (nat \<times> mm) option" where
  "get_user_pages m pg_cnt = get_pages m PF_USER pg_cnt"

definition install_page :: "mm \<Rightarrow> pool_flags \<Rightarrow> nat \<Rightarrow> (nat \<times> mm) option" where
  "install_page m pf vaddr =
     do { (page_phyaddr, m) \<leftarrow> palloc m pf;
          if page_phyaddr = 0 then Some (0, m)
          else do { m \<leftarrow> page_table_add m vaddr page_phyaddr; Some (vaddr, m) } }"

text \<open>The index is an \<open>int32_t\<close> compared with 0: a quotient by 4096 is never negative.\<close>

definition get_a_page :: "mm \<Rightarrow> pool_flags \<Rightarrow> nat \<Rightarrow> (nat \<times> mm) option" where
  "get_a_page m pf vaddr =
     (let bit_idx = sub32 vaddr (vaddr_start (get_vaddr m pf)) div PG_SIZE in
      do { kassert (in_process m \<and> pf = PF_USER \<or> \<not> in_process m \<and> pf = PF_KERNEL);
           kassert (pf = PF_KERNEL \<longrightarrow> 0 < bit_idx);
           b \<leftarrow> bitmap_set (vaddr_bitmap (get_vaddr m pf)) bit_idx 1;
           install_page (set_vaddr_bitmap m pf b) pf vaddr })"

definition get_a_page_without_opvaddrbitmap :: "mm \<Rightarrow> pool_flags \<Rightarrow> nat \<Rightarrow> (nat \<times> mm) option" where
  "get_a_page_without_opvaddrbitmap m pf vaddr = install_page m pf vaddr"

text \<open>
  \<open>mfree_page\<close> decides by the first frame which pool every frame must belong to, and gives
  the virtual addresses back to the pool of \<open>pf\<close>.
\<close>

fun free_pages :: "mm \<Rightarrow> bool \<Rightarrow> nat \<Rightarrow> nat \<Rightarrow> mm option" where
  "free_pages m user vaddr 0 = Some m"
| "free_pages m user vaddr (Suc n) =
     do { p \<leftarrow> addr_v2p m vaddr;
          kassert (p mod PG_SIZE = 0);
          kassert (if user then phy_addr_start (user_pool m) \<le> p
                   else phy_addr_start (kernel_pool m) \<le> p \<and> p < phy_addr_start (user_pool m));
          m \<leftarrow> pfree m p;
          m \<leftarrow> page_table_pte_remove m vaddr;
          free_pages m user (w32 (vaddr + PG_SIZE)) n }"

definition mfree_page :: "mm \<Rightarrow> pool_flags \<Rightarrow> nat \<Rightarrow> nat \<Rightarrow> mm option" where
  "mfree_page m pf vaddr pg_cnt =
     do { kassert (1 \<le> pg_cnt \<and> vaddr mod PG_SIZE = 0);
          p \<leftarrow> addr_v2p m vaddr;
          kassert (p mod PG_SIZE = 0 \<and> 0x102000 \<le> p);
          m \<leftarrow> free_pages m (phy_addr_start (user_pool m) \<le> p) vaddr pg_cnt;
          vaddr_remove m pf vaddr pg_cnt }"

section \<open>The heap\<close>

definition get_descs :: "mm \<Rightarrow> pool_flags \<Rightarrow> mem_block_desc list" where
  "get_descs m pf = (case pf of PF_KERNEL \<Rightarrow> k_block_descs m | PF_USER \<Rightarrow> u_block_descs m)"

definition set_descs :: "mm \<Rightarrow> pool_flags \<Rightarrow> mem_block_desc list \<Rightarrow> mm" where
  "set_descs m pf ds = (case pf of PF_KERNEL \<Rightarrow> m\<lparr>k_block_descs := ds\<rparr> | PF_USER \<Rightarrow> m\<lparr>u_block_descs := ds\<rparr>)"

definition set_free_list :: "mm \<Rightarrow> pool_flags \<Rightarrow> nat \<Rightarrow> nat list \<Rightarrow> mm option" where
  "set_free_list m pf i l =
     do { d \<leftarrow> rd (get_descs m pf) i;
          ds \<leftarrow> wr (get_descs m pf) i (d\<lparr>free_list := l\<rparr>);
          Some (set_descs m pf ds) }"

definition arena2block :: "nat \<Rightarrow> nat \<Rightarrow> nat \<Rightarrow> nat" where
  "arena2block a bsize idx = w32 (a + arena_size + idx * bsize)"

definition block2arena :: "nat \<Rightarrow> nat" where
  "block2arena b = b AND 0xfffff000"

text \<open>The first descriptor whose blocks are large enough.\<close>

fun find_desc :: "mem_block_desc list \<Rightarrow> nat \<Rightarrow> nat" where
  "find_desc [] size_req = 0"
| "find_desc (d # ds) size_req = (if size_req \<le> block_size d then 0 else Suc (find_desc ds size_req))"

fun add_blocks :: "nat list \<Rightarrow> nat \<Rightarrow> nat \<Rightarrow> nat \<Rightarrow> nat \<Rightarrow> nat list option" where
  "add_blocks l a bsize idx 0 = Some l"
| "add_blocks l a bsize idx (Suc n) =
     do { kassert (arena2block a bsize idx \<notin> set l);
          add_blocks (l @ [arena2block a bsize idx]) a bsize (Suc idx) n }"

text \<open>A new arena; \<open>False\<close> when there is no page.\<close>

definition new_arena :: "mm \<Rightarrow> pool_flags \<Rightarrow> nat \<Rightarrow> (bool \<times> mm) option" where
  "new_arena m pf i =
     do { (a, m) \<leftarrow> malloc_page m pf 1;
          if a = 0 then Some (False, m)
          else
            do { m \<leftarrow> vzero m a (PG_SIZE div 4);
                 d \<leftarrow> rd (get_descs m pf) i;
                 l \<leftarrow> add_blocks (free_list d) a (block_size d) 0 (blocks_per_arena d);
                 m \<leftarrow> set_free_list m pf i l;
                 Some (True, m\<lparr>arenas := (arenas m)(a \<mapsto>
                   \<lparr>a_desc = Some (pf, i), a_cnt = blocks_per_arena d, a_large = False\<rparr>)\<rparr>) } }"

definition take_block :: "mm \<Rightarrow> pool_flags \<Rightarrow> nat \<Rightarrow> (nat \<times> mm) option" where
  "take_block m pf i =
     do { d \<leftarrow> rd (get_descs m pf) i;
          kassert (free_list d \<noteq> []);
          let b = hd (free_list d) in
          do { m \<leftarrow> set_free_list m pf i (tl (free_list d));
               m \<leftarrow> vzero m b (block_size d div 4);
               a \<leftarrow> arenas m (block2arena b);
               Some (b, m\<lparr>arenas := (arenas m)(block2arena b \<mapsto> a\<lparr>a_cnt := sub32 (a_cnt a) 1\<rparr>)\<rparr>) } }"

definition malloc_large :: "mm \<Rightarrow> pool_flags \<Rightarrow> nat \<Rightarrow> (nat \<times> mm) option" where
  "malloc_large m pf size_req =
     (let page_cnt = div_round_up (size_req + arena_size) PG_SIZE in
      do { (a, m) \<leftarrow> malloc_page m pf page_cnt;
           if a = 0 then Some (0, m)
           else
             do { m \<leftarrow> vzero m a (page_cnt * PG_SIZE div 4);
                  Some (w32 (a + arena_size), m\<lparr>arenas := (arenas m)(a \<mapsto>
                    \<lparr>a_desc = None, a_cnt = page_cnt, a_large = True\<rparr>)\<rparr>) } })"

definition sys_malloc :: "mm \<Rightarrow> nat \<Rightarrow> (nat \<times> mm) option" where
  "sys_malloc m size_req =
     (let pf = (if in_process m then PF_USER else PF_KERNEL) in
      if \<not> (0 < size_req \<and> size_req < pool_size (get_pool m pf)) then Some (0, m)
      else if 1024 < size_req then malloc_large m pf size_req
      else
        let i = find_desc (get_descs m pf) size_req in
        do { d \<leftarrow> rd (get_descs m pf) i;
             (ok, m) \<leftarrow> (if free_list d = [] then new_arena m pf i else Some (True, m));
             if ok then take_block m pf i else Some (0, m) })"

text \<open>\<open>sys_malloc_kernel\<close> hides the page directory of the running thread for the call.\<close>

definition sys_malloc_kernel :: "mm \<Rightarrow> nat \<Rightarrow> (nat \<times> mm) option" where
  "sys_malloc_kernel m size_req =
     do { (b, m') \<leftarrow> sys_malloc (m\<lparr>in_process := False\<rparr>) size_req; Some (b, m'\<lparr>in_process := in_process m\<rparr>) }"

definition kernel_malloc :: "mm \<Rightarrow> nat \<Rightarrow> (nat \<times> mm) option" where
  "kernel_malloc m size_req = sys_malloc_kernel m size_req"

text \<open>All blocks of an arena that is free again leave the free list, and its page goes back.\<close>

fun remove_blocks :: "nat list \<Rightarrow> nat \<Rightarrow> nat \<Rightarrow> nat \<Rightarrow> nat \<Rightarrow> nat list option" where
  "remove_blocks l a bsize idx 0 = Some l"
| "remove_blocks l a bsize idx (Suc n) =
     do { kassert (arena2block a bsize idx \<in> set l);
          remove_blocks (remove1 (arena2block a bsize idx) l) a bsize (Suc idx) n }"

definition free_block :: "mm \<Rightarrow> pool_flags \<Rightarrow> nat \<Rightarrow> pool_flags \<Rightarrow> nat \<Rightarrow> mm option" where
  "free_block m pf b dpf i =
     (let aa = block2arena b in
      do { d \<leftarrow> rd (get_descs m dpf) i;
           m \<leftarrow> set_free_list m dpf i (free_list d @ [b]);
           a \<leftarrow> arenas m aa;
           let a = a\<lparr>a_cnt := w32 (a_cnt a + 1)\<rparr>; m = m\<lparr>arenas := (arenas m)(aa \<mapsto> a)\<rparr> in
           if a_cnt a = blocks_per_arena d then
             do { l \<leftarrow> remove_blocks (free_list d @ [b]) aa (block_size d) 0 (blocks_per_arena d);
                  m \<leftarrow> set_free_list m dpf i l;
                  mfree_page (m\<lparr>arenas := (arenas m)(aa := None)\<rparr>) pf aa 1 }
           else Some m })"

definition sys_free :: "mm \<Rightarrow> nat \<Rightarrow> mm option" where
  "sys_free m ptr =
     (if ptr = 0 then Some m
      else
        do { kassert (in_process m \<or> K_HEAP_START \<le> ptr);
             let pf = (if in_process m then PF_USER else PF_KERNEL); aa = block2arena ptr in
             do { a \<leftarrow> arenas m aa;
                  case a_desc a of
                    None \<Rightarrow>
                      do { kassert (a_large a);
                           mfree_page (m\<lparr>arenas := (arenas m)(aa := None)\<rparr>) pf aa (a_cnt a) }
                  | Some (dpf, i) \<Rightarrow> free_block m pf ptr dpf i } })"

definition sys_free_kernel :: "mm \<Rightarrow> nat \<Rightarrow> mm option" where
  "sys_free_kernel m ptr =
     do { m' \<leftarrow> sys_free (m\<lparr>in_process := False\<rparr>) ptr; Some (m'\<lparr>in_process := in_process m\<rparr>) }"

definition kfree :: "mm \<Rightarrow> nat \<Rightarrow> mm option" where
  "kfree m ptr = sys_free_kernel m ptr"

section \<open>Initialisation\<close>

text \<open>\<open>all_free_pages\<close> is a \<open>uint16_t\<close>.\<close>

definition mem_pool_init :: "nat \<Rightarrow> mm \<Rightarrow> mm" where
  "mem_pool_init all_mem m =
     (let page_table_size = PG_SIZE * 256; used_mem = page_table_size + 0x100000;
          free_mem = sub32 all_mem used_mem;
          all_free_pages = w16 (free_mem div PG_SIZE);
          kernel_free_pages = w16 (all_free_pages div 2);
          user_free_pages = w16 (all_free_pages - kernel_free_pages);
          kbm_length = kernel_free_pages div 8; ubm_length = user_free_pages div 8;
          kp_start = used_mem; up_start = w32 (kp_start + kernel_free_pages * PG_SIZE) in
      m\<lparr>kernel_pool := \<lparr>pool_bitmap = \<lparr>btmp_bytes_len = kbm_length, bits = replicate kbm_length 0\<rparr>,
          phy_addr_start = kp_start, pool_size = w32 (kernel_free_pages * PG_SIZE)\<rparr>,
        user_pool := \<lparr>pool_bitmap = \<lparr>btmp_bytes_len = ubm_length, bits = replicate ubm_length 0\<rparr>,
          phy_addr_start = up_start, pool_size = w32 (user_free_pages * PG_SIZE)\<rparr>,
        kernel_vaddr := \<lparr>vaddr_bitmap = \<lparr>btmp_bytes_len = kbm_length, bits = replicate kbm_length 0\<rparr>,
          vaddr_start = K_HEAP_START\<rparr>\<rparr>)"

fun init_descs :: "nat \<Rightarrow> nat \<Rightarrow> mem_block_desc list" where
  "init_descs bsize 0 = []"
| "init_descs bsize (Suc n) =
     \<lparr>block_size = bsize, blocks_per_arena = (PG_SIZE - arena_size) div bsize, free_list = []\<rparr>
     # init_descs (w16 (bsize * 2)) n"

definition block_desc_init :: "mem_block_desc list" where
  "block_desc_init = init_descs 16 DESC_CNT"

definition mem_init :: "nat \<Rightarrow> mm \<Rightarrow> mm" where
  "mem_init mem_bytes_total m = (mem_pool_init mem_bytes_total m)\<lparr>k_block_descs := block_desc_init\<rparr>"

end
