(* ===== verification/Machine.thy ===== *)
theory Machine
  imports Memory
begin

unbundle bit_operations_syntax

text \<open>
  What the kernel tells the processor and its devices: the segment descriptors of
  \<open>src/src/userprog/tss.c\<close>, the gates, the handler tables and the interrupt controller of
  \<open>src/src/kernel/interrupt.c\<close>, the timer and the sleeps of \<open>src/src/device/timer.c\<close>. Bytes written to ports are
  pairs of port and byte.
\<close>

section \<open>Segment descriptors\<close>

record gdt_desc =
  limit_low_word :: u16
  base_low_word :: u16
  base_mid_byte :: u8
  attr_low_byte :: u8
  limit_high_attr_high :: u8
  base_high_byte :: u8

definition make_gdt_desc :: "u32 \<Rightarrow> u32 \<Rightarrow> u8 \<Rightarrow> u8 \<Rightarrow> gdt_desc" where
  "make_gdt_desc desc_base limit attr_low attr_high =
     \<lparr>limit_low_word = ucast (limit AND 0x0000ffff), base_low_word = ucast (desc_base AND 0x0000ffff),
      base_mid_byte = ucast (drop_bit 16 (desc_base AND 0x00ff0000)), attr_low_byte = attr_low,
      limit_high_attr_high = ucast (drop_bit 16 (limit AND 0x000f0000) + ucast attr_high :: u32),
      base_high_byte = ucast (drop_bit 24 desc_base)\<rparr>"

definition GDT_ATTR_HIGH :: u8 where "GDT_ATTR_HIGH = 0xc0"
definition GDT_CODE_ATTR_LOW_DPL3 :: u8 where "GDT_CODE_ATTR_LOW_DPL3 = 0xf8"
definition GDT_DATA_ATTR_LOW_DPL3 :: u8 where "GDT_DATA_ATTR_LOW_DPL3 = 0xf2"
definition TSS_ATTR_HIGH :: u8 where "TSS_ATTR_HIGH = 0x80"
definition TSS_ATTR_LOW :: u8 where "TSS_ATTR_LOW = 0x89"
definition TSS_SIZE :: u32 where "TSS_SIZE = 108"

text \<open>The three descriptors \<open>tss_init\<close> stores and the operand of \<open>lgdt\<close>; \<open>tss\<close> is the address of the TSS.\<close>

definition tss_init :: "u32 \<Rightarrow> (u32 \<times> gdt_desc) list \<times> nat" where
  "tss_init tss =
     ([(0xc0000920, make_gdt_desc tss (TSS_SIZE - 1) TSS_ATTR_LOW TSS_ATTR_HIGH),
       (0xc0000928, make_gdt_desc 0 0xfffff GDT_CODE_ATTR_LOW_DPL3 GDT_ATTR_HIGH),
       (0xc0000930, make_gdt_desc 0 0xfffff GDT_DATA_ATTR_LOW_DPL3 GDT_ATTR_HIGH)],
      (8 * 7 - 1) OR push_bit 16 0xc0000900)"

text \<open>What the processor reads from a descriptor.\<close>

definition desc_base :: "gdt_desc \<Rightarrow> u32" where
  "desc_base d = ucast (base_low_word d) OR push_bit 16 (ucast (base_mid_byte d)) OR push_bit 24 (ucast (base_high_byte d))"

definition desc_limit :: "gdt_desc \<Rightarrow> u32" where
  "desc_limit d = ucast (limit_low_word d) OR push_bit 16 (ucast (limit_high_attr_high d AND 0x0f))"

definition desc_dpl :: "gdt_desc \<Rightarrow> u8" where
  "desc_dpl d = drop_bit 5 (attr_low_byte d) AND 3"

section \<open>Interrupt gates\<close>

record gate_desc =
  func_offset_low_word :: u16
  selector :: u16
  dcount :: u8
  attribute :: u8
  func_offset_high_word :: u16

definition SELECTOR_K_CODE :: u16 where "SELECTOR_K_CODE = 8"
definition IDT_DESC_CNT :: nat where "IDT_DESC_CNT = 0x81"
definition IDT_DESC_ATTR_DPL0 :: u8 where "IDT_DESC_ATTR_DPL0 = 0x8e"
definition IDT_DESC_ATTR_DPL3 :: u8 where "IDT_DESC_ATTR_DPL3 = 0xee"

definition make_idt_desc :: "u8 \<Rightarrow> u32 \<Rightarrow> gate_desc" where
  "make_idt_desc attr fn =
     \<lparr>func_offset_low_word = ucast (fn AND 0x0000ffff), selector = SELECTOR_K_CODE, dcount = 0, attribute = attr,
      func_offset_high_word = ucast (drop_bit 16 (fn AND 0xffff0000))\<rparr>"

text \<open>\<open>entries\<close> is \<open>intr_entry_table\<close>, the last gate is the one of the system calls.\<close>

definition idt_desc_init :: "u32 list \<Rightarrow> u32 \<Rightarrow> gate_desc list" where
  "idt_desc_init entries syscall_handler =
     (map (\<lambda>i. make_idt_desc IDT_DESC_ATTR_DPL0 (entries ! i)) [0..<IDT_DESC_CNT])
       [IDT_DESC_CNT - 1 := make_idt_desc IDT_DESC_ATTR_DPL3 syscall_handler]"

definition gate_offset :: "gate_desc \<Rightarrow> u32" where
  "gate_offset g = ucast (func_offset_low_word g) OR push_bit 16 (ucast (func_offset_high_word g))"

definition gate_dpl :: "gate_desc \<Rightarrow> u8" where
  "gate_dpl g = drop_bit 5 (attribute g) AND 3"

section \<open>Handlers\<close>

text \<open>
  The functions the kernel registers; the general one only comes back for the two spurious
  interrupts and otherwise prints and loops.
\<close>

datatype handler = General_handler | Timer_handler | Keyboard_handler | Hd_handler

definition general_intr_handler :: "nat \<Rightarrow> unit option" where
  "general_intr_handler vec_nr = (if vec_nr = 0x27 \<or> vec_nr = 0x2f then Some () else None)"

text \<open>The table of the handlers and the names of the exceptions; vector 15 is reserved.\<close>

definition exception_init :: "handler list \<times> string list" where
  "exception_init =
     (replicate IDT_DESC_CNT General_handler,
      (replicate IDT_DESC_CNT ''unknown'')[0 := ''#DE Divide Error'',
        1 := ''#DB Debug Exception'',
        2 := ''NMI Interrupt'',
        3 := ''#BP Breakpoint Exception'',
        4 := ''#OF Overflow Exception'',
        5 := ''#BR BOUND Range Exceeded Exception'',
        6 := ''#UD Invalid Opcode Exception'',
        7 := ''#NM Device Not Available Exception'',
        8 := ''#DF Double Fault Exception'',
        9 := ''Coprocessor Segment Overrun'',
        10 := ''#TS Invalid TSS Exception'',
        11 := ''#NP Segment Not Present'',
        12 := ''#SS Stack Fault Exception'',
        13 := ''#GP General Protection Exception'',
        14 := ''#PF Page-Fault Exception'',
        16 := ''#MF x87 FPU Floating-Point Error'',
        17 := ''#AC Alignment Check Exception'',
        18 := ''#MC Machine-Check Exception'',
        19 := ''#XF SIMD Floating-Point Exception''])"

definition register_handler :: "handler list \<Rightarrow> nat \<Rightarrow> handler \<Rightarrow> handler list option" where
  "register_handler idt_table vector_no fn = wr idt_table vector_no fn"

definition EFLAGS_IF :: u32 where "EFLAGS_IF = 0x200"

text \<open>The flag \<open>intr_on\<close> of the thread model is this bit of the flags register.\<close>

definition intr_get_status :: "u32 \<Rightarrow> bool" where
  "intr_get_status eflags \<longleftrightarrow> EFLAGS_IF AND eflags \<noteq> 0"

definition pic_init :: "(nat \<times> u8) list" where
  "pic_init = [(0x20, 0x11), (0x21, 0x20), (0x21, 0x04), (0x21, 0x01),
     (0xa0, 0x11), (0xa1, 0x28), (0xa1, 0x02), (0xa1, 0x01), (0x21, 0xf8), (0xa1, 0xbf)]"

text \<open>
  The interrupt lines that get through: the last byte a controller is given at its data port is its
  mask. Line 2 is the second controller.
\<close>

definition last_byte :: "(nat \<times> u8) list \<Rightarrow> nat \<Rightarrow> u8" where
  "last_byte outs port = snd (last (filter (\<lambda>(p, b). p = port) outs))"

definition irq_passes :: "(nat \<times> u8) list \<Rightarrow> nat \<Rightarrow> bool" where
  "irq_passes outs irq =
     (if irq < 8 then \<not> bit (last_byte outs 0x21) irq
      else \<not> bit (last_byte outs 0x21) 2 \<and> \<not> bit (last_byte outs 0xa1) (irq - 8))"

text \<open>The operand of \<open>lidt\<close> for the table at address \<open>idt\<close>, and the whole set-up.\<close>

definition idt_operand :: "u32 \<Rightarrow> nat" where
  "idt_operand idt = (8 * IDT_DESC_CNT - 1) OR push_bit 16 (unat idt)"

definition idt_init :: "u32 \<Rightarrow> u32 list \<Rightarrow> u32 \<Rightarrow> gate_desc list \<times> (handler list \<times> string list) \<times> (nat \<times> u8) list \<times> nat" where
  "idt_init idt entries syscall_handler = (idt_desc_init entries syscall_handler, exception_init, pic_init, idt_operand idt)"

section \<open>The timer\<close>

definition IRQ0_FREQUENCY :: nat where "IRQ0_FREQUENCY = 100"
definition INPUT_FREQUENCY :: nat where "INPUT_FREQUENCY = 1193180"
definition COUNTER0_VALUE :: nat where "COUNTER0_VALUE = INPUT_FREQUENCY div IRQ0_FREQUENCY"

text \<open>The cast binds tighter than the shift: the low byte is shifted by 8.\<close>

definition frequency_set :: "nat \<Rightarrow> u8 \<Rightarrow> u8 \<Rightarrow> u8 \<Rightarrow> u16 \<Rightarrow> (nat \<times> u8) list" where
  "frequency_set counter_port counter_no rwl counter_mode counter_value =
     [(0x43, push_bit 6 counter_no OR push_bit 4 rwl OR push_bit 1 counter_mode),
      (counter_port, ucast counter_value),
      (counter_port, drop_bit 8 (ucast counter_value :: u8))]"

definition timer_init :: "(nat \<times> u8) list" where
  "timer_init = frequency_set 0x40 0 3 2 (of_nat COUNTER0_VALUE)"

text \<open>The count the 8253 runs with: the low byte comes first. A count of 0 is 65536.\<close>

definition pit_count :: "u8 \<Rightarrow> u8 \<Rightarrow> nat" where
  "pit_count low high = (let n = unat low + 256 * unat high in if n = 0 then 65536 else n)"

definition sleep_ticks :: "nat \<Rightarrow> nat" where
  "sleep_ticks m_seconds = w32 (m_seconds + 1000 div IRQ0_FREQUENCY - 1) div (1000 div IRQ0_FREQUENCY)"

text \<open>
  \<open>mtime_sleep\<close> up to the loop; the test of the loop of \<open>ticks_to_sleep\<close>, which yields while it
  holds, with the unsigned difference of the tick counters.
\<close>

definition mtime_sleep :: "nat \<Rightarrow> nat option" where
  "mtime_sleep m_seconds = do { kassert (0 < sleep_ticks m_seconds); Some (sleep_ticks m_seconds) }"

definition keeps_sleeping :: "nat \<Rightarrow> nat \<Rightarrow> nat \<Rightarrow> bool" where
  "keeps_sleeping start_tick ticks_now n \<longleftrightarrow> sub32 ticks_now start_tick < n"

section \<open>What the processor reads back\<close>

lemma low_word: "(0x0000ffff :: u32) = mask 16" "(0x00ff0000 :: u32) = push_bit 16 (mask 8)"
  "(0x000f0000 :: u32) = push_bit 16 (mask 4)" "(0xffff0000 :: u32) = push_bit 16 (mask 16)" "(0x0f :: u8) = mask 4"
  by (simp_all add: mask_eq_exp_minus_1 push_bit_eq_mult)

lemma add_back: "k \<le> n \<Longrightarrow> k + (n - k) = (n :: nat)"
  by simp

lemma closed_dpl: "drop_bit 5 IDT_DESC_ATTR_DPL0 AND 3 = 0" "drop_bit 5 IDT_DESC_ATTR_DPL3 AND 3 = 3"
  by (simp_all add: IDT_DESC_ATTR_DPL0_def IDT_DESC_ATTR_DPL3_def One_nat_def)

lemma closed_segments:
  "desc_limit (make_gdt_desc b (TSS_SIZE - 1) TSS_ATTR_LOW TSS_ATTR_HIGH) = 107"
  "desc_limit (make_gdt_desc b 0xfffff GDT_CODE_ATTR_LOW_DPL3 GDT_ATTR_HIGH) = 0xfffff"
  "desc_limit (make_gdt_desc b 0xfffff GDT_DATA_ATTR_LOW_DPL3 GDT_ATTR_HIGH) = 0xfffff"
  "drop_bit 5 TSS_ATTR_LOW AND 3 = 0" "drop_bit 5 GDT_CODE_ATTR_LOW_DPL3 AND 3 = 3" "drop_bit 5 GDT_DATA_ATTR_LOW_DPL3 AND 3 = 3"
  by (simp_all add: desc_limit_def make_gdt_desc_def TSS_SIZE_def TSS_ATTR_LOW_def TSS_ATTR_HIGH_def
      GDT_CODE_ATTR_LOW_DPL3_def GDT_DATA_ATTR_LOW_DPL3_def GDT_ATTR_HIGH_def One_nat_def)

lemma desc_base_make: "desc_base (make_gdt_desc b l lo hi) = b"
  unfolding desc_base_def make_gdt_desc_def low_word
proof (rule bit_word_eqI, goal_cases)
  case (1 n)
  consider "n < 16" | "16 \<le> n" "n < 24" | "24 \<le> n" by linarith
  then show ?case by cases (use 1 in \<open>auto simp: bit_simps add_back\<close>)
qed

lemma gate_offset_make: "gate_offset (make_idt_desc a f) = f"
  unfolding gate_offset_def make_idt_desc_def low_word
proof (rule bit_word_eqI, goal_cases)
  case (1 n)
  consider "n < 16" | "16 \<le> n" by linarith
  then show ?case by cases (use 1 in \<open>auto simp: bit_simps add_back\<close>)
qed

section \<open>Properties\<close>

text \<open>
  Every gate of the table leads to the entry of its own vector, the last one to the
  handler of the system calls, and that one is the only gate a user program may call: the gates of
  the exceptions and devices have privilege level 0.
\<close>

theorem idt_gates:
  assumes "i < IDT_DESC_CNT"
  shows "map gate_offset (idt_desc_init entries h) ! i = (if i = 0x80 then h else entries ! i) \<and>
    (map gate_dpl (idt_desc_init entries h) ! i = 3 \<longleftrightarrow> i = 0x80) \<and>
    length (idt_desc_init entries h) = IDT_DESC_CNT"
proof -
  have "gate_dpl (make_idt_desc IDT_DESC_ATTR_DPL0 f) = 0" "gate_dpl (make_idt_desc IDT_DESC_ATTR_DPL3 f) = 3" for f
    using closed_dpl by (simp_all add: gate_dpl_def make_idt_desc_def)
  then show ?thesis using assms
    by (simp add: idt_desc_init_def gate_offset_make nth_list_update IDT_DESC_CNT_def)
qed

theorem idt_gates_witness:
  "map gate_offset (idt_desc_init (map of_nat [0..<0x81]) 0xc0001500) ! 0x80 = 0xc0001500"
  using idt_gates [of "0x80" "map of_nat [0..<0x81]" "0xc0001500"] by (simp add: IDT_DESC_CNT_def)

theorem tss_init_segments:
  "map (\<lambda>(a, d). (desc_base d, desc_limit d, desc_dpl d)) (fst (tss_init tss)) =
     [(tss, 107, 0), (0, 0xfffff, 3), (0, 0xfffff, 3)] \<and>
   snd (tss_init tss) = 0xc0000900 * 0x10000 + 55"
proof -
  have "(8 * 7 - 1) OR push_bit 16 0xc0000900 = (0xc0000900 * 0x10000 + 55 :: nat)" by (simp add: One_nat_def)
  moreover have "desc_dpl (make_gdt_desc b l lo hi) = drop_bit 5 lo AND 3" for b l lo hi
    by (simp add: desc_dpl_def make_gdt_desc_def)
  ultimately show ?thesis by (simp add: tss_init_def desc_base_make closed_segments)
qed

text \<open>The handler of a vector is the one registered last.\<close>

lemma register_handler_last:
  "register_handler idt v f = Some idt' \<Longrightarrow> idt' ! w = (if w = v then f else idt ! w) \<and> length idt' = length idt"
  by (auto simp: register_handler_def wr_def nth_list_update split: if_splits)

text \<open>
  The lines that get through are those of the timer, the keyboard, the second controller and the
  first disk channel. Line 15, of the second disk channel, stays masked.
\<close>

theorem pic_init_lines: "irq < 16 \<Longrightarrow> irq_passes pic_init irq \<longleftrightarrow> irq \<in> {0, 1, 2, 14}"
proof -
  have "last_byte pic_init 0x21 = 0xf8" "last_byte pic_init 0xa1 = 0xbf"
    by (simp_all add: last_byte_def pic_init_def)
  moreover assume "irq < 16"
  then have "irq \<in> set [0..<16]" by simp
  then have "irq \<in> {0, 1, 2, 3, 4, 5, 6, 7, 8, 9, 10, 11, 12, 13, 14, 15}"
    by (simp add: upt_rec numeral_eq_Suc One_nat_def)
  ultimately show ?thesis by (auto simp: irq_passes_def bit_numeral_rec One_nat_def)
qed

text \<open>
  The high byte of the timer's count is lost: the byte is shifted after it was cut to 8 bits,
  so the device counts to 155 and not to 11931, and ticks 76 times as often as
  \<open>IRQ0_FREQUENCY\<close> says.
\<close>

theorem timer_runs_too_fast:
  "timer_init = [(0x43, 0x34), (0x40, 0x9b), (0x40, 0)] \<and> pit_count 0x9b 0 = 155 \<and> COUNTER0_VALUE = 11931 \<and>
   INPUT_FREQUENCY div pit_count (snd (timer_init ! 1)) (snd (timer_init ! 2)) = 7697"
  by (simp add: timer_init_def frequency_set_def COUNTER0_VALUE_def INPUT_FREQUENCY_def IRQ0_FREQUENCY_def pit_count_def Let_def One_nat_def)

lemma keeps_sleeping_wrap:
  assumes "start < 2 ^ 32" "k < 2 ^ 32"
  shows "keeps_sleeping start ((start + k) mod 2 ^ 32) n = (k < n)"
proof -
  have "((start + k) mod 4294967296 + (4294967296 - start)) mod 4294967296 = (start + k + (4294967296 - start)) mod 4294967296"
    by (rule mod_add_left_eq)
  also have "\<dots> = k" using assms by simp
  finally show ?thesis using assms by (simp add: keeps_sleeping_def sub32_def)
qed

text \<open>
  A sleep asks for the least number of ticks of ten milliseconds that lasts long enough, and the
  loop ends after exactly that many ticks even when the tick counter wraps; a sleep of 0 milliseconds
  and one of the nine longest ones stop the kernel.
\<close>

theorem mtime_sleep_ticks:
  assumes "m < 2 ^ 32"
  shows "mtime_sleep m =
      (if m = 0 \<or> 2 ^ 32 - 9 \<le> m then None else Some (div_round_up m 10)) \<and>
    (\<forall>start k n. start < 2 ^ 32 \<and> k < 2 ^ 32 \<longrightarrow>
       keeps_sleeping start ((start + k) mod 2 ^ 32) n = (k < n))"
proof
  show "mtime_sleep m = (if m = 0 \<or> 2 ^ 32 - 9 \<le> m then None else Some (div_round_up m 10))"
    using assms
    by (auto simp: mtime_sleep_def sleep_ticks_def IRQ0_FREQUENCY_def div_round_up_def w32_def kassert_def le_mod_geq)
  show "\<forall>start k n. start < 2 ^ 32 \<and> k < 2 ^ 32 \<longrightarrow> keeps_sleeping start ((start + k) mod 2 ^ 32) n = (k < n)"
    using keeps_sleeping_wrap by blast
qed

theorem mtime_sleep_ticks_witness: "mtime_sleep 25 = Some 3 \<and> mtime_sleep 0 = None"
  using mtime_sleep_ticks [of 25] mtime_sleep_ticks [of 0] by (simp add: div_round_up_def)

end
