(* ===== verification/Ideinit.thy ===== *)
theory Ideinit
  imports Ide Machine
begin

unbundle bit_operations_syntax

text \<open>
  The start of the disk driver, \<open>identify_disk\<close> and \<open>ide_init\<close> of \<open>src/src/device/ide.c\<close>: the channels
  get their ports and interrupts, every disk is asked for its identity, and the partitions of the
  slave disks are looked up. What the disks answer are arguments: \<open>ids c n\<close> is the sector the
  identify command of disk \<open>n\<close> on channel \<open>c\<close> gives, \<open>disks c n\<close> its contents, \<open>status c n\<close> what the polls of
  \<open>busy_wait\<close> find, and \<open>passes irq\<close> says whether an interrupt line gets through to the processor. The printed lines are left out, \<open>identify_disk\<close> returns what they show.
\<close>

section \<open>The identity of a disk\<close>

text \<open>The index is a byte. Reading or writing outside an array is no outcome.\<close>

partial_function (option) swap_loop :: "u8 list \<Rightarrow> u8 list \<Rightarrow> nat \<Rightarrow> nat \<Rightarrow> u8 list option" where
  "swap_loop dst buf len idx =
     (if idx < len then
        do { a \<leftarrow> rd dst 0;
             buf \<leftarrow> wr buf (idx + 1) a;
             b \<leftarrow> rd dst 1;
             buf \<leftarrow> wr buf idx b;
             swap_loop (drop 2 dst) buf len (w8 (idx + 2)) }
      else wr buf idx 0)"

definition swap_pairs_bytes :: "u8 list \<Rightarrow> u8 list \<Rightarrow> nat \<Rightarrow> u8 list option" where
  "swap_pairs_bytes dst buf len = swap_loop dst buf len 0"

definition c_string :: "u8 list \<Rightarrow> u8 list" where
  "c_string = takeWhile (\<lambda>b. b \<noteq> 0)"

text \<open>
  The command, the interrupt that answers it, and the semaphore the caller waits at. When the line is
  masked the caller waits for ever.
\<close>

definition ask_disk :: "(nat \<Rightarrow> bool) \<Rightarrow> nat \<Rightarrow> ide_channel list \<Rightarrow> ide_channel list option" where
  "ask_disk passes channel_no cs =
     do { ch \<leftarrow> rd cs channel_no;
          cs \<leftarrow> wr cs channel_no (cmd_out ch);
          kassert (passes (irq_no ch - 0x20));
          cs \<leftarrow> intr_hd_handler cs (irq_no ch);
          ch \<leftarrow> rd cs channel_no;
          kassert (0 < disk_done ch);
          wr cs channel_no (ch\<lparr>disk_done := disk_done ch - 1\<rparr>) }"

text \<open>\<open>stack\<close> is what the buffer of 64 bytes holds before the first string.\<close>

definition identify_disk :: "(nat \<Rightarrow> u8) \<Rightarrow> u8 list \<Rightarrow> u8 list \<Rightarrow> (u8 list \<times> u8 list \<times> nat \<times> nat) option" where
  "identify_disk status id_info stack =
     do { kassert (busy_wait status);
          buf \<leftarrow> swap_pairs_bytes (drop 20 id_info) stack 20;
          let sn = c_string buf in
          do { buf \<leftarrow> swap_pairs_bytes (drop 54 id_info) (replicate 64 0) 40;
               let sectors = dec32 (drop 120 id_info) in
               Some (sn, c_string buf, sectors, w32 (sectors * 512) div 1024 div 1024) } }"

section \<open>The channels and their disks\<close>

record ide_sys =
  chans :: "ide_channel list"
  handlers :: "handler list"
  scan :: scan_state
  slaves :: "(string \<times> part_desc list \<times> part_desc list) list"

definition no_part :: part_desc where
  "no_part = \<lparr>pd_start_lba = 0, pd_sec_cnt = 0, pd_name = []\<rparr>"

definition disk_name :: "nat \<Rightarrow> nat \<Rightarrow> string option" where
  "disk_name channel_no dev_no =
     do { (_, buf) \<leftarrow> sprintf (replicate 8 nul) ''sd%c'' [AChar (char_of (97 + channel_no * 2 + dev_no))];
          Some (takeWhile (\<lambda>c. c \<noteq> nul) buf) }"

text \<open>
  The arrays of the partitions belong to the disk and start zeroed, the list of all partitions and
  the base of the extended partition go on from disk to disk.
\<close>

definition init_disk ::
    "(nat \<Rightarrow> bool) \<Rightarrow> (nat \<Rightarrow> nat \<Rightarrow> nat \<Rightarrow> u8) \<Rightarrow> (nat \<Rightarrow> nat \<Rightarrow> u8 list) \<Rightarrow> (nat \<Rightarrow> nat \<Rightarrow> disk) \<Rightarrow> u8 list \<Rightarrow> nat \<Rightarrow> nat \<Rightarrow> ide_sys \<Rightarrow> ide_sys option" where
  "init_disk passes status ids disks stack channel_no dev_no s =
     do { nm \<leftarrow> disk_name channel_no dev_no;
          cs \<leftarrow> ask_disk passes channel_no (chans s);
          _ \<leftarrow> identify_disk (status channel_no dev_no) (ids channel_no dev_no) stack;
          s \<leftarrow> Some (s\<lparr>chans := cs\<rparr>);
          s \<leftarrow> (if dev_no \<noteq> 0 then
                 do { sc \<leftarrow> partition_scan nm (disks channel_no dev_no) 0
                        ((scan s)\<lparr>prim_parts := replicate 4 no_part, logic_parts := replicate 8 no_part\<rparr>);
                      Some (s\<lparr>scan := sc, slaves := slaves s @ [(nm, prim_parts sc, logic_parts sc)]\<rparr>) }
               else Some s);
          Some (s\<lparr>scan := (scan s)\<lparr>p_no := 0, l_no := 0\<rparr>\<rparr>) }"

definition setup_channel :: "nat \<Rightarrow> ide_sys \<Rightarrow> ide_sys option" where
  "setup_channel channel_no s =
     do { ch \<leftarrow> rd (chans s) channel_no;
          let ch = init_channel channel_no ch in
          do { cs \<leftarrow> wr (chans s) channel_no ch;
               hs \<leftarrow> register_handler (handlers s) (irq_no ch) Hd_handler;
               Some (s\<lparr>chans := cs, handlers := hs\<rparr>) } }"

fun ide_channels ::
    "(nat \<Rightarrow> bool) \<Rightarrow> (nat \<Rightarrow> nat \<Rightarrow> nat \<Rightarrow> u8) \<Rightarrow> (nat \<Rightarrow> nat \<Rightarrow> u8 list) \<Rightarrow> (nat \<Rightarrow> nat \<Rightarrow> disk) \<Rightarrow> u8 list \<Rightarrow> nat list \<Rightarrow> ide_sys \<Rightarrow> ide_sys option" where
  "ide_channels passes status ids disks stack [] s = Some s"
| "ide_channels passes status ids disks stack (channel_no # cs) s =
     do { s \<leftarrow> setup_channel channel_no s;
          s \<leftarrow> init_disk passes status ids disks stack channel_no 0 s;
          s \<leftarrow> init_disk passes status ids disks stack channel_no 1 s;
          ide_channels passes status ids disks stack cs s }"

definition ide_init ::
    "(nat \<Rightarrow> bool) \<Rightarrow> (nat \<Rightarrow> nat \<Rightarrow> nat \<Rightarrow> u8) \<Rightarrow> (nat \<Rightarrow> nat \<Rightarrow> u8 list) \<Rightarrow> (nat \<Rightarrow> nat \<Rightarrow> disk) \<Rightarrow> u8 list \<Rightarrow> nat \<Rightarrow> ide_sys \<Rightarrow> ide_sys option" where
  "ide_init passes status ids disks stack hd_cnt s =
     do { kassert (0 < hd_cnt);
          ide_channels passes status ids disks stack [0..<div_round_up hd_cnt 2]
            (s\<lparr>scan := (scan s)\<lparr>partition_list := []\<rparr>\<rparr>) }"

section \<open>Swapped strings\<close>

fun swapped :: "u8 list \<Rightarrow> u8 list" where
  "swapped (a # b # bs) = b # a # swapped bs"
| "swapped bs = bs"

lemma length_swapped [simp]: "length (swapped bs) = length bs"
  by (induction bs rule: swapped.induct) auto

lemma swapped_swapped: "swapped (swapped bs) = bs"
  by (induction bs rule: swapped.induct) auto

lemma swapped_replicate: "swapped (replicate n a) = replicate n a"
proof (induction n rule: less_induct)
  case (less n)
  then show ?case by (cases n; cases "n - 1") auto
qed

lemma swap_loop_swaps:
  assumes "length xs = 2 * n" "idx = length pre" "length pre + 2 * n < 256" "length buf = length pre + 2 * n + 1 + length rest"
    "take (length pre) buf = pre" "drop (length pre + 2 * n + 1) buf = rest"
  shows "swap_loop (xs @ ys) buf (length pre + 2 * n) idx = Some (pre @ swapped xs @ 0 # rest)"
  using assms
proof (induction n arbitrary: xs pre buf idx)
  case 0
  then have "buf = pre @ buf ! length pre # rest"
    using id_take_nth_drop [of "length pre" buf, symmetric, unfolded Suc_eq_plus1] by simp
  then have "buf[length pre := 0] = pre @ 0 # rest"
    by (metis list_update_length)
  with 0 show ?case by (subst swap_loop.simps) (simp add: wr_def)
next
  case (Suc n)
  then obtain a b xs' where xs: "xs = a # b # xs'" "length xs' = 2 * n"
    by (cases xs; cases "tl xs") auto
  let ?buf = "buf[length pre + 1 := a, length pre := b]"
  have "length (drop (length pre) buf) = 3 + 2 * n + length rest" using Suc.prems(4) by simp
  then obtain c d bs where "drop (length pre) buf = c # d # bs"
    by (metis (no_types, opaque_lifting) add_eq_0_iff_both_eq_0 length_0_conv length_Cons list.exhaust
        nat.inject numeral_3_eq_3 plus_nat.simps(2) Zero_not_Suc)
  with Suc.prems(5) have "buf = pre @ c # d # bs" by (metis append_take_drop_id)
  then have upd: "?buf = pre @ b # a # bs" by (simp add: list_update_append One_nat_def)
  then have "take (length pre + 2) ?buf = pre @ [b, a]" by simp
  moreover have "drop (length pre + 2 + 2 * n + 1) ?buf = rest"
    using Suc.prems by (simp add: drop_update_swap)
  ultimately have "swap_loop (xs' @ ys) ?buf (length (pre @ [b, a]) + 2 * n) (length pre + 2) =
      Some ((pre @ [b, a]) @ swapped xs' @ 0 # rest)"
    using Suc.prems xs by (intro Suc.IH) auto
  with Suc.prems show ?case
    by (subst swap_loop.simps) (simp add: xs wr_def rd_def w8_def algebra_simps)
qed

lemma swap_pairs_bytes_eq:
  assumes "even len" "len < 254" "len \<le> length src" "len < length buf"
  shows "swap_pairs_bytes src buf len = Some (swapped (take len src) @ 0 # drop (len + 1) buf)"
proof -
  from assms(1) obtain n where "len = 2 * n" by (elim evenE)
  with assms swap_loop_swaps [of "take len src" n 0 "[]" buf "drop (len + 1) buf" "drop len src"] show ?thesis
    by (simp add: swap_pairs_bytes_def)
qed

lemma c_string_stop [simp]: "c_string (xs @ 0 # ys) = c_string xs"
  by (induction xs) (simp_all add: c_string_def)

text \<open>
  Identifying a disk reads the serial number and the model, whose bytes the disk sends
  swapped in pairs, and the number of sectors.
\<close>

theorem identify_disk_unswaps:
  assumes "busy_wait status" "length id_info = 512" "length stack = 64"
    "take 20 (drop 20 id_info) = swapped sn" "take 40 (drop 54 id_info) = swapped md"
  shows "identify_disk status id_info stack =
    (let n = dec32 (drop 120 id_info) in Some (c_string sn, c_string md, n, w32 (n * 512) div 2 ^ 20))"
  using assms
  by (simp add: identify_disk_def swap_pairs_bytes_eq swapped_swapped kassert_def Let_def div_mult2_eq [symmetric])

section \<open>The set-up as a whole\<close>

definition channel_ready :: "nat \<Rightarrow> ide_sys \<Rightarrow> bool" where
  "channel_ready c s \<longleftrightarrow> c < length (chans s) \<and> irq_no (chans s ! c) = 0x2e + c \<and>
     port_base (chans s ! c) = (if c = 0 then 0x1f0 else 0x170) \<and>
     0x2e + c < length (handlers s) \<and> handlers s ! (0x2e + c) = Hd_handler"

lemma setup_channel_ready:
  assumes "setup_channel c s = Some s'" "c < 2"
  shows "channel_ready c s'" "slaves s' = slaves s" "scan s' = scan s" "length (chans s') = length (chans s)"
    "length (handlers s') = length (handlers s)" "b \<noteq> c \<Longrightarrow> channel_ready b s' = channel_ready b s"
proof -
  from assms(2) have "c = 0 \<or> c = 1" by linarith
  with assms(1) show "channel_ready c s'" "slaves s' = slaves s" "scan s' = scan s" "length (chans s') = length (chans s)"
    "length (handlers s') = length (handlers s)" "b \<noteq> c \<Longrightarrow> channel_ready b s' = channel_ready b s"
    by (auto simp: setup_channel_def channel_ready_def outcome_simps register_handler_def init_channel_def Let_def nth_list_update)
qed

text \<open>A request changes no port and no interrupt of a channel.\<close>

definition wiring :: "ide_channel list \<Rightarrow> (nat \<times> nat) list" where
  "wiring cs = map (\<lambda>ch. (port_base ch, irq_no ch)) cs"

lemma wr_wiring:
  assumes "wr cs i ch = Some cs'" "(port_base ch, irq_no ch) = (port_base (cs ! i), irq_no (cs ! i))"
  shows "wiring cs' = wiring cs"
proof -
  from assms(1) have "i < length cs" "cs' = cs[i := ch]" by (auto simp: wr_def split: if_splits)
  with assms(2) show ?thesis by (simp add: wiring_def map_update list_update_same_conv)
qed

lemma intr_hd_handler_wiring:
  assumes "intr_hd_handler cs irq = Some cs'"
  shows "wiring cs' = wiring cs"
proof -
  from assms obtain ch where ch: "rd cs (irq - 0x2e) = Some ch"
    "cs' = cs \<or> wr cs (irq - 0x2e) (ch\<lparr>expecting_intr := False, disk_done := disk_done ch + 1, status_reads := status_reads ch + 1\<rparr>) = Some cs'"
    by (auto simp: intr_hd_handler_def Let_def kassert_def split: bind_splits if_splits)
  then have "ch = cs ! (irq - 0x2e)" by (simp add: rd_def split: if_splits)
  with ch(2) wr_wiring show ?thesis by fastforce
qed

lemma ask_disk_wiring:
  assumes "ask_disk passes c cs = Some cs'"
  shows "wiring cs' = wiring cs"
proof -
  from assms obtain ch cs1 cs2 ch2 where st: "rd cs c = Some ch" "wr cs c (cmd_out ch) = Some cs1"
    "intr_hd_handler cs1 (irq_no ch) = Some cs2" "rd cs2 c = Some ch2" "wr cs2 c (ch2\<lparr>disk_done := disk_done ch2 - 1\<rparr>) = Some cs'"
    by (auto simp: ask_disk_def kassert_def split: bind_splits if_splits)
  have "ch = cs ! c" "ch2 = cs2 ! c" using st(1,4) by (simp_all add: rd_def split: if_splits)
  then have "wiring cs1 = wiring cs" "wiring cs' = wiring cs2"
    using wr_wiring [OF st(2)] wr_wiring [OF st(5)] by (simp_all add: cmd_out_def)
  with intr_hd_handler_wiring [OF st(3)] show ?thesis by simp
qed

lemma wiring_nth:
  assumes "wiring cs' = wiring cs"
  shows "length cs' = length cs" and "b < length cs \<Longrightarrow> irq_no (cs' ! b) = irq_no (cs ! b) \<and> port_base (cs' ! b) = port_base (cs ! b)"
proof -
  show "length cs' = length cs" using arg_cong [OF assms, of length] by (simp add: wiring_def)
  then show "b < length cs \<Longrightarrow> irq_no (cs' ! b) = irq_no (cs ! b) \<and> port_base (cs' ! b) = port_base (cs ! b)"
    using arg_cong [OF assms, of "\<lambda>w. w ! b"] by (simp add: wiring_def)
qed

text \<open>What a disk changes: the channels by one request, and the partitions found.\<close>

lemma init_disk_shape:
  assumes "init_disk passes status ids disks stack c d s = Some s'"
  shows "\<exists>cs. ask_disk passes c (chans s) = Some cs \<and> chans s' = cs \<and> handlers s' = handlers s \<and>
    length (slaves s') = length (slaves s) + (if d = 0 then 0 else 1)"
  using assms by (cases "d = 0") (auto simp: init_disk_def outcome_simps)

lemma init_disk_keeps:
  assumes "init_disk passes status ids disks stack c d s = Some s'"
  shows "channel_ready b s' = channel_ready b s"
    and "length (slaves s') = length (slaves s) + (if d = 0 then 0 else 1)"
proof -
  obtain cs where cs: "ask_disk passes c (chans s) = Some cs" "chans s' = cs" "handlers s' = handlers s"
    and len: "length (slaves s') = length (slaves s) + (if d = 0 then 0 else 1)"
    using init_disk_shape [OF assms] by blast
  note keeps = wiring_nth [OF ask_disk_wiring [OF cs(1)]]
  with cs show "channel_ready b s' = channel_ready b s" by (auto simp: channel_ready_def)
  show "length (slaves s') = length (slaves s) + (if d = 0 then 0 else 1)" by (rule len)
qed

lemma ide_channels_ready:
  assumes "ide_channels passes status ids disks stack cs s = Some s'" "\<forall>c\<in>set cs. c < 2"
  shows "(\<forall>c. channel_ready c s' \<longleftrightarrow> c \<in> set cs \<or> channel_ready c s) \<and> length (slaves s') = length (slaves s) + length cs"
  using assms
proof (induction cs arbitrary: s)
  case (Cons c cs)
  then obtain s1 s2 s3 where st: "setup_channel c s = Some s1" "init_disk passes status ids disks stack c 0 s1 = Some s2"
    "init_disk passes status ids disks stack c 1 s2 = Some s3" "ide_channels passes status ids disks stack cs s3 = Some s'"
    by (auto simp: outcome_simps)
  have "c < 2" using Cons.prems(2) by simp
  note one = setup_channel_ready [OF st(1) this]
  have ready: "channel_ready b s3 \<longleftrightarrow> b = c \<or> channel_ready b s" for b
    using one(1) one(6) [of b] init_disk_keeps(1) [OF st(2), of b] init_disk_keeps(1) [OF st(3), of b] by (cases "b = c") simp_all
  have "length (slaves s3) = length (slaves s) + 1"
    using one(2) init_disk_keeps(2) [OF st(2)] init_disk_keeps(2) [OF st(3)] by simp
  moreover have "(\<forall>c. channel_ready c s' \<longleftrightarrow> c \<in> set cs \<or> channel_ready c s3) \<and> length (slaves s') = length (slaves s3) + length cs"
    by (rule Cons.IH [OF st(4)]) (use Cons.prems(2) in simp)
  ultimately show ?case using ready by auto
qed simp

text \<open>
  Property C40. After the driver is initialised every channel the disks need has its ports and its interrupt, the disk
  handler is registered for that interrupt and accepts it, and the partitions of exactly one
  disk for each channel, the slave, were looked up.
\<close>

theorem ide_init_channels:
  assumes "ide_init passes status ids disks stack hd_cnt s = Some s'" "hd_cnt \<le> 4" "c < (hd_cnt + 1) div 2"
  shows "port_base (chans s' ! c) = (if c = 0 then 0x1f0 else 0x170) \<and> handlers s' ! (0x2e + c) = Hd_handler \<and>
    intr_hd_handler (chans s') (0x2e + c) \<noteq> None \<and> length (slaves s') = length (slaves s) + (hd_cnt + 1) div 2"
proof -
  let ?cs = "[0..<(hd_cnt + 1) div 2]"
  have rounds: "div_round_up hd_cnt 2 = (hd_cnt + 1) div 2" by (simp add: div_round_up_def)
  from assms(1) have run: "ide_channels passes status ids disks stack ?cs (s\<lparr>scan := (scan s)\<lparr>partition_list := []\<rparr>\<rparr>) = Some s'"
    by (auto simp: ide_init_def outcome_simps rounds)
  have "\<forall>c\<in>set ?cs. c < 2" using assms(2) by auto
  from ide_channels_ready [OF run this] have
    all: "\<forall>c. channel_ready c s' \<longleftrightarrow> c \<in> set ?cs \<or> channel_ready c (s\<lparr>scan := (scan s)\<lparr>partition_list := []\<rparr>\<rparr>)"
    and len: "length (slaves s') = length (slaves s) + (hd_cnt + 1) div 2" by simp_all
  from all assms(3) have ready: "channel_ready c s'" by simp
  have "c < 2" using assms by linarith
  with ready have "intr_hd_handler (chans s') (0x2e + c) \<noteq> None"
    by (auto simp: intr_hd_handler_def channel_ready_def rd_def wr_def kassert_def Let_def less_2_cases_iff)
  with ready len show ?thesis by (simp add: channel_ready_def)
qed

definition demo_ide :: ide_sys where
  "demo_ide = \<lparr>chans = replicate 2 \<lparr>port_base = 0, irq_no = 0, expecting_intr = False, disk_done = 0, status_reads = 0\<rparr>,
     handlers = fst exception_init, scan = demo_scan0, slaves = []\<rparr>"

lemma demo_disk_names: "disk_name 0 0 = Some ''sda''" "disk_name 0 1 = Some ''sdb''"
  by code_simp+

lemma demo_busy_wait: "busy_wait (\<lambda>k. 8)"
proof -
  have "fst (busy_wait_loop (\<lambda>k. 8) 30000 0)"
    by (subst busy_wait_loop_iff) (rule exI [of _ 0], simp)
  then show ?thesis by (simp add: busy_wait_def)
qed

theorem identify_disk_unswaps_witness:
  "\<exists>sn md n m. identify_disk (\<lambda>k. 8) (replicate 512 0x41) (replicate 64 0) = Some (sn, md, n, m) \<and> length sn = 20"
  using identify_disk_unswaps [OF demo_busy_wait, of "replicate 512 0x41" "replicate 64 0" "replicate 20 0x41" "replicate 40 0x41"]
  by (simp add: c_string_def Let_def swapped_replicate takeWhile_replicate)

lemma demo_identify: "identify_disk (\<lambda>k. 8) (replicate 512 0) (replicate 64 0) \<noteq> None"
  by (simp add: identify_disk_def swap_pairs_bytes_eq kassert_def demo_busy_wait Let_def)

lemma demo_ide_init:
  "ide_init (irq_passes pic_init) (\<lambda>c n k. 8) (\<lambda>c n. replicate 512 0) (\<lambda>c n. demo_mbr_disk) (replicate 64 0) 2 demo_ide \<noteq> None"
proof -
  obtain info where info: "identify_disk (\<lambda>k. 8) (replicate 512 0) (replicate 64 0) = Some info"
    using demo_identify by blast
  obtain sc where sc: "partition_scan ''sdb'' demo_mbr_disk 0 demo_scan0 = Some sc"
    using demo_mbr_scan by auto
  have scan0: "demo_scan0\<lparr>partition_list := [], p_no := 0, l_no := 0,
      prim_parts := replicate 4 no_part, logic_parts := replicate 8 no_part\<rparr> = demo_scan0"
    by (simp add: demo_scan0_def no_part_def Let_def)
  let ?s = "demo_ide\<lparr>scan := (scan demo_ide)\<lparr>partition_list := []\<rparr>\<rparr>"
  let ?ch = "\<lparr>port_base = 0x1f0, irq_no = 0x2e, expecting_intr = False, disk_done = 0, status_reads = 0\<rparr>"
  obtain c1 hs where set: "setup_channel 0 ?s = Some (?s\<lparr>chans := [?ch, c1], handlers := hs\<rparr>)"
    by (auto simp: setup_channel_def demo_ide_def exception_init_def IDT_DESC_CNT_def register_handler_def
        init_channel_def rd_def wr_def Let_def numeral_2_eq_2)
  have pass: "irq_passes pic_init 14" by (simp add: pic_init_lines)
  have ask: "ask_disk (irq_passes pic_init) 0 [?ch\<lparr>status_reads := n\<rparr>, c] = Some [?ch\<lparr>status_reads := n + 1\<rparr>, c]" for n c
    using pass by (simp add: ask_disk_def intr_hd_handler_def cmd_out_def rd_def wr_def kassert_def Let_def)
  have "ask_disk (irq_passes pic_init) 0 [?ch, c1] = Some [?ch\<lparr>status_reads := 1\<rparr>, c1]"
    using ask [of 0 c1] by simp
  moreover have "ask_disk (irq_passes pic_init) 0 [?ch\<lparr>status_reads := 1\<rparr>, c1] = Some [?ch\<lparr>status_reads := 2\<rparr>, c1]"
    using ask [of 1 c1] by simp
  ultimately show ?thesis
    using info sc scan0 set
    by (simp add: ide_init_def div_round_up_def kassert_def init_disk_def demo_disk_names demo_ide_def upt_rec)
qed

theorem ide_init_channels_witness:
  "\<exists>s'. ide_init (irq_passes pic_init) (\<lambda>c n k. 8) (\<lambda>c n. replicate 512 0) (\<lambda>c n. demo_mbr_disk) (replicate 64 0) 2 demo_ide = Some s' \<and>
     intr_hd_handler (chans s') 0x2e \<noteq> None \<and> length (slaves s') = 1"
proof -
  obtain s' where s': "ide_init (irq_passes pic_init) (\<lambda>c n k. 8) (\<lambda>c n. replicate 512 0) (\<lambda>c n. demo_mbr_disk) (replicate 64 0) 2 demo_ide = Some s'"
    using demo_ide_init by blast
  from ide_init_channels [OF s', of 0] s' show ?thesis by (simp add: demo_ide_def)
qed

section \<open>The second channel\<close>

text \<open>
  With the lines the kernel lets through, a third disk makes the initialisation wait for ever: the
  interrupt of the second channel is masked.
\<close>

theorem second_channel_hangs:
  assumes "hd_cnt \<in> {3, 4}"
  shows "ide_init (irq_passes pic_init) status ids disks stack hd_cnt s = None"
proof -
  have "\<not> irq_passes pic_init 15" by (simp add: pic_init_lines)
  then have no: "init_disk (irq_passes pic_init) status ids disks stack 1 d s' = None" if "irq_no (chans s' ! 1) = 0x2f" for s' d
    using that by (auto simp: init_disk_def ask_disk_def rd_def wr_def kassert_def cmd_out_def split: bind_split)
  have "ide_channels (irq_passes pic_init) status ids disks stack [1] s' = None" for s'
  proof (cases "setup_channel 1 s'")
    case (Some s1)
    then have "irq_no (chans s1 ! 1) = 0x2f" using setup_channel_ready(1) [OF Some] by (simp add: channel_ready_def)
    then show ?thesis using Some no by simp
  qed simp
  moreover have "[0..<div_round_up hd_cnt 2] = [0, 1]" using assms by (auto simp: div_round_up_def upt_rec)
  ultimately show ?thesis by (simp add: ide_init_def split: bind_split)
qed

theorem second_channel_hangs_witness:
  "ide_init (irq_passes pic_init) (\<lambda>c n k. 8) (\<lambda>c n. replicate 512 0) (\<lambda>c n. demo_mbr_disk) (replicate 64 0) 4 demo_ide = None"
  by (rule second_channel_hangs) simp

section \<open>A base that is kept\<close>

text \<open>
  The base of the extended partition is not reset: on a disk scanned after one that had an extended
  partition at sector \<open>b\<close>, an extended partition at sector \<open>e\<close> is looked up at \<open>b + e\<close>.
\<close>

theorem second_disk_extended_lost:
  assumes "ext_lba_base s = b" "b \<noteq> 0" "disk_read d 0 1 = Some mbr"
    "pt_fs_type (partition_entry mbr 0) = 5" "pt_start_lba (partition_entry mbr 0) = e"
    "max_lba < w32 (e + b)"
  shows "partition_scan dname d 0 s = None"
proof -
  have "disk_read d (w32 (e + b)) 1 = None"
    using assms(6) by (simp add: disk_read_def ide_ok_def)
  with assms show ?thesis
    by (simp add: partition_scan_def scan_entries.simps [of _ _ _ mbr 0] Let_def)
qed

theorem second_disk_extended_lost_witness:
  "partition_scan ''sdd'' (\<lambda>k. replicate 450 0 @ [5] @ replicate 3 0 @ enc32 100000 @ replicate 54 0) 0
     (demo_scan0\<lparr>ext_lba_base := 100000\<rparr>) = None"
  by (rule second_disk_extended_lost [OF refl _ _ _ refl, where mbr = "replicate 450 0 @ [5] @ replicate 3 0 @ enc32 100000 @ replicate 54 0"])
    (simp_all add: disk_read_def ide_ok_def upt_rec partition_entry_def Let_def nth_append max_lba_eq)

end
