(* ===== verification/Inode.thy ===== *)
theory Inode
  imports Bitmap Ide
begin

text \<open>
  \<open>src/src/fs/inode.c\<close>, and of \<open>src/src/fs/file.c\<close> the allocation in the two bitmaps and
  \<open>bitmap_sync\<close>. The record \<open>fs\<close> is the state of the mounted file system: the disk, the
  current partition (the kernel only ever passes \<open>cur_part\<close>) with its super block,
  bitmaps and list of open inodes, the inodes and directory handles on the kernel heap by
  address, the file table, and the descriptors and working directory of the running
  thread. \<open>open_inodes\<close> is the sequence of the kernel list (theory \<open>Klist\<close>).

  Allocation is a parameter: \<open>alloc_ok k\<close> says whether the \<open>k\<close>-th request succeeds, and a
  successful one returns an address not used before.
\<close>

record inode =
  i_no :: nat
  i_size :: nat
  i_open_cnts :: nat
  write_deny :: bool
  i_sectors :: "nat list"

record super_block =
  magic :: nat
  sb_sec_cnt :: nat
  inode_cnt :: nat
  part_lba_base :: nat
  block_bitmap_lba :: nat
  block_bitmap_sects :: nat
  inode_bitmap_lba :: nat
  inode_bitmap_sects :: nat
  inode_table_lba :: nat
  inode_table_sects :: nat
  data_start_lba :: nat
  root_inode_no :: nat
  dir_entry_size :: nat

datatype fops = Null_ops | Disk_ops | Tty_input_ops | Tty_output_ops | Pipe_reader_ops | Pipe_writer_ops

record kfile =
  fd_pos :: int
  fd_flag :: nat
  fd_inode :: nat
  count :: int
  op :: fops
  private_data :: nat

record dir =
  d_inode :: nat
  dir_pos :: nat

record fs =
  disk :: disk
  start_lba :: nat
  sec_cnt :: nat
  sb :: super_block
  block_bitmap :: bitmap
  inode_bitmap :: bitmap
  open_inodes :: "nat list"
  inodes :: "nat \<rightharpoonup> inode"
  dirs :: "nat \<rightharpoonup> dir"
  alloc_ok :: "nat \<Rightarrow> bool"
  allocs :: nat
  file_table :: "kfile list"
  fd_table :: "int list"
  cwd_inode_nr :: nat

text \<open>Address 0 is \<open>NULL\<close>, 1 the global \<open>root_dir\<close>, 2 the global \<open>dummy_inode\<close>.\<close>

definition kmalloc :: "fs \<Rightarrow> nat \<times> fs" where
  "kmalloc s = ((if alloc_ok s (allocs s) then allocs s + 3 else 0), s\<lparr>allocs := allocs s + 1\<rparr>)"

section \<open>The inode on disk\<close>

definition inode_size :: nat where
  "inode_size = 76"

text \<open>The memory image of \<open>struct inode\<close>; the two list pointers are last and are cleared.\<close>

definition enc_inode :: "inode \<Rightarrow> u8 list" where
  "enc_inode ino = enc32 (i_no ino) @ enc32 (i_size ino) @ enc32 (i_open_cnts ino)
     @ enc32 (of_bool (write_deny ino)) @ enc_words (i_sectors ino) @ replicate 8 0"

definition dec_inode :: "u8 list \<Rightarrow> inode" where
  "dec_inode bs = \<lparr>i_no = dec32 bs, i_size = dec32 (drop 4 bs), i_open_cnts = dec32 (drop 8 bs),
     write_deny = (dec32 (drop 12 bs) \<noteq> 0), i_sectors = dec_words 13 (drop 16 bs)\<rparr>"

record inode_position =
  two_sec :: bool
  sec_lba :: nat
  off_size :: nat

definition inode_locate :: "fs \<Rightarrow> nat \<Rightarrow> inode_position option" where
  "inode_locate s inode_no =
     do { kassert (inode_no < 4096);
          let off = inode_no * inode_size; off_sec = off div 512; off_in_sec = off mod 512;
              left_in_sec = 512 - off_in_sec in
          Some \<lparr>two_sec = (left_in_sec < inode_size),
                sec_lba = w32 (inode_table_lba (sb s) + off_sec),
                off_size = off_in_sec\<rparr> }"

text \<open>Read one or two sectors, replace the inode's bytes, write back.\<close>

definition update_inode_slot :: "fs \<Rightarrow> inode_position \<Rightarrow> u8 list \<Rightarrow> fs option" where
  "update_inode_slot s pos bs =
     (let n = (if two_sec pos then 2 else 1) in
      do { buf \<leftarrow> disk_read (disk s) (sec_lba pos) n;
           buf \<leftarrow> wr_block buf (off_size pos) bs;
           d \<leftarrow> disk_write (disk s) (sec_lba pos) buf n;
           Some (s\<lparr>disk := d\<rparr>) })"

definition pure_inode :: "inode \<Rightarrow> inode" where
  "pure_inode ino = ino\<lparr>i_open_cnts := 0, write_deny := False\<rparr>"

text \<open>\<open>uint8_t inode_no = inode->i_no\<close> keeps the low eight bits.\<close>

definition inode_sync :: "fs \<Rightarrow> inode \<Rightarrow> fs option" where
  "inode_sync s ino =
     do { pos \<leftarrow> inode_locate s (w8 (i_no ino));
          kassert (sec_lba pos \<le> start_lba s + sec_cnt s);
          update_inode_slot s pos (enc_inode (pure_inode ino)) }"

section \<open>Opening and closing\<close>

fun find_open :: "(nat \<rightharpoonup> inode) \<Rightarrow> nat list \<Rightarrow> nat \<Rightarrow> nat option" where
  "find_open m [] no = Some 0"
| "find_open m (a # as) no =
     do { ino \<leftarrow> m a; if i_no ino = no then Some a else find_open m as no }"

definition inode_open :: "fs \<Rightarrow> nat \<Rightarrow> (nat \<times> fs) option" where
  "inode_open s inode_no =
     do { a \<leftarrow> find_open (inodes s) (open_inodes s) inode_no;
          if a \<noteq> 0 then
            do { ino \<leftarrow> inodes s a;
                 Some (a, s\<lparr>inodes := (inodes s)(a \<mapsto> ino\<lparr>i_open_cnts := w32 (i_open_cnts ino + 1)\<rparr>)\<rparr>) }
          else
            do { pos \<leftarrow> inode_locate s inode_no;
                 let (a, s) = kmalloc s; (inode_buf, s) = kmalloc s in
                 do { kassert (inode_buf \<noteq> 0);
                      buf \<leftarrow> disk_read (disk s) (sec_lba pos) (if two_sec pos then 2 else 1);
                      bs \<leftarrow> rd_block buf (off_size pos) inode_size;
                      kassert (a \<noteq> 0);
                      Some (a, s\<lparr>open_inodes := a # open_inodes s,
                                 inodes := (inodes s)(a \<mapsto> (dec_inode bs)\<lparr>i_open_cnts := 1\<rparr>)\<rparr>) } } }"

definition inode_close :: "fs \<Rightarrow> nat \<Rightarrow> fs option" where
  "inode_close s a =
     do { ino \<leftarrow> inodes s a;
          let n = sub32 (i_open_cnts ino) 1 in
          if n = 0
          then Some (s\<lparr>open_inodes := remove1 a (open_inodes s), inodes := (inodes s)(a := None)\<rparr>)
          else Some (s\<lparr>inodes := (inodes s)(a \<mapsto> ino\<lparr>i_open_cnts := n\<rparr>)\<rparr>) }"

definition inode_delete :: "fs \<Rightarrow> nat \<Rightarrow> fs option" where
  "inode_delete s inode_no =
     do { kassert (inode_no < 4096);
          pos \<leftarrow> inode_locate s inode_no;
          kassert (sec_lba pos \<le> start_lba s + sec_cnt s);
          update_inode_slot s pos (replicate inode_size 0) }"

definition inode_init :: "nat \<Rightarrow> inode" where
  "inode_init inode_no = \<lparr>i_no = inode_no, i_size = 0, i_open_cnts = 0, write_deny = False,
     i_sectors = replicate 13 0\<rparr>"

section \<open>Allocation in the bitmaps\<close>

datatype bitmap_type = INODE_BITMAP | BLOCK_BITMAP

definition inode_bitmap_alloc :: "fs \<Rightarrow> (int \<times> fs) option" where
  "inode_bitmap_alloc s =
     do { bit_idx \<leftarrow> bitmap_scan (inode_bitmap s) 1;
          if bit_idx = - 1 then Some (- 1, s)
          else do { b \<leftarrow> bitmap_set (inode_bitmap s) (nat bit_idx) 1;
                    Some (bit_idx, s\<lparr>inode_bitmap := b\<rparr>) } }"

definition block_bitmap_alloc :: "fs \<Rightarrow> (int \<times> fs) option" where
  "block_bitmap_alloc s =
     do { bit_idx \<leftarrow> bitmap_scan (block_bitmap s) 1;
          if bit_idx = - 1 then Some (- 1, s)
          else do { b \<leftarrow> bitmap_set (block_bitmap s) (nat bit_idx) 1;
                    Some (int (data_start_lba (sb s)) + bit_idx, s\<lparr>block_bitmap := b\<rparr>) } }"

definition bitmap_sync :: "fs \<Rightarrow> nat \<Rightarrow> bitmap_type \<Rightarrow> fs option" where
  "bitmap_sync s bit_idx btmp_type =
     (let off_sec = bit_idx div 4096; off = off_sec * 512 in
      do { let (lba, bm) = (case btmp_type of
               INODE_BITMAP \<Rightarrow> (w32 (inode_bitmap_lba (sb s) + off_sec), inode_bitmap s)
             | BLOCK_BITMAP \<Rightarrow> (w32 (block_bitmap_lba (sb s) + off_sec), block_bitmap s)) in
           do { bs \<leftarrow> rd_block (bits bm) off 512;
                d \<leftarrow> disk_write (disk s) lba bs 1;
                Some (s\<lparr>disk := d\<rparr>) } })"

section \<open>Releasing an inode and its blocks\<close>

definition release_block :: "fs \<Rightarrow> nat \<Rightarrow> fs option" where
  "release_block s lba =
     (let idx = sub32 lba (data_start_lba (sb s)) in
      do { kassert (0 < idx);
           b \<leftarrow> bitmap_set (block_bitmap s) idx 0;
           bitmap_sync (s\<lparr>block_bitmap := b\<rparr>) idx BLOCK_BITMAP })"

fun release_blocks :: "fs \<Rightarrow> nat list \<Rightarrow> fs option" where
  "release_blocks s [] = Some s"
| "release_blocks s (b # bs) =
     (if b \<noteq> 0 then do { s \<leftarrow> release_block s b; release_blocks s bs } else release_blocks s bs)"

text \<open>
  The blocks of an inode, the direct ones and those of the indirect table; the block of
  the table itself is released on the way.
\<close>

definition collect_blocks :: "fs \<Rightarrow> inode \<Rightarrow> (nat list \<times> fs) option" where
  "collect_blocks s ino =
     do { table \<leftarrow> rd (i_sectors ino) 12;
          if table \<noteq> 0
          then do { bs \<leftarrow> disk_read (disk s) table 1;
                    s \<leftarrow> release_block s table;
                    Some (take 12 (i_sectors ino) @ dec_words 128 bs, s) }
          else Some (take 12 (i_sectors ino), s) }"

text \<open>Give back the inode number, clear the slot on disk, close.\<close>

definition release_slot :: "fs \<Rightarrow> nat \<Rightarrow> nat \<Rightarrow> fs option" where
  "release_slot s a inode_no =
     do { b \<leftarrow> bitmap_set (inode_bitmap s) inode_no 0;
          s \<leftarrow> bitmap_sync (s\<lparr>inode_bitmap := b\<rparr>) inode_no INODE_BITMAP;
          let (io_buf, s) = kmalloc s in
          do { kassert (io_buf \<noteq> 0);
               s \<leftarrow> inode_delete s inode_no;
               inode_close s a } }"

definition inode_release :: "fs \<Rightarrow> nat \<Rightarrow> fs option" where
  "inode_release s inode_no =
     do { (a, s) \<leftarrow> inode_open s inode_no;
          ino \<leftarrow> inodes s a;
          kassert (i_no ino = inode_no);
          (all_blocks, s) \<leftarrow> collect_blocks s ino;
          s \<leftarrow> release_blocks s all_blocks;
          release_slot s a inode_no }"

section \<open>Coding\<close>

definition inode_wf :: "inode \<Rightarrow> bool" where
  "inode_wf ino \<longleftrightarrow> i_no ino < 4294967296 \<and> i_size ino < 4294967296 \<and> i_open_cnts ino < 4294967296
     \<and> length (i_sectors ino) = 13 \<and> (\<forall>x \<in> set (i_sectors ino). x < 4294967296)"

lemma length_enc_inode [simp]: "inode_wf ino \<Longrightarrow> length (enc_inode ino) = 76"
  by (simp add: enc_inode_def inode_wf_def)

lemma pure_inode_wf [simp]: "inode_wf ino \<Longrightarrow> inode_wf (pure_inode ino)"
  by (simp add: inode_wf_def pure_inode_def)

lemma dec_enc_inode [simp, codec_simps]: "inode_wf ino \<Longrightarrow> dec_inode (enc_inode ino @ bs) = ino"
proof -
  assume wf: "inode_wf ino"
  then have "dec_words 13 (enc_words (i_sectors ino) @ replicate 8 0 @ bs) = i_sectors ino"
    using dec_words_enc_words [of "i_sectors ino" "replicate 8 0 @ bs"] by (simp add: inode_wf_def)
  moreover have "drop 16 (enc_inode ino @ bs) = enc_words (i_sectors ino) @ replicate 8 0 @ bs"
    by (simp add: enc_inode_def)
  ultimately show ?thesis using wf
    by (simp add: dec_inode_def) (simp add: enc_inode_def inode_wf_def)
qed

lemma dec_enc_inode' [simp, codec_simps]: "inode_wf ino \<Longrightarrow> dec_inode (enc_inode ino) = ino"
  using dec_enc_inode [of ino "[]"] by simp

lemma dec_inode_wf: "inode_wf (dec_inode bs)"
  using dec_words_less [of _ 13 "drop 16 bs"] by (auto simp: inode_wf_def dec_inode_def dec32_less)

section \<open>The inode table\<close>

text \<open>First byte of slot \<open>no\<close>, the bytes of the slot, and the inode they encode.\<close>

definition inode_base :: "fs \<Rightarrow> nat \<Rightarrow> nat" where
  "inode_base s no = 512 * inode_table_lba (sb s) + 76 * no"

definition inode_bytes :: "fs \<Rightarrow> nat \<Rightarrow> u8 list" where
  "inode_bytes s no = map (disk_byte (disk s)) [inode_base s no..<inode_base s no + 76]"

definition disk_inode :: "fs \<Rightarrow> nat \<Rightarrow> inode" where
  "disk_inode s no = dec_inode (inode_bytes s no)"

text \<open>The slot lies inside the partition and inside the disk.\<close>

definition slot_ok :: "fs \<Rightarrow> nat \<Rightarrow> bool" where
  "slot_ok s no \<longleftrightarrow> no < 4096 \<and> inode_table_lba (sb s) + 76 * no div 512 \<le> start_lba s + sec_cnt s
     \<and> inode_table_lba (sb s) + 76 * no div 512 \<le> max_lba"

lemma slot_ok_lba: "slot_ok s no \<Longrightarrow> inode_table_lba (sb s) + 76 * no div 512 < 4294967296"
  by (simp add: slot_ok_def max_lba_eq)

lemma inode_locate_eq:
  assumes "slot_ok s no"
  shows "inode_locate s no = Some \<lparr>two_sec = (512 < 76 * no mod 512 + 76),
     sec_lba = inode_table_lba (sb s) + 76 * no div 512, off_size = 76 * no mod 512\<rparr>"
proof -
  have "76 * no mod 512 < 512" by simp
  then show ?thesis using assms slot_ok_lba [OF assms]
    by (simp add: inode_locate_def inode_size_def slot_ok_def Let_def less_diff_conv mult.commute
        less_diff_conv2)
qed

lemma slot_base: "512 * (inode_table_lba (sb s) + 76 * no div 512) + 76 * no mod 512 = inode_base s no"
  using div_mult_mod_eq [of "76 * no" 512] by (simp add: inode_base_def)

text \<open>A read-modify-write of a slot changes the bytes of that slot and no others.\<close>

lemma update_inode_slot_spec:
  assumes "disk_ok (disk s)" and ok: "slot_ok s no" and "inode_locate s no = Some pos"
    and len: "length bs = 76"
  shows "\<exists>d. update_inode_slot s pos bs = Some (s\<lparr>disk := d\<rparr>) \<and> disk_ok d
    \<and> (\<forall>i. disk_byte d i = (if inode_base s no \<le> i \<and> i < inode_base s no + 76
          then bs ! (i - inode_base s no) else disk_byte (disk s) i))"
proof -
  let ?n = "if two_sec pos then 2 else 1 :: nat"
  from assms(3) inode_locate_eq [OF ok] have pos: "two_sec pos = (512 < 76 * no mod 512 + 76)"
    "sec_lba pos = inode_table_lba (sb s) + 76 * no div 512" "off_size pos = 76 * no mod 512" by auto
  have "ide_ok (sec_lba pos) ?n" using ok by (simp add: ide_ok_small pos slot_ok_def)
  moreover have "off_size pos + length bs \<le> 512 * ?n"
  proof -
    have "76 * no mod 512 < 512" by simp
    then have "76 * no mod 512 + 76 \<le> 1024" by linarith
    then show ?thesis using pos len by auto
  qed
  ultimately obtain buf buf' d where h: "disk_read (disk s) (sec_lba pos) ?n = Some buf"
    "wr_block buf (off_size pos) bs = Some buf'" "disk_write (disk s) (sec_lba pos) buf' ?n = Some d"
    "disk_ok d"
    "\<forall>i. disk_byte d i = (if 512 * sec_lba pos + off_size pos \<le> i
        \<and> i < 512 * sec_lba pos + off_size pos + length bs
       then bs ! (i - (512 * sec_lba pos + off_size pos)) else disk_byte (disk s) i)"
    using ide.modify_spec [OF assms(1)] by blast
  have "512 * sec_lba pos + off_size pos = inode_base s no" using slot_base by (simp add: pos)
  with h len show ?thesis by (auto simp: update_inode_slot_def Let_def)
qed

lemma map_nth_window: "length bs = n \<Longrightarrow> map (\<lambda>i. bs ! (i - b)) [b..<b + n] = bs"
  by (rule nth_equalityI) auto

lemma inode_sync_spec:
  assumes "disk_ok (disk s)" and "slot_ok s (w8 (i_no ino))" and "inode_wf ino"
  shows "\<exists>d. inode_sync s ino = Some (s\<lparr>disk := d\<rparr>) \<and> disk_ok d
    \<and> (\<forall>i. disk_byte d i = (if inode_base s (w8 (i_no ino)) \<le> i \<and> i < inode_base s (w8 (i_no ino)) + 76
          then enc_inode (pure_inode ino) ! (i - inode_base s (w8 (i_no ino))) else disk_byte (disk s) i))"
proof -
  let ?no = "w8 (i_no ino)"
  note loc = inode_locate_eq [OF assms(2)]
  have len: "length (enc_inode (pure_inode ino)) = 76" using assms(3) by simp
  from update_inode_slot_spec [OF assms(1,2) loc len] show ?thesis
    using assms(2) by (auto simp: inode_sync_def loc slot_ok_def)
qed

lemma inode_delete_spec:
  assumes "disk_ok (disk s)" and "slot_ok s no"
  shows "\<exists>d. inode_delete s no = Some (s\<lparr>disk := d\<rparr>) \<and> disk_ok d
    \<and> (\<forall>i. disk_byte d i = (if inode_base s no \<le> i \<and> i < inode_base s no + 76 then 0
          else disk_byte (disk s) i))"
proof -
  note loc = inode_locate_eq [OF assms(2)]
  from update_inode_slot_spec [OF assms loc, of "replicate 76 0"] obtain d where
    d: "update_inode_slot s \<lparr>two_sec = (512 < 76 * no mod 512 + 76),
      sec_lba = inode_table_lba (sb s) + 76 * no div 512, off_size = 76 * no mod 512\<rparr> (replicate 76 0)
      = Some (s\<lparr>disk := d\<rparr>)" "disk_ok d"
    "\<forall>i. disk_byte d i = (if inode_base s no \<le> i \<and> i < inode_base s no + 76
          then replicate 76 0 ! (i - inode_base s no) else disk_byte (disk s) i)" by auto
  have "\<forall>i. disk_byte d i = (if inode_base s no \<le> i \<and> i < inode_base s no + 76 then 0
          else disk_byte (disk s) i)" using d(3) by auto
  with d(1,2) show ?thesis using assms(2) by (auto simp: inode_delete_def loc slot_ok_def inode_size_def)
qed

text \<open>Slots do not overlap.\<close>

lemma slots_disjoint: "a \<noteq> b \<Longrightarrow> inode_base s a \<le> i \<Longrightarrow> i < inode_base s a + 76 \<Longrightarrow>
    \<not> (inode_base s b \<le> i \<and> i < inode_base s b + 76)"
  by (auto simp: inode_base_def)

lemma inode_base_update [simp]:
  "inode_base (s\<lparr>disk := d\<rparr>) no = inode_base s no"
  by (simp add: inode_base_def)

lemma disk_inode_frame:
  assumes "\<forall>i. inode_base s b \<le> i \<longrightarrow> i < inode_base s b + 76 \<longrightarrow> disk_byte d i = disk_byte (disk s) i"
  shows "disk_inode (s\<lparr>disk := d\<rparr>) b = disk_inode s b"
proof -
  have "inode_bytes (s\<lparr>disk := d\<rparr>) b = inode_bytes s b"
    unfolding inode_bytes_def inode_base_update by (rule map_cong) (use assms in auto)
  then show ?thesis by (simp add: disk_inode_def)
qed

lemma inode_sync_slots:
  assumes "disk_ok (disk s)" and "slot_ok s (w8 (i_no ino))" and "inode_wf ino"
  shows "\<exists>d. inode_sync s ino = Some (s\<lparr>disk := d\<rparr>) \<and> disk_ok d
    \<and> disk_inode (s\<lparr>disk := d\<rparr>) (w8 (i_no ino)) = pure_inode ino
    \<and> (\<forall>no. no \<noteq> w8 (i_no ino) \<longrightarrow> disk_inode (s\<lparr>disk := d\<rparr>) no = disk_inode s no)"
proof -
  let ?b = "inode_base s (w8 (i_no ino))"
  from inode_sync_spec [OF assms] obtain d where d: "inode_sync s ino = Some (s\<lparr>disk := d\<rparr>)" "disk_ok d"
    "\<forall>i. disk_byte d i = (if ?b \<le> i \<and> i < ?b + 76 then enc_inode (pure_inode ino) ! (i - ?b)
       else disk_byte (disk s) i)" by blast
  have "inode_bytes (s\<lparr>disk := d\<rparr>) (w8 (i_no ino)) = map (\<lambda>i. enc_inode (pure_inode ino) ! (i - ?b)) [?b..<?b + 76]"
    unfolding inode_bytes_def inode_base_update by (rule map_cong) (use d(3) in auto)
  also have "\<dots> = enc_inode (pure_inode ino)" by (rule map_nth_window) (use assms(3) in simp)
  finally have "disk_inode (s\<lparr>disk := d\<rparr>) (w8 (i_no ino)) = pure_inode ino"
    using assms(3) by (simp add: disk_inode_def)
  moreover have "disk_inode (s\<lparr>disk := d\<rparr>) no = disk_inode s no" if "no \<noteq> w8 (i_no ino)" for no
    by (rule disk_inode_frame) (use d(3) slots_disjoint [OF that] in auto)
  ultimately show ?thesis using d by blast
qed

section \<open>Opening an inode that is not cached\<close>

definition not_open :: "fs \<Rightarrow> nat \<Rightarrow> bool" where
  "not_open s no \<longleftrightarrow> find_open (inodes s) (open_inodes s) no = Some 0"

lemma inode_open_uncached:
  assumes "disk_ok (disk s)" and ok: "slot_ok s no" and "not_open s no"
    and mem: "alloc_ok s (allocs s)" "alloc_ok s (Suc (allocs s))"
  shows "inode_open s no = Some (allocs s + 3, s\<lparr>allocs := allocs s + 2,
     open_inodes := (allocs s + 3) # open_inodes s,
     inodes := (inodes s)(allocs s + 3 \<mapsto> (disk_inode s no)\<lparr>i_open_cnts := 1\<rparr>)\<rparr>)"
proof -
  let ?n = "if 512 < 76 * no mod 512 + 76 then 2 else 1 :: nat"
  let ?lba = "inode_table_lba (sb s) + 76 * no div 512"
  have v: "ide_ok ?lba ?n" using ok by (simp add: ide_ok_small slot_ok_def)
  have "76 * no mod 512 < 512" by simp
  then have fit: "76 * no mod 512 + 76 \<le> 512 * ?n" by auto
  have rd: "disk_read (disk s) ?lba ?n = Some (map (disk_byte (disk s)) [512 * ?lba..<512 * (?lba + ?n)])"
    using v ide.read_spec [OF assms(1)] by simp
  have "take 76 (drop (76 * no mod 512) (map (disk_byte (disk s)) [512 * ?lba..<512 * (?lba + ?n)]))
      = inode_bytes s no"
    using fit slot_base [of s no]
    by (simp add: drop_map take_map inode_bytes_def take_upt add.assoc [symmetric])
  with fit have blk: "rd_block (map (disk_byte (disk s)) [512 * ?lba..<512 * (?lba + ?n)])
      (76 * no mod 512) 76 = Some (inode_bytes s no)"
    by (simp add: rd_block_def)
  show ?thesis
    using assms(3) mem rd blk
    by (simp add: inode_open_def not_open_def inode_locate_eq [OF ok] kmalloc_def Let_def
        inode_size_def disk_inode_def One_nat_def)
qed


section \<open>The layout of a partition\<close>

text \<open>
  Super block, bitmaps, inode table and data area follow one another inside the disk, and
  the bitmaps in memory fill their sectors. \<open>partition_format\<close> sets this up and every
  operation keeps it.
\<close>

definition fs_wf :: "fs \<Rightarrow> bool" where
  "fs_wf s \<longleftrightarrow> disk_ok (disk s)
     \<and> btmp_bytes_len (block_bitmap s) = 512 * block_bitmap_sects (sb s)
     \<and> length (bits (block_bitmap s)) = 512 * block_bitmap_sects (sb s)
     \<and> btmp_bytes_len (inode_bitmap s) = 512 \<and> length (bits (inode_bitmap s)) = 512
     \<and> block_bitmap_lba (sb s) + block_bitmap_sects (sb s) \<le> inode_bitmap_lba (sb s)
     \<and> inode_bitmap_lba (sb s) < inode_table_lba (sb s)
     \<and> inode_table_lba (sb s) + 608 \<le> data_start_lba (sb s)
     \<and> data_start_lba (sb s) \<le> max_lba \<and> data_start_lba (sb s) \<le> start_lba s + sec_cnt s
     \<and> block_bitmap_sects (sb s) \<le> max_lba
     \<and> dir_entry_size (sb s) = 24"

lemma fs_wf_disk [simp]: "fs_wf s \<Longrightarrow> fs_wf (s\<lparr>disk := d\<rparr>) = disk_ok d"
  by (simp add: fs_wf_def)

lemma fs_wf_mem [simp]:
  "fs_wf (s\<lparr>inodes := m\<rparr>) = fs_wf s" "fs_wf (s\<lparr>open_inodes := os\<rparr>) = fs_wf s"
  "fs_wf (s\<lparr>allocs := n\<rparr>) = fs_wf s" "fs_wf (s\<lparr>dirs := ds\<rparr>) = fs_wf s"
  "fs_wf (s\<lparr>file_table := ft\<rparr>) = fs_wf s" "fs_wf (s\<lparr>fd_table := fd\<rparr>) = fs_wf s"
  "fs_wf (s\<lparr>cwd_inode_nr := c\<rparr>) = fs_wf s"
  by (simp_all add: fs_wf_def)

lemma fs_wf_bitmap:
  "fs_wf s \<Longrightarrow> bitmap_set (block_bitmap s) i v = Some b \<Longrightarrow> fs_wf (s\<lparr>block_bitmap := b\<rparr>)"
  "fs_wf s \<Longrightarrow> bitmap_set (inode_bitmap s) i v = Some b \<Longrightarrow> fs_wf (s\<lparr>inode_bitmap := b\<rparr>)"
  by (auto simp: fs_wf_def dest: bitmap_set_length)

lemma fs_wfD:
  "fs_wf s \<Longrightarrow> disk_ok (disk s)" "fs_wf s \<Longrightarrow> dir_entry_size (sb s) = 24"
  "fs_wf s \<Longrightarrow> bitmap_wf (block_bitmap s)" "fs_wf s \<Longrightarrow> bitmap_wf (inode_bitmap s)"
  "fs_wf s \<Longrightarrow> nbits (inode_bitmap s) = 4096"
  by (simp_all add: fs_wf_def bitmap_wf_def)

lemma fs_wf_slot: "fs_wf s \<Longrightarrow> no < 4096 \<Longrightarrow> slot_ok s no"
proof -
  assume "fs_wf s" "no < 4096"
  moreover from this have "76 * no div 512 \<le> 607" by linarith
  ultimately show ?thesis by (simp add: fs_wf_def slot_ok_def)
qed

text \<open>Synchronising an inode changes its slot and nothing else.\<close>

lemma inode_sync_data:
  assumes wf: "fs_wf s" and ino: "inode_wf ino"
  shows "\<exists>d. inode_sync s ino = Some (s\<lparr>disk := d\<rparr>) \<and> disk_ok d
    \<and> (\<forall>x. x < inode_table_lba (sb s) \<or> data_start_lba (sb s) \<le> x \<longrightarrow> d x = disk s x)
    \<and> disk_inode (s\<lparr>disk := d\<rparr>) (w8 (i_no ino)) = pure_inode ino
    \<and> (\<forall>no. no \<noteq> w8 (i_no ino) \<longrightarrow> inode_bytes (s\<lparr>disk := d\<rparr>) no = inode_bytes s no)"
proof -
  let ?no = "w8 (i_no ino)"
  have no: "?no < 256" by (simp add: w8_def)
  then have "?no < 4096" by simp
  note slot = fs_wf_slot [OF wf this]
  from inode_sync_spec [OF fs_wfD(1) [OF wf] slot ino] obtain d where
    d: "inode_sync s ino = Some (s\<lparr>disk := d\<rparr>)" "disk_ok d"
    "\<forall>i. disk_byte d i = (if inode_base s ?no \<le> i \<and> i < inode_base s ?no + 76
       then enc_inode (pure_inode ino) ! (i - inode_base s ?no) else disk_byte (disk s) i)" by blast
  have "d x = disk s x" if x: "x < inode_table_lba (sb s) \<or> data_start_lba (sb s) \<le> x" for x
  proof (rule nth_equalityI)
    show len: "length (d x) = length (disk s x)" using d(2) fs_wfD(1) [OF wf] by (simp add: disk_ok_def)
    have "76 * ?no + 76 \<le> 512 * 608" using no by simp
    moreover have "inode_table_lba (sb s) + 608 \<le> data_start_lba (sb s)" using wf by (simp add: fs_wf_def)
    ultimately have nb: "512 * x + 512 \<le> inode_base s ?no \<or> inode_base s ?no + 76 \<le> 512 * x"
      using x by (auto simp: inode_base_def)
    fix i assume "i < length (d x)"
    then have "i < 512" using d(2) by (simp add: disk_ok_def)
    with d(3) [rule_format, of "512 * x + i"] nb show "d x ! i = disk s x ! i" by (auto simp: disk_byte_def)
  qed
  moreover have "disk_inode (s\<lparr>disk := d\<rparr>) ?no = pure_inode ino"
    using inode_sync_slots [OF fs_wfD(1) [OF wf] slot ino] d(1) by (auto dest!: arg_cong [of _ _ disk])
  moreover have "inode_bytes (s\<lparr>disk := d\<rparr>) no = inode_bytes s no" if "no \<noteq> ?no" for no
    unfolding inode_bytes_def inode_base_update using d(3) slots_disjoint [OF that, of s] by auto
  ultimately show ?thesis using d(1,2) by blast
qed

text \<open>The blocks a bit of the block bitmap stands for; bit 0 is the root directory's.\<close>

definition data_blk :: "fs \<Rightarrow> nat \<Rightarrow> bool" where
  "data_blk s b \<longleftrightarrow> data_start_lba (sb s) < b \<and> b < data_start_lba (sb s) + nbits (block_bitmap s)
     \<and> b \<le> max_lba"

lemma fs_wf_nbits: "fs_wf s \<Longrightarrow> nbits (block_bitmap s) < 4294967296 - max_lba"
  by (simp add: fs_wf_def max_lba_eq)

lemma sub32_data: "fs_wf s \<Longrightarrow> data_blk s b \<Longrightarrow> sub32 b (data_start_lba (sb s)) = b - data_start_lba (sb s)"
  by (rule sub32_le) (auto simp: data_blk_def max_lba_eq)

lemma sector_write:
  assumes "ide_ok lba 1" and "length bs = 512"
  shows "disk_write d lba bs 1 = Some (d(lba := bs))"
proof -
  have "(\<lambda>x. if lba \<le> x \<and> x < lba + 1 then take 512 (drop (512 * (x - lba)) bs) else d x) = d(lba := bs)"
    using assms(2) by (auto simp: less_add_1)
  with assms show ?thesis by (simp add: disk_write_def)
qed

lemma sector_read:
  assumes "ide_ok lba 1"
  shows "disk_read d lba 1 = Some (d lba)"
proof -
  have "[lba..<lba + 1] = [lba]" by (simp add: One_nat_def)
  with assms show ?thesis by (simp add: disk_read_def)
qed

text \<open>The sector of the disk that holds bit \<open>idx\<close> of a bitmap, and its contents in memory.\<close>

definition bitmap_lba :: "fs \<Rightarrow> bitmap_type \<Rightarrow> nat \<Rightarrow> nat" where
  "bitmap_lba s bt idx = (case bt of INODE_BITMAP \<Rightarrow> inode_bitmap_lba (sb s)
     | BLOCK_BITMAP \<Rightarrow> block_bitmap_lba (sb s)) + idx div 4096"

definition bitmap_of :: "fs \<Rightarrow> bitmap_type \<Rightarrow> bitmap" where
  "bitmap_of s bt = (case bt of INODE_BITMAP \<Rightarrow> inode_bitmap s | BLOCK_BITMAP \<Rightarrow> block_bitmap s)"

definition bitmap_sector :: "fs \<Rightarrow> bitmap_type \<Rightarrow> nat \<Rightarrow> u8 list" where
  "bitmap_sector s bt idx = take 512 (drop (512 * (idx div 4096)) (bits (bitmap_of s bt)))"

lemma bitmap_sync_spec:
  assumes wf: "fs_wf s" and idx: "idx < nbits (bitmap_of s bt)"
  shows "bitmap_sync s idx bt = Some (s\<lparr>disk := (disk s)(bitmap_lba s bt idx := bitmap_sector s bt idx)\<rparr>)
    \<and> disk_ok ((disk s)(bitmap_lba s bt idx := bitmap_sector s bt idx))
    \<and> bitmap_lba s bt idx < inode_table_lba (sb s)"
proof -
  have len: "length (bits (bitmap_of s bt)) = btmp_bytes_len (bitmap_of s bt)"
    "512 dvd btmp_bytes_len (bitmap_of s bt)"
    using wf by (auto simp: fs_wf_def bitmap_of_def split: bitmap_type.splits)
  from len(2) obtain k where k: "btmp_bytes_len (bitmap_of s bt) = 512 * k" by auto
  have "idx div 4096 < k" using idx k by (simp add: div_less_iff_less_mult mult.commute)
  then have fit: "512 * (idx div 4096) + 512 \<le> length (bits (bitmap_of s bt))" using len(1) k by simp
  have lba: "bitmap_lba s bt idx < inode_table_lba (sb s)"
  proof (cases bt)
    case INODE_BITMAP
    have "idx div 4096 = 0" using idx fs_wfD(5) [OF wf] INODE_BITMAP by (simp add: bitmap_of_def)
    with wf show ?thesis by (simp add: INODE_BITMAP bitmap_lba_def fs_wf_def)
  next
    case BLOCK_BITMAP
    have "k = block_bitmap_sects (sb s)" using k wf BLOCK_BITMAP by (simp add: bitmap_of_def fs_wf_def)
    with \<open>idx div 4096 < k\<close> wf show ?thesis by (simp add: BLOCK_BITMAP bitmap_lba_def fs_wf_def)
  qed
  then have max: "bitmap_lba s bt idx \<le> max_lba" using wf by (simp add: fs_wf_def)
  have sec: "length (bitmap_sector s bt idx) = 512" using fit by (simp add: bitmap_sector_def bitmap_of_def)
  have "bitmap_lba s bt idx < 4294967296" using max by (simp add: max_lba_eq)
  then have "bitmap_sync s idx bt = do { bs \<leftarrow> rd_block (bits (bitmap_of s bt)) (idx div 4096 * 512) 512;
      d \<leftarrow> disk_write (disk s) (bitmap_lba s bt idx) bs 1; Some (s\<lparr>disk := d\<rparr>) }"
    by (cases bt) (simp_all add: bitmap_sync_def Let_def bitmap_lba_def bitmap_of_def)
  also have "rd_block (bits (bitmap_of s bt)) (idx div 4096 * 512) 512 = Some (bitmap_sector s bt idx)"
    using fit by (simp add: rd_block_def bitmap_sector_def mult.commute)
  finally show ?thesis
    using sector_write [OF _ sec] max lba sec fs_wfD(1) [OF wf]
    by (simp add: ide_ok_small disk_ok_def)
qed

text \<open>The disk holds what is in memory, in every sector of a bitmap.\<close>

definition bitmap_on_disk :: "fs \<Rightarrow> bitmap_type \<Rightarrow> bool" where
  "bitmap_on_disk s bt \<longleftrightarrow> (\<forall>idx < nbits (bitmap_of s bt). disk s (bitmap_lba s bt idx) = bitmap_sector s bt idx)"

lemma bitmap_lba_bounds:
  assumes wf: "fs_wf s" and idx: "idx < nbits (bitmap_of s bt)"
  shows "bt = BLOCK_BITMAP \<Longrightarrow> block_bitmap_lba (sb s) \<le> bitmap_lba s bt idx \<and> bitmap_lba s bt idx < inode_bitmap_lba (sb s)"
    and "bt = INODE_BITMAP \<Longrightarrow> bitmap_lba s bt idx = inode_bitmap_lba (sb s)"
proof -
  have "idx div 4096 = 0" if "bt = INODE_BITMAP" using idx fs_wfD(5) [OF wf] that by (simp add: bitmap_of_def)
  then show "bt = INODE_BITMAP \<Longrightarrow> bitmap_lba s bt idx = inode_bitmap_lba (sb s)" by (simp add: bitmap_lba_def)
  show "block_bitmap_lba (sb s) \<le> bitmap_lba s bt idx \<and> bitmap_lba s bt idx < inode_bitmap_lba (sb s)" if "bt = BLOCK_BITMAP"
  proof -
    have "idx < 4096 * block_bitmap_sects (sb s)" using idx wf that by (simp add: bitmap_of_def fs_wf_def)
    then have "idx div 4096 < block_bitmap_sects (sb s)" by (simp add: div_less_iff_less_mult mult.commute)
    then show ?thesis using wf that by (simp add: bitmap_lba_def fs_wf_def)
  qed
qed

lemma bitmap_set_sector:
  assumes "bitmap_set b i v = Some b'" "k \<noteq> i div 4096"
  shows "take 512 (drop (512 * k) (bits b')) = take 512 (drop (512 * k) (bits b))"
proof -
  from assms(1) obtain x where b': "bits b' = (bits b)[i div 8 := x]"
    by (auto simp: bitmap_set_def Let_def outcome_simps)
  have "i div 8 div 512 = i div 4096" by (simp add: div_mult2_eq [symmetric])
  then have "i div 8 < 512 * k \<or> 512 * k + 512 \<le> i div 8" using assms(2) by linarith
  then show ?thesis unfolding b' by (auto intro!: nth_equalityI)
qed

lemma bitmap_lba_sb:
  "sb s' = sb s \<Longrightarrow> bitmap_lba s' bt k = bitmap_lba s bt k"
  "k div 4096 = i div 4096 \<Longrightarrow> bitmap_lba s bt k = bitmap_lba s bt i"
  by (simp_all add: bitmap_lba_def split: bitmap_type.splits)

text \<open>Changing one bit and writing its sector keeps the disk up to date.\<close>

lemma bitmap_on_disk_sync:
  assumes wf: "fs_wf s" and on: "bitmap_on_disk s bt" and set: "bitmap_set (bitmap_of s bt) i v = Some b"
    and i: "i < nbits (bitmap_of s bt)"
    and s': "sb s' = sb s" "bitmap_of s' bt = b" "disk s' = (disk s)(bitmap_lba s bt i := bitmap_sector s' bt i)"
  shows "bitmap_on_disk s' bt"
proof -
  have "disk s' (bitmap_lba s' bt k) = bitmap_sector s' bt k" if k: "k < nbits (bitmap_of s' bt)" for k
  proof (cases "k div 4096 = i div 4096")
    case True
    then have "bitmap_lba s' bt k = bitmap_lba s bt i" "bitmap_sector s' bt k = bitmap_sector s' bt i"
      using bitmap_lba_sb(1) [OF s'(1)] bitmap_lba_sb(2) [OF True, of s] by (simp_all add: bitmap_sector_def)
    then show ?thesis by (simp add: s'(3))
  next
    case False
    then have "bitmap_lba s' bt k \<noteq> bitmap_lba s bt i" "bitmap_lba s' bt k = bitmap_lba s bt k"
      using bitmap_lba_sb(1) [OF s'(1)] False by (simp_all add: bitmap_lba_def)
    moreover have "bitmap_sector s' bt k = bitmap_sector s bt k"
      using bitmap_set_sector [OF set False] s'(2) by (simp add: bitmap_sector_def)
    moreover have "k < nbits (bitmap_of s bt)" using k s'(2) bitmap_set_length [OF set] by simp
    ultimately show ?thesis using on by (simp add: s'(3) bitmap_on_disk_def)
  qed
  then show ?thesis by (simp add: bitmap_on_disk_def)
qed

lemma bitmap_on_disk_frame:
  assumes "bitmap_on_disk s bt" "sb s' = sb s" "bitmap_of s' bt = bitmap_of s bt"
    "\<And>k. k < nbits (bitmap_of s bt) \<Longrightarrow> disk s' (bitmap_lba s bt k) = disk s (bitmap_lba s bt k)"
  shows "bitmap_on_disk s' bt"
  using assms bitmap_lba_sb(1) [OF assms(2)] by (simp add: bitmap_on_disk_def bitmap_sector_def)

section \<open>Releasing blocks\<close>

text \<open>
  \<open>frees s B s'\<close>: only the block bitmap changed, in memory and in its sectors, and the bits of the
  blocks \<open>B\<close> are clear; if the disk held the bitmap before, it does afterwards.
\<close>

definition frees :: "fs \<Rightarrow> nat set \<Rightarrow> fs \<Rightarrow> bool" where
  "frees s B s' \<longleftrightarrow> (\<exists>bm d. s' = s\<lparr>block_bitmap := bm, disk := d\<rparr>
     \<and> used_bits bm = used_bits (block_bitmap s) - (\<lambda>b. b - data_start_lba (sb s)) ` B
     \<and> btmp_bytes_len bm = btmp_bytes_len (block_bitmap s)
     \<and> (\<forall>x. inode_table_lba (sb s) \<le> x \<longrightarrow> d x = disk s x)
     \<and> (\<forall>x. x < block_bitmap_lba (sb s) \<or> inode_bitmap_lba (sb s) \<le> x \<longrightarrow> d x = disk s x)) \<and> fs_wf s'
     \<and> (bitmap_on_disk s BLOCK_BITMAP \<longrightarrow> bitmap_on_disk s' BLOCK_BITMAP)"

lemma frees_refl: "fs_wf s \<Longrightarrow> frees s {} s"
  by (auto simp: frees_def intro!: exI [of _ "block_bitmap s"] exI [of _ "disk s"])

lemma frees_trans:
  assumes "frees s A s1" and "frees s1 B s2"
  shows "frees s (A \<union> B) s2"
proof -
  from assms(1) obtain bm d where 1: "s1 = s\<lparr>block_bitmap := bm, disk := d\<rparr>"
    "used_bits bm = used_bits (block_bitmap s) - (\<lambda>b. b - data_start_lba (sb s)) ` A"
    "btmp_bytes_len bm = btmp_bytes_len (block_bitmap s)"
    "\<forall>x. inode_table_lba (sb s) \<le> x \<longrightarrow> d x = disk s x"
    "\<forall>x. x < block_bitmap_lba (sb s) \<or> inode_bitmap_lba (sb s) \<le> x \<longrightarrow> d x = disk s x" by (auto simp: frees_def)
  from assms(2) obtain bm' d' where 2: "s2 = s1\<lparr>block_bitmap := bm', disk := d'\<rparr>"
    "used_bits bm' = used_bits (block_bitmap s1) - (\<lambda>b. b - data_start_lba (sb s1)) ` B"
    "btmp_bytes_len bm' = btmp_bytes_len (block_bitmap s1)"
    "\<forall>x. inode_table_lba (sb s1) \<le> x \<longrightarrow> d' x = disk s1 x" "fs_wf s2"
    "\<forall>x. x < block_bitmap_lba (sb s1) \<or> inode_bitmap_lba (sb s1) \<le> x \<longrightarrow> d' x = disk s1 x" by (auto simp: frees_def)
  have on: "bitmap_on_disk s BLOCK_BITMAP \<longrightarrow> bitmap_on_disk s2 BLOCK_BITMAP" using assms by (auto simp: frees_def)
  show ?thesis unfolding frees_def
    by (rule conjI, rule exI [of _ bm'], rule exI [of _ d']) (use 1 2 on in auto)
qed

lemma frees_data_blk: "frees s A s' \<Longrightarrow> data_blk s' b = data_blk s b"
  by (auto simp: frees_def data_blk_def)

lemma release_block_spec:
  assumes "fs_wf s" and "data_blk s b"
  shows "\<exists>s'. release_block s b = Some s' \<and> frees s {b} s'"
proof -
  let ?i = "b - data_start_lba (sb s)"
  have i: "0 < ?i" "?i < nbits (block_bitmap s)" using assms(2) by (auto simp: data_blk_def)
  with byte_index [OF fs_wfD(3) [OF assms(1)]] bitmap_set_Some [of ?i "block_bitmap s" 0] obtain bm where
    bm: "bitmap_set (block_bitmap s) ?i 0 = Some bm" by auto
  note wf = fs_wf_bitmap(1) [OF assms(1) bm]
  let ?s = "s\<lparr>block_bitmap := bm\<rparr>"
  have "?i < nbits (bitmap_of ?s BLOCK_BITMAP)"
    using i bitmap_set_length [OF bm] by (simp add: bitmap_of_def)
  note sy = bitmap_sync_spec [OF wf this]
  let ?d = "(disk ?s)(bitmap_lba ?s BLOCK_BITMAP ?i := bitmap_sector ?s BLOCK_BITMAP ?i)"
  have "release_block s b = Some (?s\<lparr>disk := ?d\<rparr>)"
    using sy bm i(1) by (simp add: release_block_def sub32_data [OF assms] Let_def)
  moreover have "bitmap_on_disk (?s\<lparr>disk := ?d\<rparr>) BLOCK_BITMAP" if "bitmap_on_disk s BLOCK_BITMAP"
    by (rule bitmap_on_disk_sync [OF assms(1) that, of ?i 0 bm])
      (use bm i(2) in \<open>simp_all add: bitmap_of_def bitmap_lba_def bitmap_sector_def\<close>)
  moreover have "block_bitmap_lba (sb s) \<le> bitmap_lba ?s BLOCK_BITMAP ?i" "bitmap_lba ?s BLOCK_BITMAP ?i < inode_bitmap_lba (sb s)"
    using bitmap_lba_bounds(1) [OF wf, of ?i BLOCK_BITMAP] i(2) bitmap_set_length [OF bm] by (simp_all add: bitmap_of_def)
  ultimately have "frees s {b} (?s\<lparr>disk := ?d\<rparr>)"
    unfolding frees_def
    by (intro conjI exI [of _ bm] exI [of _ ?d])
      (use sy wf bitmap_set_length [OF bm] used_bits_bitmap_set [OF bm] in auto)
  moreover have "release_block s b = Some (?s\<lparr>disk := ?d\<rparr>)" by fact
  ultimately show ?thesis by blast
qed

lemma release_blocks_spec:
  "fs_wf s \<Longrightarrow> (\<forall>b \<in> set bs. b \<noteq> 0 \<longrightarrow> data_blk s b) \<Longrightarrow>
     \<exists>s'. release_blocks s bs = Some s' \<and> frees s (set bs - {0}) s'"
proof (induction bs arbitrary: s)
  case Nil
  then show ?case by (simp add: frees_refl)
next
  case (Cons b bs)
  show ?case
  proof (cases "b = 0")
    case True
    with Cons show ?thesis by simp
  next
    case False
    with Cons.prems release_block_spec [of s b] obtain s1 where
      s1: "release_block s b = Some s1" "frees s {b} s1" by auto
    have "fs_wf s1" "\<forall>b \<in> set bs. b \<noteq> 0 \<longrightarrow> data_blk s1 b"
      using s1(2) Cons.prems(2) frees_data_blk [OF s1(2)] by (auto simp: frees_def)
    with Cons.IH obtain s2 where s2: "release_blocks s1 bs = Some s2" "frees s1 (set bs - {0}) s2"
      by blast
    have "{b} \<union> (set bs - {0}) = set (b # bs) - {0}" using False by auto
    with s1 s2 False frees_trans [OF s1(2) s2(2)] show ?thesis by auto
  qed
qed

section \<open>Releasing an inode\<close>

text \<open>All non-zero blocks of an inode: direct, indirect table, and what the table lists.\<close>

definition inode_blocks :: "fs \<Rightarrow> inode \<Rightarrow> nat set" where
  "inode_blocks s ino = (set (i_sectors ino)
     \<union> (if i_sectors ino ! 12 = 0 then {} else set (dec_words 128 (disk s (i_sectors ino ! 12))))) - {0}"

lemma set_thirteen: "length xs = 13 \<Longrightarrow> set xs = set (take 12 xs) \<union> {xs ! 12}"
proof -
  assume "length xs = 13"
  then have "xs = take 12 xs @ [xs ! 12]"
    by (metis Suc_numeral append_take_drop_id drop_all id_take_nth_drop le_refl lessI take_all
        semiring_norm(5) semiring_norm(8) take_Suc_conv_app_nth)
  then show ?thesis by (metis list.set(1) list.simps(15) set_append)
qed

definition heap_wf :: "fs \<Rightarrow> bool" where
  "heap_wf s \<longleftrightarrow> (\<forall>a \<ge> allocs s + 3. inodes s a = None) \<and> (\<forall>a \<in> set (open_inodes s). a < allocs s + 3)
     \<and> (\<forall>k. alloc_ok s k)"

lemma release_slot_spec:
  assumes wf: "fs_wf s" and no: "no < 4096" and a: "inodes s a = Some ino" "i_open_cnts ino = 1"
    and ok: "alloc_ok s (allocs s)"
  shows "\<exists>s' b d. release_slot s a no = Some s'
     \<and> s' = s\<lparr>inode_bitmap := b, allocs := allocs s + 1, disk := d,
         open_inodes := remove1 a (open_inodes s), inodes := (inodes s)(a := None)\<rparr>
     \<and> fs_wf s' \<and> used_bits b = used_bits (inode_bitmap s) - {no}
     \<and> (\<forall>x. x < inode_bitmap_lba (sb s) \<or> data_start_lba (sb s) \<le> x \<longrightarrow> d x = disk s x)
     \<and> (bitmap_on_disk s INODE_BITMAP \<longrightarrow> bitmap_on_disk s' INODE_BITMAP)
     \<and> inode_bytes s' no = replicate 76 0 \<and> (\<forall>k < 4096. k \<noteq> no \<longrightarrow> inode_bytes s' k = inode_bytes s k)"
proof -
  have ni: "no < nbits (inode_bitmap s)" using fs_wfD(5) [OF wf] no by simp
  with byte_index [OF fs_wfD(4) [OF wf]] bitmap_set_Some [of no "inode_bitmap s" 0] obtain b where
    b: "bitmap_set (inode_bitmap s) no 0 = Some b" by auto
  note wf1 = fs_wf_bitmap(2) [OF wf b]
  let ?s1 = "s\<lparr>inode_bitmap := b\<rparr>"
  have "no < nbits (bitmap_of ?s1 INODE_BITMAP)"
    using ni bitmap_set_length [OF b] by (simp add: bitmap_of_def)
  note sy = bitmap_sync_spec [OF wf1 this]
  let ?d = "(disk s)(bitmap_lba ?s1 INODE_BITMAP no := bitmap_sector ?s1 INODE_BITMAP no)"
  let ?s2 = "s\<lparr>inode_bitmap := b, disk := ?d, allocs := allocs s + 1\<rparr>"
  have dok: "disk_ok (disk ?s2)" using sy by simp
  have wf2: "fs_wf ?s2" using wf1 dok by (simp add: fs_wf_def)
  from inode_delete_spec [OF dok fs_wf_slot [OF wf2 no]] obtain d where
    d: "inode_delete ?s2 no = Some (?s2\<lparr>disk := d\<rparr>)" "disk_ok d"
    "\<forall>i. disk_byte d i = (if inode_base ?s2 no \<le> i \<and> i < inode_base ?s2 no + 76 then 0
          else disk_byte (disk ?s2) i)" by blast
  let ?s3 = "?s2\<lparr>disk := d, open_inodes := remove1 a (open_inodes s), inodes := (inodes s)(a := None)\<rparr>"
  have close: "inode_close (?s2\<lparr>disk := d\<rparr>) a = Some ?s3"
    using a by (simp add: inode_close_def sub32_def)
  have lba: "bitmap_lba ?s1 INODE_BITMAP no = inode_bitmap_lba (sb s)"
    using bitmap_lba_bounds(2) [OF wf1, of no INODE_BITMAP] ni bitmap_set_length [OF b] by (simp add: bitmap_of_def)
  have below: "inode_bitmap_lba (sb s) < inode_table_lba (sb s)" "inode_table_lba (sb s) + 608 \<le> data_start_lba (sb s)"
    using wf by (simp_all add: fs_wf_def)
  have slots: "76 * k + 76 \<le> 512 * 608" if "k < 4096" for k :: nat using that by linarith
  have outside: "d x = ?d x" if "x < inode_table_lba (sb s) \<or> data_start_lba (sb s) \<le> x" for x
  proof -
    have nb: "512 * x + 512 \<le> inode_base ?s2 no \<or> inode_base ?s2 no + 76 \<le> 512 * x"
      using that slots [OF no] below(2) by (auto simp: inode_base_def)
    have "d x ! i = ?d x ! i" if "i < 512" for i
      using d(3) [rule_format, of "512 * x + i"] nb that by (auto simp: disk_byte_def)
    moreover have "length (d x) = 512" "length (?d x) = 512"
      using d(2) dok by (simp_all add: disk_ok_def)
    ultimately show ?thesis by (metis nth_equalityI)
  qed
  have frame: "d x = disk s x" if "x < inode_bitmap_lba (sb s) \<or> data_start_lba (sb s) \<le> x" for x
  proof -
    have "x \<noteq> bitmap_lba ?s1 INODE_BITMAP no" using that below lba by auto
    moreover have "d x = ?d x" by (rule outside) (use that below in auto)
    ultimately show ?thesis by simp
  qed
  have others: "inode_bytes ?s3 k = inode_bytes s k" if k: "k < 4096" "k \<noteq> no" for k
  proof -
    have "disk_byte d i = disk_byte (disk s) i" if i: "inode_base s k \<le> i" "i < inode_base s k + 76" for i
    proof -
      have "512 * inode_table_lba (sb s) \<le> i" using i by (simp add: inode_base_def)
      then have "inode_table_lba (sb s) \<le> i div 512" by (simp add: less_eq_div_iff_mult_less_eq mult.commute)
      then have sec: "?d (i div 512) = disk s (i div 512)" using lba below by simp
      have "\<not> (inode_base ?s2 no \<le> i \<and> i < inode_base ?s2 no + 76)"
        using slots_disjoint [of k no s i] k(2) i by (simp add: inode_base_def)
      then have "disk_byte d i = disk_byte (disk ?s2) i" using d(3) [rule_format, of i] by (simp only: if_False)
      moreover have "disk_byte (disk ?s2) i = disk_byte (disk s) i"
        using sec unfolding disk_byte_def by simp
      ultimately show ?thesis by (rule trans)
    qed
    then show ?thesis by (auto simp: inode_bytes_def inode_base_def)
  qed
  have on: "bitmap_on_disk ?s3 INODE_BITMAP" if "bitmap_on_disk s INODE_BITMAP"
  proof -
    have "bitmap_on_disk ?s2 INODE_BITMAP"
      by (rule bitmap_on_disk_sync [OF wf that, of no 0 b])
        (use b ni in \<open>simp_all add: bitmap_of_def bitmap_lba_def bitmap_sector_def\<close>)
    then show ?thesis
    proof (rule bitmap_on_disk_frame)
      fix k assume "k < nbits (bitmap_of ?s2 INODE_BITMAP)"
      then have "bitmap_lba ?s2 INODE_BITMAP k = inode_bitmap_lba (sb s)" using bitmap_lba_bounds(2) [OF wf2, of k INODE_BITMAP] by simp
      then show "disk ?s3 (bitmap_lba ?s2 INODE_BITMAP k) = disk ?s2 (bitmap_lba ?s2 INODE_BITMAP k)"
        using outside below(1) by simp
    qed (simp_all add: bitmap_of_def)
  qed
  have zero: "inode_bytes ?s3 no = replicate 76 0"
    by (rule nth_equalityI) (use d(3) in \<open>auto simp: inode_bytes_def inode_base_def\<close>)
  have wf3: "fs_wf ?s3" using wf2 d(2) by (simp add: fs_wf_def)
  have "release_slot s a no = Some ?s3"
    using b sy d(1) close ok by (simp add: release_slot_def kmalloc_def)
  moreover have "used_bits b = used_bits (inode_bitmap s) - {no}"
    using used_bits_bitmap_set [OF b] by simp
  ultimately show ?thesis using wf3 frame zero others on
    by (intro exI [of _ ?s3] exI [of _ b] exI [of _ d]) simp
qed

lemma inode_release_spec:
  assumes wf: "fs_wf s" and hp: "heap_wf s" and no: "no < 4096" "not_open s no"
    and ino: "ino = disk_inode s no" "i_no ino = no"
    and blks: "\<forall>b \<in> inode_blocks s ino. data_blk s b"
  shows "\<exists>s' . inode_release s no = Some s' \<and> fs_wf s'
     \<and> used_bits (block_bitmap s') = used_bits (block_bitmap s)
         - (\<lambda>b. b - data_start_lba (sb s)) ` inode_blocks s ino
     \<and> used_bits (inode_bitmap s') = used_bits (inode_bitmap s) - {no}
     \<and> open_inodes s' = open_inodes s \<and> inodes s' = inodes s
     \<and> (\<forall>x. x < block_bitmap_lba (sb s) \<or> data_start_lba (sb s) \<le> x \<longrightarrow> disk s' x = disk s x)
     \<and> (bitmap_on_disk s BLOCK_BITMAP \<longrightarrow> bitmap_on_disk s' BLOCK_BITMAP)
     \<and> (bitmap_on_disk s INODE_BITMAP \<longrightarrow> bitmap_on_disk s' INODE_BITMAP)
     \<and> inode_bytes s' no = replicate 76 0 \<and> (\<forall>k < 4096. k \<noteq> no \<longrightarrow> inode_bytes s' k = inode_bytes s k)"
proof -
  define a where "a = allocs s + 3"
  define s1 where "s1 = s\<lparr>allocs := allocs s + 2, open_inodes := a # open_inodes s,
     inodes := (inodes s)(a \<mapsto> ino\<lparr>i_open_cnts := 1\<rparr>)\<rparr>"
  have op: "inode_open s no = Some (a, s1)"
    using inode_open_uncached [OF fs_wfD(1) [OF wf] fs_wf_slot [OF wf no(1)] no(2)] hp
    by (simp add: heap_wf_def a_def s1_def ino)
  have wf1: "fs_wf s1" using wf by (simp add: s1_def)
  have len: "length (i_sectors ino) = 13" using dec_inode_wf by (simp add: ino disk_inode_def inode_wf_def)
  let ?t = "i_sectors ino ! 12"
  let ?more = "if ?t = 0 then [] else dec_words 128 (disk s ?t)"
  have blk: "data_blk s1 b" if "b \<in> set (take 12 (i_sectors ino) @ ?more)" "b \<noteq> 0" for b
    using blks that in_set_takeD [of b 12] by (auto simp: inode_blocks_def s1_def data_blk_def split: if_splits)
  have rt: "rd (i_sectors ino) 12 = Some ?t" using len by simp
  have "\<exists>s2. collect_blocks s1 ino = Some (take 12 (i_sectors ino) @ ?more, s2) \<and> frees s1 ({?t} - {0}) s2"
  proof (cases "?t = 0")
    case True
    then show ?thesis using frees_refl [OF wf1] rt by (simp add: collect_blocks_def)
  next
    case False
    then have t: "data_blk s1 ?t" using blks len by (auto simp: inode_blocks_def s1_def data_blk_def)
    from release_block_spec [OF wf1 this] obtain s2 where "release_block s1 ?t = Some s2" "frees s1 {?t} s2" by blast
    moreover have "disk_read (disk s1) ?t 1 = Some (disk s ?t)"
      using sector_read [of ?t "disk s1"] t by (simp add: ide_ok_small data_blk_def s1_def)
    ultimately show ?thesis using False rt by (simp add: collect_blocks_def)
  qed
  then obtain s2 where s2: "collect_blocks s1 ino = Some (take 12 (i_sectors ino) @ ?more, s2)"
    "frees s1 ({?t} - {0}) s2" by blast
  have wf2: "fs_wf s2" using s2(2) by (simp add: frees_def)
  from release_blocks_spec [OF wf2, of "take 12 (i_sectors ino) @ ?more"] blk frees_data_blk [OF s2(2)]
  obtain s3 where s3: "release_blocks s2 (take 12 (i_sectors ino) @ ?more) = Some s3"
    "frees s2 (set (take 12 (i_sectors ino) @ ?more) - {0}) s3" by blast
  have "({?t} - {0}) \<union> (set (take 12 (i_sectors ino) @ ?more) - {0}) = inode_blocks s ino"
    using set_thirteen [OF len] by (auto simp: inode_blocks_def)
  with frees_trans [OF s2(2) s3(2)] have f: "frees s1 (inode_blocks s ino) s3" by simp
  then have wf3: "fs_wf s3" by (simp add: frees_def)
  from f obtain bm d3 where f3: "s3 = s1\<lparr>block_bitmap := bm, disk := d3\<rparr>"
    "used_bits bm = used_bits (block_bitmap s) - (\<lambda>b. b - data_start_lba (sb s)) ` inode_blocks s ino"
    "\<forall>x. inode_table_lba (sb s) \<le> x \<longrightarrow> d3 x = disk s x"
    "\<forall>x. x < block_bitmap_lba (sb s) \<or> inode_bitmap_lba (sb s) \<le> x \<longrightarrow> d3 x = disk s x" by (auto simp: frees_def s1_def)
  have on3: "bitmap_on_disk s BLOCK_BITMAP \<longrightarrow> bitmap_on_disk s3 BLOCK_BITMAP"
    using f by (simp add: frees_def s1_def bitmap_on_disk_def bitmap_of_def bitmap_lba_def bitmap_sector_def)
  have a3: "inodes s3 a = Some (ino\<lparr>i_open_cnts := 1\<rparr>)" by (simp add: f3(1) s1_def)
  have fresh: "a \<notin> set (open_inodes s)" "inodes s a = None" using hp by (auto simp: heap_wf_def a_def)
  have "alloc_ok s3 (allocs s3)" using hp by (simp add: f3(1) s1_def heap_wf_def)
  from release_slot_spec [OF wf3 no(1) a3 _ this] obtain s' b d where
    t: "release_slot s3 a no = Some s'"
    "s' = s3\<lparr>inode_bitmap := b, allocs := allocs s3 + 1, disk := d,
         open_inodes := remove1 a (open_inodes s3), inodes := (inodes s3)(a := None)\<rparr>"
    "fs_wf s'" "used_bits b = used_bits (inode_bitmap s3) - {no}"
    "\<forall>x. x < inode_bitmap_lba (sb s3) \<or> data_start_lba (sb s3) \<le> x \<longrightarrow> d x = disk s3 x"
    "bitmap_on_disk s3 INODE_BITMAP \<longrightarrow> bitmap_on_disk s' INODE_BITMAP"
    "inode_bytes s' no = replicate 76 0" "\<forall>k < 4096. k \<noteq> no \<longrightarrow> inode_bytes s' k = inode_bytes s3 k"
    by auto
  have "inode_release s no = Some s'"
  proof -
    have "inodes s1 a = Some (ino\<lparr>i_open_cnts := 1\<rparr>)" by (simp add: s1_def)
    moreover have "collect_blocks s1 (ino\<lparr>i_open_cnts := 1\<rparr>) = collect_blocks s1 ino"
      by (simp add: collect_blocks_def cong: if_cong)
    ultimately show ?thesis using op s2(1) s3(1) t(1) ino(2) by (simp add: inode_release_def)
  qed
  moreover have "open_inodes s' = open_inodes s" "inodes s' = inodes s"
    using fresh by (simp_all add: t(2) f3(1) s1_def fun_upd_idem)
  moreover have lay: "block_bitmap_lba (sb s) \<le> inode_bitmap_lba (sb s)" "inode_bitmap_lba (sb s) < inode_table_lba (sb s)"
    "inode_table_lba (sb s) + 608 \<le> data_start_lba (sb s)" using wf by (simp_all add: fs_wf_def)
  have "disk s' x = disk s x" if "x < block_bitmap_lba (sb s) \<or> data_start_lba (sb s) \<le> x" for x
    using that t(5) f3(1,3,4) lay by (auto simp: t(2) s1_def)
  moreover have "bitmap_on_disk s' BLOCK_BITMAP" if "bitmap_on_disk s BLOCK_BITMAP"
  proof (rule bitmap_on_disk_frame)
    show "bitmap_on_disk s3 BLOCK_BITMAP" using on3 that by simp
    fix k assume "k < nbits (bitmap_of s3 BLOCK_BITMAP)"
    from bitmap_lba_bounds(1) [OF wf3 this] t(5)
    show "disk s' (bitmap_lba s3 BLOCK_BITMAP k) = disk s3 (bitmap_lba s3 BLOCK_BITMAP k)" by (simp add: t(2))
  qed (simp_all add: t(2) bitmap_of_def)
  moreover have "bitmap_on_disk s' INODE_BITMAP" if "bitmap_on_disk s INODE_BITMAP"
  proof -
    have "bitmap_on_disk s3 INODE_BITMAP"
      using that f3(4) lay by (simp add: f3(1) s1_def bitmap_on_disk_def bitmap_of_def bitmap_lba_def bitmap_sector_def)
    then show ?thesis using t(6) by simp
  qed
  moreover have "inode_bytes s' k = inode_bytes s k" if k: "k < 4096" "k \<noteq> no" for k
  proof -
    have "disk_byte d3 i = disk_byte (disk s) i" if "inode_base s k \<le> i" for i
    proof -
      have "512 * inode_table_lba (sb s) \<le> i" using that by (simp add: inode_base_def)
      then have "inode_table_lba (sb s) \<le> i div 512" by (simp add: less_eq_div_iff_mult_less_eq mult.commute)
      then show ?thesis using f3(3) by (simp add: disk_byte_def)
    qed
    then have "inode_bytes s3 k = inode_bytes s k" by (auto simp: inode_bytes_def inode_base_def f3(1) s1_def)
    then show ?thesis using t(8) k by simp
  qed
  moreover have "used_bits (block_bitmap s') = used_bits bm" "inode_bitmap s' = b" "inode_bitmap s3 = inode_bitmap s"
    by (simp_all add: t(2) f3(1) s1_def)
  ultimately show ?thesis using t(3,4,7) f3(2) by (intro exI [of _ s']) simp
qed

section \<open>Properties\<close>

definition demo_sb :: super_block where
  "demo_sb = \<lparr>magic = 0x19590318, sb_sec_cnt = 4000, inode_cnt = 4096, part_lba_base = 0,
     block_bitmap_lba = 2, block_bitmap_sects = 1, inode_bitmap_lba = 3, inode_bitmap_sects = 1,
     inode_table_lba = 4, inode_table_sects = 608, data_start_lba = 612, root_inode_no = 0,
     dir_entry_size = 24\<rparr>"

definition demo_fs :: fs where
  "demo_fs = \<lparr>disk = (\<lambda>_. replicate 512 0), start_lba = 0, sec_cnt = 4000, sb = demo_sb,
     block_bitmap = \<lparr>btmp_bytes_len = 512, bits = 1 # replicate 511 0\<rparr>,
     inode_bitmap = \<lparr>btmp_bytes_len = 512, bits = 1 # replicate 511 0\<rparr>,
     open_inodes = [], inodes = Map.empty, dirs = Map.empty, alloc_ok = (\<lambda>_. True), allocs = 0,
     file_table = replicate 32 \<lparr>fd_pos = 0, fd_flag = 0, fd_inode = 0, count = 0, op = Null_ops,
       private_data = 0\<rparr>,
     fd_table = [0, 1, 2, -1, -1, -1, -1, -1], cwd_inode_nr = 0\<rparr>"

lemma demo_fs_wf: "fs_wf demo_fs" "heap_wf demo_fs"
  by (simp_all add: fs_wf_def heap_wf_def demo_fs_def demo_sb_def disk_ok_def max_lba_eq)

definition demo_inode :: inode where
  "demo_inode = (inode_init 6)\<lparr>i_size := 700, i_sectors := [700, 701] @ replicate 11 0, i_open_cnts := 2\<rparr>"

lemma demo_inode_wf: "inode_wf demo_inode" "i_no demo_inode = 6"
  by (simp_all add: inode_wf_def demo_inode_def inode_init_def)

text \<open>
  Property C35. An inode whose number fits a byte, once synchronised, is read back by the
  next \<open>inode_open\<close> from disk with the memory-only fields cleared, also when its slot
  straddles two sectors, and no other slot of the table changes.
\<close>

theorem inode_sync_open_roundtrip:
  assumes "fs_wf s" and "heap_wf s" and "inode_wf ino" and "i_no ino < 256" and "not_open s (i_no ino)"
  shows "\<exists>d a s2. inode_sync s ino = Some (s\<lparr>disk := d\<rparr>) \<and> disk_ok d
    \<and> (\<forall>no. no \<noteq> i_no ino \<longrightarrow> disk_inode (s\<lparr>disk := d\<rparr>) no = disk_inode s no)
    \<and> inode_open (s\<lparr>disk := d\<rparr>) (i_no ino) = Some (a, s2)
    \<and> inodes s2 a = Some ((pure_inode ino)\<lparr>i_open_cnts := 1\<rparr>) \<and> open_inodes s2 = a # open_inodes s"
proof -
  have w: "w8 (i_no ino) = i_no ino" "i_no ino < 4096" using assms(4) by auto
  from inode_sync_slots [OF fs_wfD(1) [OF assms(1)] fs_wf_slot [OF assms(1)] assms(3)] w obtain d where
    d: "inode_sync s ino = Some (s\<lparr>disk := d\<rparr>)" "disk_ok d"
    "disk_inode (s\<lparr>disk := d\<rparr>) (i_no ino) = pure_inode ino"
    "\<forall>no. no \<noteq> i_no ino \<longrightarrow> disk_inode (s\<lparr>disk := d\<rparr>) no = disk_inode s no" by auto
  let ?s = "s\<lparr>disk := d\<rparr>"
  have wf: "fs_wf ?s" using assms(1) d(2) by simp
  have "not_open ?s (i_no ino)" using assms(5) by (simp add: not_open_def)
  note op = inode_open_uncached [OF fs_wfD(1) [OF wf] fs_wf_slot [OF wf w(2)] this]
  show ?thesis by (intro exI [of _ d]) (use d op assms(2) in \<open>simp add: heap_wf_def\<close>)
qed

theorem inode_sync_open_roundtrip_witness:
  "\<exists>d a s2. inode_sync demo_fs demo_inode = Some (demo_fs\<lparr>disk := d\<rparr>) \<and> disk_ok d
    \<and> (\<forall>no. no \<noteq> i_no demo_inode \<longrightarrow> disk_inode (demo_fs\<lparr>disk := d\<rparr>) no = disk_inode demo_fs no)
    \<and> inode_open (demo_fs\<lparr>disk := d\<rparr>) (i_no demo_inode) = Some (a, s2)
    \<and> inodes s2 a = Some ((pure_inode demo_inode)\<lparr>i_open_cnts := 1\<rparr>)
    \<and> open_inodes s2 = a # open_inodes demo_fs"
  by (rule inode_sync_open_roundtrip [OF demo_fs_wf demo_inode_wf(1)])
    (simp_all add: demo_inode_wf(2) not_open_def demo_fs_def)

text \<open>
  Property C36. An inode with a number from 256 on is written over the slot of its number
  modulo 256: its own slot keeps the old contents and another inode's slot is lost.
\<close>

theorem inode_sync_wrong_slot:
  assumes "fs_wf s" and "inode_wf ino" and "256 \<le> i_no ino"
  shows "\<exists>d. inode_sync s ino = Some (s\<lparr>disk := d\<rparr>)
    \<and> disk_inode (s\<lparr>disk := d\<rparr>) (i_no ino) = disk_inode s (i_no ino)
    \<and> disk_inode (s\<lparr>disk := d\<rparr>) (i_no ino mod 256) = pure_inode ino"
proof -
  have "w8 (i_no ino) < 4096" by (simp add: w8_def less_trans [OF mod_less_divisor])
  moreover have "i_no ino \<noteq> w8 (i_no ino)" using assms(3) mod_less_divisor [of 256 "i_no ino"]
    unfolding w8_def by linarith
  ultimately show ?thesis
    using inode_sync_slots [OF fs_wfD(1) [OF assms(1)] fs_wf_slot [OF assms(1)] assms(2)]
    by (auto simp: w8_def)
qed

theorem inode_sync_wrong_slot_witness:
  "\<exists>d. inode_sync demo_fs (inode_init 262) = Some (demo_fs\<lparr>disk := d\<rparr>)
    \<and> disk_inode (demo_fs\<lparr>disk := d\<rparr>) (i_no (inode_init 262)) = disk_inode demo_fs (i_no (inode_init 262))
    \<and> disk_inode (demo_fs\<lparr>disk := d\<rparr>) (i_no (inode_init 262) mod 256) = pure_inode (inode_init 262)"
  by (rule inode_sync_wrong_slot [OF demo_fs_wf(1)]) (simp_all add: inode_wf_def inode_init_def)

text \<open>
  Opening an inode that is already open returns the same object with its
  count raised by one, and closing it once more leaves the state as it was.
\<close>

theorem inode_open_shared:
  assumes "find_open (inodes s) (open_inodes s) no = Some a" and "a \<noteq> 0"
    and "inodes s a = Some ino" and "0 < i_open_cnts ino" and "i_open_cnts ino + 1 < 4294967296"
  shows "\<exists>s1. inode_open s no = Some (a, s1)
    \<and> inodes s1 a = Some (ino\<lparr>i_open_cnts := i_open_cnts ino + 1\<rparr>) \<and> inode_close s1 a = Some s"
proof -
  have "sub32 (i_open_cnts ino + 1) 1 = i_open_cnts ino" using assms(5) by (simp add: sub32_le)
  with assms show ?thesis
    by (simp add: inode_open_def inode_close_def fun_upd_idem Let_def)
qed

definition demo_fs_open :: fs where
  "demo_fs_open = demo_fs\<lparr>inodes := [3 \<mapsto> demo_inode], open_inodes := [3], allocs := 1\<rparr>"

theorem inode_open_shared_witness:
  "\<exists>s1. inode_open demo_fs_open 6 = Some (3, s1)
    \<and> inodes s1 3 = Some (demo_inode\<lparr>i_open_cnts := i_open_cnts demo_inode + 1\<rparr>)
    \<and> inode_close s1 3 = Some demo_fs_open"
  by (rule inode_open_shared)
    (simp_all add: demo_fs_open_def demo_inode_def inode_init_def)

text \<open>
  Property C13. Deleting an inode frees exactly its direct blocks, its indirect table and the blocks
  that table lists, and its number, in the bitmaps in memory and on the disk; of the inode table exactly its own
  slot is cleared, every other slot keeps its bytes; the data area and what lies before the bitmaps stay as
  they were, and no trace is left in the list of open inodes.
\<close>

theorem inode_release_frees_all:
  assumes "fs_wf s" and "heap_wf s" and "no < 4096" and "not_open s no" and "i_no (disk_inode s no) = no"
    and "\<forall>b \<in> inode_blocks s (disk_inode s no). data_blk s b"
    and "bitmap_on_disk s BLOCK_BITMAP" and "bitmap_on_disk s INODE_BITMAP"
  shows "\<exists>s'. inode_release s no = Some s' \<and> fs_wf s'
     \<and> used_bits (block_bitmap s') = used_bits (block_bitmap s)
         - (\<lambda>b. b - data_start_lba (sb s)) ` inode_blocks s (disk_inode s no)
     \<and> used_bits (inode_bitmap s') = used_bits (inode_bitmap s) - {no}
     \<and> bitmap_on_disk s' BLOCK_BITMAP \<and> bitmap_on_disk s' INODE_BITMAP
     \<and> open_inodes s' = open_inodes s \<and> inodes s' = inodes s
     \<and> (\<forall>x. x < block_bitmap_lba (sb s) \<or> data_start_lba (sb s) \<le> x \<longrightarrow> disk s' x = disk s x)
     \<and> inode_bytes s' no = replicate 76 0 \<and> (\<forall>k < 4096. k \<noteq> no \<longrightarrow> inode_bytes s' k = inode_bytes s k)"
  using inode_release_spec [OF assms(1-4) refl assms(5,6)] assms(7,8) by blast

text \<open>A disk with an inode of two blocks in slot 6, and both bitmaps up to date.\<close>

definition demo_blocks :: "u8 list" where
  "demo_blocks = (1 # replicate 511 0)[11 := 3]"

definition demo_full_fs :: fs where
  "demo_full_fs = demo_fs\<lparr>block_bitmap := \<lparr>btmp_bytes_len = 512, bits = demo_blocks\<rparr>,
     inode_bitmap := \<lparr>btmp_bytes_len = 512, bits = 65 # replicate 511 0\<rparr>,
     disk := (disk demo_fs)(2 := demo_blocks, 3 := 65 # replicate 511 0)\<rparr>"

lemma demo_full_wf: "fs_wf demo_full_fs" "heap_wf demo_full_fs"
  "bitmap_on_disk demo_full_fs BLOCK_BITMAP" "bitmap_on_disk demo_full_fs INODE_BITMAP"
proof -
  have l: "length demo_blocks = 512" by (simp add: demo_blocks_def)
  show "fs_wf demo_full_fs" "heap_wf demo_full_fs"
    by (simp_all add: fs_wf_def heap_wf_def demo_full_fs_def l demo_fs_def demo_sb_def disk_ok_def max_lba_eq)
  show "bitmap_on_disk demo_full_fs BLOCK_BITMAP" "bitmap_on_disk demo_full_fs INODE_BITMAP"
    by (simp_all add: bitmap_on_disk_def bitmap_of_def bitmap_lba_def bitmap_sector_def demo_full_fs_def l demo_fs_def demo_sb_def)
qed

theorem inode_release_frees_all_witness:
  "\<exists>s s'. disk_inode s 6 = pure_inode demo_inode \<and> inode_release s 6 = Some s'
     \<and> used_bits (block_bitmap s') = used_bits (block_bitmap s) - {88, 89}
     \<and> used_bits (inode_bitmap s') = used_bits (inode_bitmap s) - {6}
     \<and> bitmap_on_disk s' BLOCK_BITMAP \<and> bitmap_on_disk s' INODE_BITMAP
     \<and> inode_bytes s' 6 = replicate 76 0 \<and> inode_bytes s' 5 = inode_bytes s 5"
proof -
  let ?s = demo_full_fs
  have six: "w8 (i_no demo_inode) = 6" using demo_inode_wf by simp
  from inode_sync_data [OF demo_full_wf(1) demo_inode_wf(1)] obtain d where d: "inode_sync ?s demo_inode = Some (?s\<lparr>disk := d\<rparr>)" "disk_ok d"
    "\<forall>x. x < inode_table_lba (sb ?s) \<or> data_start_lba (sb ?s) \<le> x \<longrightarrow> d x = disk ?s x"
    "disk_inode (?s\<lparr>disk := d\<rparr>) 6 = pure_inode demo_inode" unfolding six by blast
  let ?t = "?s\<lparr>disk := d\<rparr>"
  have wf: "fs_wf ?t" "heap_wf ?t" using demo_full_wf(1,2) d(2) by (simp_all add: heap_wf_def)
  have on: "bitmap_on_disk ?t bt" if "bitmap_on_disk ?s bt" for bt
  proof (rule bitmap_on_disk_frame [OF that])
    fix k assume "k < nbits (bitmap_of ?s bt)"
    from bitmap_sync_spec [OF demo_full_wf(1) this] d(3)
    show "disk ?t (bitmap_lba ?s bt k) = disk ?s (bitmap_lba ?s bt k)" by simp
  qed (simp_all add: bitmap_of_def split: bitmap_type.splits)
  have blks: "inode_blocks ?t (disk_inode ?t 6) = {700, 701}"
    unfolding d(4) by (auto simp: inode_blocks_def pure_inode_def demo_inode_def inode_init_def nth_Cons')
  have "\<forall>b \<in> inode_blocks ?t (disk_inode ?t 6). data_blk ?t b"
    unfolding blks by (simp add: data_blk_def demo_full_fs_def demo_fs_def demo_sb_def max_lba_eq)
  moreover have "not_open ?t 6" by (simp add: not_open_def demo_full_fs_def demo_fs_def)
  moreover have "i_no (disk_inode ?t 6) = 6" unfolding d(4) using demo_inode_wf(2) by (simp add: pure_inode_def)
  ultimately obtain s' where s': "inode_release ?t 6 = Some s'"
    "used_bits (block_bitmap s') = used_bits (block_bitmap ?t) - (\<lambda>b. b - data_start_lba (sb ?t)) ` {700, 701}"
    "used_bits (inode_bitmap s') = used_bits (inode_bitmap ?t) - {6}"
    "bitmap_on_disk s' BLOCK_BITMAP" "bitmap_on_disk s' INODE_BITMAP"
    "inode_bytes s' 6 = replicate 76 0" "\<forall>k < 4096. k \<noteq> 6 \<longrightarrow> inode_bytes s' k = inode_bytes ?t k"
    using inode_release_frees_all [OF wf, of 6] on demo_full_wf(3,4) unfolding blks by auto
  have "(\<lambda>b. b - data_start_lba (sb ?t)) ` {700, 701} = {88, 89}"
    by (simp add: demo_full_fs_def demo_fs_def demo_sb_def)
  with s' d(4) show ?thesis by (intro exI [of _ ?t] exI [of _ s']) simp
qed

end
