(* ===== verification/File.thy ===== *)
theory File
  imports Inode
begin

text \<open>
  \<open>src/src/fs/file.c\<close>: the file table, the descriptor table of the running thread, and
  reading and writing regular files block by block. A \<open>struct file *\<close> is its index in
  \<open>file_table\<close>. The functions return the C result with the new state; \<open>-1\<close> is a result.
\<close>

definition BLOCK_SIZE :: nat where
  "BLOCK_SIZE = 512"

definition MAX_FILE_OPEN :: nat where
  "MAX_FILE_OPEN = 32"

definition O_RDONLY :: nat where "O_RDONLY = 0"
definition O_WRONLY :: nat where "O_WRONLY = 1"
definition O_RDWR :: nat where "O_RDWR = 2"
definition O_CREAT :: nat where "O_CREAT = 4"

definition dummy_inode :: nat where
  "dummy_inode = 2"

section \<open>The file table\<close>

definition file_table_init :: "fs \<Rightarrow> fs" where
  "file_table_init s = s\<lparr>file_table := map (\<lambda>f. f\<lparr>fd_inode := 0\<rparr>) (file_table s)\<rparr>"

definition upd_file :: "fs \<Rightarrow> nat \<Rightarrow> (kfile \<Rightarrow> kfile) \<Rightarrow> fs option" where
  "upd_file s fi f =
     do { x \<leftarrow> rd (file_table s) fi; ft \<leftarrow> wr (file_table s) fi (f x); Some (s\<lparr>file_table := ft\<rparr>) }"

definition release_free_slot_in_global :: "fs \<Rightarrow> int \<Rightarrow> fs option" where
  "release_free_slot_in_global s fd =
     do { kassert (0 \<le> fd \<and> fd < int MAX_FILE_OPEN);
          upd_file s (nat fd) (\<lambda>f. f\<lparr>fd_inode := 0\<rparr>) }"

function find_slot :: "kfile list \<Rightarrow> nat \<Rightarrow> nat option" where
  "find_slot ft fd_idx =
     (if fd_idx < MAX_FILE_OPEN then
        do { f \<leftarrow> rd ft fd_idx; if fd_inode f = 0 then Some fd_idx else find_slot ft (Suc fd_idx) }
      else Some fd_idx)"
  by pat_completeness auto
termination
  by (relation "measure (\<lambda>(ft, i). MAX_FILE_OPEN - i)") auto

declare find_slot.simps [simp del]

definition get_free_slot_in_global :: "fs \<Rightarrow> (int \<times> fs) option" where
  "get_free_slot_in_global s =
     do { fd_idx \<leftarrow> find_slot (file_table s) 3;
          if fd_idx = MAX_FILE_OPEN then Some (- 1, s)
          else do { s \<leftarrow> upd_file s fd_idx (\<lambda>f. f\<lparr>fd_inode := dummy_inode\<rparr>);
                    Some (int fd_idx, s) } }"

function find_fd :: "int list \<Rightarrow> nat \<Rightarrow> nat option" where
  "find_fd tbl i =
     (if i < 8 then do { g \<leftarrow> rd tbl i; if g = - 1 then Some i else find_fd tbl (Suc i) }
      else Some i)"
  by pat_completeness auto
termination
  by (relation "measure (\<lambda>(t, i). 8 - i)") auto

declare find_fd.simps [simp del]

definition pcb_fd_install :: "fs \<Rightarrow> int \<Rightarrow> (int \<times> fs) option" where
  "pcb_fd_install s globa_fd_idx =
     do { i \<leftarrow> find_fd (fd_table s) 3;
          if i = 8 then Some (- 1, s)
          else do { t \<leftarrow> wr (fd_table s) i globa_fd_idx; Some (int i, s\<lparr>fd_table := t\<rparr>) } }"

definition init_file_struct :: "kfile \<Rightarrow> kfile" where
  "init_file_struct f = f\<lparr>fd_pos := 0, fd_flag := 0, count := 0, op := Null_ops, private_data := 0\<rparr>"

definition file_open :: "fs \<Rightarrow> nat \<Rightarrow> nat \<Rightarrow> (int \<times> fs) option" where
  "file_open s inode_no flag =
     do { (fd_idx, s) \<leftarrow> get_free_slot_in_global s;
          if fd_idx = - 1 then Some (- 1, s)
          else
            do { s \<leftarrow> upd_file s (nat fd_idx) init_file_struct;
                 (a, s) \<leftarrow> inode_open s inode_no;
                 kassert (a \<noteq> 0);
                 s \<leftarrow> upd_file s (nat fd_idx)
                   (\<lambda>f. f\<lparr>fd_inode := a, fd_flag := flag, count := count f + 1, op := Disk_ops\<rparr>);
                 ino \<leftarrow> inodes s a;
                 if flag = O_WRONLY \<or> flag = O_RDWR then
                   if \<not> write_deny ino
                   then pcb_fd_install (s\<lparr>inodes := (inodes s)(a \<mapsto> ino\<lparr>write_deny := True\<rparr>)\<rparr>) fd_idx
                   else Some (- 1, s)
                 else pcb_fd_install s fd_idx } }"

definition disk_file_release :: "fs \<Rightarrow> nat \<Rightarrow> (int \<times> fs) option" where
  "disk_file_release s fi =
     do { f \<leftarrow> rd (file_table s) fi;
          ino \<leftarrow> inodes s (fd_inode f);
          s \<leftarrow> inode_close (s\<lparr>inodes := (inodes s)(fd_inode f \<mapsto> ino\<lparr>write_deny := False\<rparr>)\<rparr>) (fd_inode f);
          Some (0, s) }"

section \<open>Writing\<close>

definition set_sector :: "fs \<Rightarrow> nat \<Rightarrow> nat \<Rightarrow> nat \<Rightarrow> fs option" where
  "set_sector s a k lba =
     do { ino \<leftarrow> inodes s a;
          secs \<leftarrow> wr (i_sectors ino) k lba;
          Some (s\<lparr>inodes := (inodes s)(a \<mapsto> ino\<lparr>i_sectors := secs\<rparr>)\<rparr>) }"

definition get_sector :: "fs \<Rightarrow> nat \<Rightarrow> nat \<Rightarrow> nat option" where
  "get_sector s a k = do { ino \<leftarrow> inodes s a; rd (i_sectors ino) k }"

text \<open>The first block of a file that was never written.\<close>

definition first_block :: "fs \<Rightarrow> nat \<Rightarrow> (bool \<times> fs) option" where
  "first_block s a =
     do { x \<leftarrow> get_sector s a 0;
          if x = 0 then
            do { (block_lba, s) \<leftarrow> block_bitmap_alloc s;
                 if block_lba = - 1 then Some (False, s)
                 else
                   do { s \<leftarrow> set_sector s a 0 (nat block_lba);
                        let block_bitmap_idx = sub32 (nat block_lba) (data_start_lba (sb s)) in
                        do { kassert (block_bitmap_idx \<noteq> 0);
                             s \<leftarrow> bitmap_sync s block_bitmap_idx BLOCK_BITMAP;
                             Some (True, s) } } }
          else Some (True, s) }"

text \<open>
  The allocation loop of the three situations: a direct block goes to the inode and to
  \<open>all_blocks\<close>, an indirect one to \<open>all_blocks\<close> only. In the first situation the index
  stays below 12, in the third it starts above.
\<close>

function alloc_blocks :: "fs \<Rightarrow> nat \<Rightarrow> nat \<Rightarrow> nat \<Rightarrow> nat list \<Rightarrow> (bool \<times> nat list \<times> fs) option" where
  "alloc_blocks s a block_idx will all_blocks =
     (if block_idx < will then
        do { (block_lba, s) \<leftarrow> block_bitmap_alloc s;
             if block_lba = - 1 then Some (False, all_blocks, s)
             else
               do { s \<leftarrow> (if block_idx < 12
                      then do { x \<leftarrow> get_sector s a block_idx; kassert (x = 0);
                                set_sector s a block_idx (nat block_lba) }
                      else Some s);
                    all_blocks \<leftarrow> wr all_blocks block_idx (nat block_lba);
                    s \<leftarrow> bitmap_sync s (sub32 (nat block_lba) (data_start_lba (sb s))) BLOCK_BITMAP;
                    alloc_blocks s a (Suc block_idx) will all_blocks } }
      else Some (True, all_blocks, s))"
  by pat_completeness auto
termination
  by (relation "measure (\<lambda>(s, a, i, will, ab). will - i)") auto

declare alloc_blocks.simps [simp del]

definition read_table :: "fs \<Rightarrow> nat \<Rightarrow> nat list \<Rightarrow> nat list option" where
  "read_table s lba all_blocks =
     do { bs \<leftarrow> disk_read (disk s) lba 1; Some (take 12 all_blocks @ dec_words 128 bs) }"

definition write_table :: "fs \<Rightarrow> nat \<Rightarrow> nat list \<Rightarrow> fs option" where
  "write_table s lba all_blocks =
     do { d \<leftarrow> disk_write (disk s) lba (enc_words (drop 12 all_blocks)) 1; Some (s\<lparr>disk := d\<rparr>) }"

text \<open>Nothing to allocate: only the last block in use, or the whole table, is looked up.\<close>

definition write_same :: "fs \<Rightarrow> nat \<Rightarrow> nat \<Rightarrow> nat list \<Rightarrow> (bool \<times> nat list \<times> fs) option" where
  "write_same s a has all_blocks =
     (if has \<le> 12 then
        do { x \<leftarrow> get_sector s a (has - 1);
             all_blocks \<leftarrow> wr all_blocks (has - 1) x; Some (True, all_blocks, s) }
      else
        do { t \<leftarrow> get_sector s a 12; kassert (t \<noteq> 0);
             all_blocks \<leftarrow> read_table s t all_blocks; Some (True, all_blocks, s) })"

definition write_direct :: "fs \<Rightarrow> nat \<Rightarrow> nat \<Rightarrow> nat \<Rightarrow> nat list \<Rightarrow> (bool \<times> nat list \<times> fs) option" where
  "write_direct s a has will all_blocks =
     do { x \<leftarrow> get_sector s a (has - 1); kassert (x \<noteq> 0);
          all_blocks \<leftarrow> wr all_blocks (has - 1) x;
          alloc_blocks s a has will all_blocks }"

definition write_mixed :: "fs \<Rightarrow> nat \<Rightarrow> nat \<Rightarrow> nat \<Rightarrow> nat list \<Rightarrow> (bool \<times> nat list \<times> fs) option" where
  "write_mixed s a has will all_blocks =
     do { x \<leftarrow> get_sector s a (has - 1);
          all_blocks \<leftarrow> wr all_blocks (has - 1) x;
          (block_lba, s) \<leftarrow> block_bitmap_alloc s;
          if block_lba = - 1 then Some (False, all_blocks, s)
          else
            do { t \<leftarrow> get_sector s a 12; kassert (t = 0);
                 s \<leftarrow> set_sector s a 12 (nat block_lba);
                 (ok, all_blocks, s) \<leftarrow> alloc_blocks s a has will all_blocks;
                 if \<not> ok then Some (False, all_blocks, s)
                 else do { s \<leftarrow> write_table s (nat block_lba) all_blocks;
                           Some (True, all_blocks, s) } } }"

definition write_indirect :: "fs \<Rightarrow> nat \<Rightarrow> nat \<Rightarrow> nat \<Rightarrow> nat list \<Rightarrow> (bool \<times> nat list \<times> fs) option" where
  "write_indirect s a has will all_blocks =
     do { t \<leftarrow> get_sector s a 12; kassert (t \<noteq> 0);
          all_blocks \<leftarrow> read_table s t all_blocks;
          (ok, all_blocks, s) \<leftarrow> alloc_blocks s a has will all_blocks;
          if \<not> ok then Some (False, all_blocks, s)
          else do { s \<leftarrow> write_table s t all_blocks; Some (True, all_blocks, s) } }"

definition collect_write_blocks :: "fs \<Rightarrow> nat \<Rightarrow> nat \<Rightarrow> nat \<Rightarrow> nat list \<Rightarrow> (bool \<times> nat list \<times> fs) option" where
  "collect_write_blocks s a has will all_blocks =
     (if sub32 will has = 0 then write_same s a has all_blocks
      else if will \<le> 12 then write_direct s a has will all_blocks
      else if has \<le> 12 then write_mixed s a has will all_blocks
      else write_indirect s a has will all_blocks)"

text \<open>The loop that writes the data; \<open>src\<close> is what is left to write.\<close>

function write_loop :: "fs \<Rightarrow> nat \<Rightarrow> nat \<Rightarrow> nat list \<Rightarrow> u8 list \<Rightarrow> bool \<Rightarrow> fs option" where
  "write_loop s fi a all_blocks src first_write_block =
     (if src \<noteq> [] then
        do { ino \<leftarrow> inodes s a;
             sec_lba \<leftarrow> rd all_blocks (i_size ino div BLOCK_SIZE);
             let sec_off = i_size ino mod BLOCK_SIZE;
                 chunk_size = min (length src) (BLOCK_SIZE - sec_off) in
             do { io_buf \<leftarrow> (if first_write_block then disk_read (disk s) sec_lba 1
                               else Some (replicate BLOCK_SIZE 0));
                  io_buf \<leftarrow> wr_block io_buf sec_off (take chunk_size src);
                  d \<leftarrow> disk_write (disk s) sec_lba io_buf 1;
                  s \<leftarrow> upd_file (s\<lparr>disk := d,
                      inodes := (inodes s)(a \<mapsto> ino\<lparr>i_size := w32 (i_size ino + chunk_size)\<rparr>)\<rparr>) fi
                    (\<lambda>f. f\<lparr>fd_pos := fd_pos f + int chunk_size\<rparr>);
                  write_loop s fi a all_blocks (drop chunk_size src) False } }
      else Some s)"
  by pat_completeness auto
termination
  by (relation "measure (\<lambda>(s, fi, a, ab, src, fst). length src)") (auto simp: BLOCK_SIZE_def)

declare write_loop.simps [simp del]

definition file_write :: "fs \<Rightarrow> nat \<Rightarrow> u8 list \<Rightarrow> (int \<times> fs) option" where
  "file_write s fi buf =
     do { f \<leftarrow> rd (file_table s) fi;
          let a = fd_inode f; cnt = length buf in
          do { ino \<leftarrow> inodes s a;
               if w32 (i_size ino + cnt) > BLOCK_SIZE * 140 then Some (- 1, s)
               else let (io_buf, s) = kmalloc s in
                 if io_buf = 0 then Some (- 1, s)
                 else let (all_blocks, s) = kmalloc s in
                   if all_blocks = 0 then Some (- 1, s)
                   else
                     do { (ok, s) \<leftarrow> first_block s a;
                          if \<not> ok then Some (- 1, s)
                          else
                            let has = i_size ino div BLOCK_SIZE + 1;
                                will = w32 (i_size ino + cnt) div BLOCK_SIZE + 1 in
                            do { kassert (will \<le> 140);
                                 (ok, all_blocks, s) \<leftarrow> collect_write_blocks s a has will (replicate 140 0);
                                 if \<not> ok then Some (- 1, s)
                                 else
                                   do { s \<leftarrow> upd_file s fi (\<lambda>f. f\<lparr>fd_pos := int (i_size ino) - 1\<rparr>);
                                        s \<leftarrow> write_loop s fi a all_blocks buf True;
                                        ino \<leftarrow> inodes s a;
                                        s \<leftarrow> inode_sync s ino;
                                        Some (int cnt, s) } } } } }"

section \<open>Reading\<close>

text \<open>
  \<open>fd_pos\<close> is signed: it is converted to \<open>uint32_t\<close> where it meets an unsigned operand
  and divided with truncation where it meets \<open>BLOCK_SIZE\<close>.
\<close>

definition u32_of_int :: "int \<Rightarrow> nat" where
  "u32_of_int p = nat (p mod 4294967296)"

definition c_div :: "int \<Rightarrow> int \<Rightarrow> int" where
  "c_div p q = (if 0 \<le> p then p div q else - ((- p) div q))"

definition c_mod :: "int \<Rightarrow> int \<Rightarrow> int" where
  "c_mod p q = p - q * c_div p q"

fun copy_sectors :: "nat list \<Rightarrow> nat list \<Rightarrow> nat \<Rightarrow> nat \<Rightarrow> nat list option" where
  "copy_sectors all_blocks secs i 0 = Some all_blocks"
| "copy_sectors all_blocks secs i (Suc n) =
     do { x \<leftarrow> rd secs i; all_blocks \<leftarrow> wr all_blocks i x; copy_sectors all_blocks secs (Suc i) n }"

definition collect_read_blocks :: "fs \<Rightarrow> inode \<Rightarrow> nat \<Rightarrow> nat \<Rightarrow> nat list \<Rightarrow> nat list option" where
  "collect_read_blocks s ino start_idx end_idx all_blocks =
     do { t \<leftarrow> rd (i_sectors ino) 12;
          if sub32 start_idx end_idx = 0 then
            (if end_idx < 12 then copy_sectors all_blocks (i_sectors ino) end_idx 1
             else read_table s t all_blocks)
          else if end_idx < 12 then
            copy_sectors all_blocks (i_sectors ino) start_idx (end_idx + 1 - start_idx)
          else if start_idx < 12 then
            do { all_blocks \<leftarrow> copy_sectors all_blocks (i_sectors ino) start_idx (12 - start_idx);
                 kassert (t \<noteq> 0); read_table s t all_blocks }
          else do { kassert (t \<noteq> 0); read_table s t all_blocks } }"

function read_loop :: "fs \<Rightarrow> nat list \<Rightarrow> int \<Rightarrow> nat \<Rightarrow> u8 list \<Rightarrow> (u8 list \<times> int) option" where
  "read_loop s all_blocks pos size_left out =
     (if 0 < size_left then
        do { let sec_off = u32_of_int (c_mod pos 512);
                 chunk_size = min size_left (BLOCK_SIZE - sec_off) in
             do { kassert (0 \<le> c_div pos 512 \<and> sec_off < BLOCK_SIZE);
                  sec_lba \<leftarrow> rd all_blocks (nat (c_div pos 512));
                  io_buf \<leftarrow> disk_read (disk s) sec_lba 1;
                  bs \<leftarrow> rd_block io_buf sec_off chunk_size;
                  read_loop s all_blocks (pos + int chunk_size) (size_left - chunk_size) (out @ bs) } }
      else Some (out, pos))"
  by pat_completeness auto
termination
  by (relation "measure (\<lambda>(s, ab, pos, size_left, out). size_left)")
    (auto simp: BLOCK_SIZE_def kassert_def split: if_splits)

declare read_loop.simps [simp del]

definition file_read :: "fs \<Rightarrow> nat \<Rightarrow> nat \<Rightarrow> (int \<times> u8 list \<times> fs) option" where
  "file_read s fi cnt =
     do { f \<leftarrow> rd (file_table s) fi;
          ino \<leftarrow> inodes s (fd_inode f);
          let pos = u32_of_int (fd_pos f);
              over = i_size ino < w32 (pos + cnt);
              size = (if over then sub32 (i_size ino) pos else cnt) in
          if over \<and> size = 0 then Some (- 1, [], s)
          else
            let (io_buf, s) = kmalloc s; (all_blocks, s) = kmalloc s in
            if all_blocks = 0 then Some (- 1, [], s)
            else
              let start_idx = u32_of_int (c_div (fd_pos f) 512);
                  end_idx = w32 (pos + size) div BLOCK_SIZE in
              do { kassert (start_idx < 139 \<and> end_idx < 139);
                   ab \<leftarrow> collect_read_blocks s ino start_idx end_idx (replicate 140 0);
                   kassert (size = 0 \<or> io_buf \<noteq> 0);
                   (out, p) \<leftarrow> read_loop s ab (fd_pos f) size [];
                   s \<leftarrow> upd_file s fi (\<lambda>f. f\<lparr>fd_pos := p\<rparr>);
                   Some (int size, out, s) } }"

section \<open>Seeking\<close>

definition SEEK_SET :: int where "SEEK_SET = 1"
definition SEEK_CUR :: int where "SEEK_CUR = 2"
definition SEEK_END :: int where "SEEK_END = 3"

definition s32_of_nat :: "nat \<Rightarrow> int" where
  "s32_of_nat n = (if n < 2147483648 then int n else int n - 4294967296)"

definition disk_file_lseek :: "fs \<Rightarrow> nat \<Rightarrow> int \<Rightarrow> int \<Rightarrow> (int \<times> fs) option" where
  "disk_file_lseek s fi offset whence =
     do { kassert (0 < whence \<and> whence < 4);
          f \<leftarrow> rd (file_table s) fi;
          ino \<leftarrow> inodes s (fd_inode f);
          let file_size = s32_of_nat (i_size ino);
              new_pos = (if whence = SEEK_SET then offset
                         else if whence = SEEK_CUR then fd_pos f + offset
                         else file_size + offset) in
          if new_pos < 0 \<or> file_size - 1 < new_pos then Some (- 1, s)
          else do { s \<leftarrow> upd_file s fi (\<lambda>f. f\<lparr>fd_pos := new_pos\<rparr>); Some (new_pos, s) } }"

section \<open>The file table and the descriptors\<close>

lemma find_slot_spec:
  "find_slot ft i = Some k \<Longrightarrow> i \<le> MAX_FILE_OPEN \<Longrightarrow> i \<le> k \<and> k \<le> MAX_FILE_OPEN
     \<and> (k < MAX_FILE_OPEN \<longrightarrow> k < length ft \<and> fd_inode (ft ! k) = 0)
     \<and> (\<forall>j. i \<le> j \<longrightarrow> j < k \<longrightarrow> fd_inode (ft ! j) \<noteq> 0)"
proof (induction ft i rule: find_slot.induct)
  case (1 ft i)
  show ?case
  proof (cases "i < MAX_FILE_OPEN \<and> i < length ft \<and> fd_inode (ft ! i) \<noteq> 0")
    case True
    then have "find_slot ft (Suc i) = Some k" using 1(2) by (simp add: find_slot.simps [of ft i])
    with 1(1) True have h: "Suc i \<le> k" "k \<le> MAX_FILE_OPEN"
      "k < MAX_FILE_OPEN \<longrightarrow> k < length ft \<and> fd_inode (ft ! k) = 0"
      "\<forall>j. Suc i \<le> j \<longrightarrow> j < k \<longrightarrow> fd_inode (ft ! j) \<noteq> 0" by auto
    have "fd_inode (ft ! j) \<noteq> 0" if "i \<le> j" "j < k" for j
      using h(4) True that by (cases "j = i") auto
    with h show ?thesis by auto
  next
    case False
    with 1(2,3) show ?thesis by (auto simp: find_slot.simps [of ft i] rd_def split: if_splits)
  qed
qed

lemma find_slot_total: "length ft = MAX_FILE_OPEN \<Longrightarrow> \<exists>k. find_slot ft i = Some k"
proof (induction ft i rule: find_slot.induct)
  case (1 ft i)
  then show ?case by (cases "i < MAX_FILE_OPEN") (auto simp: find_slot.simps [of ft i])
qed

lemma find_fd_spec:
  "find_fd t i = Some k \<Longrightarrow> i \<le> 8 \<Longrightarrow> i \<le> k \<and> k \<le> 8
     \<and> (k < 8 \<longrightarrow> k < length t \<and> t ! k = - 1) \<and> (\<forall>j. i \<le> j \<longrightarrow> j < k \<longrightarrow> t ! j \<noteq> - 1)"
proof (induction t i rule: find_fd.induct)
  case (1 t i)
  show ?case
  proof (cases "i < 8 \<and> i < length t \<and> t ! i \<noteq> - 1")
    case True
    then have "find_fd t (Suc i) = Some k" using 1(2) by (simp add: find_fd.simps [of t i])
    with 1(1) True have h: "Suc i \<le> k" "k \<le> 8" "k < 8 \<longrightarrow> k < length t \<and> t ! k = - 1"
      "\<forall>j. Suc i \<le> j \<longrightarrow> j < k \<longrightarrow> t ! j \<noteq> - 1" by auto
    have "t ! j \<noteq> - 1" if "i \<le> j" "j < k" for j
      using h(4) True that by (cases "j = i") auto
    with h show ?thesis by auto
  next
    case False
    with 1(2,3) show ?thesis by (auto simp: find_fd.simps [of t i] rd_def split: if_splits)
  qed
qed

lemma find_fd_total: "length t = 8 \<Longrightarrow> \<exists>k. find_fd t i = Some k"
proof (induction t i rule: find_fd.induct)
  case (1 t i)
  then show ?case by (cases "i < 8") (auto simp: find_fd.simps [of t i])
qed

section \<open>The contents of a file\<close>

text \<open>Block \<open>k\<close> of a file, and byte \<open>i\<close> of its data.\<close>

definition blk_no :: "fs \<Rightarrow> inode \<Rightarrow> nat \<Rightarrow> nat" where
  "blk_no s ino k = (if k < 12 then i_sectors ino ! k
     else dec_words 128 (disk s (i_sectors ino ! 12)) ! (k - 12))"

definition file_byte :: "fs \<Rightarrow> inode \<Rightarrow> nat \<Rightarrow> u8" where
  "file_byte s ino i = disk s (blk_no s ino (i div 512)) ! (i mod 512)"

definition file_content :: "fs \<Rightarrow> inode \<Rightarrow> u8 list" where
  "file_content s ino = map (file_byte s ino) [0..<i_size ino]"

text \<open>A block that belongs to someone: in the data area and marked used.\<close>

definition taken :: "fs \<Rightarrow> nat \<Rightarrow> bool" where
  "taken s b \<longleftrightarrow> data_blk s b \<and> b - data_start_lba (sb s) \<in> used_bits (block_bitmap s)"

text \<open>
  The first \<open>n\<close> blocks of the file are taken and distinct, and nothing beyond them is set:
  the table exists exactly when there is an indirect block.
\<close>

definition blocks_ok :: "fs \<Rightarrow> inode \<Rightarrow> nat \<Rightarrow> bool" where
  "blocks_ok s ino n \<longleftrightarrow> n \<le> 140 \<and> length (i_sectors ino) = 13
     \<and> (\<forall>k < n. taken s (blk_no s ino k))
     \<and> (\<forall>j < n. \<forall>k < n. blk_no s ino j = blk_no s ino k \<longrightarrow> j = k)
     \<and> (\<forall>k. n \<le> k \<longrightarrow> k < 12 \<longrightarrow> i_sectors ino ! k = 0)
     \<and> (if 12 < n then taken s (i_sectors ino ! 12) \<and> (\<forall>k < n. blk_no s ino k \<noteq> i_sectors ino ! 12)
        else i_sectors ino ! 12 = 0)"

lemma blocks_ok_taken: "blocks_ok s ino n \<Longrightarrow> k < n \<Longrightarrow> taken s (blk_no s ino k)"
  by (simp add: blocks_ok_def)

definition used_blocks :: "inode \<Rightarrow> nat" where
  "used_blocks ino = (if i_sectors ino ! 0 = 0 then 0 else i_size ino div 512 + 1)"

definition file_ok :: "fs \<Rightarrow> inode \<Rightarrow> bool" where
  "file_ok s ino \<longleftrightarrow> blocks_ok s ino (used_blocks ino) \<and> (i_sectors ino ! 0 = 0 \<longrightarrow> i_size ino = 0)"

text \<open>
  The free bits of the block bitmap stand for sectors of the disk, and bit 0 (the root
  directory) is taken.
\<close>

definition bitmap_sound :: "fs \<Rightarrow> bool" where
  "bitmap_sound s \<longleftrightarrow> 0 \<in> used_bits (block_bitmap s)
     \<and> (\<forall>i < nbits (block_bitmap s). i \<notin> used_bits (block_bitmap s) \<longrightarrow> data_start_lba (sb s) + i \<le> max_lba)"

section \<open>Allocating blocks for a file\<close>

text \<open>
  \<open>grown s a B s'\<close>: the blocks \<open>B\<close>, free before, are taken now; beside that only the inode
  at \<open>a\<close> and sectors before the inode table may have changed.
\<close>

definition grown :: "fs \<Rightarrow> nat \<Rightarrow> nat set \<Rightarrow> fs \<Rightarrow> bool" where
  "grown s a B s' \<longleftrightarrow> (\<exists>bm d m. s' = s\<lparr>block_bitmap := bm, disk := d, inodes := m\<rparr>
     \<and> used_bits bm = used_bits (block_bitmap s) \<union> (\<lambda>b. b - data_start_lba (sb s)) ` B
     \<and> btmp_bytes_len bm = btmp_bytes_len (block_bitmap s)
     \<and> (\<forall>b \<in> B. data_blk s b \<and> \<not> taken s b)
     \<and> (\<forall>x. inode_table_lba (sb s) \<le> x \<longrightarrow> d x = disk s x)
     \<and> (\<forall>x. x \<noteq> a \<longrightarrow> m x = inodes s x)) \<and> fs_wf s' \<and> bitmap_sound s'"

lemma grownD:
  assumes "grown s a B s'"
  shows "fs_wf s'" "bitmap_sound s'" "sb s' = sb s" "file_table s' = file_table s"
    "alloc_ok s' = alloc_ok s" "allocs s' = allocs s"
    "used_bits (block_bitmap s') = used_bits (block_bitmap s) \<union> (\<lambda>b. b - data_start_lba (sb s)) ` B"
    "nbits (block_bitmap s') = nbits (block_bitmap s)"
    "\<And>x. inode_table_lba (sb s) \<le> x \<Longrightarrow> disk s' x = disk s x"
    "\<And>b. b \<in> B \<Longrightarrow> data_blk s b \<and> \<not> taken s b"
    "\<And>x. x \<noteq> a \<Longrightarrow> inodes s' x = inodes s x"
  using assms by (auto simp: grown_def)

lemma grown_data_blk: "grown s a B s' \<Longrightarrow> data_blk s' b = data_blk s b"
  by (auto simp: grown_def data_blk_def)

lemma grown_taken: "grown s a B s' \<Longrightarrow> taken s' b \<longleftrightarrow> taken s b \<or> b \<in> B"
proof -
  assume g: "grown s a B s'"
  have "x = b" if "x \<in> B" "data_blk s b" "b - data_start_lba (sb s) = x - data_start_lba (sb s)" for x
    using grownD(10) [OF g that(1)] that(2,3) by (auto simp: data_blk_def)
  then show ?thesis
    using grownD(3,7) [OF g] grownD(10) [OF g] by (auto simp: taken_def grown_data_blk [OF g])
qed

lemma grown_trans:
  assumes "grown s a A s1" and "grown s1 a B s2"
  shows "grown s a (A \<union> B) s2"
proof -
  have B: "data_blk s b \<and> \<not> taken s b" if "b \<in> B" for b
    using grownD(10) [OF assms(2) that] grown_taken [OF assms(1), of b] grown_data_blk [OF assms(1), of b]
    by auto
  from assms(1) obtain bm d m where 1: "s1 = s\<lparr>block_bitmap := bm, disk := d, inodes := m\<rparr>"
    by (auto simp: grown_def)
  from assms(2) obtain bm' d' m' where 2: "s2 = s1\<lparr>block_bitmap := bm', disk := d', inodes := m'\<rparr>"
    by (auto simp: grown_def)
  show ?thesis unfolding grown_def
    by (rule conjI, rule exI [of _ bm'], rule exI [of _ d'], rule exI [of _ m'])
      (use 1 2 grownD [OF assms(1)] grownD [OF assms(2)] B in auto)
qed

lemma grown_refl: "fs_wf s \<Longrightarrow> bitmap_sound s \<Longrightarrow> grown s a {} s"
  by (auto simp: grown_def intro!: exI [of _ "block_bitmap s"] exI [of _ "disk s"] exI [of _ "inodes s"])

lemma grown_inode:
  assumes g: "grown s a B s'"
  shows "grown s a B (s'\<lparr>inodes := (inodes s')(a := x)\<rparr>)"
proof -
  from g obtain bm d m where 1: "s' = s\<lparr>block_bitmap := bm, disk := d, inodes := m\<rparr>"
    by (auto simp: grown_def)
  have "bitmap_sound (s'\<lparr>inodes := (inodes s')(a := x)\<rparr>)"
    using grownD(2) [OF g] by (simp add: bitmap_sound_def)
  then show ?thesis unfolding grown_def
    by (intro conjI exI [of _ bm] exI [of _ d] exI [of _ "m(a := x)"])
      (use 1 grownD [OF g] in auto)
qed

text \<open>The free bit a file block is allocated from.\<close>

definition free_bits :: "fs \<Rightarrow> nat" where
  "free_bits s = nbits (block_bitmap s) - card (used_bits (block_bitmap s))"

lemma used_bits_bound: "used_bits b \<subseteq> {..<nbits b}"
  by (auto simp: used_bits_def)

lemma alloc_one:
  assumes wf: "fs_wf s" and sound: "bitmap_sound s" and free: "0 < free_bits s"
  shows "\<exists>b s1. block_bitmap_alloc s = Some (int b, s1) \<and> data_blk s b \<and> \<not> taken s b
    \<and> s1 = s\<lparr>block_bitmap := block_bitmap s1\<rparr> \<and> grown s a {b} s1 \<and> free_bits s1 = free_bits s - 1"
proof -
  let ?bm = "block_bitmap s"
  have "\<exists>i < nbits ?bm. i \<notin> used_bits ?bm"
  proof (rule ccontr)
    assume "\<not> ?thesis"
    then have "used_bits ?bm = {..<nbits ?bm}" using used_bits_bound by blast
    with free show False by (simp add: free_bits_def)
  qed
  with fs_wfD(3) [OF wf] obtain i bm where t: "bitmap_take ?bm = Some (i, bm)"
    using bitmap_pool.alloc_progress by blast
  note h = bitmap_pool.alloc_spec [OF fs_wfD(3) [OF wf] t]
  from t obtain r where r: "bitmap_scan ?bm 1 = Some r" "bitmap_set ?bm (nat r) 1 = Some bm" "i = nat r"
    by (auto simp: bitmap_take_def outcome_simps)
  with scan_one_cases [OF r(1)] have sc: "bitmap_scan ?bm 1 = Some (int i)"
    and st: "bitmap_set ?bm i 1 = Some bm" by auto
  let ?b = "data_start_lba (sb s) + i"
  let ?s = "s\<lparr>block_bitmap := bm\<rparr>"
  have al: "block_bitmap_alloc s = Some (int ?b, ?s)"
    using sc st by (simp add: block_bitmap_alloc_def)
  have "i \<noteq> 0"
  proof
    assume "i = 0"
    with h sound show False by (simp add: bitmap_sound_def)
  qed
  then have db: "data_blk s ?b" "\<not> taken s ?b"
    using h sound by (auto simp: data_blk_def taken_def bitmap_sound_def)
  have snd: "bitmap_sound ?s" using h sound by (auto simp: bitmap_sound_def)
  have "grown s a {?b} ?s"
    unfolding grown_def
    by (rule conjI, rule exI [of _ bm], rule exI [of _ "disk s"], rule exI [of _ "inodes s"])
      (use h db snd fs_wf_bitmap(1) [OF wf st] in auto)
  moreover have "finite (used_bits ?bm)" using used_bits_bound finite_subset by blast
  then have "card (used_bits bm) = Suc (card (used_bits ?bm))" using h by simp
  then have "free_bits ?s = free_bits s - 1" using h by (simp add: free_bits_def)
  ultimately show ?thesis using al db by (intro exI [of _ ?b] exI [of _ ?s]) auto
qed

lemma sync_grown:
  assumes g: "grown s a B s1" and b: "data_blk s b" 
  shows "\<exists>d. bitmap_sync s1 (sub32 b (data_start_lba (sb s))) BLOCK_BITMAP = Some (s1\<lparr>disk := d\<rparr>)
    \<and> grown s a B (s1\<lparr>disk := d\<rparr>)"
proof -
  let ?i = "b - data_start_lba (sb s)"
  note wf = grownD(1) [OF g]
  have "data_blk s1 b" using b grown_data_blk [OF g] by simp
  then have i: "?i < nbits (bitmap_of s1 BLOCK_BITMAP)"
    using grownD(3) [OF g] by (auto simp: data_blk_def bitmap_of_def)
  have su: "sub32 b (data_start_lba (sb s)) = ?i"
    using sub32_data [OF wf \<open>data_blk s1 b\<close>] grownD(3) [OF g] by simp
  let ?d = "(disk s1)(bitmap_lba s1 BLOCK_BITMAP ?i := bitmap_sector s1 BLOCK_BITMAP ?i)"
  note sy = bitmap_sync_spec [OF wf i]
  have "fs_wf (s1\<lparr>disk := ?d\<rparr>)" using sy wf by simp
  moreover have "bitmap_sound (s1\<lparr>disk := ?d\<rparr>)" using grownD(2) [OF g] by (simp add: bitmap_sound_def)
  moreover from g obtain bm d0 m where 1: "s1 = s\<lparr>block_bitmap := bm, disk := d0, inodes := m\<rparr>"
    by (auto simp: grown_def)
  ultimately have "grown s a B (s1\<lparr>disk := ?d\<rparr>)"
    unfolding grown_def
    by (intro conjI exI [of _ bm] exI [of _ ?d] exI [of _ m])
      (use sy grownD [OF g] in \<open>auto simp: 1\<close>)
  with sy su show ?thesis by auto
qed

lemma free_bits_update [simp]:
  "free_bits (s\<lparr>disk := d\<rparr>) = free_bits s" "free_bits (s\<lparr>inodes := m\<rparr>) = free_bits s"
  by (simp_all add: free_bits_def)

text \<open>One turn of the loop: a new block, entered in the inode when it is a direct one.\<close>

lemma alloc_step:
  assumes "fs_wf s" "bitmap_sound s" "0 < free_bits s"
    and ino: "inodes s a = Some ino" "length (i_sectors ino) = 13" and i: "i < 12 \<Longrightarrow> i_sectors ino ! i = 0"
  shows "\<exists>b s1 s2 s3. block_bitmap_alloc s = Some (int b, s1)
    \<and> (if i < 12 then do { x \<leftarrow> get_sector s1 a i; kassert (x = 0); set_sector s1 a i b }
       else Some s1) = Some s2
    \<and> bitmap_sync s2 (sub32 b (data_start_lba (sb s2))) BLOCK_BITMAP = Some s3
    \<and> data_blk s b \<and> \<not> taken s b \<and> grown s a {b} s3
    \<and> inodes s3 a = Some (ino\<lparr>i_sectors := (if i < 12 then (i_sectors ino)[i := b] else i_sectors ino)\<rparr>)
    \<and> free_bits s3 = free_bits s - 1 \<and> sb s2 = sb s"
proof -
  from alloc_one [OF assms(1-3)] obtain b s1 where b: "block_bitmap_alloc s = Some (int b, s1)"
    "data_blk s b" "\<not> taken s b" "s1 = s\<lparr>block_bitmap := block_bitmap s1\<rparr>" "free_bits s1 = free_bits s - 1"
    and g1: "grown s a {b} s1" by metis
  have i1: "inodes s1 a = Some ino" using ino(1) by (subst b(4)) simp
  define s2 where "s2 = (if i < 12 then s1\<lparr>inodes := (inodes s1)(a := Some (ino\<lparr>i_sectors := (i_sectors ino)[i := b]\<rparr>))\<rparr> else s1)"
  have r2: "(if i < 12 then do { x \<leftarrow> get_sector s1 a i; kassert (x = 0); set_sector s1 a i b }
       else Some s1) = Some s2"
    using i1 ino(2) i by (auto simp: s2_def get_sector_def set_sector_def)
  have g2: "grown s a {b} s2" using g1 by (simp add: s2_def grown_inode)
  from sync_grown [OF g2 b(2)] obtain d where
    d: "bitmap_sync s2 (sub32 b (data_start_lba (sb s))) BLOCK_BITMAP = Some (s2\<lparr>disk := d\<rparr>)"
    "grown s a {b} (s2\<lparr>disk := d\<rparr>)" by blast
  have "sb s2 = sb s" using grownD(3) [OF g2] by simp
  moreover have "inodes (s2\<lparr>disk := d\<rparr>) a
      = Some (ino\<lparr>i_sectors := (if i < 12 then (i_sectors ino)[i := b] else i_sectors ino)\<rparr>)"
    using i1 by (simp add: s2_def)
  moreover have "free_bits (s2\<lparr>disk := d\<rparr>) = free_bits s - 1" using b(5) by (simp add: s2_def)
  ultimately show ?thesis using b d r2
    by (intro exI [of _ b] exI [of _ s1] exI [of _ s2] exI [of _ "s2\<lparr>disk := d\<rparr>"]) simp
qed

lemma alloc_blocks_spec:
  "fs_wf s \<Longrightarrow> bitmap_sound s \<Longrightarrow> inodes s a = Some ino \<Longrightarrow> length (i_sectors ino) = 13 \<Longrightarrow>
   length ab = 140 \<Longrightarrow> i \<le> will \<Longrightarrow> will \<le> 140 \<Longrightarrow> will - i \<le> free_bits s \<Longrightarrow>
   (\<forall>k. i \<le> k \<longrightarrow> k < will \<longrightarrow> k < 12 \<longrightarrow> i_sectors ino ! k = 0) \<Longrightarrow>
   \<exists>ns ab' secs s'. alloc_blocks s a i will ab = Some (True, ab', s') \<and> length ns = will - i \<and> distinct ns
     \<and> grown s a (set ns) s' \<and> inodes s' a = Some (ino\<lparr>i_sectors := secs\<rparr>) \<and> length secs = 13
     \<and> (\<forall>k < 13. secs ! k = (if i \<le> k \<and> k < will \<and> k < 12 then ns ! (k - i) else i_sectors ino ! k))
     \<and> length ab' = 140 \<and> (\<forall>k < 140. ab' ! k = (if i \<le> k \<and> k < will then ns ! (k - i) else ab ! k))"
proof (induction "will - i" arbitrary: s i ab ino)
  case 0
  then have "i = will" by simp
  then have "alloc_blocks s a i will ab = Some (True, ab, s)" by (subst alloc_blocks.simps) simp
  with 0 \<open>i = will\<close> show ?case
    by (intro exI [of _ "[]"] exI [of _ ab] exI [of _ "i_sectors ino"] exI [of _ s])
      (simp add: grown_refl)
next
  case (Suc n)
  then have lt: "i < will" by simp
  have pos: "0 < free_bits s" and z: "i < 12 \<Longrightarrow> i_sectors ino ! i = 0" using Suc.prems lt by auto
  from alloc_step [OF Suc.prems(1,2) pos Suc.prems(3,4) z] obtain b s1 s2 s3 where
    b: "block_bitmap_alloc s = Some (int b, s1)"
    "(if i < 12 then do { x \<leftarrow> get_sector s1 a i; kassert (x = 0); set_sector s1 a i b }
       else Some s1) = Some s2"
    "bitmap_sync s2 (sub32 b (data_start_lba (sb s2))) BLOCK_BITMAP = Some s3"
    "data_blk s b" "\<not> taken s b" and g: "grown s a {b} s3"
    and i3: "inodes s3 a = Some (ino\<lparr>i_sectors := (if i < 12 then (i_sectors ino)[i := b] else i_sectors ino)\<rparr>)"
    and f3: "free_bits s3 = free_bits s - 1" by blast
  let ?ino = "ino\<lparr>i_sectors := (if i < 12 then (i_sectors ino)[i := b] else i_sectors ino)\<rparr>"
  have "\<exists>ns ab' secs s'. alloc_blocks s3 a (Suc i) will (ab[i := b]) = Some (True, ab', s')
     \<and> length ns = will - Suc i \<and> distinct ns
     \<and> grown s3 a (set ns) s' \<and> inodes s' a = Some (?ino\<lparr>i_sectors := secs\<rparr>) \<and> length secs = 13
     \<and> (\<forall>k < 13. secs ! k = (if Suc i \<le> k \<and> k < will \<and> k < 12 then ns ! (k - Suc i) else i_sectors ?ino ! k))
     \<and> length ab' = 140
     \<and> (\<forall>k < 140. ab' ! k = (if Suc i \<le> k \<and> k < will then ns ! (k - Suc i) else ab[i := b] ! k))"
    by (rule Suc.hyps(1)) (use Suc.hyps(2) Suc.prems lt i3 f3 grownD(1,2) [OF g] in auto)
  then obtain ns ab' secs s' where r: "alloc_blocks s3 a (Suc i) will (ab[i := b]) = Some (True, ab', s')"
    "length ns = will - Suc i" "distinct ns" and g': "grown s3 a (set ns) s'"
    and r2: "inodes s' a = Some (?ino\<lparr>i_sectors := secs\<rparr>)" "length secs = 13"
    "\<forall>k < 13. secs ! k = (if Suc i \<le> k \<and> k < will \<and> k < 12 then ns ! (k - Suc i) else i_sectors ?ino ! k)"
    "length ab' = 140"
    "\<forall>k < 140. ab' ! k = (if Suc i \<le> k \<and> k < will then ns ! (k - Suc i) else ab[i := b] ! k)" by blast
  have "alloc_blocks s a i will ab = Some (True, ab', s')"
    using b r(1) lt Suc.prems(5,7) by (subst alloc_blocks.simps) (simp cong: if_cong)
  moreover have "b \<notin> set ns" using grownD(10) [OF g', of b] grown_taken [OF g, of b] by auto
  moreover have "grown s a (set (b # ns)) s'" using grown_trans [OF g g'] by simp
  moreover have "\<forall>k < 13. secs ! k = (if i \<le> k \<and> k < will \<and> k < 12 then (b # ns) ! (k - i) else i_sectors ino ! k)"
    using r2(3) lt Suc.prems(4) by (auto simp: nth_Cons' nth_list_update One_nat_def)
  moreover have "\<forall>k < 140. ab' ! k = (if i \<le> k \<and> k < will then (b # ns) ! (k - i) else ab ! k)"
    using r2(5) lt Suc.prems(5) by (auto simp: nth_Cons' nth_list_update One_nat_def)
  ultimately show ?case using r r2 lt
    by (intro exI [of _ "b # ns"] exI [of _ ab'] exI [of _ secs] exI [of _ s']) auto
qed

section \<open>Collecting the blocks to write\<close>

text \<open>
  \<open>kept s a W s'\<close>: layout and invariants stay, taken blocks stay taken, and those outside
  \<open>W\<close> keep their contents, as do the sectors of the inode table; of the inodes in memory only
  the one at \<open>a\<close> may differ. \<open>kept_data\<close> says the same without the inode table.
\<close>

definition kept_data :: "fs \<Rightarrow> nat \<Rightarrow> nat set \<Rightarrow> fs \<Rightarrow> bool" where
  "kept_data s a W s' \<longleftrightarrow> fs_wf s' \<and> bitmap_sound s' \<and> sb s' = sb s \<and> start_lba s' = start_lba s
     \<and> sec_cnt s' = sec_cnt s \<and> alloc_ok s' = alloc_ok s \<and> inode_bitmap s' = inode_bitmap s
     \<and> open_inodes s' = open_inodes s \<and> (\<forall>b. taken s b \<longrightarrow> taken s' b)
     \<and> (\<forall>b. taken s b \<longrightarrow> b \<notin> W \<longrightarrow> disk s' b = disk s b) \<and> (\<forall>x. x \<noteq> a \<longrightarrow> inodes s' x = inodes s x)"

definition table_kept :: "fs \<Rightarrow> fs \<Rightarrow> bool" where
  "table_kept s s' \<longleftrightarrow> (\<forall>x. inode_table_lba (sb s) \<le> x \<longrightarrow> x < data_start_lba (sb s) \<longrightarrow> disk s' x = disk s x)"

definition kept :: "fs \<Rightarrow> nat \<Rightarrow> nat set \<Rightarrow> fs \<Rightarrow> bool" where
  "kept s a W s' \<longleftrightarrow> kept_data s a W s' \<and> table_kept s s'"

lemmas kept_defs = kept_def kept_data_def table_kept_def

lemma kept_refl: "fs_wf s \<Longrightarrow> bitmap_sound s \<Longrightarrow> kept s a W s"
  by (simp add: kept_defs)

lemma kept_trans: "kept s a W s1 \<Longrightarrow> kept s1 a W s2 \<Longrightarrow> kept s a W s2"
  by (auto simp: kept_defs)

lemma kept_mono: "kept s a W s' \<Longrightarrow> W \<subseteq> W' \<Longrightarrow> kept s a W' s'"
  by (auto simp: kept_defs)

lemma data_beyond_table: "fs_wf s \<Longrightarrow> data_blk s b \<Longrightarrow> inode_table_lba (sb s) \<le> b"
  by (auto simp: fs_wf_def data_blk_def)

lemma grown_kept: 
  assumes g: "grown s a B s'" and "fs_wf s"
  shows "kept s a W s'"
proof -
  from g obtain bm d m where "s' = s\<lparr>block_bitmap := bm, disk := d, inodes := m\<rparr>"
    by (auto simp: grown_def)
  then have "start_lba s' = start_lba s" "sec_cnt s' = sec_cnt s" "inode_bitmap s' = inode_bitmap s"
    "open_inodes s' = open_inodes s" by simp_all
  moreover have "disk s' b = disk s b" if "taken s b" for b
    using grownD(9) [OF g] data_beyond_table [OF assms(2), of b] that by (simp add: taken_def)
  ultimately show ?thesis
    using grownD [OF g] grown_taken [OF g] by (simp add: kept_defs)
qed

lemma taken_bounds: "taken s b \<Longrightarrow> b \<noteq> 0 \<and> b \<le> max_lba \<and> b < 4294967296"
  by (auto simp: taken_def data_blk_def max_lba_eq)

lemma taken_disk [simp]: "taken (s\<lparr>disk := d\<rparr>) b = taken s b"
  by (simp add: taken_def data_blk_def)

lemma read_table_eq:
  "t \<le> max_lba \<Longrightarrow> read_table s t ab = Some (take 12 ab @ dec_words 128 (disk s t))"
  by (simp add: read_table_def sector_read ide_ok_small)

lemma write_table_eq:
  assumes "t \<le> max_lba" and "length ab = 140" and "\<forall>x \<in> set (drop 12 ab). x < 4294967296"
  shows "write_table s t ab = Some (s\<lparr>disk := (disk s)(t := enc_words (drop 12 ab))\<rparr>)
    \<and> dec_words 128 (enc_words (drop 12 ab)) = drop 12 ab"
proof -
  have "length (drop 12 ab) = 128" using assms(2) by simp
  then show ?thesis
    using dec_words_enc_words [OF assms(3), of "[]"] assms(1)
    by (simp add: write_table_def sector_write ide_ok_small)
qed

lemma kept_table:
  assumes k: "kept s a W s1" and "taken s1 t" and "t \<in> W \<or> \<not> taken s t" and "length bs = 512"
  shows "kept s a W (s1\<lparr>disk := (disk s1)(t := bs)\<rparr>)"
proof -
  have wf: "fs_wf s1" using k by (simp add: kept_defs)
  have "disk_ok ((disk s1)(t := bs))" using fs_wfD(1) [OF wf] assms(4) by (simp add: disk_ok_def)
  with wf have "fs_wf (s1\<lparr>disk := (disk s1)(t := bs)\<rparr>)" by simp
  moreover have "bitmap_sound s1" using k by (simp add: kept_defs)
  then have "bitmap_sound (s1\<lparr>disk := (disk s1)(t := bs)\<rparr>)" by (simp add: bitmap_sound_def)
  moreover have "data_start_lba (sb s) \<le> t" using assms(2) k by (simp add: taken_def data_blk_def kept_defs)
  ultimately show ?thesis using k assms(3) by (auto simp: kept_defs)
qed

lemma blocks_extend:
  assumes old: "blocks_ok s ino has" and n: "has \<le> will" "will \<le> 140"
    and ns: "length ns = will - has" "distinct ns" "\<forall>b \<in> set ns. \<not> taken s b \<and> taken s' b"
    and mono: "\<forall>b. taken s b \<longrightarrow> taken s' b"
    and eq: "\<forall>k < will. blk_no s' ino' k = (if k < has then blk_no s ino k else ns ! (k - has))"
    and len: "length (i_sectors ino') = 13" and z: "\<forall>k. will \<le> k \<longrightarrow> k < 12 \<longrightarrow> i_sectors ino' ! k = 0"
    and t: "if 12 < will then taken s' (i_sectors ino' ! 12) \<and> i_sectors ino' ! 12 \<notin> set ns
        \<and> (\<forall>k < has. blk_no s ino k \<noteq> i_sectors ino' ! 12) else i_sectors ino' ! 12 = 0"
  shows "blocks_ok s' ino' will"
proof -
  have o: "\<And>k. k < has \<Longrightarrow> taken s (blk_no s ino k)"
    "\<And>j k. j < has \<Longrightarrow> k < has \<Longrightarrow> blk_no s ino j = blk_no s ino k \<Longrightarrow> j = k"
    using old by (auto simp: blocks_ok_def)
  have new: "k < will \<Longrightarrow> \<not> k < has \<Longrightarrow> ns ! (k - has) \<in> set ns" for k using ns(1) by simp
  have "taken s' (blk_no s' ino' k)" if "k < will" for k
    using eq that o(1) mono new [OF that] ns(3) by auto
  moreover have "j = k" if j: "j < will" and k: "k < will" and e: "blk_no s' ino' j = blk_no s' ino' k" for j k
  proof -
    consider "j < has" "k < has" | "j < has" "\<not> k < has" | "\<not> j < has" "k < has" | "\<not> j < has" "\<not> k < has"
      by blast
    then show ?thesis
    proof cases
      case 1
      with o(2) e eq j k show ?thesis by auto
    next
      case 2
      with o(1) [of j] ns(3) new [OF k] e eq j k show ?thesis by auto
    next
      case 3
      with o(1) [of k] ns(3) new [OF j] e eq j k show ?thesis by auto
    next
      case 4
      then have "ns ! (j - has) = ns ! (k - has)" using e eq j k by simp
      with ns(1,2) 4 j k have "j - has = k - has" by (simp add: nth_eq_iff_index_eq)
      with 4 show ?thesis by simp
    qed
  qed
  moreover have "\<forall>k < will. blk_no s' ino' k \<noteq> i_sectors ino' ! 12" if "12 < will"
  proof (intro allI impI)
    fix k assume k: "k < will"
    show "blk_no s' ino' k \<noteq> i_sectors ino' ! 12"
    proof (cases "k < has")
      case True
      with t that eq k show ?thesis by simp
    next
      case False
      with new [OF k] t that eq k show ?thesis by auto
    qed
  qed
  ultimately show ?thesis using n(2) len z t by (auto simp: blocks_ok_def)
qed

text \<open>What the collection has to establish for the data loop.\<close>

definition collected :: "fs \<Rightarrow> nat \<Rightarrow> inode \<Rightarrow> nat \<Rightarrow> nat \<Rightarrow> nat list \<Rightarrow> fs \<Rightarrow> bool" where
  "collected s a ino has will ab s' \<longleftrightarrow>
     (\<exists>secs. inodes s' a = Some (ino\<lparr>i_sectors := secs\<rparr>) \<and> blocks_ok s' (ino\<lparr>i_sectors := secs\<rparr>) will
        \<and> (\<forall>k < has. blk_no s' (ino\<lparr>i_sectors := secs\<rparr>) k = blk_no s ino k)
        \<and> (\<forall>k. has - 1 \<le> k \<longrightarrow> k < will \<longrightarrow> ab ! k = blk_no s' (ino\<lparr>i_sectors := secs\<rparr>) k)
        \<and> (\<forall>k. has \<le> k \<longrightarrow> k < will \<longrightarrow> \<not> taken s (blk_no s' (ino\<lparr>i_sectors := secs\<rparr>) k))
        \<and> (\<forall>x \<in> set secs. x < 4294967296))
     \<and> length ab = 140 \<and> kept s a {i_sectors ino ! 12} s'
     \<and> file_table s' = file_table s \<and> alloc_ok s' = alloc_ok s \<and> allocs s' = allocs s"

definition sectors_ok :: "inode \<Rightarrow> bool" where
  "sectors_ok ino \<longleftrightarrow> length (i_sectors ino) = 13 \<and> (\<forall>x \<in> set (i_sectors ino). x < 4294967296)"

lemma collect_same:
  assumes "fs_wf s" "bitmap_sound s" and ino: "inodes s a = Some ino" "sectors_ok ino"
    and ok: "blocks_ok s ino has" and "0 < has"
  shows "\<exists>ab s'. write_same s a has (replicate 140 0) = Some (True, ab, s') \<and> collected s a ino has has ab s'"
proof -
  have len: "length (i_sectors ino) = 13" and h: "has \<le> 140" using ok by (auto simp: blocks_ok_def)
  have secs: "ino\<lparr>i_sectors := i_sectors ino\<rparr> = ino" by simp
  show ?thesis
  proof (cases "has \<le> 12")
    case True
    let ?ab = "(replicate 140 0)[has - 1 := i_sectors ino ! (has - 1)]"
    have "write_same s a has (replicate 140 0) = Some (True, ?ab, s)"
      using True ino len by (simp add: write_same_def get_sector_def)
    moreover have "?ab ! k = blk_no s ino k" if "has - 1 \<le> k" "k < has" for k
    proof -
      have "k = has - 1" using that by linarith
      moreover have "has - 1 < 12" using True \<open>0 < has\<close> by linarith
      ultimately show ?thesis by (simp add: blk_no_def)
    qed
    ultimately show ?thesis using assms
      by (auto simp: collected_def kept_refl sectors_ok_def intro!: exI [of _ "i_sectors ino"])
  next
    case False
    then have t: "taken s (i_sectors ino ! 12)" using ok by (simp add: blocks_ok_def)
    let ?ab = "replicate 12 0 @ dec_words 128 (disk s (i_sectors ino ! 12))"
    have "write_same s a has (replicate 140 0) = Some (True, ?ab, s)"
      using False ino len taken_bounds [OF t] by (simp add: write_same_def get_sector_def read_table_eq)
    moreover have "?ab ! k = blk_no s ino k" if "has - 1 \<le> k" for k
      using that False by (auto simp: blk_no_def nth_append)
    ultimately show ?thesis using assms
      by (auto simp: collected_def kept_refl sectors_ok_def intro!: exI [of _ "i_sectors ino"])
  qed
qed

lemma secs_bounded:
  assumes "length secs = 13" and "\<forall>k < 13. secs ! k \<in> A \<union> set old"
    and "\<forall>x \<in> set old. x < 4294967296" and "\<forall>b \<in> A. b < (4294967296 :: nat)"
  shows "\<forall>x \<in> set secs. x < 4294967296"
  using assms by (fastforce simp: in_set_conv_nth)

lemma collect_direct:
  assumes wf: "fs_wf s" "bitmap_sound s" and ino: "inodes s a = Some ino" "sectors_ok ino"
    and ok: "blocks_ok s ino has" and n: "0 < has" "has \<le> will" "will \<le> 12" and free: "will - has \<le> free_bits s"
  shows "\<exists>ab s'. write_direct s a has will (replicate 140 0) = Some (True, ab, s')
    \<and> collected s a ino has will ab s'"
proof -
  have len: "length (i_sectors ino) = 13" using ok by (simp add: blocks_ok_def)
  let ?x = "i_sectors ino ! (has - 1)"
  have h1: "has - 1 < 12" using n by linarith
  have "blk_no s ino (has - 1) = ?x" using h1 by (simp add: blk_no_def)
  moreover have "taken s (blk_no s ino (has - 1))" using ok n(1) by (simp add: blocks_ok_def)
  ultimately have x: "?x \<noteq> 0" using taken_bounds by metis
  let ?ab = "(replicate 140 0)[has - 1 := ?x]"
  have z: "\<forall>k. has \<le> k \<longrightarrow> k < will \<longrightarrow> k < 12 \<longrightarrow> i_sectors ino ! k = 0" using ok by (simp add: blocks_ok_def)
  have w140: "will \<le> 140" using n by simp
  from alloc_blocks_spec [OF wf ino(1) len _ n(2) w140 free z, of ?ab] obtain ns ab secs s' where
    r: "alloc_blocks s a has will ?ab = Some (True, ab, s')" "length ns = will - has" "distinct ns"
    and g: "grown s a (set ns) s'" and r2: "inodes s' a = Some (ino\<lparr>i_sectors := secs\<rparr>)" "length secs = 13"
    "\<forall>k < 13. secs ! k = (if has \<le> k \<and> k < will \<and> k < 12 then ns ! (k - has) else i_sectors ino ! k)"
    "length ab = 140" "\<forall>k < 140. ab ! k = (if has \<le> k \<and> k < will then ns ! (k - has) else ?ab ! k)"
    by auto
  let ?ino = "ino\<lparr>i_sectors := secs\<rparr>"
  have run: "write_direct s a has will (replicate 140 0) = Some (True, ab, s')"
    using r(1) x ino len h1 by (simp add: write_direct_def get_sector_def)
  have ns: "\<forall>b \<in> set ns. \<not> taken s b \<and> taken s' b"
    using grownD(10) [OF g] grown_taken [OF g] by blast
  have eq: "\<forall>k < will. blk_no s' ?ino k = (if k < has then blk_no s ino k else ns ! (k - has))"
    using r2(3) n(3) by (simp add: blk_no_def)
  have bl: "blocks_ok s' ?ino will"
    by (rule blocks_extend [OF ok n(2) w140 r(2,3) ns _ eq])
      (use grown_taken [OF g] r2 n ok in \<open>auto simp: blocks_ok_def\<close>)
  have old: "\<forall>x \<in> set (i_sectors ino). x < 4294967296" using ino(2) by (simp add: sectors_ok_def)
  have "\<forall>x \<in> set secs. x < 4294967296"
    by (rule secs_bounded [OF r2(2) _ old, of "set ns"])
      (use r2(3) len r(2) ns taken_bounds in auto)
  moreover have "ab ! k = blk_no s' ?ino k" if "has - 1 \<le> k" "k < will" for k
  proof (cases "has \<le> k")
    case True
    with that eq r2(5) n(3) show ?thesis by simp
  next
    case False
    then have k: "k = has - 1" "k < has" using that by linarith+
    have "ab ! k = ?x" using r2(5) False n h1 by (simp add: k(1))
    moreover have "blk_no s' ?ino k = blk_no s ino k" using eq that k(2) by simp
    then have "blk_no s' ?ino k = ?x" using k h1 by (simp add: blk_no_def)
    ultimately show ?thesis by simp
  qed
  moreover have "\<not> taken s (blk_no s' ?ino k)" if "has \<le> k" "k < will" for k
    using that eq ns r(2) by simp
  ultimately show ?thesis
    using run bl r2(1,4) eq n(2) grown_kept [OF g wf(1)] grownD(4-6) [OF g]
    by (intro exI [of _ ab] exI [of _ s']) (auto simp: collected_def intro!: exI [of _ secs])
qed

lemma collect_indirect:
  assumes wf: "fs_wf s" "bitmap_sound s" and ino: "inodes s a = Some ino" "sectors_ok ino"
    and ok: "blocks_ok s ino has" and n: "12 < has" "has \<le> will" "will \<le> 140" and free: "will - has \<le> free_bits s"
  shows "\<exists>ab s'. write_indirect s a has will (replicate 140 0) = Some (True, ab, s')
    \<and> collected s a ino has will ab s'"
proof -
  let ?t = "i_sectors ino ! 12"
  have len: "length (i_sectors ino) = 13" and t: "taken s ?t" "\<forall>k < has. blk_no s ino k \<noteq> ?t"
    using ok n(1) by (simp_all add: blocks_ok_def)
  let ?ab = "replicate 12 0 @ dec_words 128 (disk s ?t)"
  have z: "\<forall>k. has \<le> k \<longrightarrow> k < will \<longrightarrow> k < 12 \<longrightarrow> i_sectors ino ! k = 0" using n(1) by simp
  from alloc_blocks_spec [OF wf ino(1) len _ n(2,3) free z, of ?ab] obtain ns ab secs s' where
    r: "alloc_blocks s a has will ?ab = Some (True, ab, s')" "length ns = will - has" "distinct ns"
    and g: "grown s a (set ns) s'" and r2: "inodes s' a = Some (ino\<lparr>i_sectors := secs\<rparr>)" "length secs = 13"
    "\<forall>k < 13. secs ! k = (if has \<le> k \<and> k < will \<and> k < 12 then ns ! (k - has) else i_sectors ino ! k)"
    "length ab = 140" "\<forall>k < 140. ab ! k = (if has \<le> k \<and> k < will then ns ! (k - has) else ?ab ! k)"
    by auto
  have "secs = i_sectors ino" by (rule nth_equalityI) (use r2(2,3) len n(1) in auto)
  then have i': "inodes s' a = Some ino" using r2(1) by simp
  have ns: "\<forall>b \<in> set ns. \<not> taken s b \<and> taken s' b"
    using grownD(10) [OF g] grown_taken [OF g] by blast
  have small: "\<forall>x \<in> set (drop 12 ab). x < 4294967296"
  proof
    fix x assume "x \<in> set (drop 12 ab)"
    then obtain k where k: "k < 128" "x = ab ! (k + 12)" using r2(4) by (auto simp: in_set_conv_nth add.commute)
    show "x < 4294967296"
    proof (cases "has \<le> k + 12 \<and> k + 12 < will")
      case True
      with k r2(5) have "x = ns ! (k + 12 - has)" by simp
      moreover have "k + 12 - has < length ns" using True r(2) by linarith
      ultimately have "x \<in> set ns" by simp
      with ns taken_bounds show ?thesis by blast
    next
      case False
      with k r2(5) have "x = dec_words 128 (disk s ?t) ! k" by (auto simp: nth_append)
      with k(1) have "x \<in> set (dec_words 128 (disk s ?t))" by simp
      then show ?thesis by (rule dec_words_less)
    qed
  qed
  have tm: "?t \<le> max_lba" "?t \<noteq> 0" using taken_bounds [OF t(1)] by auto
  note wt = write_table_eq [OF tm(1) r2(4) small, of s']
  let ?s = "s'\<lparr>disk := (disk s')(?t := enc_words (drop 12 ab))\<rparr>"
  have run: "write_indirect s a has will (replicate 140 0) = Some (True, ab, ?s)"
    using r(1) wt tm ino len by (simp add: write_indirect_def get_sector_def read_table_eq)
  have kept: "kept s a {?t} ?s"
    by (rule kept_table [OF grown_kept [OF g wf(1)]]) (use grown_taken [OF g] t(1) r2(4) in auto)
  have blk: "blk_no ?s ino k = (if k < 12 then i_sectors ino ! k else ab ! k)" if "k < 140" for k
    using wt r2(4) that by (simp add: blk_no_def)
  have eq: "\<forall>k < will. blk_no ?s ino k = (if k < has then blk_no s ino k else ns ! (k - has))"
  proof (intro allI impI)
    fix k assume k: "k < will"
    show "blk_no ?s ino k = (if k < has then blk_no s ino k else ns ! (k - has))"
    proof (cases "k < 12")
      case True
      with k n show ?thesis by (subst blk) (auto simp: blk_no_def)
    next
      case False
      with k n r2(5) show ?thesis by (subst blk) (auto simp: blk_no_def nth_append)
    qed
  qed
  have tn: "?t \<notin> set ns" using ns t(1) by blast
  have bl: "blocks_ok ?s ino will"
    by (rule blocks_extend [OF ok n(2,3) r(2,3) _ _ eq])
      (use ns grown_taken [OF g] n ok t tn len in auto)
  have "ab ! k = blk_no ?s ino k" if "has - 1 \<le> k" "k < will" for k
  proof -
    have "\<not> k < 12" "k < 140" using that n by linarith+
    with blk show ?thesis by simp
  qed
  moreover have "\<not> taken s (blk_no ?s ino k)" if "has \<le> k" "k < will" for k
    using that eq ns r(2) by simp
  ultimately show ?thesis
    using run bl i' r2(4) eq n(2) kept grownD(4-6) [OF g] ino(2)
    by (intro exI [of _ ab] exI [of _ ?s])
      (auto simp: collected_def sectors_ok_def intro!: exI [of _ "i_sectors ino"])
qed

lemma collect_mixed:
  assumes wf: "fs_wf s" "bitmap_sound s" and ino: "inodes s a = Some ino" "sectors_ok ino"
    and ok: "blocks_ok s ino has" and n: "0 < has" "has \<le> 12" "12 < will" "will \<le> 140"
    and free: "will - has + 1 \<le> free_bits s"
  shows "\<exists>ab s'. write_mixed s a has will (replicate 140 0) = Some (True, ab, s')
    \<and> collected s a ino has will ab s'"
proof -
  have len: "length (i_sectors ino) = 13" and t0: "i_sectors ino ! 12 = 0" using ok n by (simp_all add: blocks_ok_def)
  let ?x = "i_sectors ino ! (has - 1)"
  have h1: "has - 1 < 12" using n by linarith
  let ?ab = "(replicate 140 0)[has - 1 := ?x]"
  have "0 < free_bits s" using free n by simp
  from alloc_one [OF wf this] obtain t s1 where t: "block_bitmap_alloc s = Some (int t, s1)"
    "data_blk s t" "\<not> taken s t" "s1 = s\<lparr>block_bitmap := block_bitmap s1\<rparr>" "free_bits s1 = free_bits s - 1"
    and g1: "grown s a {t} s1" by metis
  have i1: "inodes s1 a = Some ino" using ino(1) by (subst t(4)) simp
  define ino2 where "ino2 = ino\<lparr>i_sectors := (i_sectors ino)[12 := t]\<rparr>"
  define s2 where "s2 = s1\<lparr>inodes := (inodes s1)(a := Some ino2)\<rparr>"
  have set: "get_sector s1 a 12 = Some 0" "set_sector s1 a 12 t = Some s2"
    using i1 len t0 by (simp_all add: get_sector_def set_sector_def s2_def ino2_def)
  have g2: "grown s a {t} s2" using g1 by (simp add: s2_def grown_inode)
  have i2: "inodes s2 a = Some ino2" and len2: "length (i_sectors ino2) = 13" using len by (simp_all add: s2_def ino2_def)
  have le: "has \<le> will" using n by simp
  have fr2: "will - has \<le> free_bits s2" using free t(5) by (simp add: s2_def)
  have z: "\<forall>k. has \<le> k \<longrightarrow> k < will \<longrightarrow> k < 12 \<longrightarrow> i_sectors ino2 ! k = 0"
    using ok by (simp add: blocks_ok_def ino2_def)
  from alloc_blocks_spec [OF grownD(1,2) [OF g2] i2 len2 _ le n(4) fr2 z, of ?ab] obtain ns ab secs s' where
    r: "alloc_blocks s2 a has will ?ab = Some (True, ab, s')" "length ns = will - has" "distinct ns"
    and g3: "grown s2 a (set ns) s'" and r2: "inodes s' a = Some (ino2\<lparr>i_sectors := secs\<rparr>)" "length secs = 13"
    "\<forall>k < 13. secs ! k = (if has \<le> k \<and> k < will \<and> k < 12 then ns ! (k - has) else i_sectors ino2 ! k)"
    "length ab = 140" "\<forall>k < 140. ab ! k = (if has \<le> k \<and> k < will then ns ! (k - has) else ?ab ! k)"
    by auto
  let ?ino = "ino\<lparr>i_sectors := secs\<rparr>"
  have ie: "ino2\<lparr>i_sectors := secs\<rparr> = ?ino" by (simp add: ino2_def)
  have st: "secs ! 12 = t" using r2(3) len by (simp add: ino2_def)
  have g: "grown s a (insert t (set ns)) s'" using grown_trans [OF g2 g3] by simp
  have tns: "t \<notin> set ns" using grownD(10) [OF g3] grown_taken [OF g2, of t] by blast
  have ns: "\<forall>b \<in> set ns. \<not> taken s b \<and> taken s' b"
    using grownD(10) [OF g] grown_taken [OF g] by blast
  have tt: "taken s' t" using grown_taken [OF g] by simp
  have small: "\<forall>x \<in> set (drop 12 ab). x < 4294967296"
  proof
    fix x assume "x \<in> set (drop 12 ab)"
    then obtain k where k: "k < 128" "x = ab ! (k + 12)" using r2(4) by (auto simp: in_set_conv_nth add.commute)
    show "x < 4294967296"
    proof (cases "k + 12 < will")
      case True
      then have "x = ns ! (k + 12 - has)" using k r2(5) n by simp
      moreover have "k + 12 - has < length ns" using True r(2) n by linarith
      ultimately have "x \<in> set ns" by simp
      with ns taken_bounds show ?thesis by blast
    next
      case False
      with k r2(5) h1 show ?thesis by simp
    qed
  qed
  have tm: "t \<le> max_lba" using taken_bounds [OF tt] by auto
  note wt = write_table_eq [OF tm r2(4) small, of s']
  let ?s = "s'\<lparr>disk := (disk s')(t := enc_words (drop 12 ab))\<rparr>"
  have run: "write_mixed s a has will (replicate 140 0) = Some (True, ab, ?s)"
    using r(1) wt t(1) set ino len h1 by (simp add: write_mixed_def) (simp add: get_sector_def)
  have kept: "kept s a {i_sectors ino ! 12} ?s"
    by (rule kept_table [OF grown_kept [OF g wf(1)] tt]) (use t(3) r2(4) in auto)
  have blk: "blk_no ?s ?ino k = (if k < 12 then secs ! k else ab ! k)" if "k < 140" for k
    using wt r2(4) that st by (simp add: blk_no_def)
  have secs12: "secs ! k = (if has \<le> k then ns ! (k - has) else i_sectors ino ! k)" if "k < 12" for k
    using r2(3) that n by (simp add: ino2_def)
  have eq: "\<forall>k < will. blk_no ?s ?ino k = (if k < has then blk_no s ino k else ns ! (k - has))"
  proof (intro allI impI)
    fix k assume k: "k < will"
    show "blk_no ?s ?ino k = (if k < has then blk_no s ino k else ns ! (k - has))"
    proof (cases "k < 12")
      case True
      with k n secs12 show ?thesis by (subst blk) (auto simp: blk_no_def)
    next
      case False
      with k n r2(5) show ?thesis by (subst blk) auto
    qed
  qed
  have told: "\<forall>k < has. blk_no s ino k \<noteq> t" using ok t(3) by (auto simp: blocks_ok_def)
  have bl: "blocks_ok ?s ?ino will"
    by (rule blocks_extend [OF ok le n(4) r(2,3) _ _ eq])
      (use ns grown_taken [OF g] n tt tns told r2(2) st in auto)
  have old: "\<forall>x \<in> set (i_sectors ino). x < 4294967296" using ino(2) by (simp add: sectors_ok_def)
  have "secs ! k \<in> insert t (set ns) \<union> set (i_sectors ino)" if "k < 13" for k
  proof (cases "k < 12")
    case True
    have "ns ! (k - has) \<in> set ns" if "has \<le> k" using True that r(2) n by simp
    then show ?thesis using secs12 [OF True] len True by auto
  next
    case False
    with that have "k = 12" by simp
    with st show ?thesis by simp
  qed
  then have "\<forall>x \<in> set secs. x < 4294967296"
    by (intro secs_bounded [OF r2(2) _ old, of "insert t (set ns)"]) (use ns tt taken_bounds in auto)
  moreover have "ab ! k = blk_no ?s ?ino k" if "has - 1 \<le> k" "k < will" for k
  proof (cases "has \<le> k")
    case True
    with that eq r2(5) n show ?thesis by simp
  next
    case False
    then have k: "k = has - 1" "k < has" using that by linarith+
    have "ab ! k = ?x" using r2(5) False n h1 by (simp add: k(1))
    moreover have "blk_no ?s ?ino k = blk_no s ino k" using eq that k(2) by simp
    then have "blk_no ?s ?ino k = ?x" using k h1 by (simp add: blk_no_def)
    ultimately show ?thesis by simp
  qed
  moreover have "\<not> taken s (blk_no ?s ?ino k)" if "has \<le> k" "k < will" for k
    using that eq ns r(2) by simp
  ultimately show ?thesis
    using run bl r2(1,4) ie eq le kept grownD(4-6) [OF g]
    by (intro exI [of _ ab] exI [of _ ?s]) (auto simp: collected_def intro!: exI [of _ secs])
qed

lemma collect_write_blocks_spec:
  assumes wf: "fs_wf s" "bitmap_sound s" and ino: "inodes s a = Some ino" "sectors_ok ino"
    and ok: "blocks_ok s ino has" and n: "0 < has" "has \<le> will" "will \<le> 140"
    and free: "will - has + (if has \<le> 12 \<and> 12 < will then 1 else 0) \<le> free_bits s"
  shows "\<exists>ab s'. collect_write_blocks s a has will (replicate 140 0) = Some (True, ab, s')
    \<and> collected s a ino has will ab s'"
proof -
  have su: "sub32 will has = will - has" using n by (intro sub32_le) auto
  consider "will = has" | "has < will" "will \<le> 12" | "has < will" "12 < will" "has \<le> 12"
    | "has < will" "12 < has" using n(2) by linarith
  then show ?thesis
  proof cases
    case 1
    with collect_same [OF wf ino ok n(1)] su show ?thesis by (simp add: collect_write_blocks_def)
  next
    case 2
    with collect_direct [OF wf ino ok n(1,2)] free su show ?thesis
      by (simp add: collect_write_blocks_def)
  next
    case 3
    with collect_mixed [OF wf ino ok n(1) 3(3,2) n(3)] free su show ?thesis
      by (simp add: collect_write_blocks_def)
  next
    case 4
    with collect_indirect [OF wf ino ok 4(2) n(2,3)] free su show ?thesis
      by (simp add: collect_write_blocks_def)
  qed
qed

section \<open>The data loop\<close>

lemma blk_no_frame:
  assumes "blocks_ok s ino n" and "12 < n \<Longrightarrow> disk s' (i_sectors ino ! 12) = disk s (i_sectors ino ! 12)"
    and "i_sectors ino' = i_sectors ino" and "k < n"
  shows "blk_no s' ino' k = blk_no s ino k"
  using assms by (auto simp: blk_no_def)

lemma blocks_ok_frame:
  assumes ok: "blocks_ok s ino n" and d: "12 < n \<Longrightarrow> disk s' (i_sectors ino ! 12) = disk s (i_sectors ino ! 12)"
    and i: "i_sectors ino' = i_sectors ino" and t: "\<And>b. taken s b \<Longrightarrow> taken s' b"
  shows "blocks_ok s' ino' n"
  using ok t blk_no_frame [OF ok d i] i unfolding blocks_ok_def by (auto split: if_splits)

lemma div_mod_chunk:
  assumes "i \<le> j" "j < i + c" "i mod 512 + c \<le> (512 :: nat)"
  shows "j div 512 = i div 512" "j mod 512 = i mod 512 + (j - i)"
proof -
  have e: "j = 512 * (i div 512) + (i mod 512 + (j - i))"
    using assms(1) div_mult_mod_eq [of i 512] by linarith
  have l: "i mod 512 + (j - i) < 512" using assms by linarith
  have "j div 512 = (i mod 512 + (j - i) + i div 512 * 512) div 512"
    using e by (simp add: mult.commute add.commute)
  then show "j div 512 = i div 512" using l by (simp only: div_mult_self1) simp
  have "j mod 512 = (i mod 512 + (j - i) + i div 512 * 512) mod 512"
    using e by (simp add: mult.commute add.commute)
  then show "j mod 512 = i mod 512 + (j - i)" using l by (simp only: mod_mult_self1) simp
qed

text \<open>One sector: the bytes from the end of the file on are replaced.\<close>

lemma write_chunk:
  assumes wf: "fs_wf s" and ok: "blocks_ok s ino n" and k: "i_size ino div 512 < n"
    and first: "first \<or> i_size ino mod 512 = 0"
    and c: "c = length bs" "i_size ino mod 512 + c \<le> 512"
  defines "b \<equiv> blk_no s ino (i_size ino div 512)"
  shows "\<exists>buf buf'. (if first then disk_read (disk s) b 1 else Some (replicate BLOCK_SIZE 0)) = Some buf
    \<and> wr_block buf (i_size ino mod 512) bs = Some buf' \<and> length buf' = 512
    \<and> disk_write (disk s) b buf' 1 = Some ((disk s)(b := buf'))
    \<and> disk_ok ((disk s)(b := buf'))
    \<and> (12 < n \<longrightarrow> b \<noteq> i_sectors ino ! 12)
    \<and> (\<forall>s' ino' j. disk s' = (disk s)(b := buf') \<longrightarrow> i_sectors ino' = i_sectors ino \<longrightarrow> j < i_size ino + c
        \<longrightarrow> file_byte s' ino' j = (if j < i_size ino then file_byte s ino j else bs ! (j - i_size ino)))"
proof -
  let ?i = "i_size ino"
  have tk: "taken s b" using ok k by (simp add: b_def blocks_ok_def)
  then have bm: "ide_ok b 1" using taken_bounds by (simp add: ide_ok_small)
  let ?buf = "if first then disk s b else replicate BLOCK_SIZE 0"
  have lb: "length ?buf = 512" using fs_wfD(1) [OF wf] by (simp add: disk_ok_def BLOCK_SIZE_def)
  have rd: "(if first then disk_read (disk s) b 1 else Some (replicate BLOCK_SIZE 0)) = Some ?buf"
    using sector_read [OF bm] by simp
  have "?i mod 512 + length bs \<le> length ?buf" using c lb by linarith
  then obtain buf' where w: "wr_block ?buf (?i mod 512) bs = Some buf'" by (simp add: wr_block_def)
  then have lb': "length buf' = 512" using wr_block_length lb by metis
  have bt: "12 < n \<longrightarrow> b \<noteq> i_sectors ino ! 12" using ok k by (auto simp: b_def blocks_ok_def)
  have bytes: "file_byte s' ino' j = (if j < ?i then file_byte s ino j else bs ! (j - ?i))"
    if s': "disk s' = (disk s)(b := buf')" "i_sectors ino' = i_sectors ino" and j: "j < ?i + c" for s' ino' j
  proof -
    have jn: "j div 512 \<le> ?i div 512"
    proof (cases "j < ?i")
      case True
      then show ?thesis by (simp add: div_le_mono)
    next
      case False
      with div_mod_chunk(1) [of ?i j c] j c(2) show ?thesis by simp
    qed
    have blk: "blk_no s' ino' (j div 512) = blk_no s ino (j div 512)"
      by (rule blk_no_frame [OF ok _ s'(2)]) (use s'(1) bt jn k in auto)
    have fb: "file_byte s' ino' j = ((disk s)(b := buf')) (blk_no s ino (j div 512)) ! (j mod 512)"
      using blk s'(1) by (simp add: file_byte_def)
    show ?thesis
    proof (cases "j < ?i")
      case True
      show ?thesis
      proof (cases "j div 512 = ?i div 512")
        case same: True
        have lt: "j mod 512 < ?i mod 512" using True same
          by (metis div_less_mono div_mult_mod_eq nat_add_left_cancel_less)
        then have "first" using first by auto
        moreover have "buf' ! (j mod 512) = ?buf ! (j mod 512)"
          using nth_wr_block [OF w, of "j mod 512"] lb lt by simp
        ultimately show ?thesis using fb same True by (simp add: file_byte_def b_def [symmetric])
      next
        case False
        then have "blk_no s ino (j div 512) \<noteq> b" using ok k jn
          by (auto simp: blocks_ok_def b_def)
        with fb True show ?thesis by (simp add: file_byte_def)
      qed
    next
      case False
      note dm = div_mod_chunk [of ?i j c, OF _ j c(2)]
      have jm: "j mod 512 = ?i mod 512 + (j - ?i)" using dm(2) False by simp
      have "j - ?i < length bs" using j c(1) False by linarith
      then have w1: "?i mod 512 \<le> j mod 512" "j mod 512 < ?i mod 512 + length bs"
        "j mod 512 - ?i mod 512 = j - ?i" using jm by linarith+
      have "j mod 512 < length ?buf" using lb by simp
      from nth_wr_block [OF w this] w1 have "buf' ! (j mod 512) = bs ! (j - ?i)" by simp
      with fb dm(1) False show ?thesis by (simp add: b_def [symmetric])
    qed
  qed
  have "disk_ok ((disk s)(b := buf'))" using fs_wfD(1) [OF wf] lb' by (simp add: disk_ok_def)
  then show ?thesis using rd w lb' sector_write [OF bm lb'] bt bytes by blast
qed

lemma kept_disk_write:
  assumes "fs_wf s" "bitmap_sound s" and "disk_ok ((disk s)(b := bs))" and "b \<in> W" and "data_start_lba (sb s) \<le> b"
  shows "kept s a W (s\<lparr>disk := (disk s)(b := bs), inodes := (inodes s)(a := x), file_table := ft\<rparr>)"
proof -
  have "taken (s\<lparr>disk := d, inodes := m, file_table := ft\<rparr>) c = taken s c" for d m c
    by (simp add: taken_def data_blk_def)
  moreover have "bitmap_sound (s\<lparr>disk := d, inodes := m, file_table := ft\<rparr>)" for d m
    using assms(2) by (simp add: bitmap_sound_def)
  ultimately show ?thesis using assms by (simp add: kept_defs)
qed

lemma write_loop_spec:
  "fs_wf s \<Longrightarrow> bitmap_sound s \<Longrightarrow> inodes s a = Some ino \<Longrightarrow> blocks_ok s ino n \<Longrightarrow>
   (src \<noteq> [] \<Longrightarrow> (i_size ino + length src) div 512 < n) \<Longrightarrow>
   (\<forall>k. i_size ino div 512 \<le> k \<longrightarrow> k < n \<longrightarrow> ab ! k = blk_no s ino k) \<Longrightarrow> length ab = 140 \<Longrightarrow>
   i_size ino + length src < 4294967296 \<Longrightarrow> fi < length (file_table s) \<Longrightarrow>
   first \<or> i_size ino mod 512 = 0 \<or> src = [] \<Longrightarrow>
   \<exists>s'. write_loop s fi a ab src first = Some s'
     \<and> kept s a {blk_no s ino k | k. i_size ino div 512 \<le> k \<and> k < n} s'
     \<and> inodes s' a = Some (ino\<lparr>i_size := i_size ino + length src\<rparr>)
     \<and> blocks_ok s' ino n \<and> (\<forall>k < n. blk_no s' ino k = blk_no s ino k)
     \<and> (\<forall>j < i_size ino + length src. file_byte s' ino j =
          (if j < i_size ino then file_byte s ino j else src ! (j - i_size ino)))
     \<and> file_table s' = (file_table s)[fi := (file_table s ! fi)\<lparr>fd_pos := fd_pos (file_table s ! fi) + int (length src)\<rparr>]
     \<and> block_bitmap s' = block_bitmap s \<and> alloc_ok s' = alloc_ok s \<and> allocs s' = allocs s"
proof (induction "length src" arbitrary: s ino src first rule: less_induct)
  case less
  let ?i = "i_size ino"
  let ?W = "{blk_no s ino k | k. ?i div 512 \<le> k \<and> k < n}"
  show ?case
  proof (cases "src = []")
    case True
    have "(file_table s)[fi := file_table s ! fi] = file_table s" by simp
    then show ?thesis using less.prems True
      by (intro exI [of _ s]) (simp add: write_loop.simps kept_refl)
  next
    case False
    define c where "c = min (length src) (512 - ?i mod 512)"
    have modlt: "?i mod 512 < 512" by simp
    have cpos: "0 < c" "c \<le> length src" "?i mod 512 + c \<le> 512" using False modlt by (auto simp: c_def)
    have kn: "?i div 512 < n" using less.prems(5) [OF False] div_le_mono [of ?i "?i + length src" 512] by linarith
    define b where "b = blk_no s ino (?i div 512)"
    have lc: "c = length (take c src)" using cpos by simp
    have fst0: "first \<or> ?i mod 512 = 0" using less.prems(10) False by simp
    from write_chunk [OF less.prems(1,4) kn fst0 lc cpos(3)] obtain buf buf' where
      w: "(if first then disk_read (disk s) b 1 else Some (replicate BLOCK_SIZE 0)) = Some buf"
      "wr_block buf (?i mod 512) (take c src) = Some buf'" "length buf' = 512"
      "disk_write (disk s) b buf' 1 = Some ((disk s)(b := buf'))" "disk_ok ((disk s)(b := buf'))"
      "12 < n \<longrightarrow> b \<noteq> i_sectors ino ! 12"
      "\<forall>s' ino' j. disk s' = (disk s)(b := buf') \<longrightarrow> i_sectors ino' = i_sectors ino \<longrightarrow> j < ?i + c
        \<longrightarrow> file_byte s' ino' j = (if j < ?i then file_byte s ino j else take c src ! (j - ?i))"
      unfolding b_def by blast
    note bytes = w(7) [rule_format]
    define ino1 where "ino1 = ino\<lparr>i_size := ?i + c\<rparr>"
    define ft1 where "ft1 = (file_table s)[fi := (file_table s ! fi)\<lparr>fd_pos := fd_pos (file_table s ! fi) + int c\<rparr>]"
    define s1 where "s1 = s\<lparr>disk := (disk s)(b := buf'), inodes := (inodes s)(a := Some ino1), file_table := ft1\<rparr>"
    have "b \<in> ?W" using kn by (auto simp: b_def)
    moreover have "data_start_lba (sb s) \<le> b"
      using blocks_ok_taken [OF less.prems(4) kn] by (simp add: b_def taken_def data_blk_def)
    ultimately have k1: "kept s a ?W s1" unfolding s1_def
      by (intro kept_disk_write less.prems(1,2) w(5))
    have wm: "w32 (?i + c) = ?i + c" using less.prems(8) cpos(2) by simp
    have abk: "ab ! (?i div 512) = b" using less.prems(6) kn by (simp add: b_def)
    have k140: "?i div 512 < 140" using kn less.prems(4) by (simp add: blocks_ok_def)
    have run: "write_loop s fi a ab src first = write_loop s1 fi a ab (drop c src) False"
      using False less.prems(3,7,9) abk k140 w wm
      by (subst write_loop.simps)
        (simp add: Let_def BLOCK_SIZE_def [symmetric] c_def [symmetric] upd_file_def s1_def ft1_def ino1_def,
          simp add: BLOCK_SIZE_def c_def)
    have d1: "disk s1 = (disk s)(b := buf')" by (simp add: s1_def)
    have fr: "12 < n \<Longrightarrow> disk s1 (i_sectors ino ! 12) = disk s (i_sectors ino ! 12)" using w(6) by (simp add: d1)
    have i1: "i_sectors ino1 = i_sectors ino" by (simp add: ino1_def)
    have ok1: "blocks_ok s1 ino1 n"
      by (rule blocks_ok_frame [OF less.prems(4) fr i1]) (simp_all add: s1_def taken_def data_blk_def)
    have bn1: "blk_no s1 ino1 k = blk_no s ino k" if "k < n" for k
      by (rule blk_no_frame [OF less.prems(4) fr i1 that])
    have mono: "?i div 512 \<le> (?i + c) div 512" by (simp add: div_le_mono)
    have last: "(?i + c) mod 512 = 0 \<or> drop c src = []"
    proof (cases "c = length src")
      case False
      then have c2: "c = 512 - ?i mod 512" by (simp add: c_def min_def split: if_splits)
      have "(?i + c) mod 512 = (?i mod 512 + c) mod 512" by (metis mod_add_left_eq)
      also have "\<dots> = 0" using c2 modlt by simp
      finally show ?thesis by simp
    qed simp
    have "\<exists>s'. write_loop s1 fi a ab (drop c src) False = Some s'
     \<and> kept s1 a {blk_no s1 ino1 k | k. i_size ino1 div 512 \<le> k \<and> k < n} s'
     \<and> inodes s' a = Some (ino1\<lparr>i_size := i_size ino1 + length (drop c src)\<rparr>)
     \<and> blocks_ok s' ino1 n \<and> (\<forall>k < n. blk_no s' ino1 k = blk_no s1 ino1 k)
     \<and> (\<forall>j < i_size ino1 + length (drop c src). file_byte s' ino1 j =
          (if j < i_size ino1 then file_byte s1 ino1 j else drop c src ! (j - i_size ino1)))
     \<and> file_table s' = (file_table s1)[fi := (file_table s1 ! fi)\<lparr>fd_pos := fd_pos (file_table s1 ! fi) + int (length (drop c src))\<rparr>]
     \<and> block_bitmap s' = block_bitmap s1 \<and> alloc_ok s' = alloc_ok s1 \<and> allocs s' = allocs s1"
    proof (rule less.hyps)
      show "length (drop c src) < length src" using cpos by simp
      show "fs_wf s1" "bitmap_sound s1" using k1 by (auto simp: kept_defs)
      show "inodes s1 a = Some ino1" by (simp add: s1_def)
      show "blocks_ok s1 ino1 n" by (rule ok1)
      show "(i_size ino1 + length (drop c src)) div 512 < n"
        using less.prems(5) [OF False] cpos(2) by (simp add: ino1_def)
      show "\<forall>k. i_size ino1 div 512 \<le> k \<longrightarrow> k < n \<longrightarrow> ab ! k = blk_no s1 ino1 k"
        using less.prems(6) bn1 mono by (auto simp: ino1_def)
      show "length ab = 140" by (rule less.prems(7))
      show "i_size ino1 + length (drop c src) < 4294967296" using less.prems(8) cpos(2) by (simp add: ino1_def)
      show "fi < length (file_table s1)" using less.prems(9) by (simp add: s1_def ft1_def)
      show "False \<or> i_size ino1 mod 512 = 0 \<or> drop c src = []" using last by (simp add: ino1_def)
    qed
    then obtain s' where r: "write_loop s1 fi a ab (drop c src) False = Some s'"
     "kept s1 a {blk_no s1 ino1 k | k. i_size ino1 div 512 \<le> k \<and> k < n} s'"
     "inodes s' a = Some (ino1\<lparr>i_size := i_size ino1 + length (drop c src)\<rparr>)"
     "blocks_ok s' ino1 n" "\<forall>k < n. blk_no s' ino1 k = blk_no s1 ino1 k"
     "\<forall>j < i_size ino1 + length (drop c src). file_byte s' ino1 j =
          (if j < i_size ino1 then file_byte s1 ino1 j else drop c src ! (j - i_size ino1))"
     "file_table s' = (file_table s1)[fi := (file_table s1 ! fi)\<lparr>fd_pos := fd_pos (file_table s1 ! fi) + int (length (drop c src))\<rparr>]"
     "block_bitmap s' = block_bitmap s1" "alloc_ok s' = alloc_ok s1" "allocs s' = allocs s1" by blast
    have sz: "i_size ino1 = ?i + c" by (simp add: ino1_def)
    have ie: "blk_no s'' ino1 = blk_no s'' ino" "file_byte s'' ino1 = file_byte s'' ino"
      "blocks_ok s'' ino1 = blocks_ok s'' ino" for s''
      using i1 by (auto simp: blk_no_def file_byte_def blocks_ok_def fun_eq_iff)
    have W: "{blk_no s1 ino1 k | k. i_size ino1 div 512 \<le> k \<and> k < n} \<subseteq> ?W"
      using bn1 mono by (auto simp: sz)
    note k2 = kept_mono [OF r(2) W]
    have "file_byte s' ino j = (if j < ?i then file_byte s ino j else src ! (j - ?i))"
      if j: "j < ?i + length src" for j
    proof -
      have e: "file_byte s' ino j = (if j < ?i + c then file_byte s1 ino j else drop c src ! (j - (?i + c)))"
        using r(6) j cpos(2) by (simp add: sz ie)
      show ?thesis
      proof (cases "j < ?i + c")
        case True
        with e bytes [OF d1 refl True] show ?thesis by auto
      next
        case nlt: False
        then have "c + (j - (?i + c)) = j - ?i" by simp
        with e nlt cpos(2) show ?thesis by simp
      qed
    qed
    moreover have "inodes s' a = Some (ino\<lparr>i_size := ?i + length src\<rparr>)"
      using r(3) cpos(2) by (simp add: ino1_def)
    moreover have "file_table s' = (file_table s)[fi := (file_table s ! fi)\<lparr>fd_pos := fd_pos (file_table s ! fi) + int (length src)\<rparr>]"
      using r(7) less.prems(9) cpos(2) by (simp add: s1_def ft1_def)
    moreover have "\<forall>k < n. blk_no s' ino k = blk_no s ino k" using r(5) bn1 by (simp add: ie)
    ultimately show ?thesis
      using run r(1,4,8-10) kept_trans [OF k1 k2] by (intro exI [of _ s']) (simp add: ie s1_def)
  qed
qed

section \<open>The whole write\<close>

lemma kept_trans_new:
  assumes "kept s a W s1" and "kept s1 a V s2" and "\<And>b. taken s b \<Longrightarrow> b \<in> V \<Longrightarrow> b \<in> W"
  shows "kept s a W s2"
proof -
  have "disk s2 b = disk s b" if "taken s b" "b \<notin> W" for b
    using assms that by (auto simp: kept_defs)
  with assms(1,2) show ?thesis by (simp add: kept_defs)
qed

lemma first_block_spec:
  assumes wf: "fs_wf s" "bitmap_sound s" and ino: "inodes s a = Some ino" "sectors_ok ino"
    and ok: "file_ok s ino" and free: "i_sectors ino ! 0 = 0 \<Longrightarrow> 0 < free_bits s"
  shows "\<exists>s1 secs. first_block s a = Some (True, s1) \<and> inodes s1 a = Some (ino\<lparr>i_sectors := secs\<rparr>)
    \<and> sectors_ok (ino\<lparr>i_sectors := secs\<rparr>) \<and> blocks_ok s1 (ino\<lparr>i_sectors := secs\<rparr>) (i_size ino div 512 + 1)
    \<and> kept s a W s1 \<and> file_table s1 = file_table s \<and> alloc_ok s1 = alloc_ok s \<and> allocs s1 = allocs s
    \<and> free_bits s1 = free_bits s - (if i_sectors ino ! 0 = 0 then 1 else 0)
    \<and> secs ! 12 = i_sectors ino ! 12 \<and> secs ! 0 \<noteq> 0
    \<and> (\<forall>k < used_blocks ino. blk_no s1 (ino\<lparr>i_sectors := secs\<rparr>) k = blk_no s ino k)
    \<and> (\<forall>k. used_blocks ino \<le> k \<longrightarrow> k < i_size ino div 512 + 1 \<longrightarrow>
         \<not> taken s (blk_no s1 (ino\<lparr>i_sectors := secs\<rparr>) k))"
proof (cases "i_sectors ino ! 0 = 0")
  case False
  then have "used_blocks ino = i_size ino div 512 + 1" by (simp add: used_blocks_def)
  moreover have "first_block s a = Some (True, s)"
    using False ino by (simp add: first_block_def get_sector_def sectors_ok_def)
  moreover have "ino\<lparr>i_sectors := i_sectors ino\<rparr> = ino" by simp
  ultimately show ?thesis using False ok ino kept_refl [OF wf]
    by (intro exI [of _ s] exI [of _ "i_sectors ino"]) (simp add: file_ok_def)
next
  case True
  then have u: "used_blocks ino = 0" "i_size ino = 0" "blocks_ok s ino 0"
    using ok by (simp_all add: file_ok_def used_blocks_def)
  have len: "length (i_sectors ino) = 13" using ino(2) by (simp add: sectors_ok_def)
  from alloc_step [OF wf free ino(1) len, of 0] True obtain b s1 s2 s3 where
    b: "block_bitmap_alloc s = Some (int b, s1)"
    "(if (0::nat) < 12 then do { x \<leftarrow> get_sector s1 a 0; kassert (x = 0); set_sector s1 a 0 b }
       else Some s1) = Some s2"
    "bitmap_sync s2 (sub32 b (data_start_lba (sb s2))) BLOCK_BITMAP = Some s3"
    "data_blk s b" "\<not> taken s b" and g: "grown s a {b} s3"
    and i3: "inodes s3 a = Some (ino\<lparr>i_sectors := (if (0::nat) < 12 then (i_sectors ino)[0 := b] else i_sectors ino)\<rparr>)"
    and f3: "free_bits s3 = free_bits s - 1" and sb2: "sb s2 = sb s" by blast
  have st: "set_sector s1 a 0 b = Some s2" using b(2) by (auto simp: outcome_simps)
  have bb: "b \<noteq> 0" "sub32 b (data_start_lba (sb s)) \<noteq> 0"
    using b(4) sub32_data [OF wf(1) b(4)] by (auto simp: data_blk_def)
  have run: "first_block s a = Some (True, s3)"
    using b(1,3) st bb(2) sb2 True ino(1) len by (simp add: first_block_def) (simp add: get_sector_def)
  let ?secs = "(i_sectors ino)[0 := b]"
  let ?ino = "ino\<lparr>i_sectors := ?secs\<rparr>"
  have tb: "taken s3 b" using grown_taken [OF g] by simp
  have b0: "blk_no s3 ?ino 0 = b" using len by (simp add: blk_no_def)
  have "blocks_ok s3 ?ino 1"
    using u(3) len tb b0 by (auto simp: blocks_ok_def nth_list_update)
  moreover have "set ?secs \<subseteq> insert b (set (i_sectors ino))" by (rule set_update_subset_insert)
  then have "sectors_ok ?ino" using ino(2) taken_bounds [OF tb] by (auto simp: sectors_ok_def)
  ultimately show ?thesis
    using run i3 f3 True u b(5) b0 bb(1) len grown_kept [OF g wf(1)] grownD(4-6) [OF g]
    by (intro exI [of _ s3] exI [of _ ?secs]) simp
qed

text \<open>The slots of the inode table lie in its sectors.\<close>

lemma table_kept_bytes:
  assumes "table_kept s s'" "sb s' = sb s" "fs_wf s" "no < 4096"
  shows "inode_bytes s' no = inode_bytes s no"
proof -
  have "disk_byte (disk s') i = disk_byte (disk s) i" if i: "inode_base s no \<le> i" "i < inode_base s no + 76" for i
  proof -
    have "76 * no + 76 \<le> 512 * 608" using assms(4) by linarith
    moreover have "inode_table_lba (sb s) + 608 \<le> data_start_lba (sb s)" using assms(3) by (simp add: fs_wf_def)
    ultimately have "512 * inode_table_lba (sb s) \<le> i" "i < 512 * data_start_lba (sb s)"
      using i unfolding inode_base_def by linarith+
    then have "inode_table_lba (sb s) \<le> i div 512" "i div 512 < data_start_lba (sb s)"
      by (simp_all add: less_eq_div_iff_mult_less_eq div_less_iff_less_mult mult.commute)
    with assms(1) show ?thesis by (simp add: table_kept_def disk_byte_def)
  qed
  then show ?thesis using assms(2) by (simp add: inode_bytes_def inode_base_def)
qed

definition own_blocks :: "fs \<Rightarrow> inode \<Rightarrow> nat set" where
  "own_blocks s ino = insert (i_sectors ino ! 12) {blk_no s ino k | k. k < used_blocks ino}"

text \<open>Blocks a write of \<open>n\<close> bytes may need: the new data blocks, and the table.\<close>

definition need_blocks :: "inode \<Rightarrow> nat \<Rightarrow> nat" where
  "need_blocks ino n = (i_size ino + n) div 512 + 2 - used_blocks ino"

lemma file_write_spec:
  assumes wf: "fs_wf s" "bitmap_sound s" and f: "fi < length (file_table s)" "fd_inode (file_table s ! fi) = a"
    and ino: "inodes s a = Some ino" "inode_wf ino" "file_ok s ino"
    and mem: "alloc_ok s (allocs s)" "alloc_ok s (allocs s + 1)"
    and size: "i_size ino + length buf < 71680" and free: "need_blocks ino (length buf) \<le> free_bits s"
  shows "\<exists>s' ino'. file_write s fi buf = Some (int (length buf), s') \<and> inodes s' a = Some ino'
    \<and> i_size ino' = i_size ino + length buf \<and> file_content s' ino' = file_content s ino @ buf
    \<and> file_ok s' ino' \<and> inode_wf ino' \<and> kept_data s a (own_blocks s ino) s'
    \<and> i_no ino' = i_no ino \<and> disk_inode s' (w8 (i_no ino)) = pure_inode ino'
    \<and> (\<forall>no < 4096. no \<noteq> w8 (i_no ino) \<longrightarrow> inode_bytes s' no = inode_bytes s no)
    \<and> file_table s' = (file_table s)[fi := (file_table s ! fi)\<lparr>fd_pos := int (i_size ino + length buf) - 1\<rparr>]"
proof -
  let ?n = "length buf" and ?has = "i_size ino div 512 + 1" and ?will = "(i_size ino + length buf) div 512 + 1"
  let ?W = "own_blocks s ino"
  have so: "sectors_ok ino" using ino(2) by (simp add: inode_wf_def sectors_ok_def)
  define s0 where "s0 = s\<lparr>allocs := allocs s + 1 + 1\<rparr>"
  have wf0: "fs_wf s0" "bitmap_sound s0" using wf by (simp_all add: s0_def bitmap_sound_def)
  have b0: "blk_no s0 = blk_no s" "taken s0 = taken s" "blocks_ok s0 = blocks_ok s" "free_bits s0 = free_bits s"
    by (auto simp: s0_def blk_no_def taken_def data_blk_def blocks_ok_def free_bits_def fun_eq_iff)
  have ok0: "file_ok s0 ino" using ino(3) by (simp add: file_ok_def b0)
  have hw: "?has \<le> ?will" by (simp add: div_le_mono)
  have w140: "?will \<le> 140" using size by linarith
  have u: "used_blocks ino = (if i_sectors ino ! 0 = 0 then 0 else ?has)" by (simp add: used_blocks_def)
  have fr0: "i_sectors ino ! 0 = 0 \<Longrightarrow> 0 < free_bits s0"
    using free u by (simp add: need_blocks_def b0)
  have in0: "inodes s0 a = Some ino" using ino(1) by (simp add: s0_def)
  from first_block_spec [OF wf0 in0 so ok0 fr0, where W = "{}"] obtain s1 secs1 where
    s1: "first_block s0 a = Some (True, s1)" "inodes s1 a = Some (ino\<lparr>i_sectors := secs1\<rparr>)"
    "sectors_ok (ino\<lparr>i_sectors := secs1\<rparr>)" "blocks_ok s1 (ino\<lparr>i_sectors := secs1\<rparr>) ?has"
    "kept s0 a {} s1" "file_table s1 = file_table s0" "alloc_ok s1 = alloc_ok s0" "allocs s1 = allocs s0"
    "free_bits s1 = free_bits s0 - (if i_sectors ino ! 0 = 0 then 1 else 0)"
    "secs1 ! 12 = i_sectors ino ! 12"
    "\<forall>k < used_blocks ino. blk_no s1 (ino\<lparr>i_sectors := secs1\<rparr>) k = blk_no s0 ino k"
    "\<forall>k. used_blocks ino \<le> k \<longrightarrow> k < ?has \<longrightarrow> \<not> taken s0 (blk_no s1 (ino\<lparr>i_sectors := secs1\<rparr>) k)"
    by blast
  let ?ino1 = "ino\<lparr>i_sectors := secs1\<rparr>"
  have wf1: "fs_wf s1" "bitmap_sound s1" using s1(5) by (simp_all add: kept_defs)
  have fr1: "?will - ?has + (if ?has \<le> 12 \<and> 12 < ?will then 1 else 0) \<le> free_bits s1"
  proof -
    have "?will - ?has + 1 \<le> free_bits s1"
    proof (cases "i_sectors ino ! 0 = 0")
      case True
      then have "?will + 1 \<le> free_bits s" "free_bits s1 = free_bits s - 1"
        using free s1(9) u by (simp_all add: need_blocks_def b0)
      then show ?thesis by linarith
    next
      case False
      then have "?will + 1 - ?has \<le> free_bits s" "free_bits s1 = free_bits s"
        using free s1(9) u by (simp_all add: need_blocks_def b0)
      then show ?thesis using hw by linarith
    qed
    moreover have "(if ?has \<le> 12 \<and> 12 < ?will then 1 else 0) \<le> (1 :: nat)" by simp
    ultimately show ?thesis by linarith
  qed
  have hpos: "0 < ?has" by simp
  from collect_write_blocks_spec [OF wf1 s1(2,3,4) hpos hw w140 fr1] obtain ab s2 where
    c: "collect_write_blocks s1 a ?has ?will (replicate 140 0) = Some (True, ab, s2)"
    "collected s1 a ?ino1 ?has ?will ab s2" by blast
  from c(2) obtain secs2 where s2: "inodes s2 a = Some (ino\<lparr>i_sectors := secs2\<rparr>)"
    "blocks_ok s2 (ino\<lparr>i_sectors := secs2\<rparr>) ?will"
    "\<forall>k < ?has. blk_no s2 (ino\<lparr>i_sectors := secs2\<rparr>) k = blk_no s1 ?ino1 k"
    "\<forall>k. ?has - 1 \<le> k \<longrightarrow> k < ?will \<longrightarrow> ab ! k = blk_no s2 (ino\<lparr>i_sectors := secs2\<rparr>) k"
    "\<forall>k. ?has \<le> k \<longrightarrow> k < ?will \<longrightarrow> \<not> taken s1 (blk_no s2 (ino\<lparr>i_sectors := secs2\<rparr>) k)"
    "\<forall>x \<in> set secs2. x < 4294967296" "length ab = 140" "kept s1 a {secs1 ! 12} s2"
    "file_table s2 = file_table s1" "alloc_ok s2 = alloc_ok s1" "allocs s2 = allocs s1"
    by (auto simp: collected_def)
  let ?ino2 = "ino\<lparr>i_sectors := secs2\<rparr>"
  have wf2: "fs_wf s2" "bitmap_sound s2" using s2(8) by (simp_all add: kept_defs)
  have "{secs1 ! 12} \<subseteq> ?W" using s1(10) by (simp add: own_blocks_def)
  from kept_trans [OF kept_mono [OF s1(5)] kept_mono [OF s2(8) this]] have k02: "kept s0 a ?W s2" by simp
  define ft where "ft = (file_table s)[fi := (file_table s ! fi)\<lparr>fd_pos := int (i_size ino) - 1\<rparr>]"
  define s3 where "s3 = s2\<lparr>file_table := ft\<rparr>"
  have ft2: "file_table s2 = file_table s" using s1(6) s2(9) by (simp add: s0_def)
  have up: "upd_file s2 fi (\<lambda>f. f\<lparr>fd_pos := int (i_size ino) - 1\<rparr>) = Some s3"
    using f(1) ft2 by (simp add: upd_file_def s3_def ft_def)
  have b3: "blk_no s3 = blk_no s2" "taken s3 = taken s2" "blocks_ok s3 = blocks_ok s2" "file_byte s3 = file_byte s2"
    by (auto simp: s3_def blk_no_def taken_def data_blk_def blocks_ok_def file_byte_def fun_eq_iff)
  have wf3: "fs_wf s3" "bitmap_sound s3" using wf2 by (simp_all add: s3_def bitmap_sound_def)
  have "\<exists>s'. write_loop s3 fi a ab buf True = Some s'
     \<and> kept s3 a {blk_no s3 ?ino2 k | k. i_size ?ino2 div 512 \<le> k \<and> k < ?will} s'
     \<and> inodes s' a = Some (?ino2\<lparr>i_size := i_size ?ino2 + ?n\<rparr>)
     \<and> blocks_ok s' ?ino2 ?will \<and> (\<forall>k < ?will. blk_no s' ?ino2 k = blk_no s3 ?ino2 k)
     \<and> (\<forall>j < i_size ?ino2 + ?n. file_byte s' ?ino2 j =
          (if j < i_size ?ino2 then file_byte s3 ?ino2 j else buf ! (j - i_size ?ino2)))
     \<and> file_table s' = (file_table s3)[fi := (file_table s3 ! fi)\<lparr>fd_pos := fd_pos (file_table s3 ! fi) + int ?n\<rparr>]
     \<and> block_bitmap s' = block_bitmap s3 \<and> alloc_ok s' = alloc_ok s3 \<and> allocs s' = allocs s3"
    by (rule write_loop_spec [OF wf3])
      (use s2 size f(1) in \<open>auto simp: b3, simp_all add: s3_def ft_def\<close>)
  then obtain s4 where s4: "write_loop s3 fi a ab buf True = Some s4"
     "kept s3 a {blk_no s3 ?ino2 k | k. i_size ?ino2 div 512 \<le> k \<and> k < ?will} s4"
     "inodes s4 a = Some (?ino2\<lparr>i_size := i_size ?ino2 + ?n\<rparr>)"
     "blocks_ok s4 ?ino2 ?will" "\<forall>k < ?will. blk_no s4 ?ino2 k = blk_no s3 ?ino2 k"
     "\<forall>j < i_size ?ino2 + ?n. file_byte s4 ?ino2 j =
          (if j < i_size ?ino2 then file_byte s3 ?ino2 j else buf ! (j - i_size ?ino2))"
     "file_table s4 = (file_table s3)[fi := (file_table s3 ! fi)\<lparr>fd_pos := fd_pos (file_table s3 ! fi) + int ?n\<rparr>]"
    by blast
  let ?ino4 = "?ino2\<lparr>i_size := i_size ino + ?n\<rparr>"
  have wf4: "fs_wf s4" "bitmap_sound s4" using s4(2) by (simp_all add: kept_defs)
  have len2: "length secs2 = 13" using s2(2) by (simp add: blocks_ok_def)
  have iwf: "inode_wf ?ino4" using ino(2) s2(6) len2 size by (simp add: inode_wf_def)
  from inode_sync_data [OF wf4(1) iwf] obtain d where d: "inode_sync s4 ?ino4 = Some (s4\<lparr>disk := d\<rparr>)" "disk_ok d"
    "\<forall>x. data_start_lba (sb s4) \<le> x \<longrightarrow> d x = disk s4 x"
    "disk_inode (s4\<lparr>disk := d\<rparr>) (w8 (i_no ino)) = pure_inode ?ino4"
    "\<forall>no. no \<noteq> w8 (i_no ino) \<longrightarrow> inode_bytes (s4\<lparr>disk := d\<rparr>) no = inode_bytes s4 no" by auto
  let ?s5 = "s4\<lparr>disk := d\<rparr>"
  have run: "file_write s fi buf = Some (int ?n, ?s5)"
  proof -
    have w: "w32 (i_size ino + ?n) = i_size ino + ?n" using size by simp
    have k: "kmalloc s = (allocs s + 3, s\<lparr>allocs := allocs s + 1\<rparr>)"
      "kmalloc (s\<lparr>allocs := allocs s + 1\<rparr>) = (allocs s + 1 + 3, s0)"
      using mem by (simp_all add: kmalloc_def s0_def)
    show ?thesis
      using f ino(1) size w140 k s1(1) c(1) up s4(1,3) d(1)
      by (simp add: file_write_def w Let_def BLOCK_SIZE_def)
  qed
  have big: "data_start_lba (sb s4) \<le> b" if "taken s4 b" for b using that by (simp add: taken_def data_blk_def)
  have tab: "disk ?s5 (secs2 ! 12) = disk s4 (secs2 ! 12)" if "12 < ?will"
    using s4(4) that d(3) big by (simp add: blocks_ok_def)
  have b5: "blk_no ?s5 ?ino4 k = blk_no s3 ?ino2 k" if "k < ?will" for k
  proof -
    have "blk_no ?s5 ?ino4 k = blk_no s4 ?ino2 k"
      by (rule blk_no_frame [OF s4(4)]) (use tab that in simp_all)
    with s4(5) that show ?thesis by simp
  qed
  have fb5: "file_byte ?s5 ?ino4 j = file_byte s4 ?ino2 j" if "j < i_size ino + ?n" for j
  proof -
    have k: "j div 512 < ?will" using that div_le_mono [of j "i_size ino + ?n" 512] by linarith
    then have "taken s4 (blk_no s4 ?ino2 (j div 512))" using s4(4) by (simp add: blocks_ok_def)
    then have "disk ?s5 (blk_no s4 ?ino2 (j div 512)) = disk s4 (blk_no s4 ?ino2 (j div 512))"
      using d(3) big by simp
    with b5 [OF k] s4(5) k show ?thesis by (simp add: file_byte_def)
  qed
  have fb3: "file_byte s3 ?ino2 j = file_byte s ino j" if "j < i_size ino" for j
  proof -
    have nz: "i_sectors ino ! 0 \<noteq> 0" using ino(3) that by (auto simp: file_ok_def)
    then have uh: "used_blocks ino = ?has" using u by simp
    have k: "j div 512 < ?has" using that div_le_mono [of j "i_size ino" 512] by linarith
    let ?b = "blk_no s ino (j div 512)"
    have "blocks_ok s ino ?has" using ino(3) unfolding file_ok_def uh by blast
    from blocks_ok_taken [OF this k] have t: "taken s0 ?b" by (simp only: b0)
    have e1: "blk_no s1 ?ino1 (j div 512) = ?b" using s1(11) k uh by (simp add: b0)
    have "blk_no s2 ?ino2 (j div 512) = ?b" using s2(3) k e1 by simp
    moreover have "?b \<noteq> secs1 ! 12"
    proof (cases "12 < ?has")
      case True
      with s1(4) have "\<forall>k < ?has. blk_no s1 ?ino1 k \<noteq> secs1 ! 12" by (simp add: blocks_ok_def)
      with k e1 show ?thesis by metis
    next
      case False
      with s1(4) have "secs1 ! 12 = 0" by (simp add: blocks_ok_def)
      with taken_bounds [OF t] show ?thesis by simp
    qed
    then have "disk s2 ?b = disk s0 ?b" using t s1(5) s2(8) by (simp add: kept_defs)
    ultimately show ?thesis by (simp add: b3 file_byte_def) (simp add: s0_def)
  qed
  have content: "file_content ?s5 ?ino4 = file_content s ino @ buf"
  proof (rule nth_equalityI)
    show "length (file_content ?s5 ?ino4) = length (file_content s ino @ buf)" by (simp add: file_content_def)
    fix j assume "j < length (file_content ?s5 ?ino4)"
    then have j: "j < i_size ino + ?n" by (simp add: file_content_def)
    show "file_content ?s5 ?ino4 ! j = (file_content s ino @ buf) ! j"
      using j fb5 [OF j] s4(6) fb3 [of j] by (simp add: file_content_def nth_append)
  qed
  have bok: "blocks_ok ?s5 ?ino4 ?will"
    by (rule blocks_ok_frame [OF s4(4)]) (use tab in simp_all)
  have "taken s2 (blk_no s2 ?ino2 0)" using s2(2) by (simp add: blocks_ok_def)
  then have nz: "secs2 ! 0 \<noteq> 0" using taken_bounds by (auto simp: blk_no_def)
  have fok: "file_ok ?s5 ?ino4" using bok nz by (simp add: file_ok_def used_blocks_def)
  have own: "b \<in> ?W" if "taken s0 b" "b \<in> {blk_no s3 ?ino2 k | k. i_size ?ino2 div 512 \<le> k \<and> k < ?will}" for b
  proof -
    from that(2) obtain k where k: "b = blk_no s3 ?ino2 k" "k < ?will" by auto
    show ?thesis
    proof (cases "k < used_blocks ino")
      case True
      then have kh: "k < ?has" using u by (auto split: if_splits)
      have "b = blk_no s ino k" using k s2(3) s1(11) True kh by (simp add: b3 b0)
      with True show ?thesis by (auto simp: own_blocks_def)
    next
      case False
      have "\<not> taken s0 b"
      proof (cases "k < ?has")
        case True
        with False s1(12) s2(3) k show ?thesis by (simp add: b3)
      next
        case nh: False
        with s2(5) k have "\<not> taken s1 b" by (simp add: b3)
        with s1(5) show ?thesis by (auto simp: kept_defs)
      qed
      with that(1) show ?thesis by simp
    qed
  qed
  have k23: "kept s2 a V s3" for V
    using wf3 by (simp add: kept_defs b3) (simp add: s3_def)
  have k03: "kept s0 a ?W s3" by (rule kept_trans [OF k02 k23])
  have k04: "kept s0 a ?W s4"
    by (rule kept_trans_new [OF k03 s4(2)]) (rule own)
  then have "kept_data s0 a ?W ?s5"
    using d(2,3) big wf4 by (auto simp: kept_defs bitmap_sound_def)
  then have "kept_data s a ?W ?s5" by (simp add: kept_defs b0) (simp add: s0_def)
  moreover have "inode_bytes ?s5 no = inode_bytes s no" if "no < 4096" "no \<noteq> w8 (i_no ino)" for no
  proof -
    have "table_kept s s4" "sb s4 = sb s" using k04 by (simp_all add: kept_defs s0_def)
    from table_kept_bytes [OF this wf(1) that(1)] show ?thesis using d(5) that(2) by simp
  qed
  moreover have "file_table ?s5 = (file_table s)[fi := (file_table s ! fi)\<lparr>fd_pos := int (i_size ino + ?n) - 1\<rparr>]"
    using s4(7) f(1) by (simp add: s3_def ft_def diff_add_eq)
  ultimately show ?thesis using run s4(3) content fok iwf d(4)
    by (intro exI [of _ ?s5] exI [of _ ?ino4]) simp
qed

section \<open>The whole read\<close>

lemma copy_sectors_spec:
  "i + n \<le> length secs \<Longrightarrow> i + n \<le> length ab \<Longrightarrow>
     \<exists>ab'. copy_sectors ab secs i n = Some ab' \<and> length ab' = length ab
       \<and> (\<forall>k. ab' ! k = (if i \<le> k \<and> k < i + n then secs ! k else ab ! k))"
proof (induction n arbitrary: i ab)
  case 0
  then show ?case by simp
next
  case (Suc n)
  let ?ab = "ab[i := secs ! i]"
  from Suc.IH [of "Suc i" ?ab] Suc.prems obtain ab' where
    "copy_sectors ?ab secs (Suc i) n = Some ab'" "length ab' = length ab"
    "\<forall>k. ab' ! k = (if Suc i \<le> k \<and> k < Suc i + n then secs ! k else ?ab ! k)" by auto
  with Suc.prems show ?case by (auto simp: nth_list_update)
qed

lemma collect_read_blocks_spec:
  assumes ok: "blocks_ok s ino n" and se: "st \<le> en" "en < n" "en < 139"
  shows "\<exists>ab. collect_read_blocks s ino st en (replicate 140 0) = Some ab \<and> length ab = 140
    \<and> (\<forall>k. st \<le> k \<longrightarrow> k \<le> en \<longrightarrow> ab ! k = blk_no s ino k)"
proof -
  let ?t = "i_sectors ino ! 12"
  have len: "length (i_sectors ino) = 13" using ok by (simp add: blocks_ok_def)
  have sm: "st < 4294967296" "en < 4294967296" using se by auto
  have su: "sub32 st en = 0 \<longleftrightarrow> st = en"
  proof (cases "st = en")
    case True
    with sub32_le [of en st] sm show ?thesis by simp
  next
    case False
    with se sm show ?thesis by (simp add: sub32_def)
  qed
  have t: "?t \<noteq> 0 \<and> ?t \<le> max_lba" if "12 \<le> en"
  proof -
    have "taken s ?t" using ok that se by (simp add: blocks_ok_def)
    from taken_bounds [OF this] show ?thesis by simp
  qed
  have dir: "\<exists>ab. copy_sectors (replicate 140 0) (i_sectors ino) st m = Some ab \<and> length ab = 140
      \<and> (\<forall>k. ab ! k = (if st \<le> k \<and> k < st + m then i_sectors ino ! k else replicate 140 0 ! k))"
    if "st + m \<le> 12" for m
    using copy_sectors_spec [of st m "i_sectors ino" "replicate 140 0"] that len by simp
  have tab: "read_table s ?t ab = Some (take 12 ab @ dec_words 128 (disk s ?t))" if "12 \<le> en" for ab
    using t [OF that] by (simp add: read_table_eq)
  have ind: "(take 12 ab @ dec_words 128 (disk s ?t)) ! k = blk_no s ino k" if "12 \<le> k" "length ab = 140"
    for ab and k using that by (simp add: nth_append blk_no_def)
  consider "en < 12" | "12 \<le> en" "st < 12" | "12 \<le> st" using se by linarith
  then show ?thesis
  proof cases
    case 1
    have "collect_read_blocks s ino st en (replicate 140 0)
        = copy_sectors (replicate 140 0) (i_sectors ino) st (en + 1 - st)"
      using 1 len su by (simp add: collect_read_blocks_def)
    moreover have "st + (en + 1 - st) = en + 1" using se(1) by simp
    ultimately show ?thesis using dir [of "en + 1 - st"] 1 by (auto simp: blk_no_def)
  next
    case 2
    from dir [of "12 - st"] 2 obtain ab where ab: "copy_sectors (replicate 140 0) (i_sectors ino) st (12 - st) = Some ab"
      "length ab = 140" "\<forall>k. ab ! k = (if st \<le> k \<and> k < 12 then i_sectors ino ! k else replicate 140 0 ! k)" by auto
    have "collect_read_blocks s ino st en (replicate 140 0) = Some (take 12 ab @ dec_words 128 (disk s ?t))"
      using 2 len su ab(1) t tab by (simp add: collect_read_blocks_def)
    moreover have "(take 12 ab @ dec_words 128 (disk s ?t)) ! k = blk_no s ino k" if "st \<le> k" for k
      using ind [of k ab] ab(2,3) that by (cases "k < 12") (auto simp: nth_append blk_no_def)
    ultimately show ?thesis using ab(2) by auto
  next
    case 3
    then have en: "12 \<le> en" using se by simp
    have "collect_read_blocks s ino st en (replicate 140 0)
        = Some (replicate 12 0 @ dec_words 128 (disk s ?t))"
      using 3 en len su t tab by (simp add: collect_read_blocks_def)
    moreover have "(replicate 12 0 @ dec_words 128 (disk s ?t)) ! k = blk_no s ino k" if "st \<le> k" for k
      using ind [of k "replicate 140 0"] 3 that by simp
    ultimately show ?thesis by auto
  qed
qed

lemma c_div_nat: "c_div (int p) 512 = int (p div 512)" "u32_of_int (c_mod (int p) 512) = p mod 512"
proof -
  show d: "c_div (int p) 512 = int (p div 512)" by (simp add: c_div_def zdiv_int)
  have "c_mod (int p) 512 = int (p mod 512)"
    using div_mult_mod_eq [of p 512] by (simp add: c_mod_def d) (simp add: zmod_int minus_mult_div_eq_mod zdiv_int)
  moreover have "p mod 512 < 4294967296" by (rule less_trans [OF mod_less_divisor]) simp_all
  ultimately show "u32_of_int (c_mod (int p) 512) = p mod 512"
    unfolding u32_of_int_def by (simp add: zmod_int [symmetric])
qed

lemma read_loop_spec:
  assumes wf: "fs_wf s" and ok: "blocks_ok s ino n" and len: "length ab = 140"
  shows "(n' = 0 \<or> (p + n' - 1) div 512 < n \<and> (\<forall>k. p div 512 \<le> k \<longrightarrow> k \<le> (p + n' - 1) div 512 \<longrightarrow> ab ! k = blk_no s ino k)) \<Longrightarrow>
     read_loop s ab (int p) n' out = Some (out @ map (file_byte s ino) [p..<p + n'], int (p + n'))"
proof (induction n' arbitrary: p out rule: less_induct)
  case (less n')
  show ?case
  proof (cases "n' = 0")
    case True
    then show ?thesis by (simp add: read_loop.simps)
  next
    case False
    define c where "c = min n' (512 - p mod 512)"
    have modlt: "p mod 512 < 512" by simp
    have c: "0 < c" "c \<le> n'" "p mod 512 + c \<le> 512" using False modlt by (auto simp: c_def)
    from less.prems False have ln: "(p + n' - 1) div 512 < n"
      and abk: "\<forall>k. p div 512 \<le> k \<longrightarrow> k \<le> (p + n' - 1) div 512 \<longrightarrow> ab ! k = blk_no s ino k" by auto
    have le: "p div 512 \<le> (p + n' - 1) div 512" by (rule div_le_mono) (use False in simp)
    let ?b = "blk_no s ino (p div 512)"
    have kn: "p div 512 < n" using le ln by simp
    have tk: "taken s ?b" by (rule blocks_ok_taken [OF ok kn])
    have k140: "p div 512 < 140" using kn ok by (simp add: blocks_ok_def)
    have rd: "disk_read (disk s) ?b 1 = Some (disk s ?b)"
      by (rule sector_read) (use taken_bounds [OF tk] in \<open>simp add: ide_ok_small\<close>)
    have dl: "length (disk s ?b) = 512" using fs_wfD(1) [OF wf] by (simp add: disk_ok_def)
    let ?bs = "take c (drop (p mod 512) (disk s ?b))"
    have blk: "rd_block (disk s ?b) (p mod 512) c = Some ?bs" using dl c(3) by (simp add: rd_block_def)
    have bs: "?bs = map (file_byte s ino) [p..<p + c]"
    proof (rule nth_equalityI)
      show "length ?bs = length (map (file_byte s ino) [p..<p + c])" using dl c(3) by simp
      fix i assume "i < length ?bs"
      then have i: "i < c" using dl c(3) by simp
      note dm = div_mod_chunk [of p "p + i" c, OF _ _ c(3)]
      show "?bs ! i = map (file_byte s ino) [p..<p + c] ! i"
        using i dm dl c(3) by (simp add: file_byte_def)
    qed
    have "read_loop s ab (int p) n' out = read_loop s ab (int p + int c) (n' - c) (out @ ?bs)"
      using False rd blk abk le k140 len modlt
      by (subst read_loop.simps) (simp add: c_div_nat Let_def BLOCK_SIZE_def c_def [symmetric])
    also have "\<dots> = read_loop s ab (int (p + c)) (n' - c) (out @ ?bs)" by simp
    also have "\<dots> = Some ((out @ ?bs) @ map (file_byte s ino) [p + c..<p + c + (n' - c)], int (p + c + (n' - c)))"
    proof (rule less.IH)
      show "n' - c < n'" using c by simp
      have "p div 512 \<le> (p + c) div 512" by (rule div_le_mono) simp
      then show "n' - c = 0 \<or> (p + c + (n' - c) - 1) div 512 < n
          \<and> (\<forall>k. (p + c) div 512 \<le> k \<longrightarrow> k \<le> (p + c + (n' - c) - 1) div 512 \<longrightarrow> ab ! k = blk_no s ino k)"
        using ln abk c(2) by simp
    qed
    also have "(out @ ?bs) @ map (file_byte s ino) [p + c..<p + c + (n' - c)] = out @ map (file_byte s ino) [p..<p + n']"
      unfolding bs using c(2) by (simp add: map_upt_split)
    finally show ?thesis using c(2) by simp
  qed
qed

lemma file_read_spec:
  assumes wf: "fs_wf s" and f: "fi < length (file_table s)" "fd_pos (file_table s ! fi) = int p"
    and ino: "inodes s (fd_inode (file_table s ! fi)) = Some ino" "file_ok s ino"
    and mem: "alloc_ok s (allocs s)" "alloc_ok s (allocs s + 1)"
    and p: "p < i_size ino" "i_size ino < 71168" and cnt: "p + cnt < 4294967296"
  defines "n \<equiv> min cnt (i_size ino - p)"
  shows "file_read s fi cnt = Some (int n, take cnt (drop p (file_content s ino)),
     s\<lparr>allocs := allocs s + 2,
       file_table := (file_table s)[fi := (file_table s ! fi)\<lparr>fd_pos := int (p + n)\<rparr>]\<rparr>)"
proof -
  have pu: "u32_of_int (int p) = p" using p by (simp add: u32_of_int_def)
  have nz: "i_sectors ino ! 0 \<noteq> 0" using ino(2) p(1) by (auto simp: file_ok_def)
  have ok: "blocks_ok s ino (i_size ino div 512 + 1)"
    using ino(2) nz by (simp add: file_ok_def used_blocks_def)
  have size: "(if i_size ino < w32 (p + cnt) then sub32 (i_size ino) p else cnt) = n"
    using p cnt by (auto simp: n_def sub32_le)
  have nz0: "\<not> (i_size ino < w32 (p + cnt) \<and> n = 0)" using p cnt by (auto simp: n_def)
  have pn: "p + n \<le> i_size ino" using p by (simp add: n_def)
  have en: "(p + n) div 512 \<le> i_size ino div 512" using pn by (rule div_le_mono)
  have i139: "i_size ino div 512 < 139" using p(2) by (simp add: div_less_iff_less_mult)
  have st: "p div 512 \<le> (p + n) div 512" by (rule div_le_mono) simp
  have su: "u32_of_int (int (p div 512)) = p div 512"
    using p by (simp add: u32_of_int_def)
  from collect_read_blocks_spec [OF ok st] en i139 obtain ab where
    ab: "collect_read_blocks s ino (p div 512) ((p + n) div 512) (replicate 140 0) = Some ab" "length ab = 140"
    "\<forall>k. p div 512 \<le> k \<longrightarrow> k \<le> (p + n) div 512 \<longrightarrow> ab ! k = blk_no s ino k" by auto
  have last: "(p + n - 1) div 512 \<le> (p + n) div 512" by (rule div_le_mono) simp
  have rl: "read_loop s ab (int p) n [] = Some (map (file_byte s ino) [p..<p + n], int (p + n))"
    using read_loop_spec [OF wf ok ab(2), of n p "[]"] ab(3) last en by simp
  let ?s = "s\<lparr>allocs := allocs s + 2\<rparr>"
  have irr: "collect_read_blocks ?s = collect_read_blocks s" "read_loop ?s ab (int p) n [] = read_loop s ab (int p) n []"
  proof -
    show "collect_read_blocks ?s = collect_read_blocks s"
      by (intro ext) (simp add: collect_read_blocks_def read_table_def cong: if_cong)
    have "blk_no ?s = blk_no s" "taken ?s = taken s" "blocks_ok ?s = blocks_ok s" "file_byte ?s = file_byte s"
      by (auto simp: blk_no_def taken_def data_blk_def blocks_ok_def file_byte_def fun_eq_iff)
    with read_loop_spec [of ?s ino _ ab n p "[]"] ok ab(2,3) last en wf rl
    show "read_loop ?s ab (int p) n [] = read_loop s ab (int p) n []" by simp
  qed
  have content: "map (file_byte s ino) [p..<p + n] = take cnt (drop p (file_content s ino))"
    by (rule nth_equalityI) (use p in \<open>auto simp: file_content_def n_def\<close>)
  have as: "s\<lparr>allocs := allocs s + 1 + 1\<rparr> = ?s" by simp
  have wn: "w32 (p + n) = p + n" using pn p by simp
  show ?thesis
  proof (cases "i_size ino < p + cnt")
    case True
    then have sz: "sub32 (i_size ino) p = n" "0 < n" using size nz0 p cnt by auto
    show ?thesis
      using f ino(1) pu sz mem su st en i139 ab(1) rl irr content p cnt True wn
      by (simp add: file_read_def Let_def kmalloc_def c_div_nat BLOCK_SIZE_def upd_file_def as del: One_nat_def add_2_eq_Suc')
  next
    case False
    then have sz: "cnt = n" using size p cnt by auto
    show ?thesis
      using f ino(1) pu mem su st en i139 ab(1) rl irr content p cnt False wn
      by (simp add: file_read_def Let_def kmalloc_def c_div_nat BLOCK_SIZE_def upd_file_def sz as)
  qed
qed

section \<open>Properties\<close>

definition demo_file :: inode where
  "demo_file = (inode_init 6)\<lparr>i_size := 700, i_sectors := [700, 701] @ replicate 11 0, i_open_cnts := 1\<rparr>"

definition demo_file_fs :: fs where
  "demo_file_fs = demo_fs\<lparr>block_bitmap := \<lparr>btmp_bytes_len = 512, bits = (1 # replicate 511 0)[11 := 3]\<rparr>,
     inodes := [3 \<mapsto> demo_file], open_inodes := [3], allocs := 1,
     file_table := (file_table demo_fs)[3 := \<lparr>fd_pos = 600, fd_flag = 2, fd_inode = 3, count = 1,
       op = Disk_ops, private_data = 0\<rparr>], fd_table := [0, 1, 2, 3, -1, -1, -1, -1]\<rparr>"

lemma demo_file_wf: "fs_wf demo_file_fs" "inode_wf demo_file"
  by (simp_all add: demo_file_fs_def fs_wf_def demo_fs_def demo_sb_def disk_ok_def max_lba_eq
      demo_file_def inode_wf_def inode_init_def)

lemma demo_file_used: "used_bits (block_bitmap demo_file_fs) = {0, 88, 89}"
proof -
  have "i \<in> used_bits (block_bitmap demo_file_fs) \<longleftrightarrow> i = 0 \<or> i = 88 \<or> i = 89" for i
  proof (cases "i < 4096")
    case True
    consider "i div 8 = 0" | "i div 8 = 11" | "i div 8 \<noteq> 0" "i div 8 \<noteq> 11" by blast
    then show ?thesis
    proof cases
      case 1
      then have "i \<in> used_bits (block_bitmap demo_file_fs) \<longleftrightarrow> bit (1 :: u8) (i mod 8)" "i mod 8 = i"
        using True by (simp_all add: used_bits_def bit_at_def demo_file_fs_def mod_less)
      then show ?thesis using 1 by (auto simp: bit_1_iff)
    next
      case 2
      then have "i \<in> used_bits (block_bitmap demo_file_fs) \<longleftrightarrow> bit (3 :: u8) (i mod 8)"
        using True by (simp_all add: used_bits_def bit_at_def demo_file_fs_def)
      moreover have "bit (3 :: u8) n \<longleftrightarrow> n = 0 \<or> n = 1" if "n < 8" for n
        using that by (cases n; simp) (auto simp: bit_numeral_rec bit_1_iff split: nat.splits)
      moreover have "i = 88 + i mod 8" using 2 by presburger
      ultimately show ?thesis using mod_less_divisor [of 8 i] by auto
    next
      case 3
      have "i \<notin> used_bits (block_bitmap demo_file_fs)"
        using True 3 by (auto simp: used_bits_def bit_at_def demo_file_fs_def nth_Cons' nth_list_update)
      then show ?thesis using 3 by auto
    qed
  qed (auto simp: used_bits_def demo_file_fs_def)
  then show ?thesis by blast
qed

lemma demo_file_sound: "bitmap_sound demo_file_fs" "file_ok demo_file_fs demo_file" "free_bits demo_file_fs = 4093"
proof -
  have l: "data_start_lba (sb demo_file_fs) = 612" "nbits (block_bitmap demo_file_fs) = 4096"
    by (simp_all add: demo_file_fs_def demo_fs_def demo_sb_def)
  show "bitmap_sound demo_file_fs" by (auto simp: bitmap_sound_def demo_file_used l max_lba_eq)
  show "free_bits demo_file_fs = 4093" by (simp add: free_bits_def demo_file_used l)
  have "used_blocks demo_file = 2" by (simp add: used_blocks_def demo_file_def)
  moreover have "k < 2 \<Longrightarrow> k = 0 \<or> k = (1 :: nat)" for k by auto
  ultimately show "file_ok demo_file_fs demo_file"
    by (auto simp: file_ok_def blocks_ok_def taken_def data_blk_def blk_no_def l max_lba_eq demo_file_used
        demo_file_def nth_Cons' split: if_splits)
qed

lemma div_512_less: "(k :: nat) < 71168 \<Longrightarrow> k div 512 < 139"
  by linarith

text \<open>
  Property C2. Writing to a file within the size limit, with enough free blocks and a number that
  fits a byte, appends: the new contents are the old ones followed by the buffer, whichever of the
  direct and indirect blocks it needs; the blocks of the file stay distinct and marked used. No other
  file is touched: every used block the file did not own keeps its contents, every other slot of the
  inode table on the disk its bytes, and every other inode in memory its value; the list of open inodes and the
  bitmap of inode numbers stay as they are. The file's own slot holds the new inode.
\<close>

theorem file_write_appends:
  assumes "fs_wf s" and "bitmap_sound s" and "fi < length (file_table s)" and "fd_inode (file_table s ! fi) = a"
    and "inodes s a = Some ino" and "inode_wf ino" and "file_ok s ino" and "i_no ino < 256"
    and "alloc_ok s (allocs s)" and "alloc_ok s (allocs s + 1)"
    and "i_size ino + length buf < 71680" and "need_blocks ino (length buf) \<le> free_bits s"
  shows "\<exists>s' ino'. file_write s fi buf = Some (int (length buf), s') \<and> inodes s' a = Some ino'
    \<and> i_size ino' = i_size ino + length buf \<and> file_content s' ino' = file_content s ino @ buf
    \<and> file_ok s' ino' \<and> kept_data s a (own_blocks s ino) s'
    \<and> disk_inode s' (i_no ino) = pure_inode ino'
    \<and> (\<forall>no < 4096. no \<noteq> i_no ino \<longrightarrow> inode_bytes s' no = inode_bytes s no)"
proof -
  have "w8 (i_no ino) = i_no ino" using assms(8) by simp
  then show ?thesis using file_write_spec [OF assms(1-7,9-12)] by (simp only:) blast
qed

theorem file_write_appends_witness:
  "\<exists>s' ino'. file_write demo_file_fs 3 (replicate 6000 7) = Some (int (length (replicate 6000 (7 :: u8))), s')
    \<and> inodes s' 3 = Some ino'
    \<and> i_size ino' = i_size demo_file + length (replicate 6000 (7 :: u8))
    \<and> file_content s' ino' = file_content demo_file_fs demo_file @ replicate 6000 7
    \<and> file_ok s' ino' \<and> kept_data demo_file_fs 3 (own_blocks demo_file_fs demo_file) s'
    \<and> disk_inode s' (i_no demo_file) = pure_inode ino'
    \<and> (\<forall>no < 4096. no \<noteq> i_no demo_file \<longrightarrow> inode_bytes s' no = inode_bytes demo_file_fs no)"
  by (rule file_write_appends [OF demo_file_wf(1) demo_file_sound(1)])
    (simp_all add: demo_file_wf demo_file_sound, simp_all add: demo_file_fs_def demo_fs_def demo_file_def inode_init_def need_blocks_def used_blocks_def)

text \<open>
  Property C1. What is written is read back: after a write, seeking to the old end of the
  file and reading as many bytes returns the buffer.
\<close>

theorem file_write_then_read:
  assumes "fs_wf s" and "bitmap_sound s" and "fi < length (file_table s)" and "fd_inode (file_table s ! fi) = a"
    and "inodes s a = Some ino" and "inode_wf ino" and "file_ok s ino" and "\<forall>k. alloc_ok s k"
    and "i_size ino + length buf < 71168" and "need_blocks ino (length buf) \<le> free_bits s" and "buf \<noteq> []"
  shows "\<exists>s1 s2 s3. file_write s fi buf = Some (int (length buf), s1)
    \<and> disk_file_lseek s1 fi (int (i_size ino)) SEEK_SET = Some (int (i_size ino), s2)
    \<and> file_read s2 fi (length buf) = Some (int (length buf), buf, s3)"
proof -
  have "i_size ino + length buf < 71680" using assms(9) by simp
  from file_write_spec [OF assms(1-7) _ _ this assms(10)] assms(8) obtain s1 ino1 where
    w: "file_write s fi buf = Some (int (length buf), s1)" "inodes s1 a = Some ino1"
    "i_size ino1 = i_size ino + length buf" "file_content s1 ino1 = file_content s ino @ buf"
    "file_ok s1 ino1" "kept_data s a (own_blocks s ino) s1"
    "file_table s1 = (file_table s)[fi := (file_table s ! fi)\<lparr>fd_pos := int (i_size ino + length buf) - 1\<rparr>]"
    by blast
  define s2 where "s2 = s1\<lparr>file_table := (file_table s1)[fi := (file_table s1 ! fi)\<lparr>fd_pos := int (i_size ino)\<rparr>]\<rparr>"
  have seek: "disk_file_lseek s1 fi (int (i_size ino)) SEEK_SET = Some (int (i_size ino), s2)"
    using assms(3,4,9,11) w(2,3,7)
    by (simp add: disk_file_lseek_def SEEK_SET_def SEEK_CUR_def SEEK_END_def s32_of_nat_def upd_file_def s2_def Let_def)
  have b: "blocks_ok s2 = blocks_ok s1" "file_content s2 ino1 = file_content s1 ino1"
    by (auto simp: s2_def blocks_ok_def taken_def data_blk_def blk_no_def file_content_def file_byte_def fun_eq_iff)
  have "\<exists>s3. file_read s2 fi (length buf) = Some (int (min (length buf) (i_size ino1 - i_size ino)),
      take (length buf) (drop (i_size ino) (file_content s2 ino1)), s3)"
  proof (intro exI, rule file_read_spec)
    show "fs_wf s2" "fi < length (file_table s2)" "fd_pos (file_table s2 ! fi) = int (i_size ino)"
      using w(6,7) assms(3) by (simp_all add: s2_def kept_data_def)
    show "inodes s2 (fd_inode (file_table s2 ! fi)) = Some ino1"
      using w(2,7) assms(3,4) by (simp add: s2_def)
    show "file_ok s2 ino1" using w(5) b(1) by (simp add: file_ok_def)
    show "alloc_ok s2 (allocs s2)" "alloc_ok s2 (allocs s2 + 1)" using w(6) assms(8) by (simp_all add: s2_def kept_data_def)
  qed (use w(3) assms(9,11) in simp_all)
  moreover have "length (file_content s ino) = i_size ino" by (simp add: file_content_def)
  ultimately show ?thesis using w(1,3,4) seek b(2) by auto
qed

theorem file_write_then_read_witness:
  "\<exists>s1 s2 s3. file_write demo_file_fs 3 [65, 66, 67] = Some (int (length [65, 66, 67 :: u8]), s1)
    \<and> disk_file_lseek s1 3 (int (i_size demo_file)) SEEK_SET = Some (int (i_size demo_file), s2)
    \<and> file_read s2 3 (length [65, 66, 67 :: u8]) = Some (int (length [65, 66, 67 :: u8]), [65, 66, 67], s3)"
  by (rule file_write_then_read [OF demo_file_wf(1) demo_file_sound(1)])
    (simp_all add: demo_file_wf demo_file_sound, simp_all add: demo_file_fs_def demo_fs_def demo_file_def need_blocks_def used_blocks_def)

text \<open>
  Reading returns the slice of the contents from the position on, cut at the
  end of the file, and moves the position behind it.
\<close>

theorem file_read_slice:
  assumes "fs_wf s" and "fi < length (file_table s)" and "fd_pos (file_table s ! fi) = int p"
    and "inodes s (fd_inode (file_table s ! fi)) = Some ino" and "file_ok s ino"
    and "alloc_ok s (allocs s)" and "alloc_ok s (allocs s + 1)"
    and "p < i_size ino" and "i_size ino < 71168" and "p + cnt < 4294967296"
  shows "\<exists>s'. file_read s fi cnt
      = Some (int (min cnt (i_size ino - p)), take cnt (drop p (file_content s ino)), s')
    \<and> fd_pos (file_table s' ! fi) = int (p + min cnt (i_size ino - p)) \<and> disk s' = disk s"
  using file_read_spec [OF assms] assms(2) by simp

theorem file_read_slice_witness:
  "\<exists>s'. file_read demo_file_fs 3 1000
      = Some (int (min 1000 (i_size demo_file - 600)), take 1000 (drop 600 (file_content demo_file_fs demo_file)), s')
    \<and> fd_pos (file_table s' ! 3) = int (600 + min 1000 (i_size demo_file - 600)) \<and> disk s' = disk demo_file_fs"
  by (rule file_read_slice [OF demo_file_wf(1)])
    (simp_all add: demo_file_wf demo_file_sound, simp_all add: demo_file_fs_def demo_fs_def demo_file_def)

text \<open>
  A second open for writing is refused with no descriptor installed, but the
  file table slot and the reference to the inode it took are not given back.
\<close>

theorem file_open_write_exclusion:
  assumes "find_open (inodes s) (open_inodes s) no = Some a" and "a \<noteq> 0" and "inodes s a = Some ino"
    and "write_deny ino" and "flag = O_WRONLY \<or> flag = O_RDWR"
    and "find_slot (file_table s) 3 = Some k" and "k < MAX_FILE_OPEN"
  shows "\<exists>s'. file_open s no flag = Some (- 1, s') \<and> fd_table s' = fd_table s \<and> disk s' = disk s
    \<and> inodes s' = (inodes s)(a \<mapsto> ino\<lparr>i_open_cnts := w32 (i_open_cnts ino + 1)\<rparr>)
    \<and> fd_inode (file_table s' ! k) = a \<and> (\<forall>j. j \<noteq> k \<longrightarrow> file_table s' ! j = file_table s ! j)"
proof -
  have k: "k < length (file_table s)" using find_slot_spec [OF assms(6)] assms(7) by (simp add: MAX_FILE_OPEN_def)
  show ?thesis
    using assms k by (auto simp: file_open_def get_free_slot_in_global_def upd_file_def inode_open_def Let_def)
qed

theorem file_open_write_exclusion_witness:
  "\<exists>s'. file_open (demo_file_fs\<lparr>inodes := [3 \<mapsto> demo_file\<lparr>write_deny := True\<rparr>]\<rparr>) 6 O_RDWR = Some (- 1, s')
    \<and> fd_table s' = fd_table (demo_file_fs\<lparr>inodes := [3 \<mapsto> demo_file\<lparr>write_deny := True\<rparr>]\<rparr>)
    \<and> disk s' = disk (demo_file_fs\<lparr>inodes := [3 \<mapsto> demo_file\<lparr>write_deny := True\<rparr>]\<rparr>)
    \<and> inodes s' = (inodes (demo_file_fs\<lparr>inodes := [3 \<mapsto> demo_file\<lparr>write_deny := True\<rparr>]\<rparr>))
        (3 \<mapsto> (demo_file\<lparr>write_deny := True\<rparr>)\<lparr>i_open_cnts := w32 (i_open_cnts (demo_file\<lparr>write_deny := True\<rparr>) + 1)\<rparr>)
    \<and> fd_inode (file_table s' ! 4) = 3
    \<and> (\<forall>j. j \<noteq> 4 \<longrightarrow> file_table s' ! j = file_table (demo_file_fs\<lparr>inodes := [3 \<mapsto> demo_file\<lparr>write_deny := True\<rparr>]\<rparr>) ! j)"
  by (rule file_open_write_exclusion)
    (simp_all add: demo_file_fs_def demo_fs_def demo_file_def inode_init_def O_RDWR_def
      find_slot.simps MAX_FILE_OPEN_def)

end
