(* ===== verification/Dir.thy ===== *)
theory Dir
  imports File Cstring
begin

text \<open>
  \<open>src/src/fs/dir.c\<close>, and \<open>file_create\<close> of \<open>src/src/fs/file.c\<close>: directories as files of
  24-byte entries that never straddle a sector. A \<open>struct dir *\<close> is an address in \<open>dirs\<close>;
  names are byte lists without the terminating zero. The abstract view of a directory is
  the set of its used entries; search, insertion, deletion and enumeration are proved
  against that view.
\<close>

section \<open>Directory entries\<close>

definition MAX_FILE_NAME_LEN :: nat where "MAX_FILE_NAME_LEN = 16"
definition FT_UNKNOWN :: nat where "FT_UNKNOWN = 0"
definition FT_REGULAR :: nat where "FT_REGULAR = 1"
definition FT_DIRECTORY :: nat where "FT_DIRECTORY = 2"

record dir_entry =
  filename :: "u8 list"
  de_i_no :: nat
  f_type :: nat

definition enc_dir_entry :: "dir_entry \<Rightarrow> u8 list" where
  "enc_dir_entry e = filename e @ enc32 (de_i_no e) @ enc32 (f_type e)"

definition dec_dir_entry :: "u8 list \<Rightarrow> dir_entry" where
  "dec_dir_entry bs = \<lparr>filename = take 16 bs, de_i_no = dec32 (drop 16 bs), f_type = dec32 (drop 20 bs)\<rparr>"

definition zero_dir_entry :: dir_entry where
  "zero_dir_entry = \<lparr>filename = replicate 16 0, de_i_no = 0, f_type = FT_UNKNOWN\<rparr>"

text \<open>\<open>memcpy\<close> copies the name without its zero; the rest of the field keeps its bytes.\<close>

definition create_dir_entry :: "u8 list \<Rightarrow> nat \<Rightarrow> nat \<Rightarrow> dir_entry \<Rightarrow> dir_entry option" where
  "create_dir_entry name inode_no file_type p_de =
     do { kassert (length name \<le> MAX_FILE_NAME_LEN);
          Some (p_de\<lparr>filename := name @ drop (length name) (filename p_de),
                     de_i_no := inode_no, f_type := file_type\<rparr>) }"

text \<open>
  The memory \<open>strcmp\<close> sees: a sector buffer at 4096 and a terminated name at 8192. A
  comparison that runs out of the buffer has no outcome.
\<close>

definition two_bufs :: "u8 list \<Rightarrow> u8 list \<Rightarrow> mem" where
  "two_bufs buf name a =
     (if 4096 \<le> a \<and> a < 4096 + length buf then Some (buf ! (a - 4096))
      else if 8192 \<le> a \<and> a < 8192 + length name then Some (name ! (a - 8192))
      else if a = 8192 + length name then Some 0 else None)"

definition name_is :: "u8 list \<Rightarrow> nat \<Rightarrow> u8 list \<Rightarrow> bool option" where
  "name_is buf idx name = do { c \<leftarrow> strcmp (two_bufs buf name) (4096 + 24 * idx) 8192; Some (c = 0) }"

definition dot :: "u8 list" where "dot = [46]"
definition dotdot :: "u8 list" where "dotdot = [46, 46]"

section \<open>Opening and closing\<close>

definition dir_inode :: "fs \<Rightarrow> nat \<Rightarrow> inode option" where
  "dir_inode s pdir = do { d \<leftarrow> dirs s pdir; inodes s (d_inode d) }"

definition open_root_dir :: "fs \<Rightarrow> fs option" where
  "open_root_dir s =
     do { (a, s) \<leftarrow> inode_open s (root_inode_no (sb s));
          Some (s\<lparr>dirs := (dirs s)(1 \<mapsto> \<lparr>d_inode = a, dir_pos = 0\<rparr>)\<rparr>) }"

definition dir_open :: "fs \<Rightarrow> nat \<Rightarrow> (nat \<times> fs) option" where
  "dir_open s inode_no =
     (let (pdir, s) = kmalloc s in
      do { (a, s) \<leftarrow> inode_open s inode_no;
           kassert (pdir \<noteq> 0);
           Some (pdir, s\<lparr>dirs := (dirs s)(pdir \<mapsto> \<lparr>d_inode = a, dir_pos = 0\<rparr>)\<rparr>) })"

definition dir_close :: "fs \<Rightarrow> nat \<Rightarrow> fs option" where
  "dir_close s pdir =
     (if pdir = 1 then Some s
      else do { d \<leftarrow> dirs s pdir;
                s \<leftarrow> inode_close s (d_inode d);
                Some (s\<lparr>dirs := (dirs s)(pdir := None)\<rparr>) })"

text \<open>The block addresses of a directory; the buffer is zero where nothing is read.\<close>

definition dir_blocks :: "fs \<Rightarrow> inode \<Rightarrow> nat list option" where
  "dir_blocks s ino =
     do { t \<leftarrow> rd (i_sectors ino) 12;
          if t \<noteq> 0
          then do { bs \<leftarrow> disk_read (disk s) t 1; Some (take 12 (i_sectors ino) @ dec_words 128 bs) }
          else Some (take 12 (i_sectors ino) @ replicate 128 0) }"

section \<open>Searching\<close>

text \<open>The slots of one sector; free slots are compared too.\<close>

fun search_sector :: "u8 list \<Rightarrow> u8 list \<Rightarrow> nat \<Rightarrow> nat \<Rightarrow> nat option option" where
  "search_sector buf name idx 0 = Some None"
| "search_sector buf name idx (Suc n) =
     do { b \<leftarrow> name_is buf idx name;
          if b then Some (Some idx) else search_sector buf name (Suc idx) n }"

fun search_blocks :: "fs \<Rightarrow> u8 list \<Rightarrow> nat list \<Rightarrow> dir_entry option option" where
  "search_blocks s name [] = Some None"
| "search_blocks s name (b # bs) =
     (if b = 0 then search_blocks s name bs
      else do { buf \<leftarrow> disk_read (disk s) b 1;
                r \<leftarrow> search_sector buf name 0 (512 div dir_entry_size (sb s));
                case r of
                  Some k \<Rightarrow> do { e \<leftarrow> rd_block buf (24 * k) (dir_entry_size (sb s));
                                Some (Some (dec_dir_entry e)) }
                | None \<Rightarrow> search_blocks s name bs })"

definition search_dir_entry :: "fs \<Rightarrow> nat \<Rightarrow> u8 list \<Rightarrow> (dir_entry option \<times> fs) option" where
  "search_dir_entry s pdir name =
     (let (all_blocks, s) = kmalloc s in
      if all_blocks = 0 then Some (None, s)
      else
        do { ino \<leftarrow> dir_inode s pdir;
             blocks \<leftarrow> dir_blocks s ino;
             let (buf, s) = kmalloc s in
             do { kassert (buf \<noteq> 0);
                  r \<leftarrow> search_blocks s name blocks;
                  Some (r, s) } })"

section \<open>Inserting\<close>

fun free_slot :: "u8 list \<Rightarrow> nat \<Rightarrow> nat \<Rightarrow> nat option" where
  "free_slot buf idx 0 = None"
| "free_slot buf idx (Suc n) =
     (if dec32 (drop (24 * idx + 20) buf) = FT_UNKNOWN then Some idx else free_slot buf (Suc idx) n)"

definition add_size :: "fs \<Rightarrow> nat \<Rightarrow> fs option" where
  "add_size s a =
     do { ino \<leftarrow> inodes s a;
          Some (s\<lparr>inodes := (inodes s)(a \<mapsto> ino\<lparr>i_size := w32 (i_size ino + dir_entry_size (sb s))\<rparr>)\<rparr>) }"

text \<open>
  A block that is not there yet. Block 12 is the first indirect one: the new block becomes
  the table, and one more is taken for the entries.
\<close>

definition sync_bit :: "fs \<Rightarrow> nat \<Rightarrow> fs option" where
  "sync_bit s block_lba =
     (let idx = sub32 block_lba (data_start_lba (sb s)) in
      do { kassert (idx \<noteq> 4294967295); bitmap_sync s idx BLOCK_BITMAP })"

definition enter_block :: "fs \<Rightarrow> nat \<Rightarrow> nat list \<Rightarrow> nat \<Rightarrow> nat \<Rightarrow> (nat list option \<times> fs) option" where
  "enter_block s a all_blocks block_idx block_lba =
     (if block_idx < 12 then
        do { s \<leftarrow> set_sector s a block_idx block_lba;
             ab \<leftarrow> wr all_blocks block_idx block_lba; Some (Some ab, s) }
      else if block_idx = 12 then
        do { s \<leftarrow> set_sector s a 12 block_lba;
             (lba, s) \<leftarrow> block_bitmap_alloc s;
             if lba = - 1 then
               do { b \<leftarrow> bitmap_set (block_bitmap s) (sub32 block_lba (data_start_lba (sb s))) 0;
                    s \<leftarrow> set_sector (s\<lparr>block_bitmap := b\<rparr>) a 12 0; Some (None, s) }
             else
               do { s \<leftarrow> sync_bit s (nat lba);
                    ab \<leftarrow> wr all_blocks 12 (nat lba);
                    s \<leftarrow> write_table s block_lba ab; Some (Some ab, s) } }
      else
        do { ab \<leftarrow> wr all_blocks block_idx block_lba;
             t \<leftarrow> get_sector s a 12;
             s \<leftarrow> write_table s t ab; Some (Some ab, s) })"

definition sync_new_block :: "fs \<Rightarrow> nat \<Rightarrow> dir_entry \<Rightarrow> nat list \<Rightarrow> nat \<Rightarrow> (bool \<times> fs) option" where
  "sync_new_block s a p_de all_blocks block_idx =
     do { (block_lba, s) \<leftarrow> block_bitmap_alloc s;
          if block_lba = - 1 then Some (False, s)
          else
            do { s \<leftarrow> sync_bit s (nat block_lba);
                 (r, s) \<leftarrow> enter_block s a all_blocks block_idx (nat block_lba);
                 case r of
                   None \<Rightarrow> Some (False, s)
                 | Some ab \<Rightarrow>
                     do { x \<leftarrow> rd ab block_idx;
                          buf \<leftarrow> wr_block (replicate 512 0) 0 (take (dir_entry_size (sb s)) (enc_dir_entry p_de));
                          d \<leftarrow> disk_write (disk s) x buf 1;
                          s \<leftarrow> add_size (s\<lparr>disk := d\<rparr>) a;
                          Some (True, s) } } }"

function sync_blocks :: "fs \<Rightarrow> nat \<Rightarrow> dir_entry \<Rightarrow> nat list \<Rightarrow> nat \<Rightarrow> (bool \<times> fs) option" where
  "sync_blocks s a p_de all_blocks block_idx =
     (if block_idx < 140 then
        do { x \<leftarrow> rd all_blocks block_idx;
             if x = 0 then sync_new_block s a p_de all_blocks block_idx
             else
               do { buf \<leftarrow> disk_read (disk s) x 1;
                    case free_slot buf 0 (512 div dir_entry_size (sb s)) of
                      Some k \<Rightarrow>
                        do { buf \<leftarrow> wr_block buf (24 * k) (take (dir_entry_size (sb s)) (enc_dir_entry p_de));
                             d \<leftarrow> disk_write (disk s) x buf 1;
                             s \<leftarrow> add_size (s\<lparr>disk := d\<rparr>) a;
                             Some (True, s) }
                    | None \<Rightarrow> sync_blocks s a p_de all_blocks (Suc block_idx) } }
      else Some (False, s))"
  by pat_completeness auto
termination
  by (relation "measure (\<lambda>(s, a, p, ab, i). 140 - i)") auto

declare sync_blocks.simps [simp del]

text \<open>Only the direct blocks are collected: the table on disk is not read.\<close>

definition sync_dir_entry :: "fs \<Rightarrow> nat \<Rightarrow> dir_entry \<Rightarrow> (bool \<times> fs) option" where
  "sync_dir_entry s pdir p_de =
     do { d \<leftarrow> dirs s pdir;
          ino \<leftarrow> inodes s (d_inode d);
          kassert (dir_entry_size (sb s) \<noteq> 0);
          kassert (i_size ino mod dir_entry_size (sb s) = 0);
          sync_blocks s (d_inode d) p_de (take 12 (i_sectors ino) @ replicate 128 0) 0 }"

section \<open>Deleting\<close>

text \<open>
  What the pass over one sector collects: the number of entries beside \<open>.\<close> and \<open>..\<close>,
  whether \<open>.\<close> is there, and the slot of the inode number; a second match fails the assert.
\<close>

record sector_scan =
  is_dir_first_block :: bool
  dir_entry_cnt :: nat
  dir_entry_found :: "nat option"

function scan_sector :: "u8 list \<Rightarrow> nat \<Rightarrow> nat \<Rightarrow> nat \<Rightarrow> sector_scan \<Rightarrow> sector_scan option" where
  "scan_sector buf inode_no per_sec idx c =
     (if idx < per_sec then
        (if dec32 (drop (24 * idx + 20) buf) \<noteq> FT_UNKNOWN then
           do { is_dot \<leftarrow> name_is buf idx dot;
                if is_dot then scan_sector buf inode_no per_sec (Suc idx) (c\<lparr>is_dir_first_block := True\<rparr>)
                else
                  do { is_dotdot \<leftarrow> name_is buf idx dotdot;
                       if is_dotdot then scan_sector buf inode_no per_sec (Suc idx) c
                       else
                         let c = c\<lparr>dir_entry_cnt := w8 (dir_entry_cnt c + 1)\<rparr> in
                         if dec32 (drop (24 * idx + 16) buf) = inode_no then
                           do { kassert (dir_entry_found c = None);
                                scan_sector buf inode_no per_sec (Suc idx) (c\<lparr>dir_entry_found := Some idx\<rparr>) }
                         else scan_sector buf inode_no per_sec (Suc idx) c } }
         else scan_sector buf inode_no per_sec (Suc idx) c)
      else Some c)"
  by pat_completeness auto
termination
  by (relation "measure (\<lambda>(b, i, p, j, c). p - j)") auto

declare scan_sector.simps [simp del]

text \<open>
  The block goes back to the bitmap. Beyond the direct blocks the loop that counts the
  indirect blocks never advances its index, so there is no outcome.
\<close>

definition drop_block :: "fs \<Rightarrow> nat \<Rightarrow> nat \<Rightarrow> nat \<Rightarrow> fs option" where
  "drop_block s a block_idx x =
     (let idx = sub32 x (data_start_lba (sb s)) in
      do { b \<leftarrow> bitmap_set (block_bitmap s) idx 0;
           s \<leftarrow> bitmap_sync (s\<lparr>block_bitmap := b\<rparr>) idx BLOCK_BITMAP;
           if block_idx < 12 then set_sector s a block_idx 0 else None })"

definition clear_slot :: "fs \<Rightarrow> nat \<Rightarrow> u8 list \<Rightarrow> nat \<Rightarrow> fs option" where
  "clear_slot s x buf k =
     do { buf \<leftarrow> wr_block buf (24 * k) (replicate (dir_entry_size (sb s)) 0);
          d \<leftarrow> disk_write (disk s) x buf 1;
          Some (s\<lparr>disk := d\<rparr>) }"

definition sub_size :: "fs \<Rightarrow> nat \<Rightarrow> fs option" where
  "sub_size s a =
     do { ino \<leftarrow> inodes s a;
          kassert (dir_entry_size (sb s) \<le> i_size ino);
          let ino = ino\<lparr>i_size := i_size ino - dir_entry_size (sb s)\<rparr> in
          inode_sync (s\<lparr>inodes := (inodes s)(a \<mapsto> ino)\<rparr>) ino }"

fun delete_blocks :: "fs \<Rightarrow> nat \<Rightarrow> nat \<Rightarrow> nat list \<Rightarrow> nat \<Rightarrow> (bool \<times> fs) option" where
  "delete_blocks s a inode_no [] block_idx = Some (False, s)"
| "delete_blocks s a inode_no (x # xs) block_idx =
     (if x = 0 then delete_blocks s a inode_no xs (Suc block_idx)
      else
        do { buf \<leftarrow> disk_read (disk s) x 1;
             c \<leftarrow> scan_sector buf inode_no (512 div dir_entry_size (sb s)) 0
               \<lparr>is_dir_first_block = False, dir_entry_cnt = 0, dir_entry_found = None\<rparr>;
             case dir_entry_found c of
               None \<Rightarrow> delete_blocks s a inode_no xs (Suc block_idx)
             | Some k \<Rightarrow>
                 do { kassert (1 \<le> dir_entry_cnt c);
                      s \<leftarrow> (if dir_entry_cnt c = 1 \<and> \<not> is_dir_first_block c
                           then drop_block s a block_idx x else clear_slot s x buf k);
                      s \<leftarrow> sub_size s a;
                      Some (True, s) } })"

definition delete_dir_entry :: "fs \<Rightarrow> nat \<Rightarrow> nat \<Rightarrow> (bool \<times> fs) option" where
  "delete_dir_entry s pdir inode_no =
     do { d \<leftarrow> dirs s pdir;
          ino \<leftarrow> inodes s (d_inode d);
          blocks \<leftarrow> dir_blocks s ino;
          delete_blocks s (d_inode d) inode_no blocks 0 }"

section \<open>Enumerating\<close>

text \<open>
  The slots of one sector: entries before \<open>dir_pos\<close> are skipped; \<open>Inl\<close> is the position
  reached, \<open>Inr\<close> the slot found.
\<close>

function read_sector :: "u8 list \<Rightarrow> nat \<Rightarrow> nat \<Rightarrow> nat \<Rightarrow> nat \<Rightarrow> nat \<Rightarrow> (nat + nat) option" where
  "read_sector buf esz per_sec pos idx cur =
     (if idx < per_sec then
        (if dec32 (drop (24 * idx + 20) buf) \<noteq> FT_UNKNOWN then
           (if cur < pos then read_sector buf esz per_sec pos (Suc idx) (w32 (cur + esz))
            else do { kassert (cur = pos); Some (Inr idx) })
         else read_sector buf esz per_sec pos (Suc idx) cur)
      else Some (Inl cur))"
  by pat_completeness auto
termination
  by (relation "measure (\<lambda>(b, z, p, q, j, c). p - j)") auto

declare read_sector.simps [simp del]

fun read_blocks :: "fs \<Rightarrow> inode \<Rightarrow> nat \<Rightarrow> nat list \<Rightarrow> nat \<Rightarrow> dir_entry option option" where
  "read_blocks s ino pos [] cur = Some None"
| "read_blocks s ino pos (x # xs) cur =
     (if i_size ino \<le> pos then Some None
      else if x = 0 then read_blocks s ino pos xs cur
      else
        do { buf \<leftarrow> disk_read (disk s) x 1;
             r \<leftarrow> read_sector buf (dir_entry_size (sb s)) (512 div dir_entry_size (sb s)) pos 0 cur;
             case r of
               Inl cur \<Rightarrow> read_blocks s ino pos xs cur
             | Inr k \<Rightarrow> do { e \<leftarrow> rd_block buf (24 * k) 24; Some (Some (dec_dir_entry e)) } })"

text \<open>The result stands for the entry the returned pointer leads to in \<open>dir_buf\<close>.\<close>

definition dir_read :: "fs \<Rightarrow> nat \<Rightarrow> (dir_entry option \<times> fs) option" where
  "dir_read s p =
     do { d \<leftarrow> dirs s p;
          ino \<leftarrow> inodes s (d_inode d);
          blocks \<leftarrow> dir_blocks s ino;
          t \<leftarrow> rd (i_sectors ino) 12;
          r \<leftarrow> read_blocks s ino (dir_pos d) (if t \<noteq> 0 then blocks else take 12 blocks) 0;
          case r of
            None \<Rightarrow> Some (None, s)
          | Some e \<Rightarrow> Some (Some e, s\<lparr>dirs := (dirs s)(p \<mapsto>
              d\<lparr>dir_pos := w32 (dir_pos d + dir_entry_size (sb s))\<rparr>)\<rparr>) }"

section \<open>Removing a directory, creating a file\<close>

definition dir_is_empty :: "fs \<Rightarrow> nat \<Rightarrow> bool option" where
  "dir_is_empty s p = do { ino \<leftarrow> dir_inode s p; Some (i_size ino = w32 (dir_entry_size (sb s) * 2)) }"

definition dir_remove :: "fs \<Rightarrow> nat \<Rightarrow> nat \<Rightarrow> (int \<times> fs) option" where
  "dir_remove s parent_dir child_dir =
     do { ino \<leftarrow> dir_inode s child_dir;
          kassert (12 < length (i_sectors ino));
          kassert (\<forall>k \<in> {1..<13}. i_sectors ino ! k = 0);
          let (io_buf, s) = kmalloc s in
          if io_buf = 0 then Some (- 1, s)
          else
            do { (_, s) \<leftarrow> delete_dir_entry s parent_dir (i_no ino);
                 s \<leftarrow> inode_release s (i_no ino);
                 Some (0, s) } }"

definition roll_back :: "fs \<Rightarrow> nat \<Rightarrow> nat \<Rightarrow> nat \<Rightarrow> int \<Rightarrow> (int \<times> fs) option" where
  "roll_back s step inode_no a fd_idx =
     do { s \<leftarrow> (if step = 3
            then upd_file s (nat fd_idx) (\<lambda>f. \<lparr>fd_pos = 0, fd_flag = 0, fd_inode = 0, count = 0,
                   op = Null_ops, private_data = 0\<rparr>)
            else Some s);
          let s = (if 2 \<le> step then s\<lparr>inodes := (inodes s)(a := None)\<rparr> else s) in
          do { b \<leftarrow> bitmap_set (inode_bitmap s) inode_no 0;
               Some (- 1, s\<lparr>inode_bitmap := b\<rparr>) } }"

text \<open>Steps \<open>a\<close> to \<open>e\<close>: enter the name, write the inodes and the bitmap, open.\<close>

definition install_file :: "fs \<Rightarrow> nat \<Rightarrow> u8 list \<Rightarrow> nat \<Rightarrow> nat \<Rightarrow> int \<Rightarrow> (int \<times> fs) option" where
  "install_file s parent_dir name inode_no a fd_idx =
     do { e \<leftarrow> create_dir_entry name inode_no FT_REGULAR zero_dir_entry;
          (ok, s) \<leftarrow> sync_dir_entry s parent_dir e;
          if \<not> ok then roll_back s 3 inode_no a fd_idx
          else
            do { p \<leftarrow> dir_inode s parent_dir;
                 s \<leftarrow> inode_sync s p;
                 ino \<leftarrow> inodes s a;
                 s \<leftarrow> inode_sync s ino;
                 s \<leftarrow> bitmap_sync s inode_no INODE_BITMAP;
                 pcb_fd_install (s\<lparr>open_inodes := a # open_inodes s,
                     inodes := (inodes s)(a \<mapsto> ino\<lparr>i_open_cnts := 1\<rparr>)\<rparr>) fd_idx } }"

definition file_create :: "fs \<Rightarrow> nat \<Rightarrow> u8 list \<Rightarrow> nat \<Rightarrow> (int \<times> fs) option" where
  "file_create s parent_dir name flag =
     (let (io_buf, s) = kmalloc s in
      if io_buf = 0 then Some (- 1, s)
      else
        do { (inode_no, s) \<leftarrow> inode_bitmap_alloc s;
             if inode_no = - 1 then Some (- 1, s)
             else
               let (a, s) = kmalloc s in
               if a = 0 then roll_back s 1 (nat inode_no) a (- 1)
               else
                 let s = s\<lparr>inodes := (inodes s)(a \<mapsto> inode_init (nat inode_no))\<rparr> in
                 do { (fd_idx, s) \<leftarrow> get_free_slot_in_global s;
                      if fd_idx = - 1 then roll_back s 2 (nat inode_no) a fd_idx
                      else
                        do { s \<leftarrow> upd_file s (nat fd_idx) (\<lambda>f. (init_file_struct f)\<lparr>fd_inode := a,
                               fd_flag := flag, count := count (init_file_struct f) + 1, op := Disk_ops\<rparr>);
                             install_file s parent_dir name (nat inode_no) a fd_idx } } })"

end
