(* ===== verification/Dirview.thy ===== *)
theory Dirview
  imports Dir
begin

text \<open>
  The directory operations of \<open>src/src/fs/dir.c\<close> against the view of a directory as a
  partial map from slots to used entries, for directories within their twelve direct
  blocks. The locale \<open>name_store\<close> states what the rest of the file system relies on.
\<close>

section \<open>Slots\<close>

definition bslot :: "u8 list \<Rightarrow> nat \<Rightarrow> dir_entry" where
  "bslot buf k = dec_dir_entry (drop (24 * k) buf)"

definition ename :: "dir_entry \<Rightarrow> u8 list" where
  "ename e = takeWhile (\<lambda>c. c \<noteq> 0) (filename e)"

text \<open>A terminated name, empty exactly for a free slot.\<close>

definition entry_ok :: "dir_entry \<Rightarrow> bool" where
  "entry_ok e \<longleftrightarrow> 0 \<in> set (filename e) \<and> (f_type e = 0 \<longleftrightarrow> ename e = [])"

definition entry_wf :: "dir_entry \<Rightarrow> bool" where
  "entry_wf e \<longleftrightarrow> length (filename e) = 16 \<and> de_i_no e < 4294967296 \<and> f_type e < 4294967296"

lemma dec32_cong: "4 \<le> length bs \<Longrightarrow> take 4 bs = take 4 bs' \<Longrightarrow> 4 \<le> length bs' \<Longrightarrow> dec32 bs = dec32 bs'"
proof -
  assume h: "4 \<le> length bs" "take 4 bs = take 4 bs'" "4 \<le> length bs'"
  have "bs ! i = bs' ! i" if "i < 4" for i
    using arg_cong [OF h(2), of "\<lambda>x. x ! i"] that by simp
  then show ?thesis by (simp add: dec32_def)
qed

lemma dec_dir_entry_take [simp]: "24 \<le> length bs \<Longrightarrow> dec_dir_entry (take 24 bs) = dec_dir_entry bs"
  by (auto simp: dec_dir_entry_def drop_take min_def intro!: dec32_cong)

lemma length_enc_dir_entry [simp]: "entry_wf e \<Longrightarrow> length (enc_dir_entry e) = 24"
  by (simp add: enc_dir_entry_def entry_wf_def)

lemma dec_enc_dir_entry [simp]: "entry_wf e \<Longrightarrow> dec_dir_entry (enc_dir_entry e @ bs) = e"
  by (simp add: dec_dir_entry_def enc_dir_entry_def entry_wf_def)

lemma enc_zero_dir_entry: "enc_dir_entry zero_dir_entry = replicate 24 0" "entry_wf zero_dir_entry"
proof -
  show "enc_dir_entry zero_dir_entry = replicate 24 0"
    by (rule nth_equalityI)
      (auto simp: enc_dir_entry_def zero_dir_entry_def enc32_def FT_UNKNOWN_def nth_append nth_Cons' One_nat_def)
  show "entry_wf zero_dir_entry" by (simp add: zero_dir_entry_def entry_wf_def FT_UNKNOWN_def)
qed

lemma entry_ok_zero: "entry_ok zero_dir_entry" "f_type zero_dir_entry = 0"
  by (simp_all add: entry_ok_def zero_dir_entry_def ename_def FT_UNKNOWN_def takeWhile_replicate)

lemma bslot_put:
  assumes "wr_block buf (24 * k) (enc_dir_entry e) = Some buf'" and "entry_wf e" and "length buf = 512"
    and "k' < 21" 
  shows "bslot buf' k' = (if k' = k then e else bslot buf k')"
proof (cases "k' = k")
  case True
  with assms show ?thesis by (auto simp: bslot_def wr_block_eq_Some)
next
  case False
  have l: "length buf' = 512" using wr_block_length [OF assms(1)] assms(3) by simp
  have d: "24 \<le> length (drop (24 * k') buf')" "24 \<le> length (drop (24 * k') buf)"
    using l assms(3,4) by simp_all
  have "take 24 (drop (24 * k') buf') = take 24 (drop (24 * k') buf)"
  proof (rule nth_equalityI)
    fix i assume "i < length (take 24 (drop (24 * k') buf'))"
    then have i: "i < 24" "24 * k' + i < 512" using l assms(4) by auto
    have "\<not> (24 * k \<le> 24 * k' + i \<and> 24 * k' + i < 24 * k + 24)" using False i(1) by presburger
    then show "take 24 (drop (24 * k') buf') ! i = take 24 (drop (24 * k') buf) ! i"
      using i nth_wr_block [OF assms(1), of "24 * k' + i"] assms(2,3) l by auto
  qed (use l assms(3) in simp)
  then have "dec_dir_entry (drop (24 * k') buf') = dec_dir_entry (drop (24 * k') buf)"
    using dec_dir_entry_take [OF d(1)] dec_dir_entry_take [OF d(2)] by metis
  with False show ?thesis by (simp add: bslot_def)
qed

lemma bslot_fields:
  "dec32 (drop (24 * k + 20) buf) = f_type (bslot buf k)" "dec32 (drop (24 * k + 16) buf) = de_i_no (bslot buf k)"
  by (simp_all add: bslot_def dec_dir_entry_def add.commute)

section \<open>Comparing names\<close>

lemma cstr_nth:
  "0 \<notin> set t \<Longrightarrow> (\<And>i. i \<le> length t \<Longrightarrow> m (p + i) = Some ((t @ [0]) ! i)) \<Longrightarrow> cstr m p t"
proof (induction t arbitrary: p)
  case Nil
  from Nil.prems(2) [of 0] show ?case by simp
next
  case (Cons c t)
  have "m (Suc p + i) = Some ((t @ [0]) ! i)" if "i \<le> length t" for i
    using Cons.prems(2) [of "Suc i"] that by simp
  with Cons.IH [of "Suc p"] Cons.prems(1) Cons.prems(2) [of 0] show ?case by simp
qed

lemma cstr_name: "0 \<notin> set name \<Longrightarrow> length buf \<le> 4096 \<Longrightarrow> cstr (two_bufs buf name) 8192 name"
  by (rule cstr_nth) (auto simp: two_bufs_def nth_append)

lemma cstr_slot:
  assumes "0 \<in> set (drop off buf)" "off < length buf" "length buf \<le> 4096"
  shows "cstr (two_bufs buf name) (4096 + off) (takeWhile (\<lambda>c. c \<noteq> 0) (drop off buf))"
proof (rule cstr_nth)
  let ?t = "takeWhile (\<lambda>c. c \<noteq> 0) (drop off buf)"
  show "0 \<notin> set ?t" by (auto dest: set_takeWhileD)
  have l: "length ?t < length (drop off buf)"
  proof (rule ccontr)
    assume "\<not> ?thesis"
    then have "?t = drop off buf" by (metis leI take_all takeWhile_eq_take)
    with assms(1) show False by (metis (mono_tags, lifting) takeWhile_eq_all_conv)
  qed
  fix i assume i: "i \<le> length ?t"
  have "(?t @ [0]) ! i = drop off buf ! i"
  proof (cases "i = length ?t")
    case True
    then show ?thesis using nth_length_takeWhile [OF l] by simp
  next
    case False
    then show ?thesis using i by (simp add: nth_append takeWhile_nth)
  qed
  moreover have "off + i < length buf" using i l by simp
  ultimately show "two_bufs buf name (4096 + off + i) = Some ((?t @ [0]) ! i)"
    using assms(2) by (simp add: two_bufs_def)
qed

lemma takeWhile_take: "0 \<in> set (take n xs) \<Longrightarrow> takeWhile (\<lambda>c. c \<noteq> 0) xs = takeWhile (\<lambda>c. c \<noteq> 0) (take n xs)"
  for xs :: "u8 list"
  by (metis (mono_tags, lifting) append_take_drop_id takeWhile_append1)

lemma name_is_spec:
  assumes "entry_ok (bslot buf k)" "length buf = 512" "k < 21" "0 \<notin> set name"
  shows "name_is buf k name = Some (ename (bslot buf k) = name)"
proof -
  have z: "0 \<in> set (take 16 (drop (24 * k) buf))"
    using assms(1) by (simp add: entry_ok_def bslot_def dec_dir_entry_def)
  then have z': "0 \<in> set (drop (24 * k) buf)" by (rule in_set_takeD)
  have n: "ename (bslot buf k) = takeWhile (\<lambda>c. c \<noteq> 0) (drop (24 * k) buf)"
    using takeWhile_take [OF z] by (simp add: ename_def bslot_def dec_dir_entry_def)
  have nz: "0 \<notin> set (takeWhile (\<lambda>c. c \<noteq> 0) (drop (24 * k) buf))" by (auto dest: set_takeWhileD)
  have "strcmp (two_bufs buf name) (4096 + 24 * k) 8192
      = Some (sc_cmp (takeWhile (\<lambda>c. c \<noteq> 0) (drop (24 * k) buf)) name)"
    by (rule strcmp_cstr [OF cstr_slot cstr_name]) (use assms z' in auto)
  then show ?thesis using sc_cmp_eq_0 [OF nz assms(4)] by (simp add: name_is_def n)
qed

section \<open>The view of a directory\<close>

definition slot_at :: "fs \<Rightarrow> inode \<Rightarrow> nat \<Rightarrow> nat \<Rightarrow> dir_entry" where
  "slot_at s ino j k = bslot (disk s (i_sectors ino ! j)) k"

text \<open>The used entries by block and slot.\<close>

definition live :: "fs \<Rightarrow> inode \<Rightarrow> nat \<times> nat \<rightharpoonup> dir_entry" where
  "live s ino = (\<lambda>(j, k). if j < 12 \<and> k < 21 \<and> i_sectors ino ! j \<noteq> 0 \<and> f_type (slot_at s ino j k) \<noteq> 0
     then Some (slot_at s ino j k) else None)"

definition names_ok :: "(nat \<times> nat \<rightharpoonup> dir_entry) \<Rightarrow> bool" where
  "names_ok m \<longleftrightarrow> (\<forall>p q e f. m p = Some e \<longrightarrow> m q = Some f \<longrightarrow> ename e = ename f \<longrightarrow> p = q)
     \<and> (\<forall>j k e. m (j, k) = Some e \<longrightarrow> ename e = dotdot \<longrightarrow> (\<exists>k' e'. m (j, k') = Some e' \<and> ename e' = dot))"

definition dir_ok :: "fs \<Rightarrow> inode \<Rightarrow> bool" where
  "dir_ok s ino \<longleftrightarrow> inode_wf ino \<and> i_sectors ino ! 12 = 0
     \<and> (\<forall>j < 12. i_sectors ino ! j \<noteq> 0 \<longrightarrow> taken s (i_sectors ino ! j))
     \<and> (\<forall>i < 12. \<forall>j < 12. i_sectors ino ! i = i_sectors ino ! j \<longrightarrow> i_sectors ino ! i \<noteq> 0 \<longrightarrow> i = j)
     \<and> (\<forall>j < 12. \<forall>k < 21. i_sectors ino ! j \<noteq> 0 \<longrightarrow> entry_ok (slot_at s ino j k))
     \<and> names_ok (live s ino) \<and> i_size ino = 24 * card (dom (live s ino))"

definition dir_view :: "fs \<Rightarrow> inode \<Rightarrow> dir_entry set" where
  "dir_view s ino = ran (live s ino)"

lemma live_dom: "dom (live s ino) \<subseteq> {..<12} \<times> {..<21}"
  by (auto simp: live_def split: if_splits)

lemma live_finite [simp]: "finite (dom (live s ino))"
  by (rule finite_subset [OF live_dom]) simp

lemma card_live: "card (dom (live s ino)) \<le> 252"
  using card_mono [OF _ live_dom, of s ino] by (simp add: card_cartesian_product)

text \<open>Blocks whose slots can be compared.\<close>

definition block_ok :: "fs \<Rightarrow> nat \<Rightarrow> bool" where
  "block_ok s b \<longleftrightarrow> b \<le> max_lba \<and> (\<forall>k < 21. entry_ok (bslot (disk s b) k))"

lemma dir_block_ok:
  assumes "dir_ok s ino" and "j < 12" and "i_sectors ino ! j \<noteq> 0"
  shows "block_ok s (i_sectors ino ! j)"
  using assms taken_bounds by (auto simp: dir_ok_def block_ok_def slot_at_def)

lemma block_read: "block_ok s b \<Longrightarrow> disk_read (disk s) b 1 = Some (disk s b)"
  by (rule sector_read) (simp add: ide_ok_small block_ok_def)

lemma dir_blocks_direct:
  assumes "dir_ok s ino"
  shows "dir_blocks s ino = Some (take 12 (i_sectors ino) @ replicate 128 0)" "length (i_sectors ino) = 13"
  using assms by (auto simp: dir_blocks_def dir_ok_def inode_wf_def)

section \<open>Searching\<close>

lemma search_sector_spec:
  assumes "\<forall>k < 21. entry_ok (bslot buf k)" "length buf = 512" "0 \<notin> set name"
  shows "i + n \<le> 21 \<Longrightarrow> \<exists>r. search_sector buf name i n = Some r
    \<and> (case r of Some k \<Rightarrow> i \<le> k \<and> k < i + n \<and> ename (bslot buf k) = name
       | None \<Rightarrow> \<forall>k. i \<le> k \<longrightarrow> k < i + n \<longrightarrow> ename (bslot buf k) \<noteq> name)"
proof (induction n arbitrary: i)
  case 0
  then show ?case by simp
next
  case (Suc n)
  have c: "name_is buf i name = Some (ename (bslot buf i) = name)"
    by (rule name_is_spec) (use assms Suc.prems in auto)
  show ?case
  proof (cases "ename (bslot buf i) = name")
    case True
    with c show ?thesis by simp
  next
    case False
    from Suc.IH [of "Suc i"] Suc.prems obtain r where r: "search_sector buf name (Suc i) n = Some r"
      "case r of Some k \<Rightarrow> Suc i \<le> k \<and> k < Suc i + n \<and> ename (bslot buf k) = name
       | None \<Rightarrow> \<forall>k. Suc i \<le> k \<longrightarrow> k < Suc i + n \<longrightarrow> ename (bslot buf k) \<noteq> name" by auto
    have "ename (bslot buf k) \<noteq> name" if "r = None" "i \<le> k" "k < i + Suc n" for k
      using r(2) that False by (cases "k = i") auto
    with r c False show ?thesis by (auto split: option.splits)
  qed
qed

lemma search_blocks_spec:
  assumes wf: "fs_wf s" and z: "0 \<notin> set name"
  shows "(\<forall>b \<in> set bs. b \<noteq> 0 \<longrightarrow> block_ok s b) \<Longrightarrow> \<exists>r. search_blocks s name bs = Some r
    \<and> (case r of Some e \<Rightarrow> \<exists>b \<in> set bs. b \<noteq> 0 \<and> (\<exists>k < 21. e = bslot (disk s b) k \<and> ename e = name)
       | None \<Rightarrow> \<forall>b \<in> set bs. b \<noteq> 0 \<longrightarrow> (\<forall>k < 21. ename (bslot (disk s b) k) \<noteq> name))"
proof (induction bs)
  case Nil
  then show ?case by simp
next
  case (Cons b bs)
  then obtain r where r: "search_blocks s name bs = Some r"
    "case r of Some e \<Rightarrow> \<exists>b \<in> set bs. b \<noteq> 0 \<and> (\<exists>k < 21. e = bslot (disk s b) k \<and> ename e = name)
       | None \<Rightarrow> \<forall>b \<in> set bs. b \<noteq> 0 \<longrightarrow> (\<forall>k < 21. ename (bslot (disk s b) k) \<noteq> name)" by auto
  show ?case
  proof (cases "b = 0")
    case True
    with r show ?thesis by (auto split: option.splits)
  next
    case False
    with Cons.prems have ok: "block_ok s b" by simp
    have len: "length (disk s b) = 512" using fs_wfD(1) [OF wf] by (simp add: disk_ok_def)
    have sz: "512 div dir_entry_size (sb s) = 21" "dir_entry_size (sb s) = 24" using fs_wfD(2) [OF wf] by simp_all
    from search_sector_spec [of "disk s b" name 0 21] ok len z obtain q where
      q: "search_sector (disk s b) name 0 21 = Some q"
      "case q of Some k \<Rightarrow> k < 21 \<and> ename (bslot (disk s b) k) = name
       | None \<Rightarrow> \<forall>k < 21. ename (bslot (disk s b) k) \<noteq> name" by (auto simp: block_ok_def split: option.splits)
    show ?thesis
    proof (cases q)
      case None
      with q r block_read [OF ok] sz False show ?thesis by (auto split: option.splits)
    next
      case (Some k)
      then have k: "k < 21" using q(2) by simp
      then have "rd_block (disk s b) (24 * k) 24 = Some (take 24 (drop (24 * k) (disk s b)))"
        using len by (simp add: rd_block_def)
      moreover have "dec_dir_entry (take 24 (drop (24 * k) (disk s b))) = bslot (disk s b) k"
        using len k by (simp add: bslot_def)
      ultimately show ?thesis using Some q block_read [OF ok] sz False k by auto
    qed
  qed
qed

lemma live_Some:
  "live s ino (j, k) = Some e \<longleftrightarrow> j < 12 \<and> k < 21 \<and> i_sectors ino ! j \<noteq> 0 \<and> e = slot_at s ino j k \<and> f_type e \<noteq> 0"
  by (auto simp: live_def)

lemma dir_view_iff:
  "e \<in> dir_view s ino \<longleftrightarrow> (\<exists>j < 12. i_sectors ino ! j \<noteq> 0 \<and> (\<exists>k < 21. e = slot_at s ino j k \<and> f_type e \<noteq> 0))"
  unfolding dir_view_def ran_def by (auto simp: live_Some)

lemma names_unique: "names_ok m \<Longrightarrow> e \<in> ran m \<Longrightarrow> f \<in> ran m \<Longrightarrow> ename e = ename f \<Longrightarrow> e = f"
proof -
  assume n: "names_ok m" and "e \<in> ran m" "f \<in> ran m" "ename e = ename f"
  then obtain p q where p: "m p = Some e" "m q = Some f" by (auto simp: ran_def)
  with n \<open>ename e = ename f\<close> have "p = q" unfolding names_ok_def by blast
  with p show ?thesis by simp
qed

lemma search_dir_entry_spec:
  assumes wf: "fs_wf s" and d: "dir_inode s pdir = Some ino" and ok: "dir_ok s ino"
    and name: "name \<noteq> []" "0 \<notin> set name" and mem: "alloc_ok s (allocs s)" "alloc_ok s (allocs s + 1)"
  shows "\<exists>r. search_dir_entry s pdir name = Some (r, s\<lparr>allocs := allocs s + 2\<rparr>)
    \<and> (\<forall>e. r = Some e \<longleftrightarrow> e \<in> dir_view s ino \<and> ename e = name)"
proof -
  let ?s = "s\<lparr>allocs := allocs s + 1 + 1\<rparr>"
  let ?bs = "take 12 (i_sectors ino) @ replicate 128 0"
  note len = dir_blocks_direct(2) [OF ok]
  have set_bs: "b \<in> set ?bs \<and> b \<noteq> 0 \<longleftrightarrow> (\<exists>j < 12. b = i_sectors ino ! j \<and> b \<noteq> 0)" for b
    using len by (auto simp: in_set_conv_nth)
  have "\<forall>b \<in> set ?bs. b \<noteq> 0 \<longrightarrow> block_ok s b" using set_bs dir_block_ok [OF ok] by metis
  from search_blocks_spec [OF wf name(2) this] obtain r where
    r: "search_blocks s name ?bs = Some r"
    "case r of Some e \<Rightarrow> \<exists>b \<in> set ?bs. b \<noteq> 0 \<and> (\<exists>k < 21. e = bslot (disk s b) k \<and> ename e = name)
       | None \<Rightarrow> \<forall>b \<in> set ?bs. b \<noteq> 0 \<longrightarrow> (\<forall>k < 21. ename (bslot (disk s b) k) \<noteq> name)" by blast
  have used: "f_type (slot_at s ino j k) \<noteq> 0 \<longleftrightarrow> ename (slot_at s ino j k) \<noteq> []"
    if "j < 12" "k < 21" "i_sectors ino ! j \<noteq> 0" for j k
    using ok that by (auto simp: dir_ok_def entry_ok_def)
  have view: "e \<in> dir_view s ino \<and> ename e = name \<longleftrightarrow>
      (\<exists>b \<in> set ?bs. b \<noteq> 0 \<and> (\<exists>k < 21. e = bslot (disk s b) k \<and> ename e = name))" for e
  proof -
    have "e \<in> dir_view s ino \<and> ename e = name \<longleftrightarrow>
      (\<exists>j < 12. i_sectors ino ! j \<noteq> 0 \<and> (\<exists>k < 21. e = slot_at s ino j k \<and> ename e = name))"
      using used name(1) by (auto simp: dir_view_iff)
    also have "\<dots> \<longleftrightarrow> (\<exists>b \<in> set ?bs. b \<noteq> 0 \<and> (\<exists>k < 21. e = bslot (disk s b) k \<and> ename e = name))"
      unfolding slot_at_def using set_bs by metis
    finally show ?thesis .
  qed
  have res: "r = Some e \<longleftrightarrow> e \<in> dir_view s ino \<and> ename e = name" for e
  proof (cases r)
    case None
    with r(2) have "\<not> (e \<in> dir_view s ino \<and> ename e = name)" unfolding view by auto
    with None show ?thesis by simp
  next
    case (Some f)
    with r(2) have f: "f \<in> dir_view s ino \<and> ename f = name" unfolding view by auto
    have "names_ok (live s ino)" using ok by (simp add: dir_ok_def)
    from names_unique [OF this] f show ?thesis using Some by (auto simp: dir_view_def)
  qed
  have irr: "search_blocks ?s name bs = search_blocks s name bs" for bs
    by (induction bs) (auto cong: option.case_cong Option.bind_cong)
  have "dir_blocks (s\<lparr>allocs := allocs s + 1\<rparr>) ino = dir_blocks s ino" by (simp add: dir_blocks_def cong: if_cong)
  then have "search_dir_entry s pdir name = Some (r, s\<lparr>allocs := allocs s + 2\<rparr>)"
    using d mem r(1) dir_blocks_direct(1) [OF ok] irr
    by (auto simp: search_dir_entry_def kmalloc_def Let_def dir_inode_def bind_eq_Some_conv One_nat_def)
  with res show ?thesis by blast
qed

section \<open>Inserting\<close>

lemma free_slot_spec:
  "free_slot buf i n = r \<Longrightarrow> (case r of
     Some k \<Rightarrow> i \<le> k \<and> k < i + n \<and> f_type (bslot buf k) = 0 \<and> (\<forall>j. i \<le> j \<longrightarrow> j < k \<longrightarrow> f_type (bslot buf j) \<noteq> 0)
   | None \<Rightarrow> \<forall>k. i \<le> k \<longrightarrow> k < i + n \<longrightarrow> f_type (bslot buf k) \<noteq> 0)"
proof (induction n arbitrary: i)
  case 0
  then show ?case by auto
next
  case (Suc n)
  show ?case
  proof (cases "f_type (bslot buf i) = 0")
    case True
    with Suc.prems show ?thesis by (auto simp: bslot_fields FT_UNKNOWN_def)
  next
    case False
    then have "free_slot buf (Suc i) n = r" using Suc.prems by (simp add: bslot_fields FT_UNKNOWN_def)
    note h = Suc.IH [OF this]
    have "f_type (bslot buf k) \<noteq> 0" if "r = None" "i \<le> k" "k < i + Suc n" for k
      using h that False by (cases "k = i") auto
    moreover have "f_type (bslot buf j) \<noteq> 0" if "r = Some k" "i \<le> j" "j < k" for j k
      using h that False by (cases "j = i") auto
    ultimately show ?thesis using h by (auto split: option.splits)
  qed
qed

text \<open>The block the next entry goes to: the first that is missing or has a free slot.\<close>

definition roomy :: "fs \<Rightarrow> inode \<Rightarrow> nat \<Rightarrow> bool" where
  "roomy s ino j \<longleftrightarrow> i_sectors ino ! j = 0 \<or> (\<exists>k < 21. f_type (slot_at s ino j k) = 0)"

text \<open>
  What an insertion of \<open>e\<close> at slot \<open>p\<close> establishes, short of the block bookkeeping.
\<close>

lemma names_put:
  assumes n: "names_ok m" and new: "\<forall>f \<in> ran m. ename f \<noteq> ename e" and p: "m p = None"
    and d: "ename e \<noteq> dotdot"
  shows "names_ok (m(p \<mapsto> e))" "ran (m(p \<mapsto> e)) = insert e (ran m)"
proof -
  have new': "\<And>q f. m q = Some f \<Longrightarrow> ename f \<noteq> ename e" using new by (auto simp: ran_def)
  have 1: "q = r" if h: "(m(p \<mapsto> e)) q = Some f" "(m(p \<mapsto> e)) r = Some g" "ename f = ename g" for q r f g
  proof -
    have inj: "\<And>q r f g. m q = Some f \<Longrightarrow> m r = Some g \<Longrightarrow> ename f = ename g \<Longrightarrow> q = r"
      using n unfolding names_ok_def by blast
    show ?thesis
    proof (cases "q = p"; cases "r = p")
      assume "q \<noteq> p" "r \<noteq> p"
      with h inj show ?thesis by simp
    next
      assume "q = p" "r \<noteq> p"
      with h new' [of r g] show ?thesis by simp
    next
      assume "q \<noteq> p" "r = p"
      with h new' [of q f] show ?thesis by simp
    qed simp
  qed
  have 2: "\<exists>k' e'. (m(p \<mapsto> e)) (j, k') = Some e' \<and> ename e' = dot"
    if h: "(m(p \<mapsto> e)) (j, k) = Some f" "ename f = dotdot" for j k f
  proof -
    have "m (j, k) = Some f" using h d by (cases "(j, k) = p") auto
    with h n obtain k' e' where "m (j, k') = Some e'" "ename e' = dot" unfolding names_ok_def by blast
    then show ?thesis using p by (intro exI [of _ k'] exI [of _ e']) auto
  qed
  show "names_ok (m(p \<mapsto> e))" unfolding names_ok_def using 1 2 by blast
  show "ran (m(p \<mapsto> e)) = insert e (ran m)" using p by (simp add: ran_map_upd)
qed

text \<open>The inode after an insertion, and the change of the state as a whole.\<close>

definition inserted :: "fs \<Rightarrow> nat \<Rightarrow> inode \<Rightarrow> dir_entry \<Rightarrow> fs \<Rightarrow> inode \<Rightarrow> bool" where
  "inserted s a ino e s' ino' \<longleftrightarrow> inodes s' a = Some ino' \<and> dir_ok s' ino'
     \<and> dir_view s' ino' = insert e (dir_view s ino) \<and> i_no ino' = i_no ino
     \<and> i_open_cnts ino' = i_open_cnts ino \<and> write_deny ino' = write_deny ino
     \<and> kept s a {i_sectors ino ! j | j. j < 12} s'
     \<and> dirs s' = dirs s \<and> allocs s' = allocs s \<and> open_inodes s' = open_inodes s
     \<and> file_table s' = file_table s \<and> fd_table s' = fd_table s \<and> inode_bitmap s' = inode_bitmap s"

definition new_entry :: "fs \<Rightarrow> inode \<Rightarrow> dir_entry \<Rightarrow> bool" where
  "new_entry s ino e \<longleftrightarrow> entry_wf e \<and> entry_ok e \<and> f_type e \<noteq> 0 \<and> ename e \<noteq> dotdot
     \<and> (\<forall>f \<in> dir_view s ino. ename f \<noteq> ename e)"

lemma taken_inodes [simp]: "taken (s\<lparr>inodes := m\<rparr>) b = taken s b"
  by (simp add: taken_def data_blk_def)

lemma kept_inodes:
  assumes "kept s a W s1"
  shows "kept s a W (s1\<lparr>inodes := (inodes s1)(a := v)\<rparr>)"
proof -
  have "taken (s1\<lparr>inodes := (inodes s1)(a := v)\<rparr>) b = taken s1 b" for b by (simp add: taken_def data_blk_def)
  moreover have "bitmap_sound (s1\<lparr>inodes := (inodes s1)(a := v)\<rparr>) = bitmap_sound s1" by (simp add: bitmap_sound_def)
  ultimately show ?thesis using assms by (simp add: kept_defs)
qed

text \<open>
  The state after a write of block \<open>x\<close> at index \<open>j\<close>, when only slot \<open>k\<close> of the directory
  becomes different.
\<close>

lemma inserted_intro:
  assumes ok: "dir_ok s ino" and e: "new_entry s ino e" and jk: "j < 12" "k < 21"
    and ino1: "inodes s1 a = Some (ino\<lparr>i_sectors := secs\<rparr>)" and secs: "length secs = 13" "secs ! 12 = 0"
    and x: "secs ! j = x" "x \<noteq> 0" "taken s1 x" and same: "\<forall>i < 12. i \<noteq> j \<longrightarrow> secs ! i = i_sectors ino ! i"
    and xd: "\<forall>i < 12. i \<noteq> j \<longrightarrow> i_sectors ino ! i \<noteq> x"
    and d1: "\<forall>i < 12. i \<noteq> j \<longrightarrow> i_sectors ino ! i \<noteq> 0 \<longrightarrow> disk s1 (i_sectors ino ! i) = disk s (i_sectors ino ! i)"
    and buf: "length buf = 512" "\<forall>k' < 21. k' \<noteq> k \<longrightarrow> entry_ok (bslot buf k')" "bslot buf k = e"
    and live: "\<forall>k' < 21. k' \<noteq> k \<longrightarrow> f_type (bslot buf k') \<noteq> 0 \<longrightarrow> live s ino (j, k') = Some (bslot buf k')"
    and live': "\<forall>k' < 21. k' \<noteq> k \<longrightarrow> live s ino (j, k') \<noteq> None \<longrightarrow> f_type (bslot buf k') \<noteq> 0"
    and free: "live s ino (j, k) = None"
    and kept: "kept s a {i_sectors ino ! j | j. j < 12} s1" and xW: "x \<in> {i_sectors ino ! j | j. j < 12} \<or> \<not> taken s x"
    and oth: "dirs s1 = dirs s" "allocs s1 = allocs s" "open_inodes s1 = open_inodes s"
      "file_table s1 = file_table s" "fd_table s1 = fd_table s" "inode_bitmap s1 = inode_bitmap s"
  defines "ino' \<equiv> ino\<lparr>i_sectors := secs, i_size := i_size ino + 24\<rparr>"
  defines "s' \<equiv> s1\<lparr>disk := (disk s1)(x := buf), inodes := (inodes s1)(a := Some ino')\<rparr>"
  shows "inserted s a ino e s' ino'" "i_size ino + 24 < 4294967296"
proof -
  have slot: "slot_at s' ino' i k' = (if i = j then bslot buf k' else slot_at s ino i k')"
    if "i < 12" "secs ! i \<noteq> 0" for i k'
    using that same xd d1 x(1,2) by (auto simp: slot_at_def s'_def ino'_def)
  have e': "f_type e \<noteq> 0" "entry_ok e" "ename e \<noteq> dotdot" "\<forall>f \<in> ran (live s ino). ename f \<noteq> ename e"
    using e by (auto simp: new_entry_def dir_view_def)
  have lv: "live s' ino' = (live s ino)((j, k) \<mapsto> e)"
  proof (rule ext)
    fix p :: "nat \<times> nat" obtain i k' where p: "p = (i, k')" by (cases p)
    show "live s' ino' p = ((live s ino)((j, k) \<mapsto> e)) p"
    proof (cases "i = j")
      case True
      have "secs ! j \<noteq> 0" using x by simp
      note sl = slot [OF jk(1) this]
      show ?thesis
      proof (cases "k' = k")
        case True
        then show ?thesis using \<open>i = j\<close> sl jk buf(3) x e'(1) p by (simp add: live_def ino'_def)
      next
        case False
        have l: "live s' ino' (j, k') = (if k' < 21 \<and> f_type (bslot buf k') \<noteq> 0 then Some (bslot buf k') else None)"
          using sl jk x by (simp add: live_def ino'_def)
        have l': "live s ino (j, k') = (if k' < 21 \<and> f_type (bslot buf k') \<noteq> 0 then Some (bslot buf k') else None)"
        proof (cases "k' < 21")
          case True
          with live live' False show ?thesis by (cases "f_type (bslot buf k') = 0") auto
        qed (simp add: live_def)
        show ?thesis unfolding p using l l' False \<open>i = j\<close> by simp
      qed
    next
      case False
      then have eq: "i < 12 \<Longrightarrow> secs ! i = i_sectors ino ! i" using same by blast
      have "live s' ino' (i, k') = live s ino (i, k')"
        using slot [of i k'] eq False by (cases "i < 12"; cases "secs ! i = 0") (auto simp: live_def ino'_def)
      then show ?thesis using False p by simp
    qed
  qed
  have "dom (live s' ino') = insert (j, k) (dom (live s ino))" by (simp add: lv)
  then have card: "card (dom (live s' ino')) = Suc (card (dom (live s ino)))" using free by (simp add: domIff)
  have sz: "i_size ino = 24 * card (dom (live s ino))" using ok by (simp add: dir_ok_def)
  then show small: "i_size ino + 24 < 4294967296" using card_live [of s ino] by simp
  have names: "names_ok (live s ino)" using ok by (simp add: dir_ok_def)
  note put = names_put [OF names e'(4) free e'(3)]
  have tk: "taken s' b = taken s1 b" for b by (simp add: s'_def taken_def data_blk_def)
  have tk1: "taken s b \<Longrightarrow> taken s1 b" for b using kept by (simp add: kept_defs)
  have xb: "x < 4294967296" using taken_bounds [OF x(3)] by simp
  have ok': "dir_ok s' ino'"
    unfolding dir_ok_def
  proof (intro conjI)
    have "secs ! i < 4294967296" if "i < 13" for i
    proof (cases "i = 12")
      case False
      then show ?thesis using that same ok xb x(1) by (cases "i = j") (auto simp: dir_ok_def inode_wf_def)
    qed (use secs in simp)
    then have "\<forall>y \<in> set secs. y < 4294967296" using secs(1) by (auto simp: in_set_conv_nth)
    then show "inode_wf ino'" using ok secs small by (simp add: dir_ok_def inode_wf_def ino'_def)
    show "i_sectors ino' ! 12 = 0" using secs by (simp add: ino'_def)
    show "\<forall>i < 12. i_sectors ino' ! i \<noteq> 0 \<longrightarrow> taken s' (i_sectors ino' ! i)"
    proof (intro allI impI)
      fix i :: nat assume i: "i < 12" "i_sectors ino' ! i \<noteq> 0"
      then show "taken s' (i_sectors ino' ! i)"
        using same ok x tk1 by (cases "i = j") (auto simp: tk dir_ok_def ino'_def)
    qed
    show "\<forall>i < 12. \<forall>l < 12. i_sectors ino' ! i = i_sectors ino' ! l \<longrightarrow> i_sectors ino' ! i \<noteq> 0 \<longrightarrow> i = l"
    proof (intro allI impI)
      fix i l :: nat assume i: "i < 12" "l < 12" "i_sectors ino' ! i = i_sectors ino' ! l" "i_sectors ino' ! i \<noteq> 0"
      have inj: "i = l" if "i_sectors ino ! i = i_sectors ino ! l" "i_sectors ino ! i \<noteq> 0"
        using ok i(1,2) that by (simp add: dir_ok_def)
      show "i = l" using i same xd x inj by (cases "i = j"; cases "l = j") (auto simp: ino'_def)
    qed
    show "\<forall>i < 12. \<forall>k' < 21. i_sectors ino' ! i \<noteq> 0 \<longrightarrow> entry_ok (slot_at s' ino' i k')"
    proof (intro allI impI)
      fix i k' :: nat assume i: "i < 12" "k' < 21" "i_sectors ino' ! i \<noteq> 0"
      then show "entry_ok (slot_at s' ino' i k')"
        using slot [of i k'] buf e' ok same by (cases "i = j"; cases "k' = k") (auto simp: dir_ok_def ino'_def)
    qed
    show "names_ok (live s' ino')" using put(1) lv by simp
    show "i_size ino' = 24 * card (dom (live s' ino'))" using sz card by (simp add: ino'_def)
  qed
  have "kept s a {i_sectors ino ! j | j. j < 12} (s1\<lparr>disk := (disk s1)(x := buf)\<rparr>)"
    by (rule kept_table [OF kept x(3) xW buf(1)])
  from kept_inodes [OF this] have "kept s a {i_sectors ino ! j | j. j < 12} s'"
    by (simp add: s'_def)
  then show "inserted s a ino e s' ino'"
    using ok' put(2) lv oth by (simp add: inserted_def dir_view_def) (simp add: s'_def ino'_def)
qed

lemma bslot_zero: "k < 21 \<Longrightarrow> bslot (replicate 512 0) k = zero_dir_entry"
proof -
  assume "k < 21"
  then have "24 \<le> length (drop (24 * k) (replicate 512 (0 :: u8)))" by simp
  from dec_dir_entry_take [OF this] have "bslot (replicate 512 0) k = dec_dir_entry (replicate 24 0)"
    using \<open>k < 21\<close> by (simp add: bslot_def)
  then show ?thesis using dec_enc_dir_entry [OF enc_zero_dir_entry(2), of "[]"] by (simp add: enc_zero_dir_entry(1))
qed

lemma put_in_range: "k < 21 \<Longrightarrow> length buf = 512 \<Longrightarrow> entry_wf e \<Longrightarrow>
    \<exists>buf'. wr_block buf (24 * k) (enc_dir_entry e) = Some buf' \<and> length buf' = 512"
  by (auto simp: wr_block_def)

lemma sync_bit_eq:
  assumes "fs_wf s" "data_blk s b"
  shows "sync_bit s b = bitmap_sync s (sub32 b (data_start_lba (sb s))) BLOCK_BITMAP"
proof -
  have "sub32 b (data_start_lba (sb s)) \<noteq> 4294967295"
    using sub32_data [OF assms] assms(2) diff_le_self [of b "data_start_lba (sb s)"]
    by (auto simp: data_blk_def max_lba_eq simp del: diff_le_self)
  then show ?thesis by (simp add: sync_bit_def Let_def)
qed

lemma sync_new_block_spec:
  assumes wf: "fs_wf s" "bitmap_sound s" and ino: "inodes s a = Some ino" "dir_ok s ino"
    and e: "new_entry s ino e" and free: "0 < free_bits s" and i: "i < 12" "i_sectors ino ! i = 0"
  shows "\<exists>s' ino'. sync_new_block s a e (take 12 (i_sectors ino) @ replicate 128 0) i = Some (True, s')
    \<and> inserted s a ino e s' ino'"
proof -
  note len = dir_blocks_direct(2) [OF ino(2)]
  from alloc_one [OF wf free, of a] obtain b s1 where b: "block_bitmap_alloc s = Some (int b, s1)"
    "data_blk s b" "\<not> taken s b" "s1 = s\<lparr>block_bitmap := block_bitmap s1\<rparr>" and g1: "grown s a {b} s1" by metis
  from sync_grown [OF g1 b(2)] obtain d where
    d: "bitmap_sync s1 (sub32 b (data_start_lba (sb s))) BLOCK_BITMAP = Some (s1\<lparr>disk := d\<rparr>)"
    "grown s a {b} (s1\<lparr>disk := d\<rparr>)" by blast
  have "data_blk s1 b" using b(2) grown_data_blk [OF g1] by simp
  then have sy: "sync_bit s1 b = Some (s1\<lparr>disk := d\<rparr>)"
    using sync_bit_eq [OF grownD(1) [OF g1]] d(1) grownD(3) [OF g1] by simp
  have in1: "inodes s1 a = Some ino" using ino(1) by (subst b(4)) simp
  let ?secs = "(i_sectors ino)[i := b]"
  define s3 where "s3 = s1\<lparr>disk := d, inodes := (inodes s1)(a := Some (ino\<lparr>i_sectors := ?secs\<rparr>))\<rparr>"
  have st: "set_sector (s1\<lparr>disk := d\<rparr>) a i b = Some s3"
    using in1 len i by (simp add: set_sector_def s3_def)
  have g3: "grown s a {b} s3" using grown_inode [OF d(2), of "Some (ino\<lparr>i_sectors := ?secs\<rparr>)"] by (simp add: s3_def)
  note k3 = grown_kept [OF g3 wf(1), of "{i_sectors ino ! j | j. j < 12}"]
  have t3: "taken s3 b" using grown_taken [OF g3] by simp
  have bb: "b \<noteq> 0" "b \<le> max_lba" using taken_bounds [OF t3] by simp_all
  have ew: "entry_wf e" using e by (simp add: new_entry_def)
  obtain buf where buf: "wr_block (replicate 512 0) (24 * 0) (enc_dir_entry e) = Some buf" "length buf = 512"
    using put_in_range [OF _ _ ew, of 0 "replicate 512 0"] by auto
  have slots: "bslot buf 0 = e" "\<And>k. k < 21 \<Longrightarrow> k \<noteq> 0 \<Longrightarrow> bslot buf k = zero_dir_entry"
    using bslot_put [OF buf(1) ew] bslot_zero by simp_all
  have in3: "inodes s3 a = Some (ino\<lparr>i_sectors := ?secs\<rparr>)" by (simp add: s3_def)
  let ?ino = "ino\<lparr>i_sectors := ?secs, i_size := i_size ino + 24\<rparr>"
  let ?s = "s3\<lparr>disk := (disk s3)(b := buf), inodes := (inodes s3)(a := Some ?ino)\<rparr>"
  have nb: "i_sectors ino ! l \<noteq> b" if "l < 12" for l
    using that b(3) bb ino(2) unfolding dir_ok_def by metis
  have d3: "disk s3 (i_sectors ino ! l) = disk s (i_sectors ino ! l)" if "l < 12" "i_sectors ino ! l \<noteq> 0" for l
  proof -
    have "taken s (i_sectors ino ! l)" using that ino(2) by (simp add: dir_ok_def)
    then show ?thesis using grown_kept [OF g3 wf(1), of "{}"] by (simp add: kept_defs)
  qed
  have le: "live s ino (i, k) = None" for k using i by (simp add: live_def)
  have s1f: "dirs s3 = dirs s" "allocs s3 = allocs s" "open_inodes s3 = open_inodes s"
      "file_table s3 = file_table s" "fd_table s3 = fd_table s" "inode_bitmap s3 = inode_bitmap s"
    unfolding s3_def by (subst b(4), simp)+
  have "length ?secs = 13" "?secs ! 12 = 0" "?secs ! i = b" "\<forall>l < 12. l \<noteq> i \<longrightarrow> ?secs ! l = i_sectors ino ! l"
    using len i ino(2) by (simp_all add: dir_ok_def)
  note ins = inserted_intro [OF ino(2) e i(1) _ in3 this(1-3) bb(1) t3 this(4), of 0 buf]
  have fin: "inserted s a ino e ?s ?ino" "i_size ino + 24 < 4294967296"
    by (rule ins; use nb d3 buf(2) slots entry_ok_zero le k3 b(3) s1f in simp)+
  have sz: "dir_entry_size (sb s3) = 24" using fs_wfD(2) [OF wf(1)] grownD(3) [OF g3] by simp
  have wd: "disk_write (disk s3) b buf 1 = Some ((disk s3)(b := buf))"
    using buf(2) bb by (simp add: sector_write ide_ok_small)
  have "sync_new_block s a e (take 12 (i_sectors ino) @ replicate 128 0) i = Some (True, ?s)"
    using b(1) sy st i len sz buf(1) wd in3 fin(2) ew
    by (simp add: sync_new_block_def enter_block_def add_size_def cong: if_cong)
  with fin(1) show ?thesis by blast
qed

lemma sync_blocks_spec:
  assumes wf: "fs_wf s" "bitmap_sound s" and ino: "inodes s a = Some ino" "dir_ok s ino"
    and e: "new_entry s ino e" and free: "0 < free_bits s" and j: "j < 12" "roomy s ino j"
  shows "i \<le> j \<Longrightarrow> \<exists>s' ino'. sync_blocks s a e (take 12 (i_sectors ino) @ replicate 128 0) i = Some (True, s')
    \<and> inserted s a ino e s' ino'"
proof (induction "j - i" arbitrary: i rule: less_induct)
  case less
  note len = dir_blocks_direct(2) [OF ino(2)]
  have i: "i < 12" "i < 140" using less.prems j by simp_all
  let ?x = "i_sectors ino ! i"
  show ?case
  proof (cases "?x = 0")
    case True
    with sync_new_block_spec [OF wf ino e free i(1)] i len show ?thesis
      by (simp add: sync_blocks.simps [of s a e _ i] nth_append)
  next
    case False
    note bo = dir_block_ok [OF ino(2) i(1) False]
    have len512: "length (disk s ?x) = 512" using fs_wfD(1) [OF wf(1)] by (simp add: disk_ok_def)
    have sz: "512 div dir_entry_size (sb s) = 21" "dir_entry_size (sb s) = 24" using fs_wfD(2) [OF wf(1)] by simp_all
    note fsl = free_slot_spec [OF refl, where buf = "disk s ?x" and i = 0 and n = 21]
    show ?thesis
    proof (cases "free_slot (disk s ?x) 0 21")
      case None
      with fsl have "\<not> roomy s ino i" using False by (auto simp: roomy_def slot_at_def)
      with j less.prems have lt: "i < j" by (cases "i = j") auto
      then have "j - Suc i < j - i" "Suc i \<le> j" by simp_all
      from less.hyps [OF this] show ?thesis
        using None False block_read [OF bo] i len sz
        by (simp add: sync_blocks.simps [of s a e _ i] nth_append)
    next
      case (Some k)
      with fsl have k: "k < 21" "f_type (bslot (disk s ?x) k) = 0" by auto
      have ew: "entry_wf e" using e by (simp add: new_entry_def)
      from put_in_range [OF k(1) len512 ew] obtain buf where
        buf: "wr_block (disk s ?x) (24 * k) (enc_dir_entry e) = Some buf" "length buf = 512" by blast
      note slots = bslot_put [OF buf(1) ew len512]
      have t: "taken s ?x" using ino(2) i(1) False by (simp add: dir_ok_def)
      have inj: "\<forall>l < 12. l \<noteq> i \<longrightarrow> i_sectors ino ! l \<noteq> ?x" using ino(2) i(1) False unfolding dir_ok_def by metis
      have in1: "inodes s a = Some (ino\<lparr>i_sectors := i_sectors ino\<rparr>)" using ino(1) by simp
      have z12: "i_sectors ino ! 12 = 0" using ino(2) by (simp add: dir_ok_def)
      let ?ino = "ino\<lparr>i_sectors := i_sectors ino, i_size := i_size ino + 24\<rparr>"
      let ?s = "s\<lparr>disk := (disk s)(?x := buf), inodes := (inodes s)(a := Some ?ino)\<rparr>"
      have lv: "live s ino (i, k') = (if f_type (bslot (disk s ?x) k') \<noteq> 0 then Some (bslot (disk s ?x) k') else None)"
        if "k' < 21" for k' using that i(1) False by (simp add: live_def slot_at_def)
      note ins = inserted_intro [OF ino(2) e i(1) k(1) in1 len z12 refl False t _ inj, where buf = buf]
      have fin: "inserted s a ino e ?s ?ino" "i_size ino + 24 < 4294967296"
        by (rule ins; use buf(2) slots bo lv k i(1) kept_refl [OF wf] in \<open>auto simp: block_ok_def\<close>)+
      have wd: "disk_write (disk s) ?x buf 1 = Some ((disk s)(?x := buf))"
        using buf(2) taken_bounds [OF t] by (simp add: sector_write ide_ok_small)
      have "sync_blocks s a e (take 12 (i_sectors ino) @ replicate 128 0) i = Some (True, ?s)"
        using Some False block_read [OF bo] i len sz buf(1) wd ino(1) fin(2) ew
        by (simp add: sync_blocks.simps [of s a e _ i] nth_append add_size_def)
      with fin(1) show ?thesis by blast
    qed
  qed
qed

lemma sync_dir_entry_spec:
  assumes wf: "fs_wf s" "bitmap_sound s" and d: "dirs s pdir = Some d" and ino: "inodes s (d_inode d) = Some ino" "dir_ok s ino"
    and e: "new_entry s ino e" and free: "0 < free_bits s" and j: "j < 12" "roomy s ino j"
  shows "\<exists>s' ino'. sync_dir_entry s pdir e = Some (True, s') \<and> inserted s (d_inode d) ino e s' ino'"
proof -
  have "dir_entry_size (sb s) = 24" using fs_wfD(2) [OF wf(1)] .
  moreover have "i_size ino mod 24 = 0" using ino(2) by (simp add: dir_ok_def)
  ultimately show ?thesis
    using sync_blocks_spec [OF wf ino e free j, of 0] d ino(1) by (simp add: sync_dir_entry_def)
qed

section \<open>Deleting\<close>

text \<open>The entries beside \<open>.\<close> and \<open>..\<close>, and the one that is looked for.\<close>

definition proper :: "dir_entry \<Rightarrow> bool" where
  "proper e \<longleftrightarrow> f_type e \<noteq> 0 \<and> ename e \<noteq> dot \<and> ename e \<noteq> dotdot"

lemma scan_sector_spec:
  assumes ok: "\<forall>k < 21. entry_ok (bslot buf k)" "length buf = 512"
    and uniq: "\<forall>k < 21. \<forall>k' < 21. proper (bslot buf k) \<longrightarrow> de_i_no (bslot buf k) = no
      \<longrightarrow> proper (bslot buf k') \<longrightarrow> de_i_no (bslot buf k') = no \<longrightarrow> k = k'"
  shows "(dir_entry_found c \<noteq> None \<longrightarrow> (\<forall>k. i \<le> k \<longrightarrow> k < 21 \<longrightarrow> proper (bslot buf k) \<longrightarrow> de_i_no (bslot buf k) \<noteq> no)) \<Longrightarrow>
    dir_entry_cnt c + (21 - i) < 256 \<Longrightarrow> \<exists>c'. scan_sector buf no 21 i c = Some c'
      \<and> (is_dir_first_block c' \<longleftrightarrow> is_dir_first_block c
          \<or> (\<exists>k. i \<le> k \<and> k < 21 \<and> f_type (bslot buf k) \<noteq> 0 \<and> ename (bslot buf k) = dot))
      \<and> dir_entry_cnt c' = dir_entry_cnt c + card {k. i \<le> k \<and> k < 21 \<and> proper (bslot buf k)}
      \<and> (\<forall>k. dir_entry_found c' = Some k \<longleftrightarrow> dir_entry_found c = Some k
          \<or> i \<le> k \<and> k < 21 \<and> proper (bslot buf k) \<and> de_i_no (bslot buf k) = no)"
proof (induction "21 - i" arbitrary: i c rule: less_induct)
  case less
  show ?case
  proof (cases "i < 21")
    case False
    then have "{k. i \<le> k \<and> k < 21 \<and> proper (bslot buf k)} = {}" by auto
    with False show ?thesis by (auto simp: scan_sector.simps [of buf no 21 i c])
  next
    case True
    let ?e = "bslot buf i"
    let ?N = "\<lambda>i. {k. i \<le> k \<and> k < 21 \<and> proper (bslot buf k)}"
    have dz: "0 \<notin> set dot" "0 \<notin> set dotdot" by (simp_all add: dot_def dotdot_def)
    have ni: "name_is buf i dot = Some (ename ?e = dot)" "name_is buf i dotdot = Some (ename ?e = dotdot)"
      by (rule name_is_spec; use ok True dz in simp)+
    have split: "i \<le> k \<and> k < 21 \<and> P k \<longleftrightarrow> (k = i \<and> P i) \<or> (Suc i \<le> k \<and> k < 21 \<and> P k)" for P k
      using True by (cases "k = i") auto
    have ex: "(\<exists>k. i \<le> k \<and> k < 21 \<and> P k) \<longleftrightarrow> P i \<or> (\<exists>k. Suc i \<le> k \<and> k < 21 \<and> P k)" for P
      using split [of _ P] by blast
    have fin: "finite (?N (Suc i))" by simp
    have N: "?N i = (if proper ?e then insert i (?N (Suc i)) else ?N (Suc i))"
      using split [of _ "\<lambda>k. proper (bslot buf k)"] by auto
    have cN: "card (?N i) = (if proper ?e then Suc (card (?N (Suc i))) else card (?N (Suc i)))"
      using fin by (simp add: N)
    define c1 where "c1 = (if proper ?e then
        (if de_i_no ?e = no then c\<lparr>dir_entry_cnt := dir_entry_cnt c + 1, dir_entry_found := Some i\<rparr>
         else c\<lparr>dir_entry_cnt := dir_entry_cnt c + 1\<rparr>)
      else if f_type ?e \<noteq> 0 \<and> ename ?e = dot then c\<lparr>is_dir_first_block := True\<rparr> else c)"
    have w: "w8 (dir_entry_cnt c + 1) = dir_entry_cnt c + 1"
      by (rule w8_small) (use less.prems(2) True in linarith)
    have fd: "dir_entry_found c = None" if "proper ?e" "de_i_no ?e = no"
      using less.prems(1) True that by auto
    have run: "scan_sector buf no 21 i c = scan_sector buf no 21 (Suc i) c1"
      using True ni w fd
      by (subst scan_sector.simps) (auto simp: c1_def bslot_fields FT_UNKNOWN_def proper_def Let_def)
    have p1: "\<forall>k. Suc i \<le> k \<longrightarrow> k < 21 \<longrightarrow> proper (bslot buf k) \<longrightarrow> de_i_no (bslot buf k) \<noteq> no"
      if f: "dir_entry_found c1 \<noteq> None"
    proof (cases "proper ?e \<and> de_i_no ?e = no")
      case True
      show ?thesis
      proof (intro allI impI notI)
        fix k assume k: "Suc i \<le> k" "k < 21" "proper (bslot buf k)" "de_i_no (bslot buf k) = no"
        then have "i < 21" by simp
        with uniq k True have "i = k" by blast
        with k(1) show False by simp
      qed
    next
      case False
      with f have "dir_entry_found c \<noteq> None" by (auto simp: c1_def split: if_splits)
      with less.prems(1) show ?thesis by auto
    qed
    have "21 - Suc i < 21 - i" "dir_entry_cnt c1 + (21 - Suc i) < 256"
      using True less.prems(2) by (auto simp: c1_def)
    from less.hyps [OF this(1) _ this(2)] p1 obtain c' where c': "scan_sector buf no 21 (Suc i) c1 = Some c'"
      "is_dir_first_block c' \<longleftrightarrow> is_dir_first_block c1
          \<or> (\<exists>k. Suc i \<le> k \<and> k < 21 \<and> f_type (bslot buf k) \<noteq> 0 \<and> ename (bslot buf k) = dot)"
      "dir_entry_cnt c' = dir_entry_cnt c1 + card (?N (Suc i))"
      "\<forall>k. dir_entry_found c' = Some k \<longleftrightarrow> dir_entry_found c1 = Some k
          \<or> Suc i \<le> k \<and> k < 21 \<and> proper (bslot buf k) \<and> de_i_no (bslot buf k) = no" by blast
    show ?thesis
    proof (intro exI [of _ c'] conjI allI)
      show "scan_sector buf no 21 i c = Some c'" using run c'(1) by simp
      show "is_dir_first_block c' \<longleftrightarrow> is_dir_first_block c
          \<or> (\<exists>k. i \<le> k \<and> k < 21 \<and> f_type (bslot buf k) \<noteq> 0 \<and> ename (bslot buf k) = dot)"
        unfolding c'(2) ex [of "\<lambda>k. f_type (bslot buf k) \<noteq> 0 \<and> ename (bslot buf k) = dot"]
        by (auto simp: c1_def proper_def)
      show "dir_entry_cnt c' = dir_entry_cnt c + card (?N i)"
        using c'(3) cN by (simp add: c1_def)
      fix k
      show "dir_entry_found c' = Some k \<longleftrightarrow> dir_entry_found c = Some k
          \<or> i \<le> k \<and> k < 21 \<and> proper (bslot buf k) \<and> de_i_no (bslot buf k) = no"
        unfolding c'(4) [rule_format] split [of k "\<lambda>k. proper (bslot buf k) \<and> de_i_no (bslot buf k) = no"]
        using fd by (auto simp: c1_def)
    qed
  qed
qed

text \<open>As \<open>kept\<close>, but blocks of \<open>W\<close> may have been given back.\<close>

definition lost :: "fs \<Rightarrow> nat \<Rightarrow> nat set \<Rightarrow> fs \<Rightarrow> bool" where
  "lost s a W s' \<longleftrightarrow> fs_wf s' \<and> bitmap_sound s' \<and> sb s' = sb s \<and> start_lba s' = start_lba s
     \<and> sec_cnt s' = sec_cnt s \<and> alloc_ok s' = alloc_ok s \<and> (\<forall>b. taken s' b \<longrightarrow> taken s b)
     \<and> (\<forall>b. taken s b \<longrightarrow> b \<notin> W \<longrightarrow> taken s' b \<and> disk s' b = disk s b)
     \<and> (\<forall>x. x \<noteq> a \<longrightarrow> inodes s' x = inodes s x)
     \<and> dirs s' = dirs s \<and> allocs s' = allocs s \<and> open_inodes s' = open_inodes s
     \<and> file_table s' = file_table s \<and> fd_table s' = fd_table s \<and> inode_bitmap s' = inode_bitmap s"

definition removed :: "fs \<Rightarrow> nat \<Rightarrow> inode \<Rightarrow> dir_entry \<Rightarrow> fs \<Rightarrow> inode \<Rightarrow> bool" where
  "removed s a ino e s' ino' \<longleftrightarrow> inodes s' a = Some ino' \<and> dir_ok s' ino'
     \<and> dir_view s' ino' = dir_view s ino - {e} \<and> i_no ino' = i_no ino
     \<and> lost s a {i_sectors ino ! j | j. j < 12} s'"

lemma names_drop:
  assumes n: "names_ok m" and p: "m p = Some e" and e: "ename e \<noteq> dot"
  shows "names_ok (m(p := None))" "ran (m(p := None)) = ran m - {e}"
proof -
  have inj: "\<And>q r f g. m q = Some f \<Longrightarrow> m r = Some g \<Longrightarrow> ename f = ename g \<Longrightarrow> q = r"
    using n unfolding names_ok_def by blast
  have 1: "q = r" if "(m(p := None)) q = Some f" "(m(p := None)) r = Some g" "ename f = ename g" for q r f g
    using that inj by (auto split: if_splits)
  have 2: "\<exists>k' e'. (m(p := None)) (j, k') = Some e' \<and> ename e' = dot"
    if h: "(m(p := None)) (j, k) = Some f" "ename f = dotdot" for j k f
  proof -
    from h(1) have "m (j, k) = Some f" by (auto split: if_splits)
    with h(2) n obtain k' e' where k': "m (j, k') = Some e'" "ename e' = dot" unfolding names_ok_def by blast
    then have "(j, k') \<noteq> p" using p e by auto
    with k' show ?thesis by (intro exI [of _ k'] exI [of _ e']) simp
  qed
  show "names_ok (m(p := None))" unfolding names_ok_def using 1 2 by blast
  show "ran (m(p := None)) = ran m - {e}"
  proof (rule set_eqI)
    fix f
    show "f \<in> ran (m(p := None)) \<longleftrightarrow> f \<in> ran m - {e}"
    proof
      assume "f \<in> ran (m(p := None))"
      then obtain q where q: "q \<noteq> p" "m q = Some f" by (auto simp: ran_def split: if_splits)
      have "f \<noteq> e" using inj [OF q(2) p] q(1) by auto
      with ranI [of m q f] q(2) show "f \<in> ran m - {e}" by simp
    next
      assume "f \<in> ran m - {e}"
      then obtain q where "m q = Some f" "f \<noteq> e" by (auto simp: ran_def)
      with p have "(m(p := None)) q = Some f" by auto
      then show "f \<in> ran (m(p := None))" by (rule ranI)
    qed
  qed
qed

lemma sub_size_removed:
  assumes ok: "dir_ok s ino" and p: "live s ino p = Some e" "ename e \<noteq> dot"
    and ino1: "inodes s1 a = Some (ino\<lparr>i_sectors := secs\<rparr>)"
    and live: "live s1 (ino\<lparr>i_sectors := secs\<rparr>) = (live s ino)(p := None)"
    and secs: "length secs = 13" "secs ! 12 = 0" "\<forall>i < 12. secs ! i \<noteq> 0 \<longrightarrow> secs ! i = i_sectors ino ! i"
    and tk: "\<forall>i < 12. secs ! i \<noteq> 0 \<longrightarrow> taken s1 (secs ! i)"
    and ent: "\<forall>i < 12. \<forall>k < 21. secs ! i \<noteq> 0 \<longrightarrow> entry_ok (slot_at s1 (ino\<lparr>i_sectors := secs\<rparr>) i k)"
    and lost: "lost s a {i_sectors ino ! j | j. j < 12} s1"
  shows "\<exists>s' ino'. sub_size s1 a = Some s' \<and> removed s a ino e s' ino'"
proof -
  let ?ino1 = "ino\<lparr>i_sectors := secs\<rparr>"
  let ?ino = "ino\<lparr>i_sectors := secs, i_size := i_size ino - 24\<rparr>"
  have wf: "fs_wf s1" and sound: "bitmap_sound s1" using lost by (simp_all add: lost_def)
  have sz: "dir_entry_size (sb s1) = 24" using fs_wfD(2) [OF wf] .
  have names: "names_ok (live s ino)" using ok by (simp add: dir_ok_def)
  note drop = names_drop [OF names p]
  have pd: "p \<in> dom (live s ino)" using p(1) by auto
  then have "0 < card (dom (live s ino))" by (auto simp: card_gt_0_iff)
  moreover have isz: "i_size ino = 24 * card (dom (live s ino))" using ok by (simp add: dir_ok_def)
  ultimately have le: "24 \<le> i_size ino" by simp
  have card: "card (dom ((live s ino)(p := None))) = card (dom (live s ino)) - 1"
    using pd by simp
  have "\<forall>x \<in> set secs. x < 4294967296"
  proof
    fix x assume "x \<in> set secs"
    then obtain i where i: "i < 13" "x = secs ! i" using secs(1) by (auto simp: in_set_conv_nth)
    show "x < 4294967296"
    proof (cases "i = 12 \<or> secs ! i = 0")
      case True
      then show ?thesis using i secs(2) by auto
    next
      case False
      then have "i < 12" "secs ! i \<noteq> 0" using i(1) by auto
      then have "taken s1 (secs ! i)" using tk by blast
      then show ?thesis using i(2) taken_bounds by blast
    qed
  qed
  then have iw: "inode_wf ?ino" using ok secs(1) by (auto simp: dir_ok_def inode_wf_def)
  let ?s2 = "s1\<lparr>inodes := (inodes s1)(a := Some ?ino)\<rparr>"
  have "fs_wf ?s2" using wf by simp
  from inode_sync_data [OF this iw] obtain d where d: "inode_sync ?s2 ?ino = Some (?s2\<lparr>disk := d\<rparr>)" "disk_ok d"
    "\<forall>x. data_start_lba (sb s1) \<le> x \<longrightarrow> d x = disk s1 x" by auto
  let ?s = "?s2\<lparr>disk := d\<rparr>"
  have run: "sub_size s1 a = Some ?s" using ino1 sz le d(1) by (simp add: sub_size_def Let_def)
  have tks: "taken ?s b = taken s1 b" for b by (simp add: taken_def data_blk_def)
  have same: "d b = disk s1 b" if "taken s1 b" for b using d(3) that by (simp add: taken_def data_blk_def)
  have slot: "slot_at ?s ?ino i k = slot_at s1 ?ino1 i k" if "i < 12" "secs ! i \<noteq> 0" for i k
    using same tk that by (simp add: slot_at_def)
  have lv: "live ?s ?ino = (live s ino)(p := None)"
    unfolding live [symmetric] by (rule ext) (auto simp: live_def slot split: prod.splits)
  have "dir_ok ?s ?ino"
    unfolding dir_ok_def
  proof (intro conjI)
    show "inode_wf ?ino" by (rule iw)
    show "i_sectors ?ino ! 12 = 0" using secs by simp
    show "\<forall>j < 12. i_sectors ?ino ! j \<noteq> 0 \<longrightarrow> taken ?s (i_sectors ?ino ! j)" using tk by (simp add: tks)
    show "\<forall>i < 12. \<forall>j < 12. i_sectors ?ino ! i = i_sectors ?ino ! j \<longrightarrow> i_sectors ?ino ! i \<noteq> 0 \<longrightarrow> i = j"
    proof (intro allI impI)
      fix i j :: nat assume "i < 12" "j < 12" "i_sectors ?ino ! i = i_sectors ?ino ! j" "i_sectors ?ino ! i \<noteq> 0"
      moreover from this secs(3) have "i_sectors ino ! i = i_sectors ino ! j" "i_sectors ino ! i \<noteq> 0" by auto
      ultimately show "i = j" using ok by (simp add: dir_ok_def)
    qed
    show "\<forall>j < 12. \<forall>k < 21. i_sectors ?ino ! j \<noteq> 0 \<longrightarrow> entry_ok (slot_at ?s ?ino j k)"
      using ent by (simp add: slot)
    show "names_ok (live ?s ?ino)" using drop(1) lv by simp
    show "i_size ?ino = 24 * card (dom (live ?s ?ino))" unfolding lv card using isz by simp
  qed
  moreover have "lost s a {i_sectors ino ! j | j. j < 12} ?s"
  proof -
    have "bitmap_sound ?s" using sound by (simp add: bitmap_sound_def)
    moreover have "fs_wf ?s" using \<open>fs_wf ?s2\<close> d(2) by (simp add: fs_wf_def)
    ultimately show ?thesis using lost same by (simp add: lost_def tks)
  qed
  ultimately have "removed s a ino e ?s ?ino"
    using drop(2) lv by (simp add: removed_def dir_view_def)
  with run show ?thesis by blast
qed

lemma clear_slot_removed:
  assumes wf: "fs_wf s" "bitmap_sound s" and ino: "inodes s a = Some ino" "dir_ok s ino"
    and p: "live s ino (j, k) = Some e" "ename e \<noteq> dot"
  shows "\<exists>s1 s' ino'. clear_slot s (i_sectors ino ! j) (disk s (i_sectors ino ! j)) k = Some s1
    \<and> sub_size s1 a = Some s' \<and> removed s a ino e s' ino'"
proof -
  let ?x = "i_sectors ino ! j"
  from p(1) have jk: "j < 12" "k < 21" "?x \<noteq> 0" by (simp_all add: live_Some)
  note len = dir_blocks_direct(2) [OF ino(2)]
  note bo = dir_block_ok [OF ino(2) jk(1,3)]
  have len512: "length (disk s ?x) = 512" using fs_wfD(1) [OF wf(1)] by (simp add: disk_ok_def)
  from put_in_range [OF jk(2) len512 enc_zero_dir_entry(2)] obtain buf where
    buf: "wr_block (disk s ?x) (24 * k) (enc_dir_entry zero_dir_entry) = Some buf" "length buf = 512" by blast
  note slots = bslot_put [OF buf(1) enc_zero_dir_entry(2) len512]
  have t: "taken s ?x" using ino(2) jk by (simp add: dir_ok_def)
  have inj: "i_sectors ino ! l \<noteq> ?x" if "l < 12" "l \<noteq> j" for l
    using ino(2) jk(1,3) that unfolding dir_ok_def by metis
  let ?s1 = "s\<lparr>disk := (disk s)(?x := buf)\<rparr>"
  have wd: "disk_write (disk s) ?x buf 1 = Some ((disk s)(?x := buf))"
    using buf(2) taken_bounds [OF t] by (simp add: sector_write ide_ok_small)
  have run: "clear_slot s ?x (disk s ?x) k = Some ?s1"
    using buf(1) wd fs_wfD(2) [OF wf(1)] by (simp add: clear_slot_def enc_zero_dir_entry(1))
  have slot: "slot_at ?s1 ino i k' = (if i = j then (if k' = k then zero_dir_entry else slot_at s ino i k') else slot_at s ino i k')"
    if "i < 12" "k' < 21" for i k'
    using slots [OF that(2)] inj [OF that(1)] by (auto simp: slot_at_def)
  have lv: "live ?s1 ino = (live s ino)((j, k) := None)"
    by (rule ext) (auto simp: live_def slot entry_ok_zero split: prod.splits)
  have "disk_ok ((disk s)(?x := buf))" using fs_wfD(1) [OF wf(1)] buf(2) by (simp add: disk_ok_def)
  then have wf1: "fs_wf ?s1" "bitmap_sound ?s1" using wf by (simp_all add: bitmap_sound_def)
  have "lost s a {i_sectors ino ! j | j. j < 12} ?s1" using wf1 jk(1) by (auto simp: lost_def)
  moreover have "\<forall>i < 12. \<forall>k < 21. i_sectors ino ! i \<noteq> 0 \<longrightarrow> entry_ok (slot_at ?s1 ino i k)"
    using slot ino(2) entry_ok_zero by (simp add: dir_ok_def)
  ultimately have "\<exists>s' ino'. sub_size ?s1 a = Some s' \<and> removed s a ino e s' ino'"
    using sub_size_removed [OF ino(2) p, of ?s1 a "i_sectors ino"] ino lv len by (simp add: dir_ok_def)
  with run show ?thesis by blast
qed

lemma drop_block_removed:
  assumes wf: "fs_wf s" "bitmap_sound s" and ino: "inodes s a = Some ino" "dir_ok s ino"
    and p: "live s ino (j, k) = Some e" "ename e \<noteq> dot" and only: "\<forall>k'. k' \<noteq> k \<longrightarrow> live s ino (j, k') = None"
  shows "\<exists>s1 s' ino'. drop_block s a j (i_sectors ino ! j) = Some s1
    \<and> sub_size s1 a = Some s' \<and> removed s a ino e s' ino'"
proof -
  let ?x = "i_sectors ino ! j" and ?n = "data_start_lba (sb s)"
  from p(1) have jk: "j < 12" "k < 21" "?x \<noteq> 0" by (simp_all add: live_Some)
  note len = dir_blocks_direct(2) [OF ino(2)]
  have t: "taken s ?x" using ino(2) jk by (simp add: dir_ok_def)
  then have db: "data_blk s ?x" by (simp add: taken_def)
  from release_block_spec [OF wf(1) db] obtain s0 where s0: "release_block s ?x = Some s0" "frees s {?x} s0" by blast
  from s0(2) obtain bm d where f: "s0 = s\<lparr>block_bitmap := bm, disk := d\<rparr>" "fs_wf s0"
    "used_bits bm = used_bits (block_bitmap s) - {?x - ?n}" "btmp_bytes_len bm = btmp_bytes_len (block_bitmap s)"
    "\<forall>y. inode_table_lba (sb s) \<le> y \<longrightarrow> d y = disk s y" by (auto simp: frees_def)
  let ?secs = "(i_sectors ino)[j := 0]"
  let ?ino1 = "ino\<lparr>i_sectors := ?secs\<rparr>"
  let ?s1 = "s0\<lparr>inodes := (inodes s0)(a := Some ?ino1)\<rparr>"
  have "sub32 ?x ?n \<noteq> 0" using sub32_data [OF wf(1) db] db by (simp add: data_blk_def)
  then have "drop_block s a j ?x = do { s \<leftarrow> release_block s ?x; set_sector s a j 0 }"
    using jk(1) by (simp add: drop_block_def release_block_def Let_def)
  moreover have "inodes s0 a = Some ino" using ino(1) f(1) by simp
  then have "set_sector s0 a j 0 = Some ?s1" using jk(1) len by (simp add: set_sector_def)
  ultimately have run: "drop_block s a j ?x = Some ?s1" using s0(1) by simp
  have dbs: "data_blk ?s1 b = data_blk s b" for b using f(4) by (simp add: data_blk_def f(1))
  have cancel: "b - ?n = ?x - ?n \<longleftrightarrow> b = ?x" if "data_blk s b" for b
    using that db eq_diff_iff [of ?n b ?x] by (simp add: data_blk_def)
  have tk0: "taken ?s1 b \<longleftrightarrow> taken s b \<and> b \<noteq> ?x" for b
  proof (cases "data_blk s b")
    case True
    with cancel [OF True] f(3) show ?thesis by (simp add: taken_def dbs) (simp add: f(1))
  qed (simp add: taken_def dbs del: taken_inodes)
  have same: "disk ?s1 b = disk s b" if "taken s b" for b
    using f(1,5) data_beyond_table [OF wf(1), of b] that by (simp add: taken_def)
  have nz: "?secs ! i = i_sectors ino ! i \<and> i \<noteq> j \<and> i_sectors ino ! i \<noteq> 0" if "?secs ! i \<noteq> 0" for i
    using that len jk(1) by (cases "i = j") auto
  have tki: "taken s (i_sectors ino ! i)" if "i < 12" "i_sectors ino ! i \<noteq> 0" for i
    using that ino(2) by (simp add: dir_ok_def)
  have slot: "slot_at ?s1 ?ino1 i k' = slot_at s ino i k'" if "i < 12" "?secs ! i \<noteq> 0" for i k'
    using nz [OF that(2)] same [OF tki [OF that(1)]] by (simp add: slot_at_def)
  have lv: "live ?s1 ?ino1 = (live s ino)((j, k) := None)"
  proof (rule ext)
    fix q :: "nat \<times> nat"
    obtain i k' where q: "q = (i, k')" by (cases q)
    show "live ?s1 ?ino1 q = ((live s ino)((j, k) := None)) q"
    proof (cases "i = j")
      case True
      have "live ?s1 ?ino1 (j, k') = None" using len jk(1) by (simp add: live_def)
      with only True q show ?thesis by (cases "k' = k") auto
    next
      case False
      then have "?secs ! i = i_sectors ino ! i" by simp
      then have "live ?s1 ?ino1 (i, k') = live s ino (i, k')"
        using slot [of i k'] by (cases "i < 12 \<and> ?secs ! i \<noteq> 0") (auto simp: live_def)
      with False q show ?thesis by simp
    qed
  qed
  have "bitmap_sound ?s1"
    using wf(2) db f(3,4) by (auto simp: bitmap_sound_def f(1) data_blk_def)
  then have "lost s a {i_sectors ino ! j | j. j < 12} ?s1"
    using f(2) tk0 same jk(1) by (auto simp: lost_def) (auto simp: f(1))
  moreover have "\<forall>i < 12. \<forall>k < 21. ?secs ! i \<noteq> 0 \<longrightarrow> entry_ok (slot_at ?s1 ?ino1 i k)"
    using slot nz ino(2) by (simp add: dir_ok_def)
  moreover have "\<forall>i < 12. ?secs ! i \<noteq> 0 \<longrightarrow> taken ?s1 (?secs ! i)"
  proof (intro allI impI)
    fix i :: nat assume i: "i < 12" "?secs ! i \<noteq> 0"
    have "i_sectors ino ! i \<noteq> ?x" using nz [OF i(2)] ino(2) jk i(1) unfolding dir_ok_def by metis
    then show "taken ?s1 (?secs ! i)" using nz [OF i(2)] tki [OF i(1)] tk0 by simp
  qed
  moreover have "length ?secs = 13" using len by simp
  moreover have "?secs ! 12 = 0" using jk(1) ino(2) by (simp add: dir_ok_def)
  moreover have "\<forall>i < 12. ?secs ! i \<noteq> 0 \<longrightarrow> ?secs ! i = i_sectors ino ! i" using nz by blast
  moreover have "inodes ?s1 a = Some ?ino1" by simp
  ultimately have "\<exists>s' ino'. sub_size ?s1 a = Some s' \<and> removed s a ino e s' ino'"
    using sub_size_removed [OF ino(2) p, of ?s1 a ?secs] lv by blast
  with run show ?thesis by blast
qed

text \<open>Only the entry itself makes its block live, when the count is one and \<open>.\<close> is elsewhere.\<close>

lemma row_single:
  assumes ok: "dir_ok s ino" and p: "live s ino (j, k) = Some e" "proper e"
    and cnt: "card {k'. k' < 21 \<and> proper (slot_at s ino j k')} = 1"
    and first: "\<not> (\<exists>k'. k' < 21 \<and> f_type (slot_at s ino j k') \<noteq> 0 \<and> ename (slot_at s ino j k') = dot)"
  shows "\<forall>k'. k' \<noteq> k \<longrightarrow> live s ino (j, k') = None"
proof (intro allI impI, rule ccontr)
  fix k' assume k': "k' \<noteq> k" "live s ino (j, k') \<noteq> None"
  then obtain f where f: "live s ino (j, k') = Some f" by blast
  then have fs: "k' < 21" "f = slot_at s ino j k'" "f_type f \<noteq> 0" unfolding live_Some by blast+
  have nodot: "ename f \<noteq> dot" using first fs by blast
  have nodd: "ename f \<noteq> dotdot"
  proof
    assume "ename f = dotdot"
    moreover have "names_ok (live s ino)" using ok by (simp add: dir_ok_def)
    ultimately obtain l g where "live s ino (j, l) = Some g" "ename g = dot"
      using f unfolding names_ok_def by blast
    with first show False by (auto simp: live_Some)
  qed
  have "k' \<in> {k'. k' < 21 \<and> proper (slot_at s ino j k')}" using fs nodot nodd by (simp add: proper_def)
  moreover have "k \<in> {k'. k' < 21 \<and> proper (slot_at s ino j k')}" using p by (simp add: live_Some)
  moreover obtain y where "{k'. k' < 21 \<and> proper (slot_at s ino j k')} = {y}"
    using cnt by (rule card_1_singletonE)
  ultimately have "k' = y" "k = y" by blast+
  with k'(1) show False by simp
qed

lemma delete_blocks_spec:
  assumes wf: "fs_wf s" "bitmap_sound s" and ino: "inodes s a = Some ino" "dir_ok s ino"
    and p: "live s ino (j, k) = Some e" and e: "proper e" "de_i_no e = no"
    and uniq: "\<forall>f \<in> dir_view s ino. proper f \<longrightarrow> de_i_no f = no \<longrightarrow> f = e"
  shows "i \<le> j \<Longrightarrow> \<exists>s' ino'. delete_blocks s a no (drop i (take 12 (i_sectors ino) @ replicate 128 0)) i
    = Some (True, s') \<and> removed s a ino e s' ino'"
proof (induction "j - i" arbitrary: i rule: less_induct)
  case less
  let ?L = "take 12 (i_sectors ino) @ replicate 128 0"
  let ?x = "i_sectors ino ! i"
  note len = dir_blocks_direct(2) [OF ino(2)]
  have j: "j < 12" "k < 21" "i_sectors ino ! j \<noteq> 0" using p by (simp_all add: live_Some)
  then have i: "i < 12" using less.prems by simp
  have dr: "drop i ?L = ?x # drop (Suc i) ?L" using i len by (simp add: Cons_nth_drop_Suc [symmetric] nth_append)
  have inj: "\<And>q r f g. live s ino q = Some f \<Longrightarrow> live s ino r = Some g \<Longrightarrow> ename f = ename g \<Longrightarrow> q = r"
    using ino(2) unfolding dir_ok_def names_ok_def by blast
  have only: "q = (j, k)" if "live s ino q = Some f" "proper f" "de_i_no f = no" for q f
  proof -
    have "f \<in> dir_view s ino" using that(1) by (auto simp: dir_view_def intro: ranI)
    with uniq that have "f = e" by blast
    with inj [OF that(1) p] show ?thesis by simp
  qed
  have next': "\<exists>s' ino'. delete_blocks s a no (drop (Suc i) ?L) (Suc i) = Some (True, s') \<and> removed s a ino e s' ino'"
    if "i \<noteq> j"
  proof (rule less.hyps)
    show "j - Suc i < j - i" "Suc i \<le> j" using that less.prems by simp_all
  qed
  show ?case
  proof (cases "?x = 0")
    case True
    then have "i \<noteq> j" using j by auto
    from next' [OF this] True show ?thesis unfolding dr by simp
  next
    case False
    note bo = dir_block_ok [OF ino(2) i False]
    have len512: "length (disk s ?x) = 512" using fs_wfD(1) [OF wf(1)] by (simp add: disk_ok_def)
    have sz: "512 div dir_entry_size (sb s) = 21" using fs_wfD(2) [OF wf(1)] by simp
    have lv: "live s ino (i, k') = Some (bslot (disk s ?x) k')" if "k' < 21" "proper (bslot (disk s ?x) k')" for k'
      using that i False by (simp add: live_Some slot_at_def proper_def)
    have u: "\<forall>k' < 21. \<forall>l < 21. proper (bslot (disk s ?x) k') \<longrightarrow> de_i_no (bslot (disk s ?x) k') = no
      \<longrightarrow> proper (bslot (disk s ?x) l) \<longrightarrow> de_i_no (bslot (disk s ?x) l) = no \<longrightarrow> k' = l"
      using only lv by (metis prod.inject)
    have eo: "\<forall>k < 21. entry_ok (bslot (disk s ?x) k)" using bo by (simp add: block_ok_def)
    let ?c = "\<lparr>is_dir_first_block = False, dir_entry_cnt = 0, dir_entry_found = None\<rparr>"
    from scan_sector_spec [OF eo len512 u, of ?c 0] obtain c where
      c: "scan_sector (disk s ?x) no 21 0 ?c = Some c"
      "is_dir_first_block c \<longleftrightarrow> (\<exists>k. k < 21 \<and> f_type (bslot (disk s ?x) k) \<noteq> 0 \<and> ename (bslot (disk s ?x) k) = dot)"
      "dir_entry_cnt c = card {k. k < 21 \<and> proper (bslot (disk s ?x) k)}"
      "\<forall>k. dir_entry_found c = Some k \<longleftrightarrow> k < 21 \<and> proper (bslot (disk s ?x) k) \<and> de_i_no (bslot (disk s ?x) k) = no"
      by auto
    show ?thesis
    proof (cases "i = j")
      case False
      have "dir_entry_found c = None"
      proof (rule ccontr)
        assume "dir_entry_found c \<noteq> None"
        then obtain k' where "k' < 21" "proper (bslot (disk s ?x) k')" "de_i_no (bslot (disk s ?x) k') = no"
          using c(4) by auto
        with only lv False show False by blast
      qed
      with next' [OF False] c(1) block_read [OF bo] sz \<open>?x \<noteq> 0\<close> show ?thesis unfolding dr by simp
    next
      case True
      have ek: "e = bslot (disk s ?x) k" using p True by (simp add: live_Some slot_at_def)
      then have fd: "dir_entry_found c = Some k" using c(4) e j(2) by simp
      have ne: "ename e \<noteq> dot" using e(1) by (simp add: proper_def)
      have "k \<in> {k. k < 21 \<and> proper (bslot (disk s ?x) k)}" using ek e(1) j(2) by simp
      then have cnt: "1 \<le> dir_entry_cnt c" unfolding c(3) by (auto simp: Suc_le_eq card_gt_0_iff One_nat_def)
      show ?thesis
      proof (cases "dir_entry_cnt c = 1 \<and> \<not> is_dir_first_block c")
        case t: True
        have "\<forall>k'. k' \<noteq> k \<longrightarrow> live s ino (j, k') = None"
          by (rule row_single [OF ino(2) p e(1)]) (use t c(2,3) True in \<open>simp_all add: slot_at_def\<close>)
        from drop_block_removed [OF wf ino p ne this] obtain s1 s' ino' where
          "drop_block s a j (i_sectors ino ! j) = Some s1" "sub_size s1 a = Some s'" "removed s a ino e s' ino'" by blast
        with t fd cnt c(1) block_read [OF bo] sz \<open>?x \<noteq> 0\<close> True show ?thesis unfolding dr by auto
      next
        case f: False
        from clear_slot_removed [OF wf ino p ne] obtain s1 s' ino' where
          "clear_slot s (i_sectors ino ! j) (disk s (i_sectors ino ! j)) k = Some s1"
          "sub_size s1 a = Some s'" "removed s a ino e s' ino'" by blast
        with f fd cnt c(1) block_read [OF bo] sz \<open>?x \<noteq> 0\<close> True show ?thesis unfolding dr by auto
      qed
    qed
  qed
qed

lemma delete_dir_entry_spec:
  assumes wf: "fs_wf s" "bitmap_sound s" and d: "dirs s pdir = Some d"
    and ino: "inodes s (d_inode d) = Some ino" "dir_ok s ino"
    and e: "e \<in> dir_view s ino" "proper e" "de_i_no e = no"
    and uniq: "\<forall>f \<in> dir_view s ino. proper f \<longrightarrow> de_i_no f = no \<longrightarrow> f = e"
  shows "\<exists>s' ino'. delete_dir_entry s pdir no = Some (True, s') \<and> removed s (d_inode d) ino e s' ino'"
proof -
  from e(1) obtain j k where "live s ino (j, k) = Some e" by (auto simp: dir_view_def ran_def)
  from delete_blocks_spec [OF wf ino this e(2,3) uniq, of 0] show ?thesis
    using d ino(1) dir_blocks_direct(1) [OF ino(2)] by (simp add: delete_dir_entry_def)
qed

section \<open>Enumerating\<close>

definition block_entries :: "u8 list \<Rightarrow> dir_entry list" where
  "block_entries buf = filter (\<lambda>e. f_type e \<noteq> 0) (map (bslot buf) [0..<21])"

definition blocks_entries :: "fs \<Rightarrow> nat list \<Rightarrow> dir_entry list" where
  "blocks_entries s bs = concat (map (\<lambda>x. if x = 0 then [] else block_entries (disk s x)) bs)"

definition dir_list :: "fs \<Rightarrow> inode \<Rightarrow> dir_entry list" where
  "dir_list s ino = blocks_entries s (take 12 (i_sectors ino))"

lemma first_twelve: "length xs = 13 \<Longrightarrow> take 12 xs = map ((!) xs) [0..<12]"
  by (intro nth_equalityI) auto

lemma dir_list_set:
  assumes "dir_ok s ino"
  shows "set (dir_list s ino) = dir_view s ino"
proof (rule set_eqI)
  fix e
  have "e \<in> set (dir_list s ino) \<longleftrightarrow> (\<exists>j < 12. i_sectors ino ! j \<noteq> 0 \<and> e \<in> set (block_entries (disk s (i_sectors ino ! j))))"
    by (auto simp: dir_list_def blocks_entries_def first_twelve [OF dir_blocks_direct(2) [OF assms]] split: if_splits)
  also have "\<dots> \<longleftrightarrow> e \<in> dir_view s ino"
    unfolding dir_view_iff by (auto simp: block_entries_def slot_at_def; blast)
  finally show "e \<in> set (dir_list s ino) \<longleftrightarrow> e \<in> dir_view s ino" .
qed

lemma dir_list_length:
  assumes "dir_ok s ino"
  shows "i_size ino = 24 * length (dir_list s ino)"
proof -
  note len = dir_blocks_direct(2) [OF assms]
  let ?row = "\<lambda>j. {k. k < 21 \<and> i_sectors ino ! j \<noteq> 0 \<and> f_type (slot_at s ino j k) \<noteq> 0}"
  have "dom (live s ino) = Sigma {..<12} ?row" by (auto simp: live_def split: if_splits)
  then have "card (dom (live s ino)) = (\<Sum>j < 12. card (?row j))" by simp
  moreover have "card (?row j) = length (if i_sectors ino ! j = 0 then [] else block_entries (disk s (i_sectors ino ! j)))" for j
    by (auto simp: block_entries_def length_filter_conv_card slot_at_def intro!: arg_cong [where f = card])
  moreover have "length (dir_list s ino) = sum_list (map (\<lambda>j. length (if i_sectors ino ! j = 0 then []
      else block_entries (disk s (i_sectors ino ! j)))) [0..<12])"
    by (simp add: dir_list_def blocks_entries_def length_concat comp_def first_twelve [OF len])
  then have "length (dir_list s ino) = (\<Sum>j < 12. length (if i_sectors ino ! j = 0 then []
      else block_entries (disk s (i_sectors ino ! j))))"
    by (simp add: interv_sum_list_conv_sum_set_nat atLeast0LessThan)
  ultimately show ?thesis using assms by (simp add: dir_ok_def)
qed

lemma read_sector_spec:
  "m \<le> n \<Longrightarrow> 24 * n < 4294967296 \<Longrightarrow> i \<le> 21 \<Longrightarrow>
   (let L = filter (\<lambda>e. f_type e \<noteq> 0) (map (bslot buf) [i..<21]) in
    if n - m < length L
    then \<exists>k < 21. read_sector buf 24 21 (24 * n) i (24 * m) = Some (Inr k) \<and> bslot buf k = L ! (n - m)
    else read_sector buf 24 21 (24 * n) i (24 * m) = Some (Inl (24 * (m + length L))))"
proof (induction "21 - i" arbitrary: i m rule: less_induct)
  case less
  show ?case
  proof (cases "i < 21")
    case False
    then have "i = 21" using less.prems by simp
    then show ?thesis using less.prems by (simp add: read_sector.simps [of buf 24 21 _ 21])
  next
    case True
    let ?L = "\<lambda>i. filter (\<lambda>e. f_type e \<noteq> 0) (map (bslot buf) [i..<21])"
    have up: "[i..<21] = i # [Suc i..<21]" using True by (rule upt_conv_Cons)
    have lt: "21 - Suc i < 21 - i" "Suc i \<le> 21" using True by simp_all
    note step = read_sector.simps [of buf 24 21 "24 * n" i "24 * m"]
    show ?thesis
    proof (cases "f_type (bslot buf i) = 0")
      case f: True
      have run: "read_sector buf 24 21 (24 * n) i (24 * m) = read_sector buf 24 21 (24 * n) (Suc i) (24 * m)"
        using True f step by (simp add: bslot_fields FT_UNKNOWN_def)
      have L: "?L i = ?L (Suc i)" using f by (simp add: up)
      show ?thesis unfolding run L by (rule less.hyps [OF lt(1) less.prems(1,2) lt(2)])
    next
      case f: False
      have L: "?L i = bslot buf i # ?L (Suc i)" using f by (simp add: up)
      show ?thesis
      proof (cases "m < n")
        case mn: True
        then have "w32 (24 * m + 24) = 24 * Suc m" using less.prems(2) by simp
        then have run: "read_sector buf 24 21 (24 * n) i (24 * m) = read_sector buf 24 21 (24 * n) (Suc i) (24 * Suc m)"
          using True f step mn by (simp add: bslot_fields FT_UNKNOWN_def)
        have "Suc m \<le> n" using mn by simp
        note ih = less.hyps [OF lt(1) this less.prems(2) lt(2)]
        have e: "n - m = Suc (n - Suc m)" using mn by simp
        show ?thesis using ih unfolding run Let_def L e by (auto split: if_splits)
      next
        case False
        then have "n = m" using less.prems(1) by simp
        then have "read_sector buf 24 21 (24 * n) i (24 * m) = Some (Inr i)"
          using True f step by (simp add: bslot_fields FT_UNKNOWN_def)
        then show ?thesis using \<open>n = m\<close> True unfolding Let_def L by auto
      qed
    qed
  qed
qed

lemma read_blocks_spec:
  assumes wf: "fs_wf s" and n: "24 * n < 4294967296" "24 * n < i_size ino"
  shows "m \<le> n \<Longrightarrow> \<forall>x \<in> set bs. x \<noteq> 0 \<longrightarrow> block_ok s x \<Longrightarrow>
    read_blocks s ino (24 * n) bs (24 * m) = Some (if n - m < length (blocks_entries s bs)
      then Some (blocks_entries s bs ! (n - m)) else None)"
proof (induction bs arbitrary: m)
  case Nil
  then show ?case by (simp add: blocks_entries_def)
next
  case (Cons x bs)
  have sz: "dir_entry_size (sb s) = 24" using fs_wfD(2) [OF wf] .
  show ?case
  proof (cases "x = 0")
    case True
    with Cons n show ?thesis by (simp add: blocks_entries_def)
  next
    case False
    with Cons.prems have ok: "block_ok s x" by simp
    have len512: "length (disk s x) = 512" using fs_wfD(1) [OF wf] by (simp add: disk_ok_def)
    let ?B = "block_entries (disk s x)"
    have be: "blocks_entries s (x # bs) = ?B @ blocks_entries s bs" using False by (simp add: blocks_entries_def)
    note sp = read_sector_spec [of m n 0 "disk s x", unfolded Let_def, folded block_entries_def, OF Cons.prems(1) n(1) le0]
    show ?thesis
    proof (cases "n - m < length ?B")
      case True
      with sp obtain k where k: "k < 21" "read_sector (disk s x) 24 21 (24 * n) 0 (24 * m) = Some (Inr k)"
        "bslot (disk s x) k = ?B ! (n - m)" by auto
      have "rd_block (disk s x) (24 * k) 24 = Some (take 24 (drop (24 * k) (disk s x)))"
        using len512 k(1) by (simp add: rd_block_def)
      moreover have "dec_dir_entry (take 24 (drop (24 * k) (disk s x))) = bslot (disk s x) k"
        using len512 k(1) by (simp add: bslot_def)
      ultimately show ?thesis
        using k True False n(2) block_read [OF ok] sz be by (simp add: nth_append)
    next
      case f: False
      with sp have r: "read_sector (disk s x) 24 21 (24 * n) 0 (24 * m) = Some (Inl (24 * (m + length ?B)))" by simp
      have "m + length ?B \<le> n" using f Cons.prems(1) by simp
      from Cons.IH [OF this] Cons.prems(2)
      have "read_blocks s ino (24 * n) bs (24 * (m + length ?B)) = Some (if n - (m + length ?B) < length (blocks_entries s bs)
        then Some (blocks_entries s bs ! (n - (m + length ?B))) else None)" by simp
      with r f False n(2) block_read [OF ok] sz be show ?thesis
        by (auto simp: nth_append)
    qed
  qed
qed

lemma dir_read_spec:
  assumes wf: "fs_wf s" and d: "dirs s p = Some d" "inodes s (d_inode d) = Some ino" and ok: "dir_ok s ino"
    and n: "dir_pos d = 24 * n" "n \<le> length (dir_list s ino)"
  shows "dir_read s p = Some (if n < length (dir_list s ino)
    then (Some (dir_list s ino ! n), s\<lparr>dirs := (dirs s)(p \<mapsto> d\<lparr>dir_pos := 24 * (n + 1)\<rparr>)\<rparr>) else (None, s))"
proof -
  note len = dir_blocks_direct(2) [OF ok]
  note isz = dir_list_length [OF ok]
  have le: "length (dir_list s ino) \<le> 252" using ok isz card_live [of s ino] by (simp add: dir_ok_def)
  have t: "rd (i_sectors ino) 12 = Some 0" using ok len by (simp add: dir_ok_def)
  let ?bs = "take 12 (i_sectors ino)"
  have bok: "\<forall>x \<in> set ?bs. x \<noteq> 0 \<longrightarrow> block_ok s x"
  proof (intro ballI impI)
    fix x assume "x \<in> set ?bs" "x \<noteq> 0"
    then obtain j where "j < 12" "x = i_sectors ino ! j" using len by (auto simp: in_set_conv_nth)
    with dir_block_ok [OF ok] \<open>x \<noteq> 0\<close> show "block_ok s x" by simp
  qed
  have "read_blocks s ino (24 * n) ?bs 0 = Some (if n < length (dir_list s ino) then Some (dir_list s ino ! n) else None)"
  proof (cases "n < length (dir_list s ino)")
    case True
    then have "24 * n < 4294967296" "24 * n < i_size ino" using le isz by simp_all
    from read_blocks_spec [OF wf this _ bok, of 0] True show ?thesis by (simp add: dir_list_def)
  next
    case False
    then have "i_size ino \<le> 24 * n" using isz by simp
    moreover obtain y ys where "?bs = y # ys" using len by (cases ?bs) auto
    ultimately show ?thesis using False by simp
  qed
  moreover have "w32 (24 * n + 24) = 24 * (n + 1)" using n(2) le by simp
  ultimately show ?thesis
    using d n(1) t dir_blocks_direct(1) [OF ok] len fs_wfD(2) [OF wf] by (simp add: dir_read_def)
qed

section \<open>Directories as a store of names\<close>

text \<open>
  What path lookup and the system calls rely on: a view of the entries, and three
  operations that agree with it.
\<close>

locale name_store =
  fixes inv :: "'s \<Rightarrow> bool" and view :: "'s \<Rightarrow> dir_entry set" and room :: "'s \<Rightarrow> bool"
    and find :: "'s \<Rightarrow> u8 list \<Rightarrow> (dir_entry option \<times> 's) option"
    and ins :: "'s \<Rightarrow> dir_entry \<Rightarrow> (bool \<times> 's) option"
    and del :: "'s \<Rightarrow> nat \<Rightarrow> (bool \<times> 's) option"
  assumes find_spec: "inv s \<Longrightarrow> name \<noteq> [] \<Longrightarrow> 0 \<notin> set name \<Longrightarrow> \<exists>r s'. find s name = Some (r, s')
      \<and> inv s' \<and> view s' = view s \<and> (\<forall>e. r = Some e \<longleftrightarrow> e \<in> view s \<and> ename e = name)"
    and ins_spec: "inv s \<Longrightarrow> room s \<Longrightarrow> entry_wf e \<Longrightarrow> entry_ok e \<Longrightarrow> f_type e \<noteq> 0 \<Longrightarrow> ename e \<noteq> dotdot
      \<Longrightarrow> \<forall>f \<in> view s. ename f \<noteq> ename e
      \<Longrightarrow> \<exists>s'. ins s e = Some (True, s') \<and> inv s' \<and> view s' = insert e (view s)"
    and del_spec: "inv s \<Longrightarrow> e \<in> view s \<Longrightarrow> proper e \<Longrightarrow> \<forall>f \<in> view s. proper f \<longrightarrow> de_i_no f = de_i_no e \<longrightarrow> f = e
      \<Longrightarrow> \<exists>s'. del s (de_i_no e) = Some (True, s') \<and> inv s' \<and> view s' = view s - {e}"
    and view_names: "inv s \<Longrightarrow> e \<in> view s \<Longrightarrow> f \<in> view s \<Longrightarrow> ename e = ename f \<Longrightarrow> e = f"
begin

lemma ename_no_zero: "0 \<notin> set (ename e)"
  by (auto simp: ename_def dest: set_takeWhileD)

lemma find_after_ins:
  assumes "inv s" "room s" "entry_wf e" "entry_ok e" "f_type e \<noteq> 0" "ename e \<noteq> dotdot"
    and "\<forall>f \<in> view s. ename f \<noteq> ename e"
  shows "\<exists>s1 s2. ins s e = Some (True, s1) \<and> find s1 (ename e) = Some (Some e, s2)
    \<and> (\<forall>name. name \<noteq> [] \<longrightarrow> 0 \<notin> set name \<longrightarrow> name \<noteq> ename e
        \<longrightarrow> (\<exists>r s3 s4. find s name = Some (r, s3) \<and> find s1 name = Some (r, s4)))"
proof -
  from ins_spec [OF assms] obtain s1 where s1: "ins s e = Some (True, s1)" "inv s1" "view s1 = insert e (view s)" by blast
  have ne: "ename e \<noteq> []" using assms(4,5) by (simp add: entry_ok_def)
  from find_spec [OF s1(2) ne ename_no_zero] s1(3) obtain s2 where f: "find s1 (ename e) = Some (Some e, s2)" by auto
  have o: "\<exists>r s3 s4. find s name = Some (r, s3) \<and> find s1 name = Some (r, s4)"
    if n: "name \<noteq> []" "0 \<notin> set name" "name \<noteq> ename e" for name
  proof -
    from find_spec [OF assms(1) n(1,2)] obtain r s3 where
      r: "find s name = Some (r, s3)" "\<forall>f. r = Some f \<longleftrightarrow> f \<in> view s \<and> ename f = name" by blast
    from find_spec [OF s1(2) n(1,2)] obtain r' s4 where
      r': "find s1 name = Some (r', s4)" "\<forall>f. r' = Some f \<longleftrightarrow> f \<in> view s1 \<and> ename f = name" by blast
    have "r = Some f \<longleftrightarrow> r' = Some f" for f
      unfolding r(2) [rule_format] r'(2) [rule_format] s1(3) using n(3) by auto
    then have "r = r'" by (metis option.exhaust)
    with r(1) r'(1) show ?thesis by blast
  qed
  with s1(1) f show ?thesis by blast
qed

lemma find_after_del:
  assumes "inv s" "e \<in> view s" "proper e" "\<forall>f \<in> view s. proper f \<longrightarrow> de_i_no f = de_i_no e \<longrightarrow> f = e"
    and "ename e \<noteq> []"
  shows "\<exists>s1 s2. del s (de_i_no e) = Some (True, s1) \<and> find s1 (ename e) = Some (None, s2)
    \<and> (\<forall>f \<in> view s. f \<noteq> e \<longrightarrow> ename f \<noteq> [] \<longrightarrow> (\<exists>s3. find s1 (ename f) = Some (Some f, s3)))"
proof -
  from del_spec [OF assms(1-4)] obtain s1 where
    s1: "del s (de_i_no e) = Some (True, s1)" "inv s1" "view s1 = view s - {e}" by blast
  from find_spec [OF s1(2) assms(5) ename_no_zero] obtain r s2 where
    r: "find s1 (ename e) = Some (r, s2)" "\<forall>f. r = Some f \<longleftrightarrow> f \<in> view s1 \<and> ename f = ename e" by blast
  have "r = None"
  proof (cases r)
    case (Some f)
    with r(2) s1(3) have "f \<in> view s" "f \<noteq> e" "ename f = ename e" by auto
    with view_names [OF assms(1) _ assms(2)] show ?thesis by blast
  qed
  moreover have "\<exists>s3. find s1 (ename f) = Some (Some f, s3)" if "f \<in> view s" "f \<noteq> e" "ename f \<noteq> []" for f
    using find_spec [OF s1(2) that(3) ename_no_zero] s1(3) that by auto
  ultimately show ?thesis using s1(1) r(1) by blast
qed

end

lemma allocs_irrelevant [simp]:
  "live (s\<lparr>allocs := n\<rparr>) = live s" "taken (s\<lparr>allocs := n\<rparr>) = taken s"
  by (simp_all add: live_def slot_at_def taken_def data_blk_def fun_eq_iff)

definition dir_inv :: "nat \<Rightarrow> fs \<Rightarrow> bool" where
  "dir_inv p s \<longleftrightarrow> fs_wf s \<and> bitmap_sound s \<and> (\<forall>k. alloc_ok s k)
     \<and> (\<exists>ino. dir_inode s p = Some ino \<and> dir_ok s ino)"

definition dir_names :: "nat \<Rightarrow> fs \<Rightarrow> dir_entry set" where
  "dir_names p s = dir_view s (the (dir_inode s p))"

definition dir_room :: "nat \<Rightarrow> fs \<Rightarrow> bool" where
  "dir_room p s \<longleftrightarrow> 0 < free_bits s \<and> (\<exists>j < 12. roomy s (the (dir_inode s p)) j)"

interpretation dstore: name_store "dir_inv p" "dir_names p" "dir_room p"
  "\<lambda>s. search_dir_entry s p" "\<lambda>s. sync_dir_entry s p" "\<lambda>s. delete_dir_entry s p" for p
proof (unfold_locales, goal_cases)
  case (1 s name)
  then obtain ino where i: "fs_wf s" "dir_inode s p = Some ino" "dir_ok s ino" "\<forall>k. alloc_ok s k"
    by (auto simp: dir_inv_def)
  let ?s = "s\<lparr>allocs := allocs s + 2\<rparr>"
  have "dir_ok ?s ino" using i(3) by (simp add: dir_ok_def slot_at_def)
  moreover have "dir_view ?s ino = dir_view s ino" by (simp add: dir_view_def)
  moreover have "bitmap_sound ?s" using 1(1) by (simp add: dir_inv_def bitmap_sound_def)
  moreover have "dir_inode ?s p = Some ino" using i(2) by (simp add: dir_inode_def)
  ultimately show ?case
    using search_dir_entry_spec [OF i(1,2,3) 1(2,3)] i by (auto simp: dir_inv_def dir_names_def)
next
  case (2 s e)
  then obtain d ino where i: "fs_wf s" "bitmap_sound s" "dirs s p = Some d" "inodes s (d_inode d) = Some ino" "dir_ok s ino"
    by (auto simp: dir_inv_def dir_inode_def bind_eq_Some_conv)
  then have di: "dir_inode s p = Some ino" by (simp add: dir_inode_def)
  with 2 have ne: "new_entry s ino e" by (simp add: new_entry_def dir_names_def)
  from 2(2) di obtain j where "0 < free_bits s" "j < 12" "roomy s ino j" by (auto simp: dir_room_def)
  from sync_dir_entry_spec [OF i ne this] obtain s' ino' where
    s': "sync_dir_entry s p e = Some (True, s')" "inserted s (d_inode d) ino e s' ino'" by blast
  then have "dir_inode s' p = Some ino'" using i(3) by (simp add: inserted_def dir_inode_def)
  with s' di 2(1) show ?case
    by (auto simp: inserted_def dir_inv_def dir_names_def kept_defs)
next
  case (3 s e)
  then obtain d ino where i: "fs_wf s" "bitmap_sound s" "dirs s p = Some d" "inodes s (d_inode d) = Some ino" "dir_ok s ino"
    by (auto simp: dir_inv_def dir_inode_def bind_eq_Some_conv)
  then have di: "dir_inode s p = Some ino" by (simp add: dir_inode_def)
  with 3 have e: "e \<in> dir_view s ino" "\<forall>f \<in> dir_view s ino. proper f \<longrightarrow> de_i_no f = de_i_no e \<longrightarrow> f = e"
    by (simp_all add: dir_names_def)
  from delete_dir_entry_spec [OF i e(1) 3(3) refl e(2)] obtain s' ino' where
    s': "delete_dir_entry s p (de_i_no e) = Some (True, s')" "removed s (d_inode d) ino e s' ino'" by blast
  then have "dir_inode s' p = Some ino'" using i(3) by (simp add: removed_def lost_def dir_inode_def)
  with s' di 3(1) show ?case
    by (auto simp: removed_def dir_inv_def dir_names_def lost_def)
next
  case (4 s e f)
  then obtain ino where "dir_inode s p = Some ino" "names_ok (live s ino)" by (auto simp: dir_inv_def dir_ok_def)
  with 4 names_unique show ?case by (auto simp: dir_names_def dir_view_def)
qed

section \<open>Properties\<close>

lemma create_dir_entry_ok:
  assumes "create_dir_entry name no ft zero_dir_entry = Some e" and "name \<noteq> []" "0 \<notin> set name" "length name < 16"
    and "no < 4294967296" "ft \<noteq> 0" "ft < 4294967296"
  shows "entry_wf e" "entry_ok e" "f_type e = ft" "ename e = name" "de_i_no e = no"
proof -
  have e: "e = \<lparr>filename = name @ replicate (16 - length name) 0, de_i_no = no, f_type = ft\<rparr>"
    using assms(1) by (auto simp: create_dir_entry_def zero_dir_entry_def bind_eq_Some_conv)
  have "takeWhile (\<lambda>c. c \<noteq> 0) (name @ replicate (16 - length name) (0 :: u8)) = name"
    using assms(3) by (subst takeWhile_append2) (auto simp: takeWhile_replicate)
  then show "ename e = name" by (simp add: e ename_def)
  with assms show "entry_wf e" "entry_ok e" "f_type e = ft" "de_i_no e = no"
    by (auto simp: e entry_wf_def entry_ok_def)
qed

definition demo_entry :: "u8 list \<Rightarrow> nat \<Rightarrow> nat \<Rightarrow> dir_entry" where
  "demo_entry name no ft = \<lparr>filename = name @ replicate (16 - length name) 0, de_i_no = no, f_type = ft\<rparr>"

definition demo_dir :: inode where
  "demo_dir = (inode_init 0)\<lparr>i_size := 72, i_sectors := 700 # replicate 12 0, i_open_cnts := 1\<rparr>"

definition demo_block :: "u8 list" where
  "demo_block = enc_dir_entry (demo_entry dot 0 2) @ enc_dir_entry (demo_entry dotdot 0 2)
     @ enc_dir_entry (demo_entry [97] 6 1) @ replicate 440 0"

definition demo_dir_fs :: fs where
  "demo_dir_fs = demo_file_fs\<lparr>disk := (disk demo_fs)(700 := demo_block),
     inodes := [3 \<mapsto> demo_file, 4 \<mapsto> demo_dir], open_inodes := [4, 3], allocs := 2,
     dirs := [1 \<mapsto> \<lparr>d_inode = 4, dir_pos = 0\<rparr>]\<rparr>"

lemma demo_entry_ok:
  "entry_wf (demo_entry dot 0 2)" "entry_wf (demo_entry dotdot 0 2)" "entry_wf (demo_entry [97] 6 1)"
  "entry_ok (demo_entry dot 0 2)" "entry_ok (demo_entry dotdot 0 2)" "entry_ok (demo_entry [97] 6 1)"
  "ename (demo_entry dot 0 2) = dot" "ename (demo_entry dotdot 0 2) = dotdot" "ename (demo_entry [97] 6 1) = [97]"
  by (simp_all add: demo_entry_def entry_wf_def entry_ok_def ename_def dot_def dotdot_def takeWhile_replicate One_nat_def)

lemma demo_slots:
  "k < 21 \<Longrightarrow> bslot demo_block k = (if k = 0 then demo_entry dot 0 2 else if k = 1 then demo_entry dotdot 0 2
     else if k = 2 then demo_entry [97] 6 1 else zero_dir_entry)"
proof -
  assume k: "k < 21"
  have l: "length demo_block = 512" by (simp add: demo_block_def demo_entry_ok)
  consider "k = 0" | "k = 1" | "k = 2" | "3 \<le> k" by linarith
  then show ?thesis
  proof cases
    case 1
    then show ?thesis using demo_entry_ok(1) by (simp add: bslot_def demo_block_def)
  next
    case 2
    have "drop 24 demo_block = enc_dir_entry (demo_entry dotdot 0 2) @ enc_dir_entry (demo_entry [97] 6 1) @ replicate 440 0"
      using demo_entry_ok(1) by (simp add: demo_block_def)
    with 2 show ?thesis using demo_entry_ok(2) by (simp add: bslot_def)
  next
    case 3
    have "drop 48 demo_block = enc_dir_entry (demo_entry [97] 6 1) @ replicate 440 0"
      using demo_entry_ok(1,2) by (simp add: demo_block_def)
    with 3 show ?thesis using demo_entry_ok(3) by (simp add: bslot_def)
  next
    case 4
    have "drop (24 * k) demo_block = replicate (512 - 24 * k) 0"
      using demo_entry_ok(1-3) 4 k by (simp add: demo_block_def)
    then have "take 24 (drop (24 * k) demo_block) = replicate 24 0" using k by (simp add: min_def)
    then have "dec_dir_entry (drop (24 * k) demo_block) = dec_dir_entry (replicate 24 0)"
      using dec_dir_entry_take [of "drop (24 * k) demo_block"] l k by simp
    then show ?thesis
      using 4 dec_enc_dir_entry [OF enc_zero_dir_entry(2), of "[]"] by (simp add: bslot_def enc_zero_dir_entry(1))
  qed
qed

lemma demo_dir_ok:
  "fs_wf demo_dir_fs" "bitmap_sound demo_dir_fs" "\<forall>k. alloc_ok demo_dir_fs k"
  "dir_inode demo_dir_fs 1 = Some demo_dir" "dir_ok demo_dir_fs demo_dir" "free_bits demo_dir_fs = 4093"
  "dir_view demo_dir_fs demo_dir = {demo_entry dot 0 2, demo_entry dotdot 0 2, demo_entry [97] 6 1}"
  "roomy demo_dir_fs demo_dir 0"
proof -
  have l: "length demo_block = 512" by (simp add: demo_block_def demo_entry_ok)
  show "fs_wf demo_dir_fs"
    using demo_file_wf(1) l by (simp add: demo_dir_fs_def fs_wf_def disk_ok_def demo_fs_def)
  show "bitmap_sound demo_dir_fs" using demo_file_sound(1) by (simp add: demo_dir_fs_def bitmap_sound_def)
  show "\<forall>k. alloc_ok demo_dir_fs k" by (simp add: demo_dir_fs_def demo_file_fs_def demo_fs_def)
  show "dir_inode demo_dir_fs 1 = Some demo_dir" by (simp add: dir_inode_def demo_dir_fs_def)
  show "free_bits demo_dir_fs = 4093" using demo_file_sound(3) by (simp add: demo_dir_fs_def free_bits_def)
  have d: "disk demo_dir_fs 700 = demo_block" by (simp add: demo_dir_fs_def)
  have secs: "i_sectors demo_dir ! j = (if j = 0 then 700 else 0)" if "j < 13" for j
    using that by (auto simp: demo_dir_def nth_Cons')
  have slot: "slot_at demo_dir_fs demo_dir 0 k = (if k = 0 then demo_entry dot 0 2 else if k = 1 then demo_entry dotdot 0 2
     else if k = 2 then demo_entry [97] 6 1 else zero_dir_entry)" if "k < 21" for k
    using demo_slots [OF that] secs [of 0] d by (simp add: slot_at_def)
  have ty: "f_type (demo_entry nm no t) = t" for nm no t by (simp add: demo_entry_def)
  have lv: "live demo_dir_fs demo_dir = [(0, 0) \<mapsto> demo_entry dot 0 2, (0, 1) \<mapsto> demo_entry dotdot 0 2,
      (0, 2) \<mapsto> demo_entry [97] 6 1]"
    by (rule ext) (auto simp: live_def secs slot entry_ok_zero ty split: if_splits)
  show "dir_view demo_dir_fs demo_dir = {demo_entry dot 0 2, demo_entry dotdot 0 2, demo_entry [97] 6 1}"
    by (auto simp: dir_view_def lv ran_def split: if_splits)
  show "roomy demo_dir_fs demo_dir 0"
    unfolding roomy_def by (intro disjI2 exI [of _ 3]) (simp add: slot entry_ok_zero)
  have t: "taken demo_dir_fs 700"
  proof -
    have "88 \<in> used_bits (block_bitmap demo_file_fs)" by (simp add: demo_file_used)
    moreover have "data_start_lba (sb demo_file_fs) = 612" "nbits (block_bitmap demo_file_fs) = 4096"
      by (simp_all add: demo_file_fs_def demo_fs_def demo_sb_def)
    ultimately show ?thesis by (simp add: taken_def data_blk_def demo_dir_fs_def max_lba_eq)
  qed
  have nm: "names_ok (live demo_dir_fs demo_dir)"
  proof -
    have mem: "live demo_dir_fs demo_dir p = Some e \<longleftrightarrow> p = (0, 0) \<and> e = demo_entry dot 0 2
        \<or> p = (0, 1) \<and> e = demo_entry dotdot 0 2 \<or> p = (0, 2) \<and> e = demo_entry [97] 6 1" for p e
      by (auto simp: lv split: if_splits)
    have ne: "dot \<noteq> dotdot" "dot \<noteq> [97]" "dotdot \<noteq> [97]" by (simp_all add: dot_def dotdot_def)
    have 1: "\<forall>p q e f. live demo_dir_fs demo_dir p = Some e \<longrightarrow> live demo_dir_fs demo_dir q = Some f
        \<longrightarrow> ename e = ename f \<longrightarrow> p = q"
      unfolding mem using ne by (auto simp: demo_entry_ok)
    have z: "live demo_dir_fs demo_dir (0, 0) = Some (demo_entry dot 0 2)" unfolding mem by simp
    then have 2: "\<forall>j k e. live demo_dir_fs demo_dir (j, k) = Some e \<longrightarrow> ename e = dotdot
        \<longrightarrow> (\<exists>k' e'. live demo_dir_fs demo_dir (j, k') = Some e' \<and> ename e' = dot)"
    proof (intro allI impI)
      fix j k e assume "live demo_dir_fs demo_dir (j, k) = Some e"
      then have "j = 0" unfolding mem by auto
      with z demo_entry_ok(7) show "\<exists>k' e'. live demo_dir_fs demo_dir (j, k') = Some e' \<and> ename e' = dot" by blast
    qed
    from 1 2 show ?thesis unfolding names_ok_def by blast
  qed
  show "dir_ok demo_dir_fs demo_dir"
    unfolding dir_ok_def
  proof (intro conjI)
    show "inode_wf demo_dir" by (simp add: inode_wf_def demo_dir_def inode_init_def)
    show "\<forall>j < 12. \<forall>k < 21. i_sectors demo_dir ! j \<noteq> 0 \<longrightarrow> entry_ok (slot_at demo_dir_fs demo_dir j k)"
      by (auto simp: secs slot demo_entry_ok entry_ok_zero)
    show "i_size demo_dir = 24 * card (dom (live demo_dir_fs demo_dir))"
      unfolding lv by (simp add: demo_dir_def)
    show "names_ok (live demo_dir_fs demo_dir)" by (rule nm)
  qed (auto simp: secs t)
qed

text \<open>
  Property C9. Entering a new name into a directory with room, then looking it up, returns
  the entry that was made; every other name is found, or not found, as before. The entry
  may fill a deleted slot or open a new block.
\<close>

theorem dir_insert_then_find:
  assumes "dir_inv p s" and "dir_room p s"
    and "create_dir_entry name no ft zero_dir_entry = Some e" and "name \<noteq> []" "0 \<notin> set name" "length name < 16"
    and "no < 4294967296" "ft \<noteq> 0" "ft < 4294967296" "name \<noteq> dotdot" and "\<forall>f \<in> dir_names p s. ename f \<noteq> name"
  shows "\<exists>s1 s2. sync_dir_entry s p e = Some (True, s1) \<and> search_dir_entry s1 p name = Some (Some e, s2)
    \<and> (\<forall>name'. name' \<noteq> [] \<longrightarrow> 0 \<notin> set name' \<longrightarrow> name' \<noteq> name
        \<longrightarrow> (\<exists>r s3 s4. search_dir_entry s p name' = Some (r, s3) \<and> search_dir_entry s1 p name' = Some (r, s4)))"
proof -
  note e = create_dir_entry_ok [OF assms(3-9)]
  show ?thesis
    using dstore.find_after_ins [OF assms(1,2) e(1,2)] e(3,4) assms(8,10,11) by simp
qed

lemma demo_dir_inv: "dir_inv 1 demo_dir_fs" "dir_room 1 demo_dir_fs"
    "dir_names 1 demo_dir_fs = {demo_entry dot 0 2, demo_entry dotdot 0 2, demo_entry [97] 6 1}"
  using demo_dir_ok by (auto simp: dir_inv_def dir_room_def dir_names_def intro!: exI [of _ 0])

theorem dir_insert_then_find_witness:
  "\<exists>s1 s2. sync_dir_entry demo_dir_fs 1 (demo_entry [98] 7 1) = Some (True, s1)
    \<and> search_dir_entry s1 1 [98] = Some (Some (demo_entry [98] 7 1), s2)
    \<and> (\<forall>name'. name' \<noteq> [] \<longrightarrow> 0 \<notin> set name' \<longrightarrow> name' \<noteq> [98]
        \<longrightarrow> (\<exists>r s3 s4. search_dir_entry demo_dir_fs 1 name' = Some (r, s3) \<and> search_dir_entry s1 1 name' = Some (r, s4)))"
  by (rule dir_insert_then_find [OF demo_dir_inv(1,2), of "[98]" 7 1])
    (auto simp: create_dir_entry_def MAX_FILE_NAME_LEN_def zero_dir_entry_def demo_entry_def drop_replicate
      demo_dir_inv(3) [unfolded One_nat_def] dotdot_def ename_def takeWhile_replicate One_nat_def dot_def)

text \<open>
  Property C37. Deleting an entry by its inode number makes exactly that name unfindable,
  whether its slot is cleared or its whole block is given back; the other entries stay.
\<close>

theorem dir_delete_then_find:
  assumes "dir_inv p s" and "e \<in> dir_names p s" and "proper e" and "ename e \<noteq> []"
    and "\<forall>f \<in> dir_names p s. proper f \<longrightarrow> de_i_no f = de_i_no e \<longrightarrow> f = e"
  shows "\<exists>s1 s2. delete_dir_entry s p (de_i_no e) = Some (True, s1)
    \<and> search_dir_entry s1 p (ename e) = Some (None, s2)
    \<and> (\<forall>f \<in> dir_names p s. f \<noteq> e \<longrightarrow> ename f \<noteq> []
        \<longrightarrow> (\<exists>s3. search_dir_entry s1 p (ename f) = Some (Some f, s3)))"
  using dstore.find_after_del [OF assms(1,2,3,5,4)] .

theorem dir_delete_then_find_witness:
  "\<exists>s1 s2. delete_dir_entry demo_dir_fs 1 (de_i_no (demo_entry [97] 6 1)) = Some (True, s1)
    \<and> search_dir_entry s1 1 (ename (demo_entry [97] 6 1)) = Some (None, s2)
    \<and> (\<forall>f \<in> dir_names 1 demo_dir_fs. f \<noteq> demo_entry [97] 6 1 \<longrightarrow> ename f \<noteq> []
        \<longrightarrow> (\<exists>s3. search_dir_entry s1 1 (ename f) = Some (Some f, s3)))"
  by (rule dir_delete_then_find [OF demo_dir_inv(1)])
    (auto simp: demo_dir_inv(3) proper_def demo_entry_ok dot_def dotdot_def, auto simp: demo_entry_def)

text \<open>
  Reading a directory from position 0 on returns its used entries one by
  one, each once, and then \<open>NULL\<close>: the \<open>n\<close>-th call returns the \<open>n\<close>-th entry of a list
  whose elements are the view, and the size of the directory is 24 bytes for each.
\<close>

theorem dir_read_enumerates:
  assumes "fs_wf s" and "dirs s p = Some d" and "inodes s (d_inode d) = Some ino" and "dir_ok s ino"
    and "dir_pos d = 24 * n" and "n \<le> length (dir_list s ino)"
  shows "dir_read s p = Some (if n < length (dir_list s ino)
      then (Some (dir_list s ino ! n), s\<lparr>dirs := (dirs s)(p \<mapsto> d\<lparr>dir_pos := 24 * (n + 1)\<rparr>)\<rparr>) else (None, s))
    \<and> set (dir_list s ino) = dir_view s ino \<and> i_size ino = 24 * length (dir_list s ino)"
  using dir_read_spec [OF assms] dir_list_set [OF assms(4)] dir_list_length [OF assms(4)] by blast

theorem dir_read_enumerates_witness:
  "dir_read demo_dir_fs 1 = Some (if 0 < length (dir_list demo_dir_fs demo_dir)
      then (Some (dir_list demo_dir_fs demo_dir ! 0),
        demo_dir_fs\<lparr>dirs := (dirs demo_dir_fs)(1 \<mapsto> \<lparr>d_inode = 4, dir_pos = 0\<rparr>\<lparr>dir_pos := 24 * (0 + 1)\<rparr>)\<rparr>)
      else (None, demo_dir_fs))
    \<and> set (dir_list demo_dir_fs demo_dir) = dir_view demo_dir_fs demo_dir
    \<and> i_size demo_dir = 24 * length (dir_list demo_dir_fs demo_dir)"
  by (rule dir_read_enumerates [OF demo_dir_ok(1) _ _ demo_dir_ok(5)]) (simp_all add: demo_dir_fs_def)

end
