(* ===== verification/Path.thy ===== *)
theory Path
  imports Dir
begin

text \<open>
  Path names of \<open>src/src/fs/fs.c\<close>: \<open>path_parse\<close>, \<open>path_depth_cnt\<close> and \<open>search_file\<close>. A
  path is its bytes without the terminating zero. Names go to a buffer of 16 bytes that
  must hold the zero as well where it is used as a string; a longer component leaves the
  buffer and has no outcome.
\<close>

definition slash :: u8 where "slash = 47"
definition MAX_PATH_LEN :: nat where "MAX_PATH_LEN = 512"

section \<open>Parsing\<close>

text \<open>The name, and where the parse stopped; \<open>None\<close> is the \<open>NULL\<close> at the end.\<close>

definition path_parse :: "u8 list \<Rightarrow> u8 list \<times> u8 list option" where
  "path_parse pathname =
     (let p = (if pathname \<noteq> [] \<and> hd pathname = slash then dropWhile (\<lambda>c. c = slash) pathname else pathname);
          name = takeWhile (\<lambda>c. c \<noteq> slash) p;
          rest = dropWhile (\<lambda>c. c \<noteq> slash) p
      in (name, if rest = [] then None else Some rest))"

definition left_len :: "u8 list option \<Rightarrow> nat" where
  "left_len r = (case r of None \<Rightarrow> 0 | Some p \<Rightarrow> length p)"

lemma path_parse_len: "path_parse p = (name, r) \<Longrightarrow> length name + left_len r \<le> length p"
proof -
  assume h: "path_parse p = (name, r)"
  define q where "q = (if p \<noteq> [] \<and> hd p = slash then dropWhile (\<lambda>c. c = slash) p else p)"
  have "length (takeWhile (\<lambda>c. c \<noteq> slash) q) + length (dropWhile (\<lambda>c. c \<noteq> slash) q) = length q"
    by (metis length_append takeWhile_dropWhile_id)
  moreover have "length q \<le> length p" by (simp add: q_def length_dropWhile_le)
  moreover have "name = takeWhile (\<lambda>c. c \<noteq> slash) q" "r = (if dropWhile (\<lambda>c. c \<noteq> slash) q = [] then None
      else Some (dropWhile (\<lambda>c. c \<noteq> slash) q))"
    using h unfolding path_parse_def Let_def q_def [symmetric] by blast+
  ultimately show ?thesis by (simp add: left_len_def)
qed

text \<open>The next name, or the empty one when the path is exhausted.\<close>

definition next_name :: "u8 list option \<Rightarrow> u8 list \<times> u8 list option" where
  "next_name sub = (case sub of None \<Rightarrow> ([], None) | Some p \<Rightarrow> path_parse p)"

lemma next_name_len: "next_name sub = (name, r) \<Longrightarrow> length name + left_len r \<le> left_len sub"
  by (cases sub) (auto simp: next_name_def left_len_def dest: path_parse_len)

lemma next_name_less: "next_name sub = (name', r) \<Longrightarrow> name \<noteq> [] \<Longrightarrow> length name' + left_len r < length name + left_len sub"
  using next_name_len [of sub name' r] by (cases name) auto

lemma next_name_measure:
  "name \<noteq> [] \<Longrightarrow> (case next_name sub of (n, r) \<Rightarrow> length n + left_len r) < length name + left_len sub"
  by (cases "next_name sub") (simp add: next_name_less)

text \<open>
  The first byte of the name buffer is tested before anything was stored when the first
  name is empty; that has no outcome.
\<close>

function depth_from :: "u8 list \<Rightarrow> u8 list option \<Rightarrow> nat option" where
  "depth_from name sub =
     (if name = [] then Some 0
      else do { kassert (length name \<le> MAX_FILE_NAME_LEN);
                let (name', sub') = next_name sub in
                do { d \<leftarrow> depth_from name' sub'; Some (d + 1) } })"
  by pat_completeness auto
termination
  by (relation "measure (\<lambda>(name, sub). length name + left_len sub)") (auto simp: next_name_measure)

declare depth_from.simps [simp del]

definition path_depth_cnt :: "u8 list \<Rightarrow> nat option" where
  "path_depth_cnt pathname =
     (let (name, sub) = path_parse pathname in
      do { kassert (name \<noteq> []); depth_from name sub })"

section \<open>Searching\<close>

record path_search_record =
  searched_path :: "u8 list"
  parent_dir :: nat
  file_type :: nat

definition root_path :: "u8 list \<Rightarrow> bool" where
  "root_path p \<longleftrightarrow> p = [slash] \<or> p = slash # dot \<or> p = slash # dotdot"

text \<open>
  The loop of \<open>search_file\<close>; \<open>last_no\<close> is the inode number of the entry found last, absent
  before the first one.
\<close>

function search_loop ::
    "fs \<Rightarrow> u8 list \<Rightarrow> u8 list option \<Rightarrow> path_search_record \<Rightarrow> nat \<Rightarrow> nat option
      \<Rightarrow> (int \<times> path_search_record \<times> fs) option" where
  "search_loop s name sub rec parent_inode_no last_no =
     (if name = [] then
        do { s \<leftarrow> dir_close s (parent_dir rec);
             (p, s) \<leftarrow> dir_open s parent_inode_no;
             no \<leftarrow> last_no;
             Some (int no, rec\<lparr>parent_dir := p, file_type := FT_DIRECTORY\<rparr>, s) }
      else
        do { kassert (length name < MAX_FILE_NAME_LEN \<and> length (searched_path rec) < 512);
             let rec = rec\<lparr>searched_path := searched_path rec @ slash # name\<rparr> in
             do { kassert (length (searched_path rec) < MAX_PATH_LEN);
                  (r, s) \<leftarrow> search_dir_entry s (parent_dir rec) name;
                  case r of
                    None \<Rightarrow> Some (- 1, rec, s)
                  | Some e \<Rightarrow>
                      let (name', sub') = next_name sub in
                      if MAX_FILE_NAME_LEN < length name' then None
                      else if f_type e = FT_DIRECTORY then
                        do { ino \<leftarrow> dir_inode s (parent_dir rec);
                             s \<leftarrow> dir_close s (parent_dir rec);
                             (p, s) \<leftarrow> dir_open s (de_i_no e);
                             search_loop s name' sub' (rec\<lparr>parent_dir := p\<rparr>) (i_no ino) (Some (de_i_no e)) }
                      else if f_type e = FT_REGULAR then
                        Some (int (de_i_no e), rec\<lparr>file_type := FT_REGULAR\<rparr>, s)
                      else search_loop s name' sub' rec parent_inode_no (Some (de_i_no e)) } })"
  by pat_completeness auto
termination
  by (relation "measure (\<lambda>(s, name, sub, rec, p, l). length name + left_len sub)")
    (auto simp: next_name_measure intro: next_name_less [OF sym])

declare search_loop.simps [simp del]

definition search_file :: "fs \<Rightarrow> u8 list \<Rightarrow> (int \<times> path_search_record \<times> fs) option" where
  "search_file s pathname =
     (if root_path pathname then
        Some (0, \<lparr>searched_path = [], parent_dir = 1, file_type = FT_DIRECTORY\<rparr>, s)
      else
        do { kassert (pathname \<noteq> [] \<and> hd pathname = slash \<and> 1 < length pathname \<and> length pathname < MAX_PATH_LEN);
             let (name, sub) = path_parse pathname in
             search_loop s name sub \<lparr>searched_path = [], parent_dir = 1, file_type = FT_UNKNOWN\<rparr> 0 None })"

section \<open>The components of a path\<close>

text \<open>Reference definition: the non-empty pieces between slashes.\<close>

fun comps :: "u8 list \<Rightarrow> u8 list list" where
  "comps [] = []"
| "comps (c # cs) =
     (if c = slash then comps cs
      else case cs of [] \<Rightarrow> [[c]]
        | d # ds \<Rightarrow> if d = slash then [c] # comps cs
            else (case comps cs of [] \<Rightarrow> [[c]] | n # ns \<Rightarrow> (c # n) # ns))"

lemma comps_slashes: "comps (dropWhile (\<lambda>c. c = slash) p) = comps p"
  by (induction p) auto

lemma comps_name:
  "n \<noteq> [] \<Longrightarrow> slash \<notin> set n \<Longrightarrow> r = [] \<or> hd r = slash \<Longrightarrow> comps (n @ r) = n # comps r"
proof (induction n)
  case Nil
  then show ?case by simp
next
  case (Cons c n)
  show ?case
  proof (cases n)
    case Nil
    with Cons.prems show ?thesis by (cases r) auto
  next
    case (Cons d n')
    with Cons.IH Cons.prems show ?thesis by auto
  qed
qed

lemma comps_path_parse:
  assumes "path_parse p = (name, r)"
  shows "comps p = (if name = [] then [] else name # (case r of None \<Rightarrow> [] | Some q \<Rightarrow> comps q))" "slash \<notin> set name"
    "name = [] \<Longrightarrow> r = None"
proof -
  define q where "q = (if p \<noteq> [] \<and> hd p = slash then dropWhile (\<lambda>c. c = slash) p else p)"
  let ?rest = "dropWhile (\<lambda>c. c \<noteq> slash) q"
  have n: "name = takeWhile (\<lambda>c. c \<noteq> slash) q" "r = (if ?rest = [] then None else Some ?rest)"
    using assms unfolding path_parse_def Let_def q_def [symmetric] by blast+
  have cq: "comps p = comps q" by (simp add: q_def comps_slashes)
  have q0: "q = [] \<or> hd q \<noteq> slash"
    using hd_dropWhile [of "\<lambda>c. c = slash" p] by (auto simp: q_def)
  show ns: "slash \<notin> set name" by (auto simp: n(1) dest: set_takeWhileD)
  have e: "name = [] \<Longrightarrow> q = []" using q0 by (cases q) (auto simp: n(1))
  then show "name = [] \<Longrightarrow> r = None" by (simp add: n(2))
  show "comps p = (if name = [] then [] else name # (case r of None \<Rightarrow> [] | Some q \<Rightarrow> comps q))"
  proof (cases "name = []")
    case False
    have "q = name @ ?rest" by (simp add: n(1))
    moreover have "?rest = [] \<or> hd ?rest = slash" using hd_dropWhile [of "\<lambda>c. c \<noteq> slash" q] by auto
    ultimately have "comps q = name # comps ?rest" using comps_name [OF False ns] by metis
    moreover have "(case r of None \<Rightarrow> [] | Some q \<Rightarrow> comps q) = comps ?rest"
      by (cases "?rest = []") (simp_all only: n(2) simp_thms if_True if_False option.case comps.simps)
    ultimately show ?thesis using False by (simp only: cq if_False)
  qed (simp add: cq e)
qed

lemma comps_next_name:
  assumes "next_name sub = (name, r)"
  shows "(case sub of None \<Rightarrow> [] | Some q \<Rightarrow> comps q)
    = (if name = [] then [] else name # (case r of None \<Rightarrow> [] | Some q \<Rightarrow> comps q))"
  using assms comps_path_parse(1) by (cases sub) (auto simp: next_name_def)

lemma depth_from_comps:
  "(name = [] \<longrightarrow> sub = None) \<Longrightarrow>
   ns = (if name = [] then [] else name # (case sub of None \<Rightarrow> [] | Some q \<Rightarrow> comps q)) \<Longrightarrow>
   depth_from name sub = (if \<exists>n \<in> set ns. 16 < length n then None else Some (length ns))"
proof (induction name sub arbitrary: ns rule: depth_from.induct)
  case (1 name sub)
  show ?case
  proof (cases "name = []")
    case True
    with 1(3) show ?thesis by (simp add: depth_from.simps)
  next
    case False
    obtain name' sub' where n: "next_name sub = (name', sub')" by (cases "next_name sub")
    have e: "name' = [] \<longrightarrow> sub' = None" using n comps_path_parse(3) by (cases sub) (auto simp: next_name_def)
    show ?thesis
    proof (cases "length name \<le> 16")
      case True
      then have "kassert (length name \<le> MAX_FILE_NAME_LEN) = Some ()" by (simp add: MAX_FILE_NAME_LEN_def)
      from 1(1) [OF False this _ n [symmetric] e comps_next_name [OF n]] True False 1(3) show ?thesis
        by (subst depth_from.simps) (simp add: n MAX_FILE_NAME_LEN_def)
    next
      case long: False
      with False 1(3) show ?thesis by (subst depth_from.simps) (simp add: MAX_FILE_NAME_LEN_def)
    qed
  qed
qed

text \<open>
  \<open>path_depth_cnt\<close>, which strips one name after the other into a buffer of 16
  bytes, counts the non-empty pieces between slashes, repeated and trailing slashes
  included; it has no defined outcome exactly when there is none (it tests the buffer
  before writing it) or when one does not fit.
\<close>

theorem path_depth_counts_components:
  "path_depth_cnt p =
     (if comps p = [] \<or> (\<exists>n \<in> set (comps p). 16 < length n) then None else Some (length (comps p)))"
proof -
  obtain name r where n: "path_parse p = (name, r)" by (cases "path_parse p")
  note c = comps_path_parse [OF n]
  show ?thesis
    using depth_from_comps [of name r "comps p"] c n by (auto simp: path_depth_cnt_def)
qed

end
