(* ===== verification/Fs.thy ===== *)
theory Fs
  imports Path Dirview
begin

text \<open>
  The file system calls of \<open>src/src/fs/fs.c\<close> on the state of theory \<open>Inode\<close>. The operations
  of a file that is no disk file (terminal, pipe) come from other components and are the
  parameter \<open>dev\<close>; a \<open>NULL\<close> table of operations has no outcome.
\<close>

unbundle bit_operations_syntax

record dev_ops =
  d_read :: "fops \<Rightarrow> fs \<Rightarrow> nat \<Rightarrow> nat \<Rightarrow> (int \<times> u8 list \<times> fs) option"
  d_write :: "fops \<Rightarrow> fs \<Rightarrow> nat \<Rightarrow> u8 list \<Rightarrow> (int \<times> fs) option"
  d_release :: "fops \<Rightarrow> fs \<Rightarrow> nat \<Rightarrow> (int \<times> fs) option"

section \<open>Descriptors\<close>

definition fd_local2global :: "fs \<Rightarrow> int \<Rightarrow> nat option" where
  "fd_local2global s local_fd =
     do { kassert (0 \<le> local_fd);
          global_fd \<leftarrow> rd (fd_table s) (nat local_fd);
          kassert (0 \<le> global_fd \<and> global_fd < int MAX_FILE_OPEN);
          Some (nat global_fd) }"

definition op_release :: "dev_ops \<Rightarrow> fs \<Rightarrow> nat \<Rightarrow> (int \<times> fs) option" where
  "op_release dev s fi =
     do { f \<leftarrow> rd (file_table s) fi;
          case op f of
            Null_ops \<Rightarrow> None
          | Disk_ops \<Rightarrow> disk_file_release s fi
          | Tty_input_ops \<Rightarrow> Some (- 1, s)
          | Tty_output_ops \<Rightarrow> Some (- 1, s)
          | p \<Rightarrow> d_release dev p s fi }"

definition op_write :: "dev_ops \<Rightarrow> fs \<Rightarrow> nat \<Rightarrow> u8 list \<Rightarrow> (int \<times> fs) option" where
  "op_write dev s fi buf =
     do { f \<leftarrow> rd (file_table s) fi;
          case op f of
            Null_ops \<Rightarrow> None
          | Disk_ops \<Rightarrow> file_write s fi buf
          | Tty_input_ops \<Rightarrow> Some (- 1, s)
          | Pipe_reader_ops \<Rightarrow> Some (- 1, s)
          | p \<Rightarrow> d_write dev p s fi buf }"

definition op_read :: "dev_ops \<Rightarrow> fs \<Rightarrow> nat \<Rightarrow> nat \<Rightarrow> (int \<times> u8 list \<times> fs) option" where
  "op_read dev s fi cnt =
     do { f \<leftarrow> rd (file_table s) fi;
          case op f of
            Null_ops \<Rightarrow> None
          | Disk_ops \<Rightarrow> file_read s fi cnt
          | Tty_output_ops \<Rightarrow> Some (- 1, [], s)
          | Pipe_writer_ops \<Rightarrow> Some (- 1, [], s)
          | p \<Rightarrow> d_read dev p s fi cnt }"

definition op_llseek :: "fs \<Rightarrow> nat \<Rightarrow> int \<Rightarrow> int \<Rightarrow> (int \<times> fs) option" where
  "op_llseek s fi offset whence =
     do { f \<leftarrow> rd (file_table s) fi;
          case op f of
            Null_ops \<Rightarrow> None
          | Disk_ops \<Rightarrow> disk_file_lseek s fi offset whence
          | p \<Rightarrow> Some (- 1, s) }"

definition sys_close :: "dev_ops \<Rightarrow> fs \<Rightarrow> int \<Rightarrow> (int \<times> fs) option" where
  "sys_close dev s fd =
     do { global_fd \<leftarrow> fd_local2global s fd;
          (ret, s) \<leftarrow>
            (if 2 < global_fd then
               do { f \<leftarrow> rd (file_table s) global_fd;
                    s \<leftarrow> upd_file s global_fd (\<lambda>f. f\<lparr>count := count f - 1\<rparr>);
                    if count f - 1 = 0 then
                      do { (ret, s) \<leftarrow> op_release dev s global_fd;
                           s \<leftarrow> release_free_slot_in_global s (int global_fd);
                           Some (ret, s) }
                    else Some (0, s) }
             else Some (- 1, s));
          t \<leftarrow> wr (fd_table s) (nat fd) (- 1);
          Some (ret, s\<lparr>fd_table := t\<rparr>) }"

definition sys_write :: "dev_ops \<Rightarrow> fs \<Rightarrow> int \<Rightarrow> u8 list \<Rightarrow> (int \<times> fs) option" where
  "sys_write dev s fd buf =
     (if fd < 0 then Some (- 1, s)
      else
        do { fi \<leftarrow> fd_local2global s fd;
             f \<leftarrow> rd (file_table s) fi;
             if fd_flag f AND O_WRONLY \<noteq> 0 \<or> fd_flag f AND O_RDWR \<noteq> 0
             then op_write dev s fi buf
             else Some (- 1, s) })"

definition sys_read :: "dev_ops \<Rightarrow> fs \<Rightarrow> int \<Rightarrow> nat \<Rightarrow> (int \<times> u8 list \<times> fs) option" where
  "sys_read dev s fd cnt =
     do { kassert (0 \<le> fd); fi \<leftarrow> fd_local2global s fd; op_read dev s fi cnt }"

definition sys_lseek :: "fs \<Rightarrow> int \<Rightarrow> int \<Rightarrow> int \<Rightarrow> (int \<times> fs) option" where
  "sys_lseek s fd offset whence =
     (if fd < 0 then Some (- 1, s)
      else
        do { kassert (0 < whence \<and> whence < 4);
             fi \<leftarrow> fd_local2global s fd;
             f \<leftarrow> rd (file_table s) fi;
             kassert (fd_inode f \<noteq> 0);
             op_llseek s fi offset whence })"

section \<open>Opening and deleting files\<close>

text \<open>What follows the last slash; without a slash \<open>strrchr\<close> is \<open>NULL\<close>.\<close>

definition after_slash :: "u8 list \<Rightarrow> u8 list option" where
  "after_slash p = (if slash \<in> set p then Some (rev (takeWhile (\<lambda>c. c \<noteq> slash) (rev p))) else None)"

definition open_found :: "fs \<Rightarrow> u8 list \<Rightarrow> nat \<Rightarrow> int \<Rightarrow> path_search_record \<Rightarrow> (int \<times> fs) option" where
  "open_found s pathname flags inode_no r =
     (let found = (inode_no \<noteq> - 1); creat = (flags AND O_CREAT \<noteq> 0) in
      if \<not> found \<and> \<not> creat then do { s \<leftarrow> dir_close s (parent_dir r); Some (- 1, s) }
      else if found \<and> creat then do { s \<leftarrow> dir_close s (parent_dir r); Some (- 1, s) }
      else if creat then
        do { name \<leftarrow> after_slash pathname;
             (fd, s) \<leftarrow> file_create s (parent_dir r) name flags;
             s \<leftarrow> dir_close s (parent_dir r);
             Some (fd, s) }
      else file_open s (nat inode_no) flags)"

definition sys_open :: "fs \<Rightarrow> u8 list \<Rightarrow> nat \<Rightarrow> (int \<times> fs) option" where
  "sys_open s pathname flags =
     do { kassert (pathname \<noteq> []);
          if last pathname = slash then Some (- 1, s)
          else
            do { kassert (flags \<le> 7);
                 depth \<leftarrow> path_depth_cnt pathname;
                 (inode_no, r, s) \<leftarrow> search_file s pathname;
                 if file_type r = FT_DIRECTORY
                 then do { s \<leftarrow> dir_close s (parent_dir r); Some (- 1, s) }
                 else
                   do { searched \<leftarrow> path_depth_cnt (searched_path r);
                        if depth \<noteq> searched
                        then do { s \<leftarrow> dir_close s (parent_dir r); Some (- 1, s) }
                        else open_found s pathname flags inode_no r } } }"

text \<open>The global \<open>dummy_inode\<close> is a zeroed object.\<close>

definition inode_no_at :: "fs \<Rightarrow> nat \<Rightarrow> nat option" where
  "inode_no_at s a = (if a = dummy_inode then Some 0 else map_option i_no (inodes s a))"

function in_use :: "fs \<Rightarrow> nat \<Rightarrow> nat \<Rightarrow> nat option" where
  "in_use s inode_no file_idx =
     (if file_idx < MAX_FILE_OPEN then
        do { f \<leftarrow> rd (file_table s) file_idx;
             if fd_inode f = 0 then in_use s inode_no (Suc file_idx)
             else do { no \<leftarrow> inode_no_at s (fd_inode f);
                       if no = inode_no then Some file_idx else in_use s inode_no (Suc file_idx) } }
      else Some file_idx)"
  by pat_completeness auto
termination
  by (relation "measure (\<lambda>(s, n, i). MAX_FILE_OPEN - i)") auto

declare in_use.simps [simp del]

definition sys_unlink :: "fs \<Rightarrow> u8 list \<Rightarrow> (int \<times> fs) option" where
  "sys_unlink s pathname =
     do { kassert (length pathname < MAX_PATH_LEN);
          (inode_no, r, s) \<leftarrow> search_file s pathname;
          kassert (inode_no \<noteq> 0);
          if inode_no = - 1 \<or> file_type r = FT_DIRECTORY
          then do { s \<leftarrow> dir_close s (parent_dir r); Some (- 1, s) }
          else
            do { file_idx \<leftarrow> in_use s (nat inode_no) 0;
                 if file_idx < MAX_FILE_OPEN
                 then do { s \<leftarrow> dir_close s (parent_dir r); Some (- 1, s) }
                 else
                   let (io_buf, s) = kmalloc s in
                   if io_buf = 0 then do { s \<leftarrow> dir_close s (parent_dir r); Some (- 1, s) }
                   else
                     do { (_, s) \<leftarrow> delete_dir_entry s (parent_dir r) (nat inode_no);
                          s \<leftarrow> inode_release s (nat inode_no);
                          s \<leftarrow> dir_close s (parent_dir r);
                          Some (0, s) } } }"

section \<open>Directories\<close>

text \<open>The two entries every directory starts with, in a zeroed block.\<close>

definition dots_block :: "nat \<Rightarrow> nat \<Rightarrow> u8 list" where
  "dots_block no parent_no =
     enc_dir_entry \<lparr>filename = dot @ replicate 15 0, de_i_no = no, f_type = FT_DIRECTORY\<rparr>
     @ enc_dir_entry \<lparr>filename = dotdot @ replicate 14 0, de_i_no = parent_no, f_type = FT_DIRECTORY\<rparr>
     @ replicate 464 0"

definition mkdir_fail :: "fs \<Rightarrow> path_search_record \<Rightarrow> (int \<times> fs) option" where
  "mkdir_fail s r = do { s \<leftarrow> dir_close s (parent_dir r); Some (- 1, s) }"

definition mkdir_fail_inode :: "fs \<Rightarrow> path_search_record \<Rightarrow> nat \<Rightarrow> (int \<times> fs) option" where
  "mkdir_fail_inode s r inode_no =
     do { b \<leftarrow> bitmap_set (inode_bitmap s) inode_no 0; mkdir_fail (s\<lparr>inode_bitmap := b\<rparr>) r }"

text \<open>Enter the new directory in its parent and write both inodes and the bitmap.\<close>

definition mkdir_install :: "fs \<Rightarrow> path_search_record \<Rightarrow> u8 list \<Rightarrow> inode \<Rightarrow> (int \<times> fs) option" where
  "mkdir_install s r dirname ino =
     do { e \<leftarrow> create_dir_entry dirname (i_no ino) FT_DIRECTORY zero_dir_entry;
          (ok, s) \<leftarrow> sync_dir_entry s (parent_dir r) e;
          if \<not> ok then mkdir_fail_inode s r (i_no ino)
          else
            do { p \<leftarrow> dir_inode s (parent_dir r);
                 s \<leftarrow> inode_sync s p;
                 s \<leftarrow> inode_sync s ino;
                 s \<leftarrow> bitmap_sync s (i_no ino) INODE_BITMAP;
                 s \<leftarrow> dir_close s (parent_dir r);
                 Some (0, s) } }"

definition mkdir_new :: "fs \<Rightarrow> path_search_record \<Rightarrow> (int \<times> fs) option" where
  "mkdir_new s r =
     do { dirname \<leftarrow> after_slash (searched_path r);
          (inode_no, s) \<leftarrow> inode_bitmap_alloc s;
          if inode_no = - 1 then mkdir_fail s r
          else
            do { (block_lba, s) \<leftarrow> block_bitmap_alloc s;
                 if block_lba = - 1 then mkdir_fail_inode s r (nat inode_no)
                 else
                   let idx = sub32 (nat block_lba) (data_start_lba (sb s)) in
                   do { kassert (idx \<noteq> 0);
                        s \<leftarrow> bitmap_sync s idx BLOCK_BITMAP;
                        p \<leftarrow> dir_inode s (parent_dir r);
                        d \<leftarrow> disk_write (disk s) (nat block_lba) (dots_block (nat inode_no) (i_no p)) 1;
                        mkdir_install (s\<lparr>disk := d\<rparr>) r dirname ((inode_init (nat inode_no))
                          \<lparr>i_sectors := (replicate 13 0)[0 := nat block_lba],
                           i_size := w32 (2 * dir_entry_size (sb s))\<rparr>) } } }"

definition sys_mkdir :: "fs \<Rightarrow> u8 list \<Rightarrow> (int \<times> fs) option" where
  "sys_mkdir s pathname =
     (let (io_buf, s) = kmalloc s in
      if io_buf = 0 then Some (- 1, s)
      else
        do { (inode_no, r, s) \<leftarrow> search_file s pathname;
             if inode_no \<noteq> - 1 then mkdir_fail s r
             else
               do { depth \<leftarrow> path_depth_cnt pathname;
                    searched \<leftarrow> path_depth_cnt (searched_path r);
                    if depth \<noteq> searched then mkdir_fail s r else mkdir_new s r } })"

text \<open>The test reads \<open>name[0] == '.'\<close> where \<open>name[1]\<close> was meant, so it is the root only.\<close>

definition sys_opendir :: "fs \<Rightarrow> u8 list \<Rightarrow> (nat \<times> fs) option" where
  "sys_opendir s name =
     do { kassert (length name < MAX_PATH_LEN);
          if name = [slash] then Some (1, s)
          else
            do { (inode_no, r, s) \<leftarrow> search_file s name;
                 (ret, s) \<leftarrow> (if inode_no \<noteq> - 1 \<and> file_type r = FT_DIRECTORY
                    then dir_open s (nat inode_no) else Some (0, s));
                 s \<leftarrow> dir_close s (parent_dir r);
                 Some (ret, s) } }"

definition sys_closedir :: "fs \<Rightarrow> nat \<Rightarrow> (int \<times> fs) option" where
  "sys_closedir s pdir =
     (if pdir \<noteq> 0 then do { s \<leftarrow> dir_close s pdir; Some (0, s) } else Some (- 1, s))"

definition sys_readdir :: "fs \<Rightarrow> nat \<Rightarrow> (dir_entry option \<times> fs) option" where
  "sys_readdir s pdir = do { kassert (pdir \<noteq> 0); dir_read s pdir }"

definition sys_rewinddir :: "fs \<Rightarrow> nat \<Rightarrow> fs option" where
  "sys_rewinddir s pdir =
     do { d \<leftarrow> dirs s pdir; Some (s\<lparr>dirs := (dirs s)(pdir \<mapsto> d\<lparr>dir_pos := 0\<rparr>)\<rparr>) }"

definition sys_rmdir :: "fs \<Rightarrow> u8 list \<Rightarrow> (int \<times> fs) option" where
  "sys_rmdir s pathname =
     do { (inode_no, r, s) \<leftarrow> search_file s pathname;
          kassert (inode_no \<noteq> 0);
          (retval, s) \<leftarrow>
            (if inode_no = - 1 \<or> file_type r = FT_REGULAR then Some (- 1, s)
             else
               do { (pdir, s) \<leftarrow> dir_open s (nat inode_no);
                    e \<leftarrow> dir_is_empty s pdir;
                    (retval, s) \<leftarrow>
                      (if \<not> e then Some (- 1, s)
                       else do { (v, s) \<leftarrow> dir_remove s (parent_dir r) pdir;
                                 Some (if v = 0 then 0 else - 1, s) });
                    s \<leftarrow> dir_close s pdir;
                    Some (retval, s) });
          s \<leftarrow> dir_close s (parent_dir r);
          Some (retval, s) }"

section \<open>The working directory\<close>

definition get_parent_dir_inode_nr :: "fs \<Rightarrow> nat \<Rightarrow> (nat \<times> fs) option" where
  "get_parent_dir_inode_nr s child =
     do { (a, s) \<leftarrow> inode_open s child;
          ino \<leftarrow> inodes s a;
          lba \<leftarrow> rd (i_sectors ino) 0;
          kassert (data_start_lba (sb s) \<le> lba);
          s \<leftarrow> inode_close s a;
          buf \<leftarrow> disk_read (disk s) lba 1;
          let e = dec_dir_entry (drop 24 buf) in
          do { kassert (de_i_no e < 4096 \<and> f_type e = FT_DIRECTORY);
               Some (de_i_no e, s) } }"

text \<open>The string at an offset of a buffer; without a zero it has no end.\<close>

definition string_at :: "u8 list \<Rightarrow> nat \<Rightarrow> u8 list option" where
  "string_at buf off = (if 0 \<in> set (drop off buf) then Some (takeWhile (\<lambda>c. c \<noteq> 0) (drop off buf)) else None)"

fun find_child :: "u8 list \<Rightarrow> nat \<Rightarrow> nat \<Rightarrow> nat \<Rightarrow> nat option" where
  "find_child buf no idx 0 = None"
| "find_child buf no idx (Suc n) =
     (if dec32 (drop (24 * idx + 16) buf) = no then Some idx else find_child buf no (Suc idx) n)"

fun child_in_blocks :: "fs \<Rightarrow> nat \<Rightarrow> u8 list \<Rightarrow> nat list \<Rightarrow> (int \<times> u8 list) option" where
  "child_in_blocks s no path [] = Some (- 1, path)"
| "child_in_blocks s no path (b # bs) =
     (if b = 0 then child_in_blocks s no path bs
      else
        do { buf \<leftarrow> disk_read (disk s) b 1;
             case find_child buf no 0 (512 div dir_entry_size (sb s)) of
               Some k \<Rightarrow>
                 do { name \<leftarrow> string_at buf (24 * k);
                      kassert (length path + 1 + length name < MAX_PATH_LEN);
                      Some (0, path @ slash # name) }
             | None \<Rightarrow> child_in_blocks s no path bs })"

definition get_child_dir_name :: "fs \<Rightarrow> nat \<Rightarrow> nat \<Rightarrow> u8 list \<Rightarrow> (int \<times> u8 list \<times> fs) option" where
  "get_child_dir_name s p_inode_nr c_inode_nr path =
     do { (a, s) \<leftarrow> inode_open s p_inode_nr;
          ino \<leftarrow> inodes s a;
          blocks \<leftarrow> dir_blocks s ino;
          s \<leftarrow> inode_close s a;
          (r, path) \<leftarrow> child_in_blocks s c_inode_nr path blocks;
          Some (r, path, s) }"

text \<open>Climb to the root; a cycle of parents never ends.\<close>

partial_function (option) climb :: "fs \<Rightarrow> nat \<Rightarrow> u8 list \<Rightarrow> (u8 list option \<times> fs) option" where
  "climb s child path =
     (if child = 0 then Some (Some path, s)
      else
        do { (parent, s) \<leftarrow> get_parent_dir_inode_nr s child;
             (r, path, s) \<leftarrow> get_child_dir_name s parent child path;
             if r = - 1 then Some (None, s) else climb s parent path })"

function turn_path :: "u8 list \<Rightarrow> u8 list \<Rightarrow> nat \<Rightarrow> u8 list option" where
  "turn_path path buf n =
     (if slash \<in> set path then
        let last = length path - Suc (length (takeWhile (\<lambda>c. c \<noteq> slash) (rev path))) in
        do { kassert (length buf + length (drop last path) < n);
             turn_path (take last path) (buf @ drop last path) n }
      else Some buf)"
  by pat_completeness auto
termination
  by (relation "measure (\<lambda>(path, b, n). length path)") (auto intro!: diff_less length_pos_if_in_set)

declare turn_path.simps [simp del]

text \<open>\<open>sys_getcwd\<close> with a buffer of \<open>n\<close> bytes; the result is the text in it, or \<open>NULL\<close>.\<close>

definition sys_getcwd :: "fs \<Rightarrow> nat \<Rightarrow> (u8 list option \<times> fs) option" where
  "sys_getcwd s n =
     (let (io_buf, s) = kmalloc s in
      if io_buf = 0 then Some (None, s)
      else
        do { kassert (cwd_inode_nr s < 4096);
             if cwd_inode_nr s = 0 then do { kassert (2 \<le> n); Some (Some [slash], s) }
             else
               do { (r, s) \<leftarrow> climb s (cwd_inode_nr s) [];
                    case r of
                      None \<Rightarrow> Some (None, s)
                    | Some path \<Rightarrow>
                        do { kassert (length path \<le> n);
                             buf \<leftarrow> turn_path path [] n;
                             Some (Some buf, s) } } })"

definition sys_chdir :: "fs \<Rightarrow> u8 list \<Rightarrow> (int \<times> fs) option" where
  "sys_chdir s path =
     do { (inode_no, r, s) \<leftarrow> search_file s path;
          let (ret, s) = (if inode_no \<noteq> - 1 \<and> file_type r = FT_DIRECTORY
             then (0, s\<lparr>cwd_inode_nr := nat inode_no\<rparr>) else (- 1, s)) in
          do { s \<leftarrow> dir_close s (parent_dir r); Some (ret, s) } }"

record stat =
  st_ino :: nat
  st_size :: nat
  st_filetype :: nat

definition sys_stat :: "fs \<Rightarrow> u8 list \<Rightarrow> (int \<times> stat option \<times> fs) option" where
  "sys_stat s path =
     (if root_path path then
        do { ino \<leftarrow> dir_inode s 1;
             Some (0, Some \<lparr>st_ino = 0, st_size = i_size ino, st_filetype = FT_DIRECTORY\<rparr>, s) }
      else
        do { (inode_no, r, s) \<leftarrow> search_file s path;
             (ret, st, s) \<leftarrow>
               (if inode_no \<noteq> - 1 then
                  do { (a, s) \<leftarrow> inode_open s (nat inode_no);
                       ino \<leftarrow> inodes s a;
                       s \<leftarrow> inode_close s a;
                       Some (0, Some \<lparr>st_ino = nat inode_no, st_size = i_size ino, st_filetype = file_type r\<rparr>, s) }
                else Some (- 1, None, s));
             s \<leftarrow> dir_close s (parent_dir r);
             Some (ret, st, s) })"

section \<open>Looking up a regular file in the root\<close>

lemma path_parse_one:
  assumes "n \<noteq> []" and "slash \<notin> set n" and "tail = [] \<or> hd tail = slash"
  shows "path_parse (slash # n @ tail) = (n, if tail = [] then None else Some tail)"
proof -
  obtain c n' where n: "n = c # n'" using assms(1) by (cases n) auto
  then have "dropWhile (\<lambda>c. c = slash) (slash # n @ tail) = n @ tail" using assms(2) by auto
  moreover have "takeWhile (\<lambda>c. c \<noteq> slash) (n @ tail) = n"
    using assms(2,3) by (subst takeWhile_append2) (auto simp: takeWhile_eq_Nil_iff)
  moreover have "dropWhile (\<lambda>c. c \<noteq> slash) (n @ tail) = tail"
    using assms(2,3) by (subst dropWhile_append2) (auto simp: dropWhile_eq_self_iff)
  ultimately show ?thesis
    by (simp only: path_parse_def Let_def list.sel list.distinct dropWhile.simps simp_thms if_True)
qed

lemma search_file_regular:
  assumes inv: "dir_inv 1 s" and e: "e \<in> dir_names 1 s" "ename e = n" "f_type e = FT_REGULAR"
    and n: "n \<noteq> []" "slash \<notin> set n" "n \<noteq> dot" "n \<noteq> dotdot" "length n < 16"
    and t: "tail = [] \<or> hd tail = slash" "length n + length tail < 511"
      "length (fst (next_name (if tail = [] then None else Some tail))) \<le> 16"
  shows "search_file s (slash # n @ tail) = Some (int (de_i_no e),
    \<lparr>searched_path = slash # n, parent_dir = 1, file_type = FT_REGULAR\<rparr>, s\<lparr>allocs := allocs s + 2\<rparr>)"
proof -
  obtain ino where ino: "dir_inode s 1 = Some ino" "dir_ok s ino" "fs_wf s" "\<forall>k. alloc_ok s k"
    using inv by (auto simp: dir_inv_def)
  have z: "0 \<notin> set n" using dstore.ename_no_zero e(2) by blast
  from search_dir_entry_spec [OF ino(3,1,2) n(1) z] ino(4) obtain r where
    r: "search_dir_entry s 1 n = Some (r, s\<lparr>allocs := allocs s + 2\<rparr>)" "\<forall>e. r = Some e \<longleftrightarrow> e \<in> dir_view s ino \<and> ename e = n"
    by blast
  have "r = Some e" using r(2) e(1,2) ino(1) by (simp add: dir_names_def)
  note r = r(1) [unfolded this]
  have nr: "\<not> root_path (slash # n @ tail)"
    using n t(1) by (auto simp: root_path_def dot_def dotdot_def slash_def append_eq_Cons_conv Cons_eq_append_conv)
  obtain name' sub' where nx: "next_name (if tail = [] then None else Some tail) = (name', sub')" by fastforce
  with t(3) have "length name' \<le> 16" by simp
  have len: "1 < length (slash # n @ tail)" "length (slash # n) < 512" using n(1,5) by (auto simp: Suc_lessI)
  show ?thesis
    using n(5) t(2) nr len r \<open>length name' \<le> 16\<close> e(3)
    by (simp add: search_file_def path_parse_one [OF n(1,2) t(1)] MAX_PATH_LEN_def search_loop.simps n(1)
        nx MAX_FILE_NAME_LEN_def FT_REGULAR_def FT_DIRECTORY_def del: One_nat_def)
qed

section \<open>Properties\<close>

text \<open>
  A regular file is found by any path that goes on after its name:
  \<open>search_file\<close> stops at the first regular file and reports it, so deleting \<open>/f/x\<close>, which
  does not exist, does what deleting \<open>/f\<close> does.
\<close>

theorem unlink_ignores_rest_of_path:
  assumes "dir_inv 1 s" and "e \<in> dir_names 1 s" "f_type e = FT_REGULAR"
    and "ename e \<noteq> []" "slash \<notin> set (ename e)" "ename e \<noteq> dot" "ename e \<noteq> dotdot" "length (ename e) < 16"
    and "tail \<noteq> []" "hd tail = slash" "length (ename e) + length tail < 511" "length (fst (path_parse tail)) \<le> 16"
  shows "\<exists>r s1. search_file s (slash # ename e @ tail) = Some (int (de_i_no e), r, s1)
    \<and> search_file s (slash # ename e) = Some (int (de_i_no e), r, s1)
    \<and> sys_unlink s (slash # ename e @ tail) = sys_unlink s (slash # ename e)"
proof -
  note f = search_file_regular [OF assms(1,2) refl assms(3-8)]
  note l = f [of tail] and k = f [of "[]"]
  have 1: "search_file s (slash # ename e @ tail) = search_file s (slash # ename e)"
    using l k assms(8-12) by (simp add: next_name_def)
  have "length (slash # ename e @ tail) < MAX_PATH_LEN \<longleftrightarrow> length (slash # ename e) < MAX_PATH_LEN"
    using assms(8,11) by (simp add: MAX_PATH_LEN_def)
  then have "sys_unlink s (slash # ename e @ tail) = sys_unlink s (slash # ename e)"
    unfolding sys_unlink_def 1 by simp
  with 1 k assms(8) show ?thesis by (simp add: next_name_def)
qed

lemma demo_file_entry:
  "ename (demo_entry [97] 6 1) = [97]" "f_type (demo_entry [97] 6 1) = FT_REGULAR"
  "de_i_no (demo_entry [97] 6 1) = 6" "demo_entry [97] 6 1 \<in> dir_names 1 demo_dir_fs"
  using demo_dir_inv(3) demo_entry_ok(9) by (simp_all add: demo_entry_def FT_REGULAR_def)

theorem unlink_ignores_rest_of_path_witness:
  "\<exists>r s1. search_file demo_dir_fs (slash # ename (demo_entry [97] 6 1) @ [slash, 120])
      = Some (int (de_i_no (demo_entry [97] 6 1)), r, s1)
    \<and> search_file demo_dir_fs (slash # ename (demo_entry [97] 6 1)) = Some (int (de_i_no (demo_entry [97] 6 1)), r, s1)
    \<and> sys_unlink demo_dir_fs (slash # ename (demo_entry [97] 6 1) @ [slash, 120])
      = sys_unlink demo_dir_fs (slash # ename (demo_entry [97] 6 1))"
  by (rule unlink_ignores_rest_of_path [OF demo_dir_inv(1) demo_file_entry(4)])
    (simp_all add: demo_file_entry slash_def dot_def dotdot_def path_parse_def)

text \<open>Every used slot of the file table points at an inode.\<close>

definition table_ok :: "fs \<Rightarrow> bool" where
  "table_ok s \<longleftrightarrow> length (file_table s) = 32
     \<and> (\<forall>k < 32. fd_inode (file_table s ! k) \<noteq> 0 \<longrightarrow> inode_no_at s (fd_inode (file_table s ! k)) \<noteq> None)"

lemma in_use_finds:
  assumes "table_ok s" and "i \<le> k" "k < 32" "fd_inode (file_table s ! k) \<noteq> 0"
    "inode_no_at s (fd_inode (file_table s ! k)) = Some no"
  shows "\<exists>j < 32. in_use s no i = Some j"
  using assms
proof (induction s no i rule: in_use.induct)
  case (1 s no i)
  have i: "i < MAX_FILE_OPEN" "rd (file_table s) i = Some (file_table s ! i)"
    using 1 by (simp_all add: table_ok_def MAX_FILE_OPEN_def)
  show ?case
  proof (cases "i = k")
    case True
    with i 1 show ?thesis by (subst in_use.simps) simp
  next
    case False
    then have le: "Suc i \<le> k" using "1.prems"(2) by simp
    show ?thesis
    proof (cases "fd_inode (file_table s ! i) = 0")
      case True
      with "1.IH"(1) [OF i True "1.prems"(1) le "1.prems"(3-5)] i show ?thesis by (subst in_use.simps) simp
    next
      case F: False
      then obtain n where n: "inode_no_at s (fd_inode (file_table s ! i)) = Some n"
        using "1.prems"(1) i(1) unfolding table_ok_def MAX_FILE_OPEN_def by blast
      show ?thesis
      proof (cases "n = no")
        case True
        with F n i show ?thesis by (subst in_use.simps) (simp add: MAX_FILE_OPEN_def)
      next
        case N: False
        with "1.IH"(2) [OF i F n N "1.prems"(1) le "1.prems"(3-5)] F n i show ?thesis
          by (subst in_use.simps) simp
      qed
    qed
  qed
qed

text \<open>
  A file that is open cannot be deleted: while a slot of the file table refers
  to its inode, \<open>sys_unlink\<close> returns \<open>-1\<close> and changes nothing but the allocator's counter.
\<close>

theorem unlink_refuses_open_file:
  assumes "dir_inv 1 s" and "e \<in> dir_names 1 s" "f_type e = FT_REGULAR"
    and "ename e \<noteq> []" "slash \<notin> set (ename e)" "ename e \<noteq> dot" "ename e \<noteq> dotdot" "length (ename e) < 16"
    and "table_ok s" "k < 32" "fd_inode (file_table s ! k) \<noteq> 0"
    and "inode_no_at s (fd_inode (file_table s ! k)) = Some (de_i_no e)" "de_i_no e \<noteq> 0"
  shows "sys_unlink s (slash # ename e) = Some (- 1, s\<lparr>allocs := allocs s + 2\<rparr>)"
proof -
  let ?s = "s\<lparr>allocs := allocs s + 2\<rparr>"
  have f: "search_file s (slash # ename e) = Some (int (de_i_no e),
      \<lparr>searched_path = slash # ename e, parent_dir = 1, file_type = FT_REGULAR\<rparr>, ?s)"
    using search_file_regular [OF assms(1,2) refl assms(3-8), of "[]"] assms(8) by (simp add: next_name_def)
  have no: "inode_no_at ?s a = inode_no_at s a" for a by (simp add: inode_no_at_def)
  have t: "table_ok ?s" using assms(9) unfolding table_ok_def no by simp
  have "inode_no_at ?s (fd_inode (file_table ?s ! k)) = Some (de_i_no e)" using assms(12) unfolding no by simp
  from in_use_finds [OF t le0 assms(10) _ this] assms(11) obtain j where
    "j < 32" "in_use ?s (de_i_no e) 0 = Some j" by auto
  then show ?thesis
    using assms(8,13) by (simp add: sys_unlink_def f MAX_PATH_LEN_def FT_REGULAR_def FT_DIRECTORY_def
        MAX_FILE_OPEN_def dir_close_def)
qed

theorem unlink_refuses_open_file_witness:
  "sys_unlink demo_dir_fs (slash # ename (demo_entry [97] 6 1))
    = Some (- 1, demo_dir_fs\<lparr>allocs := allocs demo_dir_fs + 2\<rparr>)"
  by (rule unlink_refuses_open_file [OF demo_dir_inv(1) demo_file_entry(4), where k = 3])
    (auto simp: demo_file_entry slash_def dot_def dotdot_def table_ok_def inode_no_at_def dummy_inode_def
      demo_dir_fs_def demo_file_fs_def demo_fs_def demo_file_def inode_init_def nth_list_update)

text \<open>
  Closing a descriptor of a disk file always gives the descriptor back, and
  drops one of the references the slot of the file table counts; the last one frees the
  slot, ends the write exclusion and drops the reference to the inode, and an earlier one
  leaves file and inode alone. The disk is not written.
\<close>

theorem close_drops_one_reference:
  assumes "0 \<le> fd" "nat fd < length (fd_table s)" "fd_table s ! nat fd = int gi" "2 < gi" "gi < MAX_FILE_OPEN"
    and "gi < length (file_table s)" "file_table s ! gi = f" "op f = Disk_ops" "0 < count f"
    and "inodes s (fd_inode f) = Some ino" "0 < i_open_cnts ino" "i_open_cnts ino < 4294967296"
  shows "\<exists>s'. sys_close dev s fd = Some (0, s') \<and> fd_table s' = (fd_table s)[nat fd := - 1] \<and> disk s' = disk s
    \<and> (if count f = 1
        then file_table s' = (file_table s)[gi := f\<lparr>count := 0, fd_inode := 0\<rparr>]
          \<and> inodes s' = (inodes s)(fd_inode f := if i_open_cnts ino = 1 then None
              else Some (ino\<lparr>write_deny := False, i_open_cnts := i_open_cnts ino - 1\<rparr>))
        else file_table s' = (file_table s)[gi := f\<lparr>count := count f - 1\<rparr>] \<and> inodes s' = inodes s)"
proof -
  have l: "fd_local2global s fd = Some gi" using assms by (simp add: fd_local2global_def)
  have c: "sub32 (i_open_cnts ino) 1 = i_open_cnts ino - 1" using assms by (simp add: sub32_le)
  show ?thesis
  proof (cases "count f = 1")
    case True
    with assms l c show ?thesis
      by (auto simp: sys_close_def upd_file_def op_release_def disk_file_release_def inode_close_def
          release_free_slot_in_global_def Let_def fun_eq_iff)
  next
    case False
    with assms l show ?thesis by (auto simp: sys_close_def upd_file_def)
  qed
qed

definition no_dev :: dev_ops where
  "no_dev = \<lparr>d_read = \<lambda>_ _ _ _. None, d_write = \<lambda>_ _ _ _. None, d_release = \<lambda>_ _ _. None\<rparr>"

theorem close_drops_one_reference_witness:
  "\<exists>s'. sys_close no_dev demo_file_fs 3
      = Some (0, s') \<and> fd_table s' = (fd_table demo_file_fs)[nat 3 := - 1] \<and> disk s' = disk demo_file_fs
    \<and> (if count (file_table demo_file_fs ! 3) = 1
        then file_table s' = (file_table demo_file_fs)[3 := (file_table demo_file_fs ! 3)\<lparr>count := 0, fd_inode := 0\<rparr>]
          \<and> inodes s' = (inodes demo_file_fs)(fd_inode (file_table demo_file_fs ! 3) :=
              if i_open_cnts demo_file = 1 then None
              else Some (demo_file\<lparr>write_deny := False, i_open_cnts := i_open_cnts demo_file - 1\<rparr>))
        else file_table s' = (file_table demo_file_fs)[3 := (file_table demo_file_fs ! 3)
            \<lparr>count := count (file_table demo_file_fs ! 3) - 1\<rparr>] \<and> inodes s' = inodes demo_file_fs)"
  by (rule close_drops_one_reference)
    (simp_all add: demo_file_fs_def demo_fs_def demo_file_def inode_init_def MAX_FILE_OPEN_def)

section \<open>The path of the working directory\<close>

definition join :: "u8 list list \<Rightarrow> u8 list" where
  "join ns = concat (map (\<lambda>n. slash # n) ns)"

lemma join_snoc [simp]: "join (ns @ [n]) = join ns @ slash # n"
  by (simp add: join_def)

lemma turn_path_join:
  "\<forall>n \<in> set ns. slash \<notin> set n \<Longrightarrow> length buf + length (join ns) < k \<Longrightarrow>
   turn_path (join (rev ns)) buf k = Some (buf @ join ns)"
proof (induction ns arbitrary: buf)
  case Nil
  then show ?case by (simp add: turn_path.simps join_def)
next
  case (Cons n ns)
  have tw: "takeWhile (\<lambda>c. c \<noteq> slash) (rev n @ slash # rev (join (rev ns))) = rev n"
    using Cons.prems(1) by (subst takeWhile_append2) auto
  have "length (join (rev ns) @ slash # n) - Suc (length n) = length (join (rev ns))" by simp
  with Cons tw show ?case
    by (subst turn_path.simps) (simp add: join_def)
qed

text \<open>
  \<open>sys_getcwd\<close> returns the names from the root down, each after a slash, when
  the climb to the root met them from the working directory up: \<open>turn_path\<close> reverses the
  order of the components and keeps each as it is.
\<close>

theorem getcwd_turns_path:
  assumes "alloc_ok s (allocs s)" and "cwd_inode_nr s < 4096" "cwd_inode_nr s \<noteq> 0"
    and "climb (snd (kmalloc s)) (cwd_inode_nr s) [] = Some (Some (join (rev ns)), s')"
    and "\<forall>n \<in> set ns. slash \<notin> set n" "length (join ns) < k"
  shows "sys_getcwd s k = Some (Some (join ns), s')"
proof -
  have "length (join (rev ns)) = length (join ns)" by (induction ns) (simp_all add: join_def)
  with assms turn_path_join [of ns "[]" k] show ?thesis
    by (simp add: sys_getcwd_def kmalloc_def)
qed

definition demo_sub :: inode where
  "demo_sub = (inode_init 6)\<lparr>i_size := 48, i_sectors := 701 # replicate 12 0, i_open_cnts := 1\<rparr>"

definition demo_sub_fs :: fs where
  "demo_sub_fs = demo_dir_fs\<lparr>disk := (disk demo_dir_fs)(701 := dots_block 6 0),
     inodes := [3 \<mapsto> demo_sub, 4 \<mapsto> demo_dir], cwd_inode_nr := 6\<rparr>"

lemma demo_sub_parent:
  "get_parent_dir_inode_nr (snd (kmalloc demo_sub_fs)) 6 = Some (0, snd (kmalloc demo_sub_fs))"
proof -
  have "drop 24 (dots_block 6 0) = enc_dir_entry \<lparr>filename = dotdot @ replicate 14 0, de_i_no = 0, f_type = FT_DIRECTORY\<rparr>
      @ replicate 464 0"
    by (simp add: dots_block_def enc_dir_entry_def dot_def)
  then have "dec_dir_entry (drop 24 (dots_block 6 0))
      = \<lparr>filename = dotdot @ replicate 14 0, de_i_no = 0, f_type = FT_DIRECTORY\<rparr>"
    by (simp add: dotdot_def FT_DIRECTORY_def entry_wf_def)
  then show ?thesis
    by (simp add: get_parent_dir_inode_nr_def demo_sub_fs_def demo_dir_fs_def demo_file_fs_def demo_fs_def demo_sb_def
        kmalloc_def inode_open_def inode_close_def demo_sub_def demo_dir_def inode_init_def disk_read_def ide_ok_small max_lba_eq
        sub32_le Let_def) (auto simp: fun_eq_iff One_nat_def)
qed

lemma demo_sub_child:
  "get_child_dir_name (snd (kmalloc demo_sub_fs)) 0 6 [] = Some (0, [slash, 97], snd (kmalloc demo_sub_fs))"
proof -
  have no: "dec32 (drop (24 * k + 16) demo_block) = de_i_no (bslot demo_block k)" for k
    by (simp add: bslot_def dec_dir_entry_def add.commute)
  have no': "dec32 (drop 16 demo_block) = 0" "dec32 (drop 40 demo_block) = 0" "dec32 (drop 64 demo_block) = 6"
    using no [of 0] no [of 1] no [of 2] demo_slots by (simp_all add: demo_entry_def)
  have "find_child demo_block 6 0 (Suc (Suc (Suc m))) = Some 2" for m by (simp add: no' numeral_2_eq_2)
  from this [of 18] have f: "find_child demo_block 6 0 21 = Some 2" by simp
  have "drop 48 demo_block = [97] @ replicate 15 0 @ enc32 6 @ enc32 1 @ replicate 440 0"
    using demo_entry_ok(1,2) by (simp add: demo_block_def) (simp add: enc_dir_entry_def demo_entry_def)
  then have st: "string_at demo_block 48 = Some [97]" by (simp add: string_at_def takeWhile_replicate)
  show ?thesis
    by (simp add: get_child_dir_name_def dir_blocks_def demo_sub_fs_def demo_dir_fs_def demo_file_fs_def demo_fs_def demo_sb_def
        kmalloc_def inode_open_def inode_close_def demo_sub_def demo_dir_def inode_init_def disk_read_def ide_ok_small max_lba_eq
        sub32_le Let_def f st MAX_PATH_LEN_def) (auto simp: fun_eq_iff One_nat_def)
qed

lemma demo_sub_climb: "climb (snd (kmalloc demo_sub_fs)) 6 [] = Some (Some [slash, 97], snd (kmalloc demo_sub_fs))"
  by (subst climb.simps) (simp add: demo_sub_parent demo_sub_child climb.simps [of _ 0])

theorem getcwd_turns_path_witness:
  "sys_getcwd demo_sub_fs 64 = Some (Some (join [[97]]), snd (kmalloc demo_sub_fs))"
  by (rule getcwd_turns_path [of _ "[[97]]"])
    (use demo_sub_climb in \<open>simp_all add: join_def demo_sub_fs_def demo_dir_fs_def demo_file_fs_def demo_fs_def slash_def\<close>)

end
