(* ===== verification/Format.thy ===== *)
theory Format
  imports Fs
begin

text \<open>
  Creating and mounting a file system: \<open>partition_format\<close>, \<open>mount_partition\<close> and
  \<open>filesys_init\<close> of \<open>src/src/fs/fs.c\<close>. The contents of the padding of the super block are
  whatever the stack held and are the parameter \<open>pad\<close>. A formatted partition, mounted, is a
  well-formed file system with the root directory in its first block.
\<close>

unbundle bit_operations_syntax

section \<open>The super block\<close>

definition MAX_FILES_PER_PART :: nat where "MAX_FILES_PER_PART = 4096"
definition BITS_PER_SECTOR :: nat where "BITS_PER_SECTOR = 4096"

text \<open>\<open>DIV_ROUND_UP\<close> on \<open>uint32_t\<close>.\<close>

definition div_round_up32 :: "nat \<Rightarrow> nat \<Rightarrow> nat" where
  "div_round_up32 x step = sub32 (w32 (x + step)) 1 div step"

definition enc_super_block :: "super_block \<Rightarrow> u8 list \<Rightarrow> u8 list" where
  "enc_super_block b pad = enc_words [magic b, sb_sec_cnt b, inode_cnt b, part_lba_base b,
     block_bitmap_lba b, block_bitmap_sects b, inode_bitmap_lba b, inode_bitmap_sects b,
     inode_table_lba b, inode_table_sects b, data_start_lba b, root_inode_no b, dir_entry_size b] @ pad"

definition dec_super_block :: "u8 list \<Rightarrow> super_block" where
  "dec_super_block bs = (let w = dec_words 13 bs in
     \<lparr>magic = w ! 0, sb_sec_cnt = w ! 1, inode_cnt = w ! 2, part_lba_base = w ! 3,
      block_bitmap_lba = w ! 4, block_bitmap_sects = w ! 5, inode_bitmap_lba = w ! 6,
      inode_bitmap_sects = w ! 7, inode_table_lba = w ! 8, inode_table_sects = w ! 9,
      data_start_lba = w ! 10, root_inode_no = w ! 11, dir_entry_size = w ! 12\<rparr>)"

text \<open>The length of the block bitmap in bits, and the super block.\<close>

definition used_sects :: nat where
  "used_sects = 1 + 1 + div_round_up32 MAX_FILES_PER_PART BITS_PER_SECTOR
     + div_round_up32 (inode_size * MAX_FILES_PER_PART) 512"

definition bitmap_bit_len :: "nat \<Rightarrow> nat" where
  "bitmap_bit_len sec_count =
     (let free_sects = sub32 sec_count used_sects in
      sub32 free_sects (div_round_up32 free_sects BITS_PER_SECTOR))"

definition format_sb :: "nat \<Rightarrow> nat \<Rightarrow> super_block" where
  "format_sb start sec_count =
     (let bsects = div_round_up32 (bitmap_bit_len sec_count) BITS_PER_SECTOR;
          isects = div_round_up32 MAX_FILES_PER_PART BITS_PER_SECTOR;
          tsects = div_round_up32 (inode_size * MAX_FILES_PER_PART) 512;
          blba = w32 (start + 2); ilba = w32 (blba + bsects); tlba = w32 (ilba + isects) in
      \<lparr>magic = 0x19590318, sb_sec_cnt = sec_count, inode_cnt = MAX_FILES_PER_PART,
       part_lba_base = start, block_bitmap_lba = blba, block_bitmap_sects = bsects,
       inode_bitmap_lba = ilba, inode_bitmap_sects = isects, inode_table_lba = tlba,
       inode_table_sects = tsects, data_start_lba = w32 (tlba + tsects), root_inode_no = 0,
       dir_entry_size = 24\<rparr>)"

section \<open>Formatting\<close>

text \<open>The loop \<open>while (bit_idx <= block_bitmap_last_bit)\<close>; \<open>n\<close> iterations are left.\<close>

fun clear_bits :: "u8 list \<Rightarrow> nat \<Rightarrow> nat \<Rightarrow> nat \<Rightarrow> u8 list option" where
  "clear_bits buf byte bit_idx 0 = Some buf"
| "clear_bits buf byte bit_idx (Suc n) =
     do { x \<leftarrow> rd buf byte;
          buf \<leftarrow> wr buf byte (x AND NOT (push_bit bit_idx 1));
          clear_bits buf byte (Suc bit_idx) n }"

definition format_bitmap :: "nat \<Rightarrow> u8 list \<Rightarrow> u8 list option" where
  "format_bitmap bit_len buf =
     do { x \<leftarrow> rd buf 0;
          buf \<leftarrow> wr buf 0 (x OR 1);
          let last_byte = bit_len div 8; last_bit = bit_len mod 8; last_size = 512 - last_byte mod 512 in
          do { buf \<leftarrow> wr_block buf last_byte (replicate last_size 0xff);
               clear_bits buf last_byte 0 (last_bit + 1) } }"

text \<open>The root inode in a zeroed table.\<close>

definition root_inode :: "super_block \<Rightarrow> inode" where
  "root_inode b = \<lparr>i_no = 0, i_size = dir_entry_size b * 2, i_open_cnts = 0, write_deny = False,
     i_sectors = data_start_lba b # replicate 12 0\<rparr>"

text \<open>
  Five steps: the super block, the block bitmap, the inode bitmap, the inode table and the
  block of the root directory. \<open>mem\<close> says whether the buffer could be allocated, which the
  code does not test.
\<close>

definition partition_format :: "bool \<Rightarrow> u8 list \<Rightarrow> nat \<Rightarrow> nat \<Rightarrow> disk \<Rightarrow> disk option" where
  "partition_format mem pad start sec_count d =
     (let b = format_sb start sec_count;
          buf_size = max (max (block_bitmap_sects b) (inode_bitmap_sects b)) (inode_table_sects b) * 512 in
      do { d \<leftarrow> disk_write d (w32 (start + 1)) (enc_super_block b pad) 1;
           kassert mem;
           buf \<leftarrow> format_bitmap (bitmap_bit_len sec_count) (replicate buf_size 0);
           d \<leftarrow> disk_write d (block_bitmap_lba b) buf (block_bitmap_sects b);
           d \<leftarrow> disk_write d (inode_bitmap_lba b) (1 # replicate (buf_size - 1) 0) (inode_bitmap_sects b);
           d \<leftarrow> disk_write d (inode_table_lba b) (enc_inode (root_inode b) @ replicate (buf_size - 76) 0)
             (inode_table_sects b);
           disk_write d (data_start_lba b) (dots_block 0 0) 1 })"

section \<open>Mounting\<close>

text \<open>A partition knows its disk; \<open>hds\<close> are the contents of the disks.\<close>

record partition = part_desc +
  my_disk :: nat

definition mount_partition :: "(nat \<Rightarrow> disk) \<Rightarrow> partition \<Rightarrow> fs \<Rightarrow> fs option" where
  "mount_partition hds part s =
     (let d = hds (my_disk part); (sb_buf, s) = kmalloc s; (sbp, s) = kmalloc s in
      do { kassert (sbp \<noteq> 0);
           kassert (sb_buf \<noteq> 0);
           buf \<leftarrow> disk_read d (w32 (pd_start_lba part + 1)) 1;
           let b = dec_super_block buf; (bb, s) = kmalloc s in
           do { kassert (bb \<noteq> 0);
                bbits \<leftarrow> disk_read d (block_bitmap_lba b) (block_bitmap_sects b);
                let (ib, s) = kmalloc s in
                do { kassert (ib \<noteq> 0);
                     ibits \<leftarrow> disk_read d (inode_bitmap_lba b) (inode_bitmap_sects b);
                     Some (s\<lparr>disk := d, start_lba := pd_start_lba part, sec_cnt := pd_sec_cnt part, sb := b,
                       block_bitmap := \<lparr>btmp_bytes_len = w32 (block_bitmap_sects b * 512), bits = bbits\<rparr>,
                       inode_bitmap := \<lparr>btmp_bytes_len = w32 (inode_bitmap_sects b * 512), bits = ibits\<rparr>,
                       open_inodes := []\<rparr>) } } })"

text \<open>\<open>list_traversal\<close> stops at the first partition of the name; without one \<open>cur_part\<close> stays \<open>NULL\<close>.\<close>

fun mount_named :: "(nat \<Rightarrow> disk) \<Rightarrow> string \<Rightarrow> partition list \<Rightarrow> fs \<Rightarrow> fs option" where
  "mount_named hds name [] s = None"
| "mount_named hds name (p # ps) s =
     (if pd_name p = name then mount_partition hds p s else mount_named hds name ps s)"

section \<open>Searching the disks\<close>

record hard_disk =
  hd_prim :: "partition list"
  hd_logic :: "partition list"

text \<open>
  One partition: formatted unless the magic number is there. \<open>mem\<close> and \<open>pad\<close> are the
  allocation and the stack at each call.
\<close>

definition init_part :: "(nat \<Rightarrow> bool) \<Rightarrow> (nat \<Rightarrow> u8 list) \<Rightarrow> nat \<Rightarrow> partition \<Rightarrow> (nat \<Rightarrow> disk) \<Rightarrow> (nat \<Rightarrow> disk) option" where
  "init_part mem pad part_idx part hds =
     (if pd_sec_cnt part = 0 then Some hds
      else
        do { buf \<leftarrow> disk_read (hds (my_disk part)) (w32 (pd_start_lba part + 1)) 1;
             if magic (dec_super_block buf) = 0x19590318 then Some hds
             else do { d \<leftarrow> partition_format (mem part_idx) (pad part_idx) (pd_start_lba part) (pd_sec_cnt part)
                         (hds (my_disk part));
                       Some (hds(my_disk part := d)) } })"

text \<open>
  The pointer \<open>part\<close> runs through the primary partitions (\<open>Inl\<close>) and from \<open>part_idx = 4\<close> on
  through the logical ones (\<open>Inr\<close>).
\<close>

function parts_loop :: "(nat \<Rightarrow> bool) \<Rightarrow> (nat \<Rightarrow> u8 list) \<Rightarrow> hard_disk \<Rightarrow> nat + nat \<Rightarrow> nat \<Rightarrow> (nat \<Rightarrow> disk)
    \<Rightarrow> (nat \<times> (nat \<Rightarrow> disk)) option" where
  "parts_loop mem pad dev part part_idx hds =
     (if part_idx < 12 then
        (let part = (if part_idx = 4 then Inr 0 else part) in
         do { p \<leftarrow> (case part of Inl k \<Rightarrow> rd (hd_prim dev) k | Inr k \<Rightarrow> rd (hd_logic dev) k);
              hds \<leftarrow> init_part mem pad part_idx p hds;
              parts_loop mem pad dev (map_sum Suc Suc part) (Suc part_idx) hds })
      else Some (part_idx, hds))"
  by pat_completeness auto
termination
  by (relation "measure (\<lambda>(m, p, h, q, i, d). 12 - i)") auto

declare parts_loop.simps [simp del]

text \<open>
  The master of every channel is skipped. \<open>part_idx\<close> is not reset for the next disk, so
  only the first slave is searched.
\<close>

fun channels_loop :: "(nat \<Rightarrow> bool) \<Rightarrow> (nat \<Rightarrow> u8 list) \<Rightarrow> hard_disk list \<Rightarrow> nat \<Rightarrow> (nat \<Rightarrow> disk) \<Rightarrow> (nat \<Rightarrow> disk) option" where
  "channels_loop mem pad [] part_idx hds = Some hds"
| "channels_loop mem pad (slave # hs) part_idx hds =
     do { (part_idx, hds) \<leftarrow> parts_loop mem pad slave (Inl 0) part_idx hds;
          channels_loop mem pad hs part_idx hds }"

definition filesys_init ::
    "(nat \<Rightarrow> bool) \<Rightarrow> (nat \<Rightarrow> u8 list) \<Rightarrow> hard_disk list \<Rightarrow> partition list \<Rightarrow> (nat \<Rightarrow> disk) \<Rightarrow> fs \<Rightarrow> fs option" where
  "filesys_init mem pad slaves parts hds s =
     (let (sb_buf, s) = kmalloc s in
      do { kassert (sb_buf \<noteq> 0);
           hds \<leftarrow> channels_loop mem pad slaves 0 hds;
           s \<leftarrow> mount_named hds ''sdb1'' parts s;
           open_root_dir s })"

section \<open>The geometry\<close>

text \<open>A partition inside the disk, large enough that the bitmap has a whole byte.\<close>

definition part_ok :: "nat \<Rightarrow> nat \<Rightarrow> bool" where
  "part_ok start n \<longleftrightarrow> 620 \<le> n \<and> start + n \<le> max_lba"

definition blen :: "nat \<Rightarrow> nat" where "blen n = n - 611 - (n - 611 + 4095) div 4096"
definition bsects :: "nat \<Rightarrow> nat" where "bsects n = (blen n + 4095) div 4096"

lemma div_round_up32_eq: "0 < step \<Longrightarrow> x + step < 4294967296 \<Longrightarrow> div_round_up32 x step = (x + step - 1) div step"
  by (simp add: div_round_up32_def sub32_le)

lemma blen_bounds:
  assumes "620 \<le> n"
  shows "8 \<le> blen n" "1 \<le> bsects n" "blen n \<le> 4096 * bsects n" "4096 * bsects n < blen n + 4096"
    "611 + bsects n + blen n \<le> n"
proof -
  show "8 \<le> blen n" using assms by (simp add: blen_def)
  then show "1 \<le> bsects n" by (simp add: bsects_def)
  show "blen n \<le> 4096 * bsects n" "4096 * bsects n < blen n + 4096" by (simp_all add: bsects_def)
  have "bsects n \<le> (n - 611 + 4095) div 4096" unfolding bsects_def by (rule div_le_mono) (simp add: blen_def)
  then show "611 + bsects n + blen n \<le> n" using assms by (simp add: blen_def)
qed

lemma format_sb_eq:
  assumes "part_ok start n"
  shows "bitmap_bit_len n = blen n"
    "format_sb start n = \<lparr>magic = 0x19590318, sb_sec_cnt = n, inode_cnt = 4096, part_lba_base = start,
      block_bitmap_lba = start + 2, block_bitmap_sects = bsects n, inode_bitmap_lba = start + 2 + bsects n,
      inode_bitmap_sects = 1, inode_table_lba = start + 3 + bsects n, inode_table_sects = 608,
      data_start_lba = start + 611 + bsects n, root_inode_no = 0, dir_entry_size = 24\<rparr>"
proof -
  have n: "620 \<le> n" "start + n \<le> 163839" using assms by (simp_all add: part_ok_def max_lba_eq)
  note b = blen_bounds [OF n(1)]
  note c = MAX_FILES_PER_PART_def BITS_PER_SECTOR_def inode_size_def
  have r: "div_round_up32 4096 4096 = 1" "div_round_up32 311296 512 = 608"
    by (simp_all add: div_round_up32_eq)
  then have u: "used_sects = 611" by (simp add: used_sects_def c)
  have f: "sub32 n 611 = n - 611" using n by (simp add: sub32_le)
  show l: "bitmap_bit_len n = blen n"
    using n f by (simp add: bitmap_bit_len_def u div_round_up32_eq BITS_PER_SECTOR_def blen_def sub32_le)
  have "div_round_up32 (blen n) 4096 = bsects n"
    using n b by (simp add: div_round_up32_eq bsects_def)
  then show "format_sb start n = \<lparr>magic = 0x19590318, sb_sec_cnt = n, inode_cnt = 4096, part_lba_base = start,
      block_bitmap_lba = start + 2, block_bitmap_sects = bsects n, inode_bitmap_lba = start + 2 + bsects n,
      inode_bitmap_sects = 1, inode_table_lba = start + 3 + bsects n, inode_table_sects = 608,
      data_start_lba = start + 611 + bsects n, root_inode_no = 0, dir_entry_size = 24\<rparr>"
    using n b by (simp add: format_sb_def l r Let_def c)
qed

section \<open>The super block and the bitmap\<close>

lemma dec_enc_super_block:
  assumes "part_ok start n"
  shows "dec_super_block (enc_super_block (format_sb start n) pad) = format_sb start n"
proof -
  let ?b = "format_sb start n"
  let ?w = "[magic ?b, sb_sec_cnt ?b, inode_cnt ?b, part_lba_base ?b,
     block_bitmap_lba ?b, block_bitmap_sects ?b, inode_bitmap_lba ?b, inode_bitmap_sects ?b,
     inode_table_lba ?b, inode_table_sects ?b, data_start_lba ?b, root_inode_no ?b, dir_entry_size ?b]"
  have n: "620 \<le> n" "start + n \<le> 163839" using assms by (simp_all add: part_ok_def max_lba_eq)
  have "\<forall>x \<in> set ?w. x < 4294967296"
    unfolding format_sb_eq [OF assms] using n blen_bounds [OF n(1)] by simp
  note w = dec_words_enc_words [OF this, of pad]
  have l: "13 = length ?w" by simp
  have "dec_words 13 (enc_super_block ?b pad) = ?w"
    unfolding enc_super_block_def by (subst l) (rule w)
  then show ?thesis by (simp add: dec_super_block_def)
qed

lemma length_enc_super_block [simp]: "length (enc_super_block b pad) = 52 + length pad"
  by (simp add: enc_super_block_def)

lemma clear_bits_spec:
  "k < length buf \<Longrightarrow> b + n \<le> 8 \<Longrightarrow>
   \<exists>x. clear_bits buf k b n = Some (buf[k := x]) \<and> (\<forall>i. bit x i \<longleftrightarrow> bit (buf ! k) i \<and> \<not> (b \<le> i \<and> i < b + n))"
proof (induction n arbitrary: b buf)
  case 0
  then show ?case by (auto intro!: exI [of _ "buf ! k"])
next
  case (Suc n)
  let ?y = "buf ! k AND NOT (push_bit b 1)"
  from Suc.IH [of "buf[k := ?y]" "Suc b"] Suc.prems obtain x where
    x: "clear_bits (buf[k := ?y]) k (Suc b) n = Some (buf[k := x])"
      "\<forall>i. bit x i \<longleftrightarrow> bit ?y i \<and> \<not> (Suc b \<le> i \<and> i < Suc b + n)" by auto
  have y: "bit ?y i \<longleftrightarrow> bit (buf ! k) i \<and> i \<noteq> b" for i
  proof (cases "i < 8")
    case True
    then show ?thesis by (auto simp: bit_and_iff bit_not_iff bit_exp_iff)
  next
    case False
    then have "\<not> bit w i" for w :: u8 using bit_imp_le_length [of w i] by auto
    then show ?thesis by blast
  qed
  have "bit x i \<longleftrightarrow> bit (buf ! k) i \<and> \<not> (b \<le> i \<and> i < b + Suc n)" for i
    unfolding x(2) [rule_format] y by (simp add: le_less less_Suc_eq) linarith
  moreover have "clear_bits buf k b (Suc n) = Some (buf[k := x])" using x(1) Suc.prems(1) by simp
  ultimately show ?case by blast
qed

lemma format_bitmap_spec:
  assumes L: "8 \<le> L" and fit: "512 * (L div 4096 + 1) \<le> N"
  shows "\<exists>buf. format_bitmap L (replicate N 0) = Some buf \<and> length buf = N
    \<and> (\<forall>i < 8 * N. i div 4096 \<le> L div 4096 \<longrightarrow> (bit (buf ! (i div 8)) (i mod 8) \<longleftrightarrow> i = 0 \<or> L < i))"
proof -
  define k where "k = L div 8"
  define z where "z = 512 - k mod 512"
  have kd: "k div 512 = L div 4096" by (simp add: k_def div_mult2_eq)
  have "k = 512 * (L div 4096) + k mod 512" using div_mult_mod_eq [of k 512] kd by simp
  then have kz: "k + z = 512 * (L div 4096 + 1)" using mod_less_divisor [of 512 k] by (simp add: z_def)
  have k1: "1 \<le> k" using L by (simp add: k_def)
  have z: "0 < z" using mod_less_divisor [of 512 k] by (simp add: z_def)
  have N: "0 < N" using fit by simp
  define b1 where "b1 = (replicate N 0)[0 := (1 :: u8)]"
  define b2 where "b2 = take k b1 @ replicate z (0xff :: u8) @ drop (k + z) b1"
  have l2: "length b2 = N" using kz fit by (simp add: b1_def b2_def)
  have w: "wr_block b1 k (replicate z 0xff) = Some b2"
    using kz fit by (simp add: wr_block_def b2_def b1_def)
  have kl: "k < length b2" using kz z fit l2 by linarith
  have "0 + (L mod 8 + 1) \<le> 8" using mod_less_divisor [of 8 L] by linarith
  from clear_bits_spec [OF kl this] obtain x where x: "clear_bits b2 k 0 (L mod 8 + 1) = Some (b2[k := x])"
    "\<forall>i. bit x i \<longleftrightarrow> bit (b2 ! k) i \<and> \<not> (0 \<le> i \<and> i < 0 + (L mod 8 + 1))" by blast
  have f: "format_bitmap L (replicate N 0) = Some (b2[k := x])"
    using N w x(1) by (simp add: format_bitmap_def Let_def b1_def k_def z_def)
  have nth2: "b2 ! j = (if j = 0 then 1 else if k \<le> j \<and> j < k + z then 0xff else 0)" if "j < N" for j
    using that k1 kz fit by (auto simp: b2_def b1_def nth_append nth_list_update)
  have ff: "bit (0xff :: u8) j" if "j < 8" for j
  proof -
    have "bit (mask 8 :: u8) j" using that by (simp add: bit_mask_iff)
    then show ?thesis by (simp add: mask_eq_exp_minus_1)
  qed
  have "bit ((b2[k := x]) ! (i div 8)) (i mod 8) \<longleftrightarrow> i = 0 \<or> L < i"
    if i: "i < 8 * N" "i div 4096 \<le> L div 4096" for i
  proof -
    have iN: "i div 8 < N" using i(1) by simp
    have i8: "i = 8 * (i div 8) + i mod 8" "L = 8 * k + L mod 8" by (simp_all add: k_def)
    have "i div 8 div 512 \<le> L div 4096" using i(2) by (simp add: div_mult2_eq)
    then have "i div 8 div 512 < L div 4096 + 1" by simp
    then have "i div 8 < 512 * (L div 4096 + 1)" by (simp only: div_less_iff_less_mult mult.commute)
    then have up: "i div 8 < k + z" using kz by simp
    consider "i div 8 < k" | "i div 8 = k" | "k < i div 8" by linarith
    then show ?thesis
    proof cases
      case 1
      then have "\<not> L < i" using i8 mod_less_divisor [of 8 i] by linarith
      moreover have "bit (1 :: u8) (i mod 8) \<longleftrightarrow> i mod 8 = 0" by (simp add: bit_1_iff)
      ultimately show ?thesis using 1 nth2 [OF iN] i8(1) by auto
    next
      case 2
      then have "bit (b2 ! k) (i mod 8)" using nth2 [OF iN] k1 z ff by simp
      moreover have "L < i \<longleftrightarrow> L mod 8 < i mod 8" using i8 2 by linarith
      moreover have "i \<noteq> 0" using 2 k1 by auto
      moreover have "(b2[k := x]) ! (i div 8) = x" using 2 kl by simp
      ultimately show ?thesis using x(2) [rule_format, of "i mod 8"] 2 by simp linarith
    next
      case 3
      then have "bit (b2 ! (i div 8)) (i mod 8)" using nth2 [OF iN] up ff by simp
      moreover have "L < i" using 3 i8 mod_less_divisor [of 8 L] by linarith
      ultimately show ?thesis using 3 by simp
    qed
  qed
  with f l2 show ?thesis by auto
qed

section \<open>What formatting leaves on the disk\<close>

lemma sectors_from_bytes:
  assumes "disk_ok d" and "ide_ok lba n" and "512 * n \<le> length buf"
    and "\<And>i. i < 512 * n \<Longrightarrow> disk_byte d (512 * lba + i) = buf ! i"
  shows "disk_read d lba n = Some (take (512 * n) buf)"
proof -
  have "map (disk_byte d) [512 * lba..<512 * (lba + n)] = take (512 * n) buf"
    by (rule nth_equalityI) (use assms(3,4) in auto)
  then show ?thesis using assms(1,2) by (simp add: disk_read_bytes)
qed

lemma sector_from_bytes:
  assumes "disk_ok d" and "length buf = 512" and "\<And>i. i < 512 \<Longrightarrow> disk_byte d (512 * lba + i) = buf ! i"
  shows "d lba = buf"
proof (rule nth_equalityI)
  show l: "length (d lba) = length buf" using assms(1,2) by (simp add: disk_ok_def)
  fix i assume "i < length (d lba)"
  then show "d lba ! i = buf ! i" using assms(2,3) l by (simp add: disk_byte_def)
qed

lemma length_dots_block [simp]: "length (dots_block no p) = 512"
  by (simp add: dots_block_def enc_dir_entry_def dot_def dotdot_def)

lemma root_inode_wf: "part_ok start n \<Longrightarrow> inode_wf (root_inode (format_sb start n))"
  using blen_bounds [of n] by (auto simp: root_inode_def inode_wf_def format_sb_eq part_ok_def max_lba_eq)

lemma partition_format_spec:
  assumes ok: "disk_ok d" and part: "part_ok start n" and pad: "length pad = 460"
  shows "\<exists>d' buf. partition_format True pad start n d = Some d' \<and> disk_ok d'
    \<and> format_bitmap (blen n) (replicate 311296 0) = Some buf
    \<and> disk_read d' (start + 1) 1 = Some (enc_super_block (format_sb start n) pad)
    \<and> disk_read d' (start + 2) (bsects n) = Some (take (512 * bsects n) buf)
    \<and> disk_read d' (start + 2 + bsects n) 1 = Some (1 # replicate 511 0)
    \<and> (\<forall>i < 311296. disk_byte d' (512 * (start + 3 + bsects n) + i)
        = (enc_inode (root_inode (format_sb start n)) @ replicate 311220 0) ! i)
    \<and> d' (start + 611 + bsects n) = dots_block 0 0"
proof -
  let ?B = "bsects n" and ?b = "format_sb start n"
  have n: "620 \<le> n" "start + n \<le> 163839" using part by (simp_all add: part_ok_def max_lba_eq)
  note b = blen_bounds [OF n(1)] and sb = format_sb_eq [OF part]
  have B: "?B \<le> 40" using b(4,5) n by linarith
  have "blen n div 4096 \<le> 40" using b(5) n by linarith
  then have "512 * (blen n div 4096 + 1) \<le> 311296" by simp
  from format_bitmap_spec [OF b(1) this] obtain buf where
    buf: "format_bitmap (blen n) (replicate 311296 0) = Some buf" "length buf = 311296" by blast
  have il: "length (enc_inode (root_inode ?b)) = 76" using root_inode_wf [OF part] by simp
  obtain d1 where d1: "disk_write d (start + 1) (enc_super_block ?b pad) 1 = Some d1"
    using disk_write_Some [of "start + 1" 1 "enc_super_block ?b pad" d] n pad by (auto simp: ide_ok_small max_lba_eq)
  obtain d2 where d2: "disk_write d1 (start + 2) buf ?B = Some d2"
    using disk_write_Some [of "start + 2" ?B buf d1] n b B buf(2) by (auto simp: ide_ok_small max_lba_eq)
  obtain d3 where d3: "disk_write d2 (start + 2 + ?B) (1 # replicate 311295 0) 1 = Some d3"
    using disk_write_Some [of "start + 2 + ?B" 1 "1 # replicate 311295 0" d2] n b
    by (auto simp: ide_ok_small max_lba_eq)
  obtain d4 where d4: "disk_write d3 (start + 3 + ?B) (enc_inode (root_inode ?b) @ replicate 311220 0) 608 = Some d4"
    using disk_write_Some [of "start + 3 + ?B" 608 "enc_inode (root_inode ?b) @ replicate 311220 0" d3] n b il
    by (auto simp: ide_ok_def max_lba_eq)
  obtain d5 where d5: "disk_write d4 (start + 611 + ?B) (dots_block 0 0) 1 = Some d5"
    using disk_write_Some [of "start + 611 + ?B" 1 "dots_block 0 0" d4] n b by (auto simp: ide_ok_small max_lba_eq)
  have fl: "block_bitmap_lba ?b = start + 2" "block_bitmap_sects ?b = ?B" "inode_bitmap_lba ?b = start + 2 + ?B"
    "inode_bitmap_sects ?b = 1" "inode_table_lba ?b = start + 3 + ?B" "inode_table_sects ?b = 608"
    "data_start_lba ?b = start + 611 + ?B" by (simp_all add: sb(2))
  have f: "partition_format True pad start n d = Some d5"
    using n b B buf d1 d2 d3 d4 d5 by (simp add: partition_format_def Let_def sb(1) fl max_def)
  note w = disk_write_byte [OF d5] disk_write_byte [OF d4] disk_write_byte [OF d3] disk_write_byte [OF d2]
    disk_write_byte [OF d1]
  have ok5: "disk_ok d5" using disk_write_ok d1 d2 d3 d4 d5 ok by metis
  have 1: "disk_read d5 (start + 1) 1 = Some (take (512 * 1) (enc_super_block ?b pad))"
    by (rule sectors_from_bytes [OF ok5]) (use n pad in \<open>simp_all add: ide_ok_small max_lba_eq w\<close>)
  have 2: "disk_read d5 (start + 2) ?B = Some (take (512 * ?B) buf)"
    by (rule sectors_from_bytes [OF ok5]) (use n b B buf(2) in \<open>simp_all add: ide_ok_small max_lba_eq w\<close>)
  have 3: "disk_read d5 (start + 2 + ?B) 1 = Some (take (512 * 1) (1 # replicate 311295 0))"
    by (rule sectors_from_bytes [OF ok5]) (use n b B in \<open>simp_all add: ide_ok_small max_lba_eq w\<close>)
  have 4: "disk_byte d5 (512 * (start + 3 + ?B) + i) = (enc_inode (root_inode ?b) @ replicate 311220 0) ! i"
    if "i < 311296" for i
    using that by (simp add: w)
  have 5: "d5 (start + 611 + ?B) = dots_block 0 0"
    by (rule sector_from_bytes [OF ok5]) (simp_all add: w)
  from f ok5 buf(1) 1 2 3 4 5 pad show ?thesis by auto
qed

section \<open>The mounted file system\<close>

lemma dots_slots:
  assumes "k < 21" "no < 4294967296" "p < 4294967296"
  shows "bslot (dots_block no p) k =
    (if k = 0 then \<lparr>filename = dot @ replicate 15 0, de_i_no = no, f_type = FT_DIRECTORY\<rparr>
     else if k = 1 then \<lparr>filename = dotdot @ replicate 14 0, de_i_no = p, f_type = FT_DIRECTORY\<rparr>
     else zero_dir_entry)"
proof -
  let ?e = "\<lparr>filename = dot @ replicate 15 0, de_i_no = no, f_type = FT_DIRECTORY\<rparr>"
  let ?f = "\<lparr>filename = dotdot @ replicate 14 0, de_i_no = p, f_type = FT_DIRECTORY\<rparr>"
  have wf: "entry_wf ?e" "entry_wf ?f"
    using assms by (simp_all add: entry_wf_def dot_def dotdot_def FT_DIRECTORY_def)
  have d: "dots_block no p = enc_dir_entry ?e @ enc_dir_entry ?f @ replicate 464 0" by (simp add: dots_block_def)
  consider "k = 0" | "k = 1" | "2 \<le> k" by linarith
  then show ?thesis
  proof cases
    case 1
    then show ?thesis using dec_enc_dir_entry [OF wf(1)] by (simp add: bslot_def d)
  next
    case 2
    have "drop 24 (dots_block no p) = enc_dir_entry ?f @ replicate 464 0" using wf by (simp add: d)
    with 2 show ?thesis using dec_enc_dir_entry [OF wf(2)] by (simp add: bslot_def)
  next
    case 3
    have "drop (24 * k) (dots_block no p) = replicate (512 - 24 * k) 0" using wf 3 assms(1) by (simp add: d)
    then have "take 24 (drop (24 * k) (dots_block no p)) = replicate 24 0" using assms(1) by (simp add: min_def)
    then have "dec_dir_entry (drop (24 * k) (dots_block no p)) = dec_dir_entry (replicate 24 0)"
      using dec_dir_entry_take [of "drop (24 * k) (dots_block no p)"] assms(1) by simp
    then show ?thesis
      using 3 dec_enc_dir_entry [OF enc_zero_dir_entry(2), of "[]"] by (simp add: bslot_def enc_zero_dir_entry(1))
  qed
qed

lemma root_view:
  assumes "disk s (i_sectors ino ! 0) = dots_block 0 0" and "i_sectors ino ! 0 \<noteq> 0" "\<forall>j \<in> {1..<12}. i_sectors ino ! j = 0"
  shows "dir_view s ino = {\<lparr>filename = dot @ replicate 15 0, de_i_no = 0, f_type = FT_DIRECTORY\<rparr>,
    \<lparr>filename = dotdot @ replicate 14 0, de_i_no = 0, f_type = FT_DIRECTORY\<rparr>}"
proof -
  let ?e = "\<lparr>filename = dot @ replicate 15 0, de_i_no = 0, f_type = FT_DIRECTORY\<rparr>"
  let ?f = "\<lparr>filename = dotdot @ replicate 14 0, de_i_no = 0, f_type = FT_DIRECTORY\<rparr>"
  have slot: "slot_at s ino 0 k = (if k = 0 then ?e else if k = 1 then ?f else zero_dir_entry)" if "k < 21" for k
    using dots_slots [OF that, of 0 0] assms(1) by (simp add: slot_at_def)
  have z: "i_sectors ino ! a = 0" if "a < 12" "a \<noteq> 0" for a using assms(3) that by simp
  have "live s ino (a, b) = [(0, 0) \<mapsto> ?e, (0, 1) \<mapsto> ?f] (a, b)" for a b
  proof (cases "a = 0")
    case True
    then show ?thesis using assms(2) slot [of b]
      by (auto simp: live_def zero_dir_entry_def FT_DIRECTORY_def FT_UNKNOWN_def)
  next
    case False
    then show ?thesis using z [of a] by (auto simp: live_def)
  qed
  then have "live s ino = [(0, 0) \<mapsto> ?e, (0, 1) \<mapsto> ?f]" by auto
  then show ?thesis by (auto simp: dir_view_def ran_def split: if_splits)
qed

lemma format_bits:
  assumes "part_ok start n" and "format_bitmap (blen n) (replicate 311296 0) = Some buf"
  shows "used_bits \<lparr>btmp_bytes_len = 512 * bsects n, bits = take (512 * bsects n) buf\<rparr>
    = insert 0 {i. blen n < i \<and> i < 4096 * bsects n}"
proof -
  have n: "620 \<le> n" "start + n \<le> 163839" using assms(1) by (simp_all add: part_ok_def max_lba_eq)
  note b = blen_bounds [OF n(1)]
  have B: "bsects n \<le> 40" using b(4,5) n by linarith
  have "blen n div 4096 \<le> 40" using b(5) n by linarith
  then have "512 * (blen n div 4096 + 1) \<le> 311296" by simp
  from format_bitmap_spec [OF b(1) this] assms(2) have
    bits: "\<forall>i < 8 * 311296. i div 4096 \<le> blen n div 4096 \<longrightarrow> (bit (buf ! (i div 8)) (i mod 8) \<longleftrightarrow> i = 0 \<or> blen n < i)"
    by auto
  have "bit (buf ! (i div 8)) (i mod 8) \<longleftrightarrow> i = 0 \<or> blen n < i" if "i < 4096 * bsects n" for i
  proof -
    have "i div 4096 < bsects n" using that by (simp add: div_less_iff_less_mult mult.commute)
    moreover have "bsects n \<le> blen n div 4096 + 1" using b(4) by linarith
    ultimately have "i div 4096 \<le> blen n div 4096" by linarith
    then show ?thesis using bits that B by auto
  qed
  note bits = this
  from bits [of 0] b(2) have "bit (buf ! 0) 0" by simp
  with bits b(2) show ?thesis by (auto simp: used_bits_def bit_at_def)
qed

text \<open>
  Property C10. A partition that is formatted and then mounted is a well-formed file system:
  its layout fits, the super block that is read is the one that was written, the block
  bitmap has the root's block and the bits beyond the end set, the inode bitmap the root
  inode, and the root directory opened from disk holds exactly \<open>.\<close> and \<open>..\<close>. The bit at
  \<open>blen n\<close>, one past the last block, is left free: the block it stands for lies at the end
  of the partition or beyond it when both roundings of the bitmap size agree.
\<close>

theorem format_then_mount:
  assumes "disk_ok (hds k)" and "part_ok start n" and "length pad = 460" and "\<forall>i. alloc_ok s i"
    and "pd_start_lba part = start" "pd_sec_cnt part = n" "my_disk part = k"
  shows "\<exists>d s1 s2 ino. partition_format True pad start n (hds k) = Some d
    \<and> mount_partition (hds(k := d)) part s = Some s1 \<and> open_root_dir s1 = Some s2
    \<and> fs_wf s2 \<and> bitmap_sound s2 \<and> sb s2 = format_sb start n
    \<and> used_bits (block_bitmap s2) = insert 0 {i. blen n < i \<and> i < nbits (block_bitmap s2)}
    \<and> used_bits (inode_bitmap s2) = {0}
    \<and> dir_inode s2 1 = Some ino \<and> i_no ino = 0 \<and> i_size ino = 48
    \<and> dir_view s2 ino = {\<lparr>filename = dot @ replicate 15 0, de_i_no = 0, f_type = FT_DIRECTORY\<rparr>,
        \<lparr>filename = dotdot @ replicate 14 0, de_i_no = 0, f_type = FT_DIRECTORY\<rparr>}
    \<and> (bsects n = (n - 611 + 4095) div 4096 \<longrightarrow> data_start_lba (sb s2) + blen n = start + n)"
proof -
  let ?B = "bsects n" and ?b = "format_sb start n"
  have n: "620 \<le> n" "start + n \<le> 163839" using assms(2) by (simp_all add: part_ok_def max_lba_eq)
  note b = blen_bounds [OF n(1)] and sb = format_sb_eq(2) [OF assms(2)]
  have fl: "block_bitmap_lba ?b = start + 2" "block_bitmap_sects ?b = ?B" "inode_bitmap_lba ?b = start + 2 + ?B"
    "inode_bitmap_sects ?b = 1" "inode_table_lba ?b = start + 3 + ?B" "root_inode_no ?b = 0"
    "data_start_lba ?b = start + 611 + ?B" "dir_entry_size ?b = 24" by (simp_all add: sb)
  have B: "?B \<le> 40" using b(4,5) n by linarith
  from partition_format_spec [OF assms(1,2,3)] obtain d buf where
    f: "partition_format True pad start n (hds k) = Some d" and ok: "disk_ok d"
    and buf: "format_bitmap (blen n) (replicate 311296 0) = Some buf"
    and r: "disk_read d (start + 1) 1 = Some (enc_super_block ?b pad)"
      "disk_read d (start + 2) ?B = Some (take (512 * ?B) buf)"
      "disk_read d (start + 2 + ?B) 1 = Some (1 # replicate 511 0)"
    and tbl: "\<forall>i < 311296. disk_byte d (512 * (start + 3 + ?B) + i)
        = (enc_inode (root_inode ?b) @ replicate 311220 0) ! i"
    and root: "d (start + 611 + ?B) = dots_block 0 0" by blast
  define s1 where "s1 = s\<lparr>allocs := allocs s + 4, disk := d, start_lba := start, sec_cnt := n, sb := ?b,
    block_bitmap := \<lparr>btmp_bytes_len = 512 * ?B, bits = take (512 * ?B) buf\<rparr>,
    inode_bitmap := \<lparr>btmp_bytes_len = 512, bits = 1 # replicate 511 0\<rparr>, open_inodes := []\<rparr>"
  have m: "mount_partition (hds(k := d)) part s = Some s1"
    using assms(4-7) r n B
    by (simp add: mount_partition_def kmalloc_def Let_def dec_enc_super_block [OF assms(2)] fl s1_def
        mult.commute)
  have "length buf = 311296" using partition_format_spec [OF assms(1,2,3)] format_bitmap_spec [OF b(1), of 311296] buf
      b(5) n by (auto simp: div_le_dividend)
  then have wf1: "fs_wf s1"
    using ok n b B by (simp add: s1_def fs_wf_def fl max_lba_eq)
  have ib: "inode_bytes s1 0 = enc_inode (root_inode ?b)"
    unfolding inode_bytes_def inode_base_def
    by (rule nth_equalityI) (use tbl root_inode_wf [OF assms(2)] in \<open>simp_all add: s1_def fl nth_append\<close>)
  have di: "disk_inode s1 0 = root_inode ?b"
    using dec_enc_inode [OF root_inode_wf [OF assms(2)], of "[]"] by (simp add: disk_inode_def ib)
  have so: "slot_ok s1 0" using n b by (simp add: slot_ok_def s1_def fl max_lba_eq)
  have no: "not_open s1 0" by (simp add: not_open_def s1_def)
  define ino where "ino = (root_inode ?b)\<lparr>i_open_cnts := 1\<rparr>"
  define a where "a = allocs s1 + 3"
  define s2 where "s2 = s1\<lparr>allocs := allocs s1 + 2, open_inodes := a # open_inodes s1,
    inodes := (inodes s1)(a \<mapsto> ino), dirs := (dirs s1)(1 \<mapsto> \<lparr>d_inode = a, dir_pos = 0\<rparr>)\<rparr>"
  have al: "alloc_ok s1 i" for i using assms(4) by (simp add: s1_def)
  have o: "open_root_dir s1 = Some s2"
    using inode_open_uncached [OF _ so no al al] ok di
    by (simp add: open_root_dir_def s1_def s2_def ino_def a_def fl)
  have ub: "used_bits (block_bitmap s2) = insert 0 {i. blen n < i \<and> i < 4096 * ?B}"
    using format_bits [OF assms(2) buf] by (simp add: s2_def s1_def)
  have ui: "used_bits (inode_bitmap s2) = {0}"
    by (auto simp: s2_def s1_def used_bits_def bit_at_def nth_Cons' bit_1_iff)
  have "fs_wf s2" using wf1 by (simp add: s2_def fs_wf_def)
  moreover have "bitmap_sound s2" unfolding bitmap_sound_def ub
    using n b by (simp add: s2_def s1_def fl max_lba_eq)
  moreover have "dir_view s2 ino = {\<lparr>filename = dot @ replicate 15 0, de_i_no = 0, f_type = FT_DIRECTORY\<rparr>,
        \<lparr>filename = dotdot @ replicate 14 0, de_i_no = 0, f_type = FT_DIRECTORY\<rparr>}"
    by (rule root_view) (use root in \<open>auto simp: s2_def s1_def ino_def root_inode_def fl nth_Cons'\<close>)
  moreover have "bsects n = (n - 611 + 4095) div 4096 \<longrightarrow> data_start_lba (sb s2) + blen n = start + n"
    using n b(5) by (simp add: s2_def s1_def fl blen_def)
  moreover have "nbits (block_bitmap s2) = 4096 * ?B" by (simp add: s2_def s1_def)
  with ub have "used_bits (block_bitmap s2) = insert 0 {i. blen n < i \<and> i < nbits (block_bitmap s2)}" by simp
  moreover have "sb s2 = ?b" "dir_inode s2 1 = Some ino" by (simp_all add: s2_def s1_def dir_inode_def)
  moreover have "i_no ino = 0" "i_size ino = 48" by (simp_all add: ino_def root_inode_def fl)
  ultimately show ?thesis
    using f m o ui by (intro exI [of _ d] exI [of _ s1] exI [of _ s2] exI [of _ ino] conjI) assumption+
qed

definition blank_hds :: "nat \<Rightarrow> disk" where
  "blank_hds = (\<lambda>_ _. replicate 512 0)"

definition demo_part :: partition where
  "demo_part = \<lparr>pd_start_lba = 63, pd_sec_cnt = 4000, pd_name = ''sdb1'', my_disk = 1\<rparr>"

theorem format_then_mount_witness:
  "\<exists>d s1 s2 ino. partition_format True (replicate 460 0) 63 4000 (blank_hds 1) = Some d
    \<and> mount_partition (blank_hds(1 := d)) demo_part demo_fs = Some s1 \<and> open_root_dir s1 = Some s2
    \<and> fs_wf s2 \<and> bitmap_sound s2 \<and> sb s2 = format_sb 63 4000
    \<and> used_bits (block_bitmap s2) = insert 0 {i. blen 4000 < i \<and> i < nbits (block_bitmap s2)}
    \<and> used_bits (inode_bitmap s2) = {0}
    \<and> dir_inode s2 1 = Some ino \<and> i_no ino = 0 \<and> i_size ino = 48
    \<and> dir_view s2 ino = {\<lparr>filename = dot @ replicate 15 0, de_i_no = 0, f_type = FT_DIRECTORY\<rparr>,
        \<lparr>filename = dotdot @ replicate 14 0, de_i_no = 0, f_type = FT_DIRECTORY\<rparr>}
    \<and> (bsects 4000 = (4000 - 611 + 4095) div 4096 \<longrightarrow> data_start_lba (sb s2) + blen 4000 = 63 + 4000)"
  by (rule format_then_mount)
    (simp_all add: disk_ok_def blank_hds_def part_ok_def max_lba_eq demo_fs_def demo_part_def)

end
