(* ===== verification/Paging.thy ===== *)
theory Paging
  imports Memory
begin

text \<open>
  What the page table code of theory \<open>Memory\<close> does to the translation of addresses. The
  tables are reached through entry 1023 of the directory, which leads back to the directory
  itself; the two pointer functions are shown to lead to the entries the processor uses.
\<close>

unbundle bit_operations_syntax

section \<open>Masks\<close>

lemma and_push_mask: "(x :: nat) AND push_bit n (mask k) = push_bit n (take_bit k (drop_bit n x))"
  by (rule bit_eqI) (auto simp: bit_simps)

lemma and_frame: "(x :: nat) AND 0xfffff000 = 4096 * (x div 4096 mod 1048576)"
  using and_push_mask [of x 12 20]
  by (simp add: push_bit_eq_mult take_bit_eq_mod drop_bit_eq_div mask_eq_exp_minus_1 mult.commute)

lemma and_dir: "(x :: nat) AND 0xffc00000 = 4194304 * (x div 4194304 mod 1024)"
  using and_push_mask [of x 22 10]
  by (simp add: push_bit_eq_mult take_bit_eq_mod drop_bit_eq_div mask_eq_exp_minus_1 mult.commute)

lemma and_tab: "(x :: nat) AND 0x003ff000 = 4096 * (x div 4096 mod 1024)"
  using and_push_mask [of x 12 10]
  by (simp add: push_bit_eq_mult take_bit_eq_mod drop_bit_eq_div mask_eq_exp_minus_1 mult.commute)

lemma and_off: "(x :: nat) AND 0xfff = x mod 4096"
  using take_bit_eq_mask [of 12 x] by (simp add: take_bit_eq_mod mask_eq_exp_minus_1)

lemma or_flags: "(p :: nat) mod 4096 = 0 \<Longrightarrow> p OR PG_US_U OR PG_RW_W OR PG_P_1 = p + 7"
proof -
  assume "p mod 4096 = 0"
  then obtain q where p: "p = push_bit 12 q" by (auto simp: push_bit_eq_mult)
  have "p AND mask 3 = 0" unfolding p by (rule bit_eqI) (auto simp: bit_simps)
  then have "p AND 7 = 0" by (simp add: mask_eq_exp_minus_1)
  then have "p OR 7 = p + 7" by (simp add: disjunctive_add_eq_or)
  then show ?thesis by (simp add: PG_US_U_def PG_RW_W_def PG_P_1_def or.assoc)
qed

section \<open>Directory and tables\<close>

definition pde :: "mm \<Rightarrow> nat \<Rightarrow> nat" where
  "pde m i = phys m (cr3 m + 4 * i)"

definition present :: "nat \<Rightarrow> bool" where
  "present e \<longleftrightarrow> e mod 2 = 1"

definition frame :: "nat \<Rightarrow> nat" where
  "frame e = 4096 * (e div 4096 mod 1048576)"

abbreviation pdx :: "nat \<Rightarrow> nat" where "pdx v \<equiv> v div 4194304"
abbreviation ptx :: "nat \<Rightarrow> nat" where "ptx v \<equiv> v div 4096 mod 1024"

definition pte_addr :: "mm \<Rightarrow> nat \<Rightarrow> nat" where
  "pte_addr m v = frame (pde m (pdx v)) + 4 * ptx v"

definition pte :: "mm \<Rightarrow> nat \<Rightarrow> nat" where
  "pte m v = phys m (pte_addr m v)"

definition self_map :: "mm \<Rightarrow> bool" where
  "self_map m \<longleftrightarrow> cr3 m mod 4096 = 0 \<and> cr3 m < 4294967296 \<and> present (pde m 1023) \<and> frame (pde m 1023) = cr3 m"

lemma mmu_eq: "mmu m v = (if present (pde m (pdx v)) \<and> present (pte m v) then Some (frame (pte m v) + v mod 4096) else None)"
  by (simp add: mmu_def Let_def pde_def pte_def pte_addr_def present_def and_one_eq and_frame frame_def)

lemma mmu_off: "o1 < 4096 \<Longrightarrow> v mod 4096 = 0 \<Longrightarrow> mmu m (v + o1) = map_option (\<lambda>p. p + o1) (mmu m v)"
proof -
  assume o: "o1 < 4096" "v mod 4096 = 0"
  then have "(v + o1) div 4096 = v div 4096" "(v + o1) mod 4096 = o1"
    by (auto simp: mod_add_left_eq [symmetric] div_add1_eq [of v o1])
  moreover have "(v + o1) div 4194304 = v div 4194304"
    using \<open>(v + o1) div 4096 = v div 4096\<close> div_mult2_eq [of "v + o1" 4096 1024] div_mult2_eq [of v 4096 1024] by simp
  ultimately show ?thesis using o by (simp add: mmu_eq pte_def pte_addr_def)
qed

lemma pdx_ptx: "v < 4294967296 \<Longrightarrow> PDE_IDX v = pdx v" "PTE_IDX v = ptx v"
  by (simp_all add: PDE_IDX_def PTE_IDX_def and_dir and_tab drop_bit_eq_div)

lemma ptrs:
  assumes "v < 4294967296"
  shows "pde_ptr v = 0xfffff000 + 4 * pdx v" "pte_ptr v = 0xffc00000 + 4096 * pdx v + 4 * ptx v" "pdx v < 1024" "ptx v < 1024"
proof -
  show a: "pdx v < 1024" "ptx v < 1024" using assms by simp_all
  then show "pde_ptr v = 0xfffff000 + 4 * pdx v"
    using assms by (simp add: pde_ptr_def pdx_ptx mult.commute)
  have "drop_bit 10 (v AND 0xffc00000) = 4096 * pdx v"
    using a by (simp add: and_dir drop_bit_eq_div)
  then show "pte_ptr v = 0xffc00000 + 4096 * pdx v + 4 * ptx v"
    using a by (simp add: pte_ptr_def pdx_ptx(2) mult.commute)
qed

lemma frame_aligned [simp]: "frame e mod 4096 = 0"
  by (simp add: frame_def)

text \<open>What the two pointers reach.\<close>

lemma mmu_table:
  assumes "self_map m" and "i < 1024" "k < 1024"
  shows "mmu m (0xffc00000 + 4096 * i + 4 * k) = (if present (pde m i) then Some (frame (pde m i) + 4 * k) else None)"
proof -
  let ?u = "0xffc00000 + 4096 * i + 4 * k"
  have u: "pdx ?u = 1023" "?u div 4096 = 1047552 + i" "?u mod 4096 = 4 * k"
    using assms(2,3) mod_mult_self1 [of "4 * k" "1047552 + i" 4096] by (simp_all add: algebra_simps)
  then have "ptx ?u = i" using assms(2) mod_mult_self1 [of i 1023 1024] by (simp add: add.commute)
  with u assms show ?thesis by (auto simp: mmu_eq self_map_def pte_def pte_addr_def pde_def)
qed

lemma mmu_pde_ptr:
  assumes "self_map m" and "v < 4294967296"
  shows "mmu m (pde_ptr v) = Some (cr3 m + 4 * pdx v)"
  using mmu_table [OF assms(1), of 1023 "pdx v"] assms ptrs [OF assms(2)] by (simp add: self_map_def)

lemma mmu_pte_ptr:
  assumes "self_map m" and "v < 4294967296"
  shows "mmu m (pte_ptr v) = (if present (pde m (pdx v)) then Some (pte_addr m v) else None)"
  using mmu_table [OF assms(1), of "pdx v" "ptx v"] ptrs [OF assms(2)] by (simp add: pte_addr_def add.assoc)

section \<open>Writing entries\<close>

lemma page_addr_eq:
  "(f :: nat) mod 4096 = 0 \<Longrightarrow> g mod 4096 = 0 \<Longrightarrow> a < 4096 \<Longrightarrow> b < 4096 \<Longrightarrow> f + a = g + b \<longleftrightarrow> f = g \<and> a = b"
proof
  assume h: "f mod 4096 = 0" "g mod 4096 = 0" "a < 4096" "b < 4096" "f + a = g + b"
  then obtain p q where pq: "f = 4096 * p" "g = 4096 * q" by (auto simp: mod_eq_0_iff_dvd elim!: dvdE)
  have "(4096 * p + a) div 4096 = p" "(4096 * q + b) div 4096 = q" using h(3,4) by simp_all
  with h(5) have "p = q" unfolding pq by metis
  with h(5) show "f = g \<and> a = b" by (simp add: pq)
qed simp

lemma table_addr_eq:
  "(f :: nat) mod 4096 = 0 \<Longrightarrow> g mod 4096 = 0 \<Longrightarrow> j < 1024 \<Longrightarrow> k < 1024 \<Longrightarrow> f + 4 * j = g + 4 * k \<longleftrightarrow> f = g \<and> j = k"
  using page_addr_eq [of f g "4 * j" "4 * k"] by simp

text \<open>Writing into a table leaves the directory alone.\<close>

lemma pde_write:
  assumes "self_map m" and "f mod 4096 = 0" "f \<noteq> cr3 m" "k < 1024" "j < 1024"
  shows "pde (m\<lparr>phys := (phys m)(f + 4 * k := x)\<rparr>) j = pde m j"
  using assms table_addr_eq [of f "cr3 m" k j] by (auto simp: pde_def self_map_def)

lemma self_map_write:
  "self_map m \<Longrightarrow> f mod 4096 = 0 \<Longrightarrow> f \<noteq> cr3 m \<Longrightarrow> k < 1024 \<Longrightarrow> self_map (m\<lparr>phys := (phys m)(f + 4 * k := x)\<rparr>)"
  by (simp add: self_map_def [of "m\<lparr>phys := y\<rparr>" for y] pde_write) (simp add: self_map_def)

lemma vzero_table:
  assumes "self_map m" "i < 1023" "present (pde m i)" "frame (pde m i) \<noteq> cr3 m" "k + n \<le> 1024"
  shows "vzero m (0xffc00000 + 4096 * i + 4 * k) n
    = Some (m\<lparr>phys := \<lambda>a. if a \<in> (\<lambda>j. frame (pde m i) + 4 * j) ` {k..<k + n} then 0 else phys m a\<rparr>)"
  using assms
proof (induction n arbitrary: k m)
  case 0
  then show ?case by simp
next
  case (Suc n)
  let ?f = "frame (pde m i)"
  let ?m = "m\<lparr>phys := (phys m)(?f + 4 * k := 0)\<rparr>"
  have k: "k < 1024" "i < 1024" using Suc.prems by simp_all
  have w: "vwrite m (0xffc00000 + 4096 * i + 4 * k) 0 = Some ?m"
    using mmu_table [OF Suc.prems(1) k(2,1)] Suc.prems(3) by (simp add: vwrite_def)
  have p: "pde ?m i = pde m i" using pde_write [OF Suc.prems(1) frame_aligned Suc.prems(4) k] by simp
  have sm: "self_map ?m" using self_map_write [OF Suc.prems(1) frame_aligned Suc.prems(4) k(1)] by simp
  have "vzero ?m (0xffc00000 + 4096 * i + 4 * Suc k) n
    = Some (?m\<lparr>phys := \<lambda>a. if a \<in> (\<lambda>j. frame (pde ?m i) + 4 * j) ` {Suc k..<Suc k + n} then 0 else phys ?m a\<rparr>)"
    using Suc.prems by (intro Suc.IH sm) (simp_all add: p)
  moreover have "{k..<k + Suc n} = insert k {Suc k..<Suc k + n}" by auto
  then have "(\<lambda>a. if a \<in> (\<lambda>j. ?f + 4 * j) ` {Suc k..<Suc k + n} then 0 else phys ?m a)
    = (\<lambda>a. if a \<in> (\<lambda>j. ?f + 4 * j) ` {k..<k + Suc n} then 0 else phys m a)"
    by (simp only: image_insert insert_iff) (simp add: fun_eq_iff)
  moreover have "0xffc00000 + 4096 * i + 4 * k + 4 = 0xffc00000 + 4096 * i + 4 * Suc k" by simp
  ultimately show ?case using w by (simp only: vzero.simps bind.simps p) simp
qed

section \<open>Adding and removing a page\<close>

definition tables_ok :: "mm \<Rightarrow> bool" where
  "tables_ok m \<longleftrightarrow> self_map m \<and> (\<forall>i < 1023. present (pde m i) \<longrightarrow> frame (pde m i) \<noteq> cr3 m)"

text \<open>A frame that is no table of the address space.\<close>

definition fresh_frame :: "mm \<Rightarrow> nat \<Rightarrow> bool" where
  "fresh_frame m f \<longleftrightarrow> f mod 4096 = 0 \<and> f < 4294967296 \<and> f \<noteq> cr3 m
     \<and> (\<forall>i < 1023. present (pde m i) \<longrightarrow> frame (pde m i) \<noteq> f)"

lemma entry_flags:
  assumes "p mod 4096 = 0" "p < 4294967296"
  shows "frame (p + 7) = p" "present (p + 7)"
proof -
  obtain q where q: "p = 4096 * q" using assms(1) by (auto simp: mod_eq_0_iff_dvd elim!: dvdE)
  then have "(p + 7) div 4096 = q" "q < 1048576" using assms(2) by simp_all
  then show "frame (p + 7) = p" by (simp add: frame_def q)
  show "present (p + 7)" by (simp add: present_def q mod_add_eq [symmetric] mod_mult_eq [symmetric])
qed

lemma pte_write:
  fixes x :: nat
  assumes "self_map m" and "frame (pde m (pdx v)) \<noteq> cr3 m" and "v < 0xffc00000" "w < 0xffc00000"
  defines "m' \<equiv> m\<lparr>phys := (phys m)(pte_addr m v := x)\<rparr>"
  shows "self_map m'" "\<forall>i < 1024. pde m' i = pde m i" "pte_addr m' w = pte_addr m w"
    "pte m' w = (if pte_addr m w = pte_addr m v then x else pte m w)"
proof -
  have v: "pdx v < 1024" "ptx v < 1024" "pdx w < 1024" using assms(3,4) by simp_all
  note f = assms(1) frame_aligned assms(2) v(2)
  show "self_map m'" using self_map_write [OF f] by (simp add: m'_def pte_addr_def)
  show p: "\<forall>i < 1024. pde m' i = pde m i" using pde_write [OF f] by (simp add: m'_def pte_addr_def)
  then show a: "pte_addr m' w = pte_addr m w" using v by (simp add: pte_addr_def)
  show "pte m' w = (if pte_addr m w = pte_addr m v then x else pte m w)"
    using a by (simp add: pte_def) (simp add: m'_def)
qed

lemma pde_eq: "phys m' = phys m \<Longrightarrow> cr3 m' = cr3 m \<Longrightarrow> pde m' i = pde m i"
  by (simp add: pde_def)

lemma palloc_phys: "palloc m pf = Some (f, m') \<Longrightarrow> phys m' = phys m \<and> cr3 m' = cr3 m"
  by (cases pf) (auto simp: palloc_def outcome_simps set_pool_bitmap_def split: if_splits)

text \<open>The table is there: one entry is written.\<close>

lemma add_to_table:
  assumes "tables_ok m" and "v < 0xffc00000" and p: "p mod 4096 = 0" "p < 4294967296"
    and "present (pde m (pdx v))" and "\<not> present (pte m v)"
  defines "m' \<equiv> m\<lparr>phys := (phys m)(pte_addr m v := p + 7)\<rparr>"
  shows "vread m (pte_ptr v) = Some (pte m v)"
    "vwrite m (pte_ptr v) (p OR PG_US_U OR PG_RW_W OR PG_P_1) = Some m'"
    "tables_ok m'" "mmu m' v = Some (p + v mod 4096)"
    "\<forall>w < 0xffc00000. pte_addr m' w \<noteq> pte_addr m' v \<longrightarrow> mmu m' w = mmu m w"
    "\<forall>i < 1024. pde m' i = pde m i"
proof -
  have i: "pdx v < 1023" using assms(2) by simp
  have sm: "self_map m" and f: "frame (pde m (pdx v)) \<noteq> cr3 m" using assms(1,5) i by (simp_all add: tables_ok_def)
  have v32: "v < 4294967296" using assms(2) by simp
  show "vread m (pte_ptr v) = Some (pte m v)" using mmu_pte_ptr [OF sm v32] assms(5) by (simp add: vread_def pte_def)
  show "vwrite m (pte_ptr v) (p OR PG_US_U OR PG_RW_W OR PG_P_1) = Some m'"
    unfolding or_flags [OF p(1)] using mmu_pte_ptr [OF sm v32] assms(5) by (simp add: vwrite_def m'_def)
  note w = pte_write [OF sm f assms(2), where x = "p + 7", folded m'_def]
  show pd: "\<forall>i < 1024. pde m' i = pde m i" using w(2) [OF assms(2)] .
  show "tables_ok m'"
    using assms(1) w(1) [OF assms(2)] pd by (auto simp: tables_ok_def) (simp add: m'_def)
  show "mmu m' v = Some (p + v mod 4096)"
    using w(4) [OF assms(2)] entry_flags [OF p] pd i assms(5) by (simp add: mmu_eq)
  show "\<forall>w < 0xffc00000. pte_addr m' w \<noteq> pte_addr m' v \<longrightarrow> mmu m' w = mmu m w"
  proof (intro allI impI)
    fix u assume u: "u < 0xffc00000" "pte_addr m' u \<noteq> pte_addr m' v"
    have "pdx u < 1024" using u(1) by simp
    with w(3) [OF u(1)] w(3) [OF assms(2)] w(4) [OF u(1)] u(2) pd show "mmu m' u = mmu m u" by (simp add: mmu_eq)
  qed
qed

text \<open>No table yet: a fresh frame becomes an empty one.\<close>

lemma new_table:
  assumes ok: "tables_ok m" and v: "v < 0xffc00000" and np: "\<not> present (pde m (pdx v))" and f: "fresh_frame m f"
  shows "\<exists>m2 m3. vwrite m (pde_ptr v) (f OR PG_US_U OR PG_RW_W OR PG_P_1) = Some m2
    \<and> vzero m2 (pte_ptr v AND 0xfffff000) (PG_SIZE div 4) = Some m3 \<and> tables_ok m3
    \<and> m3 = m\<lparr>phys := phys m3\<rparr> \<and> present (pde m3 (pdx v)) \<and> frame (pde m3 (pdx v)) = f
    \<and> \<not> present (pte m3 v) \<and> (\<forall>w < 0xffc00000. mmu m3 w = mmu m w)
    \<and> (\<forall>i < 1024. i \<noteq> pdx v \<longrightarrow> pde m3 i = pde m i)"
proof -
  have sm: "self_map m" and oth: "\<forall>i < 1023. present (pde m i) \<longrightarrow> frame (pde m i) \<noteq> cr3 m"
    using ok by (simp_all add: tables_ok_def)
  have f': "f mod 4096 = 0" "f < 4294967296" "f \<noteq> cr3 m" using f by (simp_all add: fresh_frame_def)
  have c: "cr3 m mod 4096 = 0" using sm by (simp add: self_map_def)
  have i: "pdx v < 1023" "pdx v < 1024" "v < 4294967296" using v by simp_all
  define m2 where "m2 = m\<lparr>phys := (phys m)(cr3 m + 4 * pdx v := f + 7)\<rparr>"
  have w: "vwrite m (pde_ptr v) (f OR PG_US_U OR PG_RW_W OR PG_P_1) = Some m2"
    unfolding or_flags [OF f'(1)] using mmu_pde_ptr [OF sm i(3)] by (simp add: vwrite_def m2_def)
  have p2: "pde m2 j = (if j = pdx v then f + 7 else pde m j)" for j by (simp add: pde_def m2_def)
  have sm2: "self_map m2" using sm i(1) by (simp add: self_map_def p2) (simp add: m2_def)
  have fr2: "frame (pde m2 (pdx v)) = f" "present (pde m2 (pdx v))" using entry_flags [OF f'(1,2)] by (simp_all add: p2)
  have c2: "cr3 m2 = cr3 m" by (simp add: m2_def)
  have "(0xffc00000 + 4096 * pdx v + 4 * ptx v) div 4096 = 1047552 + pdx v" by simp
  then have ptr: "pte_ptr v AND 0xfffff000 = 0xffc00000 + 4096 * pdx v + 4 * 0"
    using i(2) by (simp add: ptrs(2) [OF i(3)] and_frame)
  define m3 where "m3 = m2\<lparr>phys := \<lambda>a. if a \<in> (\<lambda>j. f + 4 * j) ` {0..<1024} then 0 else phys m2 a\<rparr>"
  have z: "vzero m2 (pte_ptr v AND 0xfffff000) (PG_SIZE div 4) = Some m3"
    using vzero_table [OF sm2 i(1) fr2(2), of 0 1024] fr2(1) f'(3) c2
    unfolding ptr by (simp add: PG_SIZE_def m3_def)
  have nin: "g + 4 * k \<notin> (\<lambda>j. f + 4 * j) ` {0..<1024}" if "g mod 4096 = 0" "g \<noteq> f" "k < 1024" for g k
  proof
    assume "g + 4 * k \<in> (\<lambda>j. f + 4 * j) ` {0..<1024}"
    then obtain j where "j < 1024" "g + 4 * k = f + 4 * j" by auto
    with table_addr_eq [OF that(1) f'(1) that(3)] that(2) show False by blast
  qed
  have p3: "pde m3 j = pde m2 j" if "j < 1024" for j
    using nin [OF c _ that] f'(3) that c2 by (simp add: pde_def m3_def)
  have c3: "cr3 m3 = cr3 m" by (simp add: m3_def c2)
  have sm3: "self_map m3" using sm2 p3 [of 1023] by (simp add: self_map_def c3 c2)
  have "tables_ok m3"
    using sm3 oth f'(3) fr2(1) by (auto simp: tables_ok_def p3 p2 c3 split: if_splits)
  moreover have "pte m3 u = 0" if "u < 0xffc00000" "pdx u = pdx v" for u
    using p3 [OF i(2)] fr2(1) that(2) by (simp add: pte_def pte_addr_def) (simp add: m3_def)
  then have z0: "\<not> present (pte m3 u)" if "u < 0xffc00000" "pdx u = pdx v" for u
    using that by (simp add: present_def)
  have "mmu m3 u = mmu m u" if u: "u < 0xffc00000" for u
  proof (cases "pdx u = pdx v")
    case True
    with z0 [OF u True] np show ?thesis by (simp add: mmu_eq)
  next
    case False
    have ui: "pdx u < 1023" "pdx u < 1024" using u by simp_all
    have pd: "pde m3 (pdx u) = pde m (pdx u)" using p3 [OF ui(2)] p2 False by simp
    have "pte m3 u = pte m u" if pr: "present (pde m (pdx u))"
    proof -
      let ?g = "frame (pde m (pdx u))"
      have g: "?g \<noteq> f" "?g \<noteq> cr3 m" using f oth ui(1) pr by (auto simp: fresh_frame_def)
      have k: "ptx u < 1024" by simp
      have "?g + 4 * ptx u \<noteq> cr3 m + 4 * pdx v" using table_addr_eq [OF frame_aligned c k i(2)] g(2) by blast
      then show ?thesis
        using nin [OF frame_aligned g(1) k] by (simp add: pte_def pte_addr_def pd) (simp add: m3_def m2_def)
    qed
    then show ?thesis by (auto simp: mmu_eq pd)
  qed
  moreover have "present (pde m3 (pdx v))" "frame (pde m3 (pdx v)) = f" using p3 [OF i(2)] fr2 by simp_all
  moreover have "m3 = m\<lparr>phys := phys m3\<rparr>" by (simp add: m3_def m2_def)
  moreover have "\<forall>j < 1024. j \<noteq> pdx v \<longrightarrow> pde m3 j = pde m j" using p3 p2 by simp
  ultimately show ?thesis using w z z0 [OF v refl] by blast
qed

lemma page_table_add_spec:
  assumes ok: "tables_ok m" and v: "v < 0xffc00000" and p: "p mod 4096 = 0" "p < 4294967296" and un: "mmu m v = None"
    and room: "\<not> present (pde m (pdx v)) \<longrightarrow> (\<exists>f m1. palloc m PF_KERNEL = Some (f, m1) \<and> fresh_frame m f)"
  shows "\<exists>m'. page_table_add m v p = Some m' \<and> tables_ok m' \<and> cr3 m' = cr3 m
    \<and> mmu m' v = Some (p + v mod 4096)
    \<and> (\<forall>w < 0xffc00000. pte_addr m' w \<noteq> pte_addr m' v \<longrightarrow> mmu m' w = mmu m w)
    \<and> (if present (pde m (pdx v)) then (\<exists>g. m' = m\<lparr>phys := g\<rparr>) \<and> (\<forall>i < 1024. pde m' i = pde m i)
       else \<exists>f m1. palloc m PF_KERNEL = Some (f, m1) \<and> (\<exists>g. m' = m1\<lparr>phys := g\<rparr>)
         \<and> frame (pde m' (pdx v)) = f \<and> (\<forall>i < 1024. i \<noteq> pdx v \<longrightarrow> pde m' i = pde m i))"
proof (cases "present (pde m (pdx v))")
  case True
  with un have np: "\<not> present (pte m v)" by (simp add: mmu_eq split: if_splits)
  note a = add_to_table [OF ok v p True np]
  have sm: "self_map m" using ok by (simp add: tables_ok_def)
  have "vread m (pde_ptr v) = Some (pde m (pdx v))"
    using mmu_pde_ptr [OF sm, of v] v by (simp add: vread_def pde_def)
  define m' where "m' = m\<lparr>phys := (phys m)(pte_addr m v := p + 7)\<rparr>"
  have "page_table_add m v p = Some m'"
    using \<open>vread m (pde_ptr v) = _\<close> a(1,2) True np by (simp add: page_table_add_def present_def and_one_eq m'_def)
  moreover have "cr3 m' = cr3 m" "\<exists>g. m' = m\<lparr>phys := g\<rparr>" by (auto simp: m'_def)
  ultimately show ?thesis using a(3-6) unfolding m'_def [symmetric] if_P [OF True]
    by (intro exI [of _ m'] conjI) assumption+
next
  case False
  with room obtain f m1 where pa: "palloc m PF_KERNEL = Some (f, m1)" and ff: "fresh_frame m f" by blast
  have ph: "phys m1 = phys m" "cr3 m1 = cr3 m" using palloc_phys [OF pa] by simp_all
  then have pd: "pde m1 i = pde m i" for i by (rule pde_eq)
  have mm: "mmu m1 w = mmu m w" for w unfolding mmu_eq pte_def pte_addr_def pd ph ..
  have sm: "self_map m" using ok by (simp add: tables_ok_def)
  have ok1: "tables_ok m1" using ok unfolding tables_ok_def self_map_def pd ph .
  have ff1: "fresh_frame m1 f" using ff unfolding fresh_frame_def pd ph .
  from new_table [OF ok1 v _ ff1] False obtain m2 m3 where
    w: "vwrite m1 (pde_ptr v) (f OR PG_US_U OR PG_RW_W OR PG_P_1) = Some m2"
      "vzero m2 (pte_ptr v AND 0xfffff000) (PG_SIZE div 4) = Some m3"
    and m3: "tables_ok m3" "m3 = m1\<lparr>phys := phys m3\<rparr>" "present (pde m3 (pdx v))" "frame (pde m3 (pdx v)) = f"
      "\<not> present (pte m3 v)" "\<forall>w < 0xffc00000. mmu m3 w = mmu m1 w" "\<forall>i < 1024. i \<noteq> pdx v \<longrightarrow> pde m3 i = pde m1 i"
    by (auto simp: pd)
  note a = add_to_table [OF m3(1) v p m3(3,5)]
  let ?m' = "m3\<lparr>phys := (phys m3)(pte_addr m3 v := p + 7)\<rparr>"
  have r: "vread m (pde_ptr v) = Some (pde m (pdx v))"
    using mmu_pde_ptr [OF sm(1), of v] v by (simp add: vread_def pde_def)
  have "page_table_add m v p = Some ?m'"
    using r False pa w a(1,2) m3(5) by (simp add: page_table_add_def present_def and_one_eq)
  moreover obtain g where g: "m3 = m1\<lparr>phys := g\<rparr>" using m3(2) by blast
  then have "cr3 ?m' = cr3 m" "\<exists>g. ?m' = m1\<lparr>phys := g\<rparr>" using ph(2) by auto
  moreover have "pdx v < 1024" using v by simp
  then have "frame (pde ?m' (pdx v)) = f" using a(6) m3(4) by simp
  moreover have "\<forall>i < 1024. i \<noteq> pdx v \<longrightarrow> pde ?m' i = pde m i" using a(6) m3(7) pd by simp
  moreover have "\<forall>w < 0xffc00000. pte_addr ?m' w \<noteq> pte_addr ?m' v \<longrightarrow> mmu ?m' w = mmu m w"
    using a(5) m3(6) mm by simp
  ultimately show ?thesis using a(3,4) pa unfolding if_not_P [OF False]
    by (intro exI [of _ ?m'] conjI exI [of _ f] exI [of _ m1]) assumption+
qed

lemma page_table_pte_remove_spec:
  assumes ok: "tables_ok m" and v: "v < 0xffc00000" and pr: "mmu m v = Some p"
  shows "\<exists>m'. page_table_pte_remove m v = Some m' \<and> tables_ok m' \<and> mmu m' v = None
    \<and> (\<exists>g. m' = m\<lparr>phys := g\<rparr>) \<and> (\<forall>i < 1024. pde m' i = pde m i)
    \<and> (\<forall>w < 0xffc00000. pte_addr m' w \<noteq> pte_addr m' v \<longrightarrow> mmu m' w = mmu m w)"
proof -
  have i: "pdx v < 1023" "v < 4294967296" using v by simp_all
  have pd: "present (pde m (pdx v))" using pr by (simp add: mmu_eq split: if_splits)
  have sm: "self_map m" and f: "frame (pde m (pdx v)) \<noteq> cr3 m" using ok pd i by (simp_all add: tables_ok_def)
  let ?x = "pte m v AND 0xfffffffe"
  define m' where "m' = m\<lparr>phys := (phys m)(pte_addr m v := ?x)\<rparr>"
  have "page_table_pte_remove m v = Some m'"
    using mmu_pte_ptr [OF sm i(2)] pd by (simp add: page_table_pte_remove_def vread_def vwrite_def pte_def m'_def)
  moreover note w = pte_write [OF sm f v, where x = ?x, folded m'_def]
  moreover have pdm: "\<forall>i < 1024. pde m' i = pde m i" using w(2) [OF v] .
  moreover have "tables_ok m'" using ok w(1) [OF v] pdm by (auto simp: tables_ok_def) (simp add: m'_def)
  moreover have "(pte m v AND 0xfffffffe) mod 2 = 0" by (simp add: even_and_iff even_iff_mod_2_eq_zero [symmetric])
  then have "mmu m' v = None" using w(4) [OF v] by (simp add: mmu_eq present_def)
  moreover have "\<forall>w < 0xffc00000. pte_addr m' w \<noteq> pte_addr m' v \<longrightarrow> mmu m' w = mmu m w"
  proof (intro allI impI)
    fix u assume u: "u < 0xffc00000" "pte_addr m' u \<noteq> pte_addr m' v"
    have "pdx u < 1024" using u(1) by simp
    with w(3) [OF u(1)] w(3) [OF v] w(4) [OF u(1)] u(2) pdm show "mmu m' u = mmu m u" by (simp add: mmu_eq)
  qed
  moreover have "\<exists>g. m' = m\<lparr>phys := g\<rparr>" by (auto simp: m'_def)
  ultimately show ?thesis by blast
qed

section \<open>Properties\<close>

text \<open>
  Property C32. \<open>addr_v2p\<close>, which reads the page table entry through the directory's entry
  for itself, computes the translation the processor makes.
\<close>

theorem addr_v2p_is_translation:
  assumes "self_map m" and "v < 4294967296" and "mmu m v = Some p"
  shows "addr_v2p m v = Some p"
proof -
  from assms(3) have h: "present (pde m (pdx v))" "present (pte m v)" "p = frame (pte m v) + v mod 4096"
    by (auto simp: mmu_eq split: if_splits)
  have "frame (pte m v) + v mod 4096 < 4294967296"
    using mod_less_divisor [of 4096 v] by (simp add: frame_def)
  then show ?thesis
    using mmu_pte_ptr [OF assms(1,2)] h by (simp add: addr_v2p_def vread_def pte_def and_frame and_off frame_def)
qed

text \<open>A directory with a table for the first heap page and a pool of eight frames.\<close>

definition demo_mm :: mm where
  "demo_mm = \<lparr>phys = (\<lambda>_. 0)(0x100000 + 4 * 1023 := 0x100007, 0x100000 + 4 * 768 := 0x101007, 0x101000 + 4 * 256 := 0x102007),
     cr3 = 0x100000,
     kernel_pool = \<lparr>pool_bitmap = \<lparr>btmp_bytes_len = 1, bits = [0]\<rparr>, phy_addr_start = 0x200000, pool_size = 32768\<rparr>,
     user_pool = \<lparr>pool_bitmap = \<lparr>btmp_bytes_len = 1, bits = [0]\<rparr>, phy_addr_start = 0x208000, pool_size = 32768\<rparr>,
     kernel_vaddr = \<lparr>vaddr_bitmap = \<lparr>btmp_bytes_len = 1, bits = [1]\<rparr>, vaddr_start = 0xc0100000\<rparr>,
     user_vaddr = \<lparr>vaddr_bitmap = \<lparr>btmp_bytes_len = 1, bits = [0]\<rparr>, vaddr_start = 0x8048000\<rparr>,
     k_block_descs = block_desc_init, u_block_descs = block_desc_init, arenas = Map.empty, in_process = False\<rparr>"

lemma demo_mm_pde: "pde demo_mm i = (if i = 1023 then 0x100007 else if i = 768 then 0x101007
    else if i = 1280 then 0x102007 else 0)"
  by (auto simp: pde_def demo_mm_def)

lemma demo_mm_ok: "self_map demo_mm" "tables_ok demo_mm" "mmu demo_mm 0xc0100004 = Some 0x102004"
proof -
  show s: "self_map demo_mm"
    by (simp add: self_map_def demo_mm_pde) (simp add: demo_mm_def present_def frame_def)
  then show "tables_ok demo_mm"
    by (auto simp: tables_ok_def demo_mm_pde present_def frame_def) (simp_all add: demo_mm_def)
  show "mmu demo_mm 0xc0100004 = Some 0x102004"
    by (simp add: mmu_eq pte_def pte_addr_def demo_mm_pde) (simp add: demo_mm_def present_def frame_def)
qed

theorem addr_v2p_is_translation_witness: "addr_v2p demo_mm 0xc0100004 = Some 0x102004"
  by (rule addr_v2p_is_translation [OF demo_mm_ok(1) _ demo_mm_ok(3)]) simp

text \<open>
  Property C11. Adding a page makes exactly its address translate to the frame, with a new
  table from the kernel pool when the directory has none, and removing it undoes that;
  no other address is touched, the ones that share the table entry (an address has an
  alias where the directory names a table twice) aside.
\<close>

theorem page_table_add_then_remove:
  assumes "tables_ok m" and "v < 0xffc00000" and "p mod 4096 = 0" "p < 4294967296" and "mmu m v = None"
    and "\<not> present (pde m (pdx v)) \<longrightarrow> (\<exists>f m1. palloc m PF_KERNEL = Some (f, m1) \<and> fresh_frame m f)"
  shows "\<exists>m1 m2. page_table_add m v p = Some m1 \<and> mmu m1 v = Some (p + v mod 4096)
    \<and> page_table_pte_remove m1 v = Some m2 \<and> mmu m2 v = None \<and> tables_ok m2
    \<and> (\<forall>w < 0xffc00000. pte_addr m2 w \<noteq> pte_addr m2 v \<longrightarrow> mmu m1 w = mmu m w \<and> mmu m2 w = mmu m w)"
proof -
  from page_table_add_spec [OF assms] obtain m1 where m1: "page_table_add m v p = Some m1" "tables_ok m1"
    "mmu m1 v = Some (p + v mod 4096)" "\<forall>w < 0xffc00000. pte_addr m1 w \<noteq> pte_addr m1 v \<longrightarrow> mmu m1 w = mmu m w" by blast
  from page_table_pte_remove_spec [OF m1(2) assms(2) m1(3)] obtain m2 where m2:
    "page_table_pte_remove m1 v = Some m2" "tables_ok m2" "mmu m2 v = None" "\<forall>i < 1024. pde m2 i = pde m1 i"
    "\<forall>w < 0xffc00000. pte_addr m2 w \<noteq> pte_addr m2 v \<longrightarrow> mmu m2 w = mmu m1 w" by blast
  have "pte_addr m2 w = pte_addr m1 w" if "w < 0xffc00000" for w
  proof -
    have "pdx w < 1024" using that by simp
    with m2(4) show ?thesis by (simp add: pte_addr_def)
  qed
  with m1(4) m2(5) assms(2) have "\<forall>w < 0xffc00000. pte_addr m2 w \<noteq> pte_addr m2 v \<longrightarrow> mmu m1 w = mmu m w \<and> mmu m2 w = mmu m w"
    by metis
  with m1 m2 show ?thesis by blast
qed

theorem page_table_add_then_remove_witness:
  "\<exists>m1 m2. page_table_add demo_mm 0xc0101000 0x200000 = Some m1
    \<and> mmu m1 0xc0101000 = Some (0x200000 + 0xc0101000 mod 4096)
    \<and> page_table_pte_remove m1 0xc0101000 = Some m2 \<and> mmu m2 0xc0101000 = None \<and> tables_ok m2
    \<and> (\<forall>w < 0xffc00000. pte_addr m2 w \<noteq> pte_addr m2 0xc0101000
        \<longrightarrow> mmu m1 w = mmu demo_mm w \<and> mmu m2 w = mmu demo_mm w)"
proof (rule page_table_add_then_remove [OF demo_mm_ok(2)])
  show "mmu demo_mm 0xc0101000 = None"
    by (simp add: mmu_eq pte_def pte_addr_def demo_mm_pde) (simp add: demo_mm_def present_def frame_def)
qed (simp_all add: demo_mm_pde present_def)

text \<open>
  Property C38. For any memory size from 2 MB on, the two pools are made of whole pages that
  do not overlap and lie inside the memory, with one address of the kernel heap for each
  frame of the kernel pool. The page count is kept in 16 bits: never more than 65535 pages
  are managed, so of the 512 MB the bitmap area is meant for less than a half.
\<close>

theorem mem_pool_init_bounds:
  fixes m :: mm
  assumes "0x200000 \<le> all_mem" and "all_mem < 4294967296"
  defines "m' \<equiv> mem_pool_init all_mem m"
  shows "0x200000 \<le> phy_addr_start (kernel_pool m')
    \<and> phy_addr_start (kernel_pool m') + 4096 * nbits (pool_bitmap (kernel_pool m')) \<le> phy_addr_start (user_pool m')
    \<and> phy_addr_start (user_pool m') + 4096 * nbits (pool_bitmap (user_pool m')) \<le> all_mem
    \<and> phy_addr_start (kernel_pool m') mod 4096 = 0 \<and> phy_addr_start (user_pool m') mod 4096 = 0
    \<and> nbits (vaddr_bitmap (kernel_vaddr m')) = nbits (pool_bitmap (kernel_pool m'))
    \<and> nbits (pool_bitmap (kernel_pool m')) + nbits (pool_bitmap (user_pool m')) \<le> 65535
    \<and> used_bits (pool_bitmap (kernel_pool m')) = {} \<and> used_bits (pool_bitmap (user_pool m')) = {}"
proof -
  define P where "P = (all_mem - 0x200000) div 4096 mod 65536"
  define K where "K = P div 2"
  define U where "U = P - K"
  have P: "P < 65536" "4096 * P \<le> all_mem - 0x200000"
  proof -
    show "P < 65536" by (simp add: P_def)
    have "P \<le> (all_mem - 0x200000) div 4096" unfolding P_def by (rule mod_less_eq_dividend)
    then show "4096 * P \<le> all_mem - 0x200000" using div_times_less_eq_dividend [of "all_mem - 0x200000" 4096] by linarith
  qed
  have KU: "K + U = P" "K < 65536" "U < 65536" using P(1) by (auto simp: K_def U_def)
  have w: "w16 (sub32 all_mem 0x200000 div 4096) = P" using assms by (simp add: sub32_le w16_def P_def)
  have e: "m' = m\<lparr>kernel_pool := \<lparr>pool_bitmap = \<lparr>btmp_bytes_len = K div 8, bits = replicate (K div 8) 0\<rparr>,
          phy_addr_start = 0x200000, pool_size = w32 (K * 4096)\<rparr>,
        user_pool := \<lparr>pool_bitmap = \<lparr>btmp_bytes_len = U div 8, bits = replicate (U div 8) 0\<rparr>,
          phy_addr_start = 0x200000 + K * 4096, pool_size = w32 (U * 4096)\<rparr>,
        kernel_vaddr := \<lparr>vaddr_bitmap = \<lparr>btmp_bytes_len = K div 8, bits = replicate (K div 8) 0\<rparr>,
          vaddr_start = K_HEAP_START\<rparr>\<rparr>"
    using KU w P(1) by (simp add: m'_def mem_pool_init_def Let_def PG_SIZE_def K_def [symmetric] U_def [symmetric])
  have "8 * (K div 8) \<le> K" "8 * (U div 8) \<le> U" by simp_all
  then have "4096 * (8 * (K div 8)) \<le> K * 4096" "0x200000 + K * 4096 + 4096 * (8 * (U div 8)) \<le> all_mem"
    "8 * (K div 8) + 8 * (U div 8) \<le> 65535"
    using KU P assms(1) by linarith+
  moreover have "used_bits \<lparr>btmp_bytes_len = n, bits = replicate n 0\<rparr> = {}" for n
    by (auto simp: used_bits_def bit_at_def)
  ultimately show ?thesis by (simp add: e)
qed

theorem mem_pool_init_bounds_witness:
  "phy_addr_start (user_pool (mem_pool_init 0x20000000 demo_mm))
      + 4096 * nbits (pool_bitmap (user_pool (mem_pool_init 0x20000000 demo_mm))) \<le> 0x20000000
   \<and> nbits (pool_bitmap (kernel_pool (mem_pool_init 0x20000000 demo_mm)))
      + nbits (pool_bitmap (user_pool (mem_pool_init 0x20000000 demo_mm))) \<le> 65535"
  using mem_pool_init_bounds [where all_mem = "0x20000000" and m = demo_mm] by simp

end
