(* ===== verification/Atomic.thy ===== *)
theory Atomic
  imports Prelude
begin

text \<open>
  The counters of \<open>src/src/lib/atomic.c\<close>. Interrupts are off inside \<open>atomic_read\<close> and
  \<open>atomic_cmpxchg\<close>, so each of them is one step, and other threads run between them:
  \<open>atomic_set\<close>, \<open>atomic_inc\<close> and \<open>atomic_dec\<close> are loops of these steps, and a schedule says whose step
  is next.
\<close>

section \<open>The steps\<close>

datatype aop = ASet u32 | AInc | ADec

text \<open>The value an operation puts in place of the one it read, and what it returns.\<close>

fun new_value :: "aop \<Rightarrow> u32 \<Rightarrow> u32" where
  "new_value (ASet x) old = x"
| "new_value AInc old = old + 1"
| "new_value ADec old = old - 1"

fun returns :: "aop \<Rightarrow> u32 \<Rightarrow> u32" where
  "returns (ASet x) old = old"
| "returns op old = new_value op old"

definition atomic_init :: "u32 \<Rightarrow> u32" where
  "atomic_init counter = 0"

definition atomic_read :: "u32 \<Rightarrow> u32" where
  "atomic_read counter = counter"

definition atomic_cmpxchg :: "u32 \<Rightarrow> u32 \<Rightarrow> u32 \<Rightarrow> u32 \<times> u32" where
  "atomic_cmpxchg counter old new =
     (let res = counter; counter = (if counter = old then new else counter) in (res, counter))"

text \<open>Where a call stands: at the top of its loop, with the value it read, or returned.\<close>

datatype call = AtTop aop | HasRead aop u32 | Returned aop u32

record atomic_sys =
  counter :: u32
  call_of :: "nat \<Rightarrow> call"

fun atomic_step :: "nat \<Rightarrow> atomic_sys \<Rightarrow> atomic_sys" where
  "atomic_step t s = (case call_of s t of
     AtTop op \<Rightarrow> s\<lparr>call_of := (call_of s)(t := HasRead op (atomic_read (counter s)))\<rparr>
   | HasRead op old \<Rightarrow>
       (let (res, c) = atomic_cmpxchg (counter s) old (new_value op old) in
        s\<lparr>counter := c, call_of := (call_of s)(t := if res = old then Returned op (returns op old) else AtTop op)\<rparr>)
   | Returned op r \<Rightarrow> s)"

definition run_calls :: "nat list \<Rightarrow> atomic_sys \<Rightarrow> atomic_sys" where
  "run_calls ts s = fold atomic_step ts s"

fun active :: "call \<Rightarrow> bool" where
  "active (Returned op r) = False"
| "active c = True"

text \<open>A schedule in which every step is one of a call that has not returned.\<close>

fun busy_schedule :: "nat list \<Rightarrow> atomic_sys \<Rightarrow> bool" where
  "busy_schedule [] s = True"
| "busy_schedule (t # ts) s = (active (call_of s t) \<and> busy_schedule ts (atomic_step t s))"

section \<open>No update is lost\<close>

fun gain :: "call \<Rightarrow> u32" where
  "gain (Returned AInc r) = 1"
| "gain (Returned ADec r) = -1"
| "gain c = 0"

fun counts_only :: "call \<Rightarrow> bool" where
  "counts_only (AtTop (ASet x)) = False"
| "counts_only (HasRead (ASet x) old) = False"
| "counts_only (Returned (ASet x) r) = False"
| "counts_only c = True"

lemma step_other: "u \<noteq> t \<Longrightarrow> call_of (atomic_step t s) u = call_of s u"
  by (simp add: atomic_cmpxchg_def Let_def split: call.splits)

lemma step_counts_only: "counts_only (call_of s u) \<Longrightarrow> counts_only (call_of (atomic_step t s) u)"
  by (cases "u = t"; cases "call_of s t"; cases "case call_of s t of AtTop op \<Rightarrow> op | HasRead op _ \<Rightarrow> op | Returned op _ \<Rightarrow> op")
    (simp_all add: atomic_cmpxchg_def Let_def)

lemma step_gain:
  assumes "counts_only (call_of s t)"
  shows "counter (atomic_step t s) = counter s + gain (call_of (atomic_step t s) t) - gain (call_of s t)"
  using assms
  by (cases "call_of s t"; cases "case call_of s t of AtTop op \<Rightarrow> op | HasRead op _ \<Rightarrow> op | Returned op _ \<Rightarrow> op")
    (auto simp: atomic_cmpxchg_def Let_def atomic_read_def)

lemma step_sum:
  assumes "finite T" "t \<in> T" "\<forall>u\<in>T. counts_only (call_of s u)"
  shows "counter (atomic_step t s) - (\<Sum>u\<in>T. gain (call_of (atomic_step t s) u)) = counter s - (\<Sum>u\<in>T. gain (call_of s u))"
proof -
  have "(\<Sum>u\<in>T - {t}. gain (call_of (atomic_step t s) u)) = (\<Sum>u\<in>T - {t}. gain (call_of s u))"
    by (intro sum.cong refl arg_cong [of _ _ gain] step_other) simp
  with step_gain [of s t] assms show ?thesis
    by (simp add: sum.remove [of T t] del: atomic_step.simps)
qed

lemma run_sum:
  assumes "finite T" "set ts \<subseteq> T" "\<forall>u\<in>T. counts_only (call_of s u)"
  shows "counter (run_calls ts s) - (\<Sum>u\<in>T. gain (call_of (run_calls ts s) u)) = counter s - (\<Sum>u\<in>T. gain (call_of s u))"
  using assms(2-)
proof (induction ts arbitrary: s)
  case (Cons t ts)
  then have "\<forall>u\<in>T. counts_only (call_of (atomic_step t s) u)" using step_counts_only by blast
  with Cons step_sum [OF assms(1), of t s] show ?case
    by (simp add: run_calls_def del: atomic_step.simps)
qed (simp add: run_calls_def)

fun wants :: "call \<Rightarrow> aop" where
  "wants (AtTop op) = op"
| "wants (HasRead op old) = op"
| "wants (Returned op r) = op"

lemma step_wants: "wants (call_of (atomic_step t s) u) = wants (call_of s u)"
  by (cases "u = t") (auto simp: atomic_cmpxchg_def Let_def split: call.splits)

lemma run_wants: "wants (call_of (run_calls ts s) u) = wants (call_of s u)"
  by (induction ts arbitrary: s) (simp_all add: run_calls_def step_wants del: atomic_step.simps)

text \<open>
  Property C4. However the steps of any number of increments and decrements are interleaved, no
  update is lost: when all have returned, the counter is its old value plus the increments minus
  the decrements, in 32-bit arithmetic.
\<close>

theorem atomic_no_lost_update:
  assumes "finite T" "set ts \<subseteq> T" "\<forall>t\<in>T. call_of s t = AtTop AInc \<or> call_of s t = AtTop ADec"
    "\<forall>t\<in>T. \<not> active (call_of (run_calls ts s) t)"
  shows "counter (run_calls ts s) = counter s + of_nat (card {t\<in>T. call_of s t = AtTop AInc}) -
    of_nat (card {t\<in>T. call_of s t = AtTop ADec})"
proof -
  have start: "\<forall>u\<in>T. counts_only (call_of s u)" "(\<Sum>u\<in>T. gain (call_of s u)) = 0"
    using assms(3) by (auto intro!: sum.neutral)
  have "gain (call_of (run_calls ts s) u) =
      (if call_of s u = AtTop AInc then 1 else 0) - (if call_of s u = AtTop ADec then 1 else 0)" if "u \<in> T" for u
    using that assms(3,4) run_wants [of ts s u] by (cases "call_of (run_calls ts s) u") fastforce+
  then have "(\<Sum>u\<in>T. gain (call_of (run_calls ts s) u)) =
      (\<Sum>u\<in>T. if call_of s u = AtTop AInc then 1 else 0) - (\<Sum>u\<in>T. if call_of s u = AtTop ADec then 1 else 0)"
    by (simp add: sum_subtractf)
  also have "\<dots> = of_nat (card {t\<in>T. call_of s t = AtTop AInc}) - of_nat (card {t\<in>T. call_of s t = AtTop ADec})"
    using assms(1) by (simp add: sum.If_cases Int_def)
  finally show ?thesis using run_sum [OF assms(1,2) start(1)] start(2)
    by (simp add: algebra_simps)
qed

text \<open>Three calls: the second increment fails once because the first one got in between.\<close>

definition demo_calls :: atomic_sys where
  "demo_calls = \<lparr>counter = 7, call_of = (\<lambda>t. AtTop (if t = 2 then ADec else AInc))\<rparr>"

definition demo_schedule :: "nat list" where
  "demo_schedule = [0, 1, 0, 1, 1, 2, 1, 2, 2, 2]"

lemma demo_calls_return: "t \<in> {0, 1, 2} \<Longrightarrow> \<not> active (call_of (run_calls demo_schedule demo_calls) t)"
  by (auto simp: run_calls_def demo_schedule_def demo_calls_def atomic_cmpxchg_def atomic_read_def)

theorem atomic_no_lost_update_witness: "counter (run_calls demo_schedule demo_calls) = 8"
proof -
  have "{t \<in> {0, 1, 2}. call_of demo_calls t = AtTop AInc} = {0, 1}" "{t \<in> {0, 1, 2}. call_of demo_calls t = AtTop ADec} = {2}"
    by (auto simp: demo_calls_def)
  with atomic_no_lost_update [of "{0, 1, 2}" demo_schedule demo_calls] demo_calls_return show ?thesis
    by (simp add: demo_calls_def demo_schedule_def)
qed

section \<open>Every call returns\<close>

text \<open>What a call still needs at most while no other one succeeds.\<close>

definition weight :: "u32 \<Rightarrow> call \<Rightarrow> nat" where
  "weight c k = (case k of AtTop op \<Rightarrow> 2 | HasRead op old \<Rightarrow> if old = c then 1 else 3 | Returned op r \<Rightarrow> 0)"

definition waiting :: "nat set \<Rightarrow> atomic_sys \<Rightarrow> nat set" where
  "waiting T s = {t \<in> T. active (call_of s t)}"

definition potential :: "nat set \<Rightarrow> atomic_sys \<Rightarrow> nat" where
  "potential T s = (\<Sum>t\<in>T. weight (counter s) (call_of s t)) + card (waiting T s) * (card (waiting T s) - 1)"

lemma weight_change: "weight c' k \<le> weight c k + (if active k then 2 else 0)"
  by (cases k) (simp_all add: weight_def)

lemma weights_change:
  assumes "finite A"
  shows "(\<Sum>u\<in>A. weight c' (f u)) \<le> (\<Sum>u\<in>A. weight c (f u)) + 2 * card {u\<in>A. active (f u)}"
proof -
  have "(\<Sum>u\<in>A. weight c' (f u)) \<le> (\<Sum>u\<in>A. weight c (f u) + (if active (f u) then 2 else 0))"
    by (intro sum_mono weight_change)
  also have "\<dots> = (\<Sum>u\<in>A. weight c (f u)) + 2 * card {u\<in>A. active (f u)}"
    using assms by (simp add: sum.distrib sum.If_cases Int_def)
  finally show ?thesis .
qed

lemma success_decreases:
  assumes "finite T" "t \<in> T" "call_of s t = HasRead op (counter s)"
  shows "potential T (atomic_step t s) < potential T s"
proof -
  let ?s = "atomic_step t s" and ?w = "waiting T s - {t}"
  have fin: "finite (waiting T s)" using assms(1) by (simp add: waiting_def)
  have t: "t \<in> waiting T s" using assms by (simp add: waiting_def)
  have w': "waiting T ?s = ?w"
    using assms by (auto simp: waiting_def atomic_cmpxchg_def)
  have "{u \<in> T - {t}. active (call_of s u)} = ?w" by (auto simp: waiting_def)
  with weights_change [of "T - {t}" "counter ?s" "call_of s" "counter s"] assms(1)
  have "(\<Sum>u\<in>T - {t}. weight (counter ?s) (call_of s u)) \<le> (\<Sum>u\<in>T - {t}. weight (counter s) (call_of s u)) + 2 * card ?w"
    by simp
  moreover have "(\<Sum>u\<in>T - {t}. weight (counter ?s) (call_of ?s u)) = (\<Sum>u\<in>T - {t}. weight (counter ?s) (call_of s u))"
    by (intro sum.cong refl arg_cong [of _ _ "weight _"] step_other) simp
  moreover have "weight (counter ?s) (call_of ?s t) = 0" "weight (counter s) (call_of s t) = 1"
    using assms(3) by (simp_all add: weight_def atomic_cmpxchg_def)
  ultimately have sums: "(\<Sum>u\<in>T. weight (counter ?s) (call_of ?s u)) + 1 \<le> (\<Sum>u\<in>T. weight (counter s) (call_of s u)) + 2 * card ?w"
    using assms(1,2) by (simp add: sum.remove [of T t] del: atomic_step.simps)
  obtain n where n: "card (waiting T s) = Suc n" "card ?w = n"
    using t fin by (metis card_Suc_Diff1)
  have "Suc n * n = n * (n - 1) + 2 * n" by (cases n) (simp_all add: algebra_simps)
  with sums n show ?thesis
    unfolding potential_def w' by simp
qed

lemma retry_decreases:
  assumes "finite T" "t \<in> T" "active (call_of s t)" "\<nexists>op. call_of s t = HasRead op (counter s)"
  shows "potential T (atomic_step t s) < potential T s"
proof -
  let ?s = "atomic_step t s"
  have same: "counter ?s = counter s" "waiting T ?s = waiting T s"
    using assms(3,4) by (auto simp: waiting_def atomic_cmpxchg_def Let_def split: call.splits if_splits)
  have "weight (counter s) (call_of ?s t) < weight (counter s) (call_of s t)"
    using assms(3,4) by (cases "call_of s t") (auto simp: weight_def atomic_read_def atomic_cmpxchg_def)
  moreover have "(\<Sum>u\<in>T - {t}. weight (counter s) (call_of ?s u)) = (\<Sum>u\<in>T - {t}. weight (counter s) (call_of s u))"
    by (intro sum.cong refl arg_cong [of _ _ "weight _"] step_other) simp
  ultimately show ?thesis
    unfolding potential_def same using assms(1,2) by (simp add: sum.remove [of T t] del: atomic_step.simps)
qed

lemma busy_schedule_bound:
  assumes "finite T" "set ts \<subseteq> T" "busy_schedule ts s"
  shows "length ts \<le> potential T s"
  using assms(2,3)
proof (induction ts arbitrary: s)
  case (Cons t ts)
  then have "potential T (atomic_step t s) < potential T s"
    using success_decreases retry_decreases assms(1)
    by (metis busy_schedule.simps(2) list.set_intros(1) subsetD)
  with Cons show ?case by (fastforce simp del: atomic_step.simps)
qed simp

text \<open>
  Property C28. The loops end under every schedule: \<open>n\<close> calls take together at most \<open>n (n + 1)\<close> steps
  until all have returned, whatever they set and whoever interrupts whom.
\<close>

theorem atomic_calls_return:
  assumes "finite T" "set ts \<subseteq> T" "\<forall>t\<in>T. \<exists>op. call_of s t = AtTop op" "busy_schedule ts s"
  shows "length ts \<le> card T * (card T + 1)"
proof -
  have "waiting T s = T" using assms(3) by (auto simp: waiting_def)
  moreover have "(\<Sum>t\<in>T. weight (counter s) (call_of s t)) = (\<Sum>t\<in>T. 2)"
    using assms(3) by (intro sum.cong) (auto simp: weight_def)
  ultimately have "potential T s = 2 * card T + card T * (card T - 1)" by (simp add: potential_def)
  also have "\<dots> = card T * (card T + 1)" by (cases "card T") (simp_all add: algebra_simps)
  finally show ?thesis using busy_schedule_bound [OF assms(1,2,4)] by simp
qed

theorem atomic_calls_return_witness: "busy_schedule demo_schedule demo_calls \<and> length demo_schedule \<le> 12"
proof -
  have busy: "busy_schedule demo_schedule demo_calls"
    by (simp add: demo_schedule_def demo_calls_def atomic_cmpxchg_def atomic_read_def)
  have "length demo_schedule \<le> card {0, 1, 2::nat} * (card {0, 1, 2::nat} + 1)"
    by (rule atomic_calls_return [OF _ _ _ busy]) (simp_all add: demo_schedule_def demo_calls_def)
  with busy show ?thesis by simp
qed

end
