(* ===== verification/Thread.thy ===== *)
theory Thread
  imports Paging Stdio
begin

text \<open>
  \<open>src/src/thread/thread.c\<close>, with \<open>page_dir_activate\<close> and \<open>process_activate\<close> of
  \<open>src/src/userprog/process.c\<close> and the timer interrupt of \<open>src/src/device/timer.c\<close>: thread
  control blocks, the pid pool, the ready list and the switch of threads.

  \<open>vaddr_bits\<close> is the address of the bytes of the process's own address bitmap.
  A control block lives at the address of its page. \<open>switch_to\<close> makes another thread current;
  what follows in C after the switch runs when the thread is scheduled again. The only
  visible part of that is the interrupt flag the thread restores, which is kept in its
  \<open>resume_intr\<close>. The lists are the sequences of theory \<open>Klist\<close>.
\<close>

section \<open>Control blocks\<close>

datatype task_status = TASK_RUNNING | TASK_READY | TASK_BLOCKED | TASK_WAITING | TASK_HANGING | TASK_DIED

definition TASK_NAME_LEN :: nat where "TASK_NAME_LEN = 16"
definition MAX_FILES_OPEN_PER_PROC :: nat where "MAX_FILES_OPEN_PER_PROC = 8"
definition MAX_SIGNALS :: nat where "MAX_SIGNALS = 16"
definition SIG_IGN :: nat where "SIG_IGN = 1"
definition SIG_DFL :: nat where "SIG_DFL = 2"

record task_struct =
  self_kstack :: nat
  pid :: int
  status :: task_status
  name :: "u8 list"
  priority :: nat
  ticks :: nat
  elapsed_ticks :: nat
  pgdir :: nat
  userprog_vaddr :: virtual_addr
  vaddr_bits :: nat
  u_block_desc :: "mem_block_desc list"
  u_arenas :: "nat \<rightharpoonup> arena"
  t_fd_table :: "int list"
  t_cwd_inode_nr :: nat
  parent_pid :: int
  exit_status :: int
  signal_bits :: u32
  sighandlers :: "nat list"
  stack_magic :: nat
  resume_intr :: bool

text \<open>
  The kernel's threads; the memory is the state of theory \<open>Memory\<close>. The virtual
  addresses, block descriptors and arenas of the running process are in the memory state;
  \<open>switch_to\<close> exchanges them with those of the next thread's control block. The lock of
  the pid pool makes each use of the pool one atomic step.
\<close>

record kst =
  tasks :: "nat \<rightharpoonup> task_struct"
  thread_ready_list :: "nat list"
  thread_all_list :: "nat list"
  running :: nat
  main_thread :: nat
  idle_thread :: nat
  pid_bitmap :: bitmap
  intr_on :: bool
  tss_esp0 :: nat
  km :: mm

definition upd_task :: "kst \<Rightarrow> nat \<Rightarrow> (task_struct \<Rightarrow> task_struct) \<Rightarrow> kst option" where
  "upd_task k t f = do { x \<leftarrow> tasks k t; Some (k\<lparr>tasks := (tasks k)(t \<mapsto> f x)\<rparr>) }"

definition running_thread :: "kst \<Rightarrow> task_struct option" where
  "running_thread k = tasks k (running k)"

section \<open>Interrupts\<close>

text \<open>\<open>intr_enable\<close>, \<open>intr_disable\<close> and \<open>intr_set_status\<close> of \<open>src/src/kernel/interrupt.c\<close> return the old flag.\<close>

definition intr_enable :: "kst \<Rightarrow> bool \<times> kst" where
  "intr_enable k = (if intr_on k then (True, k) else (False, k\<lparr>intr_on := True\<rparr>))"

definition intr_disable :: "kst \<Rightarrow> bool \<times> kst" where
  "intr_disable k = (if intr_on k then (True, k\<lparr>intr_on := False\<rparr>) else (False, k))"

definition intr_set_status :: "kst \<Rightarrow> bool \<Rightarrow> bool \<times> kst" where
  "intr_set_status k old = (if old then intr_enable k else intr_disable k)"

section \<open>Process identifiers\<close>

definition pid_start :: int where "pid_start = 1"

definition pid_pool_init :: "kst \<Rightarrow> kst" where
  "pid_pool_init k = k\<lparr>pid_bitmap := \<lparr>btmp_bytes_len = 128, bits = replicate 128 0\<rparr>\<rparr>"

definition allocate_pid :: "kst \<Rightarrow> (int \<times> kst) option" where
  "allocate_pid k =
     do { bit_idx \<leftarrow> bitmap_scan (pid_bitmap k) 1;
          b \<leftarrow> bitmap_set (pid_bitmap k) (nat bit_idx) 1;
          Some (bit_idx + pid_start, k\<lparr>pid_bitmap := b\<rparr>) }"

definition release_pid :: "kst \<Rightarrow> int \<Rightarrow> kst option" where
  "release_pid k p =
     do { kassert (pid_start \<le> p);
          b \<leftarrow> bitmap_set (pid_bitmap k) (nat (p - pid_start)) 0;
          Some (k\<lparr>pid_bitmap := b\<rparr>) }"

definition fork_pid :: "kst \<Rightarrow> (int \<times> kst) option" where
  "fork_pid k = allocate_pid k"

section \<open>Creating threads\<close>

text \<open>\<open>sizeof(struct intr_stack)\<close> and \<open>sizeof(struct thread_stack)\<close>.\<close>

definition intr_stack_size :: nat where "intr_stack_size = 76"
definition thread_stack_size :: nat where "thread_stack_size = 32"

definition thread_create :: "kst \<Rightarrow> nat \<Rightarrow> kst option" where
  "thread_create k t = upd_task k t (\<lambda>x. x\<lparr>self_kstack := self_kstack x - intr_stack_size - thread_stack_size\<rparr>)"

text \<open>\<open>strcpy\<close> into 16 bytes needs room for the terminating zero.\<close>

definition init_thread :: "kst \<Rightarrow> nat \<Rightarrow> u8 list \<Rightarrow> nat \<Rightarrow> kst option" where
  "init_thread k t nm prio =
     do { kassert (t \<noteq> 0);
          (p, k) \<leftarrow> allocate_pid k;
          kassert (length nm < TASK_NAME_LEN);
          Some (k\<lparr>tasks := (tasks k)(t \<mapsto>
            \<lparr>self_kstack = t + PG_SIZE, pid = p,
             status = (if t = main_thread k then TASK_RUNNING else TASK_READY), name = nm,
             priority = w8 prio, ticks = w8 prio, elapsed_ticks = 0, pgdir = 0,
             userprog_vaddr = \<lparr>vaddr_bitmap = \<lparr>btmp_bytes_len = 0, bits = []\<rparr>, vaddr_start = 0\<rparr>, vaddr_bits = 0,
             u_block_desc = [], u_arenas = (\<lambda>_. None),
             t_fd_table = [0, 1, 2, -1, -1, -1, -1, -1], t_cwd_inode_nr = 0,
             parent_pid = - 1, exit_status = 0, signal_bits = 0, sighandlers = replicate MAX_SIGNALS SIG_DFL,
             stack_magic = 0x19870916, resume_intr = True\<rparr>)\<rparr>) }"

definition enqueue_new :: "kst \<Rightarrow> nat \<Rightarrow> kst option" where
  "enqueue_new k t =
     do { kassert (t \<notin> set (thread_ready_list k));
          let k = k\<lparr>thread_ready_list := thread_ready_list k @ [t]\<rparr> in
          do { kassert (t \<notin> set (thread_all_list k));
               Some (k\<lparr>thread_all_list := thread_all_list k @ [t]\<rparr>) } }"

definition thread_start :: "kst \<Rightarrow> u8 list \<Rightarrow> nat \<Rightarrow> (nat \<times> kst) option" where
  "thread_start k nm prio =
     do { (t, m) \<leftarrow> get_kernel_pages (km k) 1;
          k \<leftarrow> init_thread (k\<lparr>km := m\<rparr>) t nm prio;
          k \<leftarrow> thread_create k t;
          k \<leftarrow> enqueue_new k t;
          Some (t, k) }"

definition make_main_thread :: "kst \<Rightarrow> kst option" where
  "make_main_thread k =
     (let t = running k in
      do { k \<leftarrow> init_thread (k\<lparr>main_thread := t\<rparr>) t (map of_nat [109, 97, 105, 110]) 31;
           kassert (t \<notin> set (thread_all_list k));
           Some (k\<lparr>thread_all_list := thread_all_list k @ [t]\<rparr>) })"

section \<open>Switching\<close>

definition page_dir_activate :: "kst \<Rightarrow> task_struct \<Rightarrow> kst option" where
  "page_dir_activate k x =
     (if pgdir x = 0 then Some (k\<lparr>km := (km k)\<lparr>cr3 := 0x100000\<rparr>\<rparr>)
      else do { p \<leftarrow> addr_v2p (km k) (pgdir x); Some (k\<lparr>km := (km k)\<lparr>cr3 := p\<rparr>\<rparr>) })"

text \<open>\<open>update_tss_esp\<close> sets the ring 0 stack to the end of the page of the control block.\<close>

definition update_tss_esp :: "kst \<Rightarrow> nat \<Rightarrow> kst" where
  "update_tss_esp k t = k\<lparr>tss_esp0 := t + PG_SIZE\<rparr>"

definition process_activate :: "kst \<Rightarrow> nat \<Rightarrow> kst option" where
  "process_activate k t =
     do { x \<leftarrow> tasks k t;
          k \<leftarrow> page_dir_activate k x;
          Some (if pgdir x \<noteq> 0 then update_tss_esp k t else k) }"

definition thread_unblock :: "kst \<Rightarrow> nat \<Rightarrow> kst option" where
  "thread_unblock k t =
     (let (old_status, k) = intr_disable k in
      do { x \<leftarrow> tasks k t;
           kassert (status x = TASK_BLOCKED \<or> status x = TASK_WAITING \<or> status x = TASK_HANGING);
           kassert (t \<notin> set (thread_ready_list k));
           k \<leftarrow> upd_task (k\<lparr>thread_ready_list := t # thread_ready_list k\<rparr>) t (\<lambda>x. x\<lparr>status := TASK_READY\<rparr>);
           Some (snd (intr_set_status k old_status)) })"

definition requeue_running :: "kst \<Rightarrow> kst option" where
  "requeue_running k =
     do { x \<leftarrow> running_thread k;
          if status x = TASK_RUNNING
          then do { kassert (running k \<notin> set (thread_ready_list k));
                    upd_task (k\<lparr>thread_ready_list := thread_ready_list k @ [running k]\<rparr>) (running k)
                      (\<lambda>x. x\<lparr>ticks := priority x, status := TASK_READY\<rparr>) }
          else Some k }"

text \<open>
  Changing the stack makes \<open>t\<close> the running thread: its part of the memory state is in force,
  and it restores the interrupt flag it was suspended with.
\<close>

definition load_space :: "mm \<Rightarrow> task_struct \<Rightarrow> mm" where
  "load_space m x =
     m\<lparr>user_vaddr := userprog_vaddr x, u_block_descs := u_block_desc x,
       arenas := (\<lambda>a. if 0xc0000000 \<le> a then arenas m a else u_arenas x a),
       in_process := pgdir x \<noteq> 0\<rparr>"

definition save_space :: "mm \<Rightarrow> task_struct \<Rightarrow> task_struct" where
  "save_space m x =
     x\<lparr>userprog_vaddr := user_vaddr m, u_block_desc := u_block_descs m, u_arenas := arenas m\<rparr>"

definition switch_to :: "kst \<Rightarrow> nat \<Rightarrow> kst option" where
  "switch_to k t =
     do { k \<leftarrow> upd_task k (running k) (save_space (km k));
          x \<leftarrow> tasks k t;
          Some (k\<lparr>running := t, intr_on := resume_intr x, km := load_space (km k) x\<rparr>) }"

definition schedule :: "kst \<Rightarrow> kst option" where
  "schedule k =
     do { kassert (\<not> intr_on k);
          k \<leftarrow> requeue_running k;
          k \<leftarrow> (if thread_ready_list k = [] then thread_unblock k (idle_thread k) else Some k);
          kassert (thread_ready_list k \<noteq> []);
          let t = hd (thread_ready_list k) in
          do { k \<leftarrow> upd_task (k\<lparr>thread_ready_list := tl (thread_ready_list k)\<rparr>) t (\<lambda>x. x\<lparr>status := TASK_RUNNING\<rparr>);
               k \<leftarrow> process_activate k t;
               switch_to k t } }"

definition thread_block :: "kst \<Rightarrow> task_status \<Rightarrow> kst option" where
  "thread_block k stat =
     do { kassert (stat = TASK_BLOCKED \<or> stat = TASK_WAITING \<or> stat = TASK_HANGING);
          let (old_status, k) = intr_disable k in
          do { k \<leftarrow> upd_task k (running k) (\<lambda>x. x\<lparr>status := stat, resume_intr := old_status\<rparr>);
               schedule k } }"

definition thread_yield :: "kst \<Rightarrow> kst option" where
  "thread_yield k =
     (let (old_status, k) = intr_disable k in
      do { kassert (running k \<notin> set (thread_ready_list k));
           k \<leftarrow> upd_task (k\<lparr>thread_ready_list := thread_ready_list k @ [running k]\<rparr>) (running k)
             (\<lambda>x. x\<lparr>status := TASK_READY, resume_intr := old_status\<rparr>);
           schedule k })"

text \<open>The idle thread is one endless loop of blocking itself.\<close>

definition idle_step :: "kst \<Rightarrow> kst option" where
  "idle_step k = thread_block k TASK_BLOCKED"

text \<open>
  \<open>thread_exit\<close> unmaps the page of the control block, so nothing can be read from it any
  more. With \<open>need_schedule\<close> the caller is switched out and must not be resumed.
\<close>

definition thread_exit :: "kst \<Rightarrow> nat \<Rightarrow> bool \<Rightarrow> kst option" where
  "thread_exit k t need_schedule =
     do { k \<leftarrow> upd_task (snd (intr_disable k)) t (\<lambda>x. x\<lparr>status := TASK_DIED\<rparr>);
          x \<leftarrow> tasks k t;
          let k = k\<lparr>thread_ready_list := remove1 t (thread_ready_list k)\<rparr> in
          do { m \<leftarrow> (if pgdir x \<noteq> 0 then mfree_page (km k) PF_KERNEL (pgdir x) 1 else Some (km k));
               kassert (t \<in> set (thread_all_list k));
               k \<leftarrow> release_pid (k\<lparr>km := m, thread_all_list := remove1 t (thread_all_list k)\<rparr>) (pid x);
               k \<leftarrow> (if t \<noteq> main_thread k
                    then do { m \<leftarrow> mfree_page (km k) PF_KERNEL t 1;
                              Some (k\<lparr>km := m, tasks := (tasks k)(t := None)\<rparr>) }
                    else Some k);
               if need_schedule then schedule k else Some k } }"

section \<open>Looking threads up\<close>

text \<open>\<open>pid_check\<close> is the callback of the traversal.\<close>

definition pid_check :: "kst \<Rightarrow> int \<Rightarrow> nat \<Rightarrow> bool option" where
  "pid_check k p t = do { x \<leftarrow> tasks k t; Some (pid x = p) }"

fun find_thread :: "(nat \<Rightarrow> bool option) \<Rightarrow> nat list \<Rightarrow> nat option" where
  "find_thread f [] = Some 0"
| "find_thread f (t # ts) = do { b \<leftarrow> f t; if b then Some t else find_thread f ts }"

text \<open>0 is \<open>NULL\<close>.\<close>

definition pid2thread :: "kst \<Rightarrow> int \<Rightarrow> nat option" where
  "pid2thread k p = find_thread (pid_check k p) (thread_all_list k)"

definition sys_getpid :: "kst \<Rightarrow> int option" where
  "sys_getpid k = do { x \<leftarrow> running_thread k; Some (pid x) }"

section \<open>The timer\<close>

text \<open>An interrupt comes with interrupts enabled, and the return from it enables them again.\<close>

definition intr_timer_handler :: "kst \<Rightarrow> nat \<Rightarrow> (nat \<times> kst) option" where
  "intr_timer_handler k total_ticks =
     do { x \<leftarrow> running_thread k;
          kassert (stack_magic x = 0x19870916);
          k \<leftarrow> upd_task k (running k) (\<lambda>x. x\<lparr>elapsed_ticks := w32 (elapsed_ticks x + 1), resume_intr := True\<rparr>);
          if ticks x = 0 then do { k \<leftarrow> schedule (k\<lparr>intr_on := False\<rparr>); Some (w32 (total_ticks + 1), k) }
          else do { k \<leftarrow> upd_task k (running k) (\<lambda>x. x\<lparr>ticks := ticks x - 1\<rparr>);
                    Some (w32 (total_ticks + 1), k) } }"

section \<open>Listing the threads\<close>

text \<open>
  \<open>pad_print\<close> renders a field into 16 bytes, padded with spaces, of which 15 are written to
  the console. A pid is read as a 16-bit integer, the ticks as a 32-bit one.
\<close>

definition pad_print :: "string \<Rightarrow> va_arg \<Rightarrow> string option" where
  "pad_print fmt arg =
     do { (n, buf) \<leftarrow> sprintf (replicate 16 nul) fmt [arg];
          Some (take 15 (take n buf @ replicate (16 - n) CHR '' '')) }"

definition status_name :: "task_status \<Rightarrow> string" where
  "status_name x =
     (case x of TASK_RUNNING \<Rightarrow> ''RUNNING'' | TASK_READY \<Rightarrow> ''READY'' | TASK_BLOCKED \<Rightarrow> ''BLOCKED''
      | TASK_WAITING \<Rightarrow> ''WAITING'' | TASK_HANGING \<Rightarrow> ''HANGING'' | TASK_DIED \<Rightarrow> ''DIED'')"

definition elem2thread_info :: "kst \<Rightarrow> nat \<Rightarrow> string option" where
  "elem2thread_info k t =
     do { x \<leftarrow> tasks k t;
          a \<leftarrow> pad_print ''%d'' (AInt (word_of_int (pid x)));
          b \<leftarrow> (if parent_pid x = - 1 then pad_print ''%s'' (AStr ''NULL'')
               else pad_print ''%d'' (AInt (word_of_int (parent_pid x))));
          c \<leftarrow> pad_print ''%s'' (AStr (status_name (status x)));
          d \<leftarrow> pad_print ''%x'' (AInt (of_nat (elapsed_ticks x)));
          kassert (length (name x) < 15);
          Some (a @ b @ c @ d @ map (\<lambda>c. char_of (unat c)) (name x) @ [char_of (10::nat)]) }"

fun ps_lines :: "kst \<Rightarrow> nat list \<Rightarrow> string option" where
  "ps_lines k [] = Some []"
| "ps_lines k (t # ts) = do { a \<leftarrow> elem2thread_info k t; b \<leftarrow> ps_lines k ts; Some (a @ b) }"

definition sys_ps :: "kst \<Rightarrow> string option" where
  "sys_ps k =
     do { s \<leftarrow> ps_lines k (thread_all_list k);
          Some (''PID            PPID           STAT           TICKS          COMMAND'' @ [char_of (10::nat)] @ s) }"

section \<open>What the scheduler keeps\<close>

text \<open>
  The directories: whichever of them the processor uses, the address of every directory
  translates to one of them, as the kernel part of every address space is the same.
\<close>

definition spaces_ok :: "kst \<Rightarrow> nat set \<Rightarrow> bool" where
  "spaces_ok k D \<longleftrightarrow>
     0x100000 \<in> D \<and> cr3 (km k) \<in> D \<and>
     (\<forall>c\<in>D. \<forall>t x. tasks k t = Some x \<longrightarrow> pgdir x \<noteq> 0 \<longrightarrow>
        (\<exists>p\<in>D. addr_v2p ((km k)\<lparr>cr3 := c\<rparr>) (pgdir x) = Some p))"

text \<open>
  The ready list holds exactly the ready threads, once each, no thread but the current one is
  running, and the idle thread lives. \<open>sched_inv\<close> adds that the current thread is running.
\<close>

definition task_ok :: "task_struct \<Rightarrow> bool" where
  "task_ok x \<longleftrightarrow> stack_magic x = 0x19870916 \<and> ticks x < 256 \<and> priority x < 256"

definition sched_wf :: "kst \<Rightarrow> nat set \<Rightarrow> bool" where
  "sched_wf k D \<longleftrightarrow>
     distinct (thread_ready_list k) \<and>
     (\<forall>t. t \<in> set (thread_ready_list k) \<longleftrightarrow> map_option status (tasks k t) = Some TASK_READY) \<and>
     (\<forall>t. map_option status (tasks k t) = Some TASK_RUNNING \<longrightarrow> t = running k) \<and>
     tasks k (running k) \<noteq> None \<and>
     (\<exists>x. tasks k (idle_thread k) = Some x \<and> status x \<noteq> TASK_DIED) \<and>
     (\<forall>t x. tasks k t = Some x \<longrightarrow> task_ok x) \<and> spaces_ok k D"

definition sched_inv :: "kst \<Rightarrow> nat set \<Rightarrow> bool" where
  "sched_inv k D \<longleftrightarrow> sched_wf k D \<and> map_option status (tasks k (running k)) = Some TASK_RUNNING"

lemma addr_v2p_cong:
  assumes "phys m = phys m'" and "cr3 m = cr3 m'"
  shows "addr_v2p m v = addr_v2p m' v"
  using assms by (simp add: addr_v2p_def vread_def mmu_def Let_def)

text \<open>What a step of the scheduler does not touch of a thread.\<close>

definition task_frame :: "task_struct \<Rightarrow> task_struct \<Rightarrow> bool" where
  "task_frame x y \<longleftrightarrow> pgdir y = pgdir x \<and> stack_magic y = stack_magic x \<and> priority y = priority x \<and> pid y = pid x \<and>
     parent_pid y = parent_pid x \<and> exit_status y = exit_status x"

definition tasks_frame :: "(nat \<rightharpoonup> task_struct) \<Rightarrow> (nat \<rightharpoonup> task_struct) \<Rightarrow> bool" where
  "tasks_frame f g \<longleftrightarrow> (\<forall>t. rel_option task_frame (f t) (g t))"

lemma task_frame_refl [simp]: "task_frame x x"
  by (simp add: task_frame_def)

lemma tasks_frame_refl [simp]: "tasks_frame f f"
  by (simp add: tasks_frame_def option.rel_refl)

lemma tasks_frame_trans: "tasks_frame f g \<Longrightarrow> tasks_frame g h \<Longrightarrow> tasks_frame f h"
  unfolding tasks_frame_def by (intro allI) (erule_tac x = t in allE, erule_tac x = t in allE,
    auto simp: task_frame_def option_rel_Some1 option_rel_Some2 elim!: option.rel_cases)

lemma tasks_frame_upd: "tasks_frame f g \<Longrightarrow> g t = Some x \<Longrightarrow> task_frame x y \<Longrightarrow> tasks_frame f (g(t \<mapsto> y))"
  by (auto simp: tasks_frame_def task_frame_def elim!: option.rel_cases dest!: spec [of _ t])

lemma tasks_frame_self: "f t = Some x \<Longrightarrow> task_frame x y \<Longrightarrow> tasks_frame f (f(t \<mapsto> y))"
  by (rule tasks_frame_upd [of f f]) simp_all

lemma spaces_ok_frame:
  assumes "spaces_ok k D" and "tasks_frame (tasks k) (tasks k')"
    and "phys (km k') = phys (km k)" and "cr3 (km k') \<in> D"
  shows "spaces_ok k' D"
  unfolding spaces_ok_def
proof (intro conjI ballI allI impI)
  fix c t x assume c: "c \<in> D" and x: "tasks k' t = Some x" "pgdir x \<noteq> 0"
  from assms(2) have "rel_option task_frame (tasks k t) (tasks k' t)" by (simp add: tasks_frame_def)
  with x obtain y where y: "tasks k t = Some y" "pgdir y = pgdir x"
    by (auto simp: task_frame_def option_rel_Some2)
  with assms(1) c x obtain p where "p \<in> D" "addr_v2p ((km k)\<lparr>cr3 := c\<rparr>) (pgdir x) = Some p"
    unfolding spaces_ok_def by metis
  moreover have "addr_v2p ((km k')\<lparr>cr3 := c\<rparr>) (pgdir x) = addr_v2p ((km k)\<lparr>cr3 := c\<rparr>) (pgdir x)"
    by (rule addr_v2p_cong) (simp_all add: assms(3))
  ultimately show "\<exists>p\<in>D. addr_v2p ((km k')\<lparr>cr3 := c\<rparr>) (pgdir x) = Some p" by auto
qed (use assms in \<open>auto simp: spaces_ok_def\<close>)

definition no_runner :: "kst \<Rightarrow> bool" where
  "no_runner k \<longleftrightarrow> (\<forall>t. map_option status (tasks k t) \<noteq> Some TASK_RUNNING)"

definition same_env :: "kst \<Rightarrow> kst \<Rightarrow> bool" where
  "same_env k k' \<longleftrightarrow> tasks_frame (tasks k) (tasks k') \<and> thread_all_list k' = thread_all_list k \<and>
     idle_thread k' = idle_thread k \<and> main_thread k' = main_thread k \<and>
     pid_bitmap k' = pid_bitmap k \<and> phys (km k') = phys (km k)"

text \<open>A thread that waits stays as it is; only the idle thread may be woken.\<close>

definition asleep :: "kst \<Rightarrow> nat \<Rightarrow> task_status \<Rightarrow> bool" where
  "asleep k t s \<longleftrightarrow> map_option status (tasks k t) = Some s \<and> s \<notin> {TASK_READY, TASK_RUNNING}"

definition keeps_asleep :: "kst \<Rightarrow> kst \<Rightarrow> bool" where
  "keeps_asleep k k' \<longleftrightarrow> (\<forall>t s. asleep k t s \<longrightarrow> t \<noteq> idle_thread k \<longrightarrow> asleep k' t s)"

lemma same_env_refl [simp]: "same_env k k"
  by (simp add: same_env_def)

lemma same_env_trans: "same_env k k' \<Longrightarrow> same_env k' k'' \<Longrightarrow> same_env k k''"
  by (auto simp: same_env_def intro: tasks_frame_trans)

lemma sched_wf_spaces: "sched_wf k D \<Longrightarrow> spaces_ok k D"
  by (simp add: sched_wf_def)

lemma status_cases: "map_option status f = Some s \<longleftrightarrow> (\<exists>x. f = Some x \<and> status x = s)"
  by auto

lemma sched_wf_running: "sched_wf k D \<Longrightarrow> \<exists>x. tasks k (running k) = Some x \<and> task_ok x"
  by (auto simp: sched_wf_def)

lemma requeue_running_ok:
  assumes wf: "sched_wf k D" and x: "tasks k (running k) = Some x"
  shows "\<exists>k'. requeue_running k = Some k' \<and> sched_wf k' D \<and> no_runner k' \<and> same_env k k' \<and>
    running k' = running k \<and> intr_on k' = intr_on k \<and>
    thread_ready_list k' = thread_ready_list k @ (if status x = TASK_RUNNING then [running k] else []) \<and>
    keeps_asleep k k'"
proof (cases "status x = TASK_RUNNING")
  case False
  with x wf have "no_runner k" by (auto simp: no_runner_def sched_wf_def)
  with x wf False show ?thesis by (simp add: requeue_running_def running_thread_def keeps_asleep_def)
next
  case True
  let ?y = "x\<lparr>ticks := priority x, status := TASK_READY\<rparr>"
  let ?k = "k\<lparr>thread_ready_list := thread_ready_list k @ [running k], tasks := (tasks k)(running k \<mapsto> ?y)\<rparr>"
  have new: "running k \<notin> set (thread_ready_list k)" using wf x True by (auto simp: sched_wf_def)
  have fr: "tasks_frame (tasks k) ((tasks k)(running k \<mapsto> ?y))"
    by (rule tasks_frame_self [of "tasks k"]) (simp_all add: x task_frame_def)
  have sp: "spaces_ok ?k D"
    by (rule spaces_ok_frame [OF sched_wf_spaces [OF wf]]) (use wf fr in \<open>auto simp: sched_wf_def spaces_ok_def\<close>)
  have "sched_wf ?k D" unfolding sched_wf_def
    using wf x True new sp by (auto simp: sched_wf_def task_ok_def)
  moreover have "no_runner ?k" using wf by (auto simp: no_runner_def sched_wf_def)
  moreover have "keeps_asleep k ?k" using x True by (auto simp: keeps_asleep_def asleep_def)
  ultimately show ?thesis using x True new fr
    by (simp add: requeue_running_def running_thread_def upd_task_def same_env_def)
qed

lemma thread_unblock_ok:
  assumes wf: "sched_wf k D" and x: "tasks k t = Some x"
    and blk: "status x \<in> {TASK_BLOCKED, TASK_WAITING, TASK_HANGING}"
  shows "\<exists>k'. thread_unblock k t = Some k' \<and> sched_wf k' D \<and> same_env k k' \<and>
    running k' = running k \<and> intr_on k' = intr_on k \<and> thread_ready_list k' = t # thread_ready_list k \<and>
    tasks k' = (tasks k)(t \<mapsto> x\<lparr>status := TASK_READY\<rparr>)"
proof -
  let ?y = "x\<lparr>status := TASK_READY\<rparr>"
  let ?k = "k\<lparr>thread_ready_list := t # thread_ready_list k, tasks := (tasks k)(t \<mapsto> ?y)\<rparr>"
  have new: "t \<notin> set (thread_ready_list k)" using wf x blk by (auto simp: sched_wf_def)
  have fr: "tasks_frame (tasks k) ((tasks k)(t \<mapsto> ?y))"
    by (rule tasks_frame_self [of "tasks k"]) (simp_all add: x task_frame_def)
  have sp: "spaces_ok ?k D"
    by (rule spaces_ok_frame [OF sched_wf_spaces [OF wf]]) (use wf fr in \<open>auto simp: sched_wf_def spaces_ok_def\<close>)
  have "sched_wf ?k D" unfolding sched_wf_def
    using wf x blk new sp by (auto simp: sched_wf_def task_ok_def)
  moreover have "thread_unblock k t = Some ?k"
    using x blk new by (cases k) (auto simp: thread_unblock_def upd_task_def intr_disable_def
        intr_set_status_def intr_enable_def split: prod.splits if_splits)
  ultimately show ?thesis using fr by (simp add: same_env_def)
qed

text \<open>Who runs next, and who is ready then.\<close>

definition ready_then :: "kst \<Rightarrow> nat list" where
  "ready_then k =
     (let r = thread_ready_list k @
        (if map_option status (tasks k (running k)) = Some TASK_RUNNING then [running k] else [])
      in if r = [] then [idle_thread k] else r)"

lemma ready_then_ne [simp]: "ready_then k \<noteq> []"
  by (simp add: ready_then_def Let_def)

lemma process_activate_ok:
  assumes sp: "spaces_ok k D" and x: "tasks k t = Some x"
  shows "\<exists>c e. process_activate k t = Some (k\<lparr>km := (km k)\<lparr>cr3 := c\<rparr>, tss_esp0 := e\<rparr>) \<and> c \<in> D"
proof (cases "pgdir x = 0")
  case True
  have "process_activate k t = Some (k\<lparr>km := (km k)\<lparr>cr3 := 0x100000\<rparr>, tss_esp0 := tss_esp0 k\<rparr>)"
    using True x by (simp add: process_activate_def page_dir_activate_def)
  moreover have "0x100000 \<in> D" using sp by (simp add: spaces_ok_def)
  ultimately show ?thesis by blast
next
  case False
  with sp x obtain p where "p \<in> D" "addr_v2p ((km k)\<lparr>cr3 := cr3 (km k)\<rparr>) (pgdir x) = Some p"
    unfolding spaces_ok_def by blast
  moreover from this(2) x False have
    "process_activate k t = Some (k\<lparr>km := (km k)\<lparr>cr3 := p\<rparr>, tss_esp0 := t + PG_SIZE\<rparr>)"
    by (simp add: process_activate_def page_dir_activate_def update_tss_esp_def)
  ultimately show ?thesis by blast
qed

lemma run_first_ok:
  assumes wf: "sched_wf k D" and nr: "no_runner k" and r: "thread_ready_list k = t # ts"
    and x: "tasks k t = Some x"
  shows "\<exists>k'. do { k \<leftarrow> upd_task (k\<lparr>thread_ready_list := ts\<rparr>) t (\<lambda>x. x\<lparr>status := TASK_RUNNING\<rparr>);
                   k \<leftarrow> process_activate k t; switch_to k t } = Some k' \<and>
    sched_inv k' D \<and> same_env k k' \<and> running k' = t \<and> thread_ready_list k' = ts \<and>
    intr_on k' = resume_intr x \<and> map_option ticks (tasks k' t) = Some (ticks x) \<and> keeps_asleep k k'"
proof -
  let ?k1 = "k\<lparr>thread_ready_list := ts, tasks := (tasks k)(t \<mapsto> x\<lparr>status := TASK_RUNNING\<rparr>)\<rparr>"
  have fr: "tasks_frame (tasks k) (tasks ?k1)"
    using tasks_frame_self [of "tasks k" t x] x by (simp add: task_frame_def)
  have sp: "spaces_ok ?k1 D"
    by (rule spaces_ok_frame [OF sched_wf_spaces [OF wf] fr]) (use wf in \<open>auto simp: sched_wf_def spaces_ok_def\<close>)
  then obtain c e where act: "process_activate ?k1 t = Some (?k1\<lparr>km := (km k)\<lparr>cr3 := c\<rparr>, tss_esp0 := e\<rparr>)" and c: "c \<in> D"
    using process_activate_ok [OF sp, of t "x\<lparr>status := TASK_RUNNING\<rparr>"] by auto
  have "tasks ?k1 (running k) \<noteq> None" using wf by (auto simp: sched_wf_def)
  then obtain y where y: "tasks ?k1 (running k) = Some y" by blast
  let ?ts = "(tasks ?k1)(running k \<mapsto> save_space ((km k)\<lparr>cr3 := c\<rparr>) y)"
  have fr2: "tasks_frame (tasks ?k1) ?ts"
    by (rule tasks_frame_self [of "tasks ?k1", where x = y, OF y]) (simp add: task_frame_def save_space_def)
  have run: "map_option status (?ts t) = Some TASK_RUNNING \<and> map_option ticks (?ts t) = Some (ticks x) \<and> map_option resume_intr (?ts t) = Some (resume_intr x)"
    using y by (auto simp: save_space_def)
  then obtain z where z: "?ts t = Some z" "resume_intr z = resume_intr x" by auto
  let ?k' = "?k1\<lparr>km := load_space ((km k)\<lparr>cr3 := c\<rparr>) z, tss_esp0 := e, tasks := ?ts, running := t, intr_on := resume_intr x\<rparr>"
  have sp': "spaces_ok ?k' D"
    by (rule spaces_ok_frame [OF sp]) (use fr2 c in \<open>simp_all add: load_space_def\<close>)
  have st: "map_option status (?ts u) = (if u = t then Some TASK_RUNNING else map_option status (tasks k u))" for u
    using y by (auto simp: save_space_def)
  have ok: "task_ok v" if "?ts u = Some v" for u v
    using that wf x y by (auto simp: sched_wf_def save_space_def task_ok_def split: if_splits)
  have idle: "\<exists>v. ?ts (idle_thread k) = Some v \<and> status v \<noteq> TASK_DIED"
  proof -
    from wf obtain v where "map_option status (tasks k (idle_thread k)) = Some v" "v \<noteq> TASK_DIED"
      by (auto simp: sched_wf_def)
    with st [of "idle_thread k"] show ?thesis by (cases "idle_thread k = t") auto
  qed
  have "sched_wf ?k' D" unfolding sched_wf_def
  proof (intro conjI allI impI)
    fix u
    show "(u \<in> set (thread_ready_list ?k')) = (map_option status (tasks ?k' u) = Some TASK_READY)"
      using wf r st [of u] by (auto simp: sched_wf_def)
    show "u = running ?k'" if "map_option status (tasks ?k' u) = Some TASK_RUNNING"
    proof -
      have "map_option status (?ts u) = Some TASK_RUNNING" using that by simp
      with nr have "u = t" unfolding st no_runner_def by metis
      then show ?thesis by simp
    qed
  qed (use wf r z idle ok sp' in \<open>auto simp: sched_wf_def\<close>)
  then have "sched_inv ?k' D" using run by (simp add: sched_inv_def)
  moreover have "switch_to (?k1\<lparr>km := (km k)\<lparr>cr3 := c\<rparr>, tss_esp0 := e\<rparr>) t = Some ?k'"
    using y z by (simp add: switch_to_def upd_task_def)
  moreover have "same_env k ?k'"
    using tasks_frame_trans [OF fr fr2] by (simp add: same_env_def load_space_def)
  moreover have "keeps_asleep k ?k'"
  proof -
    have "map_option status (tasks k t) = Some TASK_READY" using wf r by (auto simp: sched_wf_def)
    then have "asleep ?k' u s" if "asleep k u s" for u s
      using that st [of u] by (auto simp: asleep_def)
    then show ?thesis by (simp add: keeps_asleep_def)
  qed
  ultimately show ?thesis using act x run by (intro exI [of _ ?k']) (simp add: upd_task_def)
qed

text \<open>
  \<open>schedule\<close> always returns in a well-formed state with interrupts off: its assertions
  hold, and the first of \<open>ready_then\<close> runs.
\<close>

lemma schedule_ok:
  assumes wf: "sched_wf k D" and off: "\<not> intr_on k"
  shows "\<exists>k'. schedule k = Some k' \<and> sched_inv k' D \<and> same_env k k' \<and>
    running k' # thread_ready_list k' = ready_then k \<and>
    keeps_asleep k k'"
proof -
  from wf obtain x where x: "tasks k (running k) = Some x" by (auto simp: sched_wf_def)
  from requeue_running_ok [OF wf x] obtain k1 where k1: "requeue_running k = Some k1" "sched_wf k1 D"
    "no_runner k1" "same_env k k1" "running k1 = running k"
    "thread_ready_list k1 = thread_ready_list k @ (if status x = TASK_RUNNING then [running k] else [])"
    "keeps_asleep k k1" by blast
  have id1: "idle_thread k1 = idle_thread k" using k1(4) by (simp add: same_env_def)
  have r1: "ready_then k = (if thread_ready_list k1 = [] then [idle_thread k1] else thread_ready_list k1)"
    using x k1(6) id1 by (simp add: ready_then_def Let_def)
  have "\<exists>k2. (if thread_ready_list k1 = [] then thread_unblock k1 (idle_thread k1) else Some k1) = Some k2 \<and>
      sched_wf k2 D \<and> no_runner k2 \<and> same_env k1 k2 \<and> thread_ready_list k2 = ready_then k \<and>
      keeps_asleep k1 k2"
  proof (cases "thread_ready_list k1 = []")
    case False
    then have "thread_ready_list k1 = ready_then k" using r1 by (simp only: if_False)
    with k1(2,3) False show ?thesis by (simp only: if_False) (auto simp: keeps_asleep_def)
  next
    case True
    from k1(2) obtain z where z: "tasks k1 (idle_thread k1) = Some z" "status z \<noteq> TASK_DIED"
      by (auto simp: sched_wf_def)
    moreover have "status z \<noteq> TASK_RUNNING" using k1(3) z(1) by (auto simp: no_runner_def)
    moreover have "status z \<noteq> TASK_READY" using k1(2) z(1) True by (auto simp: sched_wf_def)
    ultimately have "status z \<in> {TASK_BLOCKED, TASK_WAITING, TASK_HANGING}" by (cases "status z") auto
    from thread_unblock_ok [OF k1(2) z(1) this] k1(3) z(1) True r1 show ?thesis
      by (auto simp: no_runner_def keeps_asleep_def asleep_def)
  qed
  then obtain k2 where k2: "(if thread_ready_list k1 = [] then thread_unblock k1 (idle_thread k1) else Some k1) = Some k2"
    "sched_wf k2 D" "no_runner k2" "same_env k1 k2" "thread_ready_list k2 = ready_then k"
    "keeps_asleep k1 k2" by blast
  obtain t ts where t: "ready_then k = t # ts" by (cases "ready_then k") auto
  have "map_option status (tasks k2 t) = Some TASK_READY" using k2(2,5) t by (auto simp: sched_wf_def)
  then obtain y where y: "tasks k2 t = Some y" by auto
  from run_first_ok [OF k2(2,3) _ y, of ts] k2(5) t obtain k' where k':
    "do { k \<leftarrow> upd_task (k2\<lparr>thread_ready_list := ts\<rparr>) t (\<lambda>x. x\<lparr>status := TASK_RUNNING\<rparr>);
          k \<leftarrow> process_activate k t; switch_to k t } = Some k'"
    "sched_inv k' D" "same_env k2 k'" "running k' = t" "thread_ready_list k' = ts"
    "keeps_asleep k2 k'" by auto
  have "schedule k = Some k'" using off k1(1) k2(1,5) k'(1) t
    by (simp add: schedule_def Let_def del: bind_assoc cong: if_cong)
  moreover have "same_env k k'" by (rule same_env_trans [OF same_env_trans [OF k1(4) k2(4)] k'(3)])
  moreover have "keeps_asleep k k'"
    using k1(4,7) k2(4,6) k'(6) by (auto simp: keeps_asleep_def same_env_def)
  ultimately show ?thesis using k' t by (intro exI [of _ k']) auto
qed

text \<open>Changing the running thread before the scheduler is called keeps the state well formed.\<close>

lemma sched_wf_upd_running:
  assumes inv: "sched_inv k D" and x: "tasks k (running k) = Some x"
    and fr: "task_frame x y" and ok: "ticks y < 256"
    and r: "status y = TASK_READY \<and> rs = thread_ready_list k @ [running k] \<or>
            status y \<notin> {TASK_READY, TASK_DIED} \<and> rs = thread_ready_list k"
  shows "sched_wf (k\<lparr>thread_ready_list := rs, tasks := (tasks k)(running k \<mapsto> y), intr_on := b\<rparr>) D"
    and "same_env k (k\<lparr>thread_ready_list := rs, tasks := (tasks k)(running k \<mapsto> y), intr_on := b\<rparr>)"
proof -
  let ?k = "k\<lparr>thread_ready_list := rs, tasks := (tasks k)(running k \<mapsto> y), intr_on := b\<rparr>"
  have wf: "sched_wf k D" and run: "status x = TASK_RUNNING" using inv x by (auto simp: sched_inv_def)
  have f: "tasks_frame (tasks k) (tasks ?k)" using tasks_frame_self [of "tasks k" "running k" x y] x fr by simp
  then show "same_env k ?k" by (simp add: same_env_def)
  have sp: "spaces_ok ?k D"
    by (rule spaces_ok_frame [OF sched_wf_spaces [OF wf] f]) (use wf in \<open>auto simp: sched_wf_def spaces_ok_def\<close>)
  have y: "task_ok y" using wf x fr ok by (auto simp: sched_wf_def task_ok_def task_frame_def)
  have new: "running k \<notin> set (thread_ready_list k)" using wf x run by (auto simp: sched_wf_def)
  show "sched_wf ?k D" unfolding sched_wf_def
    using wf x run new r sp y by (auto simp: sched_wf_def)
qed

lemma keeps_asleep_running:
  assumes "tasks k (running k) = Some x" and "status x = TASK_RUNNING"
    and k: "keeps_asleep (k\<lparr>thread_ready_list := rs, tasks := (tasks k)(running k \<mapsto> y), intr_on := b\<rparr>) k'"
  shows "keeps_asleep k k'"
  unfolding keeps_asleep_def
proof (intro allI impI)
  fix t s assume t: "asleep k t s" "t \<noteq> idle_thread k"
  with assms(1,2) have "t \<noteq> running k" by (auto simp: asleep_def)
  with t k show "asleep k' t s" by (auto simp: keeps_asleep_def asleep_def dest!: spec [of _ t])
qed

lemma thread_block_ok:
  assumes inv: "sched_inv k D" and st: "stat \<in> {TASK_BLOCKED, TASK_WAITING, TASK_HANGING}"
  shows "\<exists>k'. thread_block k stat = Some k' \<and> sched_inv k' D \<and> same_env k k' \<and>
    running k' # thread_ready_list k' = (if thread_ready_list k = [] then [idle_thread k] else thread_ready_list k) \<and>
    keeps_asleep k k' \<and> (running k \<noteq> idle_thread k \<longrightarrow> asleep k' (running k) stat)"
proof -
  from inv obtain x where x: "tasks k (running k) = Some x" by (auto simp: sched_inv_def)
  let ?y = "x\<lparr>status := stat, resume_intr := intr_on k\<rparr>"
  let ?k = "k\<lparr>thread_ready_list := thread_ready_list k, tasks := (tasks k)(running k \<mapsto> ?y), intr_on := False\<rparr>"
  have "task_ok x" using inv x by (auto simp: sched_inv_def sched_wf_def)
  then have wf: "sched_wf ?k D" "same_env k ?k"
    using sched_wf_upd_running [OF inv x, of ?y "thread_ready_list k" False] st
    by (auto simp: task_frame_def task_ok_def)
  from schedule_ok [OF wf(1)] obtain k' where k': "schedule ?k = Some k'" "sched_inv k' D" "same_env ?k k'"
    "running k' # thread_ready_list k' = ready_then ?k" "keeps_asleep ?k k'" by auto
  have "status x = TASK_RUNNING" using inv x by (simp add: sched_inv_def)
  then have "keeps_asleep k k'" by (rule keeps_asleep_running [OF x _ k'(5)])
  moreover have "asleep k' (running k) stat" if "running k \<noteq> idle_thread k"
    using k'(5) that st unfolding keeps_asleep_def by (auto simp: asleep_def)
  moreover have "thread_block k stat = schedule ?k"
    using st x by (cases k) (auto simp: thread_block_def upd_task_def intr_disable_def split: prod.splits if_splits)
  moreover have "ready_then ?k = (if thread_ready_list k = [] then [idle_thread k] else thread_ready_list k)"
    using st by (auto simp: ready_then_def)
  ultimately show ?thesis using k' same_env_trans [OF wf(2) k'(3)] by simp
qed

lemma thread_yield_ok:
  assumes inv: "sched_inv k D"
  shows "\<exists>k'. thread_yield k = Some k' \<and> sched_inv k' D \<and> same_env k k' \<and>
    running k' # thread_ready_list k' = thread_ready_list k @ [running k] \<and> keeps_asleep k k'"
proof -
  from inv obtain x where x: "tasks k (running k) = Some x" by (auto simp: sched_inv_def)
  let ?y = "x\<lparr>status := TASK_READY, resume_intr := intr_on k\<rparr>"
  let ?k = "k\<lparr>thread_ready_list := thread_ready_list k @ [running k], tasks := (tasks k)(running k \<mapsto> ?y), intr_on := False\<rparr>"
  have "task_ok x" using inv x by (auto simp: sched_inv_def sched_wf_def)
  then have wf: "sched_wf ?k D" "same_env k ?k"
    using sched_wf_upd_running [OF inv x, of ?y "thread_ready_list k @ [running k]" False]
    by (auto simp: task_frame_def task_ok_def)
  from schedule_ok [OF wf(1)] obtain k' where k': "schedule ?k = Some k'" "sched_inv k' D" "same_env ?k k'"
    "running k' # thread_ready_list k' = ready_then ?k" "keeps_asleep ?k k'" by auto
  have "status x = TASK_RUNNING" using inv x by (simp add: sched_inv_def)
  then have "keeps_asleep k k'" by (rule keeps_asleep_running [OF x _ k'(5)])
  moreover have "running k \<notin> set (thread_ready_list k)" using inv x by (auto simp: sched_inv_def sched_wf_def)
  moreover from this have "thread_yield k = schedule ?k"
    using x by (cases k) (auto simp: thread_yield_def upd_task_def intr_disable_def split: prod.splits if_splits)
  moreover have "ready_then ?k = thread_ready_list k @ [running k]"
    by (auto simp: ready_then_def)
  ultimately show ?thesis using k' same_env_trans [OF wf(2) k'(3)] by simp
qed

lemma intr_timer_ok:
  assumes inv: "sched_inv k D" and x: "tasks k (running k) = Some x"
  shows "\<exists>k'. intr_timer_handler k n = Some (w32 (n + 1), k') \<and> sched_inv k' D \<and> same_env k k' \<and>
    running k' # thread_ready_list k' =
      (if ticks x = 0 then thread_ready_list k @ [running k] else running k # thread_ready_list k) \<and>
    (ticks x \<noteq> 0 \<longrightarrow> map_option ticks (tasks k' (running k')) = Some (ticks x - 1)) \<and> keeps_asleep k k'"
proof -
  have ok: "task_ok x" and run: "status x = TASK_RUNNING" using inv x by (auto simp: sched_inv_def sched_wf_def)
  let ?y = "x\<lparr>elapsed_ticks := w32 (elapsed_ticks x + 1), resume_intr := True\<rparr>"
  let ?k = "\<lambda>y b. k\<lparr>thread_ready_list := thread_ready_list k, tasks := (tasks k)(running k \<mapsto> y), intr_on := b\<rparr>"
  show ?thesis
  proof (cases "ticks x = 0")
    case True
    have wf: "sched_wf (?k ?y False) D" "same_env k (?k ?y False)"
      using sched_wf_upd_running [OF inv x, of ?y "thread_ready_list k" False] ok run
      by (auto simp: task_frame_def task_ok_def)
    from schedule_ok [OF wf(1)] obtain k' where k': "schedule (?k ?y False) = Some k'" "sched_inv k' D"
      "same_env (?k ?y False) k'" "running k' # thread_ready_list k' = ready_then (?k ?y False)"
      "keeps_asleep (?k ?y False) k'" by auto
    from run have "keeps_asleep k k'" by (rule keeps_asleep_running [OF x _ k'(5)])
    moreover
    have "intr_timer_handler k n = Some (w32 (n + 1), k')"
      using True x ok k'(1) by (simp add: intr_timer_handler_def running_thread_def upd_task_def task_ok_def)
    moreover have "ready_then (?k ?y False) = thread_ready_list k @ [running k]"
      using run by (auto simp: ready_then_def)
    ultimately show ?thesis using True k' same_env_trans [OF wf(2) k'(3)] by simp
  next
    case False
    let ?z = "?y\<lparr>ticks := ticks x - 1\<rparr>"
    have wf: "sched_wf (?k ?z (intr_on k)) D" "same_env k (?k ?z (intr_on k))"
      using sched_wf_upd_running [OF inv x, of ?z "thread_ready_list k" "intr_on k"] ok run
      by (auto simp: task_frame_def task_ok_def)
    have "intr_timer_handler k n = Some (w32 (n + 1), ?k ?z (intr_on k))"
      using False x ok by (cases k) (simp add: intr_timer_handler_def running_thread_def upd_task_def task_ok_def)
    moreover have "keeps_asleep k (?k ?z (intr_on k))" using x run by (auto simp: keeps_asleep_def asleep_def)
    ultimately show ?thesis using wf False run by (auto simp: sched_inv_def)
  qed
qed

text \<open>Changes that the scheduler does not look at.\<close>

definition same_sched :: "kst \<Rightarrow> kst \<Rightarrow> bool" where
  "same_sched k k' \<longleftrightarrow> running k' = running k \<and> thread_ready_list k' = thread_ready_list k \<and>
     idle_thread k' = idle_thread k \<and> thread_all_list k' = thread_all_list k \<and>
     (\<forall>t. rel_option (\<lambda>x y. status y = status x \<and> pgdir y = pgdir x \<and> stack_magic y = stack_magic x \<and>
        priority y = priority x \<and> ticks y = ticks x \<and> pid y = pid x) (tasks k t) (tasks k' t))"

lemma same_sched_status: "same_sched k k' \<Longrightarrow> map_option status (tasks k' t) = map_option status (tasks k t)"
  by (auto simp: same_sched_def elim!: option.rel_cases dest!: spec [of _ t])

lemma same_sched_trans:
  assumes "same_sched k k'" and "same_sched k' k''"
  shows "same_sched k k''"
  unfolding same_sched_def
proof (intro conjI allI)
  fix t
  show "rel_option (\<lambda>x y. status y = status x \<and> pgdir y = pgdir x \<and> stack_magic y = stack_magic x \<and>
        priority y = priority x \<and> ticks y = ticks x \<and> pid y = pid x) (tasks k t) (tasks k'' t)"
    using assms unfolding same_sched_def
    by (elim conjE allE [of _ t]) (auto simp: option_rel_Some2 elim!: option.rel_cases)
qed (use assms in \<open>simp_all add: same_sched_def\<close>)

lemma same_sched_spaces:
  assumes "same_sched k k'" and "spaces_ok k D" and "phys (km k') = phys (km k)" and "cr3 (km k') = cr3 (km k)"
  shows "spaces_ok k' D"
  unfolding spaces_ok_def
proof (intro conjI ballI allI impI)
  fix c t x assume c: "c \<in> D" and x: "tasks k' t = Some x" "pgdir x \<noteq> 0"
  from assms(1) x obtain y where y: "tasks k t = Some y" "pgdir y = pgdir x"
    by (auto simp: same_sched_def elim!: option.rel_cases dest!: spec [of _ t])
  with assms(2) c x obtain p where "p \<in> D" "addr_v2p ((km k)\<lparr>cr3 := c\<rparr>) (pgdir x) = Some p"
    unfolding spaces_ok_def by metis
  moreover have "addr_v2p ((km k')\<lparr>cr3 := c\<rparr>) (pgdir x) = addr_v2p ((km k)\<lparr>cr3 := c\<rparr>) (pgdir x)"
    by (rule addr_v2p_cong) (simp_all add: assms(3))
  ultimately show "\<exists>p\<in>D. addr_v2p ((km k')\<lparr>cr3 := c\<rparr>) (pgdir x) = Some p" by auto
qed (use assms in \<open>auto simp: spaces_ok_def\<close>)

lemma same_sched_inv:
  assumes s: "same_sched k k'" and inv: "sched_inv k D" and sp: "spaces_ok k' D"
  shows "sched_inv k' D"
proof -
  note st = same_sched_status [OF s]
  have eq: "running k' = running k" "thread_ready_list k' = thread_ready_list k" "idle_thread k' = idle_thread k"
    using s by (simp_all add: same_sched_def)
  have ok: "task_ok y" if "tasks k' t = Some y" for t y
  proof -
    from s that obtain x where x: "tasks k t = Some x" "stack_magic y = stack_magic x" "priority y = priority x" "ticks y = ticks x"
      by (auto simp: same_sched_def elim!: option.rel_cases dest!: spec [of _ t])
    with inv show ?thesis by (auto simp: sched_inv_def sched_wf_def task_ok_def)
  qed
  have idle: "\<exists>y. tasks k' (idle_thread k') = Some y \<and> status y \<noteq> TASK_DIED"
  proof -
    from inv obtain v where "map_option status (tasks k (idle_thread k)) = Some v" "v \<noteq> TASK_DIED"
      by (auto simp: sched_inv_def sched_wf_def)
    then have "map_option status (tasks k' (idle_thread k')) = Some v" "v \<noteq> TASK_DIED" unfolding eq st by auto
    then show ?thesis by auto
  qed
  have "map_option status (tasks k' (running k')) = Some TASK_RUNNING" unfolding eq st using inv by (simp add: sched_inv_def)
  moreover have "sched_wf k' D" unfolding sched_wf_def
  proof (intro conjI allI impI)
    show "distinct (thread_ready_list k')" using inv unfolding eq by (simp add: sched_inv_def sched_wf_def)
    show "(t \<in> set (thread_ready_list k')) = (map_option status (tasks k' t) = Some TASK_READY)" for t
      unfolding eq st using inv unfolding sched_inv_def sched_wf_def by blast
    show "t = running k'" if "map_option status (tasks k' t) = Some TASK_RUNNING" for t
      using that inv unfolding eq st sched_inv_def sched_wf_def by blast
    show "tasks k' (running k') \<noteq> None" using calculation by auto
  qed (use ok idle sp in auto)
  ultimately show ?thesis by (simp add: sched_inv_def)
qed

lemma thread_unblock_inv:
  assumes inv: "sched_inv k D" and x: "tasks k t = Some x"
    and blk: "status x \<in> {TASK_BLOCKED, TASK_WAITING, TASK_HANGING}"
  shows "\<exists>k'. thread_unblock k t = Some k' \<and> sched_inv k' D \<and> same_env k k' \<and>
    running k' = running k \<and> thread_ready_list k' = t # thread_ready_list k \<and> intr_on k' = intr_on k \<and>
    tasks k' = (tasks k)(t \<mapsto> x\<lparr>status := TASK_READY\<rparr>)"
proof -
  from inv have "sched_wf k D" by (simp add: sched_inv_def)
  from thread_unblock_ok [OF this x blk] obtain k' where k': "thread_unblock k t = Some k'" "sched_wf k' D"
    "same_env k k'" "running k' = running k" "thread_ready_list k' = t # thread_ready_list k" "intr_on k' = intr_on k"
    "tasks k' = (tasks k)(t \<mapsto> x\<lparr>status := TASK_READY\<rparr>)" by blast
  moreover have "running k \<noteq> t" using inv x blk by (auto simp: sched_inv_def)
  ultimately show ?thesis using inv by (auto simp: sched_inv_def)
qed

text \<open>Some timer interrupts in a row.\<close>

fun timer_run :: "nat \<Rightarrow> nat \<Rightarrow> kst \<Rightarrow> (nat \<times> kst) option" where
  "timer_run 0 n k = Some (n, k)"
| "timer_run (Suc j) n k = do { (n, k) \<leftarrow> intr_timer_handler k n; timer_run j n k }"

lemma timer_run_add: "timer_run (i + j) n k = do { (n, k) \<leftarrow> timer_run i n k; timer_run j n k }"
  by (induction i arbitrary: n k) (simp_all add: bind_assoc split: bind_splits prod.splits)

text \<open>A time slice ends after one interrupt more than it has ticks.\<close>

lemma slice_ends:
  assumes "sched_inv k D" and "map_option ticks (tasks k (running k)) = Some m"
  shows "\<exists>k' n'. timer_run (Suc m) n k = Some (n', k') \<and> sched_inv k' D
    \<and> running k' # thread_ready_list k' = thread_ready_list k @ [running k]"
  using assms
proof (induction m arbitrary: k n)
  case 0
  then obtain x where x: "tasks k (running k) = Some x" "ticks x = 0" by auto
  with intr_timer_ok [OF 0(1) x(1), of n] show ?case by auto
next
  case (Suc m)
  then obtain x where x: "tasks k (running k) = Some x" "ticks x = Suc m" by auto
  from intr_timer_ok [OF Suc.prems(1) x(1), of n] x(2) obtain k1 where k1:
    "intr_timer_handler k n = Some (w32 (n + 1), k1)" "sched_inv k1 D"
    "running k1 # thread_ready_list k1 = running k # thread_ready_list k"
    "map_option ticks (tasks k1 (running k1)) = Some m" by auto
  from Suc.IH [OF k1(2,4), of "w32 (n + 1)"] k1 show ?case by (simp del: timer_run.simps add: timer_run.simps(2) [of "Suc m"])
qed

lemma ready_reached:
  assumes "sched_inv k D" and "i < length (thread_ready_list k)"
  shows "\<exists>j k' n'. j \<le> 256 * (i + 1) \<and> timer_run j n k = Some (n', k') \<and> running k' = thread_ready_list k ! i"
  using assms
proof (induction i arbitrary: k n)
  case 0
  from 0(1) obtain x where x: "tasks k (running k) = Some x" "ticks x < 256"
    by (auto simp: sched_inv_def sched_wf_def task_ok_def)
  from slice_ends [OF 0(1), of "ticks x" n] x obtain k' n' where
    "timer_run (Suc (ticks x)) n k = Some (n', k')" "running k' # thread_ready_list k' = thread_ready_list k @ [running k]" by auto
  moreover from this(2) 0(2) have "running k' = thread_ready_list k ! 0" by (cases "thread_ready_list k") auto
  ultimately show ?case using x(2) by (intro exI [of _ "Suc (ticks x)"]) (auto simp del: timer_run.simps)
next
  case (Suc i)
  from Suc.prems(1) obtain x where x: "tasks k (running k) = Some x" "ticks x < 256"
    by (auto simp: sched_inv_def sched_wf_def task_ok_def)
  from slice_ends [OF Suc.prems(1), of "ticks x" n] x obtain k1 n1 where k1:
    "timer_run (Suc (ticks x)) n k = Some (n1, k1)" "sched_inv k1 D"
    "running k1 # thread_ready_list k1 = thread_ready_list k @ [running k]" by auto
  then obtain t ts where t: "thread_ready_list k = t # ts" "thread_ready_list k1 = ts @ [running k]"
    using Suc.prems(2) by (cases "thread_ready_list k") auto
  from Suc.IH [OF k1(2), of n1] t Suc.prems(2) obtain j k' n' where j:
    "j \<le> 256 * (i + 1)" "timer_run j n1 k1 = Some (n', k')" "running k' = ts ! i"
    by (auto simp: nth_append)
  have "timer_run (Suc (ticks x) + j) n k = Some (n', k')" unfolding timer_run_add k1(1) using j(2) by simp
  with j(1,3) t x(2) show ?case by (intro exI [of _ "Suc (ticks x) + j"]) (auto simp del: timer_run.simps)
qed

section \<open>Properties\<close>

text \<open>A state with a running thread, two ready ones, one of them a process, a blocked one and the idle thread.\<close>

definition demo_task :: "task_status \<Rightarrow> nat \<Rightarrow> int \<Rightarrow> nat \<Rightarrow> task_struct" where
  "demo_task s n p d =
     \<lparr>self_kstack = 0, pid = p, status = s, name = [], priority = n, ticks = n, elapsed_ticks = 0, pgdir = d,
      userprog_vaddr = \<lparr>vaddr_bitmap = \<lparr>btmp_bytes_len = 0, bits = []\<rparr>, vaddr_start = 0\<rparr>, vaddr_bits = 0,
      u_block_desc = [], u_arenas = (\<lambda>_. None), t_fd_table = [], t_cwd_inode_nr = 0, parent_pid = - 1,
      exit_status = 0, signal_bits = 0, sighandlers = [], stack_magic = 0x19870916, resume_intr = True\<rparr>"

definition demo_kst :: kst where
  "demo_kst =
     \<lparr>tasks = [0xc009e000 \<mapsto> demo_task TASK_RUNNING 31 2 0, 0xc0100000 \<mapsto> demo_task TASK_READY 31 1 0xfffff000,
        0xc0101000 \<mapsto> demo_task TASK_READY 10 4 0, 0xc0102000 \<mapsto> demo_task TASK_BLOCKED 10 3 0,
        0xc0103000 \<mapsto> demo_task TASK_BLOCKED 31 5 0],
      thread_ready_list = [0xc0100000, 0xc0101000],
      thread_all_list = [0xc0100000, 0xc009e000, 0xc0102000, 0xc0101000, 0xc0103000], running = 0xc009e000,
      main_thread = 0xc009e000, idle_thread = 0xc0102000, pid_bitmap = \<lparr>btmp_bytes_len = 1, bits = [31]\<rparr>,
      intr_on = True, tss_esp0 = 0, km = demo_mm\<rparr>"

lemma demo_page_dir: "cr3 m = 0x100000 \<Longrightarrow> phys m 0x100ffc = 0x100007 \<Longrightarrow> addr_v2p m 0xfffff000 = Some 0x100000"
  by (simp add: addr_v2p_def vread_def mmu_def pte_ptr_def PTE_IDX_def w32_def drop_bit_eq_div)

lemma demo_kst_inv: "sched_inv demo_kst {0x100000}"
proof -
  have "spaces_ok demo_kst {0x100000}"
    by (auto simp: spaces_ok_def demo_kst_def demo_task_def demo_mm_def intro!: demo_page_dir split: if_splits)
  then show ?thesis
    by (auto simp: sched_inv_def sched_wf_def demo_kst_def demo_task_def task_ok_def split: if_splits)
qed

text \<open>
  Property C7. The scheduler's own invariant (the ready list holds exactly the ready threads,
  each once, exactly the current thread is running, every control block has its fields in the
  range of their types and its magic number intact) is kept by blocking, yielding, waking
  and the timer, which all return, so none of their assertions can fail. Blocking runs the
  first ready thread, or the idle thread when none is ready; yielding queues the caller last;
  a woken thread is queued first; the timer switches only when the time slice is used up.
\<close>

theorem scheduler_keeps_invariant:
  assumes "sched_inv k D"
  shows "(\<forall>stat \<in> {TASK_BLOCKED, TASK_WAITING, TASK_HANGING}.
      \<exists>k'. thread_block k stat = Some k' \<and> sched_inv k' D
        \<and> running k' # thread_ready_list k' = (if thread_ready_list k = [] then [idle_thread k] else thread_ready_list k))
    \<and> (\<exists>k'. thread_yield k = Some k' \<and> sched_inv k' D
        \<and> running k' # thread_ready_list k' = thread_ready_list k @ [running k])
    \<and> (\<forall>t x. tasks k t = Some x \<and> status x \<in> {TASK_BLOCKED, TASK_WAITING, TASK_HANGING} \<longrightarrow>
      (\<exists>k'. thread_unblock k t = Some k' \<and> sched_inv k' D
        \<and> running k' = running k \<and> thread_ready_list k' = t # thread_ready_list k))
    \<and> (\<exists>y. tasks k (running k) = Some y \<and> (\<forall>n. \<exists>k'. intr_timer_handler k n = Some (w32 (n + 1), k') \<and> sched_inv k' D
        \<and> running k' # thread_ready_list k' =
          (if ticks y = 0 then thread_ready_list k @ [running k] else running k # thread_ready_list k)))"
proof (intro conjI ballI allI impI)
  fix stat assume st: "stat \<in> {TASK_BLOCKED, TASK_WAITING, TASK_HANGING}"
  show "\<exists>k'. thread_block k stat = Some k' \<and> sched_inv k' D
        \<and> running k' # thread_ready_list k' = (if thread_ready_list k = [] then [idle_thread k] else thread_ready_list k)"
    using thread_block_ok [OF assms st] by blast
next
  show "\<exists>k'. thread_yield k = Some k' \<and> sched_inv k' D
        \<and> running k' # thread_ready_list k' = thread_ready_list k @ [running k]"
    using thread_yield_ok [OF assms] by blast
next
  fix t x assume "tasks k t = Some x \<and> status x \<in> {TASK_BLOCKED, TASK_WAITING, TASK_HANGING}"
  with thread_unblock_inv [OF assms] show "\<exists>k'. thread_unblock k t = Some k' \<and> sched_inv k' D
        \<and> running k' = running k \<and> thread_ready_list k' = t # thread_ready_list k" by blast
next
  from assms obtain y where "tasks k (running k) = Some y" by (auto simp: sched_inv_def)
  with intr_timer_ok [OF assms] show "\<exists>y. tasks k (running k) = Some y \<and>
      (\<forall>n. \<exists>k'. intr_timer_handler k n = Some (w32 (n + 1), k') \<and> sched_inv k' D
        \<and> running k' # thread_ready_list k' =
          (if ticks y = 0 then thread_ready_list k @ [running k] else running k # thread_ready_list k))" by blast
qed

theorem scheduler_keeps_invariant_witness:
  "\<exists>k'. thread_yield demo_kst = Some k' \<and> sched_inv k' {0x100000} \<and> running k' = 0xc0100000
     \<and> thread_ready_list k' = [0xc0101000, 0xc009e000]"
proof -
  from scheduler_keeps_invariant [OF demo_kst_inv] obtain k' where
    "thread_yield demo_kst = Some k'" "sched_inv k' {0x100000}"
    "running k' # thread_ready_list k' = thread_ready_list demo_kst @ [running demo_kst]" by blast
  then show ?thesis by (auto simp: demo_kst_def)
qed

text \<open>
  Property C8. No ready thread starves: the thread at position \<open>i\<close> of the ready list is on
  the processor after at most \<open>256 * (i + 1)\<close> timer interrupts, if nobody blocks meanwhile.
\<close>

theorem ready_thread_runs:
  assumes "sched_inv k D" and "i < length (thread_ready_list k)"
  shows "\<exists>j k' n'. j \<le> 256 * (i + 1) \<and> timer_run j n k = Some (n', k') \<and> running k' = thread_ready_list k ! i"
  using ready_reached [OF assms] by blast

theorem ready_thread_runs_witness:
  "\<exists>j k' n'. j \<le> 512 \<and> timer_run j 0 demo_kst = Some (n', k') \<and> running k' = 0xc0101000"
  using ready_thread_runs [OF demo_kst_inv, of 1 0] by (simp add: demo_kst_def)

end
