(* ===== verification/Sync.thy ===== *)
theory Sync
  imports Thread
begin

text \<open>
  \<open>src/src/thread/sync.c\<close>: semaphores, locks and condition variables over the threads of
  theory \<open>Thread\<close>, and the interleaving of the threads that use one lock.

  A thread that blocks inside an operation continues there when it is scheduled again, so an
  operation that may block is given up to the point where it blocks, and the piece that
  follows is a definition of its own. Sections with interrupts off are atomic.
\<close>

section \<open>Semaphores\<close>

record semaphore =
  sem_value :: nat
  waiters :: "nat list"

definition sema_init :: "nat \<Rightarrow> semaphore" where
  "sema_init v = \<lparr>sem_value = w8 v, waiters = []\<rparr>"

text \<open>
  One round of the loop of \<open>sema_down\<close>, with interrupts off: it takes the semaphore, or the
  thread enters the wait list and blocks; then it starts another round when it is woken.
\<close>

definition sema_round :: "kst \<Rightarrow> semaphore \<Rightarrow> (bool \<times> kst \<times> semaphore) option" where
  "sema_round k s =
     (if sem_value s = 0
      then do { kassert (running k \<notin> set (waiters s));
                k' \<leftarrow> thread_block k TASK_BLOCKED;
                Some (False, k', s\<lparr>waiters := waiters s @ [running k]\<rparr>) }
      else do { kassert (sem_value s - 1 = 0);
                Some (True, k, s\<lparr>sem_value := sem_value s - 1\<rparr>) })"

definition sema_leave :: "bool \<Rightarrow> bool \<times> kst \<times> semaphore \<Rightarrow> bool \<times> kst \<times> semaphore" where
  "sema_leave old_status r =
     (case r of (done, k, s) \<Rightarrow> (done, if done then snd (intr_set_status k old_status) else k, s))"

definition sema_down :: "kst \<Rightarrow> semaphore \<Rightarrow> (bool \<times> kst \<times> semaphore) option" where
  "sema_down k s = (let (old_status, k) = intr_disable k in map_option (sema_leave old_status) (sema_round k s))"

definition sema_down_resumed :: "bool \<Rightarrow> kst \<Rightarrow> semaphore \<Rightarrow> (bool \<times> kst \<times> semaphore) option" where
  "sema_down_resumed old_status k s = map_option (sema_leave old_status) (sema_round k s)"

definition sema_up :: "kst \<Rightarrow> semaphore \<Rightarrow> (kst \<times> semaphore) option" where
  "sema_up k s =
     (let (old_status, k) = intr_disable k in
      do { kassert (sem_value s = 0);
           (k, s) \<leftarrow> (case waiters s of [] \<Rightarrow> Some (k, s)
                     | t # ts \<Rightarrow> do { k \<leftarrow> thread_unblock k t; Some (k, s\<lparr>waiters := ts\<rparr>) });
           let s = s\<lparr>sem_value := w8 (sem_value s + 1)\<rparr> in
           do { kassert (sem_value s = 1);
                Some (snd (intr_set_status k old_status), s) } })"

section \<open>Locks\<close>

text \<open>No holder is address 0.\<close>

record lock =
  holder :: nat
  holder_repeat_nr :: nat
  lsem :: semaphore

definition lock_init :: lock where
  "lock_init = \<lparr>holder = 0, holder_repeat_nr = 0, lsem = sema_init 1\<rparr>"

text \<open>What \<open>lock_acquire\<close> does once it has the semaphore.\<close>

definition lock_got :: "kst \<Rightarrow> lock \<Rightarrow> lock option" where
  "lock_got k l = do { kassert (holder_repeat_nr l = 0); Some (l\<lparr>holder := running k, holder_repeat_nr := 1\<rparr>) }"

definition lock_again :: "lock \<Rightarrow> lock" where
  "lock_again l = l\<lparr>holder_repeat_nr := w32 (holder_repeat_nr l + 1)\<rparr>"

text \<open>The result says whether the lock is taken; otherwise the thread is blocked in \<open>sema_down\<close>.\<close>

definition lock_acquire :: "kst \<Rightarrow> lock \<Rightarrow> (bool \<times> kst \<times> lock) option" where
  "lock_acquire k l =
     (if holder l \<noteq> running k
      then do { (done, k, s) \<leftarrow> sema_down k (lsem l);
                let l = l\<lparr>lsem := s\<rparr> in
                if done then do { l \<leftarrow> lock_got k l; Some (True, k, l) } else Some (False, k, l) }
      else Some (True, k, lock_again l))"

text \<open>\<open>lock_release\<close> up to the \<open>sema_up\<close>; the result says whether it follows.\<close>

definition lock_drop :: "kst \<Rightarrow> lock \<Rightarrow> (bool \<times> lock) option" where
  "lock_drop k l =
     do { kassert (holder l = running k);
          if 1 < holder_repeat_nr l then Some (False, l\<lparr>holder_repeat_nr := holder_repeat_nr l - 1\<rparr>)
          else do { kassert (holder_repeat_nr l = 1); Some (True, l\<lparr>holder := 0, holder_repeat_nr := 0\<rparr>) } }"

definition lock_release :: "kst \<Rightarrow> lock \<Rightarrow> (kst \<times> lock) option" where
  "lock_release k l =
     do { (up, l) \<leftarrow> lock_drop k l;
          if up then do { (k, s) \<leftarrow> sema_up k (lsem l); Some (k, l\<lparr>lsem := s\<rparr>) } else Some (k, l) }"

section \<open>Condition variables\<close>

datatype waiter_status = WAITER_CREATED | WAITER_QUEUED | WAITER_BLOCKED | WAITER_NOTIFIED

record waiter_node =
  pthread :: nat
  wstatus :: waiter_status

text \<open>The wait list of a condition variable holds nodes; all of them live in the kernel heap.\<close>

record cv =
  cv_waiters :: "nat list"
  nodes :: "nat \<rightharpoonup> waiter_node"

definition cv_init :: "(nat \<rightharpoonup> waiter_node) \<Rightarrow> cv" where
  "cv_init ns = \<lparr>cv_waiters = [], nodes = ns\<rparr>"

definition create_waiter_node :: "kst \<Rightarrow> cv \<Rightarrow> nat \<Rightarrow> (nat \<times> kst \<times> cv) option" where
  "create_waiter_node k c t =
     do { (n, m) \<leftarrow> sys_malloc_kernel (km k) 16;
          kassert (n \<noteq> 0);
          Some (n, k\<lparr>km := m\<rparr>, c\<lparr>nodes := (nodes c)(n \<mapsto> \<lparr>pthread = t, wstatus = WAITER_CREATED\<rparr>)\<rparr>) }"

definition release_waiter_node :: "kst \<Rightarrow> cv \<Rightarrow> nat \<Rightarrow> (kst \<times> cv) option" where
  "release_waiter_node k c n =
     do { m \<leftarrow> sys_free_kernel (km k) n; Some (k\<lparr>km := m\<rparr>, c\<lparr>nodes := (nodes c)(n := None)\<rparr>) }"

definition set_wstatus :: "cv \<Rightarrow> nat \<Rightarrow> waiter_status \<Rightarrow> cv option" where
  "set_wstatus c n w =
     do { x \<leftarrow> nodes c n; Some (c\<lparr>nodes := (nodes c)(n \<mapsto> x\<lparr>wstatus := w\<rparr>)\<rparr>) }"

definition has_locked :: "kst \<Rightarrow> lock \<Rightarrow> bool" where
  "has_locked k l \<longleftrightarrow> holder l = running k"

text \<open>\<open>cv_wait\<close>: entering, one round of its loop (true when it ends), and leaving.\<close>

definition cv_wait_enter :: "kst \<Rightarrow> lock \<Rightarrow> cv \<Rightarrow> (nat \<times> kst \<times> lock \<times> cv) option" where
  "cv_wait_enter k l c =
     do { kassert (has_locked k l);
          (n, k, c) \<leftarrow> create_waiter_node k c (running k);
          c \<leftarrow> set_wstatus (c\<lparr>cv_waiters := cv_waiters c @ [n]\<rparr>) n WAITER_QUEUED;
          (k, l) \<leftarrow> lock_release k l;
          Some (n, k, l, c) }"

definition cv_wait_round :: "kst \<Rightarrow> cv \<Rightarrow> nat \<Rightarrow> (bool \<times> kst \<times> cv) option" where
  "cv_wait_round k c n =
     do { x \<leftarrow> nodes c n;
          if wstatus x = WAITER_NOTIFIED then Some (True, k, c)
          else do { c \<leftarrow> set_wstatus c n WAITER_BLOCKED;
                    k \<leftarrow> thread_block (snd (intr_disable k)) TASK_BLOCKED;
                    Some (False, k, c) } }"

definition cv_wait_resumed :: "bool \<Rightarrow> kst \<Rightarrow> cv \<Rightarrow> nat \<Rightarrow> (bool \<times> kst \<times> cv) option" where
  "cv_wait_resumed old_status k c n = cv_wait_round (snd (intr_set_status k old_status)) c n"

definition cv_wait_leave :: "kst \<Rightarrow> cv \<Rightarrow> nat \<Rightarrow> (kst \<times> cv) option" where
  "cv_wait_leave k c n = release_waiter_node k c n"

definition notify_node :: "kst \<Rightarrow> cv \<Rightarrow> nat \<Rightarrow> (kst \<times> cv) option" where
  "notify_node k c n =
     (let (old_status, k) = intr_disable k in
      do { x \<leftarrow> nodes c n;
           k \<leftarrow> (if wstatus x = WAITER_BLOCKED then thread_unblock k (pthread x) else Some k);
           c \<leftarrow> set_wstatus c n WAITER_NOTIFIED;
           Some (snd (intr_set_status k old_status), c) })"

fun notify_loop :: "kst \<Rightarrow> cv \<Rightarrow> nat \<Rightarrow> (kst \<times> cv) option" where
  "notify_loop k c 0 = Some (k, c)"
| "notify_loop k c (Suc n) =
     (case cv_waiters c of [] \<Rightarrow> Some (k, c)
      | e # es \<Rightarrow> do { (k, c) \<leftarrow> notify_node k (c\<lparr>cv_waiters := es\<rparr>) e; notify_loop k c n })"

text \<open>The count is a positive \<open>int\<close>; \<open>cv_broadcast\<close> passes its largest value.\<close>

definition cv_notify :: "kst \<Rightarrow> lock \<Rightarrow> cv \<Rightarrow> nat \<Rightarrow> (kst \<times> cv) option" where
  "cv_notify k l c n = do { kassert (has_locked k l); notify_loop k c n }"

definition cv_notify_one :: "kst \<Rightarrow> lock \<Rightarrow> cv \<Rightarrow> (kst \<times> cv) option" where
  "cv_notify_one k l c = cv_notify k l c 1"

definition cv_broadcast :: "kst \<Rightarrow> lock \<Rightarrow> cv \<Rightarrow> (kst \<times> cv) option" where
  "cv_broadcast k l c = cv_notify k l c 2147483647"

section \<open>Threads around one lock\<close>

text \<open>
  Where a thread is: outside, inside \<open>sema_down\<close> after having blocked (with the interrupt flag
  to restore), holding the semaphore but not yet entered as holder, owning the lock, or in
  \<open>lock_release\<close> before its \<open>sema_up\<close>.
\<close>

datatype pc = Out | Down bool | Got | Own | Rel

record lsys =
  ks :: kst
  lk :: lock
  pc_of :: "nat \<Rightarrow> pc"

definition at_pc :: "lsys \<Rightarrow> pc \<Rightarrow> bool" where
  "at_pc S p \<longleftrightarrow> pc_of S (running (ks S)) = p"

definition move :: "lsys \<Rightarrow> kst \<Rightarrow> lock \<Rightarrow> pc \<Rightarrow> lsys" where
  "move S k l p = \<lparr>ks = k, lk = l, pc_of = (pc_of S)(running (ks S) := p)\<rparr>"

text \<open>
  The steps: each piece of \<open>lock_acquire\<close> and \<open>lock_release\<close> of the running thread, a timer
  interrupt between any two of them, and whatever else threads do (yield, wait for
  something else and be woken, the idle thread). The idle thread takes no lock.
\<close>

inductive lstep :: "lsys \<Rightarrow> lsys \<Rightarrow> bool" where
  take: "at_pc S Out \<Longrightarrow> running (ks S) \<noteq> idle_thread (ks S) \<Longrightarrow> holder (lk S) \<noteq> running (ks S) \<Longrightarrow>
    sema_down (ks S) (lsem (lk S)) = Some (True, k, s) \<Longrightarrow> lstep S (move S k ((lk S)\<lparr>lsem := s\<rparr>) Got)"
| block: "at_pc S Out \<Longrightarrow> running (ks S) \<noteq> idle_thread (ks S) \<Longrightarrow> holder (lk S) \<noteq> running (ks S) \<Longrightarrow>
    sema_down (ks S) (lsem (lk S)) = Some (False, k, s) \<Longrightarrow>
    lstep S (move S k ((lk S)\<lparr>lsem := s\<rparr>) (Down (intr_on (ks S))))"
| retake: "at_pc S (Down old) \<Longrightarrow> sema_down_resumed old (ks S) (lsem (lk S)) = Some (True, k, s) \<Longrightarrow>
    lstep S (move S k ((lk S)\<lparr>lsem := s\<rparr>) Got)"
| reblock: "at_pc S (Down old) \<Longrightarrow> sema_down_resumed old (ks S) (lsem (lk S)) = Some (False, k, s) \<Longrightarrow>
    lstep S (move S k ((lk S)\<lparr>lsem := s\<rparr>) (Down old))"
| got: "at_pc S Got \<Longrightarrow> lock_got (ks S) (lk S) = Some l \<Longrightarrow> lstep S (move S (ks S) l Own)"
| again: "at_pc S Own \<Longrightarrow> holder (lk S) = running (ks S) \<Longrightarrow> holder_repeat_nr (lk S) + 1 < 2 ^ 32 \<Longrightarrow>
    lstep S (move S (ks S) (lock_again (lk S)) Own)"
| keep: "at_pc S Own \<Longrightarrow> lock_drop (ks S) (lk S) = Some (False, l) \<Longrightarrow> lstep S (move S (ks S) l Own)"
| drop: "at_pc S Own \<Longrightarrow> lock_drop (ks S) (lk S) = Some (True, l) \<Longrightarrow> lstep S (move S (ks S) l Rel)"
| up: "at_pc S Rel \<Longrightarrow> sema_up (ks S) (lsem (lk S)) = Some (k, s) \<Longrightarrow>
    lstep S (move S k ((lk S)\<lparr>lsem := s\<rparr>) Out)"
| tick: "intr_on (ks S) \<Longrightarrow> intr_timer_handler (ks S) n = Some (n', k) \<Longrightarrow> lstep S (S\<lparr>ks := k\<rparr>)"
| yield: "thread_yield (ks S) = Some k \<Longrightarrow> lstep S (S\<lparr>ks := k\<rparr>)"
| wait: "at_pc S Out \<or> at_pc S Own \<Longrightarrow> running (ks S) \<noteq> idle_thread (ks S) \<Longrightarrow>
    thread_block (ks S) TASK_WAITING = Some k \<Longrightarrow> lstep S (S\<lparr>ks := k\<rparr>)"
| wake: "asleep (ks S) t TASK_WAITING \<Longrightarrow> thread_unblock (ks S) t = Some k \<Longrightarrow> lstep S (S\<lparr>ks := k\<rparr>)"
| idle: "running (ks S) = idle_thread (ks S) \<Longrightarrow> idle_step (ks S) = Some k \<Longrightarrow> lstep S (S\<lparr>ks := k\<rparr>)"

inductive lreach :: "lsys \<Rightarrow> lsys \<Rightarrow> bool" for S0 :: lsys where
  start: "lreach S0 S0"
| step: "lreach S0 S \<Longrightarrow> lstep S T \<Longrightarrow> lreach S0 T"

text \<open>Initially the lock is as \<open>lock_init\<close> leaves it, and every thread is outside.\<close>

definition lock_start :: "kst \<Rightarrow> lsys" where
  "lock_start k = \<lparr>ks = k, lk = lock_init, pc_of = (\<lambda>_. Out)\<rparr>"

section \<open>The invariant of a lock\<close>

definition inside :: "lsys \<Rightarrow> nat \<Rightarrow> bool" where
  "inside S t \<longleftrightarrow> pc_of S t \<in> {Got, Own, Rel}"

definition in_down :: "lsys \<Rightarrow> nat \<Rightarrow> bool" where
  "in_down S t \<longleftrightarrow> (\<exists>old. pc_of S t = Down old)"

definition runnable :: "kst \<Rightarrow> nat set" where
  "runnable k = set (running k # thread_ready_list k)"

definition sem_inv :: "lsys \<Rightarrow> bool" where
  "sem_inv S \<longleftrightarrow> (let v = sem_value (lsem (lk S)) in
     v \<le> 1 \<and> (\<forall>t u. inside S t \<longrightarrow> inside S u \<longrightarrow> t = u) \<and> (v = 0 \<longleftrightarrow> (\<exists>t. inside S t)))"

definition wait_inv :: "lsys \<Rightarrow> bool" where
  "wait_inv S \<longleftrightarrow> (let ws = waiters (lsem (lk S)) in
     distinct ws \<and> (\<forall>t\<in>set ws. asleep (ks S) t TASK_BLOCKED \<and> in_down S t) \<and>
     (\<forall>t. in_down S t \<longrightarrow> t \<in> set ws \<or> t \<in> runnable (ks S)) \<and>
     (sem_value (lsem (lk S)) = 1 \<longrightarrow> ws \<noteq> [] \<longrightarrow> (\<exists>t. in_down S t \<and> t \<notin> set ws)))"

definition holder_inv :: "lsys \<Rightarrow> bool" where
  "holder_inv S \<longleftrightarrow> (\<forall>t. pc_of S t = Own \<longrightarrow> holder (lk S) = t) \<and>
     (holder (lk S) \<noteq> 0 \<longrightarrow> pc_of S (holder (lk S)) = Own \<and> 1 \<le> holder_repeat_nr (lk S)) \<and>
     (holder (lk S) = 0 \<longrightarrow> holder_repeat_nr (lk S) = 0)"

definition env_inv :: "nat set \<Rightarrow> lsys \<Rightarrow> bool" where
  "env_inv D S \<longleftrightarrow> sched_inv (ks S) D \<and> tasks (ks S) 0 = None \<and> pc_of S (idle_thread (ks S)) = Out"

definition lock_inv :: "nat set \<Rightarrow> lsys \<Rightarrow> bool" where
  "lock_inv D S \<longleftrightarrow> env_inv D S \<and> sem_inv S \<and> wait_inv S \<and> holder_inv S"

lemma runnable_awake:
  assumes "sched_inv k D"
  shows "t \<in> runnable k \<longleftrightarrow> map_option status (tasks k t) \<in> {Some TASK_RUNNING, Some TASK_READY}"
  using assms by (auto simp: runnable_def sched_inv_def sched_wf_def)

lemma sched_inv_intr [simp]: "sched_inv (k\<lparr>intr_on := b\<rparr>) D = sched_inv k D"
  by (simp add: sched_inv_def sched_wf_def spaces_ok_def)

lemma lock_start_inv: "sched_inv k D \<Longrightarrow> tasks k 0 = None \<Longrightarrow> lock_inv D (lock_start k)"
  by (simp add: lock_inv_def env_inv_def sem_inv_def wait_inv_def holder_inv_def lock_start_def lock_init_def
      sema_init_def inside_def in_down_def w8_def)

section \<open>Every step keeps it\<close>

lemma intr_disable_upd: "intr_disable k = (intr_on k, k\<lparr>intr_on := False\<rparr>)"
  by (cases k) (simp add: intr_disable_def)

lemma intr_set_status_upd: "snd (intr_set_status k b) = k\<lparr>intr_on := b\<rparr>"
  by (cases k) (simp add: intr_set_status_def intr_disable_def intr_enable_def)

lemma sema_round_cases:
  assumes "sema_round k s = Some (done, k', s')"
  shows "if done then sem_value s = 1 \<and> k' = k \<and> s' = s\<lparr>sem_value := 0\<rparr>
    else sem_value s = 0 \<and> running k \<notin> set (waiters s) \<and> thread_block k TASK_BLOCKED = Some k' \<and>
      s' = s\<lparr>waiters := waiters s @ [running k]\<rparr>"
  using assms by (auto simp: sema_round_def split: if_splits bind_splits)

lemma sema_leave_cases:
  assumes "map_option (sema_leave old) (sema_round k s) = Some (done, k', s')"
  shows "if done then sem_value s = 1 \<and> k' = k\<lparr>intr_on := old\<rparr> \<and> s' = s\<lparr>sem_value := 0\<rparr>
    else sem_value s = 0 \<and> running k \<notin> set (waiters s) \<and> thread_block k TASK_BLOCKED = Some k' \<and>
      s' = s\<lparr>waiters := waiters s @ [running k]\<rparr>"
  using assms by (auto simp: sema_leave_def intr_set_status_upd dest!: sema_round_cases split: if_splits)

lemmas sema_cases = sema_leave_cases [folded sema_down_resumed_def]

lemma sema_down_is_resumed: "sema_down k s = sema_down_resumed (intr_on k) (k\<lparr>intr_on := False\<rparr>) s"
  by (simp add: sema_down_def sema_down_resumed_def intr_disable_upd)

lemma inside_move: "inside (move S k l p) t \<longleftrightarrow> (if t = running (ks S) then p \<in> {Got, Own, Rel} else inside S t)"
  by (simp add: inside_def move_def)

lemma in_down_move: "in_down (move S k l p) t \<longleftrightarrow> (if t = running (ks S) then \<exists>old. p = Down old else in_down S t)"
  by (simp add: in_down_def move_def)

lemma move_sel [simp]: "ks (move S k l p) = k" "lk (move S k l p) = l"
  "pc_of (move S k l p) = (pc_of S)(running (ks S) := p)"
  by (simp_all add: move_def)

lemma running_runnable: "running k \<in> runnable k"
  by (simp add: runnable_def)

lemma not_asleep_running: "sched_inv k D \<Longrightarrow> \<not> asleep k (running k) s"
  by (auto simp: asleep_def sched_inv_def)

text \<open>A waiter is asleep, so the running thread is none.\<close>

lemma running_no_waiter: "lock_inv D S \<Longrightarrow> running (ks S) \<notin> set (waiters (lsem (lk S)))"
  using not_asleep_running by (auto simp: lock_inv_def wait_inv_def env_inv_def Let_def)

text \<open>The semaphore is taken.\<close>

lemma take_inv:
  assumes inv: "lock_inv D S" and v: "sem_value (lsem (lk S)) = 1"
    and out: "pc_of S (running (ks S)) = Out \<or> in_down S (running (ks S))"
    and ni: "running (ks S) \<noteq> idle_thread (ks S)"
  shows "lock_inv D (move S ((ks S)\<lparr>intr_on := b\<rparr>) ((lk S)\<lparr>lsem := (lsem (lk S))\<lparr>sem_value := 0\<rparr>\<rparr>) Got)"
proof -
  let ?T = "move S ((ks S)\<lparr>intr_on := b\<rparr>) ((lk S)\<lparr>lsem := (lsem (lk S))\<lparr>sem_value := 0\<rparr>\<rparr>) Got"
  have none: "\<not> inside S t" for t using inv v by (auto simp: lock_inv_def sem_inv_def Let_def)
  then have "sem_inv ?T" by (simp add: sem_inv_def inside_move)
  moreover have "wait_inv ?T"
    using inv running_no_waiter [OF inv]
    by (auto simp: lock_inv_def wait_inv_def in_down_move asleep_def runnable_def Let_def)
  moreover have "holder_inv ?T"
    using inv out none [of "running (ks S)"] by (auto simp: lock_inv_def holder_inv_def in_down_def)
  moreover have "env_inv D ?T" using inv ni by (simp add: lock_inv_def env_inv_def)
  ultimately show ?thesis by (simp add: lock_inv_def)
qed

text \<open>The running thread queues up and sleeps.\<close>

lemma block_inv:
  assumes inv: "lock_inv D S" and v: "sem_value (lsem (lk S)) = 0"
    and out: "pc_of S (running (ks S)) = Out \<or> in_down S (running (ks S))"
    and ni: "running (ks S) \<noteq> idle_thread (ks S)"
    and blk: "thread_block ((ks S)\<lparr>intr_on := b\<rparr>) TASK_BLOCKED = Some k'"
  shows "lock_inv D (move S k' ((lk S)\<lparr>lsem := (lsem (lk S))\<lparr>waiters := waiters (lsem (lk S)) @ [running (ks S)]\<rparr>\<rparr>) (Down old))"
proof -
  let ?l = "(lk S)\<lparr>lsem := (lsem (lk S))\<lparr>waiters := waiters (lsem (lk S)) @ [running (ks S)]\<rparr>\<rparr>"
  let ?T = "move S k' ?l (Down old)"
  have si: "sched_inv (ks S) D" using inv by (simp add: lock_inv_def env_inv_def)
  then have "sched_inv ((ks S)\<lparr>intr_on := b\<rparr>) D" by simp
  from thread_block_ok [OF this, of TASK_BLOCKED] blk ni have k':
    "sched_inv k' D" "same_env ((ks S)\<lparr>intr_on := b\<rparr>) k'" "keeps_asleep ((ks S)\<lparr>intr_on := b\<rparr>) k'"
    "running k' # thread_ready_list k' = (if thread_ready_list (ks S) = [] then [idle_thread (ks S)] else thread_ready_list (ks S))"
    "asleep k' (running (ks S)) TASK_BLOCKED" by auto
  have idle: "idle_thread k' = idle_thread (ks S)" using k'(2) by (simp add: same_env_def)
  have run: "runnable (ks S) \<subseteq> insert (running (ks S)) (runnable k')"
    unfolding runnable_def k'(4) by auto
  have sl: "asleep k' t s" if "asleep (ks S) t s" "pc_of S t \<noteq> Out" for t s
  proof -
    have "t \<noteq> idle_thread (ks S)" using inv that(2) by (auto simp: lock_inv_def env_inv_def)
    with k'(3) that(1) show ?thesis by (simp add: keeps_asleep_def asleep_def)
  qed
  have "inside ?T = inside S"
    using out by (intro ext) (auto simp: inside_move in_down_def inside_def)
  then have "sem_inv ?T" using inv by (simp add: lock_inv_def sem_inv_def)
  moreover have "wait_inv ?T"
    using inv running_no_waiter [OF inv] sl k'(5) run v
    by (auto simp: lock_inv_def wait_inv_def in_down_move Let_def) (auto simp: in_down_def)
  moreover have "holder_inv ?T"
    using inv out by (auto simp: lock_inv_def holder_inv_def in_down_def)
  moreover have "env_inv D ?T"
  proof -
    have "tasks k' 0 = None" using inv k'(2)
      by (auto simp: lock_inv_def env_inv_def same_env_def tasks_frame_def dest!: spec [of _ 0])
    with k'(1) idle inv ni show ?thesis by (simp add: lock_inv_def env_inv_def)
  qed
  ultimately show ?thesis by (simp add: lock_inv_def)
qed

text \<open>Steps that leave the lock and the places of the threads alone.\<close>

lemma env_step_inv:
  assumes inv: "lock_inv D S" and si: "sched_inv k' D" and env: "same_env (ks S) k'"
    and sl: "\<And>t. asleep (ks S) t TASK_BLOCKED \<Longrightarrow> t \<noteq> idle_thread (ks S) \<Longrightarrow> asleep k' t TASK_BLOCKED"
    and run: "\<And>t. t \<in> runnable (ks S) \<Longrightarrow> in_down S t \<Longrightarrow> t \<in> runnable k'"
  shows "lock_inv D (S\<lparr>ks := k'\<rparr>)"
proof -
  have idle: "t \<noteq> idle_thread (ks S)" if "in_down S t" for t
    using inv that by (auto simp: lock_inv_def env_inv_def in_down_def)
  have [simp]: "inside (S\<lparr>ks := k'\<rparr>) = inside S" "in_down (S\<lparr>ks := k'\<rparr>) = in_down S"
    by (simp_all add: inside_def in_down_def fun_eq_iff)
  have "tasks k' 0 = None" using inv env
    by (auto simp: lock_inv_def env_inv_def same_env_def tasks_frame_def dest!: spec [of _ 0])
  then have "env_inv D (S\<lparr>ks := k'\<rparr>)" using inv si env by (simp add: lock_inv_def env_inv_def same_env_def)
  moreover have "wait_inv (S\<lparr>ks := k'\<rparr>)"
    using inv sl run idle by (auto simp: lock_inv_def wait_inv_def Let_def)
  moreover have "sem_inv (S\<lparr>ks := k'\<rparr>)" "holder_inv (S\<lparr>ks := k'\<rparr>)"
    using inv by (simp_all add: lock_inv_def sem_inv_def holder_inv_def)
  ultimately show ?thesis by (simp add: lock_inv_def)
qed

text \<open>Steps of the owner on the holder fields.\<close>

lemma owner_step_inv:
  assumes inv: "lock_inv D S" and t: "inside S (running (ks S))" and p: "p \<in> {Got, Own, Rel}"
    and l: "lsem l = lsem (lk S)"
    and h: "if p = Own then holder l = running (ks S) \<and> 1 \<le> holder_repeat_nr l else holder l = 0 \<and> holder_repeat_nr l = 0"
  shows "lock_inv D (move S (ks S) l p)"
proof -
  let ?T = "move S (ks S) l p"
  have ins: "inside ?T = inside S" using t p by (auto simp: inside_move fun_eq_iff)
  have dn: "in_down ?T = in_down S" using t p by (auto simp: in_down_move in_down_def inside_def fun_eq_iff)
  have only: "u = running (ks S)" if "inside S u" for u
    using inv t that by (auto simp: lock_inv_def sem_inv_def Let_def)
  have "sem_inv ?T" "wait_inv ?T" using inv by (simp_all add: lock_inv_def sem_inv_def wait_inv_def ins dn l)
  moreover have own: "pc_of S u \<noteq> Own" if "u \<noteq> running (ks S)" for u
    using only [of u] that by (auto simp: inside_def)
  moreover have "running (ks S) \<noteq> 0"
  proof
    assume "running (ks S) = 0"
    with inv show False by (auto simp: lock_inv_def env_inv_def sched_inv_def)
  qed
  then have "holder_inv ?T" using h own by (auto simp: holder_inv_def split: if_splits)
  moreover have "running (ks S) \<noteq> idle_thread (ks S)"
    using inv t by (auto simp: lock_inv_def env_inv_def inside_def)
  then have "env_inv D ?T" using inv by (simp add: lock_inv_def env_inv_def)
  ultimately show ?thesis by (simp add: lock_inv_def)
qed

lemma take_one_Cons [simp]: "take 1 (x # xs) = [x]"
  by (simp add: One_nat_def)

text \<open>The semaphore is given back, and the first waiter wakes.\<close>

lemma sema_up_ok:
  assumes inv: "lock_inv D S" and v: "sem_value (lsem (lk S)) = 0"
  shows "\<exists>k s. sema_up (ks S) (lsem (lk S)) = Some (k, s) \<and> sem_value s = 1 \<and>
    waiters s = tl (waiters (lsem (lk S))) \<and> sched_inv k D \<and> same_env (ks S) k \<and> running k = running (ks S) \<and>
    thread_ready_list k = take 1 (waiters (lsem (lk S))) @ thread_ready_list (ks S) \<and>
    (\<forall>t s. t \<notin> set (take 1 (waiters (lsem (lk S)))) \<longrightarrow> asleep (ks S) t s \<longrightarrow> asleep k t s)"
proof (cases "waiters (lsem (lk S))")
  case Nil
  with v inv show ?thesis
    by (simp add: sema_up_def intr_disable_upd intr_set_status_upd w8_def lock_inv_def env_inv_def same_env_def asleep_def)
next
  case (Cons w ws)
  have si: "sched_inv ((ks S)\<lparr>intr_on := False\<rparr>) D" using inv by (simp add: lock_inv_def env_inv_def)
  have "asleep (ks S) w TASK_BLOCKED" using inv Cons by (simp add: lock_inv_def wait_inv_def Let_def)
  then obtain x where "tasks ((ks S)\<lparr>intr_on := False\<rparr>) w = Some x" "status x = TASK_BLOCKED" by (auto simp: asleep_def)
  with thread_unblock_inv [OF si, of w x] obtain k where k: "thread_unblock ((ks S)\<lparr>intr_on := False\<rparr>) w = Some k"
    "sched_inv k D" "same_env ((ks S)\<lparr>intr_on := False\<rparr>) k" "running k = running (ks S)"
    "thread_ready_list k = w # thread_ready_list (ks S)" "tasks k = (tasks (ks S))(w \<mapsto> x\<lparr>status := TASK_READY\<rparr>)" by auto
  with v Cons show ?thesis
    by (simp add: sema_up_def intr_disable_upd intr_set_status_upd w8_def same_env_def asleep_def)
qed

lemma up_inv:
  assumes inv: "lock_inv D S" and rel: "at_pc S Rel"
    and up: "sema_up (ks S) (lsem (lk S)) = Some (k, s)"
  shows "lock_inv D (move S k ((lk S)\<lparr>lsem := s\<rparr>) Out)"
proof -
  let ?T = "move S k ((lk S)\<lparr>lsem := s\<rparr>) Out"
  let ?ws = "waiters (lsem (lk S))"
  have ins: "inside S (running (ks S))" using rel by (simp add: inside_def at_pc_def)
  then have v: "sem_value (lsem (lk S)) = 0" using inv by (auto simp: lock_inv_def sem_inv_def Let_def)
  from sema_up_ok [OF inv v] up have u: "sem_value s = 1" "waiters s = tl ?ws" "sched_inv k D" "same_env (ks S) k"
    "running k = running (ks S)" "thread_ready_list k = take 1 ?ws @ thread_ready_list (ks S)"
    "\<And>t s. t \<notin> set (take 1 ?ws) \<Longrightarrow> asleep (ks S) t s \<Longrightarrow> asleep k t s" by auto
  have "\<not> inside ?T t" for t using inv ins by (auto simp: inside_move lock_inv_def sem_inv_def Let_def)
  then have "sem_inv ?T" using u by (simp add: sem_inv_def)
  moreover have "wait_inv ?T"
  proof -
    have dn: "in_down ?T = in_down S" using rel by (auto simp: in_down_move in_down_def at_pc_def fun_eq_iff)
    have run: "runnable k = set (take 1 ?ws) \<union> runnable (ks S)" using u(5,6) by (auto simp: runnable_def)
    show ?thesis
    proof (cases ?ws)
      case Nil
      with inv u run dn show ?thesis by (auto simp: lock_inv_def wait_inv_def Let_def)
    next
      case (Cons w ws)
      have "asleep k t TASK_BLOCKED" if "t \<in> set ws" for t
        using inv that Cons u(7) [of t TASK_BLOCKED] by (auto simp: lock_inv_def wait_inv_def Let_def)
      with inv u(1,2) Cons run dn show ?thesis by (auto simp: lock_inv_def wait_inv_def Let_def)
    qed
  qed
  moreover have "holder_inv ?T" using inv rel by (auto simp: lock_inv_def holder_inv_def at_pc_def)
  moreover have "env_inv D ?T"
  proof -
    have "tasks k 0 = None" using inv u(4)
      by (auto simp: lock_inv_def env_inv_def same_env_def tasks_frame_def dest!: spec [of _ 0])
    with inv u(3,4) show ?thesis by (simp add: lock_inv_def env_inv_def same_env_def)
  qed
  ultimately show ?thesis by (simp add: lock_inv_def)
qed

lemma down_not_idle: "lock_inv D S \<Longrightarrow> at_pc S (Down old) \<Longrightarrow> running (ks S) \<noteq> idle_thread (ks S)"
  by (auto simp: lock_inv_def env_inv_def at_pc_def)

lemma sched_of: "lock_inv D S \<Longrightarrow> sched_inv (ks S) D"
  by (simp add: lock_inv_def env_inv_def)

lemma keeps_asleepD: "keeps_asleep k k' \<Longrightarrow> asleep k t s \<Longrightarrow> t \<noteq> idle_thread k \<Longrightarrow> asleep k' t s"
  by (simp add: keeps_asleep_def)

lemma lstep_inv:
  assumes "lstep S T" and "lock_inv D S"
  shows "lock_inv D T"
  using assms
proof (induction rule: lstep.induct)
  case (take S k s)
  from sema_cases [OF take(4) [unfolded sema_down_is_resumed]]
  have "sem_value (lsem (lk S)) = 1" "k = (ks S)\<lparr>intr_on := intr_on (ks S)\<rparr>" "s = (lsem (lk S))\<lparr>sem_value := 0\<rparr>" by auto
  with take_inv [OF take(5) _ _ take(2), of "intr_on (ks S)"] take(1) show ?case by (auto simp: at_pc_def)
next
  case (block S k s)
  from sema_cases [OF block(4) [unfolded sema_down_is_resumed]]
  have b: "sem_value (lsem (lk S)) = 0" "thread_block ((ks S)\<lparr>intr_on := False\<rparr>) TASK_BLOCKED = Some k"
    "s = (lsem (lk S))\<lparr>waiters := waiters (lsem (lk S)) @ [running (ks S)]\<rparr>" by auto
  show ?case unfolding b(3)
    by (rule block_inv [OF block(5) b(1) _ block(2) b(2)]) (use block(1) in \<open>simp add: at_pc_def\<close>)
next
  case (retake S old k s)
  from sema_cases [OF retake(2)]
  have "sem_value (lsem (lk S)) = 1" "k = (ks S)\<lparr>intr_on := old\<rparr>" "s = (lsem (lk S))\<lparr>sem_value := 0\<rparr>" by auto
  with take_inv [OF retake(3) _ _ down_not_idle [OF retake(3,1)], of old] retake(1)
  show ?case by (auto simp: at_pc_def in_down_def)
next
  case (reblock S old k s)
  from sema_cases [OF reblock(2)]
  have b: "sem_value (lsem (lk S)) = 0" "thread_block ((ks S)\<lparr>intr_on := intr_on (ks S)\<rparr>) TASK_BLOCKED = Some k"
    "s = (lsem (lk S))\<lparr>waiters := waiters (lsem (lk S)) @ [running (ks S)]\<rparr>" by auto
  show ?case unfolding b(3)
    by (rule block_inv [OF reblock(3) b(1) _ down_not_idle [OF reblock(3,1)] b(2)])
      (use reblock(1) in \<open>simp add: at_pc_def in_down_def\<close>)
next
  case (got S l)
  then show ?case
    by (intro owner_step_inv) (auto simp: inside_def at_pc_def lock_got_def split: bind_splits)
next
  case (again S)
  then show ?case
    by (intro owner_step_inv) (auto simp: inside_def at_pc_def lock_again_def w32_def)
next
  case (keep S l)
  then show ?case
    by (intro owner_step_inv) (auto simp: inside_def at_pc_def lock_drop_def split: if_splits bind_splits)
next
  case (drop S l)
  then show ?case
    by (intro owner_step_inv) (auto simp: inside_def at_pc_def lock_drop_def split: if_splits bind_splits)
next
  case (up S k s)
  from up_inv [OF up(3,1,2)] show ?case .
next
  case (tick S n n' k)
  from sched_of [OF tick(3)] obtain x where "tasks (ks S) (running (ks S)) = Some x" by (auto simp: sched_inv_def)
  from intr_timer_ok [OF sched_of [OF tick(3)] this, of n] tick(2) have k:
    "sched_inv k D" "same_env (ks S) k" "keeps_asleep (ks S) k"
    "running k # thread_ready_list k = (if ticks x = 0 then thread_ready_list (ks S) @ [running (ks S)]
       else running (ks S) # thread_ready_list (ks S))" by auto
  show ?case
    by (rule env_step_inv [OF tick(3) k(1,2)]) (auto dest: keeps_asleepD [OF k(3)] simp: runnable_def k(4))
next
  case (yield S k)
  from thread_yield_ok [OF sched_of [OF yield(2)]] yield(1) have k:
    "sched_inv k D" "same_env (ks S) k" "keeps_asleep (ks S) k"
    "running k # thread_ready_list k = thread_ready_list (ks S) @ [running (ks S)]" by auto
  show ?case
    by (rule env_step_inv [OF yield(2) k(1,2)]) (auto dest: keeps_asleepD [OF k(3)] simp: runnable_def k(4))
next
  case (wait S k)
  from thread_block_ok [OF sched_of [OF wait(4)], of TASK_WAITING] wait(3) have k:
    "sched_inv k D" "same_env (ks S) k" "keeps_asleep (ks S) k"
    "running k # thread_ready_list k =
       (if thread_ready_list (ks S) = [] then [idle_thread (ks S)] else thread_ready_list (ks S))" by auto
  show ?case
    by (rule env_step_inv [OF wait(4) k(1,2)])
      (use wait(1) in \<open>auto dest: keeps_asleepD [OF k(3)] simp: runnable_def k(4) at_pc_def in_down_def\<close>)
next
  case (wake S t k)
  then obtain x where x: "tasks (ks S) t = Some x" "status x = TASK_WAITING" by (auto simp: asleep_def)
  from thread_unblock_inv [OF sched_of [OF wake(3)] x(1)] x(2) wake(2) have k:
    "sched_inv k D" "same_env (ks S) k" "running k = running (ks S)"
    "thread_ready_list k = t # thread_ready_list (ks S)" "tasks k = (tasks (ks S))(t \<mapsto> x\<lparr>status := TASK_READY\<rparr>)" by auto
  show ?case
    by (rule env_step_inv [OF wake(3) k(1,2)]) (use x in \<open>auto simp: runnable_def k(3-5) asleep_def\<close>)
next
  case (idle S k)
  from thread_block_ok [OF sched_of [OF idle(3)], of TASK_BLOCKED] idle(2) have k:
    "sched_inv k D" "same_env (ks S) k" "keeps_asleep (ks S) k"
    "running k # thread_ready_list k =
       (if thread_ready_list (ks S) = [] then [idle_thread (ks S)] else thread_ready_list (ks S))"
    by (auto simp: idle_step_def)
  have "\<not> in_down S (running (ks S))" using idle by (auto simp: lock_inv_def env_inv_def in_down_def)
  then show ?case
    by (intro env_step_inv [OF idle(3) k(1,2)]) (auto dest: keeps_asleepD [OF k(3)] simp: runnable_def k(4))
qed

lemma lreach_inv:
  assumes "lreach (lock_start k) S" and "sched_inv k D" and "tasks k 0 = None"
  shows "lock_inv D S"
  using assms(1)
proof induction
  case start
  from lock_start_inv [OF assms(2,3)] show ?case .
next
  case (step S T)
  then show ?case by (blast intro: lstep_inv)
qed

section \<open>Condition variables wake in order\<close>

text \<open>
  What holds of the nodes on the list: each is of a thread of its own, which is asleep if it
  has marked its node \<open>WAITER_BLOCKED\<close> and has not yet blocked otherwise.
\<close>

definition node_ok :: "kst \<Rightarrow> waiter_node \<Rightarrow> bool" where
  "node_ok k x \<longleftrightarrow> wstatus x = WAITER_BLOCKED \<and> asleep k (pthread x) TASK_BLOCKED \<or> wstatus x = WAITER_QUEUED"

definition cv_inv :: "kst \<Rightarrow> cv \<Rightarrow> bool" where
  "cv_inv k c \<longleftrightarrow> distinct (cv_waiters c) \<and>
     (\<forall>n\<in>set (cv_waiters c). \<exists>x. nodes c n = Some x \<and> node_ok k x) \<and>
     inj_on (\<lambda>n. map_option pthread (nodes c n)) (set (cv_waiters c))"

definition notified :: "kst \<Rightarrow> cv \<Rightarrow> nat \<Rightarrow> bool" where
  "notified k c n \<longleftrightarrow> (\<exists>x. nodes c n = Some x \<and> wstatus x = WAITER_NOTIFIED)"

lemma notify_node_ok:
  assumes si: "sched_inv k D" and ci: "cv_inv k c" and n: "cv_waiters c = n # ns"
  shows "\<exists>k' x y. notify_node k (c\<lparr>cv_waiters := ns\<rparr>) n = Some (k', c\<lparr>cv_waiters := ns, nodes := (nodes c)(n \<mapsto> y)\<rparr>) \<and>
    nodes c n = Some x \<and> wstatus y = WAITER_NOTIFIED \<and> pthread y = pthread x \<and>
    sched_inv k' D \<and> running k' = running k \<and> runnable k \<subseteq> runnable k' \<and>
    (wstatus x = WAITER_BLOCKED \<longrightarrow> pthread x \<in> runnable k') \<and>
    (\<forall>t s. t \<noteq> pthread x \<longrightarrow> asleep k t s \<longrightarrow> asleep k' t s)"
proof -
  from ci n obtain x where x: "nodes c n = Some x" "node_ok k x" by (auto simp: cv_inv_def)
  let ?y = "x\<lparr>wstatus := WAITER_NOTIFIED\<rparr>"
  have si': "sched_inv (k\<lparr>intr_on := False\<rparr>) D" using si by simp
  show ?thesis
  proof (cases "wstatus x = WAITER_BLOCKED")
    case True
    with x(2) obtain z where z: "tasks k (pthread x) = Some z" "status z = TASK_BLOCKED"
      by (auto simp: node_ok_def asleep_def)
    with thread_unblock_inv [OF si', of "pthread x" z] obtain k' where k':
      "thread_unblock (k\<lparr>intr_on := False\<rparr>) (pthread x) = Some k'" "sched_inv k' D" "running k' = running k"
      "thread_ready_list k' = pthread x # thread_ready_list k" "tasks k' = (tasks k)(pthread x \<mapsto> z\<lparr>status := TASK_READY\<rparr>)"
      by auto
    with True x(1) show ?thesis
      by (intro exI [of _ "k'\<lparr>intr_on := intr_on k\<rparr>"] exI [of _ x] exI [of _ ?y])
        (auto simp: notify_node_def intr_disable_upd intr_set_status_upd set_wstatus_def runnable_def asleep_def)
  next
    case False
    with x(1) si show ?thesis
      by (intro exI [of _ k] exI [of _ x] exI [of _ ?y])
        (cases k, simp add: notify_node_def intr_disable_upd intr_set_status_upd set_wstatus_def)
  qed
qed

lemma notify_loop_ok:
  assumes "sched_inv k D" and "cv_inv k c"
  shows "\<exists>k' c'. notify_loop k c m = Some (k', c') \<and> sched_inv k' D \<and> cv_inv k' c' \<and>
    cv_waiters c' = drop m (cv_waiters c) \<and> running k' = running k \<and> runnable k \<subseteq> runnable k' \<and>
    (\<forall>n\<in>set (take m (cv_waiters c)). notified k' c' n \<and>
       (\<forall>x. nodes c n = Some x \<longrightarrow> wstatus x = WAITER_BLOCKED \<longrightarrow> pthread x \<in> runnable k')) \<and>
    (\<forall>n. n \<notin> set (take m (cv_waiters c)) \<longrightarrow> nodes c' n = nodes c n)"
  using assms
proof (induction m arbitrary: k c)
  case 0
  then show ?case by simp
next
  case (Suc m)
  show ?case
  proof (cases "cv_waiters c")
    case Nil
    with Suc.prems show ?thesis by simp
  next
    case (Cons n ns)
    from notify_node_ok [OF Suc.prems Cons] obtain k1 x y where k1:
      "notify_node k (c\<lparr>cv_waiters := ns\<rparr>) n = Some (k1, c\<lparr>cv_waiters := ns, nodes := (nodes c)(n \<mapsto> y)\<rparr>)"
      "nodes c n = Some x" "wstatus y = WAITER_NOTIFIED" "sched_inv k1 D" "running k1 = running k"
      "runnable k \<subseteq> runnable k1" "wstatus x = WAITER_BLOCKED \<longrightarrow> pthread x \<in> runnable k1"
      "\<And>t s. t \<noteq> pthread x \<Longrightarrow> asleep k t s \<Longrightarrow> asleep k1 t s" by blast
    let ?c = "c\<lparr>cv_waiters := ns, nodes := (nodes c)(n \<mapsto> y)\<rparr>"
    have dist: "n \<notin> set ns" "distinct ns" using Suc.prems(2) Cons by (auto simp: cv_inv_def)
    have ci: "cv_inv k1 ?c"
    proof -
      have "\<exists>z. nodes c a = Some z \<and> node_ok k1 z" if "a \<in> set ns" for a
      proof -
        from Suc.prems(2) Cons that obtain z where z: "nodes c a = Some z" "node_ok k z" by (auto simp: cv_inv_def)
        have "a \<noteq> n" using dist that by auto
        with Suc.prems(2) Cons that z(1) k1(2) have "pthread z \<noteq> pthread x"
          by (auto simp: cv_inv_def inj_on_def)
        with z k1(8) show ?thesis by (auto simp: node_ok_def)
      qed
      moreover have "inj_on (\<lambda>a. map_option pthread (nodes c a)) (set ns)"
        using Suc.prems(2) Cons by (auto simp: cv_inv_def inj_on_def)
      ultimately show ?thesis using dist by (auto simp: cv_inv_def inj_on_def split: if_splits)
    qed
    from Suc.IH [OF k1(4) ci] obtain k' c' where k':
      "notify_loop k1 ?c m = Some (k', c')" "sched_inv k' D" "cv_inv k' c'" "cv_waiters c' = drop m ns"
      "running k' = running k1" "runnable k1 \<subseteq> runnable k'"
      "\<forall>a\<in>set (take m ns). notified k' c' a \<and>
         (\<forall>x. nodes ?c a = Some x \<longrightarrow> wstatus x = WAITER_BLOCKED \<longrightarrow> pthread x \<in> runnable k')"
      "\<forall>a. a \<notin> set (take m ns) \<longrightarrow> nodes c' a = nodes ?c a" by auto
    have n': "n \<notin> set (take m ns)" using dist set_take_subset [of m ns] by auto
    have "nodes c' n = Some y" using k'(8) n' by simp
    then have "notified k' c' n" using k1(3) by (simp add: notified_def)
    moreover have "nodes ?c a = nodes c a" if "a \<in> set (take m ns)" for a using that n' by auto
    ultimately show ?thesis using k' k1 Cons
      by (intro exI [of _ k'] exI [of _ c']) auto
  qed
qed

lemma cv_wait_round_notified:
  "notified k c n \<Longrightarrow> cv_wait_round k' c n = Some (True, k', c)"
  by (auto simp: notified_def cv_wait_round_def)

section \<open>Properties\<close>

lemma sema_round_ok:
  assumes inv: "lock_inv D S" and p: "running (ks S) \<noteq> idle_thread (ks S)"
  shows "sema_round ((ks S)\<lparr>intr_on := b\<rparr>) (lsem (lk S)) \<noteq> None"
proof (cases "sem_value (lsem (lk S)) = 0")
  case True
  have "sched_inv ((ks S)\<lparr>intr_on := b\<rparr>) D" using inv by (simp add: lock_inv_def env_inv_def)
  from thread_block_ok [OF this, of TASK_BLOCKED] obtain k' where
    "thread_block ((ks S)\<lparr>intr_on := b\<rparr>) TASK_BLOCKED = Some k'" by blast
  with True running_no_waiter [OF inv] show ?thesis by (simp add: sema_round_def)
next
  case False
  with inv have "sem_value (lsem (lk S)) = 1" by (auto simp: lock_inv_def sem_inv_def Let_def)
  then show ?thesis by (simp add: sema_round_def)
qed

text \<open>
  Property C3. Whatever the timer and the other threads do, at most one thread is inside
  the lock, and no wakeup is lost: while the lock is free and threads wait for it, one of
  them is runnable and will try again.
\<close>

theorem lock_mutual_exclusion:
  assumes "lreach (lock_start k) S" and "sched_inv k D" and "tasks k 0 = None"
  shows "(\<forall>t u. inside S t \<longrightarrow> inside S u \<longrightarrow> t = u)
    \<and> (holder (lk S) \<noteq> 0 \<longrightarrow> inside S (holder (lk S)))
    \<and> ((\<forall>t. \<not> inside S t) \<longrightarrow> waiters (lsem (lk S)) \<noteq> [] \<longrightarrow> (\<exists>t\<in>runnable (ks S). in_down S t))"
proof -
  have inv: "lock_inv D S" by (rule lreach_inv [OF assms])
  have "\<exists>t\<in>runnable (ks S). in_down S t" if "\<forall>t. \<not> inside S t" "waiters (lsem (lk S)) \<noteq> []"
  proof -
    from inv that(1) have "sem_value (lsem (lk S)) = 1" by (auto simp: lock_inv_def sem_inv_def Let_def)
    with inv that(2) obtain t where "in_down S t" "t \<notin> set (waiters (lsem (lk S)))"
      by (auto simp: lock_inv_def wait_inv_def Let_def)
    with inv show ?thesis by (auto simp: lock_inv_def wait_inv_def Let_def)
  qed
  with inv show ?thesis by (auto simp: lock_inv_def sem_inv_def holder_inv_def inside_def Let_def)
qed

text \<open>
  No assertion of the semaphore and lock operations can fail: in every state
  that can be reached, the running thread can do the next step of its operation.
\<close>

theorem lock_assertions_hold:
  assumes "lreach (lock_start k) S" and "sched_inv k D" and "tasks k 0 = None"
    and "running (ks S) \<noteq> idle_thread (ks S)"
  shows "sema_down (ks S) (lsem (lk S)) \<noteq> None
    \<and> (\<forall>old. at_pc S (Down old) \<longrightarrow> sema_down_resumed old (ks S) (lsem (lk S)) \<noteq> None)
    \<and> (at_pc S Got \<longrightarrow> lock_got (ks S) (lk S) \<noteq> None)
    \<and> (at_pc S Own \<longrightarrow> lock_drop (ks S) (lk S) \<noteq> None)
    \<and> (at_pc S Rel \<longrightarrow> sema_up (ks S) (lsem (lk S)) \<noteq> None)"
proof -
  have inv: "lock_inv D S" by (rule lreach_inv [OF assms(1-3)])
  have d: "sema_down_resumed old ((ks S)\<lparr>intr_on := b\<rparr>) (lsem (lk S)) \<noteq> None" for old b
    using sema_round_ok [OF inv assms(4), of b] by (simp add: sema_down_resumed_def)
  have "sema_down_resumed old (ks S) (lsem (lk S)) \<noteq> None" for old
    using d [of old "intr_on (ks S)"] by simp
  moreover have "sema_down (ks S) (lsem (lk S)) \<noteq> None" using d by (simp add: sema_down_is_resumed)
  moreover have "lock_got (ks S) (lk S) \<noteq> None" if "at_pc S Got"
  proof -
    have "holder (lk S) = 0"
    proof (rule ccontr)
      assume "holder (lk S) \<noteq> 0"
      with inv have "inside S (holder (lk S))" "pc_of S (holder (lk S)) = Own"
        by (auto simp: lock_inv_def holder_inv_def inside_def)
      moreover have "inside S (running (ks S))" using that by (simp add: at_pc_def inside_def)
      ultimately show False using inv that by (auto simp: lock_inv_def sem_inv_def at_pc_def Let_def)
    qed
    with inv show ?thesis by (simp add: lock_got_def lock_inv_def holder_inv_def)
  qed
  moreover have "lock_drop (ks S) (lk S) \<noteq> None" if "at_pc S Own"
  proof -
    have h: "holder (lk S) = running (ks S)" using inv that by (simp add: lock_inv_def holder_inv_def at_pc_def)
    moreover have "running (ks S) \<noteq> 0"
    proof
      assume "running (ks S) = 0"
      with inv show False by (auto simp: lock_inv_def env_inv_def sched_inv_def)
    qed
    ultimately have "1 \<le> holder_repeat_nr (lk S)" using inv by (auto simp: lock_inv_def holder_inv_def)
    with h show ?thesis by (auto simp: lock_drop_def)
  qed
  moreover have "sema_up (ks S) (lsem (lk S)) \<noteq> None" if "at_pc S Rel"
  proof -
    have "sem_value (lsem (lk S)) = 0"
      using inv that by (auto simp: lock_inv_def sem_inv_def at_pc_def inside_def Let_def)
    from sema_up_ok [OF inv this] show ?thesis by auto
  qed
  ultimately show ?thesis by blast
qed

text \<open>A run in which the main thread takes the lock.\<close>

definition demo_lsys :: lsys where
  "demo_lsys = move (lock_start demo_kst) demo_kst
     \<lparr>holder = 0, holder_repeat_nr = 0, lsem = \<lparr>sem_value = 0, waiters = []\<rparr>\<rparr> Got"

lemma demo_lreach: "lreach (lock_start demo_kst) demo_lsys" "tasks demo_kst 0 = None"
  "running demo_kst \<noteq> idle_thread demo_kst"
proof -
  let ?S = "lock_start demo_kst"
  have d: "sema_down (ks ?S) (lsem (lk ?S)) = Some (True, demo_kst, \<lparr>sem_value = 0, waiters = []\<rparr>)"
    by (simp add: sema_down_is_resumed sema_down_resumed_def sema_round_def sema_leave_def intr_set_status_upd
        lock_start_def lock_init_def sema_init_def w8_def)
  show i: "running demo_kst \<noteq> idle_thread demo_kst" by (simp add: demo_kst_def)
  have "lstep ?S (move ?S demo_kst ((lk ?S)\<lparr>lsem := \<lparr>sem_value = 0, waiters = []\<rparr>\<rparr>) Got)"
    by (rule lstep.take [OF _ _ _ d]) (simp_all add: lock_start_def at_pc_def lock_init_def demo_kst_def)
  then have "lstep ?S demo_lsys" by (simp add: demo_lsys_def lock_start_def lock_init_def)
  then show "lreach (lock_start demo_kst) demo_lsys" by (rule lreach.step [OF lreach.start])
  show "tasks demo_kst 0 = None" by (simp add: demo_kst_def)
qed

theorem lock_mutual_exclusion_witness:
  "{t. inside demo_lsys t} = {running demo_kst}"
proof -
  have "inside demo_lsys (running demo_kst)" by (simp add: demo_lsys_def inside_move lock_start_def)
  with lock_mutual_exclusion [OF demo_lreach(1) demo_kst_inv demo_lreach(2)] show ?thesis by blast
qed

theorem lock_assertions_hold_witness: "lock_got (ks demo_lsys) (lk demo_lsys) \<noteq> None"
proof -
  have "at_pc demo_lsys Got" by (simp add: demo_lsys_def at_pc_def lock_start_def)
  moreover have "running (ks demo_lsys) \<noteq> idle_thread (ks demo_lsys)"
    using demo_lreach(3) by (simp add: demo_lsys_def)
  ultimately show ?thesis
    using lock_assertions_hold [OF demo_lreach(1) demo_kst_inv demo_lreach(2)] by blast
qed

text \<open>
  Notifying a condition variable takes the first \<open>m\<close> waiters off its list: each
  of them is runnable afterwards if it had blocked, and will not block any more if it had not
  come to that yet, because it sees its node notified. The others stay as they are.
\<close>

theorem cv_notify_wakes:
  assumes "sched_inv k D" and "cv_inv k c" and "has_locked k l"
  shows "\<exists>k' c'. cv_notify k l c m = Some (k', c') \<and> sched_inv k' D \<and> cv_inv k' c'
    \<and> cv_waiters c' = drop m (cv_waiters c)
    \<and> (\<forall>n\<in>set (take m (cv_waiters c)). (\<forall>k''. cv_wait_round k'' c' n = Some (True, k'', c'))
        \<and> (\<forall>x. nodes c n = Some x \<longrightarrow> wstatus x = WAITER_BLOCKED \<longrightarrow> pthread x \<in> runnable k'))
    \<and> (\<forall>n\<in>set (cv_waiters c'). nodes c' n = nodes c n)"
proof -
  from notify_loop_ok [OF assms(1,2), of m] obtain k' c' where k':
    "notify_loop k c m = Some (k', c')" "sched_inv k' D" "cv_inv k' c'" "cv_waiters c' = drop m (cv_waiters c)"
    "\<forall>n\<in>set (take m (cv_waiters c)). notified k' c' n \<and>
       (\<forall>x. nodes c n = Some x \<longrightarrow> wstatus x = WAITER_BLOCKED \<longrightarrow> pthread x \<in> runnable k')"
    "\<forall>n. n \<notin> set (take m (cv_waiters c)) \<longrightarrow> nodes c' n = nodes c n" by blast
  have "set (take m (cv_waiters c)) \<inter> set (drop m (cv_waiters c)) = {}"
    using assms(2) by (intro set_take_disj_set_drop_if_distinct) (auto simp: cv_inv_def)
  with k'(4,6) have "\<forall>n\<in>set (cv_waiters c'). nodes c' n = nodes c n" by auto
  moreover have "cv_notify k l c m = Some (k', c')" using assms(3) k'(1) by (simp add: cv_notify_def)
  ultimately show ?thesis using k'(2-5) cv_wait_round_notified by blast
qed

text \<open>Two waiters: one has blocked, one is about to.\<close>

definition demo_cv :: cv where
  "demo_cv = \<lparr>cv_waiters = [1, 2], nodes = [1 \<mapsto> \<lparr>pthread = 0xc0103000, wstatus = WAITER_BLOCKED\<rparr>,
     2 \<mapsto> \<lparr>pthread = 0xc0101000, wstatus = WAITER_QUEUED\<rparr>]\<rparr>"

theorem cv_notify_wakes_witness:
  "\<exists>k' c'. cv_notify demo_kst (lock_init\<lparr>holder := 0xc009e000\<rparr>) demo_cv 1 = Some (k', c')
     \<and> cv_waiters c' = [2] \<and> 0xc0103000 \<in> runnable k' \<and> (\<forall>k. cv_wait_round k c' 1 = Some (True, k, c'))"
proof -
  have "cv_inv demo_kst demo_cv"
    by (auto simp: cv_inv_def demo_cv_def node_ok_def asleep_def demo_kst_def demo_task_def inj_on_def)
  moreover have "has_locked demo_kst (lock_init\<lparr>holder := 0xc009e000\<rparr>)" by (simp add: has_locked_def demo_kst_def)
  ultimately obtain k' c' where c: "cv_notify demo_kst (lock_init\<lparr>holder := 0xc009e000\<rparr>) demo_cv 1 = Some (k', c')"
    "cv_waiters c' = drop 1 (cv_waiters demo_cv)"
    "\<forall>n\<in>set (take 1 (cv_waiters demo_cv)). (\<forall>k''. cv_wait_round k'' c' n = Some (True, k'', c'))
        \<and> (\<forall>x. nodes demo_cv n = Some x \<longrightarrow> wstatus x = WAITER_BLOCKED \<longrightarrow> pthread x \<in> runnable k')"
    using cv_notify_wakes [OF demo_kst_inv, of demo_cv "lock_init\<lparr>holder := 0xc009e000\<rparr>" 1] by blast
  from c(2) have "cv_waiters c' = [2]" by (simp add: demo_cv_def One_nat_def)
  with c(1,3) show ?thesis by (intro exI conjI) (auto simp: demo_cv_def)
qed

end
