(* ===== verification/Ioqueue.thy ===== *)
theory Ioqueue
  imports Prelude
begin

text \<open>
  \<open>src/src/device/ioqueue.c\<close>: the circular buffer behind a pipe and the terminal.

  Every operation holds the queue's lock from its start, or from the wakeup inside its
  \<open>cv_wait\<close>, to its end, so it is one atomic step: it is done (\<open>Returns\<close>) or has to wait
  (\<open>Blocks\<close>) and starts again when it is notified; what is notified is in theory \<open>Sync\<close>.
\<close>

datatype 'a io = Blocks | Returns 'a

definition bufsize :: nat where
  "bufsize = 2048"

record ioqueue =
  ioq_buf :: "u8 list"
  ioq_head :: nat
  ioq_tail :: nat
  ioq_closed :: bool

definition ioqueue_init :: "ioqueue \<Rightarrow> ioqueue" where
  "ioqueue_init q = q\<lparr>ioq_head := 0, ioq_tail := 0, ioq_closed := False\<rparr>"

definition next_pos :: "nat \<Rightarrow> nat" where
  "next_pos p = (p + 1) mod bufsize"

definition is_ioq_full :: "ioqueue \<Rightarrow> bool" where
  "is_ioq_full q \<longleftrightarrow> next_pos (ioq_head q) = ioq_tail q"

definition is_ioq_empty :: "ioqueue \<Rightarrow> bool" where
  "is_ioq_empty q \<longleftrightarrow> ioq_head q = ioq_tail q"

definition ioq_full :: "ioqueue \<Rightarrow> bool" where
  "ioq_full q = is_ioq_full q"

definition take_byte :: "ioqueue \<Rightarrow> (u8 \<times> ioqueue) option" where
  "take_byte q = do { b \<leftarrow> rd (ioq_buf q) (ioq_tail q); Some (b, q\<lparr>ioq_tail := next_pos (ioq_tail q)\<rparr>) }"

definition add_byte :: "ioqueue \<Rightarrow> u8 \<Rightarrow> ioqueue option" where
  "add_byte q b =
     do { xs \<leftarrow> wr (ioq_buf q) (ioq_head q) b; Some (q\<lparr>ioq_buf := xs, ioq_head := next_pos (ioq_head q)\<rparr>) }"

definition ioq_getchar :: "ioqueue \<Rightarrow> (int \<times> ioqueue) io option" where
  "ioq_getchar q =
     (if \<not> ioq_closed q \<and> is_ioq_empty q then Some Blocks
      else if ioq_closed q \<and> is_ioq_empty q then Some (Returns (- 1, q))
      else do { (b, q) \<leftarrow> take_byte q; Some (Returns (uint b, q)) })"

fun ioq_read_loop :: "ioqueue \<Rightarrow> nat \<Rightarrow> (u8 list \<times> ioqueue) option" where
  "ioq_read_loop q 0 = Some ([], q)"
| "ioq_read_loop q (Suc n) =
     (if is_ioq_empty q then Some ([], q)
      else do { (b, q) \<leftarrow> take_byte q; (bs, q) \<leftarrow> ioq_read_loop q n; Some (b # bs, q) })"

definition ioq_read_some :: "ioqueue \<Rightarrow> nat \<Rightarrow> (int \<times> u8 list \<times> ioqueue) io option" where
  "ioq_read_some q limit =
     (if \<not> ioq_closed q \<and> is_ioq_empty q then Some Blocks
      else if ioq_closed q \<and> is_ioq_empty q then Some (Returns (0, [], q))
      else do { (bs, q) \<leftarrow> ioq_read_loop q limit; Some (Returns (int (length bs), bs, q)) })"

definition ioq_putchar :: "ioqueue \<Rightarrow> u8 \<Rightarrow> (bool \<times> ioqueue) io option" where
  "ioq_putchar q b =
     (if \<not> ioq_closed q \<and> is_ioq_full q then Some Blocks
      else if ioq_closed q then Some (Returns (False, q))
      else do { q \<leftarrow> add_byte q b; Some (Returns (True, q)) })"

text \<open>The count that was stored.\<close>

fun ioq_write_loop :: "ioqueue \<Rightarrow> u8 list \<Rightarrow> (nat \<times> ioqueue) option" where
  "ioq_write_loop q [] = Some (0, q)"
| "ioq_write_loop q (b # bs) =
     (if is_ioq_full q then Some (0, q)
      else do { q \<leftarrow> add_byte q b; (n, q) \<leftarrow> ioq_write_loop q bs; Some (Suc n, q) })"

definition ioq_write_some :: "ioqueue \<Rightarrow> u8 list \<Rightarrow> (int \<times> ioqueue) io option" where
  "ioq_write_some q bs =
     (if \<not> ioq_closed q \<and> is_ioq_full q then Some Blocks
      else if ioq_closed q then Some (Returns (0, q))
      else do { (n, q) \<leftarrow> ioq_write_loop q bs; Some (Returns (int n, q)) })"

definition ioq_length :: "ioqueue \<Rightarrow> nat" where
  "ioq_length q =
     (if ioq_tail q \<le> ioq_head q then ioq_head q - ioq_tail q else bufsize - (ioq_tail q - ioq_head q))"

definition ioq_close :: "ioqueue \<Rightarrow> ioqueue" where
  "ioq_close q = (if \<not> ioq_closed q then q\<lparr>ioq_closed := True\<rparr> else q)"

definition ioq_is_closed :: "ioqueue \<Rightarrow> bool" where
  "ioq_is_closed q = ioq_closed q"

section \<open>The sequence it holds\<close>

definition ioq_ok :: "ioqueue \<Rightarrow> bool" where
  "ioq_ok q \<longleftrightarrow> length (ioq_buf q) = bufsize \<and> ioq_head q < bufsize \<and> ioq_tail q < bufsize"

definition contents :: "ioqueue \<Rightarrow> u8 list" where
  "contents q = map (\<lambda>i. ioq_buf q ! ((ioq_tail q + i) mod bufsize)) [0..<ioq_length q]"

lemma length_contents [simp]: "length (contents q) = ioq_length q"
  by (simp add: contents_def)

lemma next_pos_cases: "p < bufsize \<Longrightarrow> next_pos p = (if p = bufsize - 1 then 0 else p + 1)"
  by (auto simp: next_pos_def bufsize_def)

lemma next_pos_less [simp]: "next_pos p < bufsize"
  by (simp add: next_pos_def bufsize_def)

lemma ioq_length_less: "ioq_ok q \<Longrightarrow> ioq_length q < bufsize"
  by (auto simp: ioq_ok_def ioq_length_def)

lemma is_ioq_empty_iff: "ioq_ok q \<Longrightarrow> is_ioq_empty q \<longleftrightarrow> contents q = []"
  by (auto simp: is_ioq_empty_def contents_def ioq_length_def ioq_ok_def)

lemma is_ioq_full_iff: "ioq_ok q \<Longrightarrow> is_ioq_full q \<longleftrightarrow> length (contents q) = bufsize - 1"
  by (auto simp: is_ioq_full_def next_pos_cases ioq_length_def ioq_ok_def bufsize_def split: if_splits)

lemma take_byte_ok:
  assumes "ioq_ok q" and "contents q = b # bs"
  shows "\<exists>q'. take_byte q = Some (b, q') \<and> ioq_ok q' \<and> contents q' = bs \<and> ioq_closed q' = ioq_closed q"
proof -
  let ?q = "q\<lparr>ioq_tail := next_pos (ioq_tail q)\<rparr>"
  have l: "ioq_length q = Suc (length bs)" using assms(2) by (metis length_contents length_Cons)
  then have l': "ioq_length ?q = length bs"
    using assms(1) by (auto simp: ioq_length_def ioq_ok_def next_pos_cases bufsize_def split: if_splits)
  have b: "b = ioq_buf q ! ioq_tail q"
    using assms l by (simp add: contents_def ioq_ok_def upt_conv_Cons del: upt_Suc)
  have "(next_pos (ioq_tail q) + i) mod bufsize = (ioq_tail q + Suc i) mod bufsize" for i
    by (simp add: next_pos_def mod_add_left_eq) (simp add: Suc_eq_plus1 ac_simps)
  then have "contents ?q = map (\<lambda>i. ioq_buf q ! ((ioq_tail q + i) mod bufsize)) (map Suc [0..<length bs])"
    by (simp add: contents_def l')
  also have "\<dots> = tl (contents q)" by (simp add: contents_def l map_Suc_upt upt_conv_Cons del: upt_Suc)
  finally have "contents ?q = bs" using assms(2) by simp
  moreover have "take_byte q = Some (b, ?q)" using assms(1) b by (simp add: take_byte_def ioq_ok_def)
  ultimately show ?thesis using assms(1) by (auto simp: ioq_ok_def)
qed

lemma wrap: "p < bufsize \<Longrightarrow> i < bufsize \<Longrightarrow> (p + i) mod bufsize = (if p + i < bufsize then p + i else p + i - bufsize)"
  by (auto simp: mod_if)

lemma add_byte_ok:
  assumes "ioq_ok q" and "length (contents q) < bufsize - 1"
  shows "\<exists>q'. add_byte q b = Some q' \<and> ioq_ok q' \<and> contents q' = contents q @ [b] \<and> ioq_closed q' = ioq_closed q"
proof -
  let ?q = "q\<lparr>ioq_buf := (ioq_buf q)[ioq_head q := b], ioq_head := next_pos (ioq_head q)\<rparr>"
  have l: "ioq_length ?q = Suc (ioq_length q)"
    using assms by (auto simp: ioq_length_def ioq_ok_def next_pos_cases bufsize_def split: if_splits)
  have i: "ioq_head q \<noteq> (ioq_tail q + i) mod bufsize" if "i < ioq_length q" for i
    using that assms(1) wrap [of "ioq_tail q" i] by (auto simp: ioq_length_def ioq_ok_def split: if_splits)
  have h: "(ioq_tail q + ioq_length q) mod bufsize = ioq_head q"
    using assms(1) wrap [of "ioq_tail q" "ioq_length q"] by (auto simp: ioq_length_def ioq_ok_def)
  have "contents ?q = contents q @ [b]"
    using i h assms(1) by (simp add: contents_def l ioq_ok_def)
  moreover have "add_byte q b = Some ?q" using assms(1) by (simp add: add_byte_def ioq_ok_def)
  ultimately show ?thesis using assms(1) by (auto simp: ioq_ok_def)
qed

lemma read_loop_ok:
  "ioq_ok q \<Longrightarrow> \<exists>q'. ioq_read_loop q n = Some (take n (contents q), q') \<and> ioq_ok q' \<and>
     contents q' = drop n (contents q) \<and> ioq_closed q' = ioq_closed q"
proof (induction n arbitrary: q)
  case 0
  then show ?case by simp
next
  case (Suc n)
  show ?case
  proof (cases "contents q")
    case Nil
    with Suc.prems show ?thesis by (simp add: is_ioq_empty_iff)
  next
    case (Cons b bs)
    from take_byte_ok [OF Suc.prems Cons] obtain q1 where q1: "take_byte q = Some (b, q1)" "ioq_ok q1"
      "contents q1 = bs" "ioq_closed q1 = ioq_closed q" by blast
    from Suc.IH [OF q1(2)] q1 Cons Suc.prems show ?thesis by (auto simp: is_ioq_empty_iff)
  qed
qed

lemma write_loop_ok:
  "ioq_ok q \<Longrightarrow> \<exists>q'. ioq_write_loop q bs = Some (min (length bs) (bufsize - 1 - length (contents q)), q') \<and> ioq_ok q' \<and>
     contents q' = contents q @ take (bufsize - 1 - length (contents q)) bs \<and> ioq_closed q' = ioq_closed q"
proof (induction bs arbitrary: q)
  case Nil
  then show ?case by simp
next
  case (Cons b bs)
  show ?case
  proof (cases "length (contents q) = bufsize - 1")
    case True
    with Cons.prems show ?thesis by (simp add: is_ioq_full_iff)
  next
    case False
    with ioq_length_less [OF Cons.prems] have less: "length (contents q) < bufsize - 1" by simp
    from add_byte_ok [OF Cons.prems less] obtain q1 where q1: "add_byte q b = Some q1" "ioq_ok q1"
      "contents q1 = contents q @ [b]" "ioq_closed q1 = ioq_closed q" by blast
    then have "length (contents q1) = Suc (length (contents q))" by simp
    moreover obtain d where d: "bufsize - 1 - length (contents q) = Suc d" using less by (metis Suc_diff_Suc)
    ultimately have "bufsize - 1 - length (contents q1) = d" by simp
    with Cons.IH [OF q1(2)] q1 d False Cons.prems show ?thesis by (auto simp: is_ioq_full_iff)
  qed
qed

section \<open>Byte channels\<close>

text \<open>
  What a pipe relies on: bytes leave in the order in which they entered, a byte enters as
  long as there is room, and closing stops writers but lets readers empty the channel.
\<close>

locale byte_channel =
  fixes ok :: "'s \<Rightarrow> bool"
    and held :: "'s \<Rightarrow> u8 list"
    and closed :: "'s \<Rightarrow> bool"
    and room :: nat
    and put :: "'s \<Rightarrow> u8 \<Rightarrow> (bool \<times> 's) io option"
    and get :: "'s \<Rightarrow> (int \<times> 's) io option"
  assumes room_pos: "0 < room"
    and held_le: "ok s \<Longrightarrow> length (held s) \<le> room"
    and put_closed: "ok s \<Longrightarrow> closed s \<Longrightarrow> put s b = Some (Returns (False, s))"
    and put_full: "ok s \<Longrightarrow> \<not> closed s \<Longrightarrow> length (held s) = room \<Longrightarrow> put s b = Some Blocks"
    and put_room: "ok s \<Longrightarrow> \<not> closed s \<Longrightarrow> length (held s) < room \<Longrightarrow>
      \<exists>s'. put s b = Some (Returns (True, s')) \<and> ok s' \<and> held s' = held s @ [b] \<and> \<not> closed s'"
    and get_some: "ok s \<Longrightarrow> held s = b # bs \<Longrightarrow>
      \<exists>s'. get s = Some (Returns (uint b, s')) \<and> ok s' \<and> held s' = bs \<and> closed s' = closed s"
    and get_none: "ok s \<Longrightarrow> held s = [] \<Longrightarrow>
      get s = Some (if closed s then Returns (- 1, s) else Blocks)"

text \<open>
  A writer puts bytes until it has to wait, is refused or is done; a reader gets up to a
  number of bytes until it has to wait, meets the end or is done. The flag says that it waits.
\<close>

fun put_bytes :: "('s \<Rightarrow> u8 \<Rightarrow> (bool \<times> 's) io option) \<Rightarrow> 's \<Rightarrow> u8 list \<Rightarrow> (nat \<times> bool \<times> 's) option" where
  "put_bytes put s [] = Some (0, False, s)"
| "put_bytes put s (b # bs) =
     do { r \<leftarrow> put s b;
          case r of Blocks \<Rightarrow> Some (0, True, s)
          | Returns (ok, s) \<Rightarrow>
              if ok then do { (n, w, s) \<leftarrow> put_bytes put s bs; Some (Suc n, w, s) } else Some (0, False, s) }"

fun get_bytes :: "('s \<Rightarrow> (int \<times> 's) io option) \<Rightarrow> 's \<Rightarrow> nat \<Rightarrow> (u8 list \<times> bool \<times> 's) option" where
  "get_bytes get s 0 = Some ([], False, s)"
| "get_bytes get s (Suc n) =
     do { r \<leftarrow> get s;
          case r of Blocks \<Rightarrow> Some ([], True, s)
          | Returns (ch, s) \<Rightarrow>
              if 0 \<le> ch then do { (bs, w, s) \<leftarrow> get_bytes get s n; Some (word_of_int ch # bs, w, s) }
              else Some ([], False, s) }"

text \<open>A writer and a reader taking turns until both are done, in at most \<open>n\<close> turns.\<close>

fun take_turns :: "('s \<Rightarrow> u8 \<Rightarrow> (bool \<times> 's) io option) \<Rightarrow> ('s \<Rightarrow> (int \<times> 's) io option) \<Rightarrow>
    nat \<Rightarrow> 's \<Rightarrow> u8 list \<Rightarrow> nat \<Rightarrow> (u8 list \<times> 's) option" where
  "take_turns put get 0 s out n = None"
| "take_turns put get (Suc k) s out n =
     do { (m, w, s) \<leftarrow> put_bytes put s out;
          (bs, v, s) \<leftarrow> get_bytes get s n;
          if \<not> w \<and> \<not> v then Some (bs, s)
          else do { (cs, s) \<leftarrow> take_turns put get k s (drop m out) (n - length bs); Some (bs @ cs, s) } }"

context byte_channel
begin

lemma put_bytes_open:
  assumes "ok s" and "\<not> closed s"
  shows "\<exists>s'. put_bytes put s bs = Some (min (length bs) (room - length (held s)), length bs > room - length (held s), s')
    \<and> ok s' \<and> \<not> closed s' \<and> held s' = held s @ take (room - length (held s)) bs"
  using assms
proof (induction bs arbitrary: s)
  case Nil
  then show ?case by simp
next
  case (Cons b bs)
  show ?case
  proof (cases "length (held s) = room")
    case True
    with put_full [OF Cons.prems] Cons.prems show ?thesis by simp
  next
    case False
    with held_le [OF Cons.prems(1)] have less: "length (held s) < room" by simp
    from put_room [OF Cons.prems less, of b] obtain s1 where s1: "put s b = Some (Returns (True, s1))" "ok s1"
      "held s1 = held s @ [b]" "\<not> closed s1" by blast
    obtain d where d: "room - length (held s) = Suc d" using less by (metis Suc_diff_Suc)
    then have "room - length (held s1) = d" using s1(3) by simp
    with Cons.IH [OF s1(2,4)] s1 d show ?thesis by auto
  qed
qed

lemma put_bytes_closed: "ok s \<Longrightarrow> closed s \<Longrightarrow> put_bytes put s bs = Some (0, False, s)"
  by (cases bs) (simp_all add: put_closed)

lemma get_bytes_spec:
  assumes "ok s"
  shows "\<exists>s'. get_bytes get s n = Some (take n (held s), n > length (held s) \<and> \<not> closed s, s')
    \<and> ok s' \<and> held s' = drop n (held s) \<and> closed s' = closed s"
  using assms
proof (induction n arbitrary: s)
  case 0
  then show ?case by simp
next
  case (Suc n)
  show ?case
  proof (cases "held s")
    case Nil
    with get_none [OF Suc.prems] Suc.prems show ?thesis by auto
  next
    case (Cons b bs)
    from get_some [OF Suc.prems Cons] obtain s1 where s1: "get s = Some (Returns (uint b, s1))" "ok s1"
      "held s1 = bs" "closed s1 = closed s" by blast
    from Suc.IH [OF s1(2)] s1 Cons show ?thesis by auto
  qed
qed

lemma take_turns_complete:
  assumes "ok s" and "\<not> closed s" and "held s = []" and "length out \<le> k"
  shows "\<exists>s'. take_turns put get (Suc k) s out (length out) = Some (out, s') \<and> ok s' \<and> held s' = []"
  using assms
proof (induction k arbitrary: s out)
  case 0
  then show ?case by simp
next
  case (Suc k)
  from put_bytes_open [OF Suc.prems(1,2), of out] Suc.prems(3) obtain s1 where s1:
    "put_bytes put s out = Some (min (length out) room, length out > room, s1)" "ok s1" "\<not> closed s1" "held s1 = take room out"
    by auto
  have t: "take (length out) (take room out) = take room out" by (simp add: min_def)
  from get_bytes_spec [OF s1(2), of "length out"] s1(3,4) obtain s2 where s2:
    "get_bytes get s1 (length out) = Some (take room out, length out > min (length out) room, s2)"
    "ok s2" "held s2 = []" "\<not> closed s2" by (auto simp: t simp del: take_take)
  show ?case
  proof (cases "length out > room")
    case False
    with s1 s2 show ?thesis by simp
  next
    case True
    have "length (drop room out) \<le> k" using True Suc.prems(4) room_pos by simp
    from Suc.IH [OF s2(2,4,3) this] obtain s' where
      "take_turns put get (Suc k) s2 (drop room out) (length (drop room out)) = Some (drop room out, s')"
      "ok s'" "held s' = []" by blast
    moreover have "length (take room out) = room" "min (length out) room = room" using True by simp_all
    ultimately show ?thesis unfolding take_turns.simps(2) [of put get "Suc k"] using True s1(1) s2(1)
      by (simp del: take_turns.simps length_take)
  qed
qed

text \<open>Bytes still held when the channel is closed are delivered, then the end is reported.\<close>

lemma drain_closed:
  assumes "ok s" and "closed s" and "length (held s) < n"
  shows "\<exists>s'. get_bytes get s n = Some (held s, False, s') \<and> held s' = []"
  using get_bytes_spec [OF assms(1), of n] assms by auto

end

lemma ioq_getchar_none: "ioq_ok q \<Longrightarrow> contents q = [] \<Longrightarrow>
    ioq_getchar q = Some (if ioq_closed q then Returns (- 1, q) else Blocks)"
  by (simp add: ioq_getchar_def is_ioq_empty_iff)

lemma ioq_getchar_some:
  assumes "ioq_ok q" and "contents q = b # bs"
  shows "\<exists>q'. ioq_getchar q = Some (Returns (uint b, q')) \<and> ioq_ok q' \<and> contents q' = bs \<and> ioq_closed q' = ioq_closed q"
  using take_byte_ok [OF assms] assms by (auto simp: ioq_getchar_def is_ioq_empty_iff)

lemma ioq_putchar_room:
  assumes "ioq_ok q" and "\<not> ioq_closed q" and "length (contents q) < bufsize - 1"
  shows "\<exists>q'. ioq_putchar q b = Some (Returns (True, q')) \<and> ioq_ok q' \<and> contents q' = contents q @ [b] \<and> \<not> ioq_closed q'"
  using add_byte_ok [OF assms(1,3), of b] assms by (auto simp: ioq_putchar_def is_ioq_full_iff)

lemma ioq_close_spec:
  "ioq_ok (ioq_close q) = ioq_ok q" "contents (ioq_close q) = contents q" "ioq_closed (ioq_close q)"
  by (simp_all add: ioq_close_def ioq_ok_def contents_def ioq_length_def)

interpretation ioq: byte_channel ioq_ok contents ioq_closed "bufsize - 1" ioq_putchar ioq_getchar
proof (unfold_locales, goal_cases)
  case 1
  then show ?case by (simp add: bufsize_def)
next
  case (2 s)
  with ioq_length_less [of s] show ?case by simp
next
  case (3 s b)
  then show ?case by (simp add: ioq_putchar_def)
next
  case (4 s b)
  then show ?case by (simp add: ioq_putchar_def is_ioq_full_iff)
next
  case (5 s b)
  then show ?case by (rule ioq_putchar_room)
next
  case (6 s b bs)
  then show ?case by (rule ioq_getchar_some)
next
  case (7 s)
  then show ?case by (rule ioq_getchar_none)
qed

section \<open>Properties\<close>

text \<open>
  Property C21. The circular buffer implements a queue of at most 2047 bytes: both readers take
  from its front, both writers append at its end, one byte or as much as fits, an empty open queue
  makes a reader wait and a full one a writer, a closed queue refuses bytes but still gives out what
  it holds, \<open>ioq_close\<close> closes and keeps the bytes, and no other operation opens or closes.
\<close>

theorem ioq_implements_queue:
  assumes "ioq_ok q"
  shows "ioq_length q = length (contents q) \<and> length (contents q) \<le> 2047
    \<and> ioq_full q = (length (contents q) = 2047) \<and> ioq_is_closed q = ioq_closed q
    \<and> (\<forall>b bs. contents q = b # bs \<longrightarrow> (\<exists>q'. ioq_getchar q = Some (Returns (uint b, q')) \<and> ioq_ok q' \<and> contents q' = bs
         \<and> ioq_closed q' = ioq_closed q))
    \<and> (contents q = [] \<longrightarrow> ioq_getchar q = Some (if ioq_closed q then Returns (- 1, q) else Blocks))
    \<and> (\<forall>n. contents q \<noteq> [] \<longrightarrow> (\<exists>q'. ioq_read_some q n = Some (Returns (int (min n (length (contents q))), take n (contents q), q'))
         \<and> ioq_ok q' \<and> contents q' = drop n (contents q) \<and> ioq_closed q' = ioq_closed q))
    \<and> (\<forall>n. contents q = [] \<longrightarrow> ioq_read_some q n = Some (if ioq_closed q then Returns (0, [], q) else Blocks))
    \<and> (\<forall>b. \<not> ioq_closed q \<longrightarrow> length (contents q) < 2047 \<longrightarrow>
         (\<exists>q'. ioq_putchar q b = Some (Returns (True, q')) \<and> ioq_ok q' \<and> contents q' = contents q @ [b] \<and> \<not> ioq_closed q'))
    \<and> (\<forall>b. \<not> ioq_closed q \<longrightarrow> length (contents q) = 2047 \<longrightarrow> ioq_putchar q b = Some Blocks)
    \<and> (\<forall>b. ioq_closed q \<longrightarrow> ioq_putchar q b = Some (Returns (False, q)))
    \<and> (\<forall>bs. \<not> ioq_closed q \<longrightarrow> length (contents q) < 2047 \<longrightarrow>
         (\<exists>q'. ioq_write_some q bs = Some (Returns (int (min (length bs) (2047 - length (contents q))), q'))
         \<and> ioq_ok q' \<and> contents q' = contents q @ take (2047 - length (contents q)) bs \<and> \<not> ioq_closed q'))
    \<and> (\<forall>bs. \<not> ioq_closed q \<longrightarrow> length (contents q) = 2047 \<longrightarrow> ioq_write_some q bs = Some Blocks)
    \<and> (\<forall>bs. ioq_closed q \<longrightarrow> ioq_write_some q bs = Some (Returns (0, q)))
    \<and> ioq_ok (ioq_close q) \<and> contents (ioq_close q) = contents q \<and> ioq_closed (ioq_close q)
    \<and> ioq_ok (ioqueue_init q) \<and> contents (ioqueue_init q) = [] \<and> \<not> ioq_closed (ioqueue_init q)"
proof (intro conjI allI impI)
  show "ioq_length q = length (contents q)" by simp
  show "length (contents q) \<le> 2047" using ioq_length_less [OF assms] by (simp add: bufsize_def)
  show "ioq_full q = (length (contents q) = 2047)" using assms by (simp add: ioq_full_def is_ioq_full_iff bufsize_def)
  show "ioq_is_closed q = ioq_closed q" by (simp add: ioq_is_closed_def)
  show "\<exists>q'. ioq_getchar q = Some (Returns (uint b, q')) \<and> ioq_ok q' \<and> contents q' = bs \<and> ioq_closed q' = ioq_closed q"
    if "contents q = b # bs" for b bs using ioq_getchar_some [OF assms that] by blast
  show "ioq_getchar q = Some (if ioq_closed q then Returns (- 1, q) else Blocks)" if "contents q = []"
    using ioq_getchar_none [OF assms that] .
  show "\<exists>q'. ioq_read_some q n = Some (Returns (int (min n (length (contents q))), take n (contents q), q'))
         \<and> ioq_ok q' \<and> contents q' = drop n (contents q) \<and> ioq_closed q' = ioq_closed q" if "contents q \<noteq> []" for n
    using read_loop_ok [OF assms, of n] that assms by (auto simp: ioq_read_some_def is_ioq_empty_iff min.commute)
  show "ioq_read_some q n = Some (if ioq_closed q then Returns (0, [], q) else Blocks)" if "contents q = []" for n
    using that assms by (simp add: ioq_read_some_def is_ioq_empty_iff)
  show "\<exists>q'. ioq_putchar q b = Some (Returns (True, q')) \<and> ioq_ok q' \<and> contents q' = contents q @ [b] \<and> \<not> ioq_closed q'"
    if "\<not> ioq_closed q" "length (contents q) < 2047" for b
    using ioq_putchar_room [OF assms that(1), of b] that(2) by (simp add: bufsize_def)
  show "ioq_putchar q b = Some Blocks" if "\<not> ioq_closed q" "length (contents q) = 2047" for b
    using that assms by (simp add: ioq_putchar_def is_ioq_full_iff bufsize_def)
  show "ioq_putchar q b = Some (Returns (False, q))" if "ioq_closed q" for b
    using that by (simp add: ioq_putchar_def)
  show "\<exists>q'. ioq_write_some q bs = Some (Returns (int (min (length bs) (2047 - length (contents q))), q'))
         \<and> ioq_ok q' \<and> contents q' = contents q @ take (2047 - length (contents q)) bs \<and> \<not> ioq_closed q'"
    if "\<not> ioq_closed q" "length (contents q) < 2047" for bs
    using write_loop_ok [OF assms, of bs] that assms by (auto simp: ioq_write_some_def is_ioq_full_iff bufsize_def)
  show "ioq_write_some q bs = Some Blocks" if "\<not> ioq_closed q" "length (contents q) = 2047" for bs
    using that assms by (simp add: ioq_write_some_def is_ioq_full_iff bufsize_def)
  show "ioq_write_some q bs = Some (Returns (0, q))" if "ioq_closed q" for bs
    using that by (simp add: ioq_write_some_def)
  show "ioq_ok (ioq_close q)" "contents (ioq_close q) = contents q" "ioq_closed (ioq_close q)"
    using ioq_close_spec assms by simp_all
  show "ioq_ok (ioqueue_init q)" "contents (ioqueue_init q) = []" "\<not> ioq_closed (ioqueue_init q)"
    using assms by (simp_all add: ioqueue_init_def ioq_ok_def contents_def ioq_length_def bufsize_def)
qed

definition demo_queue :: ioqueue where
  "demo_queue = \<lparr>ioq_buf = replicate 2048 7, ioq_head = 1, ioq_tail = 2047, ioq_closed = False\<rparr>"

lemma demo_queue_ok: "ioq_ok demo_queue" "contents demo_queue = [7, 7]"
proof -
  show "ioq_ok demo_queue" by (simp add: ioq_ok_def demo_queue_def bufsize_def)
  have l: "ioq_length demo_queue = Suc (Suc 0)" by (simp add: ioq_length_def demo_queue_def bufsize_def)
  show "contents demo_queue = [7, 7]" unfolding contents_def l
    by (simp add: demo_queue_def bufsize_def nth_replicate [of _ 2048] del: replicate.simps)
qed

theorem ioq_implements_queue_witness:
  "(\<exists>q'. ioq_write_some demo_queue [1, 2, 3] = Some (Returns (3, q')) \<and> contents q' = [7, 7, 1, 2, 3])
    \<and> (\<exists>q'. ioq_putchar demo_queue 4 = Some (Returns (True, q')) \<and> contents q' = [7, 7, 4])
    \<and> contents (ioq_close demo_queue) = [7, 7] \<and> ioq_closed (ioq_close demo_queue)"
proof -
  have "\<not> ioq_closed demo_queue" "length (contents demo_queue) < 2047"
    by (simp add: demo_queue_def) (simp add: demo_queue_ok del: length_contents)
  note op = this
  from ioq_implements_queue [OF demo_queue_ok(1)] op have
    "\<exists>q'. ioq_write_some demo_queue [1, 2, 3] = Some (Returns (int (min 3 (2047 - length (contents demo_queue))), q'))
      \<and> contents q' = contents demo_queue @ take (2047 - length (contents demo_queue)) [1, 2, 3]"
    by (metis length_Cons list.size(3) numeral_3_eq_3)
  moreover from ioq_implements_queue [OF demo_queue_ok(1)] op have
    "\<exists>q'. ioq_putchar demo_queue 4 = Some (Returns (True, q')) \<and> contents q' = contents demo_queue @ [4]" by blast
  ultimately show ?thesis using ioq_implements_queue [OF demo_queue_ok(1)]
    by (simp add: demo_queue_ok(2) del: length_contents)
qed

end
