(* ===== verification/Signal.thy ===== *)
theory Signal
  imports Thread Cstring
begin

text \<open>
  \<open>src/src/kernel/signal.c\<close>: signals pending in a control block, the choice of the one to act
  on before a thread returns to user mode, and the frame on the user stack through which a
  handler runs and \<open>sys_sigreturn\<close> restores the interrupted state.

  The user's memory is a byte memory as in theory \<open>Cstring\<close>, the saved registers are the
  \<open>intr_stack\<close> at the top of the kernel stack.
\<close>

section \<open>Sending\<close>

definition sys_signal :: "kst \<Rightarrow> int \<Rightarrow> nat \<Rightarrow> (nat \<times> kst) option" where
  "sys_signal k sig handler =
     do { kassert (0 < sig \<and> sig < int MAX_SIGNALS);
          x \<leftarrow> running_thread k;
          old \<leftarrow> rd (sighandlers x) (nat sig);
          hs \<leftarrow> wr (sighandlers x) (nat sig) handler;
          k \<leftarrow> upd_task k (running k) (\<lambda>x. x\<lparr>sighandlers := hs\<rparr>);
          Some (old, k) }"

definition sys_kill :: "kst \<Rightarrow> int \<Rightarrow> int \<Rightarrow> (int \<times> kst) option" where
  "sys_kill k p signum =
     do { kassert (0 < signum \<and> signum < int MAX_SIGNALS);
          t \<leftarrow> pid2thread k p;
          if t = 0 then Some (- 1, k)
          else do { k \<leftarrow> upd_task k t (\<lambda>x. x\<lparr>signal_bits := signal_bits x OR push_bit (nat signum) 1\<rparr>);
                    Some (0, k) } }"

section \<open>The frame of a handler\<close>

record intr_stack =
  vec_no :: nat
  r_edi :: nat
  r_esi :: nat
  r_ebp :: nat
  r_esp_dummy :: nat
  r_ebx :: nat
  r_edx :: nat
  r_ecx :: nat
  r_eax :: nat
  r_gs :: nat
  r_fs :: nat
  r_es :: nat
  r_ds :: nat
  err_code :: nat
  r_eip :: nat
  r_cs :: nat
  r_eflags :: nat
  r_esp :: nat
  r_ss :: nat

definition stack_words :: "intr_stack \<Rightarrow> nat list" where
  "stack_words k = [vec_no k, r_edi k, r_esi k, r_ebp k, r_esp_dummy k, r_ebx k, r_edx k, r_ecx k, r_eax k,
     r_gs k, r_fs k, r_es k, r_ds k, err_code k, r_eip k, r_cs k, r_eflags k, r_esp k, r_ss k]"

definition words_stack :: "nat list \<Rightarrow> intr_stack" where
  "words_stack w = \<lparr>vec_no = w ! 0, r_edi = w ! 1, r_esi = w ! 2, r_ebp = w ! 3, r_esp_dummy = w ! 4,
     r_ebx = w ! 5, r_edx = w ! 6, r_ecx = w ! 7, r_eax = w ! 8, r_gs = w ! 9, r_fs = w ! 10, r_es = w ! 11,
     r_ds = w ! 12, err_code = w ! 13, r_eip = w ! 14, r_cs = w ! 15, r_eflags = w ! 16, r_esp = w ! 17, r_ss = w ! 18\<rparr>"

text \<open>Stores and loads of consecutive bytes.\<close>

fun store :: "mem \<Rightarrow> nat \<Rightarrow> u8 list \<Rightarrow> mem option" where
  "store m a [] = Some m"
| "store m a (b # bs) = do { m \<leftarrow> st m a b; store m (Suc a) bs }"

fun load :: "mem \<Rightarrow> nat \<Rightarrow> nat \<Rightarrow> u8 list option" where
  "load m a 0 = Some []"
| "load m a (Suc n) = do { b \<leftarrow> m a; bs \<leftarrow> load m (Suc a) n; Some (b # bs) }"

definition SYS_SIGRETURN :: nat where "SYS_SIGRETURN = 31"

definition setup_frame :: "mem \<Rightarrow> intr_stack \<Rightarrow> nat \<Rightarrow> nat \<Rightarrow> (mem \<times> intr_stack) option" where
  "setup_frame m stk signum handler =
     (let uesp = sub32 (r_esp stk) intr_stack_size in
      do { m \<leftarrow> store m uesp (enc_words (stack_words stk));
           let uesp = sub32 uesp 2 in
           do { m \<leftarrow> store m uesp [0xcd, 0x80];
                let uesp = sub32 uesp 4 in
                do { m \<leftarrow> store m uesp (enc32 SYS_SIGRETURN);
                     let uesp = sub32 uesp 1 in
                     do { m \<leftarrow> store m uesp [0xb8];
                          let instr_addr = uesp; uesp = sub32 uesp 4 in
                          do { m \<leftarrow> store m uesp (enc32 signum);
                               let uesp = sub32 uesp 4 in
                               do { m \<leftarrow> store m uesp (enc32 instr_addr);
                                    Some (m, stk\<lparr>r_esp := uesp, r_eip := handler\<rparr>) } } } } } })"

text \<open>The result goes to the \<open>eax\<close> of the restored registers.\<close>

definition sys_sigreturn :: "mem \<Rightarrow> intr_stack \<Rightarrow> (nat \<times> intr_stack) option" where
  "sys_sigreturn m stk =
     do { bs \<leftarrow> load m (r_eip stk) intr_stack_size;
          let stk = words_stack (dec_words 19 bs) in Some (r_eax stk, stk) }"

section \<open>Acting on a pending signal\<close>

datatype sig_action = No_signal | Deliver nat nat | Terminate nat

function next_signal :: "task_struct \<Rightarrow> nat \<Rightarrow> sig_action option" where
  "next_signal x i =
     (if i < MAX_SIGNALS then
        if bit (signal_bits x) i then
          do { handler \<leftarrow> rd (sighandlers x) i;
               if handler = SIG_IGN then next_signal x (Suc i)
               else if handler = SIG_DFL then Some (Terminate i)
               else Some (Deliver i handler) }
        else next_signal x (Suc i)
      else Some No_signal)"
  by pat_completeness auto
termination
  by (relation "measure (\<lambda>(x, i). MAX_SIGNALS - i)") auto

declare next_signal.simps [simp del]

text \<open>
  \<open>check_signal\<close> on the way to user mode. The flag says that the default action ends the
  process: \<open>handle_signal_default\<close> calls \<open>sys_exit (-1)\<close>, which does not return.
\<close>

definition check_signal :: "kst \<Rightarrow> mem \<Rightarrow> intr_stack \<Rightarrow> (bool \<times> kst \<times> mem \<times> intr_stack) option" where
  "check_signal k m stk =
     (let (old_status, k) = intr_disable k in
      do { x \<leftarrow> running_thread k;
           a \<leftarrow> next_signal x 0;
           case a of
             No_signal \<Rightarrow> Some (False, snd (intr_set_status k old_status), m, stk)
           | Terminate i \<Rightarrow> Some (True, k, m, stk)
           | Deliver i handler \<Rightarrow>
               do { (m, stk) \<leftarrow> setup_frame m stk i handler;
                    k \<leftarrow> upd_task k (running k) (\<lambda>x. x\<lparr>signal_bits := signal_bits x AND NOT (push_bit i 1)\<rparr>);
                    Some (False, snd (intr_set_status k old_status), m, stk) } })"

text \<open>
  What the processor does when the handler returns: \<open>ret\<close> goes to the address on the stack,
  where \<open>mov eax, n\<close> and \<open>int 0x80\<close> are executed; the trap saves the address behind them.
\<close>

definition handler_ret :: "mem \<Rightarrow> intr_stack \<Rightarrow> intr_stack option" where
  "handler_ret m stk =
     do { ra \<leftarrow> load m (r_esp stk) 4;
          code \<leftarrow> load m (dec32 ra) 7;
          kassert (code ! 0 = 0xb8 \<and> code ! 5 = 0xcd \<and> code ! 6 = 0x80);
          Some (stk\<lparr>r_eax := dec32 (tl code), r_eip := dec32 ra + 7, r_esp := r_esp stk + 4\<rparr>) }"

section \<open>The frame comes off as it went on\<close>

definition holds :: "mem \<Rightarrow> nat \<Rightarrow> u8 list \<Rightarrow> bool" where
  "holds m a bs \<longleftrightarrow> (\<forall>i < length bs. m (a + i) = Some (bs ! i))"

lemma holds_append: "holds m a (xs @ ys) \<longleftrightarrow> holds m a xs \<and> holds m (a + length xs) ys"
proof
  assume h: "holds m a (xs @ ys)"
  have "m (a + length xs + i) = Some (ys ! i)" if "i < length ys" for i
    using h that by (auto simp: holds_def nth_append add.assoc dest: spec [of _ "length xs + i"])
  with h show "holds m a xs \<and> holds m (a + length xs) ys"
    by (auto simp: holds_def nth_append dest: spec)
next
  assume h: "holds m a xs \<and> holds m (a + length xs) ys"
  show "holds m a (xs @ ys)" unfolding holds_def
  proof (intro allI impI)
    fix i assume i: "i < length (xs @ ys)"
    show "m (a + i) = Some ((xs @ ys) ! i)"
    proof (cases "i < length xs")
      case False
      with i have "i - length xs < length ys" "a + length xs + (i - length xs) = a + i" by auto
      with h False show ?thesis by (metis holds_def nth_append)
    qed (use h in \<open>simp add: holds_def nth_append\<close>)
  qed
qed

lemma holds_Cons: "holds m a (b # bs) \<longleftrightarrow> m a = Some b \<and> holds m (Suc a) bs"
  using holds_append [of m a "[b]" bs] by (simp add: holds_def)

lemma load_holds: "holds m a bs \<Longrightarrow> load m a (length bs) = Some bs"
  by (induction bs arbitrary: a) (simp_all add: holds_Cons)

lemma store_ok:
  "\<forall>i < length bs. m (a + i) \<noteq> None \<Longrightarrow>
     \<exists>m'. store m a bs = Some m' \<and> holds m' a bs \<and> (\<forall>x. x < a \<or> a + length bs \<le> x \<longrightarrow> m' x = m x) \<and>
       (\<forall>x. m x \<noteq> None \<longrightarrow> m' x \<noteq> None)"
proof (induction bs arbitrary: m a)
  case Nil
  then show ?case by (simp add: holds_def)
next
  case (Cons b bs)
  have "m a \<noteq> None" using Cons.prems by (auto dest: spec [of _ 0])
  moreover have "(m(a \<mapsto> b)) (Suc a + i) \<noteq> None" if "i < length bs" for i
    using Cons.prems that by (auto dest: spec [of _ "Suc i"])
  ultimately obtain m' where m': "store (m(a \<mapsto> b)) (Suc a) bs = Some m'" "holds m' (Suc a) bs"
    "\<forall>x. x < Suc a \<or> Suc a + length bs \<le> x \<longrightarrow> m' x = (m(a \<mapsto> b)) x"
    "\<forall>x. (m(a \<mapsto> b)) x \<noteq> None \<longrightarrow> m' x \<noteq> None"
    using Cons.IH [of "m(a \<mapsto> b)" "Suc a"] by blast
  have "m' a = Some b" using m'(3) by simp
  moreover have "\<forall>x. x < a \<or> a + length (b # bs) \<le> x \<longrightarrow> m' x = m x" using m'(3) by auto
  moreover have "\<forall>x. m x \<noteq> None \<longrightarrow> m' x \<noteq> None" using m'(4) by auto
  ultimately show ?case using m'(1,2) \<open>m a \<noteq> None\<close> by (auto simp: st_def holds_Cons)
qed

text \<open>The frame, from its lowest address up.\<close>

definition frame_bytes :: "intr_stack \<Rightarrow> nat \<Rightarrow> u8 list" where
  "frame_bytes stk signum =
     enc32 (r_esp stk - 83) @ enc32 signum @ [0xb8] @ enc32 SYS_SIGRETURN @ [0xcd, 0x80] @ enc_words (stack_words stk)"

lemma length_stack_words [simp]: "length (stack_words stk) = 19"
  by (simp add: stack_words_def)

lemma length_frame_bytes [simp]: "length (frame_bytes stk signum) = 91"
  by (simp add: frame_bytes_def)

lemma words_stack_stack_words [simp]: "words_stack (stack_words stk) = stk"
  by (simp add: words_stack_def stack_words_def)

text \<open>Storing a block just below a block keeps that one.\<close>

lemma store_below:
  assumes "holds m (a + length bs) cs" and "\<forall>i < length bs. m (a + i) \<noteq> None"
  shows "\<exists>m'. store m a bs = Some m' \<and> holds m' a (bs @ cs) \<and> (\<forall>x. x < a \<or> a + length bs \<le> x \<longrightarrow> m' x = m x)"
proof -
  from store_ok [OF assms(2)] obtain m' where m': "store m a bs = Some m'" "holds m' a bs"
    "\<forall>x. x < a \<or> a + length bs \<le> x \<longrightarrow> m' x = m x" by blast
  have "holds m' (a + length bs) cs" using assms(1) m'(3) by (simp add: holds_def)
  with m' show ?thesis by (auto simp: holds_append)
qed

lemma setup_frame_ok:
  assumes e: "91 \<le> r_esp stk" "r_esp stk < 4294967296"
    and mapped: "\<forall>a. r_esp stk - 91 \<le> a \<longrightarrow> a < r_esp stk \<longrightarrow> m a \<noteq> None"
  shows "\<exists>m'. setup_frame m stk signum handler = Some (m', stk\<lparr>r_esp := r_esp stk - 91, r_eip := handler\<rparr>)
    \<and> holds m' (r_esp stk - 91) (frame_bytes stk signum)
    \<and> (\<forall>x. x < r_esp stk - 91 \<or> r_esp stk \<le> x \<longrightarrow> m' x = m x)"
proof -
  let ?e = "r_esp stk"
  let ?b1 = "enc_words (stack_words stk)"
  have n: "\<exists>y. m a = Some y" if "?e - 91 \<le> a" "a < ?e" for a using mapped that by blast
  have "\<forall>i < length ?b1. m ((?e - 76) + i) \<noteq> None" using e(1) by (auto intro!: n)
  from store_ok [OF this] obtain m1 where m1: "store m (?e - 76) ?b1 = Some m1" "holds m1 (?e - 76) ?b1"
    "\<forall>x. x < ?e - 76 \<or> ?e - 76 + length ?b1 \<le> x \<longrightarrow> m1 x = m x" by blast
  let ?b2 = "[0xcd, 0x80] :: u8 list"
  have a2: "?e - 78 + length ?b2 = ?e - 76" using e(1) by simp
  have "holds m1 (?e - 78 + length ?b2) ?b1" unfolding a2 by (rule m1(2))
  moreover have "\<forall>i < length ?b2. m1 (?e - 78 + i) \<noteq> None" using m1(3) e(1) by (auto intro!: n)
  ultimately obtain m2 where m2: "store m1 (?e - 78) ?b2 = Some m2" "holds m2 (?e - 78) (?b2 @ ?b1)"
    "\<forall>x. x < ?e - 78 \<or> ?e - 78 + length ?b2 \<le> x \<longrightarrow> m2 x = m1 x" using store_below by blast
  let ?b3 = "enc32 SYS_SIGRETURN"
  have "holds m2 (?e - 82 + length ?b3) (?b2 @ ?b1)" using m2(2) e(1) by simp
  moreover have "\<forall>i < length ?b3. m2 (?e - 82 + i) \<noteq> None" using m1(3) m2(3) e(1) by (auto intro!: n)
  ultimately obtain m3 where m3: "store m2 (?e - 82) ?b3 = Some m3" "holds m3 (?e - 82) (?b3 @ ?b2 @ ?b1)"
    "\<forall>x. x < ?e - 82 \<or> ?e - 82 + length ?b3 \<le> x \<longrightarrow> m3 x = m2 x" using store_below by blast
  let ?b4 = "[0xb8] :: u8 list"
  have a4: "?e - 83 + length ?b4 = ?e - 82" using e(1) by simp
  have "holds m3 (?e - 83 + length ?b4) (?b3 @ ?b2 @ ?b1)" unfolding a4 by (rule m3(2))
  moreover have "\<forall>i < length ?b4. m3 (?e - 83 + i) \<noteq> None" using m1(3) m2(3) m3(3) e(1) by (auto intro!: n)
  ultimately obtain m4 where m4: "store m3 (?e - 83) ?b4 = Some m4" "holds m4 (?e - 83) (?b4 @ ?b3 @ ?b2 @ ?b1)"
    "\<forall>x. x < ?e - 83 \<or> ?e - 83 + length ?b4 \<le> x \<longrightarrow> m4 x = m3 x" using store_below by blast
  let ?b5 = "enc32 signum"
  have "holds m4 (?e - 87 + length ?b5) (?b4 @ ?b3 @ ?b2 @ ?b1)" using m4(2) e(1) by simp
  moreover have "\<forall>i < length ?b5. m4 (?e - 87 + i) \<noteq> None"
    using m1(3) m2(3) m3(3) m4(3) e(1) by (auto intro!: n)
  ultimately obtain m5 where m5: "store m4 (?e - 87) ?b5 = Some m5" "holds m5 (?e - 87) (?b5 @ ?b4 @ ?b3 @ ?b2 @ ?b1)"
    "\<forall>x. x < ?e - 87 \<or> ?e - 87 + length ?b5 \<le> x \<longrightarrow> m5 x = m4 x" using store_below by blast
  let ?b6 = "enc32 (?e - 83)"
  have "holds m5 (?e - 91 + length ?b6) (?b5 @ ?b4 @ ?b3 @ ?b2 @ ?b1)" using m5(2) e(1) by simp
  moreover have "\<forall>i < length ?b6. m5 (?e - 91 + i) \<noteq> None"
    using m1(3) m2(3) m3(3) m4(3) m5(3) e(1) by (auto intro!: n)
  ultimately obtain m6 where m6: "store m5 (?e - 91) ?b6 = Some m6" "holds m6 (?e - 91) (?b6 @ ?b5 @ ?b4 @ ?b3 @ ?b2 @ ?b1)"
    "\<forall>x. x < ?e - 91 \<or> ?e - 91 + length ?b6 \<le> x \<longrightarrow> m6 x = m5 x" using store_below by blast
  have "\<forall>x. x < ?e - 91 \<or> ?e \<le> x \<longrightarrow> m6 x = m x"
    using m1(3) m2(3) m3(3) m4(3) m5(3) m6(3) e(1) by auto
  moreover have "setup_frame m stk signum handler = Some (m6, stk\<lparr>r_esp := ?e - 91, r_eip := handler\<rparr>)"
    using m1(1) m2(1) m3(1) m4(1) m5(1) m6(1) e
    by (simp add: setup_frame_def intr_stack_size_def sub32_le Let_def del: store.simps)
  ultimately show ?thesis using m6(2) by (auto simp: frame_bytes_def)
qed

lemma frame_comes_off:
  assumes h: "holds m a (frame_bytes stk signum)" and a: "a = r_esp stk - 91" "91 \<le> r_esp stk" "r_esp u = a"
    and w: "\<forall>x \<in> set (stack_words stk). x < 4294967296"
  shows "\<exists>t. handler_ret m u = Some t \<and> r_eax t = SYS_SIGRETURN \<and> sys_sigreturn m t = Some (r_eax stk, stk)"
proof -
  let ?code = "[0xb8] @ enc32 SYS_SIGRETURN @ [0xcd, 0x80] :: u8 list"
  have e: "r_esp stk < 4294967296" using w by (simp add: stack_words_def)
  have f: "frame_bytes stk signum = enc32 (r_esp stk - 83) @ enc32 signum @ ?code @ enc_words (stack_words stk)"
    by (simp add: frame_bytes_def)
  have p: "holds m a (enc32 (r_esp stk - 83))" "holds m (a + 8) ?code" "holds m (a + 15) (enc_words (stack_words stk))"
    using h unfolding f holds_append by (simp_all add: add.assoc)
  have ra: "dec32 (enc32 (r_esp stk - 83)) = a + 8" using a e by simp
  have c: "length ?code = 7" by simp
  have "load m a 4 = Some (enc32 (r_esp stk - 83))" using load_holds [OF p(1)] by simp
  moreover have "load m (a + 8) 7 = Some ?code" using load_holds [OF p(2)] unfolding c .
  moreover have "?code ! 0 = 0xb8 \<and> ?code ! 5 = 0xcd \<and> ?code ! 6 = 0x80"
    by (simp add: nth_append nth_Cons' enc32_def)
  moreover have "dec32 (tl ?code) = SYS_SIGRETURN" by (simp add: SYS_SIGRETURN_def)
  ultimately have "handler_ret m u = Some (u\<lparr>r_eax := SYS_SIGRETURN, r_eip := a + 15, r_esp := a + 4\<rparr>)"
    using a(3) ra by (simp add: handler_ret_def)
  moreover have "load m (a + 15) 76 = Some (enc_words (stack_words stk))" using load_holds [OF p(3)] by simp
  moreover have "dec_words 19 (enc_words (stack_words stk)) = stack_words stk"
    using dec_words_enc_words [OF w, of "[]"] by simp
  ultimately show ?thesis by (simp add: sys_sigreturn_def intr_stack_size_def)
qed

text \<open>
  The signal that is acted on is the lowest one that is pending and not ignored.
\<close>

definition actionable :: "task_struct \<Rightarrow> nat \<Rightarrow> bool" where
  "actionable x i \<longleftrightarrow> bit (signal_bits x) i \<and> sighandlers x ! i \<noteq> SIG_IGN"

definition acts_from :: "task_struct \<Rightarrow> nat \<Rightarrow> sig_action \<Rightarrow> bool" where
  "acts_from x i a \<longleftrightarrow>
    (case a of No_signal \<Rightarrow> \<forall>j. i \<le> j \<longrightarrow> j < MAX_SIGNALS \<longrightarrow> \<not> actionable x j
     | Terminate n \<Rightarrow> i \<le> n \<and> n < MAX_SIGNALS \<and> actionable x n \<and> sighandlers x ! n = SIG_DFL \<and>
         (\<forall>j. i \<le> j \<longrightarrow> j < n \<longrightarrow> \<not> actionable x j)
     | Deliver n h \<Rightarrow> i \<le> n \<and> n < MAX_SIGNALS \<and> actionable x n \<and> sighandlers x ! n = h \<and> h \<noteq> SIG_DFL \<and>
         (\<forall>j. i \<le> j \<longrightarrow> j < n \<longrightarrow> \<not> actionable x j))"

lemma acts_from_skip: "\<not> actionable x i \<Longrightarrow> acts_from x (Suc i) a \<Longrightarrow> acts_from x i a"
  by (cases a; simp add: acts_from_def; metis Suc_leD Suc_leI le_neq_implies_less)

lemma next_signal_spec:
  "length (sighandlers x) = MAX_SIGNALS \<Longrightarrow> \<exists>a. next_signal x i = Some a \<and> acts_from x i a"
proof (induction x i rule: next_signal.induct)
  case (1 x i)
  show ?case
  proof (cases "i < MAX_SIGNALS")
    case False
    then have "next_signal x i = Some No_signal" by (simp add: next_signal.simps [of x i])
    with False show ?thesis by (auto simp: acts_from_def)
  next
    case in_range: True
    show ?thesis
    proof (cases "actionable x i")
      case True
      with in_range 1(3) show ?thesis
        by (auto simp: next_signal.simps [of x i] actionable_def acts_from_def)
    next
      case False
      have nx: "next_signal x i = next_signal x (Suc i)"
        using False in_range 1(3) by (auto simp: next_signal.simps [of x i] actionable_def)
      have "\<exists>a. next_signal x (Suc i) = Some a \<and> acts_from x (Suc i) a"
        using 1 in_range False by (cases "bit (signal_bits x) i") (auto simp: actionable_def)
      with acts_from_skip [OF False] nx show ?thesis by auto
    qed
  qed
qed

section \<open>Properties\<close>

text \<open>The user stack has room for the frame, and the saved registers are 32-bit values.\<close>

definition frame_room :: "mem \<Rightarrow> intr_stack \<Rightarrow> bool" where
  "frame_room m stk \<longleftrightarrow> 91 \<le> r_esp stk \<and> (\<forall>x \<in> set (stack_words stk). x < 4294967296) \<and>
     (\<forall>a. r_esp stk - 91 \<le> a \<longrightarrow> a < r_esp stk \<longrightarrow> m a \<noteq> None)"

lemma next_signal_lowest:
  assumes "length (sighandlers x) = MAX_SIGNALS" and "i < MAX_SIGNALS" and "actionable x i"
    and "\<forall>j < i. \<not> actionable x j" and "sighandlers x ! i \<noteq> SIG_DFL"
  shows "next_signal x 0 = Some (Deliver i (sighandlers x ! i))"
proof -
  from next_signal_spec [OF assms(1), of 0] obtain a where a: "next_signal x 0 = Some a" "acts_from x 0 a" by blast
  have same: "n = i" if "actionable x n" "\<forall>j. 0 \<le> j \<longrightarrow> j < n \<longrightarrow> \<not> actionable x j" for n
    using that assms(3,4) by (metis le0 linorder_neqE_nat)
  show ?thesis
  proof (cases a)
    case No_signal
    with a(2) assms(2,3) show ?thesis by (auto simp: acts_from_def)
  next
    case (Deliver n h)
    with a same [of n] show ?thesis by (auto simp: acts_from_def)
  next
    case (Terminate n)
    with a same [of n] assms(5) show ?thesis by (auto simp: acts_from_def)
  qed
qed

text \<open>
  Property C16. When the lowest pending signal that is not ignored has a handler, the thread
  goes to that handler with the signal's number as its argument and exactly this signal is no
  longer pending. When the handler returns with its stack balanced and the frame untouched, the
  code on the stack issues the system call \<open>SYS_SIGRETURN\<close>, which restores every register of
  the interrupted state. A thread whose pending signals are all ignored goes on unchanged, with
  the signals still pending.
\<close>

theorem check_signal_roundtrip:
  assumes "running_thread k = Some x" and "length (sighandlers x) = MAX_SIGNALS" and "frame_room m stk"
  shows "(\<forall>i < MAX_SIGNALS. actionable x i \<longrightarrow> (\<forall>j < i. \<not> actionable x j) \<longrightarrow> sighandlers x ! i \<noteq> SIG_DFL \<longrightarrow>
      (\<exists>k' m' stk'. check_signal k m stk = Some (False, k', m', stk')
        \<and> tasks k' = (tasks k)(running k \<mapsto> x\<lparr>signal_bits := signal_bits x AND NOT (push_bit i 1)\<rparr>)
        \<and> r_eip stk' = sighandlers x ! i \<and> load m' (r_esp stk' + 4) 4 = Some (enc32 i)
        \<and> (\<forall>m'' u. (\<forall>a. r_esp stk' \<le> a \<longrightarrow> a < r_esp stk \<longrightarrow> m'' a = m' a) \<longrightarrow> r_esp u = r_esp stk' \<longrightarrow>
             (\<exists>t. handler_ret m'' u = Some t \<and> r_eax t = SYS_SIGRETURN
                \<and> sys_sigreturn m'' t = Some (r_eax stk, stk)))))
    \<and> ((\<forall>i < MAX_SIGNALS. \<not> actionable x i) \<longrightarrow> check_signal k m stk = Some (False, k, m, stk))"
proof (intro conjI allI impI)
  fix i assume i: "i < MAX_SIGNALS" "actionable x i" "\<forall>j < i. \<not> actionable x j" "sighandlers x ! i \<noteq> SIG_DFL"
  from next_signal_lowest [OF assms(2) i] have nx: "next_signal x 0 = Some (Deliver i (sighandlers x ! i))" .
  have e: "91 \<le> r_esp stk" "r_esp stk < 4294967296" and w: "\<forall>y \<in> set (stack_words stk). y < 4294967296"
    and mp: "\<forall>a. r_esp stk - 91 \<le> a \<longrightarrow> a < r_esp stk \<longrightarrow> m a \<noteq> None"
    using assms(3) by (auto simp: frame_room_def stack_words_def)
  from setup_frame_ok [OF e mp] obtain m' where m':
    "setup_frame m stk i (sighandlers x ! i) = Some (m', stk\<lparr>r_esp := r_esp stk - 91, r_eip := sighandlers x ! i\<rparr>)"
    "holds m' (r_esp stk - 91) (frame_bytes stk i)" by blast
  let ?stk = "stk\<lparr>r_esp := r_esp stk - 91, r_eip := sighandlers x ! i\<rparr>"
  let ?k = "k\<lparr>tasks := (tasks k)(running k \<mapsto> x\<lparr>signal_bits := signal_bits x AND NOT (push_bit i 1)\<rparr>)\<rparr>"
  have "check_signal k m stk = Some (False, ?k, m', ?stk)"
    using assms(1) nx m'(1)
    by (cases k) (simp add: check_signal_def intr_disable_def intr_set_status_def intr_enable_def running_thread_def upd_task_def)
  moreover have "load m' (r_esp ?stk + 4) 4 = Some (enc32 i)"
  proof -
    have "holds m' (r_esp stk - 91 + 4) (enc32 i)" using m'(2) unfolding frame_bytes_def holds_append by simp
    from load_holds [OF this] show ?thesis by simp
  qed
  moreover have "\<exists>t. handler_ret m'' u = Some t \<and> r_eax t = SYS_SIGRETURN \<and> sys_sigreturn m'' t = Some (r_eax stk, stk)"
    if "\<forall>a. r_esp ?stk \<le> a \<longrightarrow> a < r_esp stk \<longrightarrow> m'' a = m' a" "r_esp u = r_esp ?stk" for m'' and u :: intr_stack
  proof -
    have "holds m'' (r_esp stk - 91) (frame_bytes stk i)"
      using m'(2) that(1) e(1) by (simp add: holds_def)
    from frame_comes_off [OF this refl e(1) _ w, of u] that(2) show ?thesis by simp
  qed
  ultimately show "\<exists>k' m' stk'. check_signal k m stk = Some (False, k', m', stk')
        \<and> tasks k' = (tasks k)(running k \<mapsto> x\<lparr>signal_bits := signal_bits x AND NOT (push_bit i 1)\<rparr>)
        \<and> r_eip stk' = sighandlers x ! i \<and> load m' (r_esp stk' + 4) 4 = Some (enc32 i)
        \<and> (\<forall>m'' u. (\<forall>a. r_esp stk' \<le> a \<longrightarrow> a < r_esp stk \<longrightarrow> m'' a = m' a) \<longrightarrow> r_esp u = r_esp stk' \<longrightarrow>
             (\<exists>t. handler_ret m'' u = Some t \<and> r_eax t = SYS_SIGRETURN
                \<and> sys_sigreturn m'' t = Some (r_eax stk, stk)))"
    by (intro exI [of _ ?k] exI [of _ m'] exI [of _ ?stk]) auto
next
  assume none: "\<forall>i < MAX_SIGNALS. \<not> actionable x i"
  from next_signal_spec [OF assms(2), of 0] obtain a where a: "next_signal x 0 = Some a" "acts_from x 0 a" by blast
  with none have "a = No_signal" by (cases a) (auto simp: acts_from_def)
  with a(1) assms(1) show "check_signal k m stk = Some (False, k, m, stk)"
    by (cases k) (auto simp: check_signal_def intr_disable_def intr_set_status_def intr_enable_def running_thread_def)
qed

definition demo_stack :: intr_stack where
  "demo_stack = words_stack (map (\<lambda>i. 2000 + i) [0..<19])"

text \<open>Signal 1 is ignored, signal 2 has a handler, and both are pending.\<close>

definition demo_sig_kst :: kst where
  "demo_sig_kst = demo_kst\<lparr>tasks := (tasks demo_kst)(running demo_kst \<mapsto>
     (demo_task TASK_RUNNING 31 2 0)\<lparr>signal_bits := 6, sighandlers := [2, 1, 0x8048000] @ replicate 13 2\<rparr>)\<rparr>"

theorem check_signal_roundtrip_witness:
  "\<exists>k' m' stk' t. check_signal demo_sig_kst (\<lambda>a. Some 0) demo_stack = Some (False, k', m', stk')
     \<and> r_eip stk' = 0x8048000 \<and> load m' (r_esp stk' + 4) 4 = Some (enc32 2)
     \<and> handler_ret m' stk' = Some t \<and> sys_sigreturn m' t = Some (r_eax demo_stack, demo_stack)"
proof -
  let ?x = "(demo_task TASK_RUNNING 31 2 0)\<lparr>signal_bits := 6, sighandlers := [2, 1, 0x8048000] @ replicate 13 2\<rparr>"
  have r: "running_thread demo_sig_kst = Some ?x" by (simp add: running_thread_def demo_sig_kst_def)
  have l: "length (sighandlers ?x) = MAX_SIGNALS" by (simp add: MAX_SIGNALS_def)
  have room: "frame_room (\<lambda>a. Some 0) demo_stack"
    by (simp add: frame_room_def demo_stack_def words_stack_def stack_words_def)
  have b: "bit (6 :: u32) i \<longleftrightarrow> i = 1 \<or> i = 2" if "i \<le> 2" for i
  proof -
    from that consider "i = 0" | "i = 1" | "i = 2" by linarith
    then show ?thesis by cases (simp_all add: bit_iff_odd)
  qed
  have a: "actionable ?x 2" "\<forall>j < 2. \<not> actionable ?x j" "sighandlers ?x ! 2 \<noteq> SIG_DFL" "sighandlers ?x ! 2 = 0x8048000"
    using b by (auto simp: actionable_def SIG_IGN_def SIG_DFL_def numeral_2_eq_2 less_Suc_eq)
  have "2 < MAX_SIGNALS" by (simp add: MAX_SIGNALS_def)
  with check_signal_roundtrip [OF r l room] a obtain k' m' stk' where
    c: "check_signal demo_sig_kst (\<lambda>a. Some 0) demo_stack = Some (False, k', m', stk')"
    "r_eip stk' = sighandlers ?x ! 2" "load m' (r_esp stk' + 4) 4 = Some (enc32 2)"
    "\<forall>m'' u. (\<forall>a. r_esp stk' \<le> a \<longrightarrow> a < r_esp demo_stack \<longrightarrow> m'' a = m' a) \<longrightarrow> r_esp u = r_esp stk' \<longrightarrow>
       (\<exists>t. handler_ret m'' u = Some t \<and> r_eax t = SYS_SIGRETURN
          \<and> sys_sigreturn m'' t = Some (r_eax demo_stack, demo_stack))" by blast
  from c(4) [rule_format, of m' stk'] obtain t where
    "handler_ret m' stk' = Some t" "sys_sigreturn m' t = Some (r_eax demo_stack, demo_stack)" by blast
  with c(1-3) a(4) show ?thesis by auto
qed

end
