(* ===== verification/Pipe.thy ===== *)
theory Pipe
  imports Signal File Ioqueue
begin

text \<open>
  \<open>src/src/ipc/pipe.c\<close>: anonymous pipes over the circular buffer of theory \<open>Ioqueue\<close>, and the
  redirection of descriptors. The state puts the threads and the memory, the files of the
  running thread, the pipes by the address of their page, and the registers a process has
  saved at the top of its kernel stack side by side.

  A read or a write that has to wait inside the buffer is given up to that point, with the
  bytes it has moved; it goes on with the rest. The lock of a pipe is held over such a wait,
  so its holder (0 is nobody) is part of the state.
\<close>

record pipe_struct =
  p_lock :: nat
  pq :: ioqueue
  has_reader :: int
  has_writer :: int

record sys =
  kern :: kst
  files :: fs
  pipes :: "nat \<rightharpoonup> pipe_struct"
  istacks :: "nat \<rightharpoonup> intr_stack"

text \<open>The page is zeroed, and it is large enough for the structure.\<close>

definition create_pipe :: "sys \<Rightarrow> (nat \<times> sys) option" where
  "create_pipe s =
     do { (p, m) \<leftarrow> get_kernel_pages (km (kern s)) 1;
          let s = s\<lparr>kern := (kern s)\<lparr>km := m\<rparr>\<rparr> in
          if p \<noteq> 0
          then Some (p, s\<lparr>pipes := (pipes s)(p \<mapsto>
            \<lparr>p_lock = 0, pq = ioqueue_init \<lparr>ioq_buf = replicate bufsize 0, ioq_head = 0, ioq_tail = 0, ioq_closed = False\<rparr>,
             has_reader = 0, has_writer = 0\<rparr>)\<rparr>)
          else Some (0, s) }"

definition release_pipe :: "sys \<Rightarrow> nat \<Rightarrow> sys option" where
  "release_pipe s p =
     do { m \<leftarrow> mfree_page (km (kern s)) PF_KERNEL p 1;
          Some (s\<lparr>kern := (kern s)\<lparr>km := m\<rparr>, pipes := (pipes s)(p := None)\<rparr>) }"

definition upd_pipe :: "sys \<Rightarrow> nat \<Rightarrow> (pipe_struct \<Rightarrow> pipe_struct) \<Rightarrow> sys option" where
  "upd_pipe s p f = do { x \<leftarrow> pipes s p; Some (s\<lparr>pipes := (pipes s)(p \<mapsto> f x)\<rparr>) }"

text \<open>Setting up one end in a slot of the file table.\<close>

definition init_end :: "fs \<Rightarrow> int \<Rightarrow> fops \<Rightarrow> nat \<Rightarrow> fs option" where
  "init_end f gfd ops p =
     upd_file f (nat gfd) (\<lambda>x. (init_file_struct x)\<lparr>count := 1, fd_flag := O_RDWR, op := ops, private_data := p\<rparr>)"

text \<open>The result, \<open>pipefd\<close> when it is written, and the state. A full descriptor table puts -1 there.\<close>

definition sys_pipe :: "sys \<Rightarrow> (int \<times> (int \<times> int) option \<times> sys) option" where
  "sys_pipe s =
     do { (pp, s) \<leftarrow> create_pipe s;
          if pp = 0 then Some (- 1, None, s)
          else
            do { (reader_gfd, f) \<leftarrow> get_free_slot_in_global (files s);
                 if reader_gfd = - 1 then do { s \<leftarrow> release_pipe (s\<lparr>files := f\<rparr>) pp; Some (- 1, None, s) }
                 else
                   do { (writer_gfd, f) \<leftarrow> get_free_slot_in_global f;
                        if writer_gfd = - 1
                        then do { f \<leftarrow> release_free_slot_in_global f reader_gfd;
                                  s \<leftarrow> release_pipe (s\<lparr>files := f\<rparr>) pp; Some (- 1, None, s) }
                        else
                          do { f \<leftarrow> init_end f reader_gfd Pipe_reader_ops pp;
                               s \<leftarrow> upd_pipe s pp (\<lambda>x. x\<lparr>has_reader := 1\<rparr>);
                               f \<leftarrow> init_end f writer_gfd Pipe_writer_ops pp;
                               s \<leftarrow> upd_pipe s pp (\<lambda>x. x\<lparr>has_writer := 1\<rparr>);
                               (a, f) \<leftarrow> pcb_fd_install f reader_gfd;
                               (b, f) \<leftarrow> pcb_fd_install f writer_gfd;
                               Some (0, Some (a, b), s\<lparr>files := f\<rparr>) } } } }"

text \<open>The descriptors are unsigned. Both counters change, also for the standard descriptors.\<close>

definition sys_fd_redirect :: "fs \<Rightarrow> nat \<Rightarrow> nat \<Rightarrow> fs option" where
  "sys_fd_redirect f old_local_fd new_local_fd =
     do { old \<leftarrow> rd (fd_table f) old_local_fd;
          kassert (0 \<le> old \<and> old < int MAX_FILE_OPEN);
          new \<leftarrow> rd (fd_table f) new_local_fd;
          kassert (0 \<le> new \<and> new < int MAX_FILE_OPEN);
          t \<leftarrow> wr (fd_table f) old_local_fd (if new_local_fd < 3 then int new_local_fd else new);
          f \<leftarrow> upd_file (f\<lparr>fd_table := t\<rparr>) (nat old) (\<lambda>x. x\<lparr>count := count x - 1\<rparr>);
          upd_file f (nat new) (\<lambda>x. x\<lparr>count := count x + 1\<rparr>) }"

section \<open>Reading, writing and closing\<close>

text \<open>The bytes read, and whether the reader waits for more.\<close>

definition anon_pipe_read :: "pipe_struct \<Rightarrow> nat \<Rightarrow> (u8 list \<times> bool \<times> pipe_struct) option" where
  "anon_pipe_read p cnt =
     do { (bs, w, q) \<leftarrow> get_bytes ioq_getchar (pq p) cnt; Some (bs, w, p\<lparr>pq := q\<rparr>) }"

text \<open>A caller that does not get the lock has to wait for it.\<close>

definition p_free :: "pipe_struct \<Rightarrow> nat \<Rightarrow> bool" where
  "p_free p t \<longleftrightarrow> p_lock p = 0 \<or> p_lock p = t"

text \<open>The writer \<open>t\<close>: the bytes written and whether it waits for room, which it does with the lock.\<close>

definition anon_pipe_write :: "pipe_struct \<Rightarrow> nat \<Rightarrow> u8 list \<Rightarrow> (nat \<times> bool \<times> pipe_struct) io option" where
  "anon_pipe_write p t bs =
     (if \<not> p_free p t then Some Blocks
      else do { (n, w, q) \<leftarrow> put_bytes ioq_putchar (pq p) bs;
                Some (Returns (n, w, p\<lparr>pq := q, p_lock := (if w then t else 0)\<rparr>)) })"

text \<open>Closing an end; the flag tells that the pipe is to be destroyed.\<close>

definition close_reader :: "pipe_struct \<Rightarrow> nat \<Rightarrow> (bool \<times> pipe_struct) io" where
  "close_reader p t =
     (if \<not> p_free p t then Blocks
      else Returns (has_writer p = 0, p\<lparr>has_reader := 0, pq := ioq_close (pq p)\<rparr>))"

definition close_writer :: "pipe_struct \<Rightarrow> nat \<Rightarrow> (bool \<times> pipe_struct) io" where
  "close_writer p t =
     (if \<not> p_free p t then Blocks
      else Returns (has_reader p = 0, p\<lparr>has_writer := 0, pq := ioq_close (pq p)\<rparr>))"

definition release_end :: "sys \<Rightarrow> nat \<Rightarrow> (bool \<times> pipe_struct) io \<Rightarrow> sys io option" where
  "release_end s pp r =
     (case r of Blocks \<Rightarrow> Some Blocks
      | Returns (destroy, p) \<Rightarrow>
          (let s = s\<lparr>pipes := (pipes s)(pp \<mapsto> p)\<rparr> in
           if destroy then do { s \<leftarrow> release_pipe s pp; Some (Returns s) } else Some (Returns s)))"

definition anon_pipe_release_reader :: "sys \<Rightarrow> nat \<Rightarrow> sys io option" where
  "anon_pipe_release_reader s fi =
     do { x \<leftarrow> rd (file_table (files s)) fi;
          p \<leftarrow> pipes s (private_data x);
          release_end s (private_data x) (close_reader p (running (kern s))) }"

definition anon_pipe_release_writer :: "sys \<Rightarrow> nat \<Rightarrow> sys io option" where
  "anon_pipe_release_writer s fi =
     do { x \<leftarrow> rd (file_table (files s)) fi;
          p \<leftarrow> pipes s (private_data x);
          release_end s (private_data x) (close_writer p (running (kern s))) }"

section \<open>Properties\<close>

text \<open>A writer and a reader of a pipe that take turns, until both are done.\<close>

fun pipe_turns :: "nat \<Rightarrow> pipe_struct \<Rightarrow> nat \<Rightarrow> u8 list \<Rightarrow> nat \<Rightarrow> (u8 list \<times> pipe_struct) option" where
  "pipe_turns 0 p t out n = None"
| "pipe_turns (Suc k) p t out n =
     do { r \<leftarrow> anon_pipe_write p t out;
          case r of Blocks \<Rightarrow> None
          | Returns (m, w, p) \<Rightarrow>
              do { (bs, v, p) \<leftarrow> anon_pipe_read p n;
                   if \<not> w \<and> \<not> v then Some (bs, p)
                   else do { (cs, p) \<leftarrow> pipe_turns k p t (drop m out) (n - length bs); Some (bs @ cs, p) } } }"

lemma pipe_turns_take_turns:
  assumes "p_free p t" and "take_turns ioq_putchar ioq_getchar k (pq p) out n = Some (bs, q)"
  shows "\<exists>p'. pipe_turns k p t out n = Some (bs, p') \<and> pq p' = q"
  using assms
proof (induction k arbitrary: p out n bs)
  case 0
  then show ?case by simp
next
  case (Suc k)
  from Suc.prems(2) obtain m w q1 cs v q2 where
    w: "put_bytes ioq_putchar (pq p) out = Some (m, w, q1)" and
    r: "get_bytes ioq_getchar q1 n = Some (cs, v, q2)" and
    e: "(if \<not> w \<and> \<not> v then Some (cs, q2) else do { (ds, s) \<leftarrow> take_turns ioq_putchar ioq_getchar k q2 (drop m out) (n - length cs); Some (cs @ ds, s) }) = Some (bs, q)"
    by (auto simp: outcome_simps)
  let ?p = "p\<lparr>pq := q2, p_lock := (if w then t else 0)\<rparr>"
  have a: "anon_pipe_write p t out = Some (Returns (m, w, p\<lparr>pq := q1, p_lock := (if w then t else 0)\<rparr>))"
    using Suc.prems(1) w by (simp add: anon_pipe_write_def)
  have b: "anon_pipe_read (p\<lparr>pq := q1, p_lock := (if w then t else 0)\<rparr>) n = Some (cs, v, ?p)"
    using r by (simp add: anon_pipe_read_def)
  show ?case
  proof (cases "\<not> w \<and> \<not> v")
    case True
    with a b e show ?thesis by auto
  next
    case False
    with e obtain ds where ds: "take_turns ioq_putchar ioq_getchar k (pq ?p) (drop m out) (n - length cs) = Some (ds, q)"
      "bs = cs @ ds" by (auto simp: outcome_simps split: if_splits)
    have "p_free ?p t" by (simp add: p_free_def)
    from Suc.IH [OF this ds(1)] False a b ds(2) show ?thesis by auto
  qed
qed

text \<open>
  Property C26. However much is written to a pipe, a writer and a reader of the same count that
  take turns both come to their end, after at most one turn for each byte and one more, and
  the reader has got exactly the bytes that were written, in order.
\<close>

theorem pipe_transfer_completes:
  assumes "ioq_ok (pq p)" and "\<not> ioq_closed (pq p)" and "contents (pq p) = []" and "p_free p t"
  shows "\<exists>p'. pipe_turns (length out + 1) p t out (length out) = Some (out, p') \<and> contents (pq p') = []"
proof -
  from ioq.take_turns_complete [OF assms(1-3) order_refl, of out] obtain q where
    "take_turns ioq_putchar ioq_getchar (Suc (length out)) (pq p) out (length out) = Some (out, q)" "contents q = []" by blast
  with pipe_turns_take_turns [OF assms(4), of "Suc (length out)" out "length out" out q] show ?thesis
    unfolding Suc_eq_plus1 by auto
qed

definition demo_pipe :: pipe_struct where
  "demo_pipe = \<lparr>p_lock = 0, pq = ioqueue_init demo_queue, has_reader = 1, has_writer = 1\<rparr>"

lemma demo_pipe_ok: "ioq_ok (pq demo_pipe)" "\<not> ioq_closed (pq demo_pipe)" "contents (pq demo_pipe) = []"
  by (simp_all add: demo_pipe_def ioqueue_init_def ioq_ok_def demo_queue_def bufsize_def contents_def ioq_length_def)

theorem pipe_transfer_completes_witness:
  "\<exists>p'. pipe_turns (length (replicate 5000 (42 :: u8)) + 1) demo_pipe 9 (replicate 5000 42) (length (replicate 5000 (42 :: u8)))
     = Some (replicate 5000 42, p') \<and> contents (pq p') = []"
  by (rule pipe_transfer_completes [OF demo_pipe_ok]) (simp add: p_free_def demo_pipe_def)

text \<open>
  Property C27. A reader that closes its end while a writer waits for room is stuck, and so is
  the writer: the writer holds the pipe's lock while it waits, the reader needs that lock
  before it can close the buffer and wake the writer, and each attempt leaves the pipe as it is.
\<close>

theorem pipe_close_deadlock:
  assumes "ioq_ok (pq p)" and "\<not> ioq_closed (pq p)" and "2047 < length (contents (pq p)) + length bs"
    and "p_free p w" and "w \<noteq> 0" and "r \<noteq> w"
  shows "\<exists>n p'. anon_pipe_write p w bs = Some (Returns (n, True, p')) \<and> n < length bs
    \<and> close_reader p' r = Blocks \<and> anon_pipe_write p' w (drop n bs) = Some (Returns (0, True, p'))"
proof -
  have b: "bufsize - 1 = 2047" by (simp add: bufsize_def)
  have le: "length (contents (pq p)) \<le> 2047" using ioq_length_less [OF assms(1)] by (simp add: bufsize_def)
  with assms(3) have m: "min (length bs) (2047 - length (contents (pq p))) = 2047 - length (contents (pq p))"
    "2047 - length (contents (pq p)) < length bs" by linarith+
  from ioq.put_bytes_open [OF assms(1,2), of bs] obtain q where q:
    "put_bytes ioq_putchar (pq p) bs = Some (2047 - length (contents (pq p)), True, q)" "ioq_ok q" "\<not> ioq_closed q"
    "contents q = contents (pq p) @ take (2047 - length (contents (pq p))) bs" unfolding b m(1) using m(2) by auto
  let ?p = "p\<lparr>pq := q, p_lock := w\<rparr>"
  have full: "length (contents q) = 2047" unfolding q(4) using le m by (simp add: min.commute del: length_contents)
  let ?n = "2047 - length (contents (pq p))"
  have lt: "?n < length bs" by (rule m(2))
  then obtain c cs where "drop ?n bs = c # cs" by (metis Cons_nth_drop_Suc)
  moreover have "ioq_putchar q c = Some Blocks" for c
    using ioq.put_full [OF q(2,3)] full by (simp add: b)
  ultimately have "put_bytes ioq_putchar (pq ?p) (drop ?n bs) = Some (0, True, q)" by simp
  then have "anon_pipe_write ?p w (drop ?n bs) = Some (Returns (0, True, ?p))"
    by (simp add: anon_pipe_write_def p_free_def)
  moreover have "close_reader ?p r = Blocks" using assms(5,6) by (simp add: close_reader_def p_free_def)
  moreover have "anon_pipe_write p w bs = Some (Returns (?n, True, ?p))"
    using q(1) assms(4) by (simp add: anon_pipe_write_def)
  ultimately show ?thesis using lt by blast
qed

theorem pipe_close_deadlock_witness:
  "\<exists>n p'. anon_pipe_write demo_pipe 9 (replicate 3000 42) = Some (Returns (n, True, p')) \<and> n < length (replicate 3000 (42 :: u8))
     \<and> close_reader p' 8 = Blocks \<and> anon_pipe_write p' 9 (drop n (replicate 3000 42)) = Some (Returns (0, True, p'))"
  by (rule pipe_close_deadlock [OF demo_pipe_ok(1,2)]) (simp_all add: p_free_def demo_pipe_def demo_pipe_ok(3) del: length_contents)

end
