(* ===== verification/Tty.thy ===== *)
theory Tty
  imports Signal Ioqueue
begin

text \<open>
  \<open>src/src/device/tty.c\<close>: the line discipline of the terminal. Keys edit a line, the end of a
  line moves it into the buffer a reader takes it from, and control keys signal the
  foreground process. What is echoed is the list of bytes given to the console.
\<close>

definition N_TTY_LINE_BUF_SIZE :: nat where "N_TTY_LINE_BUF_SIZE = 1024"

abbreviation BS :: u8 where "BS \<equiv> 8"
abbreviation CR :: u8 where "CR \<equiv> 13"
abbreviation NL :: u8 where "NL \<equiv> 10"
definition CTRL_C :: u8 where "CTRL_C = 0x43 XOR 0x40"
definition CTRL_D :: u8 where "CTRL_D = 0x44 XOR 0x40"
definition CTRL_U :: u8 where "CTRL_U = 0x55 XOR 0x40"
definition CTRL_L :: u8 where "CTRL_L = 0x4c XOR 0x40"
definition SIGINT :: int where "SIGINT = 2"

text \<open>\<open>line_size\<close> is an \<open>int\<close>; \<open>fg_pid\<close> belongs to the terminal the data hang on.\<close>

record n_tty_data =
  buffer :: ioqueue
  line_buf :: "u8 list"
  line_size :: int
  ctrl :: u8
  fg_pid :: int

definition n_tty_open :: "u8 list \<Rightarrow> u8 list \<Rightarrow> int \<Rightarrow> n_tty_data" where
  "n_tty_open old_buf old_line p =
     \<lparr>buffer = ioqueue_init \<lparr>ioq_buf = old_buf, ioq_head = 0, ioq_tail = 0, ioq_closed = False\<rparr>,
      line_buf = old_line, line_size = 0, ctrl = 0, fg_pid = p\<rparr>"

definition n_tty_close :: "n_tty_data \<Rightarrow> n_tty_data" where
  "n_tty_close t = t\<lparr>buffer := ioq_close (buffer t)\<rparr>"

definition n_tty_read :: "n_tty_data \<Rightarrow> nat \<Rightarrow> (int \<times> u8 list \<times> n_tty_data) io option" where
  "n_tty_read t nr =
     do { r \<leftarrow> ioq_read_some (buffer t) nr;
          case r of Blocks \<Rightarrow> Some Blocks
          | Returns (n, bs, q) \<Rightarrow>
              Some (Returns (if ctrl t = CTRL_C \<or> ctrl t = CTRL_D then n - 1 else n, bs, t\<lparr>buffer := q\<rparr>)) }"

text \<open>
  The console (\<open>src/src/device/console.c\<close>) prints up to a zero byte; a text that ends before that has
  no outcome. The terminal answers that all bytes were written.
\<close>

fun console_put_str_n :: "u8 list \<Rightarrow> nat \<Rightarrow> u8 list option" where
  "console_put_str_n str 0 = Some []"
| "console_put_str_n [] (Suc n) = None"
| "console_put_str_n (c # cs) (Suc n) = (if c = 0 then Some [] else do { out \<leftarrow> console_put_str_n cs n; Some (c # out) })"

definition n_tty_write :: "u8 list \<Rightarrow> nat \<Rightarrow> (int \<times> u8 list) option" where
  "n_tty_write bs nr = do { out \<leftarrow> console_put_str_n bs nr; Some (sint (word_of_nat nr :: u32), out) }"

lemma console_put_str_n_prefix: "console_put_str_n bs (length bs) = Some (takeWhile (\<lambda>b. b \<noteq> 0) bs)"
  by (induction bs) simp_all

definition echo :: "u8 \<Rightarrow> u8 list" where
  "echo ch = (if ch = CTRL_C then [0x5e, 0x43, NL] else if ch = CTRL_D then [0x5e, 0x44, NL] else [ch])"

text \<open>\<open>while (n--)\<close> with a negative count runs until the \<open>int\<close> overflows.\<close>

definition clear_line_input :: "n_tty_data \<Rightarrow> (u8 list \<times> n_tty_data) option" where
  "clear_line_input t =
     do { kassert (0 \<le> line_size t);
          Some (concat (replicate (nat (line_size t)) (echo BS)), t\<lparr>line_size := 0\<rparr>) }"

definition put_line :: "n_tty_data \<Rightarrow> u8 \<Rightarrow> n_tty_data option" where
  "put_line t ch =
     do { kassert (0 \<le> line_size t);
          xs \<leftarrow> wr (line_buf t) (nat (line_size t)) ch;
          Some (t\<lparr>line_buf := xs, line_size := line_size t + 1\<rparr>) }"

text \<open>The first switch: the character as it is used afterwards, or none after \<open>continue\<close>.\<close>

definition receive_char :: "kst \<Rightarrow> n_tty_data \<Rightarrow> u8 \<Rightarrow> (u8 list \<times> u8 option \<times> kst \<times> n_tty_data) option" where
  "receive_char k t ch =
     (if ch = BS then Some ([], Some ch, k, t\<lparr>line_size := line_size t - 1\<rparr>)
      else if ch = CTRL_U then do { (out, t) \<leftarrow> clear_line_input t; Some (out, None, k, t) }
      else if ch = CTRL_C then
        do { (r, k) \<leftarrow> sys_kill k (fg_pid t) SIGINT; t \<leftarrow> put_line t 0xff; Some ([], Some ch, k, t) }
      else if ch = CTRL_D then do { t \<leftarrow> put_line t 0xff; Some ([], Some ch, k, t) }
      else if ch = CR then do { t \<leftarrow> put_line t NL; Some ([], Some NL, k, t) }
      else do { t \<leftarrow> put_line t ch; Some ([], Some ch, k, t) })"

definition line_ends :: "n_tty_data \<Rightarrow> u8 \<Rightarrow> bool" where
  "line_ends t ch \<longleftrightarrow> line_size t = int N_TTY_LINE_BUF_SIZE \<or> ch = NL \<or> ch = CTRL_C \<or> ch = CTRL_D \<or> ch = CTRL_L"

text \<open>Moving the line into the buffer; what does not fit moves to the front of the line.\<close>

definition flush_line :: "n_tty_data \<Rightarrow> u8 \<Rightarrow> n_tty_data io option" where
  "flush_line t ch =
     do { bs \<leftarrow> rd_block (line_buf t) 0 (nat (line_size t));
          r \<leftarrow> ioq_write_some (buffer t) bs;
          case r of Blocks \<Rightarrow> Some Blocks
          | Returns (n, q) \<Rightarrow>
              do { xs \<leftarrow> wr_block (line_buf t) 0 (drop (nat n) bs);
                   Some (Returns (t\<lparr>buffer := q, line_buf := xs, line_size := line_size t - n,
                     ctrl := (if ch = CTRL_C \<or> ch = CTRL_D then ch else 0)\<rparr>)) } }"

text \<open>
  The loop over the bytes received: the echo, and the character and the bytes that still wait
  when the buffer is full.
\<close>

fun n_tty_receive_buf :: "kst \<Rightarrow> n_tty_data \<Rightarrow> u8 list \<Rightarrow> (u8 list \<times> (u8 \<times> u8 list) option \<times> kst \<times> n_tty_data) option" where
  "n_tty_receive_buf k t [] = Some ([], None, k, t)"
| "n_tty_receive_buf k t (c # cs) =
     do { (out, ch, k, t) \<leftarrow> receive_char k t c;
          case ch of
            None \<Rightarrow> do { (out', w, k, t) \<leftarrow> n_tty_receive_buf k t cs; Some (out @ out', w, k, t) }
          | Some ch \<Rightarrow>
              if line_ends t ch
              then do { r \<leftarrow> flush_line t ch;
                        case r of Blocks \<Rightarrow> Some (out @ echo ch, Some (ch, cs), k, t)
                        | Returns t \<Rightarrow> do { (out', w, k, t) \<leftarrow> n_tty_receive_buf k t cs;
                                           Some (out @ echo ch @ out', w, k, t) } }
              else do { (out', w, k, t) \<leftarrow> n_tty_receive_buf k t cs; Some (out @ echo ch @ out', w, k, t) } }"

definition tty_data_arrived :: "kst \<Rightarrow> n_tty_data \<Rightarrow> u8 list \<Rightarrow> (u8 list \<times> (u8 \<times> u8 list) option \<times> kst \<times> n_tty_data) option" where
  "tty_data_arrived k t bs = n_tty_receive_buf k t bs"

definition sys_set_fg_pid :: "n_tty_data \<Rightarrow> int \<Rightarrow> n_tty_data" where
  "sys_set_fg_pid t p = t\<lparr>fg_pid := p\<rparr>"

section \<open>The line a sequence of keys edits\<close>

text \<open>A reference: each key acts on the text of the line. A rubout of an empty line is no edit.\<close>

fun edit :: "u8 list \<Rightarrow> u8 list \<Rightarrow> u8 list option" where
  "edit line [] = Some line"
| "edit line (c # cs) =
     (if c = BS then (if line = [] then None else edit (butlast line) cs)
      else if c = CTRL_U then edit [] cs
      else if length line + 1 < N_TTY_LINE_BUF_SIZE then edit (line @ [c]) cs else None)"

definition plain_key :: "u8 \<Rightarrow> bool" where
  "plain_key c \<longleftrightarrow> c \<notin> {CR, NL, CTRL_C, CTRL_D, CTRL_L}"

definition holds_line :: "n_tty_data \<Rightarrow> u8 list \<Rightarrow> bool" where
  "holds_line t line \<longleftrightarrow> length (line_buf t) = N_TTY_LINE_BUF_SIZE \<and> line_size t = int (length line) \<and>
     length line < N_TTY_LINE_BUF_SIZE \<and> take (length line) (line_buf t) = line"

definition same_tty :: "n_tty_data \<Rightarrow> n_tty_data \<Rightarrow> bool" where
  "same_tty t t' \<longleftrightarrow> buffer t' = buffer t \<and> ctrl t' = ctrl t \<and> fg_pid t' = fg_pid t"

lemma ctrl_values: "CTRL_C = 3" "CTRL_D = 4" "CTRL_U = 21" "CTRL_L = 12"
  by (simp_all add: CTRL_C_def CTRL_D_def CTRL_U_def CTRL_L_def)

lemma put_line_ok:
  assumes "holds_line t line"
  shows "\<exists>t'. put_line t c = Some t' \<and> same_tty t t' \<and> line_size t' = int (length line + 1) \<and>
    length (line_buf t') = N_TTY_LINE_BUF_SIZE \<and> take (length line + 1) (line_buf t') = line @ [c]"
  using assms by (auto simp: holds_line_def put_line_def same_tty_def)

text \<open>The line after a key, and what the terminal prints for it: each character rubbed out is one backspace.\<close>

definition key_line :: "u8 list \<Rightarrow> u8 \<Rightarrow> u8 list" where
  "key_line line c = (if c = BS then butlast line else if c = CTRL_U then [] else line @ [c])"

definition key_echo :: "u8 list \<Rightarrow> u8 \<Rightarrow> u8 list" where
  "key_echo line c = (if c = BS then [BS] else if c = CTRL_U then replicate (length line) BS else [c])"

fun echoed :: "u8 list \<Rightarrow> u8 list \<Rightarrow> u8 list" where
  "echoed line [] = []"
| "echoed line (c # cs) = key_echo line c @ echoed (key_line line c) cs"

lemma edit_step:
  assumes h: "holds_line t line" and p: "plain_key c" and e: "edit line (c # cs) \<noteq> None"
  shows "\<exists>out ch t'. receive_char k t c = Some (out, ch, k, t') \<and> holds_line t' (key_line line c) \<and> same_tty t t' \<and>
    edit line (c # cs) = edit (key_line line c) cs \<and> (\<forall>x. ch = Some x \<longrightarrow> \<not> line_ends t' x) \<and>
    out @ (case ch of None \<Rightarrow> [] | Some x \<Rightarrow> echo x) = key_echo line c"
proof -
  have nc: "c \<noteq> CTRL_C" "c \<noteq> CTRL_D" "c \<noteq> CR" "c \<noteq> NL" "c \<noteq> CTRL_L" using p by (auto simp: plain_key_def)
  consider "c = BS" | "c = CTRL_U" | "c \<noteq> BS" "c \<noteq> CTRL_U" by blast
  then show ?thesis
  proof cases
    case 1
    with e have ne: "line \<noteq> []" by (auto split: if_splits)
    let ?t = "t\<lparr>line_size := line_size t - 1\<rparr>"
    have hl: "length (line_buf t) = N_TTY_LINE_BUF_SIZE" "line_size t = int (length line)"
      "length line < N_TTY_LINE_BUF_SIZE" "take (length line) (line_buf t) = line" using h by (simp_all add: holds_line_def)
    have tk: "take (length line - 1) (line_buf t) = butlast line"
      using butlast_take [of "length line" "line_buf t"] hl by simp
    have ls: "line_size ?t = int (length line - 1)" using ne hl(2) by (cases line) auto
    have "holds_line ?t (key_line line c)"
      unfolding key_line_def 1 simp_thms if_True holds_line_def length_butlast ls using hl(1,3) tk by simp
    moreover have "receive_char k t c = Some ([], Some c, k, ?t)" using 1 by (simp add: receive_char_def)
    moreover have "\<not> line_ends ?t c" using h 1 by (simp add: line_ends_def holds_line_def ctrl_values)
    moreover have "edit line (c # cs) = edit (key_line line c) cs" using 1 ne by (simp add: key_line_def)
    moreover have "same_tty t ?t" by (simp add: same_tty_def)
    moreover have "echo c = key_echo line c" using 1 by (simp add: echo_def key_echo_def ctrl_values)
    ultimately show ?thesis
      by (intro exI [of _ "[]"] exI [of _ "Some c"] exI [of _ ?t]) (simp del: edit.simps)
  next
    case 2
    then have "receive_char k t c = Some (concat (replicate (nat (line_size t)) (echo BS)), None, k, t\<lparr>line_size := 0\<rparr>)"
      using h by (simp add: receive_char_def clear_line_input_def holds_line_def ctrl_values)
    moreover have "key_line line c = []" using 2 by (simp add: key_line_def ctrl_values)
    moreover have "holds_line (t\<lparr>line_size := 0\<rparr>) []" using h by (simp add: holds_line_def N_TTY_LINE_BUF_SIZE_def)
    moreover have "edit line (c # cs) = edit [] cs" using 2 by (simp add: ctrl_values)
    moreover have "same_tty t (t\<lparr>line_size := 0\<rparr>)" by (simp add: same_tty_def)
    moreover have "concat (replicate (nat (line_size t)) (echo BS)) = key_echo line c"
      using 2 h by (simp add: echo_def key_echo_def holds_line_def ctrl_values concat_replicate_single)
    ultimately show ?thesis
      by (intro exI [of _ "concat (replicate (nat (line_size t)) (echo BS))"] exI [of _ None] exI [of _ "t\<lparr>line_size := 0\<rparr>"])
        (simp del: edit.simps)
  next
    case 3
    with e have l: "length line + 1 < N_TTY_LINE_BUF_SIZE" by (auto split: if_splits)
    from put_line_ok [OF h, of c] obtain t' where t': "put_line t c = Some t'" "same_tty t t'"
      "line_size t' = int (length line + 1)" "length (line_buf t') = N_TTY_LINE_BUF_SIZE"
      "take (length line + 1) (line_buf t') = line @ [c]" by blast
    have "receive_char k t c = Some ([], Some c, k, t')" using 3 nc t'(1) by (simp add: receive_char_def)
    moreover have "holds_line t' (line @ [c])" using t' l by (simp add: holds_line_def Suc_eq_plus1)
    moreover have "\<not> line_ends t' c" using nc t'(3) l by (auto simp: line_ends_def)
    moreover have "edit line (c # cs) = edit (line @ [c]) cs" using 3 l by simp
    moreover have "key_line line c = line @ [c]" using 3 by (simp add: key_line_def)
    moreover have "echo c = key_echo line c" using 3 nc by (simp add: echo_def key_echo_def)
    ultimately show ?thesis using t'(2)
      by (intro exI [of _ "[]"] exI [of _ "Some c"] exI [of _ t']) (simp del: edit.simps)
  qed
qed

lemma same_tty_trans: "same_tty t u \<Longrightarrow> same_tty u v \<Longrightarrow> same_tty t v"
  by (simp add: same_tty_def)

lemma receive_edits:
  assumes "holds_line t line" and "\<forall>c\<in>set keys. plain_key c" and "edit line keys = Some l"
  shows "\<exists>t'. holds_line t' l \<and> same_tty t t' \<and>
    n_tty_receive_buf k t (keys @ rest) =
      do { (out', w, k, t) \<leftarrow> n_tty_receive_buf k t' rest; Some (echoed line keys @ out', w, k, t) }"
  using assms
proof (induction keys arbitrary: t line)
  case Nil
  then show ?case by (intro exI [of _ t]) (simp add: same_tty_def case_prod_unfold)
next
  case (Cons c cs)
  have "plain_key c" "edit line (c # cs) \<noteq> None" using Cons.prems by auto
  from edit_step [OF Cons.prems(1) this] obtain out ch t' where s:
    "receive_char k t c = Some (out, ch, k, t')" "holds_line t' (key_line line c)" "same_tty t t'"
    "edit line (c # cs) = edit (key_line line c) cs" "\<forall>x. ch = Some x \<longrightarrow> \<not> line_ends t' x"
    "out @ (case ch of None \<Rightarrow> [] | Some x \<Rightarrow> echo x) = key_echo line c" by blast
  have "\<forall>c\<in>set cs. plain_key c" "edit (key_line line c) cs = Some l" using Cons.prems(2,3) s(4) by simp_all
  from Cons.IH [OF s(2) this] obtain t'' where r:
    "holds_line t'' l" "same_tty t' t''" "n_tty_receive_buf k t' (cs @ rest) =
      do { (o2, w, k, t) \<leftarrow> n_tty_receive_buf k t'' rest; Some (echoed (key_line line c) cs @ o2, w, k, t) }" by blast
  have "n_tty_receive_buf k t ((c # cs) @ rest) =
    do { (o2, w, k, t) \<leftarrow> n_tty_receive_buf k t'' rest;
         Some ((out @ (case ch of None \<Rightarrow> [] | Some x \<Rightarrow> echo x)) @ echoed (key_line line c) cs @ o2, w, k, t) }"
    using s(1,5) r(3) by (cases ch) (auto simp: case_prod_unfold)
  then have "n_tty_receive_buf k t ((c # cs) @ rest) =
    do { (o2, w, k, t) \<leftarrow> n_tty_receive_buf k t'' rest; Some (echoed line (c # cs) @ o2, w, k, t) }"
    unfolding s(6) by simp
  with r(1) same_tty_trans [OF s(3) r(2)] show ?case by blast
qed

text \<open>Ending a line.\<close>

lemma line_end_ok:
  assumes h: "holds_line t line" and q: "ioq_ok (buffer t)" "\<not> ioq_closed (buffer t)"
    and room: "length (contents (buffer t)) + length line < 2047"
    and e: "e \<in> {CR, CTRL_D}"
  defines "b \<equiv> (if e = CR then NL else 0xff)" and "ch \<equiv> (if e = CR then NL else CTRL_D)"
  shows "\<exists>t'. n_tty_receive_buf k t [e] = Some (echo ch, None, k, t') \<and> holds_line t' [] \<and>
    contents (buffer t') = contents (buffer t) @ line @ [b] \<and> ioq_ok (buffer t') \<and> \<not> ioq_closed (buffer t') \<and>
    ctrl t' = (if e = CR then 0 else CTRL_D) \<and> fg_pid t' = fg_pid t"
proof -
  from put_line_ok [OF h, of b] obtain t1 where t1: "put_line t b = Some t1" "same_tty t t1"
    "line_size t1 = int (length line + 1)" "length (line_buf t1) = N_TTY_LINE_BUF_SIZE"
    "take (length line + 1) (line_buf t1) = line @ [b]" by blast
  have r: "receive_char k t e = Some ([], Some ch, k, t1)"
    using e t1(1) by (auto simp: receive_char_def b_def ch_def ctrl_values)
  have le: "line_ends t1 ch" using e by (auto simp: line_ends_def ch_def)
  have bs: "rd_block (line_buf t1) 0 (nat (line_size t1)) = Some (line @ [b])"
  proof -
    have "nat (line_size t1) = length line + 1" using t1(3) by linarith
    with t1(4,5) h show ?thesis by (simp add: rd_block_def holds_line_def)
  qed
  have bf: "buffer t1 = buffer t" "fg_pid t1 = fg_pid t" using t1(2) by (simp_all add: same_tty_def)
  have w: "\<exists>q'. ioq_write_some (buffer t1) (line @ [b]) = Some (Returns (int (length line + 1), q')) \<and> ioq_ok q' \<and>
     contents q' = contents (buffer t) @ line @ [b] \<and> \<not> ioq_closed q'"
    using write_loop_ok [OF q(1), of "line @ [b]"] q room
    by (auto simp: ioq_write_some_def bf is_ioq_full_iff bufsize_def)
  then obtain q' where q': "ioq_write_some (buffer t1) (line @ [b]) = Some (Returns (int (length line + 1), q'))" "ioq_ok q'"
     "contents q' = contents (buffer t) @ line @ [b]" "\<not> ioq_closed q'" by blast
  let ?t = "t1\<lparr>buffer := q', line_buf := line_buf t1, line_size := 0, ctrl := (if ch = CTRL_C \<or> ch = CTRL_D then ch else 0)\<rparr>"
  have "flush_line t1 ch = Some (Returns ?t)"
    using bs q'(1) t1(3) by (simp add: flush_line_def wr_block_def nat_add_distrib)
  then have "n_tty_receive_buf k t [e] = Some (echo ch, None, k, ?t)" using r le by simp
  moreover have "holds_line ?t []" using t1(4) by (simp add: holds_line_def N_TTY_LINE_BUF_SIZE_def)
  moreover have "ctrl ?t = (if e = CR then 0 else CTRL_D)" using e by (auto simp: ch_def ctrl_values)
  ultimately show ?thesis using q' bf by (intro exI [of _ ?t]) simp
qed

text \<open>
  A rubout of an empty line is not refused: it makes the size negative, and the next character
  is stored before the line buffer.
\<close>

lemma rubout_of_empty_line:
  assumes "line_size t = 0" and "plain_key c" and "c \<notin> {BS, CTRL_U}"
  shows "n_tty_receive_buf k t [BS, c] = None"
  using assms by (simp add: receive_char_def put_line_def line_ends_def plain_key_def ctrl_values
      N_TTY_LINE_BUF_SIZE_def)

section \<open>Properties\<close>

text \<open>
  Property C22. The terminal is a line editor: the bytes a reader gets for a line are what
  the keys typed before its end have made of the line, by the reference \<open>edit\<close>, followed by
  the end of the line. A line ended by \<open>CTRL_D\<close> is read with a count that leaves the marker out.
\<close>

theorem tty_delivers_edited_line:
  assumes "holds_line t line" and "\<forall>c\<in>set keys. plain_key c" and "edit line keys = Some l"
    and "ioq_ok (buffer t)" and "\<not> ioq_closed (buffer t)" and "length (contents (buffer t)) + length l < 2047"
    and "e \<in> {CR, CTRL_D}"
  shows "\<exists>out t'. tty_data_arrived k t (keys @ [e]) = Some (out, None, k, t') \<and> holds_line t' []
    \<and> contents (buffer t') = contents (buffer t) @ l @ [if e = CR then NL else 0xff]
    \<and> (contents (buffer t) = [] \<longrightarrow> (\<exists>t''. n_tty_read t' (length l + 1) =
           Some (Returns (int (length l) + (if e = CR then 1 else 0), l @ [if e = CR then NL else 0xff], t''))
         \<and> contents (buffer t'') = []))"
proof -
  from receive_edits [OF assms(1-3), of k "[e]"] obtain t1 where t1: "holds_line t1 l" "same_tty t t1"
    "n_tty_receive_buf k t (keys @ [e]) =
      do { (out', w, k, t) \<leftarrow> n_tty_receive_buf k t1 [e]; Some (echoed line keys @ out', w, k, t) }" by blast
  have bf: "buffer t1 = buffer t" using t1(2) by (simp add: same_tty_def)
  from line_end_ok [OF t1(1) _ _ _ assms(7), of k] assms(4-6) obtain t' where t':
    "n_tty_receive_buf k t1 [e] = Some (echo (if e = CR then NL else CTRL_D), None, k, t')" "holds_line t' []"
    "contents (buffer t') = contents (buffer t) @ l @ [if e = CR then NL else 0xff]" "ioq_ok (buffer t')"
    "\<not> ioq_closed (buffer t')" "ctrl t' = (if e = CR then 0 else CTRL_D)" unfolding bf by blast
  have rd: "\<exists>t''. n_tty_read t' (length l + 1) =
           Some (Returns (int (length l) + (if e = CR then 1 else 0), l @ [if e = CR then NL else 0xff], t''))
         \<and> contents (buffer t'') = []" if "contents (buffer t) = []"
  proof -
    have c: "contents (buffer t') = l @ [if e = CR then NL else 0xff]" using t'(3) that by simp
    from read_loop_ok [OF t'(4), of "length l + 1"] c obtain q where q:
      "ioq_read_loop (buffer t') (length l + 1) = Some (l @ [if e = CR then NL else 0xff], q)" "contents q = []" by auto
    have "\<not> is_ioq_empty (buffer t')" using is_ioq_empty_iff [OF t'(4)] c by simp
    with q t'(5,6) assms(7) show ?thesis by (auto simp: n_tty_read_def ioq_read_some_def ctrl_values)
  qed
  show ?thesis using t1(3) t'(1-3) rd by (auto simp: tty_data_arrived_def simp del: n_tty_receive_buf.simps)
qed

definition demo_tty :: n_tty_data where
  "demo_tty = n_tty_open (replicate 2048 0) (replicate 1024 0) 1"

lemma demo_tty_ok: "holds_line demo_tty []" "ioq_ok (buffer demo_tty)" "\<not> ioq_closed (buffer demo_tty)"
  "contents (buffer demo_tty) = []"
  by (simp_all add: demo_tty_def n_tty_open_def holds_line_def N_TTY_LINE_BUF_SIZE_def ioqueue_init_def ioq_ok_def
      bufsize_def contents_def ioq_length_def)

theorem tty_delivers_edited_line_witness:
  "\<exists>out t' t''. tty_data_arrived demo_kst demo_tty ([0x6c, 0x78, BS, 0x73] @ [CR]) = Some (out, None, demo_kst, t')
     \<and> n_tty_read t' (length [0x6c, 0x73 :: u8] + 1) = Some (Returns (3, [0x6c, 0x73, NL], t''))"
proof -
  have "edit [] [0x6c, 0x78, BS, 0x73] = Some [0x6c, 0x73]" by (simp add: ctrl_values N_TTY_LINE_BUF_SIZE_def)
  moreover have "\<forall>c\<in>set [0x6c, 0x78, BS, 0x73]. plain_key c" by (simp add: plain_key_def ctrl_values)
  moreover have "length (contents (buffer demo_tty)) + length [0x6c, 0x73 :: u8] < 2047" by (simp add: demo_tty_ok(4) del: length_contents)
  ultimately show ?thesis
    using tty_delivers_edited_line [OF demo_tty_ok(1) _ _ demo_tty_ok(2,3), of "[0x6c, 0x78, BS, 0x73]" "[0x6c, 0x73]" CR demo_kst]
      demo_tty_ok(4) by fastforce
qed

end
