(* ===== verification/Keyboard.thy ===== *)
theory Keyboard
  imports Tty
begin

text \<open>
  \<open>src/src/device/keyboard.c\<close>: the keyboard interrupt, which turns scan codes into characters
  and hands them to the terminal. The state is the five flags; a scan code is the byte read
  from the port.
\<close>

record kbd =
  ctrl_status :: bool
  shift_status :: bool
  alt_status :: bool
  caps_lock_status :: bool
  ext_scancode :: bool

text \<open>The characters of a make code, without and with shift; 0 for a key without one.\<close>

definition keymap :: "(nat \<times> nat) list" where
  "keymap =
    [(0, 0), (27, 27), (49, 33), (50, 64), (51, 35), (52, 36), (53, 37), (54, 94), (55, 38),
     (56, 42), (57, 40), (48, 41), (45, 95), (61, 43), (8, 8), (9, 9), (113, 81), (119, 87),
     (101, 69), (114, 82), (116, 84), (121, 89), (117, 85), (105, 73), (111, 79), (112, 80),
     (91, 123), (93, 125), (13, 13), (0, 0), (97, 65), (115, 83), (100, 68), (102, 70), (103,
     71), (104, 72), (106, 74), (107, 75), (108, 76), (59, 58), (39, 34), (96, 126), (0, 0),
     (92, 124), (122, 90), (120, 88), (99, 67), (118, 86), (98, 66), (110, 78), (109, 77), (44,
     60), (46, 62), (47, 63), (0, 0), (42, 42), (0, 0), (32, 32), (0, 0)]"

definition shift_l_make :: nat where "shift_l_make = 0x2a"
definition shift_r_make :: nat where "shift_r_make = 0x36"
definition alt_l_make :: nat where "alt_l_make = 0x38"
definition alt_r_make :: nat where "alt_r_make = 0xe038"
definition ctrl_l_make :: nat where "ctrl_l_make = 0x1d"
definition ctrl_r_make :: nat where "ctrl_r_make = 0xe01d"
definition caps_lock_make :: nat where "caps_lock_make = 0x3a"

datatype key_event = No_key | Unknown_key | Key u8

definition key_released :: "kbd \<Rightarrow> nat \<Rightarrow> kbd" where
  "key_released b make_code =
     (if make_code = ctrl_l_make \<or> make_code = ctrl_r_make then b\<lparr>ctrl_status := False\<rparr>
      else if make_code = shift_l_make \<or> make_code = shift_r_make then b\<lparr>shift_status := False\<rparr>
      else if make_code = alt_l_make \<or> make_code = alt_r_make then b\<lparr>alt_status := False\<rparr>
      else b)"

text \<open>The keys with two characters, which caps lock does not change.\<close>

definition two_chars :: "nat \<Rightarrow> bool" where
  "two_chars scancode \<longleftrightarrow> scancode < 0x0e \<or> scancode \<in> {0x29, 0x1a, 0x1b, 0x2b, 0x27, 0x28, 0x33, 0x34, 0x35}"

definition use_shift :: "kbd \<Rightarrow> nat \<Rightarrow> bool" where
  "use_shift b scancode =
     (if two_chars scancode then shift_status b
      else if shift_status b \<and> caps_lock_status b then False
      else shift_status b \<or> caps_lock_status b)"

text \<open>With control, a letter or one of the signs between the cases becomes a control character.\<close>

definition with_ctrl :: "bool \<Rightarrow> nat \<Rightarrow> key_event" where
  "with_ctrl held c =
     (if \<not> held then Key (of_nat c)
      else let c = (if 97 \<le> c \<and> c \<le> 122 then c - 0x20 else c) in
        if 65 \<le> c \<and> c < 97 then Key (of_nat (c - 0x40)) else No_key)"

definition key_pressed :: "kbd \<Rightarrow> nat \<Rightarrow> kbd" where
  "key_pressed b scancode =
     (if scancode = ctrl_l_make \<or> scancode = ctrl_r_make then b\<lparr>ctrl_status := True\<rparr>
      else if scancode = shift_l_make \<or> scancode = shift_r_make then b\<lparr>shift_status := True\<rparr>
      else if scancode = alt_l_make \<or> scancode = alt_r_make then b\<lparr>alt_status := True\<rparr>
      else if scancode = caps_lock_make then b\<lparr>caps_lock_status := \<not> caps_lock_status b\<rparr>
      else b)"

text \<open>
  The high byte of a code that came after \<open>0xe0\<close> is gone when the map is read and when the
  modifier keys are recorded.
\<close>

definition make_code :: "kbd \<Rightarrow> nat \<Rightarrow> (key_event \<times> kbd) option" where
  "make_code b scancode =
     (if 0 < scancode \<and> scancode < 0x3b \<or> scancode = alt_r_make \<or> scancode = ctrl_r_make
      then do { (plain, shifted) \<leftarrow> rd keymap (scancode mod 256);
                let c = (if use_shift b scancode then shifted else plain) in
                if c \<noteq> 0 then Some (with_ctrl (ctrl_status b) c, b)
                else Some (No_key, key_pressed b (scancode mod 256)) }
      else Some (Unknown_key, b))"

definition scan :: "kbd \<Rightarrow> nat \<Rightarrow> (key_event \<times> kbd) option" where
  "scan b code =
     (if code = 0xe0 then Some (No_key, b\<lparr>ext_scancode := True\<rparr>)
      else let scancode = (if ext_scancode b then 0xe000 + code else code); b = b\<lparr>ext_scancode := False\<rparr> in
        if bit scancode 7 then Some (No_key, key_released b (scancode - 128))
        else make_code b scancode)"

definition intr_keyboard_handler :: "kst \<Rightarrow> n_tty_data \<Rightarrow> kbd \<Rightarrow> nat \<Rightarrow>
    (u8 list \<times> (u8 \<times> u8 list) option \<times> kst \<times> n_tty_data \<times> kbd) option" where
  "intr_keyboard_handler k t b code =
     do { (e, b) \<leftarrow> scan b code;
          case e of
            Key c \<Rightarrow> do { (out, w, k, t) \<leftarrow> tty_data_arrived k t [c]; Some (out, w, k, t, b) }
          | No_key \<Rightarrow> Some ([], None, k, t, b)
          | Unknown_key \<Rightarrow> Some (map of_nat [117, 110, 107, 110, 111, 119, 110, 32, 107, 101, 121, 10], None, k, t, b) }"

section \<open>Every scan code is handled\<close>

lemma length_keymap: "length keymap = 59"
  by (simp add: keymap_def)

lemma scan_total:
  assumes "code < 256"
  shows "scan b code \<noteq> None"
proof -
  have "make_code c s \<noteq> None" for c s
    by (auto simp: make_code_def alt_r_make_def ctrl_r_make_def rd_def length_keymap split: prod.splits)
  then show ?thesis by (auto simp: scan_def Let_def)
qed

text \<open>A modifier key that is pressed and released leaves no trace; caps lock changes at each press.\<close>

lemma shift_press_release:
  assumes "\<not> ext_scancode b"
  shows "do { (e, b) \<leftarrow> scan b 0x2a; scan b 0xaa } = Some (No_key, b\<lparr>shift_status := False\<rparr>)"
  using assms
  by (cases b) (simp add: scan_def make_code_def use_shift_def two_chars_def keymap_def key_pressed_def key_released_def
      shift_l_make_def shift_r_make_def ctrl_l_make_def ctrl_r_make_def alt_l_make_def alt_r_make_def bit_iff_odd Let_def rd_def)

text \<open>The code of a letter gives the letter, in upper case when exactly one of shift and caps lock is on.\<close>

definition letters :: "(nat \<times> nat) list" where
  "letters = map (\<lambda>s. (s, fst (keymap ! s))) ([0x10..<0x1a] @ [0x1e..<0x27] @ [0x2c..<0x33])"

lemma letter_case:
  assumes "(s, c) \<in> set letters" and "\<not> ext_scancode b" and "\<not> ctrl_status b"
  shows "scan b s = Some (Key (of_nat (if shift_status b \<noteq> caps_lock_status b then c - 32 else c)), b) \<and> 97 \<le> c \<and> c \<le> 122"
proof -
  have "\<forall>(s, c) \<in> set letters. s < 59 \<and> 0 < s \<and> \<not> two_chars s \<and> keymap ! s = (c, c - 32) \<and> 97 \<le> c \<and> c \<le> 122 \<and> s div 128 = 0"
    unfolding letters_def keymap_def two_chars_def by (simp add: upt_conv_Cons)
  with assms(1) have s: "s < 59" "0 < s" "\<not> two_chars s" "keymap ! s = (c, c - 32)" "97 \<le> c" "c \<le> 122" by auto
  have "\<not> bit s 7" using s(1) by (simp add: bit_iff_odd)
  moreover have "b\<lparr>ext_scancode := False\<rparr> = b" using assms(2) by (cases b) simp
  ultimately show ?thesis using s assms(2,3)
    by (auto simp: scan_def make_code_def length_keymap use_shift_def with_ctrl_def)
qed

end
