(* ===== verification/Process.thy ===== *)
theory Process
  imports Fs Pipe
begin

text \<open>
  \<open>src/src/userprog/process.c\<close>, \<open>fork.c\<close> and \<open>wait_exit.c\<close>, and \<open>thread_init\<close>: building a
  process, duplicating it, ending it and collecting it.

  The descriptors and the working directory of the running process are in \<open>files\<close>; those of
  the others are in their control blocks, and \<open>run_kern\<close> exchanges them when the running
  thread changes. System calls run with interrupts off.
\<close>

definition run_kern :: "(kst \<Rightarrow> kst option) \<Rightarrow> sys \<Rightarrow> sys option" where
  "run_kern f s =
     do { k \<leftarrow> upd_task (kern s) (running (kern s))
            (\<lambda>x. x\<lparr>t_fd_table := fd_table (files s), t_cwd_inode_nr := cwd_inode_nr (files s)\<rparr>);
          k \<leftarrow> f k;
          x \<leftarrow> running_thread k;
          Some (s\<lparr>kern := k, files := (files s)\<lparr>fd_table := t_fd_table x, cwd_inode_nr := t_cwd_inode_nr x\<rparr>\<rparr>) }"

section \<open>Building a process\<close>

definition default_prio :: nat where "default_prio = 31"
definition USER_STACK3_VADDR :: nat where "USER_STACK3_VADDR = 0xbffff000"
definition USER_VADDR_START :: nat where "USER_VADDR_START = 0x8048000"
definition SELECTOR_U_CODE :: nat where "SELECTOR_U_CODE = 43"
definition SELECTOR_U_DATA :: nat where "SELECTOR_U_DATA = 51"
definition SELECTOR_K_DATA :: nat where "SELECTOR_K_DATA = 16"
definition EFLAGS_MBS :: nat where "EFLAGS_MBS = 2"
definition EFLAGS_IF_1 :: nat where "EFLAGS_IF_1 = 512"
definition EFLAGS_IOPL_0 :: nat where "EFLAGS_IOPL_0 = 0"

text \<open>A copy of \<open>n\<close> words between virtual addresses.\<close>

fun vcopy :: "mm \<Rightarrow> nat \<Rightarrow> nat \<Rightarrow> nat \<Rightarrow> mm option" where
  "vcopy m dst src 0 = Some m"
| "vcopy m dst src (Suc n) =
     do { x \<leftarrow> vread m src; m \<leftarrow> vwrite m dst x; vcopy m (dst + 4) (src + 4) n }"

text \<open>The kernel's entries are copied, and the last one maps the new directory itself.\<close>

definition create_page_dir :: "mm \<Rightarrow> (nat \<times> mm) option" where
  "create_page_dir m =
     do { (v, m) \<leftarrow> get_kernel_pages m 1;
          if v = 0 then Some (0, m)
          else do { m \<leftarrow> vcopy m (v + 0xc00) 0xfffffc00 256;
                    p \<leftarrow> addr_v2p m v;
                    m \<leftarrow> vwrite m (v + 4 * 1023) (p OR PG_US_U OR PG_RW_W OR PG_P_1);
                    Some (v, m) } }"

definition user_bitmap_len :: nat where
  "user_bitmap_len = (0xc0000000 - USER_VADDR_START) div PG_SIZE div 8"

text \<open>A missing page is not noticed here; clearing the bitmap at address 0 is a page fault.\<close>

definition create_user_vaddr_bitmap :: "mm \<Rightarrow> (nat \<times> virtual_addr \<times> mm) option" where
  "create_user_vaddr_bitmap m =
     do { (bits, m) \<leftarrow> get_kernel_pages m (div_round_up user_bitmap_len PG_SIZE);
          kassert (bits \<noteq> 0);
          Some (bits, \<lparr>vaddr_bitmap = \<lparr>btmp_bytes_len = user_bitmap_len, bits = replicate user_bitmap_len 0\<rparr>,
                       vaddr_start = USER_VADDR_START\<rparr>, m) }"

definition process_execute :: "kst \<Rightarrow> u8 list \<Rightarrow> kst option" where
  "process_execute k nm =
     do { (t, m) \<leftarrow> get_kernel_pages (km k) 1;
          k \<leftarrow> init_thread (k\<lparr>km := m\<rparr>) t nm default_prio;
          (a, va, m) \<leftarrow> create_user_vaddr_bitmap (km k);
          k \<leftarrow> upd_task (k\<lparr>km := m\<rparr>) t (\<lambda>x. x\<lparr>userprog_vaddr := va, vaddr_bits := a\<rparr>);
          k \<leftarrow> thread_create k t;
          (d, m) \<leftarrow> create_page_dir (km k);
          k \<leftarrow> upd_task (k\<lparr>km := m\<rparr>) t (\<lambda>x. x\<lparr>pgdir := d, u_block_desc := block_desc_init\<rparr>);
          let (old_status, k) = intr_disable k in
          do { k \<leftarrow> enqueue_new k t; Some (snd (intr_set_status k old_status)) } }"

text \<open>The first thing a new process runs: the registers with which it goes to user mode.\<close>

definition start_process :: "sys \<Rightarrow> nat \<Rightarrow> sys option" where
  "start_process s entry =
     do { k \<leftarrow> upd_task (kern s) (running (kern s)) (\<lambda>x. x\<lparr>self_kstack := self_kstack x + thread_stack_size\<rparr>);
          (p, m) \<leftarrow> get_a_page (km k) PF_USER USER_STACK3_VADDR;
          Some (s\<lparr>kern := k\<lparr>km := m\<rparr>, istacks := (istacks s)(running k \<mapsto>
            \<lparr>vec_no = 0, r_edi = 0, r_esi = 0, r_ebp = 0, r_esp_dummy = 0, r_ebx = 0, r_edx = 0, r_ecx = 0, r_eax = 0,
             r_gs = 0, r_fs = SELECTOR_U_DATA, r_es = SELECTOR_U_DATA, r_ds = SELECTOR_U_DATA, err_code = 0,
             r_eip = entry, r_cs = SELECTOR_U_CODE, r_eflags = EFLAGS_IOPL_0 OR EFLAGS_MBS OR EFLAGS_IF_1,
             r_esp = w32 (p + PG_SIZE), r_ss = SELECTOR_U_DATA\<rparr>)\<rparr>) }"

definition thread_init :: "kst \<Rightarrow> kst option" where
  "thread_init k =
     do { k \<leftarrow> process_execute (pid_pool_init (k\<lparr>thread_ready_list := [], thread_all_list := []\<rparr>))
            (map of_nat [105, 110, 105, 116]);
          k \<leftarrow> make_main_thread k;
          (t, k) \<leftarrow> thread_start k (map of_nat [105, 100, 108, 101]) 10;
          Some (k\<lparr>idle_thread := t\<rparr>) }"

section \<open>Fork\<close>

text \<open>
  Every page whose bit is set in the parent's address bitmap is copied through a kernel page
  while the child's directory is in force for the second half. The result of
  \<open>get_a_page_without_opvaddrbitmap\<close> is not looked at.
\<close>

definition copy_page :: "kst \<Rightarrow> task_struct \<Rightarrow> task_struct \<Rightarrow> nat \<Rightarrow> nat \<Rightarrow> kst option" where
  "copy_page k child parent buf v =
     do { m \<leftarrow> vcopy (km k) buf v (PG_SIZE div 4);
          k \<leftarrow> page_dir_activate (k\<lparr>km := m\<rparr>) child;
          (a, m) \<leftarrow> get_a_page_without_opvaddrbitmap (km k) PF_USER v;
          m \<leftarrow> vcopy m v buf (PG_SIZE div 4);
          page_dir_activate (k\<lparr>km := m\<rparr>) parent }"

fun copy_body_stack3 :: "kst \<Rightarrow> task_struct \<Rightarrow> task_struct \<Rightarrow> virtual_addr \<Rightarrow> nat \<Rightarrow> nat list \<Rightarrow> kst option" where
  "copy_body_stack3 k child parent va buf [] = Some k"
| "copy_body_stack3 k child parent va buf (i # is) =
     do { used \<leftarrow> bitmap_scan_test (vaddr_bitmap va) i;
          k \<leftarrow> (if used then copy_page k child parent buf (w32 (i * PG_SIZE + vaddr_start va)) else Some k);
          copy_body_stack3 k child parent va buf is }"

text \<open>
  The copy of the control block. The block descriptors are fresh; the headers of the arenas
  that are copied with the memory still point to the parent's, so what the child does to
  blocks the parent allocated is left out (\<open>u_arenas\<close> is empty).
\<close>

definition copy_pcb :: "kst \<Rightarrow> sys \<Rightarrow> task_struct \<Rightarrow> (task_struct \<times> kst) option" where
  "copy_pcb k s parent =
     do { (p, k) \<leftarrow> fork_pid k;
          Some (parent\<lparr>pid := p, elapsed_ticks := 0, status := TASK_READY, ticks := priority parent,
            parent_pid := pid parent, userprog_vaddr := user_vaddr (km k), u_block_desc := block_desc_init,
            u_arenas := (\<lambda>_. None), t_fd_table := fd_table (files s), t_cwd_inode_nr := cwd_inode_nr (files s),
            resume_intr := True\<rparr>, k) }"

fun update_file_open_cnts :: "fs \<Rightarrow> int list \<Rightarrow> fs option" where
  "update_file_open_cnts f [] = Some f"
| "update_file_open_cnts f (g # gs) =
     do { kassert (g < int MAX_FILE_OPEN);
          f \<leftarrow> (if g \<noteq> - 1 then do { kassert (0 \<le> g); upd_file f (nat g) (\<lambda>x. x\<lparr>count := count x + 1\<rparr>) } else Some f);
          update_file_open_cnts f gs }"

text \<open>The handlers are the parent's, what is pending for the parent is not pending for the child.\<close>

definition copy_signal_related :: "task_struct \<Rightarrow> task_struct \<Rightarrow> task_struct" where
  "copy_signal_related child parent = child\<lparr>sighandlers := sighandlers parent, signal_bits := 0\<rparr>"

text \<open>
  \<open>copy_process\<close>; no child is -1, and what was allocated up to then stays allocated. The kernel stack
  \<open>build_child_stack\<close> leaves the child is the saved registers with \<open>eax\<close> cleared and, below them,
  the five words of the first switch (theory \<open>Switch\<close>).
\<close>

definition copy_process :: "sys \<Rightarrow> nat \<Rightarrow> task_struct \<Rightarrow> (bool \<times> sys) option" where
  "copy_process s c parent =
     do { (buf, m) \<leftarrow> get_kernel_pages (km (kern s)) 1;
          let k = (kern s)\<lparr>km := m\<rparr> in
          if buf = 0 then Some (False, s\<lparr>kern := k\<rparr>)
          else
            do { (child, k) \<leftarrow> copy_pcb k s parent;
                 (a, m) \<leftarrow> get_kernel_pages (km k) (div_round_up user_bitmap_len PG_SIZE);
                 let k = k\<lparr>km := m\<rparr> in
                 if a = 0 then Some (False, s\<lparr>kern := k\<rparr>)
                 else
                   do { (d, m) \<leftarrow> create_page_dir (km k);
                        let k = k\<lparr>km := m\<rparr>; child = child\<lparr>vaddr_bits := a, pgdir := d\<rparr> in
                        if d = 0 then Some (False, s\<lparr>kern := k\<rparr>)
                        else
                          do { k \<leftarrow> copy_body_stack3 k child parent (user_vaddr (km k)) buf
                                 [0..<8 * btmp_bytes_len (vaddr_bitmap (user_vaddr (km k)))];
                               st0 \<leftarrow> istacks s (running k);
                               f \<leftarrow> update_file_open_cnts (files s) (drop 3 (t_fd_table child));
                               m \<leftarrow> mfree_page (km k) PF_KERNEL buf 1;
                               let child = copy_signal_related (child\<lparr>self_kstack := c + PG_SIZE - intr_stack_size - 20\<rparr>) parent in
                               Some (True, s\<lparr>kern := k\<lparr>km := m, tasks := (tasks k)(c \<mapsto> child)\<rparr>, files := f,
                                 istacks := (istacks s)(c \<mapsto> st0\<lparr>r_eax := 0\<rparr>)\<rparr>) } } } }"

definition sys_fork :: "sys \<Rightarrow> (int \<times> sys) option" where
  "sys_fork s =
     do { parent \<leftarrow> running_thread (kern s);
          (c, m) \<leftarrow> get_kernel_pages (km (kern s)) 1;
          let s = s\<lparr>kern := (kern s)\<lparr>km := m\<rparr>\<rparr> in
          if c = 0 then Some (- 1, s)
          else
            do { kassert (\<not> intr_on (kern s) \<and> pgdir parent \<noteq> 0);
                 (ok, s) \<leftarrow> copy_process s c parent;
                 if \<not> ok then Some (- 1, s)
                 else do { k \<leftarrow> enqueue_new (kern s) c; x \<leftarrow> tasks k c; Some (pid x, s\<lparr>kern := k\<rparr>) } } }"

section \<open>Exit and wait\<close>

text \<open>
  The frames of the user half of the address space: every present entry of every present
  table, and the tables.
\<close>

fun free_ptes :: "mm \<Rightarrow> nat \<Rightarrow> nat \<Rightarrow> mm option" where
  "free_ptes m p 0 = Some m"
| "free_ptes m p (Suc n) =
     do { pte \<leftarrow> vread m p;
          m \<leftarrow> (if pte AND 1 \<noteq> 0 then free_a_phy_page m (pte AND 0xfffff000) else Some m);
          free_ptes m (p + 4) n }"

fun free_pdes :: "mm \<Rightarrow> nat \<Rightarrow> nat list \<Rightarrow> mm option" where
  "free_pdes m dir [] = Some m"
| "free_pdes m dir (i # is) =
     do { pde \<leftarrow> vread m (dir + 4 * i);
          m \<leftarrow> (if pde AND 1 \<noteq> 0
               then do { m \<leftarrow> free_ptes m (pte_ptr (i * 0x400000)) 1024; free_a_phy_page m (pde AND 0xfffff000) }
               else Some m);
          free_pdes m dir is }"

fun close_fds :: "dev_ops \<Rightarrow> fs \<Rightarrow> nat list \<Rightarrow> fs option" where
  "close_fds dev f [] = Some f"
| "close_fds dev f (i # is) =
     do { g \<leftarrow> rd (fd_table f) i;
          f \<leftarrow> (if g \<noteq> - 1 then do { (r, f) \<leftarrow> sys_close dev f (int i); Some f } else Some f);
          close_fds dev f is }"

definition release_prog_resource :: "dev_ops \<Rightarrow> mm \<Rightarrow> fs \<Rightarrow> task_struct \<Rightarrow> (mm \<times> fs) option" where
  "release_prog_resource dev m f x =
     do { m \<leftarrow> free_pdes m (pgdir x) [0..<768];
          m \<leftarrow> mfree_page m PF_KERNEL (vaddr_bits x) (btmp_bytes_len (vaddr_bitmap (user_vaddr m)) div PG_SIZE);
          f \<leftarrow> close_fds dev f [0..<8];
          Some (m, f) }"

definition find_child_thread :: "kst \<Rightarrow> int \<Rightarrow> nat \<Rightarrow> bool option" where
  "find_child_thread k ppid t = do { x \<leftarrow> tasks k t; Some (parent_pid x = ppid) }"

definition find_hanging_child :: "kst \<Rightarrow> int \<Rightarrow> nat \<Rightarrow> bool option" where
  "find_hanging_child k ppid t = do { x \<leftarrow> tasks k t; Some (parent_pid x = ppid \<and> status x = TASK_HANGING) }"

fun adopt_all :: "kst \<Rightarrow> int \<Rightarrow> nat list \<Rightarrow> kst option" where
  "adopt_all k p [] = Some k"
| "adopt_all k p (t # ts) =
     do { k \<leftarrow> upd_task k t (\<lambda>x. if parent_pid x = p then x\<lparr>parent_pid := 1\<rparr> else x); adopt_all k p ts }"

text \<open>
  One round of the loop of \<open>sys_wait\<close>: the pid (through a \<open>uint16_t\<close>) and the exit status of a
  child that has ended, -1 without a child, or the parent blocks.
\<close>

definition sys_wait_round :: "sys \<Rightarrow> ((int \<times> int option) io \<times> sys) option" where
  "sys_wait_round s =
     do { x \<leftarrow> running_thread (kern s);
          h \<leftarrow> find_thread (find_hanging_child (kern s) (pid x)) (thread_all_list (kern s));
          if h \<noteq> 0
          then do { c \<leftarrow> tasks (kern s) h;
                    k \<leftarrow> thread_exit (kern s) h False;
                    Some (Returns (pid c mod 65536, Some (exit_status c)), s\<lparr>kern := k, istacks := (istacks s)(h := None)\<rparr>) }
          else
            do { h \<leftarrow> find_thread (find_child_thread (kern s) (pid x)) (thread_all_list (kern s));
                 if h = 0 then Some (Returns (- 1, None), s)
                 else do { s \<leftarrow> run_kern (\<lambda>k. thread_block k TASK_WAITING) s; Some (Blocks, s) } } }"

text \<open>\<open>exit_status\<close> is an \<open>int8_t\<close>. A parent that cannot be found is a null pointer.\<close>

definition sys_exit :: "dev_ops \<Rightarrow> sys \<Rightarrow> int \<Rightarrow> sys option" where
  "sys_exit dev s stat =
     do { k \<leftarrow> upd_task (kern s) (running (kern s)) (\<lambda>x. x\<lparr>exit_status := sint (word_of_int stat :: 8 word)\<rparr>);
          x \<leftarrow> running_thread k;
          kassert (parent_pid x \<noteq> - 1);
          k \<leftarrow> adopt_all k (pid x) (thread_all_list k);
          (m, f) \<leftarrow> release_prog_resource dev (km k) (files s) x;
          let k = k\<lparr>km := m\<rparr> in
          do { x \<leftarrow> running_thread k;
               p \<leftarrow> pid2thread k (parent_pid x);
               kassert (p \<noteq> 0);
               px \<leftarrow> tasks k p;
               k \<leftarrow> (if status px = TASK_WAITING then thread_unblock k p else Some k);
               run_kern (\<lambda>k. thread_block k TASK_HANGING) (s\<lparr>kern := k, files := f\<rparr>) } }"

section \<open>The exit status reaches the parent\<close>

definition adopt :: "int \<Rightarrow> task_struct \<Rightarrow> task_struct" where
  "adopt p x = (if parent_pid x = p then x\<lparr>parent_pid := 1\<rparr> else x)"

lemma adopt_sel [simp]: "status (adopt p x) = status x" "pgdir (adopt p x) = pgdir x" "stack_magic (adopt p x) = stack_magic x"
  "priority (adopt p x) = priority x" "ticks (adopt p x) = ticks x" "pid (adopt p x) = pid x"
  "vaddr_bits (adopt p x) = vaddr_bits x" "exit_status (adopt p x) = exit_status x"
  "adopt p (adopt p x) = adopt p x"
  by (simp_all add: adopt_def)

lemma adopt_all_ok:
  "set ts \<subseteq> dom (tasks k) \<Longrightarrow> \<exists>g. adopt_all k p ts = Some (k\<lparr>tasks := g\<rparr>) \<and>
     (\<forall>t. g t = (if t \<in> set ts then map_option (adopt p) (tasks k t) else tasks k t))"
proof (induction ts arbitrary: k)
  case Nil
  then show ?case by (intro exI [of _ "tasks k"]) (cases k, simp)
next
  case (Cons a ts)
  then obtain x where x: "tasks k a = Some x" by auto
  let ?k = "k\<lparr>tasks := (tasks k)(a \<mapsto> adopt p x)\<rparr>"
  have "set ts \<subseteq> dom (tasks ?k)" using Cons.prems by auto
  from Cons.IH [OF this] obtain g where g: "adopt_all ?k p ts = Some (?k\<lparr>tasks := g\<rparr>)"
    "\<forall>t. g t = (if t \<in> set ts then map_option (adopt p) (tasks ?k t) else tasks ?k t)" by blast
  have "adopt_all k p (a # ts) = Some (k\<lparr>tasks := g\<rparr>)"
    using x g(1) by (simp add: upd_task_def adopt_def)
  moreover have "g t = (if t \<in> set (a # ts) then map_option (adopt p) (tasks k t) else tasks k t)" for t
    using g(2) x by auto
  ultimately show ?case by blast
qed

text \<open>A list search finds the only element that satisfies the test.\<close>

lemma find_thread_unique:
  assumes "\<forall>t\<in>set ts. f t \<noteq> None" and "c \<in> set ts" and "f c = Some True"
    and "\<forall>t\<in>set ts. t \<noteq> c \<longrightarrow> f t = Some False"
  shows "find_thread f ts = Some c"
  using assms
proof (induction ts)
  case (Cons t ts)
  then show ?case by (cases "t = c") auto
qed simp

lemma find_thread_cong: "(\<And>t. t \<in> set ts \<Longrightarrow> f t = g t) \<Longrightarrow> find_thread f ts = find_thread g ts"
  by (induction ts) (simp_all cong: if_cong)

lemma pid2thread_cong:
  assumes "thread_all_list k' = thread_all_list k"
    and "\<And>t. t \<in> set (thread_all_list k) \<Longrightarrow> map_option pid (tasks k' t) = map_option pid (tasks k t)"
  shows "pid2thread k' p = pid2thread k p"
proof -
  have "pid_check k' p t = pid_check k p t" if "t \<in> set (thread_all_list k)" for t
    using assms(2) [OF that] by (cases "tasks k' t"; cases "tasks k t") (simp_all add: pid_check_def)
  then show ?thesis unfolding pid2thread_def assms(1) by (rule find_thread_cong)
qed

text \<open>What \<open>sys_exit\<close> has done before it looks for the parent.\<close>

definition exit_prepared :: "kst \<Rightarrow> mm \<Rightarrow> int \<Rightarrow> kst \<Rightarrow> bool" where
  "exit_prepared k m e k' \<longleftrightarrow> same_sched k k' \<and> km k' = m \<and>
     (\<forall>t. tasks k' t = map_option
        (\<lambda>y. (if t \<in> set (thread_all_list k) then adopt (pid (the (tasks k (running k)))) else id)
              (if t = running k then y\<lparr>exit_status := e\<rparr> else y)) (tasks k t))"

lemma exit_prepare_ok:
  assumes x: "tasks k (running k) = Some x" and all: "set (thread_all_list k) \<subseteq> dom (tasks k)"
  shows "\<exists>g. adopt_all (k\<lparr>tasks := (tasks k)(running k \<mapsto> x\<lparr>exit_status := e\<rparr>)\<rparr>) (pid x) (thread_all_list k)
      = Some (k\<lparr>tasks := g\<rparr>) \<and> exit_prepared k m e (k\<lparr>tasks := g, km := m\<rparr>)"
proof -
  let ?k = "k\<lparr>tasks := (tasks k)(running k \<mapsto> x\<lparr>exit_status := e\<rparr>)\<rparr>"
  have "set (thread_all_list k) \<subseteq> dom (tasks ?k)" using all by auto
  from adopt_all_ok [OF this, of "pid x"] obtain g where g: "adopt_all ?k (pid x) (thread_all_list k) = Some (?k\<lparr>tasks := g\<rparr>)"
    "\<forall>t. g t = (if t \<in> set (thread_all_list k) then map_option (adopt (pid x)) (tasks ?k t) else tasks ?k t)" by blast
  have gt: "g t = map_option (\<lambda>y. (if t \<in> set (thread_all_list k) then adopt (pid x) else id)
              (if t = running k then y\<lparr>exit_status := e\<rparr> else y)) (tasks k t)" for t
    using g(2) [rule_format, of t] x by (cases "tasks k t") auto
  have "same_sched k (k\<lparr>tasks := g, km := m\<rparr>)"
    unfolding same_sched_def
  proof (intro conjI allI)
    fix t show "rel_option (\<lambda>x y. status y = status x \<and> pgdir y = pgdir x \<and> stack_magic y = stack_magic x \<and>
        priority y = priority x \<and> ticks y = ticks x \<and> pid y = pid x) (tasks k t) (tasks (k\<lparr>tasks := g, km := m\<rparr>) t)"
      by (cases "tasks k t") (simp_all add: gt)
  qed simp_all
  then show ?thesis using g(1) gt x by (intro exI [of _ g]) (simp add: exit_prepared_def)
qed

lemma same_env_task:
  assumes "same_env k k'" and "tasks k' t = Some y"
  shows "\<exists>x. tasks k t = Some x \<and> task_frame x y"
proof -
  have "rel_option task_frame (tasks k t) (tasks k' t)" using assms(1) by (simp add: same_env_def tasks_frame_def)
  with assms(2) show ?thesis by (auto simp: option_rel_Some2)
qed

text \<open>A switch changes the memory state only to the space of the thread that runs next.\<close>

lemma thread_unblock_km: "thread_unblock k t = Some k' \<Longrightarrow> km k' = km k"
  by (auto simp: thread_unblock_def upd_task_def intr_disable_def intr_set_status_def intr_enable_def outcome_simps
      split: prod.splits if_splits)

lemma requeue_running_km: "requeue_running k = Some k' \<Longrightarrow> km k' = km k"
  by (auto simp: requeue_running_def upd_task_def outcome_simps split: if_splits)

lemma process_activate_km: "process_activate k t = Some k' \<Longrightarrow> \<exists>c. km k' = (km k)\<lparr>cr3 := c\<rparr>"
  by (auto simp: process_activate_def page_dir_activate_def update_tss_esp_def outcome_simps split: if_splits)

lemma switch_to_km: "switch_to k t = Some k' \<Longrightarrow> \<exists>x. km k' = load_space (km k) x"
  by (auto simp: switch_to_def upd_task_def outcome_simps)

lemma schedule_km:
  assumes "schedule k = Some k'"
  shows "\<exists>c x. km k' = load_space ((km k)\<lparr>cr3 := c\<rparr>) x"
proof -
  from assms obtain k1 k2 k3 k4 where k: "requeue_running k = Some k1"
    "(if thread_ready_list k1 = [] then thread_unblock k1 (idle_thread k1) else Some k1) = Some k2"
    "upd_task (k2\<lparr>thread_ready_list := tl (thread_ready_list k2)\<rparr>) (hd (thread_ready_list k2)) (\<lambda>x. x\<lparr>status := TASK_RUNNING\<rparr>) = Some k3"
    "process_activate k3 (hd (thread_ready_list k2)) = Some k4" "switch_to k4 (hd (thread_ready_list k2)) = Some k'"
    by (auto simp: schedule_def outcome_simps Let_def simp del: not_None_eq split: if_splits)
  have "km k3 = km k"
    using k(1-3) requeue_running_km thread_unblock_km by (auto simp: upd_task_def outcome_simps split: if_splits)
  moreover from process_activate_km [OF k(4)] obtain c where "km k4 = (km k3)\<lparr>cr3 := c\<rparr>" ..
  moreover from switch_to_km [OF k(5)] obtain x where "km k' = load_space (km k4) x" ..
  ultimately have "km k' = load_space ((km k)\<lparr>cr3 := c\<rparr>) x" by simp
  then show ?thesis by blast
qed

lemma thread_block_km: "thread_block k stat = Some k' \<Longrightarrow> \<exists>c x. km k' = load_space ((km k)\<lparr>cr3 := c\<rparr>) x"
proof -
  assume blk: "thread_block k stat = Some k'"
  let ?k1 = "(snd (intr_disable k))\<lparr>tasks := (tasks k)(running k \<mapsto>
      (the (tasks k (running k)))\<lparr>status := stat, resume_intr := fst (intr_disable k)\<rparr>)\<rparr>"
  from blk have k1: "km ?k1 = km k" "schedule ?k1 = Some k'"
    by (auto simp: thread_block_def upd_task_def intr_disable_def outcome_simps split: if_splits)
  from schedule_km [OF k1(2)] show ?thesis unfolding k1(1) .
qed

text \<open>Giving back kernel pages does not depend on whose user space is in force.\<close>

lemma load_space_sel [simp]: "phys (load_space m x) = phys m" "cr3 (load_space m x) = cr3 m"
  "kernel_pool (load_space m x) = kernel_pool m" "user_pool (load_space m x) = user_pool m"
  "kernel_vaddr (load_space m x) = kernel_vaddr m"
  by (simp_all add: load_space_def)

lemma load_space_upd:
  "(load_space m x)\<lparr>phys := f\<rparr> = load_space (m\<lparr>phys := f\<rparr>) x"
  "(load_space m x)\<lparr>kernel_pool := b\<rparr> = load_space (m\<lparr>kernel_pool := b\<rparr>) x"
  "(load_space m x)\<lparr>user_pool := b\<rparr> = load_space (m\<lparr>user_pool := b\<rparr>) x"
  "(load_space m x)\<lparr>kernel_vaddr := a\<rparr> = load_space (m\<lparr>kernel_vaddr := a\<rparr>) x"
  by (cases m, simp add: load_space_def cong: if_cong)+

lemma load_space_vread [simp]: "vread (load_space m x) v = vread m v"
  by (simp add: vread_def mmu_def Let_def cong: if_cong)

lemma load_space_vwrite: "vwrite (load_space m x) v w = map_option (\<lambda>m. load_space m x) (vwrite m v w)"
proof -
  have "mmu (load_space m x) v = mmu m v" by (simp add: mmu_def Let_def cong: if_cong)
  then show ?thesis by (cases "mmu m v") (simp_all add: vwrite_def load_space_upd)
qed

lemma load_space_pfree: "pfree (load_space m x) p = map_option (\<lambda>m. load_space m x) (pfree m p)"
  by (auto simp: pfree_def Let_def get_pool_def set_pool_bitmap_def load_space_upd split: bind_split pool_flags.splits)

lemma load_space_free_pages:
  "free_pages (load_space m x) u v n = map_option (\<lambda>m. load_space m x) (free_pages m u v n)"
proof (induction n arbitrary: m u v)
  case (Suc n)
  have rm: "page_table_pte_remove (load_space m x) v = map_option (\<lambda>m. load_space m x) (page_table_pte_remove m v)" for m v
    by (cases "vread m (pte_ptr v)") (simp_all add: page_table_pte_remove_def load_space_vwrite)
  show ?case
    by (cases "vread m (pte_ptr v)")
      (auto simp: addr_v2p_def load_space_pfree rm Suc.IH kassert_def split: bind_split option.splits)
qed simp

lemma load_space_mfree:
  "mfree_page (load_space m x) PF_KERNEL v n = map_option (\<lambda>m. load_space m x) (mfree_page m PF_KERNEL v n)"
proof -
  have "vaddr_remove (load_space m x) PF_KERNEL v n = map_option (\<lambda>m. load_space m x) (vaddr_remove m PF_KERNEL v n)" for m
    by (auto simp: vaddr_remove_def get_vaddr_def set_vaddr_bitmap_def load_space_upd split: bind_split)
  then show ?thesis
    by (cases "vread m (pte_ptr v)")
      (auto simp: mfree_page_def addr_v2p_def load_space_free_pages kassert_def split: bind_split option.splits)
qed

text \<open>What collecting an ended thread needs: its directory and its control block can be given back.\<close>

definition reapable :: "mm \<Rightarrow> task_struct \<Rightarrow> nat \<Rightarrow> bool" where
  "reapable m x t \<longleftrightarrow>
     do { m \<leftarrow> (if pgdir x \<noteq> 0 then mfree_page m PF_KERNEL (pgdir x) 1 else Some m); mfree_page m PF_KERNEL t 1 } \<noteq> None"

lemma reapable_load_space: "reapable (load_space m y) x t = reapable m x t"
  by (cases "mfree_page m PF_KERNEL (pgdir x) 1") (simp_all add: reapable_def load_space_mfree)

lemma reapable_cong: "pgdir y = pgdir x \<Longrightarrow> reapable m y t = reapable m x t"
  by (simp add: reapable_def)

lemma thread_exit_reaps:
  assumes x: "tasks k t = Some x" and t: "t \<in> set (thread_all_list k)" "t \<noteq> main_thread k"
    and p: "1 \<le> pid x" "nat (pid x - 1) div 8 < length (bits (pid_bitmap k))"
    and r: "reapable (km k) x t"
  shows "\<exists>k'. thread_exit k t False = Some k' \<and> tasks k' = (tasks k)(t := None)
    \<and> thread_all_list k' = remove1 t (thread_all_list k) \<and> running k' = running k"
proof -
  from r obtain m1 m2 where m: "(if pgdir x \<noteq> 0 then mfree_page (km k) PF_KERNEL (pgdir x) 1 else Some (km k)) = Some m1"
    "mfree_page m1 PF_KERNEL t 1 = Some m2" unfolding reapable_def bind_eq_None_conv by auto
  from bitmap_set_Some [OF p(2), of 0] obtain b where b: "bitmap_set (pid_bitmap k) (nat (pid x - 1)) 0 = Some b" by auto
  show ?thesis using x t p(1) m b
    by (cases "pgdir x = 0"; cases "intr_on k") (simp_all add: thread_exit_def upd_task_def intr_disable_def release_pid_def pid_start_def Let_def)
qed

text \<open>Waking a parent that waits and leaving the processor to it.\<close>

lemma hand_over:
  assumes inv: "sched_inv k D" and c: "running k \<noteq> idle_thread k"
    and p: "tasks k p = Some px" "status px = TASK_WAITING"
  shows "\<exists>k1 s'. thread_unblock k p = Some k1 \<and> run_kern (\<lambda>k. thread_block k TASK_HANGING) (s\<lparr>kern := k1, files := f\<rparr>) = Some s' \<and>
    sched_inv (kern s') D \<and> running (kern s') = p \<and> same_env k (kern s') \<and>
    asleep (kern s') (running k) TASK_HANGING \<and>
    (\<forall>t y. t \<noteq> running k \<longrightarrow> t \<noteq> idle_thread k \<longrightarrow> tasks (kern s') t = Some y \<longrightarrow> status y = TASK_HANGING \<longrightarrow>
       map_option status (tasks k t) = Some TASK_HANGING) \<and> istacks s' = istacks s \<and>
    (\<exists>c y. km (kern s') = load_space ((km k)\<lparr>cr3 := c\<rparr>) y)"
proof -
  from thread_unblock_inv [OF inv p(1)] p(2) obtain k1 where k1: "thread_unblock k p = Some k1" "sched_inv k1 D"
    "same_env k k1" "running k1 = running k" "thread_ready_list k1 = p # thread_ready_list k"
    "tasks k1 = (tasks k)(p \<mapsto> px\<lparr>status := TASK_READY\<rparr>)" by auto
  have id1: "idle_thread k1 = idle_thread k" using k1(3) by (simp add: same_env_def)
  from k1(2) obtain x where x: "tasks k1 (running k1) = Some x" by (auto simp: sched_inv_def)
  let ?y = "x\<lparr>t_fd_table := fd_table f, t_cwd_inode_nr := cwd_inode_nr f\<rparr>"
  let ?k2 = "k1\<lparr>tasks := (tasks k1)(running k1 \<mapsto> ?y)\<rparr>"
  have ss: "same_sched k1 ?k2" using x by (auto simp: same_sched_def option.rel_refl)
  have "spaces_ok ?k2 D" by (rule same_sched_spaces [OF ss]) (use k1(2) in \<open>simp_all add: sched_inv_def sched_wf_def\<close>)
  from same_sched_inv [OF ss k1(2) this] have inv2: "sched_inv ?k2 D" .
  have env2: "same_env k1 ?k2"
    using tasks_frame_self [of "tasks k1" "running k1" x ?y] x by (simp add: same_env_def task_frame_def)
  from thread_block_ok [OF inv2, of TASK_HANGING] c k1(4,5) id1 obtain k3 where k3: "thread_block ?k2 TASK_HANGING = Some k3"
    "sched_inv k3 D" "same_env ?k2 k3" "running k3 # thread_ready_list k3 = p # thread_ready_list k"
    "keeps_asleep ?k2 k3" "asleep k3 (running k) TASK_HANGING" by auto
  from k3(2) obtain z where z: "running_thread k3 = Some z" by (auto simp: sched_inv_def running_thread_def)
  let ?s = "s\<lparr>kern := k3, files := f\<lparr>fd_table := t_fd_table z, cwd_inode_nr := t_cwd_inode_nr z\<rparr>\<rparr>"
  have run: "run_kern (\<lambda>k. thread_block k TASK_HANGING) (s\<lparr>kern := k1, files := f\<rparr>) = Some ?s"
    using x k3(1) z by (simp add: run_kern_def upd_task_def)
  have env: "same_env k k3" by (rule same_env_trans [OF same_env_trans [OF k1(3) env2] k3(3)])
  have hang: "map_option status (tasks k t) = Some TASK_HANGING"
    if t: "t \<noteq> running k" "t \<noteq> idle_thread k" "tasks k3 t = Some y" "status y = TASK_HANGING" for t y
  proof -
    have nr: "t \<notin> set (p # thread_ready_list k)"
    proof
      assume "t \<in> set (p # thread_ready_list k)"
      then have "t = running k3 \<or> t \<in> set (thread_ready_list k3)" using k3(4) by auto
      with k3(2) t(3,4) show False by (auto simp: sched_inv_def sched_wf_def)
    qed
    from same_env_task [OF env t(3)] obtain v where v: "tasks k t = Some v" by blast
    have "status v \<notin> {TASK_READY, TASK_RUNNING}" using inv v nr t(1) by (auto simp: sched_inv_def sched_wf_def)
    then have "asleep ?k2 t (status v)" using v k1(4,6) t(1) nr by (auto simp: asleep_def)
    with k3(5) t(2) id1 have "asleep k3 t (status v)" by (simp add: keeps_asleep_def)
    with v t(3,4) show ?thesis by (simp add: asleep_def)
  qed
  obtain e y where sp: "km k3 = load_space ((km k)\<lparr>cr3 := e\<rparr>) y"
    using thread_block_km [OF k3(1)] thread_unblock_km [OF k1(1)] by auto
  show ?thesis
  proof (intro exI conjI)
    show "thread_unblock k p = Some k1" by (rule k1(1))
    show "run_kern (\<lambda>k. thread_block k TASK_HANGING) (s\<lparr>kern := k1, files := f\<rparr>) = Some ?s" by (rule run)
    show "km (kern ?s) = load_space ((km k)\<lparr>cr3 := e\<rparr>) y" using sp by simp
  qed (use k3 env hang in auto)
qed

section \<open>Properties\<close>

text \<open>
  Property C15. A process that exits while its parent waits hands its exit status to the parent:
  \<open>sys_exit\<close> returns to no one else but the parent, which runs next; the process hangs with its
  status, truncated to 8 bits, and has no children any more; and the parent's next round of
  \<open>sys_wait\<close> finds this process, returns its pid (its low 16 bits) and its status, and removes it.
  It is assumed that no other child of the parent has already ended (if the parent is \<open>init\<close>, which
  inherits them, also no child of the process), that the idle thread is nobody's child, and that the
  pages of the process (its own, its directory and its control block) can be given back.
\<close>

theorem exit_status_reaches_parent:
  assumes inv: "sched_inv (kern s) D" and x: "tasks (kern s) (running (kern s)) = Some x"
    and not_idle: "running (kern s) \<noteq> idle_thread (kern s)"
    and all: "set (thread_all_list (kern s)) \<subseteq> dom (tasks (kern s))" "running (kern s) \<in> set (thread_all_list (kern s))"
      "running (kern s) \<noteq> 0"
    and p: "pid2thread (kern s) (parent_pid x) = Some p" "p \<noteq> 0" "tasks (kern s) p = Some px" "status px = TASK_WAITING"
      "pid px = parent_pid x"
    and pids: "parent_pid x \<noteq> - 1" "parent_pid x \<noteq> pid x" "pid x \<noteq> 1"
    and rel: "release_prog_resource dev (km (kern s)) (files s) x = Some (m, f)" "spaces_ok ((kern s)\<lparr>km := m\<rparr>) D"
    and others: "\<forall>t\<in>set (thread_all_list (kern s)). \<forall>y. tasks (kern s) t = Some y \<longrightarrow> t \<noteq> running (kern s) \<longrightarrow>
      status y = TASK_HANGING \<or> t = idle_thread (kern s) \<longrightarrow>
        parent_pid y \<noteq> parent_pid x \<and> (parent_pid x = 1 \<longrightarrow> parent_pid y \<noteq> pid x)"
    and reap: "running (kern s) \<noteq> main_thread (kern s)" "1 \<le> pid x"
      "nat (pid x - 1) div 8 < length (bits (pid_bitmap (kern s)))"
      "\<forall>c\<in>D. reapable (m\<lparr>cr3 := c\<rparr>) x (running (kern s))"
  shows "\<exists>s'. sys_exit dev s stat = Some s' \<and> sched_inv (kern s') D \<and> running (kern s') = p
    \<and> (\<exists>y. tasks (kern s') (running (kern s)) = Some y \<and> status y = TASK_HANGING \<and> pid y = pid x
         \<and> exit_status y = sint (word_of_int stat :: 8 word))
    \<and> (\<forall>t\<in>set (thread_all_list (kern s')). \<forall>y. tasks (kern s') t = Some y \<longrightarrow> parent_pid y \<noteq> pid x)
    \<and> (\<exists>k. thread_exit (kern s') (running (kern s)) False = Some k
         \<and> sys_wait_round s' = Some (Returns (pid x mod 65536, Some (sint (word_of_int stat :: 8 word))),
             s'\<lparr>kern := k, istacks := (istacks s')(running (kern s) := None)\<rparr>)
         \<and> running k = p \<and> tasks k = (tasks (kern s'))(running (kern s) := None)
         \<and> thread_all_list k = remove1 (running (kern s)) (thread_all_list (kern s)))"
proof -
  let ?k = "kern s"
  let ?c = "running ?k"
  let ?e = "sint (word_of_int stat :: 8 word)"
  let ?all = "thread_all_list ?k"
  from exit_prepare_ok [OF x all(1), of ?e m] obtain g where g:
    "adopt_all (?k\<lparr>tasks := (tasks ?k)(?c \<mapsto> x\<lparr>exit_status := ?e\<rparr>)\<rparr>) (pid x) ?all = Some (?k\<lparr>tasks := g\<rparr>)"
    "exit_prepared ?k m ?e (?k\<lparr>tasks := g, km := m\<rparr>)" by blast
  let ?k3 = "?k\<lparr>tasks := g, km := m\<rparr>"
  have ss: "same_sched ?k ?k3" using g(2) by (simp add: exit_prepared_def)
  have gt: "g t = map_option (\<lambda>y. (if t \<in> set ?all then adopt (pid x) else id)
              (if t = ?c then y\<lparr>exit_status := ?e\<rparr> else y)) (tasks ?k t)" for t
    using g(2) x by (simp add: exit_prepared_def)
  have "same_sched (?k\<lparr>km := m\<rparr>) ?k3" using ss by (simp add: same_sched_def)
  from same_sched_spaces [OF this rel(2)] have "spaces_ok ?k3 D" by simp
  from same_sched_inv [OF ss inv this] have inv3: "sched_inv ?k3 D" .
  have pc: "p \<noteq> ?c" using inv x p(3,4) by (auto simp: sched_inv_def)
  obtain px3 where px3: "tasks ?k3 p = Some px3" "status px3 = TASK_WAITING" "pid px3 = pid px"
    using gt [of p] p(3,4) pc by simp
  have pid3: "pid2thread ?k3 (parent_pid x) = Some p"
  proof -
    have "map_option pid (tasks ?k3 t) = map_option pid (tasks ?k t)" for t
      using gt [of t] by (cases "tasks ?k t") simp_all
    with p(1) show ?thesis by (subst pid2thread_cong [of _ ?k]) simp_all
  qed
  from hand_over [OF inv3, where s = s and f = f, OF _ px3(1,2)] not_idle obtain k1 s' where ho:
    "thread_unblock ?k3 p = Some k1" "run_kern (\<lambda>k. thread_block k TASK_HANGING) (s\<lparr>kern := k1, files := f\<rparr>) = Some s'"
    "sched_inv (kern s') D" "running (kern s') = p" "same_env ?k3 (kern s')" "asleep (kern s') ?c TASK_HANGING"
    "\<forall>t y. t \<noteq> ?c \<longrightarrow> t \<noteq> idle_thread ?k \<longrightarrow> tasks (kern s') t = Some y \<longrightarrow> status y = TASK_HANGING \<longrightarrow>
       map_option status (tasks ?k3 t) = Some TASK_HANGING"
    "\<exists>c y. km (kern s') = load_space ((km ?k3)\<lparr>cr3 := c\<rparr>) y" by auto
  have ex: "sys_exit dev s stat = Some s'"
  proof -
    have "release_prog_resource dev (km ?k) (files s) (x\<lparr>exit_status := ?e\<rparr>) = Some (m, f)"
      using rel(1) by (simp add: release_prog_resource_def)
    moreover obtain x3 where "tasks ?k3 ?c = Some x3" "parent_pid x3 = parent_pid x"
      using gt [of ?c] x all(2) pids(2) by (auto simp: adopt_def)
    ultimately show ?thesis using x g(1) pids(1) pid3 p(2) px3(1,2) ho(1,2)
      by (simp add: sys_exit_def upd_task_def running_thread_def Let_def)
  qed
  have al: "thread_all_list (kern s') = ?all" using ho(5) by (simp add: same_env_def)
  have bk: "\<exists>z. tasks ?k t = Some z \<and> pid y = pid z \<and> exit_status y = (if t = ?c then ?e else exit_status z)
      \<and> parent_pid y = (if t \<in> set ?all \<and> parent_pid z = pid x then 1 else parent_pid z)"
    if "tasks (kern s') t = Some y" for t y
  proof -
    from same_env_task [OF ho(5) that] obtain v where "tasks ?k3 t = Some v" "task_frame v y" by blast
    with gt [of t] show ?thesis by (auto simp: task_frame_def adopt_def)
  qed
  obtain y where y: "tasks (kern s') ?c = Some y" "status y = TASK_HANGING" using ho(6) by (auto simp: asleep_def)
  with bk [OF y(1)] x all(2) pids(2) have y': "pid y = pid x" "exit_status y = ?e" "parent_pid y = parent_pid x" by auto
  have no: "parent_pid z \<noteq> pid x" if "t \<in> set ?all" "tasks (kern s') t = Some z" for t z
    using bk [OF that(2)] that(1) pids(3) by (auto split: if_splits)
  have dom: "tasks (kern s') t \<noteq> None" if "t \<in> set ?all" for t
  proof -
    have "tasks ?k3 t \<noteq> None" using gt [of t] that all(1) by auto
    moreover have "rel_option task_frame (tasks ?k3 t) (tasks (kern s') t)"
      using ho(5) unfolding same_env_def tasks_frame_def by blast
    ultimately show ?thesis by (cases "tasks (kern s') t") (auto elim: option.rel_cases)
  qed
  obtain pz where pz: "tasks (kern s') p = Some pz" using ho(3,4) by (auto simp: sched_inv_def)
  from bk [OF pz] p(3,5) have pzp: "pid pz = parent_pid x" by auto
  have find: "find_thread (find_hanging_child (kern s') (parent_pid x)) (thread_all_list (kern s')) = Some ?c"
    unfolding al
  proof (rule find_thread_unique [OF _ all(2)])
    show "\<forall>t\<in>set ?all. find_hanging_child (kern s') (parent_pid x) t \<noteq> None"
      using dom by (fastforce simp: find_hanging_child_def)
    show "find_hanging_child (kern s') (parent_pid x) ?c = Some True"
      using y y'(3) by (simp add: find_hanging_child_def)
    show "\<forall>t\<in>set ?all. t \<noteq> ?c \<longrightarrow> find_hanging_child (kern s') (parent_pid x) t = Some False"
    proof (intro ballI impI)
      fix t assume t: "t \<in> set ?all" "t \<noteq> ?c"
      from dom [OF t(1)] obtain z where z: "tasks (kern s') t = Some z" by auto
      from bk [OF z] obtain v where v: "tasks ?k t = Some v"
        "parent_pid z = (if t \<in> set ?all \<and> parent_pid v = pid x then 1 else parent_pid v)" by blast
      have "parent_pid z \<noteq> parent_pid x" if h: "status z = TASK_HANGING"
      proof -
        have "status v = TASK_HANGING \<or> t = idle_thread ?k"
          using ho(7) t(2) z h same_sched_status [OF ss, of t] v(1) by auto
        with others t v(1) have "parent_pid v \<noteq> parent_pid x" "parent_pid x = 1 \<longrightarrow> parent_pid v \<noteq> pid x" by blast+
        with v(2) show ?thesis by auto
      qed
      with z show "find_hanging_child (kern s') (parent_pid x) t = Some False" by (auto simp: find_hanging_child_def)
    qed
  qed
  obtain e v where km: "km (kern s') = load_space (m\<lparr>cr3 := e\<rparr>) v" using ho(8) by auto
  have "spaces_ok (kern s') D" using ho(3) by (simp add: sched_inv_def sched_wf_def)
  then have "e \<in> D" using km by (simp add: spaces_ok_def)
  from same_env_task [OF ho(5) y(1)] gt [of ?c] x have pg: "pgdir y = pgdir x" by (auto simp: task_frame_def)
  have re: "reapable (km (kern s')) y ?c"
    unfolding km reapable_load_space reapable_cong [OF pg] using reap(4) \<open>e \<in> D\<close> by blast
  have "?c \<in> set (thread_all_list (kern s'))" "?c \<noteq> main_thread (kern s')" "pid_bitmap (kern s') = pid_bitmap ?k"
    using al all(2) reap(1) ho(5) by (simp_all add: same_env_def)
  with thread_exit_reaps [OF y(1) _ _ _ _ re] reap(2,3) y'(1) obtain k where k: "thread_exit (kern s') ?c False = Some k"
    "tasks k = (tasks (kern s'))(?c := None)" "thread_all_list k = remove1 ?c (thread_all_list (kern s'))"
    "running k = running (kern s')" by auto
  have "sys_wait_round s' = Some (Returns (pid x mod 65536, Some ?e), s'\<lparr>kern := k, istacks := (istacks s')(?c := None)\<rparr>)"
    using k(1) pz pzp find all(3) y(1) y' ho(4) by (simp add: sys_wait_round_def running_thread_def)
  with ex ho(3,4) y y' no al k show ?thesis by (intro exI [of _ s']) auto
qed

text \<open>Giving back one kernel page.\<close>

lemma set_one: "set_bits b i 1 v = bitmap_set b i v"
  by (simp only: One_nat_def set_bits.simps) (cases "bitmap_set b i v"; simp)

lemma mfree_one:
  assumes a: "mmu m (pte_ptr v) = Some a" and p: "phys m a AND 0xfffff000 = p" "p < 0x100000000" "p mod 4096 = 0"
    and v: "v AND 0xfff = 0" "v mod 4096 = 0"
    and r: "0x102000 \<le> p" "phy_addr_start (kernel_pool m) \<le> p" "p < phy_addr_start (user_pool m)"
    and b: "bitmap_set (pool_bitmap (kernel_pool m)) (sub32 p (phy_addr_start (kernel_pool m)) div 4096) 0 = Some b"
    and w: "bitmap_set (vaddr_bitmap (kernel_vaddr m)) (sub32 v (vaddr_start (kernel_vaddr m)) div 4096) 0 = Some w"
  shows "mfree_page m PF_KERNEL v 1 = Some (m\<lparr>kernel_pool := (kernel_pool m)\<lparr>pool_bitmap := b\<rparr>,
    phys := (phys m)(a := phys m a AND 0xfffffffe), kernel_vaddr := (kernel_vaddr m)\<lparr>vaddr_bitmap := w\<rparr>\<rparr>)"
proof -
  have v2p: "addr_v2p m v = Some p" using a p v by (simp add: addr_v2p_def vread_def w32_def)
  let ?m = "m\<lparr>kernel_pool := (kernel_pool m)\<lparr>pool_bitmap := b\<rparr>\<rparr>"
  have pf: "pfree m p = Some ?m"
    using r b by (simp add: pfree_def PG_SIZE_def get_pool_def set_pool_bitmap_def)
  have "mmu ?m (pte_ptr v) = Some a" using a by (simp add: mmu_def Let_def cong: if_cong)
  then have rm: "page_table_pte_remove ?m v = Some (?m\<lparr>phys := (phys m)(a := phys m a AND 0xfffffffe)\<rparr>)"
    by (simp add: page_table_pte_remove_def vread_def vwrite_def)
  have vr: "vaddr_remove (?m\<lparr>phys := f\<rparr>) PF_KERNEL v 1
      = Some (?m\<lparr>phys := f, kernel_vaddr := (kernel_vaddr m)\<lparr>vaddr_bitmap := w\<rparr>\<rparr>)" for f
    using w by (simp add: vaddr_remove_def get_vaddr_def PG_SIZE_def set_vaddr_bitmap_def set_one)
  have "free_pages m False v 1 = Some (?m\<lparr>phys := (phys m)(a := phys m a AND 0xfffffffe)\<rparr>)"
    using v2p pf rm p(3) r by (simp add: One_nat_def PG_SIZE_def)
  then show ?thesis using v2p vr v p(3) r by (simp add: mfree_page_def PG_SIZE_def)
qed

text \<open>
  A process whose parent waits: page 0xc0101000 is its address bitmap, 0xc0102000 its directory,
  0xc0103000 its control block. It has a child that has already ended.
\<close>

definition demo_exit_mm :: mm where
  "demo_exit_mm = demo_mm\<lparr>phys := (phys demo_mm)(0x101404 := 0x200007, 0x101408 := 0x201007, 0x10140c := 0x202007,
       0x201c00 := 0x101007, 0x201ffc := 0x201007), cr3 := 0x201000,
     kernel_pool := \<lparr>pool_bitmap = \<lparr>btmp_bytes_len = 1, bits = [7]\<rparr>, phy_addr_start = 0x200000, pool_size = 32768\<rparr>,
     kernel_vaddr := \<lparr>vaddr_bitmap = \<lparr>btmp_bytes_len = 1, bits = [15]\<rparr>, vaddr_start = 0xc0100000\<rparr>,
     user_vaddr := \<lparr>vaddr_bitmap = \<lparr>btmp_bytes_len = 4096, bits = []\<rparr>, vaddr_start = 0x8048000\<rparr>\<rparr>"

definition demo_exit_task :: task_struct where
  "demo_exit_task = (demo_task TASK_RUNNING 31 5 0xc0102000)\<lparr>vaddr_bits := 0xc0101000, parent_pid := 2\<rparr>"

definition demo_exit_sys :: sys where
  "demo_exit_sys = \<lparr>kern = demo_kst\<lparr>km := demo_exit_mm, running := 0xc0103000, idle_thread := 0xc0104000,
       thread_ready_list := [], thread_all_list := [0xc0103000, 0xc009e000, 0xc0104000, 0xc0105000],
       tasks := [0xc009e000 \<mapsto> demo_task TASK_WAITING 31 2 0, 0xc0103000 \<mapsto> demo_exit_task,
         0xc0104000 \<mapsto> demo_task TASK_BLOCKED 10 3 0,
         0xc0105000 \<mapsto> (demo_task TASK_HANGING 31 4 0)\<lparr>parent_pid := 5\<rparr>]\<rparr>,
     files = demo_file_fs\<lparr>fd_table := replicate 8 (- 1)\<rparr>, pipes = Map.empty, istacks = Map.empty\<rparr>"

lemma free_pdes_none: "\<forall>i\<in>set is. vread m (dir + 4 * i) = Some 0 \<Longrightarrow> free_pdes m dir is = Some m"
  by (induction "is") simp_all

lemma close_fds_none: "\<forall>i\<in>set is. rd (fd_table f) i = Some (- 1) \<Longrightarrow> close_fds dev f is = Some f"
  by (induction "is") simp_all

definition demo_released :: mm where
  "demo_released = demo_exit_mm\<lparr>
     kernel_pool := \<lparr>pool_bitmap = \<lparr>btmp_bytes_len = 1, bits = [6]\<rparr>, phy_addr_start = 0x200000, pool_size = 32768\<rparr>,
     phys := (phys demo_exit_mm)(0x101404 := 0x200006),
     kernel_vaddr := \<lparr>vaddr_bitmap = \<lparr>btmp_bytes_len = 1, bits = [13]\<rparr>, vaddr_start = 0xc0100000\<rparr>\<rparr>"

text \<open>The entries of the pages are reached through either directory.\<close>

lemma demo_exit_pte:
  assumes "c \<in> {0x100000, 0x201000}" and "phys m 0x100ffc = 0x100007" and "phys m 0x201ffc = 0x201007"
    and "phys m 0x100c00 = 0x101007" and "phys m 0x201c00 = 0x101007" and "cr3 m = c"
  shows "mmu m (pte_ptr 0xc0101000) = Some 0x101404" "mmu m (pte_ptr 0xc0102000) = Some 0x101408"
    "mmu m (pte_ptr 0xc0103000) = Some 0x10140c"
  using assms by (auto simp: mmu_def pte_ptr_def PTE_IDX_def w32_def drop_bit_eq_div)

lemma demo_exit_phys:
  "phys demo_exit_mm 0x100ffc = 0x100007" "phys demo_exit_mm 0x201ffc = 0x201007"
  "phys demo_exit_mm 0x100c00 = 0x101007" "phys demo_exit_mm 0x201c00 = 0x101007"
  "phys demo_exit_mm 0x101404 = 0x200007" "phys demo_exit_mm 0x101408 = 0x201007" "phys demo_exit_mm 0x10140c = 0x202007"
  by (simp_all add: demo_exit_mm_def demo_mm_def)

lemma demo_exit_sel: "cr3 demo_exit_mm = 0x201000" "phy_addr_start (user_pool demo_exit_mm) = 0x208000"
  "kernel_pool demo_exit_mm = \<lparr>pool_bitmap = \<lparr>btmp_bytes_len = 1, bits = [7]\<rparr>, phy_addr_start = 0x200000, pool_size = 32768\<rparr>"
  "kernel_vaddr demo_exit_mm = \<lparr>vaddr_bitmap = \<lparr>btmp_bytes_len = 1, bits = [15]\<rparr>, vaddr_start = 0xc0100000\<rparr>"
  by (simp_all add: demo_exit_mm_def demo_mm_def)

lemma demo_release:
  assumes "pgdir x = 0xc0102000" and "vaddr_bits x = 0xc0101000"
  shows "release_prog_resource no_dev demo_exit_mm (demo_file_fs\<lparr>fd_table := replicate 8 (- 1)\<rparr>) x
    = Some (demo_released, demo_file_fs\<lparr>fd_table := replicate 8 (- 1)\<rparr>)"
proof -
  have "vread demo_exit_mm (0xc0102000 + 4 * i) = Some 0" if "i < 768" for i
  proof -
    have d: "(0xc0102000 + 4 * i) div 4194304 = 768" "(0xc0102000 + 4 * i) mod 4096 = 4 * i" "(0xc0102000 + 4 * i) div 4096 mod 1024 = 258"
    proof -
      have 1: "0xc0102000 + 4 * i = 4 * i + 786690 * 4096" by simp
      have 2: "(0xc0102000 + 4 * i) div 4096 = 786690" unfolding 1 div_mult_self1 [of 4096, simplified] using that by simp
      show "(0xc0102000 + 4 * i) div 4096 mod 1024 = 258" unfolding 2 by simp
      show "(0xc0102000 + 4 * i) mod 4096 = 4 * i" unfolding 1 mod_mult_self1 using that by simp
      show "(0xc0102000 + 4 * i) div 4194304 = 768" using that by (intro div_nat_eqI) simp_all
    qed
    show ?thesis using that unfolding vread_def mmu_def d by (simp add: demo_exit_mm_def demo_mm_def)
  qed
  then have 1: "free_pdes demo_exit_mm 0xc0102000 [0..<768] = Some demo_exit_mm" by (intro free_pdes_none) simp
  have 2: "mfree_page demo_exit_mm PF_KERNEL 0xc0101000 1 = Some demo_released"
    using mfree_one [where m = demo_exit_mm and v = "0xc0101000" and a = "0x101404" and p = "0x200000"
        and b = "\<lparr>btmp_bytes_len = 1, bits = [6]\<rparr>" and w = "\<lparr>btmp_bytes_len = 1, bits = [13]\<rparr>"]
      demo_exit_pte(1) [where c = "0x201000" and m = demo_exit_mm] demo_exit_phys demo_exit_sel
    by (simp add: demo_released_def sub32_def bitmap_set_def)
  have 3: "close_fds no_dev (demo_file_fs\<lparr>fd_table := replicate 8 (- 1)\<rparr>) [0..<8] = Some (demo_file_fs\<lparr>fd_table := replicate 8 (- 1)\<rparr>)"
    by (rule close_fds_none) simp
  have "btmp_bytes_len (vaddr_bitmap (user_vaddr demo_exit_mm)) div PG_SIZE = 1"
    by (simp add: PG_SIZE_def demo_exit_mm_def)
  with 1 2 3 assms show ?thesis by (simp add: release_prog_resource_def)
qed

lemma demo_reapable:
  assumes "c \<in> {0x100000, 0x201000}" and "pgdir x = 0xc0102000"
  shows "reapable (demo_released\<lparr>cr3 := c\<rparr>) x 0xc0103000"
proof -
  let ?m = "demo_released\<lparr>cr3 := c\<rparr>"
  let ?m1 = "?m\<lparr>kernel_pool := (kernel_pool ?m)\<lparr>pool_bitmap := \<lparr>btmp_bytes_len = 1, bits = [4]\<rparr>\<rparr>,
    phys := (phys ?m)(0x101408 := phys ?m 0x101408 AND 0xfffffffe),
    kernel_vaddr := (kernel_vaddr ?m)\<lparr>vaddr_bitmap := \<lparr>btmp_bytes_len = 1, bits = [9]\<rparr>\<rparr>\<rparr>"
  have ph: "phys demo_released a = (if a = 0x101404 then 0x200006 else phys demo_exit_mm a)" for a
    by (simp add: demo_released_def)
  have sel: "phy_addr_start (user_pool demo_released) = 0x208000"
    "kernel_pool demo_released = \<lparr>pool_bitmap = \<lparr>btmp_bytes_len = 1, bits = [6]\<rparr>, phy_addr_start = 0x200000, pool_size = 32768\<rparr>"
    "kernel_vaddr demo_released = \<lparr>vaddr_bitmap = \<lparr>btmp_bytes_len = 1, bits = [13]\<rparr>, vaddr_start = 0xc0100000\<rparr>"
    by (simp_all add: demo_released_def demo_exit_sel)
  have 1: "mfree_page ?m PF_KERNEL 0xc0102000 1 = Some ?m1"
    by (rule mfree_one [where a = "0x101408" and p = "0x201000"])
      (use demo_exit_pte(2) [OF assms(1), of ?m] demo_exit_phys in \<open>simp_all add: ph sel sub32_def bitmap_set_def\<close>)
  have "mfree_page ?m1 PF_KERNEL 0xc0103000 1 \<noteq> None"
    using mfree_one [where m = ?m1 and v = "0xc0103000" and a = "0x10140c" and p = "0x202000"
        and b = "\<lparr>btmp_bytes_len = 1, bits = [0]\<rparr>" and w = "\<lparr>btmp_bytes_len = 1, bits = [1]\<rparr>"]
      demo_exit_pte(3) [OF assms(1), of ?m1] demo_exit_phys sel by (simp add: ph sub32_def bitmap_set_def)
  with 1 assms(2) show ?thesis by (simp add: reapable_def)
qed

theorem exit_status_reaches_parent_witness:
  "\<exists>s' s''. sys_exit no_dev demo_exit_sys 300 = Some s' \<and> sched_inv (kern s') {0x100000, 0x201000}
    \<and> running (kern s') = 0xc009e000
    \<and> sys_wait_round s' = Some (Returns (5, Some (sint (word_of_int 300 :: 8 word))), s'')
    \<and> tasks (kern s'') 0xc0103000 = None \<and> running (kern s'') = 0xc009e000"
proof -
  let ?k = "kern demo_exit_sys"
  have v2p: "addr_v2p m 0xc0102000 = Some 0x201000"
    if "c \<in> {0x100000, 0x201000}" "phys m = phys demo_exit_mm \<or> phys m = (phys demo_exit_mm)(0x101404 := 0x200006)" "cr3 m = c" for m c
    using demo_exit_pte(2) [OF that(1), of m] that(2,3) demo_exit_phys by (auto simp: addr_v2p_def vread_def w32_def)
  have ts: "tasks ?k = [0xc009e000 \<mapsto> demo_task TASK_WAITING 31 2 0, 0xc0103000 \<mapsto> demo_exit_task,
      0xc0104000 \<mapsto> demo_task TASK_BLOCKED 10 3 0, 0xc0105000 \<mapsto> (demo_task TASK_HANGING 31 4 0)\<lparr>parent_pid := 5\<rparr>]"
    by (simp add: demo_exit_sys_def)
  have k: "running ?k = 0xc0103000" "idle_thread ?k = 0xc0104000" "thread_ready_list ?k = []" "km ?k = demo_exit_mm"
    "thread_all_list ?k = [0xc0103000, 0xc009e000, 0xc0104000, 0xc0105000]" "main_thread ?k = 0xc009e000"
    "bits (pid_bitmap ?k) = [31]" by (simp_all add: demo_exit_sys_def demo_kst_def)
  have sp: "spaces_ok (?k\<lparr>km := m\<rparr>) {0x100000, 0x201000}"
    if "phys m = phys demo_exit_mm \<or> phys m = (phys demo_exit_mm)(0x101404 := 0x200006)" "cr3 m = 0x201000" for m
    using v2p [of "0x100000" "m\<lparr>cr3 := 0x100000\<rparr>"] v2p [of "0x201000" "m\<lparr>cr3 := 0x201000\<rparr>"] that
    by (auto simp: spaces_ok_def ts demo_task_def demo_exit_task_def split: if_splits)
  have sp1: "spaces_ok ?k {0x100000, 0x201000}" using sp [of demo_exit_mm] demo_exit_sel(1) by (simp add: spaces_ok_def k(4))
  have inv: "sched_inv ?k {0x100000, 0x201000}" using sp1
    by (auto simp: sched_inv_def sched_wf_def ts k demo_exit_task_def demo_task_def task_ok_def split: if_splits)
  have sp2: "spaces_ok (?k\<lparr>km := demo_released\<rparr>) {0x100000, 0x201000}"
    by (rule sp) (simp_all add: demo_released_def demo_exit_sel)
  have x: "tasks ?k (running ?k) = Some demo_exit_task" "tasks ?k 0xc009e000 = Some (demo_task TASK_WAITING 31 2 0)"
    by (simp_all add: ts k)
  have f: "parent_pid demo_exit_task = 2" "pid demo_exit_task = 5" "pgdir demo_exit_task = 0xc0102000"
    "vaddr_bits demo_exit_task = 0xc0101000" by (simp_all add: demo_exit_task_def demo_task_def)
  have p: "pid2thread ?k (parent_pid demo_exit_task) = Some 0xc009e000"
    by (simp add: pid2thread_def pid_check_def ts k f) (simp add: demo_exit_task_def demo_task_def)
  have rel: "release_prog_resource no_dev (km ?k) (files demo_exit_sys) demo_exit_task
      = Some (demo_released, demo_file_fs\<lparr>fd_table := replicate 8 (- 1)\<rparr>)"
    using demo_release [of demo_exit_task] by (simp add: k f) (simp add: demo_exit_sys_def)
  have others: "\<forall>t\<in>set (thread_all_list ?k). \<forall>y. tasks ?k t = Some y \<longrightarrow> t \<noteq> running ?k \<longrightarrow>
      status y = TASK_HANGING \<or> t = idle_thread ?k \<longrightarrow>
        parent_pid y \<noteq> parent_pid demo_exit_task \<and> (parent_pid demo_exit_task = 1 \<longrightarrow> parent_pid y \<noteq> pid demo_exit_task)"
    by (simp add: ts k f) (simp add: demo_task_def)
  have reap: "\<forall>c\<in>{0x100000, 0x201000}. reapable (demo_released\<lparr>cr3 := c\<rparr>) demo_exit_task (running ?k)"
    using demo_reapable [of _ demo_exit_task] f k by simp
  from exit_status_reaches_parent [OF inv x(1) _ _ _ _ p _ x(2) _ _ _ _ _ rel sp2 others _ _ _ reap, of 300]
  obtain s' k' where "sys_exit no_dev demo_exit_sys 300 = Some s'" "sched_inv (kern s') {0x100000, 0x201000}"
    "running (kern s') = 0xc009e000"
    "sys_wait_round s' = Some (Returns (5, Some (sint (word_of_int 300 :: 8 word))),
       s'\<lparr>kern := k', istacks := (istacks s')(running ?k := None)\<rparr>)"
    "running k' = 0xc009e000" "tasks k' = (tasks (kern s'))(running ?k := None)"
    by (auto simp: k f ts) (auto simp: demo_task_def)
  then show ?thesis by (intro exI conjI) (assumption | simp add: k)+
qed

end
