(* ===== verification/Exec.thy ===== *)
theory Exec
  imports Process
begin

text \<open>
  \<open>src/src/userprog/exec.c\<close>: loading an ELF file into the address space of the running process
  and laying out the stack of the new program.

  The memory of the process is a function from virtual addresses to bytes; what it holds at an
  address without a page is what a page installed there would hold. A store outside the pages
  the process has, or above the user part of the address space, has no outcome.
\<close>

type_synonym umem = "nat \<Rightarrow> u8"

definition page_at :: "mm \<Rightarrow> nat \<Rightarrow> bool" where
  "page_at m v \<longleftrightarrow> mmu m v \<noteq> None"

definition range_ok :: "mm \<Rightarrow> nat \<Rightarrow> nat \<Rightarrow> bool" where
  "range_ok m v n \<longleftrightarrow> n = 0 \<or> (v + n \<le> 0xc0000000 \<and>
     (\<forall>p\<in>set [v div PG_SIZE..<(v + n + PG_SIZE - 1) div PG_SIZE]. page_at m (p * PG_SIZE)))"

definition ustore :: "mm \<Rightarrow> umem \<Rightarrow> nat \<Rightarrow> u8 list \<Rightarrow> umem option" where
  "ustore m u v bs =
     do { kassert (range_ok m v (length bs));
          Some (\<lambda>a. if v \<le> a \<and> a < v + length bs then bs ! (a - v) else u a) }"

section \<open>ELF headers\<close>

definition MAX_ARG_NR :: nat where "MAX_ARG_NR = 16"
definition PT_LOAD :: nat where "PT_LOAD = 1"
definition EHDR_SIZE :: nat where "EHDR_SIZE = 52"
definition PHDR_SIZE :: nat where "PHDR_SIZE = 32"

definition dec16 :: "u8 list \<Rightarrow> nat" where
  "dec16 bs = unat (bs ! 0) + 256 * unat (bs ! 1)"

record Elf32_Ehdr =
  e_ident :: "u8 list"
  e_type :: nat
  e_machine :: nat
  e_version :: nat
  e_entry :: nat
  e_phoff :: nat
  e_phentsize :: nat
  e_phnum :: nat

definition dec_ehdr :: "u8 list \<Rightarrow> Elf32_Ehdr" where
  "dec_ehdr bs = \<lparr>e_ident = take 16 bs, e_type = dec16 (drop 16 bs), e_machine = dec16 (drop 18 bs),
     e_version = dec32 (drop 20 bs), e_entry = dec32 (drop 24 bs), e_phoff = dec32 (drop 28 bs),
     e_phentsize = dec16 (drop 42 bs), e_phnum = dec16 (drop 44 bs)\<rparr>"

record Elf32_Phdr =
  p_type :: nat
  p_offset :: nat
  p_vaddr :: nat
  p_filesz :: nat
  p_memsz :: nat

definition dec_phdr :: "u8 list \<Rightarrow> Elf32_Phdr" where
  "dec_phdr bs = \<lparr>p_type = dec32 bs, p_offset = dec32 (drop 4 bs), p_vaddr = dec32 (drop 8 bs),
     p_filesz = dec32 (drop 16 bs), p_memsz = dec32 (drop 20 bs)\<rparr>"

definition ehdr_ok :: "Elf32_Ehdr \<Rightarrow> bool" where
  "ehdr_ok h \<longleftrightarrow> take 7 (e_ident h) = [0x7f, 0x45, 0x4c, 0x46, 1, 1, 1] \<and> e_type h = 2 \<and> e_machine h = 3
     \<and> e_version h = 1 \<and> e_phnum h \<le> 1024 \<and> e_phentsize h = PHDR_SIZE"

section \<open>Loading\<close>

text \<open>A \<open>uint32_t\<close> passed as an \<open>int32_t\<close>.\<close>

definition s32 :: "nat \<Rightarrow> int" where
  "s32 n = (if n < 0x80000000 then int n else int n - 0x100000000)"

definition occupy_pages :: "nat \<Rightarrow> nat \<Rightarrow> nat" where
  "occupy_pages vaddr memsz =
     (let size_in_first_page = PG_SIZE - (vaddr AND 0xfff) in
      if size_in_first_page < memsz then w32 (w32 (memsz - size_in_first_page + PG_SIZE - 1) div PG_SIZE + 1) else 1)"

fun take_pages :: "mm \<Rightarrow> nat \<Rightarrow> nat \<Rightarrow> (bool \<times> mm) option" where
  "take_pages m v 0 = Some (True, m)"
| "take_pages m v (Suc n) =
     do { pde \<leftarrow> vread m (pde_ptr v);
          absent \<leftarrow> (if pde AND 1 = 0 then Some True else do { pte \<leftarrow> vread m (pte_ptr v); Some (pte AND 1 = 0) });
          (ok, m) \<leftarrow> (if absent then do { (a, m) \<leftarrow> get_a_page m PF_USER v; Some (a \<noteq> 0, m) } else Some (True, m));
          if ok then take_pages m (w32 (v + PG_SIZE)) n else Some (False, m) }"

text \<open>The results of \<open>sys_lseek\<close> and \<open>sys_read\<close> are not looked at.\<close>

definition segment_load :: "dev_ops \<Rightarrow> sys \<Rightarrow> umem \<Rightarrow> int \<Rightarrow> Elf32_Phdr \<Rightarrow> (bool \<times> sys \<times> umem) option" where
  "segment_load dev s u fd ph =
     do { (ok, m) \<leftarrow> take_pages (km (kern s)) (p_vaddr ph AND 0xfffff000) (occupy_pages (p_vaddr ph) (p_memsz ph));
          let s = s\<lparr>kern := (kern s)\<lparr>km := m\<rparr>\<rparr> in
          if \<not> ok then Some (False, s, u)
          else
            do { (r, f) \<leftarrow> sys_lseek (files s) fd (s32 (p_offset ph)) SEEK_SET;
                 (r, bs, f) \<leftarrow> sys_read dev f fd (p_filesz ph);
                 u \<leftarrow> ustore m u (p_vaddr ph) bs;
                 u \<leftarrow> ustore m u (w32 (p_vaddr ph + p_filesz ph)) (replicate (sub32 (p_memsz ph) (p_filesz ph)) 0);
                 Some (True, s\<lparr>files := f\<rparr>, u) } }"

fun load_segments :: "dev_ops \<Rightarrow> sys \<Rightarrow> umem \<Rightarrow> int \<Rightarrow> nat \<Rightarrow> nat \<Rightarrow> nat \<Rightarrow> (bool \<times> sys \<times> umem) option" where
  "load_segments dev s u fd offset phsize 0 = Some (True, s, u)"
| "load_segments dev s u fd offset phsize (Suc n) =
     do { (r, f) \<leftarrow> sys_lseek (files s) fd (s32 offset) SEEK_SET;
          (r, bs, f) \<leftarrow> sys_read dev f fd phsize;
          let s = s\<lparr>files := f\<rparr> in
          if r \<noteq> int phsize then Some (False, s, u)
          else
            do { (ok, s, u) \<leftarrow> (if p_type (dec_phdr bs) = PT_LOAD then segment_load dev s u fd (dec_phdr bs) else Some (True, s, u));
                 if ok then load_segments dev s u fd (w32 (offset + phsize)) phsize n else Some (False, s, u) } }"

text \<open>The entry point as a \<open>uint32_t\<close>; \<open>0xffffffff\<close> is the -1 of a failure.\<close>

definition LOAD_FAILED :: nat where "LOAD_FAILED = 0xffffffff"

definition load_prog :: "dev_ops \<Rightarrow> sys \<Rightarrow> umem \<Rightarrow> u8 list \<Rightarrow> (nat \<times> sys \<times> umem) option" where
  "load_prog dev s u pathname =
     do { (fd, f) \<leftarrow> sys_open (files s) pathname O_RDONLY;
          if fd = - 1 then Some (LOAD_FAILED, s\<lparr>files := f\<rparr>, u)
          else
            do { (r, bs, f) \<leftarrow> sys_read dev f fd EHDR_SIZE;
                 let s = s\<lparr>files := f\<rparr>; h = dec_ehdr bs in
                 do { (ret, s, u) \<leftarrow>
                        (if r \<noteq> int EHDR_SIZE \<or> \<not> ehdr_ok h then Some (LOAD_FAILED, s, u)
                         else do { (ok, s, u) \<leftarrow> load_segments dev s u fd (e_phoff h) (e_phentsize h) (e_phnum h);
                                   Some (if ok then e_entry h else LOAD_FAILED, s, u) });
                      (r, f) \<leftarrow> sys_close dev (files s) fd;
                      Some (ret, s\<lparr>files := f\<rparr>, u) } } }"

section \<open>Replacing the program\<close>

text \<open>Copies in kernel memory; a copy to the null pointer of a failed allocation faults.\<close>

definition copy_string :: "mm \<Rightarrow> u8 list \<Rightarrow> (nat \<times> mm) option" where
  "copy_string m s = do { (p, m) \<leftarrow> kernel_malloc m (length s + 1); kassert (p \<noteq> 0); Some (p, m) }"

fun copy_strings :: "mm \<Rightarrow> u8 list list \<Rightarrow> (nat list \<times> mm) option" where
  "copy_strings m [] = Some ([], m)"
| "copy_strings m (s # ss) = do { (p, m) \<leftarrow> copy_string m s; (ps, m) \<leftarrow> copy_strings m ss; Some (p # ps, m) }"

definition copy_array_of_strings :: "mm \<Rightarrow> u8 list list \<Rightarrow> (nat \<times> nat list \<times> mm) option" where
  "copy_array_of_strings m ss =
     do { (cp, m) \<leftarrow> kernel_malloc m (4 * (length ss + 1));
          kassert (cp \<noteq> 0);
          (ps, m) \<leftarrow> copy_strings m ss;
          Some (cp, ps, m) }"

fun free_strings :: "mm \<Rightarrow> nat list \<Rightarrow> mm option" where
  "free_strings m [] = Some m"
| "free_strings m (p # ps) = do { m \<leftarrow> kfree m p; free_strings m ps }"

definition free_array_of_strings :: "mm \<Rightarrow> nat \<Rightarrow> nat list \<Rightarrow> mm option" where
  "free_array_of_strings m cp ps = do { m \<leftarrow> free_strings m ps; kfree m cp }"

text \<open>Strings from the last to the first, each below the one before; their addresses in order.\<close>

fun put_strings :: "mm \<Rightarrow> umem \<Rightarrow> nat \<Rightarrow> u8 list list \<Rightarrow> (umem \<times> nat \<times> nat list) option" where
  "put_strings m u ptr [] = Some (u, ptr, [])"
| "put_strings m u ptr (s # ss) =
     do { (u, ptr, ps) \<leftarrow> put_strings m u ptr ss;
          let p = sub32 ptr (length s + 1) in
          do { u \<leftarrow> ustore m u p (s @ [0]); Some (u, p, p # ps) } }"

text \<open>
  The stack: the strings, then downwards the array of the environment with its null pointer,
  the array of the arguments and their number. The result is the memory and the addresses
  \<open>envp_start\<close>, \<open>argv_start\<close> and \<open>ptr\<close>. \<open>user_argv\<close> has room for 16 pointers.
\<close>

definition put_arrays :: "mm \<Rightarrow> umem \<Rightarrow> nat \<Rightarrow> nat list \<Rightarrow> nat list \<Rightarrow> (umem \<times> nat \<times> nat \<times> nat) option" where
  "put_arrays m u ptr user_argv user_envp =
     (let envp_start = sub32 (ptr - ptr mod 4) (4 * (length user_envp + 1)) in
      do { u \<leftarrow> ustore m u envp_start (enc_words (user_envp @ [0]));
           let argv_start = sub32 envp_start (4 * length user_argv) in
           do { u \<leftarrow> ustore m u argv_start (enc_words user_argv);
                let sp = sub32 argv_start 4 in
                do { u \<leftarrow> ustore m u sp (enc32 (length user_argv)); Some (u, envp_start, argv_start, sp) } } })"

definition setup_stack :: "mm \<Rightarrow> umem \<Rightarrow> u8 list list \<Rightarrow> u8 list list \<Rightarrow> (umem \<times> nat \<times> nat \<times> nat) option" where
  "setup_stack m u argv envp =
     do { (u, ptr, user_envp) \<leftarrow> put_strings m u 0xc0000000 envp;
          kassert (0 < length argv);
          kassert (length argv \<le> MAX_ARG_NR);
          (u, ptr, user_argv) \<leftarrow> put_strings m u ptr argv;
          put_arrays m u ptr user_argv user_envp }"

text \<open>
  The flag says that the process goes on in the new program, with the registers of its
  interrupt stack; otherwise the call returns -1. The copies are not freed in that case.
\<close>

definition sys_execve :: "dev_ops \<Rightarrow> sys \<Rightarrow> umem \<Rightarrow> u8 list \<Rightarrow> u8 list list \<Rightarrow> u8 list list \<Rightarrow> (bool \<times> sys \<times> umem) option" where
  "sys_execve dev s u path argv envp =
     do { let cur = running (kern s);
          k \<leftarrow> upd_task (kern s) cur (\<lambda>x. x\<lparr>signal_bits := 0, sighandlers := replicate MAX_SIGNALS SIG_DFL\<rparr>);
          (path_copy, m) \<leftarrow> copy_string (km k) path;
          (argv_copy, as, m) \<leftarrow> copy_array_of_strings m argv;
          (envp_copy, es, m) \<leftarrow> copy_array_of_strings m envp;
          (entry_point, s, u) \<leftarrow> load_prog dev (s\<lparr>kern := k\<lparr>km := m\<rparr>\<rparr>) u path;
          if entry_point = LOAD_FAILED then Some (False, s, u)
          else
            do { k \<leftarrow> upd_task (kern s) cur (\<lambda>x. x\<lparr>name := take (TASK_NAME_LEN - 1) path\<rparr>);
                 (user_envp, m) \<leftarrow> kernel_malloc ((km k)\<lparr>u_block_descs := block_desc_init\<rparr>) (4 * (length envp + 1));
                 kassert (user_envp \<noteq> 0);
                 (u, envp_start, argv_start, ptr) \<leftarrow> setup_stack m u argv envp;
                 m \<leftarrow> kfree m user_envp;
                 m \<leftarrow> free_array_of_strings m argv_copy as;
                 m \<leftarrow> free_array_of_strings m envp_copy es;
                 m \<leftarrow> kfree m path_copy;
                 stk \<leftarrow> istacks s cur;
                 Some (True, s\<lparr>kern := k\<lparr>km := m\<rparr>, istacks := (istacks s)(cur \<mapsto>
                   stk\<lparr>r_edx := envp_start, r_ebx := argv_start, r_ecx := length argv, r_eip := entry_point, r_esp := ptr\<rparr>)\<rparr>, u) } }"

section \<open>The pages of a segment\<close>

lemma occupy_pages_eq:
  assumes "vaddr + memsz + PG_SIZE < 4294967296" and "0 < memsz"
  shows "occupy_pages vaddr memsz = div_round_up (vaddr mod 4096 + memsz) PG_SIZE"
proof -
  have off: "vaddr AND 0xfff = vaddr mod 4096" by (rule and_off)
  have m: "vaddr mod 4096 < 4096" "vaddr mod 4096 \<le> vaddr" by simp_all
  show ?thesis
  proof (cases "PG_SIZE - vaddr mod 4096 < memsz")
    case True
    define d where "d = memsz - (4096 - vaddr mod 4096)"
    have d: "vaddr mod 4096 + memsz = 4096 + d" using True m by (simp add: d_def PG_SIZE_def)
    then have "(d + 4095) div 4096 + 1 < 4294967296" "d + 4095 < 4294967296"
      using assms(1) m by (simp_all add: PG_SIZE_def div_less_iff_less_mult)
    moreover have "(4096 + d + 4096 - 1) div 4096 = (d + 4095) div 4096 + 1" by simp
    ultimately show ?thesis using True
      by (simp add: occupy_pages_def off div_round_up_def PG_SIZE_def d d_def [symmetric] Let_def)
  next
    case False
    have "(vaddr mod 4096 + memsz + 4096 - 1) div 4096 = 1"
      by (rule div_nat_eqI) (use False m assms(2) in \<open>simp_all add: PG_SIZE_def\<close>)
    with False show ?thesis by (simp add: occupy_pages_def off div_round_up_def PG_SIZE_def)
  qed
qed

lemma occupy_pages_exact:
  assumes "vaddr + memsz + PG_SIZE < 4294967296" and "0 < memsz"
  shows "(vaddr AND 0xfffff000) \<le> vaddr
    \<and> vaddr + memsz \<le> (vaddr AND 0xfffff000) + occupy_pages vaddr memsz * PG_SIZE
    \<and> (vaddr AND 0xfffff000) + (occupy_pages vaddr memsz - 1) * PG_SIZE < vaddr + memsz"
proof -
  obtain q where q: "vaddr = q + vaddr mod 4096" "q = 4096 * (vaddr div 4096)" by (metis add.commute mod_mult_div_eq)
  have "vaddr div 4096 < 1048576" using assms(1) by (simp add: div_less_iff_less_mult)
  with q(2) have f: "vaddr AND 0xfffff000 = q" by (simp add: and_frame)
  let ?n = "div_round_up (vaddr mod 4096 + memsz) PG_SIZE"
  have "vaddr mod 4096 + memsz \<le> ?n * PG_SIZE" by (rule div_round_up_enough) (simp add: PG_SIZE_def)
  moreover have "(?n - 1) * PG_SIZE < vaddr mod 4096 + memsz"
    by (rule div_round_up_tight) (use assms(2) in \<open>simp_all add: PG_SIZE_def\<close>)
  ultimately show ?thesis unfolding occupy_pages_eq [OF assms] f using q(1) by linarith
qed

section \<open>Memory of the process\<close>

definition uwrite :: "umem \<Rightarrow> nat \<Rightarrow> u8 list \<Rightarrow> umem" where
  "uwrite u v bs = (\<lambda>a. if v \<le> a \<and> a < v + length bs then bs ! (a - v) else u a)"

lemma ustore_ok: "range_ok m v (length bs) \<Longrightarrow> ustore m u v bs = Some (uwrite u v bs)"
  by (simp add: ustore_def uwrite_def)

lemma uwrite_other: "a < v \<or> v + length bs \<le> a \<Longrightarrow> uwrite u v bs a = u a"
  by (auto simp: uwrite_def)

lemma range_ok_part:
  assumes "range_ok m lo n" and "lo \<le> v" and "v + k \<le> lo + n"
  shows "range_ok m v k"
proof (cases "k = 0")
  case False
  then have n: "n \<noteq> 0" using assms(2,3) by simp
  have "lo div PG_SIZE \<le> v div PG_SIZE" "(v + k + PG_SIZE - 1) div PG_SIZE \<le> (lo + n + PG_SIZE - 1) div PG_SIZE"
    using assms(2,3) by (intro div_le_mono diff_le_mono; simp)+
  with assms n show ?thesis by (auto simp: range_ok_def)
qed (simp add: range_ok_def)

text \<open>A string and an array of words in this memory.\<close>

definition ucstr :: "umem \<Rightarrow> nat \<Rightarrow> u8 list \<Rightarrow> bool" where
  "ucstr u p s = cstr (Some \<circ> u) p s"

definition uwords :: "umem \<Rightarrow> nat \<Rightarrow> nat \<Rightarrow> nat list" where
  "uwords u p n = dec_words n (map u [p..<p + 4 * n])"

lemma ucstr_frame: "ucstr u p s \<Longrightarrow> (\<And>a. p \<le> a \<Longrightarrow> a \<le> p + length s \<Longrightarrow> u' a = u a) \<Longrightarrow> ucstr u' p s"
  unfolding ucstr_def by (erule cstr_frame) simp

lemma ucstr_uwrite: "0 \<notin> set s \<Longrightarrow> ucstr (uwrite u p (s @ [0])) p s"
proof -
  have "cstr (Some \<circ> f) q t" if "0 \<notin> set t" "\<forall>i \<le> length t. f (q + i) = (t @ [0]) ! i" for f q and t :: "u8 list"
    using that
  proof (induction t arbitrary: q)
    case (Cons c t)
    have "f q = c" using Cons.prems(2) [rule_format, of 0] by simp
    moreover have "\<forall>i \<le> length t. f (Suc q + i) = (t @ [0]) ! i"
      using Cons.prems(2) by (metis (no_types, lifting) Suc_le_mono add_Suc_right add_Suc append_Cons length_Cons nth_Cons_Suc)
    ultimately show ?case using Cons by auto
  qed simp
  then show "0 \<notin> set s \<Longrightarrow> ucstr (uwrite u p (s @ [0])) p s" by (simp add: ucstr_def uwrite_def)
qed

lemma map_uwrite: "length bs = n \<Longrightarrow> map (uwrite u p bs) [p..<p + n] = bs"
  by (rule nth_equalityI) (simp_all add: uwrite_def)

lemma uwords_uwrite:
  assumes "\<forall>x\<in>set xs. x < 4294967296"
  shows "uwords (uwrite u p (enc_words xs)) p (length xs) = xs"
proof -
  have "uwords (uwrite u p (enc_words xs)) p (length xs) = dec_words (length xs) (enc_words xs)"
    by (simp add: uwords_def map_uwrite)
  also have "\<dots> = xs" using dec_words_enc_words [OF assms, of "[]"] by simp
  finally show ?thesis .
qed

lemma uwords_frame: "(\<And>a. p \<le> a \<Longrightarrow> a < p + 4 * n \<Longrightarrow> u' a = u a) \<Longrightarrow> uwords u' p n = uwords u p n"
proof -
  assume "\<And>a. p \<le> a \<Longrightarrow> a < p + 4 * n \<Longrightarrow> u' a = u a"
  then have "map u' [p..<p + 4 * n] = map u [p..<p + 4 * n]" by simp
  then show ?thesis by (simp only: uwords_def)
qed

section \<open>The stack of a new program\<close>

definition strs_size :: "u8 list list \<Rightarrow> nat" where
  "strs_size ss = sum_list (map (\<lambda>s. length s + 1) ss)"

definition stack_size :: "u8 list list \<Rightarrow> u8 list list \<Rightarrow> nat" where
  "stack_size argv envp = strs_size envp + strs_size argv + 3 + 4 * (length envp + 1) + 4 * length argv + 4"

definition str_in :: "umem \<Rightarrow> nat \<Rightarrow> nat \<Rightarrow> nat \<Rightarrow> u8 list \<Rightarrow> bool" where
  "str_in u lo hi p s \<longleftrightarrow> lo \<le> p \<and> p + length s < hi \<and> ucstr u p s"

lemma str_in_frame:
  "list_all2 (str_in u lo hi) ps ss \<Longrightarrow> (\<And>a. lo \<le> a \<Longrightarrow> a < hi \<Longrightarrow> u' a = u a) \<Longrightarrow> lo' \<le> lo \<Longrightarrow> list_all2 (str_in u' lo' hi) ps ss"
  by (erule list.rel_mono_strong) (auto simp: str_in_def intro: ucstr_frame)

lemma put_strings_ok:
  assumes "range_ok m lo n" and "lo + strs_size ss \<le> ptr" and "ptr \<le> lo + n" and "lo + n < 4294967296" and "\<forall>s\<in>set ss. 0 \<notin> set s"
  shows "\<exists>u' ps. put_strings m u ptr ss = Some (u', ptr - strs_size ss, ps)
    \<and> list_all2 (str_in u' (ptr - strs_size ss) ptr) ps ss
    \<and> (\<forall>a. a < ptr - strs_size ss \<or> ptr \<le> a \<longrightarrow> u' a = u a)"
  using assms
proof (induction ss)
  case Nil
  then show ?case by (simp add: strs_size_def)
next
  case (Cons s ss)
  have sz: "strs_size (s # ss) = length s + 1 + strs_size ss" by (simp add: strs_size_def)
  obtain u1 ps where ih: "put_strings m u ptr ss = Some (u1, ptr - strs_size ss, ps)"
    "list_all2 (str_in u1 (ptr - strs_size ss) ptr) ps ss"
    "\<forall>a. a < ptr - strs_size ss \<or> ptr \<le> a \<longrightarrow> u1 a = u a"
    using Cons.IH Cons.prems sz by auto
  let ?p = "ptr - strs_size (s # ss)"
  have p: "sub32 (ptr - strs_size ss) (length s + 1) = ?p"
    using Cons.prems(2-4) sz by (subst sub32_le) auto
  have pl: "?p + length (s @ [0]) = ptr - strs_size ss" using Cons.prems(2) sz by simp
  have "range_ok m ?p (length (s @ [0]))"
    by (rule range_ok_part [OF Cons.prems(1)]) (use Cons.prems(2,3) pl in auto)
  then have st: "ustore m u1 ?p (s @ [0]) = Some (uwrite u1 ?p (s @ [0]))" by (rule ustore_ok)
  have "list_all2 (str_in (uwrite u1 ?p (s @ [0])) ?p ptr) ps ss"
    by (rule str_in_frame [OF ih(2)]) (use pl in \<open>auto intro!: uwrite_other\<close>)
  moreover have "str_in (uwrite u1 ?p (s @ [0])) ?p ptr ?p s"
    using ucstr_uwrite [of s u1 ?p] Cons.prems(2,5) sz by (auto simp: str_in_def)
  moreover have "\<forall>a. a < ?p \<or> ptr \<le> a \<longrightarrow> uwrite u1 ?p (s @ [0]) a = u a"
    using ih(3) pl sz by (auto simp: uwrite_def)
  ultimately show ?case using ih(1) p st by (intro exI [of _ "?p # ps"] exI conjI) (auto simp: Let_def)
qed

lemma put_arrays_ok:
  assumes r: "range_ok m lo n" and hi: "ptr \<le> lo + n" "lo + n < 4294967296"
    and room: "lo + 3 + 4 * (length es + 1) + 4 * length as + 4 \<le> ptr"
    and small: "\<forall>x\<in>set es \<union> set as. x < 4294967296" "length as < 4294967296"
  shows "\<exists>u' e a sp. put_arrays m u ptr as es = Some (u', e, a, sp)
    \<and> uwords u' e (length es + 1) = es @ [0] \<and> uwords u' a (length as) = as \<and> uwords u' sp 1 = [length as]
    \<and> sp \<le> ptr \<and> e = a + 4 * length as \<and> a = sp + 4 \<and> sp mod 4 = 0
    \<and> ptr - (3 + 4 * (length es + 1) + 4 * length as + 4) \<le> sp \<and> (\<forall>x. x < sp \<or> ptr \<le> x \<longrightarrow> u' x = u x)"
proof -
  define top where "top = ptr - ptr mod 4"
  have top: "top mod 4 = 0" "ptr - 3 \<le> top" "top \<le> ptr"
    unfolding top_def by (simp_all add: minus_mod_eq_mult_div)
  define e a sp where "e = top - 4 * (length es + 1)" and "a = e - 4 * length as" and "sp = a - 4"
  have pos: "4 * (length es + 1) + 4 * length as + 4 + lo \<le> top" using top(2) room by linarith
  have b: "e + 4 * (length es + 1) = top" "a + 4 * length as = e" "sp + 4 = a" "lo \<le> sp"
    using pos by (simp_all add: e_def a_def sp_def)
  let ?u1 = "uwrite u e (enc_words (es @ [0]))"
  let ?u2 = "uwrite ?u1 a (enc_words as)"
  let ?u3 = "uwrite ?u2 sp (enc32 (length as))"
  have sub: "sub32 top (4 * (length es + 1)) = e" "sub32 e (4 * length as) = a" "sub32 a 4 = sp"
    using b top hi pos by (simp_all add: e_def a_def sp_def sub32_le)
  have part: "range_ok m v k" if "lo \<le> v" "v + k \<le> top" for v k
    by (rule range_ok_part [OF r that(1)]) (use that hi top in linarith)
  have "range_ok m e (length (enc_words (es @ [0])))" "range_ok m a (length (enc_words as))" "range_ok m sp (length (enc32 (length as)))"
    by (rule part; use b in simp)+
  then have run: "put_arrays m u ptr as es = Some (?u3, e, a, sp)"
    unfolding put_arrays_def top_def [symmetric] by (simp add: Let_def sub [simplified] ustore_ok)
  have "uwords ?u3 e (length es + 1) = uwords ?u1 e (length es + 1)"
    by (rule uwords_frame) (use b in \<open>auto simp: uwrite_def\<close>)
  also have "\<dots> = es @ [0]" using uwords_uwrite [of "es @ [0]" u e] small by (simp add: Suc_eq_plus1)
  finally have 1: "uwords ?u3 e (length es + 1) = es @ [0]" .
  have "uwords ?u3 a (length as) = uwords ?u2 a (length as)"
    by (rule uwords_frame) (use b in \<open>auto simp: uwrite_def\<close>)
  also have "\<dots> = as" using uwords_uwrite [of as ?u1 a] small by simp
  finally have 2: "uwords ?u3 a (length as) = as" .
  have 3: "uwords ?u3 sp 1 = [length as]" using uwords_uwrite [of "[length as]" ?u2 sp] small(2) by (simp add: One_nat_def)
  have m4: "sp mod 4 = 0"
  proof -
    have "top = sp + 4 * (length es + length as + 2)" using b by simp
    then have "top mod 4 = sp mod 4" by (metis mod_mult_self2)
    with top(1) show ?thesis by simp
  qed
  have fr: "\<forall>x. x < sp \<or> ptr \<le> x \<longrightarrow> ?u3 x = u x" using b top(3) by (auto simp: uwrite_def)
  have "ptr - (3 + 4 * (length es + 1) + 4 * length as + 4) \<le> sp" using b top(2) by linarith
  with run 1 2 3 m4 fr b top(3) show ?thesis by (intro exI [of _ ?u3] exI [of _ e] exI [of _ a] exI [of _ sp]) auto
qed

section \<open>Properties\<close>

text \<open>
  Property C17. The stack \<open>sys_execve\<close> prepares, read back with the registers it sets (as
  \<open>_start\<close> and \<open>main\<close> do), gives the arguments and the environment: \<open>ptr\<close> points to their
  number, \<open>argv_start\<close> to the addresses of the argument strings, \<open>envp_start\<close> to the addresses
  of the environment strings and a null pointer; everything is inside the room that was there,
  the stack pointer is a multiple of 4, and nothing below it or outside is touched.
\<close>

theorem exec_stack_roundtrip:
  assumes "range_ok m (0xc0000000 - n) n" and "stack_size argv envp \<le> n" and "n \<le> 0xc0000000"
    and "0 < length argv" and "length argv \<le> MAX_ARG_NR" and "\<forall>s\<in>set argv \<union> set envp. 0 \<notin> set s"
  shows "\<exists>u' envp_start argv_start ptr as es. setup_stack m u argv envp = Some (u', envp_start, argv_start, ptr)
    \<and> uwords u' ptr 1 = [length argv]
    \<and> uwords u' argv_start (length argv) = as \<and> list_all2 (ucstr u') as argv
    \<and> uwords u' envp_start (length envp + 1) = es @ [0] \<and> list_all2 (ucstr u') es envp
    \<and> argv_start = ptr + 4 \<and> ptr mod 4 = 0 \<and> 0xc0000000 - n \<le> ptr
    \<and> (\<forall>x. x < ptr \<or> 0xc0000000 \<le> x \<longrightarrow> u' x = u x)"
proof -
  define lo where "lo = 0xc0000000 - n"
  have top: "lo + n = 0xc0000000" using assms(3) by (simp add: lo_def)
  have room: "lo + strs_size envp + strs_size argv + 3 + 4 * (length envp + 1) + 4 * length argv + 4 \<le> 0xc0000000"
    using assms(2) top unfolding stack_size_def by linarith
  have z: "\<forall>s\<in>set envp. 0 \<notin> set s" "\<forall>s\<in>set argv. 0 \<notin> set s" using assms(6) by auto
  have r: "range_ok m lo n" using assms(1) by (simp add: lo_def)
  obtain u1 es where e: "put_strings m u 0xc0000000 envp = Some (u1, 0xc0000000 - strs_size envp, es)"
    "list_all2 (str_in u1 (0xc0000000 - strs_size envp) 0xc0000000) es envp"
    "\<forall>a. a < 0xc0000000 - strs_size envp \<or> 0xc0000000 \<le> a \<longrightarrow> u1 a = u a"
    using put_strings_ok [OF r _ _ _ z(1), where ptr = "0xc0000000" and u = u] room top by auto
  let ?p1 = "0xc0000000 - strs_size envp"
  have room2: "lo + strs_size argv \<le> ?p1" "?p1 \<le> lo + n" using room top by linarith+
  let ?p2 = "?p1 - strs_size argv"
  obtain u2 as where a: "put_strings m u1 ?p1 argv = Some (u2, ?p2, as)"
    "list_all2 (str_in u2 ?p2 ?p1) as argv" "\<forall>a. a < ?p2 \<or> ?p1 \<le> a \<longrightarrow> u2 a = u1 a"
    using put_strings_ok [OF r _ _ _ z(2), where ptr = ?p1 and u = u1] room2 top by auto
  have len: "length es = length envp" "length as = length argv" using e(2) a(2) by (simp_all add: list_all2_lengthD)
  have small: "\<forall>x\<in>set es \<union> set as. x < 4294967296"
    using e(2) a(2) by (fastforce simp: list_all2_conv_all_nth in_set_conv_nth str_in_def)
  obtain u' en ar sp where p: "put_arrays m u2 ?p2 as es = Some (u', en, ar, sp)"
    "uwords u' en (length es + 1) = es @ [0]" "uwords u' ar (length as) = as" "uwords u' sp 1 = [length as]"
    "ar = sp + 4" "sp mod 4 = 0" "sp \<le> ?p2" "?p2 - (3 + 4 * (length es + 1) + 4 * length as + 4) \<le> sp"
    "\<forall>x. x < sp \<or> ?p2 \<le> x \<longrightarrow> u' x = u2 x"
  proof -
    have "?p2 \<le> lo + n" "lo + n < 4294967296" "lo + 3 + 4 * (length es + 1) + 4 * length as + 4 \<le> ?p2" "length as < 4294967296"
      using room top len assms(5) by (simp_all add: MAX_ARG_NR_def)
    from put_arrays_ok [OF r this(1-3) small this(4), of u2] show ?thesis
      by (elim exE conjE, intro that) assumption+
  qed
  have sp: "lo \<le> sp" "sp \<le> ?p2" using p(8) [unfolded len] p(7) room by linarith+
  have "list_all2 (str_in u' ?p2 ?p1) as argv" by (rule str_in_frame [OF a(2)]) (use p(9) in auto)
  moreover have "list_all2 (str_in u' ?p1 0xc0000000) es envp"
    by (rule str_in_frame [OF e(2)]) (use p(9) a(3) in auto)
  ultimately have "list_all2 (ucstr u') as argv" "list_all2 (ucstr u') es envp"
    by (auto elim!: list.rel_mono_strong simp: str_in_def)
  moreover have "\<forall>x. x < sp \<or> 0xc0000000 \<le> x \<longrightarrow> u' x = u x" using p(9) a(3) e(3) sp by auto
  moreover have "setup_stack m u argv envp = Some (u', en, ar, sp)"
    using e(1) a(1) p(1) assms(4,5) by (simp add: setup_stack_def)
  ultimately show ?thesis using p len sp(1) [unfolded lo_def] by auto
qed

text \<open>A process with one page for its stack, and \<open>ls -l\<close> with the environment \<open>A=1\<close>.\<close>

definition demo_stack_mm :: mm where
  "demo_stack_mm = demo_mm\<lparr>phys := (phys demo_mm)(0x100bfc := 0x103007, 0x103ffc := 0x104007)\<rparr>"

theorem exec_stack_roundtrip_witness:
  "\<exists>u' envp_start argv_start ptr as es.
     setup_stack demo_stack_mm (\<lambda>_. 0) [[108, 115], [45, 108]] [[65, 61, 49]] = Some (u', envp_start, argv_start, ptr)
     \<and> uwords u' ptr 1 = [2] \<and> uwords u' argv_start 2 = as \<and> list_all2 (ucstr u') as [[108, 115], [45, 108]]
     \<and> uwords u' envp_start 2 = es @ [0] \<and> list_all2 (ucstr u') es [[65, 61, 49]] \<and> argv_start = ptr + 4"
proof -
  have "mmu demo_stack_mm 0xbffff000 = Some 0x104000"
    by (simp add: mmu_def demo_stack_mm_def demo_mm_def)
  then have r: "range_ok demo_stack_mm (0xc0000000 - 4096) 4096"
    by (simp add: range_ok_def page_at_def PG_SIZE_def)
  let ?argv = "[[108, 115], [45, 108 :: u8]]" and ?envp = "[[65, 61, 49 :: u8]]"
  have "stack_size ?argv ?envp \<le> 4096" by (simp add: stack_size_def strs_size_def)
  moreover have "\<forall>s\<in>set ?argv \<union> set ?envp. 0 \<notin> set s" by simp
  moreover have l: "length ?argv = 2" "length ?envp + 1 = 2" by simp_all
  ultimately show ?thesis
    using exec_stack_roundtrip [OF r, of ?argv ?envp "\<lambda>_. 0", unfolded l] by (simp only: MAX_ARG_NR_def) fastforce
qed

end
