(* ===== verification/Userlib.thy ===== *)
theory Userlib
  imports Path
begin

text \<open>
  The C library of user programs: \<open>src/system/crt/filesys.c\<close> (cleaning paths, searching the
  directories of \<open>PATH\<close>) and \<open>getenv\<close> of \<open>stdlib.c\<close>. A string is its bytes without the
  terminating zero; a buffer that is too small for what is written has no outcome. The system
  calls \<open>getcwd\<close> and \<open>stat\<close> are arguments: the directory, and which paths exist.
\<close>

section \<open>The environment\<close>

text \<open>
  \<open>strncmp(s, name, k) == 0\<close> for a string \<open>s\<close> of at least \<open>k\<close> bytes. An entry without an equals
  sign is skipped.
\<close>

definition strncmp_eq :: "u8 list \<Rightarrow> u8 list \<Rightarrow> nat \<Rightarrow> bool" where
  "strncmp_eq s nm k \<longleftrightarrow> take k s = take k nm"

definition equals :: u8 where "equals = 61"
definition colon :: u8 where "colon = 58"

fun getenv :: "u8 list list \<Rightarrow> u8 list \<Rightarrow> u8 list option" where
  "getenv [] nm = None"
| "getenv (s # env) nm =
     (let k = length (takeWhile (\<lambda>c. c \<noteq> equals) s) in
      if k = length s then getenv env nm
      else if strncmp_eq s nm k then Some (drop (k + 1) s) else getenv env nm)"

section \<open>Paths\<close>

text \<open>The name, and where the parse stopped; \<open>None\<close> is \<open>NULL\<close>.\<close>

definition parse_top_dir :: "u8 list \<Rightarrow> u8 list \<times> u8 list option" where
  "parse_top_dir pathname =
     (let p = (if pathname \<noteq> [] \<and> hd pathname = slash then dropWhile (\<lambda>c. c = slash) pathname else pathname);
          name = takeWhile (\<lambda>c. c \<noteq> slash) p;
          rest = dropWhile (\<lambda>c. c \<noteq> slash) p
      in (name, if rest = [] then None else Some rest))"

lemma parse_top_dir_eq: "parse_top_dir p = path_parse p"
  by (simp add: parse_top_dir_def path_parse_def)

lemma parse_next: "(case sub of None \<Rightarrow> ([], None) | Some p \<Rightarrow> parse_top_dir p) = next_name sub"
  by (simp add: next_name_def parse_top_dir_eq split: option.splits)

text \<open>
  Going up cuts at the last slash, or behind it when it is the first byte. The name must fit
  its buffer of 16 bytes with a zero, since it is compared as a string.
\<close>

definition cut_last :: "u8 list \<Rightarrow> u8 list" where
  "cut_last cur = (let p = rev (tl (dropWhile (\<lambda>c. c \<noteq> slash) (rev cur))) in if p = [] then [slash] else p)"

definition wash_step :: "u8 list \<Rightarrow> u8 list \<Rightarrow> u8 list" where
  "wash_step nm cur =
     (if nm = dotdot then cut_last cur
      else if nm \<noteq> dot then (if cur \<noteq> [slash] then cur @ [slash] else cur) @ nm
      else cur)"

function wash_loop :: "u8 list \<Rightarrow> u8 list option \<Rightarrow> u8 list \<Rightarrow> u8 list option" where
  "wash_loop nm sub cur =
     (if nm = [] then Some cur
      else do { kassert (length nm < MAX_FILE_NAME_LEN);
                let (nm', sub') = (case sub of None \<Rightarrow> ([], None) | Some p \<Rightarrow> parse_top_dir p) in
                wash_loop nm' sub' (wash_step nm cur) })"
  by pat_completeness auto
termination
  by (relation "measure (\<lambda>(nm, sub, cur). length nm + left_len sub)")
    (auto simp: parse_next intro: next_name_less [OF sym])

declare wash_loop.simps [simp del]

definition wash_path :: "u8 list \<Rightarrow> u8 list option" where
  "wash_path old_abs_path =
     do { kassert (old_abs_path \<noteq> [] \<and> hd old_abs_path = slash);
          let (nm, sub) = parse_top_dir old_abs_path in
          if nm = [] then Some [slash] else wash_loop nm sub [slash] }"

definition make_clear_abs_path :: "u8 list option \<Rightarrow> u8 list \<Rightarrow> u8 list option" where
  "make_clear_abs_path cwd path =
     (let abs_path =
        (if path \<noteq> [] \<and> hd path = slash then []
         else (case cwd of None \<Rightarrow> [] | Some d \<Rightarrow> if d = [slash] then d else d @ [slash])) in
      do { kassert (length (abs_path @ path) < MAX_PATH_LEN); wash_path (abs_path @ path) })"

text \<open>
  The loop over the directories of \<open>PATH\<close>. An empty one reads the byte before the buffer.
  The outcome carries \<open>None\<close> for the \<open>NULL\<close> of a file that is not there.
\<close>

function search_path :: "(u8 list \<Rightarrow> bool) \<Rightarrow> u8 list \<Rightarrow> u8 list \<Rightarrow> u8 list option option" where
  "search_path file_exists p target =
     (let dir = takeWhile (\<lambda>c. c \<noteq> colon) p; rest = dropWhile (\<lambda>c. c \<noteq> colon) p in
      do { kassert (dir \<noteq> []);
           let abs_path = (if last dir \<noteq> slash then dir @ [slash] else dir) @ target in
           do { kassert (length abs_path < MAX_PATH_LEN);
                final_path \<leftarrow> wash_path abs_path;
                if file_exists final_path then Some (Some final_path)
                else if rest \<noteq> [] then search_path file_exists (tl rest) target else Some None } })"
  by pat_completeness auto
termination
proof (relation "measure (\<lambda>(e, p, t). length p)", simp, goal_cases)
  case (1 e p t)
  let ?r = "dropWhile (\<lambda>c. c \<noteq> colon) p"
  have "length ?r \<le> length p" by (rule length_dropWhile_le)
  moreover from 1 have "?r \<noteq> []" by simp
  ultimately have "length (tl ?r) < length p" by (cases ?r) auto
  with 1 show ?case by simp
qed

declare search_path.simps [simp del]

definition default_path :: "u8 list" where
  "default_path = [47, 117, 115, 114, 47, 98, 105, 110, 58, 47, 98, 105, 110]"

definition path_name :: "u8 list" where "path_name = [80, 65, 84, 72]"

definition build_absolute_path ::
  "(u8 list \<Rightarrow> bool) \<Rightarrow> u8 list option \<Rightarrow> u8 list list \<Rightarrow> u8 list \<Rightarrow> u8 list option option" where
  "build_absolute_path file_exists cwd env target =
     (if target \<noteq> [] \<and> hd target = slash then
        do { kassert (length target < MAX_PATH_LEN);
             final_path \<leftarrow> wash_path target;
             Some (if file_exists final_path then Some final_path else None) }
      else if slash \<in> set target then
        (case cwd of None \<Rightarrow> Some None
         | Some d \<Rightarrow>
             let abs_path = (if d = [slash] then d else d @ [slash]) @ target in
             do { kassert (length abs_path < MAX_PATH_LEN);
                  final_path \<leftarrow> wash_path abs_path;
                  Some (if file_exists final_path then Some final_path else None) })
      else
        search_path file_exists (case getenv env path_name of None \<Rightarrow> default_path | Some v \<Rightarrow> v) target)"

section \<open>Clean paths\<close>

text \<open>Reference definitions: the names a path leaves, and the path of a list of names.\<close>

definition norm_step :: "u8 list list \<Rightarrow> u8 list \<Rightarrow> u8 list list" where
  "norm_step ks n = (if n = dotdot then butlast ks else if n = dot then ks else ks @ [n])"

definition normal_names :: "u8 list list \<Rightarrow> u8 list list" where
  "normal_names ns = foldl norm_step [] ns"

definition path_of :: "u8 list list \<Rightarrow> u8 list" where
  "path_of ks = (if ks = [] then [slash] else concat (map (\<lambda>n. slash # n) ks))"

definition plain :: "u8 list \<Rightarrow> bool" where
  "plain n \<longleftrightarrow> n \<noteq> [] \<and> slash \<notin> set n"

lemma path_of_snoc: "path_of (ks @ [n]) = (if ks = [] then [] else path_of ks) @ slash # n"
  by (simp add: path_of_def)

lemma path_of_not_root: "\<forall>n\<in>set ks. plain n \<Longrightarrow> ks \<noteq> [] \<Longrightarrow> path_of ks \<noteq> [slash]"
  by (cases ks) (auto simp: path_of_def plain_def)

lemma cut_last_path_of: "\<forall>n\<in>set ks. plain n \<Longrightarrow> cut_last (path_of ks) = path_of (butlast ks)"
proof (induction ks rule: rev_induct)
  case Nil
  then show ?case by (simp add: path_of_def cut_last_def)
next
  case (snoc n ks)
  then have "slash \<notin> set n" by (simp add: plain_def)
  then have "dropWhile (\<lambda>c. c \<noteq> slash) (rev n @ slash # xs) = slash # xs" for xs
    by (subst dropWhile_append2) auto
  then show ?case by (simp add: cut_last_def path_of_snoc Let_def) (simp add: path_of_def)
qed

lemma wash_step_path_of:
  "\<forall>n\<in>set ks. plain n \<Longrightarrow> wash_step n (path_of ks) = path_of (norm_step ks n)"
  using path_of_not_root [of ks]
  by (cases "ks = []") (auto simp: wash_step_def norm_step_def cut_last_path_of path_of_snoc, simp_all add: path_of_def)

lemma norm_step_plain: "\<forall>n\<in>set ks. plain n \<Longrightarrow> plain n \<Longrightarrow> \<forall>n\<in>set (norm_step ks n). plain n"
  by (auto simp: norm_step_def dest: in_set_butlastD)

lemma wash_loop_comps:
  "(nm = [] \<longrightarrow> sub = None) \<Longrightarrow> slash \<notin> set nm \<Longrightarrow>
   ns = (if nm = [] then [] else nm # (case sub of None \<Rightarrow> [] | Some q \<Rightarrow> comps q)) \<Longrightarrow>
   \<forall>n\<in>set ks. plain n \<Longrightarrow> cur = path_of ks \<Longrightarrow>
   wash_loop nm sub cur = (if \<exists>n \<in> set ns. 16 \<le> length n then None else Some (path_of (foldl norm_step ks ns)))"
proof (induction nm sub cur arbitrary: ns ks rule: wash_loop.induct)
  case (1 nm sub cur)
  show ?case
  proof (cases "nm = []")
    case True
    with 1(4,6) show ?thesis by (simp add: wash_loop.simps)
  next
    case False
    obtain nm' sub' where n: "next_name sub = (nm', sub')" by (cases "next_name sub")
    have e: "nm' = [] \<longrightarrow> sub' = None" "slash \<notin> set nm'"
      using n comps_path_parse(2,3) by (cases sub; fastforce simp: next_name_def)+
    show ?thesis
    proof (cases "length nm < 16")
      case True
      then have k: "kassert (length nm < MAX_FILE_NAME_LEN) = Some ()" by (simp add: MAX_FILE_NAME_LEN_def)
      have ks': "\<forall>n\<in>set (norm_step ks nm). plain n" 
        by (rule norm_step_plain [OF 1(5)]) (use 1(3) False in \<open>simp add: plain_def\<close>)
      have "wash_step nm cur = path_of (norm_step ks nm)" using wash_step_path_of 1(5,6) by simp
      from 1(1) [OF False k _ _ e comps_next_name [OF n] ks' this, unfolded parse_next, OF n [symmetric] refl] k False n 1(4) True
      show ?thesis by (subst wash_loop.simps) (simp add: parse_next)
    next
      case long: False
      with False 1(4) show ?thesis by (subst wash_loop.simps) (auto simp: MAX_FILE_NAME_LEN_def)
    qed
  qed
qed

lemma wash_path_comps:
  assumes "p \<noteq> []" and "hd p = slash"
  shows "wash_path p = (if \<exists>n \<in> set (comps p). 16 \<le> length n then None else Some (path_of (normal_names (comps p))))"
proof -
  obtain nm r where n: "path_parse p = (nm, r)" by (cases "path_parse p")
  note c = comps_path_parse [OF n]
  have "wash_path p = wash_loop nm r [slash]"
    using assms c n by (auto simp: wash_path_def parse_top_dir_eq wash_loop.simps)
  moreover have "[slash] = path_of []" by (simp add: path_of_def)
  ultimately show ?thesis
    using wash_loop_comps [of nm r "comps p" "[]" "[slash]"] c by (simp add: normal_names_def)
qed

lemma comps_path_of: "\<forall>n\<in>set ks. plain n \<Longrightarrow> comps (path_of ks) = ks"
proof -
  have "comps (concat (map (\<lambda>n. slash # n) ks)) = ks" if "\<forall>n\<in>set ks. plain n" for ks
    using that
  proof (induction ks)
    case (Cons n ks)
    let ?r = "concat (map (\<lambda>n. slash # n) ks)"
    have "?r = [] \<or> hd ?r = slash" by (cases ks) simp_all
    with Cons comps_name [of n ?r] show ?case by (simp add: plain_def)
  qed simp
  then show "\<forall>n\<in>set ks. plain n \<Longrightarrow> comps (path_of ks) = ks" by (simp add: path_of_def)
qed

lemma normal_names_clean:
  assumes "\<forall>n\<in>set ns. plain n"
  shows "set (normal_names ns) \<subseteq> set ns - {dot, dotdot}"
proof -
  have "set (foldl norm_step ks ns) \<subseteq> set ks \<union> (set ns - {dot, dotdot})" for ks
  proof (induction ns arbitrary: ks)
    case (Cons n ns)
    have "set (norm_step ks n) \<subseteq> set ks \<union> ({n} - {dot, dotdot})"
      by (auto simp: norm_step_def dest: in_set_butlastD)
    with Cons [of "norm_step ks n"] show ?case by auto
  qed simp
  from this [of "[]"] show ?thesis by (simp add: normal_names_def)
qed

lemma normal_names_id: "dot \<notin> set ns \<Longrightarrow> dotdot \<notin> set ns \<Longrightarrow> normal_names ns = ns"
proof -
  have "dot \<notin> set ns \<Longrightarrow> dotdot \<notin> set ns \<Longrightarrow> foldl norm_step ks ns = ks @ ns" for ks
    by (induction ns arbitrary: ks) (auto simp: norm_step_def)
  from this [of "[]"] show "dot \<notin> set ns \<Longrightarrow> dotdot \<notin> set ns \<Longrightarrow> normal_names ns = ns"
    by (simp add: normal_names_def)
qed

lemma comps_plain: "\<forall>n\<in>set (comps p). plain n"
proof (induction p rule: comps.induct)
  case (2 c cs)
  show ?case
  proof (cases "c = slash")
    case False
    show ?thesis
    proof (cases cs)
      case (Cons d ds)
      show ?thesis
      proof (cases "d = slash")
        case True
        with Cons 2(2) [OF False Cons True] False show ?thesis by (simp add: plain_def)
      next
        case nd: False
        from 2(3) [OF False Cons nd] False nd Cons show ?thesis
          by (cases "comps cs") (simp_all add: plain_def)
      qed
    qed (use False in \<open>simp add: plain_def\<close>)
  qed (use 2(1) in simp)
qed simp

section \<open>Properties\<close>

definition env_key :: "u8 list \<Rightarrow> u8 list" where
  "env_key s = takeWhile (\<lambda>c. c \<noteq> equals) s"

text \<open>
  \<open>getenv\<close> gives the value of the first entry whose key is a prefix of the name
  asked for, not the one whose key is the name: an entry \<open>P=1\<close> in front of \<open>PATH\<close> answers for
  \<open>PATH\<close>, and an entry with an empty key answers for every name.
\<close>

theorem getenv_matches_prefix:
  "getenv env nm = map_option (\<lambda>s. drop (length (env_key s) + 1) s)
     (find (\<lambda>s. equals \<in> set s \<and> (\<exists>t. nm = env_key s @ t)) env)"
proof (induction env)
  case (Cons s env)
  have k: "length (env_key s) = length s \<longleftrightarrow> equals \<notin> set s"
    unfolding env_key_def by (induction s) auto
  have "take (length (env_key s)) s = env_key s"
    by (simp add: env_key_def takeWhile_eq_take [symmetric])
  then have "strncmp_eq s nm (length (env_key s)) \<longleftrightarrow> (\<exists>t. nm = env_key s @ t)"
    unfolding strncmp_eq_def by (metis append_eq_conv_conj append_take_drop_id)
  with Cons k show ?case by (simp add: env_key_def [symmetric] Let_def)
qed simp

text \<open>
  Property C39. \<open>wash_path\<close> computes the normal form of an absolute path whose names fit: the names
  left when every \<open>.\<close> is dropped and every \<open>..\<close> removes the name before it (at the root it
  does nothing), joined by single slashes. The result has no \<open>.\<close> and \<open>..\<close> and is its own
  normal form.
\<close>

theorem wash_path_normalises:
  assumes "p \<noteq> []" and "hd p = slash" and "\<forall>n\<in>set (comps p). length n < 16"
  shows "\<exists>q. wash_path p = Some q \<and> q = path_of (normal_names (comps p)) \<and> comps q = normal_names (comps p)
    \<and> dot \<notin> set (comps q) \<and> dotdot \<notin> set (comps q) \<and> wash_path q = Some q"
proof -
  let ?ns = "normal_names (comps p)"
  note cl = normal_names_clean [OF comps_plain, of p]
  with comps_plain [of p] have c: "comps (path_of ?ns) = ?ns" by (intro comps_path_of) auto
  have "path_of ?ns \<noteq> []" "hd (path_of ?ns) = slash" by (cases ?ns; simp add: path_of_def)+
  from wash_path_comps [OF this] have "wash_path (path_of ?ns) =
      (if \<exists>n\<in>set ?ns. 16 \<le> length n then None else Some (path_of (normal_names ?ns)))" by (simp only: c)
  moreover have "normal_names ?ns = ?ns" by (rule normal_names_id) (use cl in blast)+
  moreover have "\<not> (\<exists>n\<in>set ?ns. 16 \<le> length n)" using cl assms(3) by fastforce
  ultimately have "wash_path (path_of ?ns) = Some (path_of ?ns)" by simp
  moreover have "wash_path p = Some (path_of ?ns)" using wash_path_comps [OF assms(1,2)] assms(3) by auto
  ultimately show ?thesis using c cl by auto
qed

theorem wash_path_normalises_witness:
  "\<exists>q. wash_path [47, 97, 47, 46, 46, 47, 47, 98, 47, 46] = Some q \<and> comps q = [[98]] \<and> wash_path q = Some q"
proof -
  let ?p = "[47, 97, 47, 46, 46, 47, 47, 98, 47, 46 :: u8]"
  have c: "comps ?p = [[97], dotdot, [98], dot]" by (simp add: slash_def dotdot_def dot_def)
  moreover from c have "normal_names (comps ?p) = [[98]]" by (simp add: normal_names_def norm_step_def dotdot_def dot_def)
  moreover have "\<forall>n\<in>set (comps ?p). length n < 16" unfolding c by (simp add: dotdot_def dot_def)
  ultimately show ?thesis using wash_path_normalises [of ?p] by (simp add: slash_def)
qed

end
