(* ===== verification/Userprog.thy ===== *)
theory Userprog
  imports Userlib "HOL-Library.List_Lexorder" "HOL-Library.Multiset"
begin

text \<open>
  User programs: the buffered input of \<open>src/src/lib/stdio.c\<close>, the loops of
  \<open>src/system/src/seq/seq.c\<close>, \<open>grep/grep.c\<close> and \<open>sort/sort.c\<close>, and the command line and the
  \<open>cd\<close> of the shell (\<open>sh/sh.c\<close>, \<open>sh/builtin.c\<close>). The system calls are arguments.
\<close>

definition newline :: u8 where "newline = 10"
definition minus_sign :: u8 where "minus_sign = 45"

section \<open>Streams\<close>

definition READ_BUF_SIZE :: nat where "READ_BUF_SIZE = 1024"

record FILE =
  fileno :: int
  f_flags :: nat
  f_status :: int
  read_buf :: "u8 list"
  read_ptr :: nat
  read_end :: nat

text \<open>The buffer of \<open>stdin\<close> has 512 bytes.\<close>

definition stdin_file :: FILE where
  "stdin_file = \<lparr>fileno = 0, f_flags = 0, f_status = 0, read_buf = replicate 512 0, read_ptr = 0, read_end = 0\<rparr>"

text \<open>\<open>block\<close> is the memory \<open>malloc\<close> returns for the buffer; a mode that is not known gives \<open>NULL\<close>.\<close>

definition fopen :: "(u8 list \<Rightarrow> nat \<Rightarrow> 's \<Rightarrow> int \<times> 's) \<Rightarrow> u8 list \<Rightarrow> u8 list \<Rightarrow> u8 list \<Rightarrow> 's \<Rightarrow> FILE option \<times> 's" where
  "fopen opn block fname md s =
     (if md \<noteq> [] \<and> hd md = 114 \<or> md \<noteq> [] \<and> hd md = 119
      then let flags = (if hd md = 114 then 0 else 5); (fd, s) = opn fname flags s in
        (Some \<lparr>fileno = fd, f_flags = flags, f_status = 0, read_buf = block, read_ptr = 0, read_end = 0\<rparr>, s)
      else (None, s))"

definition fclose :: "(int \<Rightarrow> 's \<Rightarrow> 's) \<Rightarrow> FILE \<Rightarrow> 's \<Rightarrow> FILE \<times> 's" where
  "fclose cls fp s = (if f_status fp = - 1 then (fp, s) else (fp\<lparr>f_status := - 1\<rparr>, cls (fileno fp) s))"

type_synonym 's reader = "int \<Rightarrow> nat \<Rightarrow> 's \<Rightarrow> int \<times> u8 list \<times> 's"

definition load_read_buffer :: "'s reader \<Rightarrow> FILE \<Rightarrow> 's \<Rightarrow> (int \<times> FILE \<times> 's) option" where
  "load_read_buffer rdf fp s =
     do { kassert (read_ptr fp = read_end fp);
          let fp = (if read_end fp = READ_BUF_SIZE then fp\<lparr>read_ptr := 0, read_end := 0\<rparr> else fp);
              (r, bs, s) = rdf (fileno fp) (READ_BUF_SIZE - read_ptr fp) s in
          do { buf \<leftarrow> wr_block (read_buf fp) (read_ptr fp) bs;
               Some (r, fp\<lparr>read_buf := buf, read_end := (if 0 < r then read_ptr fp + nat r else read_end fp)\<rparr>, s) } }"

text \<open>
  The loop of \<open>fgets\<close>: what was stored in front of the terminating zero, whether the result is
  the string (and not \<open>NULL\<close>), and the stream.
\<close>

partial_function (option) fgets_loop :: "'s reader \<Rightarrow> nat \<Rightarrow> u8 list \<Rightarrow> FILE \<Rightarrow> 's \<Rightarrow> (u8 list \<times> bool \<times> FILE \<times> 's) option" where
  "fgets_loop rdf cnt out fp s =
     do { (n, fp, s) \<leftarrow> (if read_ptr fp = read_end fp then load_read_buffer rdf fp s else Some (1, fp, s));
          if n < 0 then Some (out, False, fp, s)
          else if n = 0 then Some (out, out \<noteq> [], fp, s)
          else
            do { inb \<leftarrow> rd_block (read_buf fp) (read_ptr fp) (read_end fp - read_ptr fp);
                 let piece = takeWhile (\<lambda>c. c \<noteq> newline) (take (cnt - length out) inb);
                     out' = out @ piece; rest = drop (length piece) inb;
                     fp' = fp\<lparr>read_ptr := read_ptr fp + length piece\<rparr> in
                 if rest \<noteq> [] then
                   (if hd rest = newline \<and> length out' \<noteq> cnt
                    then Some (out' @ [newline], True, fp'\<lparr>read_ptr := read_ptr fp' + 1\<rparr>, s)
                    else Some (out', out' \<noteq> [], fp', s))
                 else if length out' = cnt then Some (out', out' \<noteq> [], fp', s)
                 else fgets_loop rdf cnt out' fp' s } }"

definition fgets :: "'s reader \<Rightarrow> int \<Rightarrow> FILE \<Rightarrow> 's \<Rightarrow> (u8 list \<times> bool \<times> FILE \<times> 's) option" where
  "fgets rdf cnt fp s = (if cnt \<le> 0 then Some ([], True, fp, s) else fgets_loop rdf (nat cnt) [] fp s)"

text \<open>The blocks \<open>fputs\<close> writes.\<close>

function fputs_blocks :: "u8 list \<Rightarrow> u8 list list" where
  "fputs_blocks str = (if str = [] then [] else take 512 str # fputs_blocks (drop 512 str))"
  by pat_completeness auto
termination by (relation "measure length") auto

declare fputs_blocks.simps [simp del]

section \<open>seq\<close>

definition digit :: "u8 \<Rightarrow> bool" where
  "digit c \<longleftrightarrow> 48 \<le> sint c \<and> sint c \<le> 57"

text \<open>The value, and \<open>atoi_error\<close>.\<close>

fun atoi_minus :: "int \<Rightarrow> u8 list \<Rightarrow> int \<times> bool" where
  "atoi_minus v [] = (v, False)"
| "atoi_minus v (ch # str) =
     (if \<not> digit ch then (0, True)
      else if v > - 214748364 \<or> v = - 214748364 \<and> sint ch < 57 then atoi_minus (v * 10 - (sint ch - 48)) str
      else (v, False))"

fun atoi_plus :: "int \<Rightarrow> u8 list \<Rightarrow> int \<times> bool" where
  "atoi_plus v [] = (v, False)"
| "atoi_plus v (ch # str) =
     (if \<not> digit ch then (0, True)
      else if v < 214748364 \<or> v = - 214748364 \<and> sint ch < 56 then atoi_plus (v * 10 + sint ch - 48) str
      else (v, False))"

definition atoi :: "u8 list \<Rightarrow> int \<times> bool" where
  "atoi str = (if str \<noteq> [] \<and> hd str = minus_sign then atoi_minus 0 (tl str) else atoi_plus 0 str)"

text \<open>The numbers printed; \<open>i\<close> is a \<open>long long\<close>. A step of 0 ends the program with status 1.\<close>

function gen_up :: "int \<Rightarrow> int \<Rightarrow> int \<Rightarrow> int list" where
  "gen_up i d lim =
     (if i \<le> lim \<and> i \<le> 0x7fffffff \<and> i \<ge> - 0x80000000 \<and> 0 < d then i # gen_up (i + d) d lim else [])"
  by pat_completeness auto
termination by (relation "measure (\<lambda>(i, d, lim). nat (lim + 1 - i))") auto

function gen_down :: "int \<Rightarrow> int \<Rightarrow> int \<Rightarrow> int list" where
  "gen_down i d lim =
     (if i \<ge> lim \<and> i \<le> 0x7fffffff \<and> i \<ge> - 0x80000000 \<and> d < 0 then i # gen_down (i + d) d lim else [])"
  by pat_completeness auto
termination by (relation "measure (\<lambda>(i, d, lim). nat (i + 1 - lim))") auto

declare gen_up.simps [simp del] gen_down.simps [simp del]

definition generate :: "int \<Rightarrow> int \<Rightarrow> int \<Rightarrow> int + int list" where
  "generate start d lim =
     (if d = 0 then Inl 1 else if 0 < d then Inr (gen_up start d lim) else Inr (gen_down start d lim))"

definition seq_main :: "u8 list list \<Rightarrow> int + int list" where
  "seq_main args =
     (case args of
        [a] \<Rightarrow> generate 1 1 (fst (atoi a))
      | [a, b] \<Rightarrow> generate (fst (atoi a)) 1 (fst (atoi b))
      | [a, b, c] \<Rightarrow> generate (fst (atoi a)) (fst (atoi b)) (fst (atoi c))
      | _ \<Rightarrow> Inl 1)"

section \<open>grep\<close>

definition BUF_SIZE :: nat where "BUF_SIZE = 1024"

fun starts_with :: "u8 list \<Rightarrow> u8 list \<Rightarrow> bool" where
  "starts_with a [] = True"
| "starts_with [] (b # bs) = False"
| "starts_with (a # as) (b # bs) = (a = b \<and> starts_with as bs)"

fun str_find :: "u8 list \<Rightarrow> u8 list \<Rightarrow> bool" where
  "str_find [] sub = False"
| "str_find (c # p) sub = (starts_with (c # p) sub \<or> str_find p sub)"

text \<open>
  One buffer: the lines that match among those ended in it, and what follows the last newline.
  A line is printed up to its first zero.
\<close>

function scan_buf :: "u8 list \<Rightarrow> u8 list \<Rightarrow> u8 list list \<times> u8 list" where
  "scan_buf key q =
     (let line = takeWhile (\<lambda>c. c \<noteq> newline) q; rest = dropWhile (\<lambda>c. c \<noteq> newline) q in
      if rest = [] then ([], q)
      else let str = takeWhile (\<lambda>c. c \<noteq> 0) line; (out, left) = scan_buf key (tl rest) in
        ((if str_find str key then [str] else []) @ out, left))"
  by pat_completeness auto
termination
proof (relation "measure (\<lambda>(key, q). length q)", simp, goal_cases)
  case (1 key q line rest str)
  have "length rest \<le> length q" unfolding 1(2) by (rule length_dropWhile_le)
  moreover have "rest \<noteq> []" by (rule 1(3))
  ultimately have "length (tl rest) < length q" by (cases rest) simp_all
  then show ?case by simp
qed

declare scan_buf.simps [simp del]

text \<open>
  The loop of \<open>main\<close>: \<open>carry\<close> is what was kept in front, \<open>reads\<close> what the calls of \<open>read\<close> give, an
  empty one at the end. The scan starts at the front and covers as many bytes as were read.
\<close>

fun grep_loop :: "u8 list \<Rightarrow> u8 list \<Rightarrow> u8 list list \<Rightarrow> u8 list list option" where
  "grep_loop key carry [] = Some []"
| "grep_loop key carry (bs # reads) =
     do { kassert (length carry + length bs \<le> BUF_SIZE);
          if bs = [] then Some []
          else let (out, left) = scan_buf key (take (length bs) (carry @ bs)) in
            do { outs \<leftarrow> grep_loop key left reads; Some (out @ outs) } }"

section \<open>sort\<close>

definition str_key :: "u8 list \<Rightarrow> int list" where
  "str_key s = map sint (s @ [0])"

text \<open>\<open>strcmp\<close> on whole strings.\<close>

fun strcmp_str :: "u8 list \<Rightarrow> u8 list \<Rightarrow> int" where
  "strcmp_str [] [] = 0"
| "strcmp_str [] (b # bs) = (if 0 < sint b then - 1 else of_bool (sint b < 0))"
| "strcmp_str (a # as) [] = (if sint a < 0 then - 1 else of_bool (0 < sint a))"
| "strcmp_str (a # as) (b # bs) =
     (if a = b then strcmp_str as bs else if sint a < sint b then - 1 else of_bool (sint b < sint a))"

text \<open>The inner loop: the hole moves down from \<open>j\<close> while the line below it is not less.\<close>

fun place :: "u8 list list \<Rightarrow> u8 list \<Rightarrow> nat \<Rightarrow> u8 list list" where
  "place ls s 0 = ls[0 := s]"
| "place ls s (Suc j) =
     (if 0 \<le> strcmp_str (ls ! j) s then place (ls[Suc j := ls ! j]) s j else ls[Suc j := s])"

definition do_sort :: "u8 list list \<Rightarrow> nat \<Rightarrow> u8 list list" where
  "do_sort ls n = foldl (\<lambda>ls i. place ls (ls ! i) i) ls [1..<n]"

section \<open>The shell\<close>

definition SH_MAX_ARG_NR :: nat where "SH_MAX_ARG_NR = 16"
definition space :: u8 where "space = 32"

text \<open>The words, stored in the array of 16 pointers one after the other.\<close>

function cmd_words :: "u8 \<Rightarrow> u8 list \<Rightarrow> u8 list option list \<Rightarrow> nat \<Rightarrow> (int \<times> u8 list option list) option" where
  "cmd_words tok nxt argv argc =
     (let p = dropWhile (\<lambda>c. c = tok) nxt in
      if p = [] then Some (int argc, argv)
      else do { argv \<leftarrow> wr argv argc (Some (takeWhile (\<lambda>c. c \<noteq> tok) p));
                if SH_MAX_ARG_NR < argc then Some (- 1, argv)
                else cmd_words tok (drop 1 (dropWhile (\<lambda>c. c \<noteq> tok) p)) argv (argc + 1) })"
  by pat_completeness auto
termination
proof (relation "measure (\<lambda>(tok, nxt, argv, argc). length nxt)", simp, goal_cases)
  case (1 tok nxt argv argc p argv')
  have a: "length (dropWhile (\<lambda>c. c \<noteq> tok) p) \<le> length p" "length p \<le> length nxt"
    unfolding 1(1) by (rule length_dropWhile_le)+
  from 1(1,2) have "p \<noteq> [] \<and> hd p \<noteq> tok" using hd_dropWhile [of "\<lambda>c. c = tok" nxt] by auto
  then have "length (dropWhile (\<lambda>c. c \<noteq> tok) p) - 1 < length p" using a(1) by (cases p) auto
  with a(2) show ?case by simp
qed

declare cmd_words.simps [simp del]

definition cmd_parse :: "u8 list \<Rightarrow> u8 \<Rightarrow> (int \<times> u8 list option list) option" where
  "cmd_parse cmd_str tok = cmd_words tok cmd_str (replicate SH_MAX_ARG_NR None) 0"

text \<open>A line read from the terminal: its length, and the buffer up to the zero.\<close>

definition readline :: "'s reader \<Rightarrow> nat \<Rightarrow> 's \<Rightarrow> (int \<times> u8 list \<times> 's) option" where
  "readline rdf cnt s =
     do { kassert (0 < cnt);
          let (r, bs, s) = rdf 0 (cnt - 1) s in
          if r < 0 then Some (r, [], s)
          else do { bs \<leftarrow> rd_block bs 0 (nat r);
                    let line = (if bs \<noteq> [] \<and> last bs = newline then butlast bs else bs) in
                    Some (int (length line), line, s) } }"

definition buildin_cd :: "(u8 list \<Rightarrow> 's \<Rightarrow> int \<times> 's) \<Rightarrow> u8 list option \<Rightarrow> u8 list list \<Rightarrow> 's \<Rightarrow> (u8 list option \<times> 's) option" where
  "buildin_cd chd cwd argv s =
     (if 2 < length argv then Some (None, s)
      else
        do { final_path \<leftarrow> (if length argv = 1 then Some [slash]
               else do { a \<leftarrow> rd argv 1; make_clear_abs_path cwd a });
             let (r, s) = chd final_path s in Some (if r = - 1 then None else Some final_path, s) })"

section \<open>Reading lines\<close>

text \<open>
  A source of bytes that comes in pieces, as from a terminal or a pipe: a call returns what is
  left of the first piece, up to the number asked for, and nothing at the end.
\<close>

definition read_chunks :: "u8 list list reader" where
  "read_chunks fd n cs =
     (case cs of [] \<Rightarrow> (0, [], [])
      | c # cs \<Rightarrow> if length c \<le> n then (int (length c), c, cs) else (int n, take n c, drop n c # cs))"

text \<open>
  Three kinds of streams: one whose buffer has the size \<open>load_read_buffer\<close> assumes, as \<open>fopen\<close> gives it; one
  with a shorter buffer, as \<open>stdin\<close>, in which everything that is still to come has room behind what has
  come (the buffer is filled from its start again only when \<open>read_end\<close> meets the assumed end); and the
  same without that room.
\<close>

definition stream_ok :: "FILE \<Rightarrow> bool" where
  "stream_ok fp \<longleftrightarrow> read_ptr fp \<le> read_end fp \<and> read_end fp \<le> READ_BUF_SIZE \<and> length (read_buf fp) = READ_BUF_SIZE"

definition stream_short :: "FILE \<Rightarrow> bool" where
  "stream_short fp \<longleftrightarrow> read_ptr fp \<le> read_end fp \<and> read_end fp \<le> length (read_buf fp) \<and> length (read_buf fp) < READ_BUF_SIZE"

definition stream_fits :: "FILE \<Rightarrow> u8 list list \<Rightarrow> bool" where
  "stream_fits fp cs \<longleftrightarrow> stream_short fp \<and> read_end fp + length (concat cs) \<le> length (read_buf fp)"

definition stream_over :: "FILE \<Rightarrow> u8 list list \<Rightarrow> bool" where
  "stream_over fp cs \<longleftrightarrow> stream_short fp \<and> length (read_buf fp) < read_end fp + length (concat cs)"

definition buffered :: "FILE \<Rightarrow> u8 list" where
  "buffered fp = take (read_end fp - read_ptr fp) (drop (read_ptr fp) (read_buf fp))"

text \<open>The first line of a text, cut after \<open>n\<close> bytes.\<close>

fun first_line :: "nat \<Rightarrow> u8 list \<Rightarrow> u8 list" where
  "first_line 0 p = []"
| "first_line (Suc n) [] = []"
| "first_line (Suc n) (c # p) = (if c = newline then [newline] else c # first_line n p)"

lemma first_line_pos: "0 < n \<Longrightarrow> first_line n (c # p) = (if c = newline then [newline] else c # first_line (n - 1) p)"
  by (cases n) simp_all

lemma first_line_append: "newline \<notin> set x \<Longrightarrow> length x \<le> n \<Longrightarrow> first_line n (x @ y) = x @ first_line (n - length x) y"
proof (induction x arbitrary: n)
  case (Cons c x)
  then show ?case by (cases n) auto
qed simp

text \<open>A read puts the next bytes behind what the buffer holds, or past its end.\<close>

lemma load_cases:
  assumes "read_ptr fp = read_end fp" and "\<forall>c\<in>set cs. c \<noteq> []" and "read_end fp \<le> READ_BUF_SIZE"
  shows "\<exists>bs cs' p. p = (if read_end fp = READ_BUF_SIZE then 0 else read_end fp) \<and> bs @ concat cs' = concat cs
    \<and> p + length bs \<le> READ_BUF_SIZE \<and> (\<forall>c\<in>set cs'. c \<noteq> []) \<and> (bs = [] \<longrightarrow> cs = [])
    \<and> load_read_buffer read_chunks fp cs = (if p + length bs \<le> length (read_buf fp)
        then Some (int (length bs), fp\<lparr>read_buf := take p (read_buf fp) @ bs @ drop (p + length bs) (read_buf fp),
          read_ptr := p, read_end := p + length bs\<rparr>, cs') else None)"
proof -
  define fp1 where "fp1 = (if read_end fp = READ_BUF_SIZE then fp\<lparr>read_ptr := 0, read_end := 0\<rparr> else fp)"
  define p where "p = (if read_end fp = READ_BUF_SIZE then 0 else read_end fp)"
  have f1: "read_ptr fp1 = p" "read_end fp1 = p" "read_buf fp1 = read_buf fp" "fp1\<lparr>read_end := e\<rparr> = fp\<lparr>read_ptr := p, read_end := e\<rparr>" for e
    using assms(1) by (auto simp: fp1_def p_def)
  have p: "p < READ_BUF_SIZE" using assms(3) by (auto simp: p_def READ_BUF_SIZE_def)
  obtain n bs cs' where r: "read_chunks (fileno fp1) (READ_BUF_SIZE - p) cs = (n, bs, cs')" by (metis prod_cases3)
  have b: "n = int (length bs)" "length bs \<le> READ_BUF_SIZE - p" "bs @ concat cs' = concat cs"
    "\<forall>c\<in>set cs'. c \<noteq> []" "bs = [] \<longrightarrow> cs = []"
    using r assms(2) p by (auto simp: read_chunks_def split: list.splits if_splits)
  have "load_read_buffer read_chunks fp cs = (if p + length bs \<le> length (read_buf fp)
        then Some (int (length bs), fp\<lparr>read_buf := take p (read_buf fp) @ bs @ drop (p + length bs) (read_buf fp),
          read_ptr := p, read_end := p + length bs\<rparr>, cs') else None)"
    using assms(1) r b(1) f1 unfolding load_read_buffer_def fp1_def [symmetric]
    by (cases fp) (auto simp: wr_block_def Let_def fp1_def p_def)
  moreover have "p + length bs \<le> READ_BUF_SIZE" using b(2) p by simp
  ultimately show ?thesis using b unfolding p_def by blast
qed

text \<open>
  What \<open>fgets\<close> needs of a stream: every load either delivers the next bytes or, where \<open>lost\<close>, runs past
  the buffer.
\<close>

locale line_source =
  fixes ok :: "FILE \<Rightarrow> u8 list list \<Rightarrow> bool"
    and lost :: bool
  assumes bounds: "ok fp cs \<Longrightarrow> read_ptr fp \<le> read_end fp \<and> read_end fp \<le> length (read_buf fp)"
    and consume: "ok fp cs \<Longrightarrow> read_ptr fp + n \<le> read_end fp \<Longrightarrow> ok (fp\<lparr>read_ptr := read_ptr fp + n\<rparr>) cs"
    and load: "ok fp cs \<Longrightarrow> read_ptr fp = read_end fp \<Longrightarrow> \<forall>c\<in>set cs. c \<noteq> [] \<Longrightarrow>
      load_read_buffer read_chunks fp cs = None \<and> lost \<or>
      (\<exists>n fp' cs'. load_read_buffer read_chunks fp cs = Some (n, fp', cs') \<and> 0 \<le> n \<and> ok fp' cs'
        \<and> (\<forall>c\<in>set cs'. c \<noteq> []) \<and> buffered fp' @ concat cs' = concat cs \<and> (n = 0 \<longrightarrow> cs = []) \<and> (0 < n \<longrightarrow> buffered fp' \<noteq> []))"
begin

lemma length_buffered: "ok f cs \<Longrightarrow> length (buffered f) = read_end f - read_ptr f"
  using bounds [of f cs] by (auto simp: buffered_def)

lemma buffered_drop:
  assumes "ok f cs" and "n \<le> length (buffered f)"
  shows "buffered (f\<lparr>read_ptr := read_ptr f + n\<rparr>) = drop n (buffered f) \<and> ok (f\<lparr>read_ptr := read_ptr f + n\<rparr>) cs"
proof -
  have "read_ptr f + n \<le> read_end f"
    using assms(2) length_buffered [OF assms(1)] bounds [OF assms(1)] by linarith
  from consume [OF assms(1) this] show ?thesis by (simp add: buffered_def drop_take add.commute)
qed

lemma fgets_loop_ok:
  assumes "ok fp cs" and "\<forall>c\<in>set cs. c \<noteq> []" and "length out < cnt"
  shows "fgets_loop read_chunks cnt out fp cs = None \<and> lost \<or>
    (\<exists>fp' cs'. fgets_loop read_chunks cnt out fp cs
      = Some (out @ first_line (cnt - length out) (buffered fp @ concat cs),
              out @ first_line (cnt - length out) (buffered fp @ concat cs) \<noteq> [], fp', cs')
    \<and> ok fp' cs' \<and> (\<forall>c\<in>set cs'. c \<noteq> [])
    \<and> buffered fp' @ concat cs' = drop (length (first_line (cnt - length out) (buffered fp @ concat cs))) (buffered fp @ concat cs))"
  using assms
proof (induction "cnt - length out" arbitrary: out fp cs rule: less_induct)
  case less
  let ?k = "cnt - length out"
  let ?load = "if read_ptr fp = read_end fp then load_read_buffer read_chunks fp cs else Some (1, fp, cs)"
  have k: "0 < ?k" using less.prems(3) by simp
  consider (gone) "?load = None" lost | (got) n f c where "?load = Some (n, f, c)" "0 \<le> n" "ok f c" "\<forall>x\<in>set c. x \<noteq> []"
    "buffered f @ concat c = buffered fp @ concat cs" "n = 0 \<longrightarrow> buffered fp @ concat cs = []" "0 < n \<longrightarrow> buffered f \<noteq> []"
  proof (cases "read_ptr fp = read_end fp")
    case True
    then have "buffered fp = []" by (simp add: buffered_def)
    with load [OF less.prems(1) True less.prems(2)] True that show ?thesis by auto
  next
    case False
    then have "buffered fp \<noteq> []" using length_buffered [OF less.prems(1)] bounds [OF less.prems(1)] by auto
    with False that less.prems show ?thesis by auto
  qed
  then show ?case
  proof cases
    case gone
    then show ?thesis by (subst fgets_loop.simps) (simp split: if_splits)
  next
    case l: (got n f c)
    show ?thesis
    proof (cases "n = 0")
      case True
      then have z: "buffered fp @ concat cs = []" using l(6) by simp
      have "first_line ?k [] = []" by (cases ?k) simp_all
      moreover have "fgets_loop read_chunks cnt out fp cs = Some (out, out \<noteq> [], f, c)"
        using l(1) True by (subst fgets_loop.simps) simp
      moreover have "buffered f @ concat c = []" using l(5) z by (simp only:)
      ultimately show ?thesis unfolding z using l(3,4) by (intro disjI2 exI [of _ f] exI [of _ c]) simp
    next
      case False
      let ?inb = "buffered f"
      define piece where "piece = takeWhile (\<lambda>c. c \<noteq> newline) (take ?k ?inb)"
      define rest where "rest = drop (length piece) ?inb"
      have pl: "newline \<notin> set piece" "length piece \<le> ?k" "length piece \<le> length ?inb"
        unfolding piece_def using length_takeWhile_le [of "\<lambda>c. c \<noteq> newline" "take ?k ?inb"]
        by (auto dest: set_takeWhileD)
      have inb: "?inb = piece @ rest"
      proof -
        have "piece = take (length piece) (take ?k ?inb)" unfolding piece_def by (rule takeWhile_eq_take)
        also have "\<dots> = take (length piece) ?inb" using pl(2) by (simp add: min_def)
        finally show ?thesis unfolding rest_def by (metis append_take_drop_id)
      qed
      have stop: "length piece = ?k" if "rest \<noteq> []" "hd rest \<noteq> newline"
      proof (rule ccontr)
        assume "length piece \<noteq> ?k"
        with pl(2) have "length piece < ?k" by simp
        with that inb have "take ?k ?inb = piece @ take (?k - length piece) rest" "take (?k - length piece) rest \<noteq> []"
          "hd (take (?k - length piece) rest) = hd rest" by simp_all
        then have "takeWhile (\<lambda>c. c \<noteq> newline) (take ?k ?inb) = piece @ takeWhile (\<lambda>c. c \<noteq> newline) (take (?k - length piece) rest)"
          "takeWhile (\<lambda>c. c \<noteq> newline) (take (?k - length piece) rest) \<noteq> []"
          using pl(1) that(2) by (auto simp: takeWhile_eq_Nil_iff intro!: takeWhile_append2)
        then show False unfolding piece_def [symmetric] by simp
      qed
      have rdb: "rd_block (read_buf f) (read_ptr f) (read_end f - read_ptr f) = Some ?inb"
        using bounds [OF l(3)] by (simp add: rd_block_def buffered_def)
      let ?f = "f\<lparr>read_ptr := read_ptr f + length piece\<rparr>"
      have bf: "buffered ?f = rest" "ok ?f c"
        using buffered_drop [OF l(3) pl(3)] by (simp_all add: rest_def)
      have P: "buffered fp @ concat cs = piece @ (rest @ concat c)" using l(5) inb by simp
      have unf: "fgets_loop read_chunks cnt out fp cs =
          (if rest \<noteq> [] then (if hd rest = newline \<and> length (out @ piece) \<noteq> cnt
              then Some (out @ piece @ [newline], True, ?f\<lparr>read_ptr := read_ptr ?f + 1\<rparr>, c)
              else Some (out @ piece, out @ piece \<noteq> [], ?f, c))
           else if length (out @ piece) = cnt then Some (out @ piece, out @ piece \<noteq> [], ?f, c)
           else fgets_loop read_chunks cnt (out @ piece) ?f c)"
        using l(1,2) False rdb unfolding piece_def rest_def
        by (subst fgets_loop.simps) (auto simp: Let_def)
      have fl: "first_line ?k (buffered fp @ concat cs) = piece @ first_line (?k - length piece) (rest @ concat c)"
        unfolding P by (rule first_line_append [OF pl(1,2)])
      show ?thesis
      proof (cases "rest = [] \<and> length (out @ piece) \<noteq> cnt")
        case True
        then have ne: "piece \<noteq> []" using l(2,7) False inb by auto
        with True have m: "cnt - length (out @ piece) < ?k" "length (out @ piece) < cnt" using k pl(2) by (auto simp: length_greater_0_conv [symmetric] simp del: length_greater_0_conv)
        from less.hyps [OF m(1) bf(2) l(4) m(2)] True bf(1) fl P unf show ?thesis by (auto simp: diff_diff_left)
      next
        case False
        then consider (nl) "rest \<noteq> []" "hd rest = newline" "length piece < ?k" | (full) "length piece = ?k"
          using stop pl(2) less.prems(3) by fastforce
        then show ?thesis
        proof cases
          case nl
          then obtain r where r: "rest = newline # r" by (cases rest) auto
          obtain j where j: "?k - length piece = Suc j" using nl(3) by (metis Suc_diff_Suc)
          have f1: "first_line ?k (buffered fp @ concat cs) = piece @ [newline]" unfolding fl r j by simp
          from buffered_drop [OF bf(2), of 1] bf(1) r
          have "buffered (?f\<lparr>read_ptr := read_ptr ?f + 1\<rparr>) = r" "ok (?f\<lparr>read_ptr := read_ptr ?f + 1\<rparr>) c" by simp_all
          with unf nl r f1 P l(4) show ?thesis by (auto simp: f1)
        next
          case full
          then have "first_line ?k (buffered fp @ concat cs) = piece" unfolding fl by simp
          with unf full P l(4) bf less.prems(3) show ?thesis by auto
        qed
      qed
    qed
  qed
qed

lemma fgets_line:
  assumes "ok fp cs" and "\<forall>c\<in>set cs. c \<noteq> []" and "0 < n"
  shows "fgets read_chunks (int n) fp cs = None \<and> lost \<or> (\<exists>fp' cs'. fgets read_chunks (int n) fp cs
      = Some (first_line n (buffered fp @ concat cs), buffered fp @ concat cs \<noteq> [], fp', cs')
    \<and> ok fp' cs' \<and> (\<forall>c\<in>set cs'. c \<noteq> [])
    \<and> buffered fp' @ concat cs' = drop (length (first_line n (buffered fp @ concat cs))) (buffered fp @ concat cs))"
proof -
  have "first_line n p \<noteq> [] \<longleftrightarrow> p \<noteq> []" for p using assms(3) by (cases n; cases p) auto
  with fgets_loop_ok [OF assms(1,2), of "[]" n] assms(3) show ?thesis by (simp add: fgets_def)
qed

end

interpretation file_stream: line_source "\<lambda>fp cs. stream_ok fp" False
proof (unfold_locales, goal_cases)
  case (3 fp cs)
  then have "read_end fp \<le> READ_BUF_SIZE" by (simp add: stream_ok_def)
  from load_cases [OF 3(2,3) this] obtain bs cs' p where b: "bs @ concat cs' = concat cs" "p + length bs \<le> READ_BUF_SIZE"
    "\<forall>c\<in>set cs'. c \<noteq> []" "bs = [] \<longrightarrow> cs = []"
    "load_read_buffer read_chunks fp cs = (if p + length bs \<le> length (read_buf fp)
        then Some (int (length bs), fp\<lparr>read_buf := take p (read_buf fp) @ bs @ drop (p + length bs) (read_buf fp),
          read_ptr := p, read_end := p + length bs\<rparr>, cs') else None)" by blast
  moreover have "bs \<noteq> [] \<longrightarrow> p < READ_BUF_SIZE" using b(2) by (cases bs) auto
  moreover have "length (read_buf fp) = READ_BUF_SIZE" using 3(1) by (simp add: stream_ok_def)
  ultimately show ?case by (auto simp: stream_ok_def buffered_def)
qed (auto simp: stream_ok_def)

lemma load_short:
  assumes "stream_short fp" and "read_ptr fp = read_end fp" and "\<forall>c\<in>set cs. c \<noteq> []"
  shows "\<exists>bs cs'. bs @ concat cs' = concat cs \<and> (\<forall>c\<in>set cs'. c \<noteq> []) \<and> (bs = [] \<longrightarrow> cs = []) \<and>
    (if read_end fp + length bs \<le> length (read_buf fp)
     then \<exists>fp'. load_read_buffer read_chunks fp cs = Some (int (length bs), fp', cs') \<and> stream_short fp' \<and> buffered fp' = bs
       \<and> read_end fp' = read_end fp + length bs \<and> length (read_buf fp') = length (read_buf fp)
     else load_read_buffer read_chunks fp cs = None)"
proof -
  have e: "read_end fp \<le> READ_BUF_SIZE" "read_end fp \<noteq> READ_BUF_SIZE" "read_end fp \<le> length (read_buf fp)"
    using assms(1) by (auto simp: stream_short_def)
  from load_cases [OF assms(2,3) e(1)] e(2) obtain bs cs' where b: "bs @ concat cs' = concat cs"
    "\<forall>c\<in>set cs'. c \<noteq> []" "bs = [] \<longrightarrow> cs = []"
    "load_read_buffer read_chunks fp cs = (if read_end fp + length bs \<le> length (read_buf fp)
        then Some (int (length bs), fp\<lparr>read_buf := take (read_end fp) (read_buf fp) @ bs @ drop (read_end fp + length bs) (read_buf fp),
          read_ptr := read_end fp, read_end := read_end fp + length bs\<rparr>, cs') else None)" by auto
  show ?thesis
    by (intro exI [of _ bs] exI [of _ cs']) (use b assms(1) e(3) in \<open>auto simp: stream_short_def buffered_def\<close>)
qed

interpretation short_stream: line_source stream_fits False
proof (unfold_locales, goal_cases)
  case (3 fp cs)
  then have "stream_short fp" by (simp add: stream_fits_def)
  from load_short [OF this 3(2,3)] obtain bs cs' where b: "bs @ concat cs' = concat cs" "\<forall>c\<in>set cs'. c \<noteq> []" "bs = [] \<longrightarrow> cs = []"
    "if read_end fp + length bs \<le> length (read_buf fp)
     then \<exists>fp'. load_read_buffer read_chunks fp cs = Some (int (length bs), fp', cs') \<and> stream_short fp' \<and> buffered fp' = bs
       \<and> read_end fp' = read_end fp + length bs \<and> length (read_buf fp') = length (read_buf fp)
     else load_read_buffer read_chunks fp cs = None" by blast
  have l: "length (concat cs) = length bs + length (concat cs')" by (simp flip: b(1))
  then have "read_end fp + length bs \<le> length (read_buf fp)" using 3(1) by (simp add: stream_fits_def)
  with b(4) obtain fp' where f: "load_read_buffer read_chunks fp cs = Some (int (length bs), fp', cs')" "stream_short fp'"
    "buffered fp' = bs" "read_end fp' = read_end fp + length bs" "length (read_buf fp') = length (read_buf fp)" by auto
  then have "stream_fits fp' cs'" using 3(1) l by (simp add: stream_fits_def)
  with f b(1-3) show ?case by (intro disjI2 exI [of _ "int (length bs)"] exI [of _ fp'] exI [of _ cs']) simp
qed (auto simp: stream_fits_def stream_short_def)

interpretation over_stream: line_source stream_over True
proof (unfold_locales, goal_cases)
  case (3 fp cs)
  then have "stream_short fp" by (simp add: stream_over_def)
  from load_short [OF this 3(2,3)] obtain bs cs' where b: "bs @ concat cs' = concat cs" "\<forall>c\<in>set cs'. c \<noteq> []" "bs = [] \<longrightarrow> cs = []"
    "if read_end fp + length bs \<le> length (read_buf fp)
     then \<exists>fp'. load_read_buffer read_chunks fp cs = Some (int (length bs), fp', cs') \<and> stream_short fp' \<and> buffered fp' = bs
       \<and> read_end fp' = read_end fp + length bs \<and> length (read_buf fp') = length (read_buf fp)
     else load_read_buffer read_chunks fp cs = None" by blast
  have l: "length (concat cs) = length bs + length (concat cs')" by (simp flip: b(1))
  show ?case
  proof (cases "read_end fp + length bs \<le> length (read_buf fp)")
    case True
    with b(4) obtain fp' where f: "load_read_buffer read_chunks fp cs = Some (int (length bs), fp', cs')" "stream_short fp'"
      "buffered fp' = bs" "read_end fp' = read_end fp + length bs" "length (read_buf fp') = length (read_buf fp)" by auto
    then have "stream_over fp' cs'" using 3(1) l by (simp add: stream_over_def)
    with f b(1-3) show ?thesis by (intro disjI2 exI [of _ "int (length bs)"] exI [of _ fp'] exI [of _ cs']) simp
  next
    case False
    with b(4) show ?thesis by simp
  qed
qed (auto simp: stream_over_def stream_short_def)

text \<open>
  The buffer of \<open>stdin\<close> is half as long as what \<open>load_read_buffer\<close> asks for: a read of more than
  512 bytes is written past its end.
\<close>

lemma stdin_overflow:
  "512 < length c \<Longrightarrow> length c \<le> 1024 \<Longrightarrow> load_read_buffer read_chunks stdin_file (c # cs) = None"
  by (simp add: load_read_buffer_def stdin_file_def read_chunks_def READ_BUF_SIZE_def wr_block_def)

section \<open>Decimal numbers\<close>

definition dec_from :: "int \<Rightarrow> u8 list \<Rightarrow> int" where
  "dec_from v str = foldl (\<lambda>v c. 10 * v + (sint c - 48)) v str"

lemma dec_from_Cons: "dec_from v (c # str) = dec_from (10 * v + (sint c - 48)) str"
  by (simp add: dec_from_def)

lemma dec_from_ge: "0 \<le> v \<Longrightarrow> \<forall>c\<in>set str. digit c \<Longrightarrow> v \<le> dec_from v str"
proof (induction str arbitrary: v)
  case (Cons c str)
  then have "10 * v + (sint c - 48) \<le> dec_from (10 * v + (sint c - 48)) str" by (simp add: digit_def)
  moreover have "v \<le> 10 * v + (sint c - 48)" using Cons.prems by (simp add: digit_def)
  ultimately show ?case by (simp add: dec_from_Cons)
qed (simp add: dec_from_def)

lemma atoi_plus_ok:
  "0 \<le> v \<Longrightarrow> \<forall>c\<in>set str. digit c \<Longrightarrow> dec_from v str < 2147483640 \<Longrightarrow> atoi_plus v str = (dec_from v str, False)"
proof (induction str arbitrary: v)
  case (Cons c str)
  let ?w = "10 * v + (sint c - 48)"
  have c: "48 \<le> sint c" "sint c \<le> 57" "digit c" using Cons.prems(2) by (simp_all add: digit_def)
  have "?w \<le> dec_from ?w str" using Cons.prems c by (intro dec_from_ge) simp_all
  with Cons.prems(3) c have "v < 214748364" by (simp add: dec_from_Cons)
  moreover have w: "v * 10 + sint c - 48 = ?w" by simp
  ultimately have "atoi_plus v (c # str) = atoi_plus ?w str" using c(3) unfolding w [symmetric] by simp
  with Cons.IH [of ?w] Cons.prems c show ?case by (simp add: dec_from_Cons)
qed (simp add: dec_from_def)

lemma atoi_minus_ok:
  "0 \<le> v \<Longrightarrow> \<forall>c\<in>set str. digit c \<Longrightarrow> dec_from v str \<le> 2147483648 \<Longrightarrow> atoi_minus (- v) str = (- dec_from v str, False)"
proof (induction str arbitrary: v)
  case (Cons c str)
  let ?w = "10 * v + (sint c - 48)"
  have c: "48 \<le> sint c" "sint c \<le> 57" "digit c" using Cons.prems(2) by (simp_all add: digit_def)
  have w: "?w \<le> dec_from ?w str" using Cons.prems c by (intro dec_from_ge) simp_all
  with Cons.prems(3) c have "v < 214748364 \<or> v = 214748364 \<and> sint c < 57" by (simp add: dec_from_Cons) linarith
  moreover have w: "- v * 10 - (sint c - 48) = - ?w" by simp
  ultimately have "atoi_minus (- v) (c # str) = atoi_minus (- ?w) str" using c(3) unfolding w [symmetric] by auto
  with Cons.IH [of ?w] Cons.prems c show ?case by (simp add: dec_from_Cons)
qed (simp add: dec_from_def)

lemma atoi_plus_short:
  "0 \<le> v \<Longrightarrow> v \<le> 214748364 \<Longrightarrow> \<forall>c\<in>set str. digit c \<Longrightarrow> 2147483640 \<le> dec_from v str \<Longrightarrow> dec_from v str \<le> 2147483647 \<Longrightarrow>
   atoi_plus v str = (214748364, False)"
proof (induction str arbitrary: v)
  case (Cons c str)
  let ?w = "10 * v + (sint c - 48)"
  have c: "48 \<le> sint c" "sint c \<le> 57" "digit c" using Cons.prems(3) by (simp_all add: digit_def)
  show ?case
  proof (cases "v = 214748364")
    case False
    with Cons.prems(2) have v: "v < 214748364" by simp
    have "?w \<le> 214748364"
    proof (cases str)
      case Nil
      with Cons.prems(4) v c show ?thesis by (simp add: dec_from_def)
    next
      case (Cons d ds)
      have d: "48 \<le> sint d" using Cons.prems(3) Cons by (simp add: digit_def)
      have "10 * ?w + (sint d - 48) \<le> dec_from (10 * ?w + (sint d - 48)) ds"
        using Cons.prems(1,3) Cons c d by (intro dec_from_ge) simp_all
      with Cons.prems(5) d have "10 * ?w \<le> 2147483647" unfolding dec_from_Cons Cons by linarith
      moreover have "10 * w \<le> 2147483647 \<Longrightarrow> w \<le> 214748364" for w :: int by linarith
      ultimately show ?thesis by blast
    qed
    moreover have w: "v * 10 + sint c - 48 = ?w" by simp
    have "atoi_plus v (c # str) = atoi_plus ?w str" using c(3) v unfolding w [symmetric] by simp
    ultimately show ?thesis using Cons.IH [of ?w] Cons.prems c v by (simp add: dec_from_Cons)
  qed (use c in simp)
qed (simp add: dec_from_def)

section \<open>Sorting\<close>

lemma strcmp_str_key:
  "0 \<notin> set a \<Longrightarrow> 0 \<notin> set b \<Longrightarrow>
   strcmp_str a b = (if str_key a < str_key b then - 1 else of_bool (str_key b < str_key a))"
proof (induction a b rule: strcmp_str.induct)
  case (2 b bs)
  then have "sint b \<noteq> 0" by (metis list.set_intros(1) signed_eq_0_iff)
  then show ?case by (auto simp: str_key_def)
next
  case (3 a as)
  then have "sint a \<noteq> 0" by (metis list.set_intros(1) signed_eq_0_iff)
  then show ?case by (auto simp: str_key_def)
next
  case (4 a as b bs)
  then show ?case by (auto simp: str_key_def signed_word_eqI)
qed (simp add: str_key_def)

fun insert_last :: "u8 list list \<Rightarrow> u8 list \<Rightarrow> u8 list list" where
  "insert_last ps s = rev (takeWhile (\<lambda>p. 0 \<le> strcmp_str p s) (rev ps) @ s # dropWhile (\<lambda>p. 0 \<le> strcmp_str p s) (rev ps))"

declare insert_last.simps [simp del]

lemma insert_last_snoc:
  "insert_last (ps @ [p]) s = (if 0 \<le> strcmp_str p s then insert_last ps s @ [p] else ps @ [p, s])"
  by (simp add: insert_last.simps)

lemma place_insert: "place (ps @ x # rs) s (length ps) = insert_last ps s @ rs"
proof (induction ps arbitrary: x rs rule: rev_induct)
  case Nil
  then show ?case by (simp add: insert_last.simps)
next
  case (snoc p ps)
  have "place (ps @ p # p # rs) s (length ps) = insert_last ps s @ p # rs" using snoc [of p "p # rs"] .
  then show ?case by (simp add: insert_last_snoc nth_append list_update_append)
qed

lemma insert_last_mset: "mset (insert_last ps s) = add_mset s (mset ps)"
proof -
  have "mset (takeWhile P xs) + mset (dropWhile P xs) = mset xs" for P and xs :: "u8 list list"
    by (metis mset_append takeWhile_dropWhile_id)
  from this [of "\<lambda>p. 0 \<le> strcmp_str p s" "rev ps"] show ?thesis by (simp add: insert_last.simps add.commute)
qed

lemma insert_last_sorted:
  assumes "sorted (map str_key ps)" and "\<forall>p\<in>set ps \<union> {s}. 0 \<notin> set p"
  shows "sorted (map str_key (insert_last ps s))"
  using assms
proof (induction ps rule: rev_induct)
  case Nil
  then show ?case by (simp add: insert_last.simps)
next
  case (snoc p ps)
  have c: "0 \<le> strcmp_str p s \<longleftrightarrow> str_key s \<le> str_key p"
    using strcmp_str_key [of p s] snoc.prems(2) by auto
  have "set (insert_last ps s) = insert s (set ps)" using arg_cong [OF insert_last_mset [of ps s], of set_mset] by simp
  with snoc c show ?case by (auto simp: insert_last_snoc sorted_append)
qed

lemma do_sort_prefix:
  assumes "i \<le> length ls" and "0 < i" and "\<forall>s\<in>set ls. 0 \<notin> set s"
  shows "\<exists>ps. foldl (\<lambda>ls i. place ls (ls ! i) i) ls [1..<i] = ps @ drop i ls
    \<and> sorted (map str_key ps) \<and> mset ps = mset (take i ls)"
  using assms
proof (induction i)
  case (Suc i)
  show ?case
  proof (cases "i = 0")
    case True
    then show ?thesis using Suc.prems by (intro exI [of _ "take 1 ls"]) (cases ls, auto simp: One_nat_def)
  next
    case False
    with Suc obtain ps where ps: "foldl (\<lambda>ls i. place ls (ls ! i) i) ls [1..<i] = ps @ drop i ls"
      "sorted (map str_key ps)" "mset ps = mset (take i ls)" by auto
    have i: "i < length ls" "length ps = i" using Suc.prems(1) arg_cong [OF ps(3), of size] by simp_all
    have d: "drop i ls = ls ! i # drop (Suc i) ls" using i(1) by (simp add: Cons_nth_drop_Suc)
    have up: "[1..<Suc i] = [1..<i] @ [i]" using False by simp
    have "foldl (\<lambda>ls i. place ls (ls ! i) i) ls [1..<Suc i] = place (ps @ ls ! i # drop (Suc i) ls) (ls ! i) (length ps)"
      unfolding up using ps(1) d i(2) by (simp add: nth_append)
    also have "\<dots> = insert_last ps (ls ! i) @ drop (Suc i) ls" by (rule place_insert)
    finally have "foldl (\<lambda>ls i. place ls (ls ! i) i) ls [1..<Suc i] = insert_last ps (ls ! i) @ drop (Suc i) ls" .
    moreover have "set ps \<subseteq> set ls" using arg_cong [OF ps(3), of set_mset] by (auto dest: in_set_takeD)
    then have "sorted (map str_key (insert_last ps (ls ! i)))"
      using i(1) Suc.prems(3) by (intro insert_last_sorted ps(2)) auto
    moreover have "mset (insert_last ps (ls ! i)) = mset (take (Suc i) ls)"
      using i(1) ps(3) by (simp add: insert_last_mset take_Suc_conv_app_nth)
    ultimately show ?thesis by blast
  qed
qed simp

section \<open>Words\<close>

text \<open>Reference definition: the pieces between separators, and those that are not empty.\<close>

fun pieces :: "u8 \<Rightarrow> u8 list \<Rightarrow> u8 list list" where
  "pieces t [] = [[]]"
| "pieces t (c # cs) = (if c = t then [] # pieces t cs else (c # hd (pieces t cs)) # tl (pieces t cs))"

definition words :: "u8 \<Rightarrow> u8 list \<Rightarrow> u8 list list" where
  "words t xs = filter (\<lambda>w. w \<noteq> []) (pieces t xs)"

lemma words_skip: "words t (dropWhile (\<lambda>c. c = t) xs) = words t xs"
  by (induction xs) (simp_all add: words_def)

lemma pieces_prefix: "t \<notin> set w \<Longrightarrow> pieces t (w @ r) = (w @ hd (pieces t r)) # tl (pieces t r)"
proof (induction w)
  case Nil
  then show ?case by (cases r) simp_all
qed auto

lemma words_first:
  assumes "p \<noteq> []" and "hd p \<noteq> t"
  shows "words t p = takeWhile (\<lambda>c. c \<noteq> t) p # words t (drop 1 (dropWhile (\<lambda>c. c \<noteq> t) p))"
proof -
  let ?w = "takeWhile (\<lambda>c. c \<noteq> t) p" and ?r = "dropWhile (\<lambda>c. c \<noteq> t) p"
  have w: "t \<notin> set ?w" by (auto dest: set_takeWhileD)
  have ne: "?w \<noteq> []" using assms by (cases p) auto
  have pc: "pieces t p = (?w @ hd (pieces t ?r)) # tl (pieces t ?r)" using pieces_prefix [OF w, of ?r] by simp
  show ?thesis
  proof (cases ?r)
    case Nil
    have "pieces t p = [?w]" using pc unfolding Nil by simp
    with ne show ?thesis unfolding Nil by (simp only: words_def drop_Nil) simp
  next
    case (Cons c q)
    have "c = t" using hd_dropWhile [of "\<lambda>c. c \<noteq> t" p] Cons by auto
    then have "pieces t p = ?w # pieces t q" using pc unfolding Cons by simp
    with ne show ?thesis unfolding Cons by (simp add: words_def One_nat_def)
  qed
qed

lemma cmd_words_ok:
  "length argv = 16 \<Longrightarrow> argc \<le> 16 \<Longrightarrow> cmd_words t xs argv argc =
     (if argc + length (words t xs) \<le> 16
      then Some (int (argc + length (words t xs)), take argc argv @ map Some (words t xs) @ drop (argc + length (words t xs)) argv)
      else None)"
proof (induction t xs argv argc rule: cmd_words.induct)
  case (1 t xs argv argc)
  let ?p = "dropWhile (\<lambda>c. c = t) xs"
  show ?case
  proof (cases "?p = []")
    case True
    have "words t xs = []" using words_skip [of t xs, symmetric] unfolding True by (simp add: words_def)
    with True 1(2,3) show ?thesis by (subst cmd_words.simps) simp
  next
    case False
    have hd: "hd ?p \<noteq> t" using hd_dropWhile [of "\<lambda>c. c = t" xs] False by auto
    define wd q where "wd = takeWhile (\<lambda>c. c \<noteq> t) ?p" and "q = drop 1 (dropWhile (\<lambda>c. c \<noteq> t) ?p)"
    define ws where "ws = words t q"
    from words_first [OF False hd] have w: "words t xs = wd # ws"
      by (simp only: words_skip wd_def q_def ws_def)
    show ?thesis
    proof (cases "argc < 16")
      case True
      let ?a = "argv[argc := Some wd]"
      have a: "wr argv argc (Some wd) = Some ?a" "\<not> SH_MAX_ARG_NR < argc" "length ?a = 16" "argc + 1 \<le> 16"
        using True 1(2) by (simp_all add: SH_MAX_ARG_NR_def)
      have tk: "take (argc + 1) ?a = take argc argv @ [Some wd]" by (rule take_add_1_update) (use True 1(2) in simp)
      have dr: "drop (argc + 1 + n) ?a = drop (argc + 1 + n) argv" for n by simp
      have run: "cmd_words t xs argv argc = cmd_words t q ?a (argc + 1)"
        by (simp only: cmd_words.simps [of t xs argv argc] Let_def if_not_P [OF False] if_not_P [OF a(2)]
            wd_def [symmetric] q_def [symmetric] a(1) Option.bind_lunit)
      from 1(1) [OF refl False a(1) [unfolded wd_def] a(2) a(3,4) [unfolded wd_def], folded wd_def q_def, folded ws_def]
      have "cmd_words t q ?a (argc + 1) = (if argc + 1 + length ws \<le> 16
          then Some (int (argc + 1 + length ws), take (argc + 1) ?a @ map Some ws @ drop (argc + 1 + length ws) ?a) else None)" .
      moreover have "argc + length (wd # ws) = argc + 1 + length ws" by simp
      ultimately show ?thesis unfolding run w tk dr by (simp only: list.map append_assoc append_Cons append_Nil)
    next
      case full: False
      with 1(2,3) False have "wr argv argc x = None" for x by simp
      then have "cmd_words t xs argv argc = None"
        by (simp only: cmd_words.simps [of t xs argv argc] Let_def if_not_P [OF False] Option.bind_lzero)
      with full 1(3) w show ?thesis by simp
    qed
  qed
qed

section \<open>Properties\<close>

text \<open>
  \<open>fgets\<close> returns the next line with its newline, or the first \<open>count\<close> bytes of a longer
  one, however the bytes are spread over the buffer and the reads to come, and leaves the rest
  for the next call; at the end of the input, and only there, it returns \<open>NULL\<close>.
\<close>

theorem fgets_reads_line:
  assumes "stream_ok fp" and "\<forall>c\<in>set cs. c \<noteq> []" and "0 < n"
  shows "\<exists>fp' cs'. fgets read_chunks (int n) fp cs
      = Some (first_line n (buffered fp @ concat cs), buffered fp @ concat cs \<noteq> [], fp', cs')
    \<and> stream_ok fp' \<and> (\<forall>c\<in>set cs'. c \<noteq> [])
    \<and> buffered fp' @ concat cs' = drop (length (first_line n (buffered fp @ concat cs))) (buffered fp @ concat cs)"
  using file_stream.fgets_line [OF assms] by simp

theorem fgets_reads_line_witness:
  "\<exists>fp' cs'. fgets read_chunks 100 \<lparr>fileno = 0, f_flags = 0, f_status = 0, read_buf = replicate 1024 0, read_ptr = 0, read_end = 0\<rparr>
      [[97, 98], [99, 10, 100]] = Some ([97, 98, 99, 10], True, fp', cs') \<and> buffered fp' @ concat cs' = [100]"
proof -
  let ?fp = "\<lparr>fileno = 0, f_flags = 0, f_status = 0, read_buf = replicate 1024 0, read_ptr = 0, read_end = 0\<rparr>"
  have "stream_ok ?fp" by (simp add: stream_ok_def READ_BUF_SIZE_def)
  moreover have "buffered ?fp = []" by (simp add: buffered_def)
  moreover have "first_line 100 [97, 98, 99, 10, 100] = [97, 98, 99, 10]"
    by (simp add: newline_def first_line_pos)
  ultimately show ?thesis using fgets_reads_line [of ?fp "[[97, 98], [99, 10, 100]]" 100] by simp blast
qed

text \<open>
  \<open>do_sort\<close> sorts the first \<open>n\<close> lines in the order of \<open>strcmp\<close> and leaves the others.
\<close>

theorem do_sort_sorts:
  assumes "n \<le> length ls" and "\<forall>s\<in>set ls. 0 \<notin> set s"
  shows "\<exists>ps. do_sort ls n = ps @ drop n ls \<and> mset ps = mset (take n ls)
    \<and> sorted_wrt (\<lambda>a b. strcmp_str a b \<le> 0) ps"
proof (cases "n = 0")
  case True
  then show ?thesis by (simp add: do_sort_def)
next
  case False
  with do_sort_prefix [OF assms(1) _ assms(2)] obtain ps where ps: "do_sort ls n = ps @ drop n ls"
    "sorted (map str_key ps)" "mset ps = mset (take n ls)" by (auto simp: do_sort_def)
  have "set ps \<subseteq> set ls" using arg_cong [OF ps(3), of set_mset] by (auto dest: in_set_takeD)
  with assms(2) have z: "\<forall>s\<in>set ps. 0 \<notin> set s" by auto
  have "sorted_wrt (\<lambda>a b. strcmp_str a b \<le> 0) ps"
    using ps(2) unfolding sorted_map by (rule sorted_wrt_mono_rel [rotated]) (use z strcmp_str_key in auto)
  with ps show ?thesis by blast
qed

theorem do_sort_sorts_witness:
  "\<exists>ps. do_sort [[98], [97, 99], [97], [0x7a]] 3 = ps @ [[0x7a]] \<and> sorted_wrt (\<lambda>a b. strcmp_str a b \<le> 0) ps"
  using do_sort_sorts [of 3 "[[98], [97, 99], [97], [0x7a]]"] by fastforce

text \<open>
  \<open>cmd_parse\<close> stores exactly the words of a command line, those beyond the last stay
  null, and more than 16 words leave the array. With 16 words, the number it is meant to
  allow, no null pointer is left to end the argument list that \<open>execve\<close> walks.
\<close>

theorem cmd_parse_words:
  "cmd_parse s t =
     (if length (words t s) \<le> 16
      then Some (int (length (words t s)), map Some (words t s) @ replicate (16 - length (words t s)) None)
      else None)"
  using cmd_words_ok [of "replicate 16 None" 0 t s] by (simp add: cmd_parse_def SH_MAX_ARG_NR_def)

text \<open>
  \<open>atoi\<close> of \<open>seq\<close>: decimal digits give their value below 2147483640, and with a minus
  sign down to the least \<open>int\<close>; the values from 2147483640 to 2147483647, which fit an \<open>int\<close>, lose
  their last digit.
\<close>

theorem atoi_values:
  assumes "\<forall>c\<in>set str. digit c"
  shows "(dec_from 0 str < 2147483640 \<longrightarrow> atoi str = (dec_from 0 str, False))
    \<and> (dec_from 0 str \<le> 2147483648 \<longrightarrow> atoi (minus_sign # str) = (- dec_from 0 str, False))
    \<and> (2147483640 \<le> dec_from 0 str \<and> dec_from 0 str \<le> 2147483647 \<longrightarrow> atoi str = (214748364, False))"
proof -
  have "\<not> (str \<noteq> [] \<and> hd str = minus_sign)" using assms by (cases str) (auto simp: digit_def minus_sign_def)
  then have "atoi str = atoi_plus 0 str" "atoi (minus_sign # str) = atoi_minus 0 str" by (simp_all only: atoi_def if_False) (simp add: atoi_def)
  with atoi_plus_ok [of 0 str] atoi_minus_ok [of 0 str] atoi_plus_short [of 0 str] assms show ?thesis by simp
qed

theorem atoi_values_witness: "atoi [50, 49, 52, 55, 52, 56, 51, 54, 52, 55] = (214748364, False)"
proof -
  let ?s = "[50, 49, 52, 55, 52, 56, 51, 54, 52, 55 :: u8]"
  have "\<forall>c\<in>set ?s. digit c" "dec_from 0 ?s = 2147483647" by (simp_all add: digit_def dec_from_def)
  with atoi_values [of ?s] show ?thesis by simp
qed

text \<open>
  \<open>grep\<close> scans as many bytes as the last read gave, from the front of its buffer,
  although that read was stored behind what was left from the one before: when a line
  comes in two reads, the second not longer than the first, nothing of it is looked at.
\<close>

theorem grep_loses_carried_bytes:
  assumes "newline \<notin> set x" and "y \<noteq> []" and "length y \<le> length x" and "length x + length y \<le> BUF_SIZE"
  shows "grep_loop key [] [x, y] = Some []"
proof -
  have nl: "scan_buf key q = ([], q)" if "newline \<notin> set q" for q
    using that by (subst scan_buf.simps) (simp add: dropWhile_eq_Nil_conv)
  have "newline \<notin> set (take (length y) (x @ y))" using assms(1,3) by (auto dest: in_set_takeD)
  with assms nl show ?thesis by (auto simp: nl)
qed

theorem grep_loses_carried_bytes_witness: "grep_loop [97] [] [[97, 98], [99, 10]] = Some []"
  by (rule grep_loses_carried_bytes) (simp_all add: newline_def BUF_SIZE_def)

end
