(* ===== verification/Tools.thy ===== *)
theory Tools
  imports Userprog
begin

text \<open>
  Two user programs from their input to their output: \<open>sort\<close> (\<open>src/system/src/sort/sort.c\<close>) and the
  copying loops of \<open>cat\<close> (\<open>src/system/src/cat/main.c\<close>). The system calls are arguments, \<open>malloc\<close>
  is taken to succeed.
\<close>

section \<open>sort\<close>

definition MAX_LINES :: nat where "MAX_LINES = 1024"

text \<open>
  The loop that reads the lines. A line of length 1 is skipped, the last character of a longer one
  is cut off; an empty string would be cut before its start.
\<close>

partial_function (option) read_lines :: "'s reader \<Rightarrow> FILE \<Rightarrow> 's \<Rightarrow> u8 list list \<Rightarrow> nat \<Rightarrow> (u8 list list \<times> nat \<times> 's) option" where
  "read_lines rdf fp s ls cnt =
     do { (buf, got, fp, s) \<leftarrow> fgets rdf 1023 fp s;
          if \<not> got then Some (ls, cnt, s)
          else
            do { line \<leftarrow> Some (takeWhile (\<lambda>c. c \<noteq> 0) buf);
                 kassert (line \<noteq> []);
                 if length line = 1 then read_lines rdf fp s ls cnt
                 else do { ls \<leftarrow> wr ls cnt (butlast line); read_lines rdf fp s ls (cnt + 1) } } }"

definition sort_main :: "'s reader \<Rightarrow> FILE \<Rightarrow> 's \<Rightarrow> u8 list option" where
  "sort_main rdf fp s =
     do { (ls, cnt, s) \<leftarrow> read_lines rdf fp s (replicate MAX_LINES []) 0;
          Some (concat (map (\<lambda>l. l @ [newline]) (take cnt (do_sort ls cnt)))) }"

section \<open>cat\<close>

text \<open>\<open>None\<close>: the loop does not end. The outputs are given in the order of the writes.\<close>

partial_function (option) cat_file :: "(nat \<Rightarrow> 's \<Rightarrow> int \<times> u8 list \<times> 's) \<Rightarrow> 's \<Rightarrow> u8 list option" where
  "cat_file rdf s =
     (let (r, bs, s) = rdf 1024 s in
      if r = - 1 then Some []
      else do { out \<leftarrow> cat_file rdf s; Some (take (nat r) bs @ out) })"

text \<open>With the result of the last \<open>read\<close>.\<close>

partial_function (option) cat_stdin :: "(nat \<Rightarrow> 's \<Rightarrow> int \<times> u8 list \<times> 's) \<Rightarrow> 's \<Rightarrow> (u8 list \<times> int) option" where
  "cat_stdin rdf s =
     (let (r, bs, s) = rdf 128 s in
      if 0 < r then do { (out, last_r) \<leftarrow> cat_stdin rdf s; Some (take (nat r) bs @ out, last_r) } else Some ([], r))"

section \<open>Reading the lines\<close>

lemma first_line_nil [simp]: "first_line n [] = []"
  by (cases n) simp_all

definition text_of :: "u8 list list \<Rightarrow> u8 list" where
  "text_of ls = concat (map (\<lambda>l. l @ [newline]) ls)"

definition plain_line :: "u8 list \<Rightarrow> bool" where
  "plain_line l \<longleftrightarrow> newline \<notin> set l \<and> 0 \<notin> set l \<and> length l < 1023"

lemma first_line_text:
  assumes "plain_line l"
  shows "first_line 1023 (text_of (l # ls)) = l @ [newline]"
proof -
  have l: "newline \<notin> set l" "length l < 1023" using assms by (simp_all add: plain_line_def)
  then have "first_line 1023 (l @ newline # text_of ls) = l @ first_line (1023 - length l) (newline # text_of ls)"
    by (intro first_line_append) simp_all
  then show ?thesis using l by (simp add: text_of_def first_line_pos)
qed

lemma zero_free_string: "0 \<notin> set l \<Longrightarrow> takeWhile (\<lambda>c. c \<noteq> 0) (l @ [newline]) = l @ [newline]"
  by (induction l) (auto simp: newline_def)

text \<open>\<open>stdin\<close> while everything that is still to come has room in its buffer.\<close>

lemma read_lines_ok:
  assumes "stream_fits fp cs" "\<forall>c\<in>set cs. c \<noteq> []" "buffered fp @ concat cs = text_of ls" "\<forall>l\<in>set ls. plain_line l"
    "length store = MAX_LINES" "n + length (filter (\<lambda>l. l \<noteq> []) ls) \<le> MAX_LINES"
  shows "\<exists>cs'. read_lines read_chunks fp cs store n =
    Some (take n store @ filter (\<lambda>l. l \<noteq> []) ls @ drop (n + length (filter (\<lambda>l. l \<noteq> []) ls)) store,
          n + length (filter (\<lambda>l. l \<noteq> []) ls), cs')"
  using assms
proof (induction ls arbitrary: fp cs store n)
  case Nil
  from short_stream.fgets_line [OF Nil(1,2), of 1023] Nil(3) obtain fp' cs' where "fgets read_chunks 1023 fp cs = Some ([], False, fp', cs')"
    by (auto simp: text_of_def)
  then show ?case by (subst read_lines.simps) simp
next
  case (Cons l ls)
  have pl: "plain_line l" using Cons.prems(4) by simp
  have "text_of (l # ls) \<noteq> []" by (simp add: text_of_def)
  with short_stream.fgets_line [OF Cons.prems(1,2), of 1023] Cons.prems(3) first_line_text [OF pl, of ls]
  obtain fp' cs' where g: "fgets read_chunks 1023 fp cs = Some (l @ [newline], True, fp', cs')" "stream_fits fp' cs'"
    "\<forall>c\<in>set cs'. c \<noteq> []" "buffered fp' @ concat cs' = drop (length l + 1) (text_of (l # ls))"
    by auto
  then have rest: "buffered fp' @ concat cs' = text_of ls" by (simp add: text_of_def)
  have cut: "takeWhile (\<lambda>c. c \<noteq> 0) (l @ [newline]) = l @ [newline]"
    using pl by (intro zero_free_string) (simp add: plain_line_def)
  have all: "\<forall>l\<in>set ls. plain_line l" using Cons.prems(4) by simp
  show ?case
  proof (cases "l = []")
    case True
    have "read_lines read_chunks fp cs store n = read_lines read_chunks fp' cs' store n"
      using g(1) by (subst read_lines.simps) (simp add: True kassert_def newline_def)
    with Cons.IH [OF g(2,3) rest all Cons.prems(5)] Cons.prems(6) True show ?thesis by simp
  next
    case False
    then have room: "n < length store" "n + 1 + length (filter (\<lambda>l. l \<noteq> []) ls) \<le> MAX_LINES"
      using Cons.prems(5,6) by simp_all
    have "read_lines read_chunks fp cs store n = read_lines read_chunks fp' cs' (store[n := l]) (n + 1)"
      using False room(1) by (subst read_lines.simps) (simp add: g(1) cut kassert_def wr_def)
    with Cons.IH [OF g(2,3) rest all, of "store[n := l]" "n + 1"] Cons.prems(5) room False show ?thesis
      by (simp add: take_Suc_conv_app_nth)
  qed
qed

text \<open>Without that room the program runs past the buffer before the input ends.\<close>

lemma first_line_ne: "p \<noteq> [] \<Longrightarrow> 0 < n \<Longrightarrow> first_line n p \<noteq> []"
  by (cases p; cases n) auto

lemma read_lines_over:
  "stream_over fp cs \<Longrightarrow> \<forall>c\<in>set cs. c \<noteq> [] \<Longrightarrow> read_lines read_chunks fp cs store n = None"
proof (induction "length (buffered fp @ concat cs)" arbitrary: fp cs store n rule: less_induct)
  case less
  have "0 < length (concat cs)" using less.prems(1) by (simp add: stream_over_def stream_short_def del: length_concat length_0_conv length_greater_0_conv)
  then have ne: "buffered fp @ concat cs \<noteq> []" by (simp only: append_is_Nil_conv length_greater_0_conv simp_thms)
  from over_stream.fgets_line [OF less.prems, of 1023] consider
    (none) "fgets read_chunks 1023 fp cs = None"
    | (some) out fp' cs' where "fgets read_chunks 1023 fp cs = Some (out, True, fp', cs')" "stream_over fp' cs'"
      "\<forall>c\<in>set cs'. c \<noteq> []" "buffered fp' @ concat cs' = drop (length out) (buffered fp @ concat cs)" "out \<noteq> []"
    using ne first_line_ne [OF ne, of 1023] by auto
  then show ?case
  proof cases
    case none
    then show ?thesis by (subst read_lines.simps) simp
  next
    case some
    have "length (buffered fp' @ concat cs') < length (buffered fp @ concat cs)"
      using some(4,5) ne by (simp only: length_drop) simp
    from less.hyps [OF this some(2,3)] some(1) show ?thesis
      by (subst read_lines.simps) (auto simp: kassert_def split: bind_split)
  qed
qed

lemma stdin_kinds:
  "length (concat cs) \<le> 512 \<Longrightarrow> stream_fits stdin_file cs" "512 < length (concat cs) \<Longrightarrow> stream_over stdin_file cs"
  "buffered stdin_file = []"
  by (simp_all add: stream_fits_def stream_over_def stream_short_def stdin_file_def READ_BUF_SIZE_def buffered_def)

lemma filter_text: "length (filter (\<lambda>l. l \<noteq> []) ls) \<le> length (text_of ls)"
  by (induction ls) (auto simp: text_of_def)

section \<open>Lines in the order of strcmp\<close>

text \<open>
  Lines are a linear order of their own, the one of their signed bytes with the terminating zero, so that
  \<open>sorted\<close> and \<open>sort\<close> of the library speak of it; for lines without a zero byte it is \<open>strcmp\<close>.
\<close>

datatype line = Line (bytes_of: "u8 list")

instantiation line :: linorder
begin

definition less_eq_line :: "line \<Rightarrow> line \<Rightarrow> bool" where
  "less_eq_line a b \<longleftrightarrow> str_key (bytes_of a) \<le> str_key (bytes_of b)"

definition less_line :: "line \<Rightarrow> line \<Rightarrow> bool" where
  "less_line a b \<longleftrightarrow> str_key (bytes_of a) < str_key (bytes_of b)"

instance
proof
  show "a = b" if "a \<le> b" "b \<le> a" for a b :: line
  proof -
    from that have "map sint (bytes_of a) = map sint (bytes_of b)" by (simp add: less_eq_line_def str_key_def)
    then have "bytes_of a = bytes_of b" by (rule map_injective) (simp add: inj_on_def signed_word_eqI)
    then show ?thesis by (cases a; cases b) simp
  qed
qed (auto simp: less_eq_line_def less_line_def)

end

lemma line_le_strcmp: "0 \<notin> set a \<Longrightarrow> 0 \<notin> set b \<Longrightarrow> Line a \<le> Line b \<longleftrightarrow> strcmp_str a b \<le> 0"
  by (auto simp: less_eq_line_def strcmp_str_key)

lemma sort_lines:
  assumes "mset ps = mset ls" "sorted_wrt (\<lambda>a b. strcmp_str a b \<le> 0) ps" "\<forall>l\<in>set ls. 0 \<notin> set l"
  shows "ps = map bytes_of (sort (map Line ls))"
proof -
  have "\<forall>l\<in>set ps. 0 \<notin> set l" using assms(1,3) by (metis set_mset_mset)
  then have "sorted_wrt (\<lambda>a b. Line a \<le> Line b) ps"
    using assms(2) by (auto simp: line_le_strcmp intro: sorted_wrt_mono_rel [rotated])
  then have "sorted (map Line ps)" by (simp add: sorted_wrt_map)
  moreover have "mset (map Line ps) = mset (map Line ls)" using assms(1) by simp
  ultimately have "sort (map Line ls) = map Line ps" by (intro properties_for_sort) simp_all
  then show ?thesis by (simp add: map_idI)
qed

text \<open>
  Property C29. \<open>sort\<close> prints the lines of its standard input that are not empty, sorted in the order of
  \<open>strcmp\<close>, however the input arrives, if the input has at most the 512 bytes of the buffer of \<open>stdin\<close>;
  of a longer input, in whatever pieces it comes, a read is stored past the end of that buffer.
\<close>

theorem sort_prints_sorted_lines:
  assumes "\<forall>c\<in>set cs. c \<noteq> []" "concat cs = text_of ls" "\<forall>l\<in>set ls. newline \<notin> set l \<and> 0 \<notin> set l"
  shows "sort_main read_chunks stdin_file cs = (if length (concat cs) \<le> 512
    then Some (text_of (map bytes_of (sort (map Line (filter (\<lambda>l. l \<noteq> []) ls))))) else None)"
proof (cases "length (concat cs) \<le> 512")
  case False
  then have "read_lines read_chunks stdin_file cs st n = None" for st n
    using read_lines_over [OF stdin_kinds(2) assms(1)] by simp
  with False show ?thesis by (simp add: sort_main_def)
next
  case True
  let ?ls = "filter (\<lambda>l. l \<noteq> []) ls" and ?store = "replicate MAX_LINES []"
  have "length l \<le> length (text_of ls)" if "l \<in> set ls" for l
    using that by (auto simp: text_of_def dest!: split_list)
  then have plain: "\<forall>l\<in>set ls. plain_line l"
    using assms True by (fastforce simp: plain_line_def)
  have few: "length ?ls \<le> MAX_LINES" using filter_text [of ls] True assms(2) by (simp add: MAX_LINES_def)
  obtain cs' where r: "read_lines read_chunks stdin_file cs ?store 0 = Some (?ls @ drop (length ?ls) ?store, length ?ls, cs')"
    using read_lines_ok [OF stdin_kinds(1) [OF True] assms(1) _ plain, of ?store 0] stdin_kinds(3) assms(2) few by auto
  have zf: "\<forall>s\<in>set (?ls @ drop (length ?ls) ?store). 0 \<notin> set s"
    using assms(3) by auto
  from do_sort_sorts [OF _ this, of "length ?ls"] obtain ps where
    ps: "do_sort (?ls @ drop (length ?ls) ?store) (length ?ls) = ps @ drop (length ?ls) (?ls @ drop (length ?ls) ?store)"
      "mset ps = mset ?ls" "sorted_wrt (\<lambda>a b. strcmp_str a b \<le> 0) ps" by auto
  have len: "length ps = length ?ls" using ps(2) by (metis size_mset)
  have "ps = map bytes_of (sort (map Line ?ls))" using zf by (intro sort_lines ps(2,3)) simp
  with r ps(1) len True show ?thesis by (simp add: sort_main_def text_of_def)
qed

theorem sort_prints_sorted_lines_witness:
  "sort_main read_chunks stdin_file [[98, 10, 10], [97, 99, 10]] = Some [97, 99, 10, 98, 10]
    \<and> sort_main read_chunks stdin_file (replicate 300 [98, 10]) = None"
proof
  have "concat [[98, 10, 10], [97, 99, 10]] = text_of [[98], [], [97, 99]]"
    by (simp add: text_of_def newline_def)
  moreover have "Line [97, 99] < Line [98]" "\<not> Line [98] \<le> Line [97, 99]"
    by (simp_all add: less_line_def less_eq_line_def str_key_def)
  ultimately show "sort_main read_chunks stdin_file [[98, 10, 10], [97, 99, 10]] = Some [97, 99, 10, 98, 10]"
    using sort_prints_sorted_lines [of "[[98, 10, 10], [97, 99, 10]]" "[[98], [], [97, 99]]"]
    by (simp add: newline_def text_of_def)
  have "concat (replicate k [98, 10]) = text_of (replicate k [98])" "length (concat (replicate k [98, 10 :: u8])) = 2 * k" for k
    by (induction k) (simp_all add: text_of_def newline_def)
  then show "sort_main read_chunks stdin_file (replicate 300 [98, 10]) = None"
    using sort_prints_sorted_lines [of "replicate 300 [98, 10]" "replicate 300 [98]"]
    by (simp add: newline_def del: replicate.simps)
qed

section \<open>Copying\<close>

text \<open>The reads of a disk file: what is asked for or what is left, and -1 at the end.\<close>

definition read_disk :: "nat \<Rightarrow> u8 list \<Rightarrow> int \<times> u8 list \<times> u8 list" where
  "read_disk n bs = (if bs = [] then (- 1, [], []) else (int (length (take n bs)), take n bs, drop n bs))"

theorem cat_copies_file: "cat_file read_disk bs = Some bs"
proof (induction bs rule: length_induct)
  case (1 bs)
  show ?case
  proof (cases "bs = []")
    case True
    then show ?thesis by (subst cat_file.simps) (simp add: read_disk_def)
  next
    case False
    with 1 have "cat_file read_disk (drop 1024 bs) = Some (drop 1024 bs)" by simp
    moreover have "take (min (length bs) 1024) bs = take 1024 bs" by (simp add: min_def)
    ultimately show ?thesis using False by (subst cat_file.simps) (simp add: read_disk_def)
  qed
qed

end
