(* ===== verification/Shell.thy ===== *)
theory Shell
  imports Userprog
begin

text \<open>
  What the shell does with a line (\<open>main\<close>, \<open>cmd_execute\<close> and \<open>execute_piped_commands\<close> of
  \<open>src/system/src/sh/sh.c\<close>), as the list of the system calls it makes. The search for a command
  (\<open>build_absolute_path\<close>) is the argument \<open>lookup\<close>; \<open>pipe\<close> and \<open>fork\<close> are taken to succeed, as
  the code does not test them. The \<open>k\<close>-th pipe has the ends \<open>Rd k\<close> and \<open>Wr k\<close>.
\<close>

section \<open>Pipelines\<close>

datatype pipe_end = Rd nat | Wr nat

datatype child_op = Redirect nat pipe_end | Close_end pipe_end | Execve "u8 list" "u8 list option list"

datatype shell_op = Make_pipe nat | Fork "child_op list" | Close pipe_end | Set_fg_child | Set_fg_self | Wait_all | Exit_shell int

definition bar :: u8 where "bar = 124"

text \<open>The words of a segment and the file of its command. A segment without words uses a null pointer.\<close>

definition prepare :: "(u8 list \<Rightarrow> u8 list option option) \<Rightarrow> u8 list \<Rightarrow> (u8 list option \<times> u8 list option list) option" where
  "prepare lookup seg =
     do { (_, argv) \<leftarrow> cmd_parse seg space;
          arg0 \<leftarrow> rd argv 0;
          target \<leftarrow> arg0;
          path \<leftarrow> lookup target;
          Some (path, argv) }"

definition last_stage :: "(u8 list \<Rightarrow> u8 list option option) \<Rightarrow> u8 list \<Rightarrow> nat option \<Rightarrow> nat \<Rightarrow> shell_op list option" where
  "last_stage lookup each_cmd prev cmd_index =
     do { kassert (0 < cmd_index);
          (path, argv) \<leftarrow> prepare lookup each_cmd;
          case path of
            None \<Rightarrow> Some [Exit_shell (- 1)]
          | Some cleared_path \<Rightarrow>
              do { q \<leftarrow> prev;
                   Some [Fork [Redirect 0 (Rd q), Close_end (Rd q), Close_end (Wr q), Execve cleared_path argv],
                         Close (Rd q), Close (Wr q), Wait_all, Set_fg_self] } }"

text \<open>\<open>prev\<close> and \<open>nxt\<close> are the pipes in the two arrays, which change places in every round.\<close>

function piped_loop :: "(u8 list \<Rightarrow> u8 list option option) \<Rightarrow> u8 list \<Rightarrow> nat option \<Rightarrow> nat option \<Rightarrow> nat \<Rightarrow> shell_op list option" where
  "piped_loop lookup each_cmd prev nxt cmd_index =
     (let seg = takeWhile (\<lambda>c. c \<noteq> bar) each_cmd in
      if length seg = length each_cmd then last_stage lookup each_cmd prev cmd_index
      else
        do { (path, argv) \<leftarrow> prepare lookup seg;
             case path of
               None \<Rightarrow> Some [Exit_shell (- 1)]
             | Some cleared_path \<Rightarrow>
                 let p = cmd_index in
                 do { from_prev \<leftarrow> (if 0 < cmd_index
                        then do { q \<leftarrow> prev; Some ([Redirect 0 (Rd q), Close_end (Rd q), Close_end (Wr q)], [Close (Rd q), Close (Wr q)]) }
                        else Some ([], [Set_fg_child]));
                      ops \<leftarrow> piped_loop lookup (drop (length seg + 1) each_cmd) (Some p) prev (cmd_index + 1);
                      Some (Make_pipe p #
                            Fork (fst from_prev @ [Redirect 1 (Wr p), Close_end (Rd p), Close_end (Wr p), Execve cleared_path argv]) #
                            snd from_prev @ ops) } })"
  by pat_completeness auto
termination
proof (relation "measure (\<lambda>(lookup, each_cmd, prev, nxt, cmd_index). length each_cmd)", simp, goal_cases)
  case (1 lookup each_cmd)
  then have "each_cmd \<noteq> []" by auto
  then show ?case by simp
qed

declare piped_loop.simps [simp del]

definition execute_piped_commands :: "(u8 list \<Rightarrow> u8 list option option) \<Rightarrow> u8 list \<Rightarrow> shell_op list option" where
  "execute_piped_commands lookup command_line = piped_loop lookup command_line None None 0"

section \<open>One line\<close>

datatype shell_action =
    Again
  | Clear_screen
  | Too_many
  | Builtin_cd "u8 list option list"
  | Builtin_ps
  | Builtin_help
  | Not_found "u8 list"
  | Run "u8 list" "u8 list option list"
  | Piped "shell_op list"

definition word :: "string \<Rightarrow> u8 list" where
  "word s = map (\<lambda>c. of_nat (of_char c)) s"

text \<open>\<open>ps\<close> and \<open>help\<close> look at nothing but the number of arguments; an external command is searched for in the child.\<close>

definition cmd_execute :: "(u8 list \<Rightarrow> u8 list option option) \<Rightarrow> u8 list option list \<Rightarrow> shell_action option" where
  "cmd_execute lookup argv =
     do { arg0 \<leftarrow> rd argv 0;
          cmd \<leftarrow> arg0;
          if cmd = word ''cd'' then Some (Builtin_cd argv)
          else if cmd = word ''ps'' then Some Builtin_ps
          else if cmd = word ''help'' then Some Builtin_help
          else do { path \<leftarrow> lookup cmd;
                    Some (case path of None \<Rightarrow> Not_found cmd | Some final_path \<Rightarrow> Run final_path argv) } }"

definition SH_CTRL_L :: u8 where "SH_CTRL_L = 0x0c"

text \<open>The body of the loop of \<open>main\<close>, for a line of \<open>r\<close> bytes.\<close>

definition shell_line :: "(u8 list \<Rightarrow> u8 list option option) \<Rightarrow> nat \<Rightarrow> u8 list \<Rightarrow> shell_action option" where
  "shell_line lookup r buf =
     (let cmd_line = takeWhile (\<lambda>c. c \<noteq> 0) buf in
      if r = 1 \<and> cmd_line = [SH_CTRL_L] then Some Clear_screen
      else if cmd_line = [] then Some Again
      else if bar \<in> set cmd_line then do { ops \<leftarrow> execute_piped_commands lookup cmd_line; Some (Piped ops) }
      else do { (argc, argv) \<leftarrow> cmd_parse cmd_line space;
                if argc = - 1 then Some Too_many else cmd_execute lookup argv })"

section \<open>What the calls do\<close>

text \<open>
  A process has its standard input and output, \<open>None\<close> for the terminal, and further descriptors of
  pipe ends. A redirection or close of an end that is not open has no outcome. A child ends with the
  program it runs.
\<close>

record proc_fds =
  std_in :: "pipe_end option"
  std_out :: "pipe_end option"
  open_ends :: "pipe_end set"

fun run_child :: "child_op list \<Rightarrow> proc_fds \<Rightarrow> (proc_fds \<times> u8 list \<times> u8 list option list) option" where
  "run_child [] p = None"
| "run_child (Redirect fd e # ops) p =
     (if e \<in> open_ends p then run_child ops (if fd = 0 then p\<lparr>std_in := Some e\<rparr> else p\<lparr>std_out := Some e\<rparr>) else None)"
| "run_child (Close_end e # ops) p =
     (if e \<in> open_ends p then run_child ops (p\<lparr>open_ends := open_ends p - {e}\<rparr>) else None)"
| "run_child (Execve path argv # ops) p = Some (p, path, argv)"

text \<open>The programs that are started, and the ends the shell has left.\<close>

fun run_shell :: "shell_op list \<Rightarrow> pipe_end set \<Rightarrow> ((proc_fds \<times> u8 list \<times> u8 list option list) list \<times> pipe_end set) option" where
  "run_shell [] ends = Some ([], ends)"
| "run_shell (Make_pipe k # ops) ends = run_shell ops (ends \<union> {Rd k, Wr k})"
| "run_shell (Fork child # ops) ends =
     do { c \<leftarrow> run_child child \<lparr>std_in = None, std_out = None, open_ends = ends\<rparr>;
          (cs, ends) \<leftarrow> run_shell ops ends;
          Some (c # cs, ends) }"
| "run_shell (Close e # ops) ends = (if e \<in> ends then run_shell ops (ends - {e}) else None)"
| "run_shell (other # ops) ends = run_shell ops ends"

section \<open>Properties\<close>

fun join_bar :: "u8 list list \<Rightarrow> u8 list" where
  "join_bar [] = []"
| "join_bar [seg] = seg"
| "join_bar (seg # segs) = seg @ bar # join_bar segs"

text \<open>The wiring that is wanted: stage \<open>i\<close> reads what the stage before it writes.\<close>

fun stages :: "(u8 list \<Rightarrow> u8 list \<times> u8 list option list) \<Rightarrow> pipe_end option \<Rightarrow> nat \<Rightarrow> u8 list list
    \<Rightarrow> (proc_fds \<times> u8 list \<times> u8 list option list) list" where
  "stages prog inp i [] = []"
| "stages prog inp i [seg] = [(\<lparr>std_in = inp, std_out = None, open_ends = {}\<rparr>, prog seg)]"
| "stages prog inp i (seg # segs) =
     (\<lparr>std_in = inp, std_out = Some (Wr i), open_ends = {}\<rparr>, prog seg) # stages prog (Some (Rd i)) (i + 1) segs"

definition found :: "(u8 list \<Rightarrow> u8 list option option) \<Rightarrow> (u8 list \<Rightarrow> u8 list \<times> u8 list option list) \<Rightarrow> u8 list \<Rightarrow> bool" where
  "found lookup prog seg \<longleftrightarrow> bar \<notin> set seg \<and> prepare lookup seg = Some (Some (fst (prog seg)), snd (prog seg))"

lemma take_seg: "bar \<notin> set seg \<Longrightarrow> takeWhile (\<lambda>c. c \<noteq> bar) (seg @ bar # xs) = seg"
  by (induction seg) auto

lemma take_all: "bar \<notin> set seg \<Longrightarrow> takeWhile (\<lambda>c. c \<noteq> bar) seg = seg"
  by (induction seg) auto

lemma piped_loop_more:
  assumes "found lookup prog seg"
  shows "piped_loop lookup (seg @ bar # xs) prev nxt i =
    do { from_prev \<leftarrow> (if 0 < i
           then do { q \<leftarrow> prev; Some ([Redirect 0 (Rd q), Close_end (Rd q), Close_end (Wr q)], [Close (Rd q), Close (Wr q)]) }
           else Some ([], [Set_fg_child]));
         ops \<leftarrow> piped_loop lookup xs (Some i) prev (i + 1);
         Some (Make_pipe i #
               Fork (fst from_prev @ [Redirect 1 (Wr i), Close_end (Rd i), Close_end (Wr i), Execve (fst (prog seg)) (snd (prog seg))]) #
               snd from_prev @ ops) }"
  using assms
  by (subst piped_loop.simps) (simp add: take_seg found_def Let_def cong: if_cong)

lemma piped_loop_last:
  assumes "found lookup prog seg" "0 < i"
  shows "piped_loop lookup seg (Some q) nxt i =
    Some [Fork [Redirect 0 (Rd q), Close_end (Rd q), Close_end (Wr q), Execve (fst (prog seg)) (snd (prog seg))],
          Close (Rd q), Close (Wr q), Wait_all, Set_fg_self]"
  using assms
  by (subst piped_loop.simps) (simp add: take_all found_def last_stage_def kassert_def)

lemma piped_loop_wires:
  assumes "segs \<noteq> []" "\<forall>seg\<in>set segs. found lookup prog seg" "0 < i" "q < i"
  shows "\<exists>ops. piped_loop lookup (join_bar segs) (Some q) nxt i = Some ops \<and>
    run_shell ops {Rd q, Wr q} = Some (stages prog (Some (Rd q)) i segs, {})"
  using assms
proof (induction segs arbitrary: q nxt i rule: join_bar.induct)
  case (2 seg)
  then show ?case by (simp add: piped_loop_last)
next
  case (3 seg seg' segs)
  then obtain ops where ops: "piped_loop lookup (join_bar (seg' # segs)) (Some i) (Some q) (i + 1) = Some ops"
    "run_shell ops {Rd i, Wr i} = Some (stages prog (Some (Rd i)) (i + 1) (seg' # segs), {})"
    by (metis less_add_one list.distinct(1) list.set_intros(2) trans_less_add1 zero_less_one add_gr_0)
  have ends: "{Rd q, Wr q, Rd i, Wr i} - {Rd q} - {Wr q} = {Rd i, Wr i}" "{Rd q, Wr q, Rd i, Wr i} - {Rd q} - {Wr q} - {Rd i} - {Wr i} = {}"
    using 3(5) by auto
  have "found lookup prog seg" using 3(3) by simp
  note more = piped_loop_more [OF this]
  from 3(4,5) ops ends show ?case by (auto simp: more insert_commute)
qed simp

text \<open>
  Property C6. A pipeline of any length is wired as it is written: every command reads what the one
  before it writes, the first reads and the last writes the terminal, no program keeps another
  pipe end, and the shell has closed all of them.
\<close>

theorem pipeline_wiring:
  assumes "2 \<le> length segs" "\<forall>seg\<in>set segs. found lookup prog seg"
  shows "\<exists>ops. execute_piped_commands lookup (join_bar segs) = Some ops \<and>
    run_shell ops {} = Some (stages prog None 0 segs, {})"
proof -
  from assms(1) obtain seg seg' rest where segs: "segs = seg # seg' # rest"
    by (cases segs; cases "tl segs") auto
  with assms(2) piped_loop_wires [of "seg' # rest" lookup prog 1 0 None] obtain ops where
    "piped_loop lookup (join_bar (seg' # rest)) (Some 0) None 1 = Some ops"
    "run_shell ops {Rd 0, Wr 0} = Some (stages prog (Some (Rd 0)) 1 (seg' # rest), {})" by auto
  moreover have "found lookup prog seg" using assms(2) segs by simp
  note more = piped_loop_more [OF this]
  moreover have "{Rd 0, Wr 0} - {Rd 0} - {Wr 0} = {}" by auto
  ultimately show ?thesis
    by (auto simp: execute_piped_commands_def more segs insert_commute)
qed

text \<open>Three commands of one letter; the file of a command is its own name.\<close>

definition demo_prog :: "u8 list \<Rightarrow> u8 list \<times> u8 list option list" where
  "demo_prog seg = (seg, Some seg # replicate 15 None)"

lemma replicate_16: "replicate 16 x = x # replicate 15 x"
  by (simp add: numeral_eq_Suc)

lemma demo_found: "c \<in> {97, 98, 99} \<Longrightarrow> found (\<lambda>t. Some (Some t)) demo_prog [c]"
  by (auto simp: found_def prepare_def cmd_parse_def cmd_words.simps [of _ "[_]"] cmd_words.simps [of _ "[]"] SH_MAX_ARG_NR_def
      demo_prog_def bar_def space_def wr_def rd_def Let_def replicate_16)

theorem pipeline_wiring_witness:
  "\<exists>ops. execute_piped_commands (\<lambda>t. Some (Some t)) [97, 124, 98, 124, 99] = Some ops \<and>
     map_option (map (\<lambda>(p, prog). (std_in p, std_out p))) (map_option fst (run_shell ops {})) =
       Some [(None, Some (Wr 0)), (Some (Rd 0), Some (Wr 1)), (Some (Rd 1), None)]"
proof -
  have "\<forall>seg\<in>set [[97], [98], [99]]. found (\<lambda>t. Some (Some t)) demo_prog seg" using demo_found by simp
  from pipeline_wiring [OF _ this] show ?thesis by (auto simp: bar_def)
qed

text \<open>
  A command that is not found makes the shell itself exit: the whole pipeline runs in the shell,
  and its calls end with \<open>Exit_shell\<close>.
\<close>

theorem unknown_command_ends_shell:
  assumes "bar \<notin> set seg" "prepare lookup seg = Some (None, argv)"
  shows "execute_piped_commands lookup (seg @ bar # xs) = Some [Exit_shell (- 1)]"
  using assms by (simp add: execute_piped_commands_def piped_loop.simps [of _ "seg @ bar # xs"] take_seg Let_def)

text \<open>
  A line without a bar is run as the words it has, by the first of them. A line of
  nothing but spaces has no outcome: the shell compares a null pointer with the names of its own
  commands. Nor has a line of more than 16 words.
\<close>

theorem shell_line_runs_words:
  assumes "0 \<notin> set line" "bar \<notin> set line" "line \<noteq> []" "line \<noteq> [SH_CTRL_L]"
  shows "shell_line lookup (length line) line =
    (case words space line of
       [] \<Rightarrow> None
     | w # ws \<Rightarrow> if length ws < 16 then cmd_execute lookup (Some w # map Some ws @ replicate (15 - length ws) None) else None)"
proof -
  have "takeWhile (\<lambda>c. c \<noteq> 0) line = line" using assms(1) by (induction line) auto
  then have "shell_line lookup (length line) line =
      do { (argc, argv) \<leftarrow> cmd_parse line space; if argc = - 1 then Some Too_many else cmd_execute lookup argv }"
    using assms(2-) by (simp only: shell_line_def Let_def) simp
  also have "cmd_parse line space =
      (if length (words space line) \<le> 16
       then Some (int (length (words space line)), map Some (words space line) @ replicate (16 - length (words space line)) None)
       else None)"
    using cmd_words_ok [of "replicate 16 None" 0 space line] by (simp add: cmd_parse_def SH_MAX_ARG_NR_def)
  finally show ?thesis
    by (cases "words space line") (auto simp: cmd_execute_def rd_def replicate_16)
qed

theorem shell_line_runs_words_witness:
  "shell_line (\<lambda>t. None) 3 [32, 32, 32] = None \<and> shell_line (\<lambda>t. None) 2 (word ''cd'') = Some (Builtin_cd (Some (word ''cd'') # replicate 15 None))"
proof -
  have "words space [32, 32, 32] = []" "words space (word ''cd'') = [word ''cd'']"
    by (simp_all add: words_def word_def space_def)
  with shell_line_runs_words [of "[32, 32, 32]" "\<lambda>t. None"] shell_line_runs_words [of "word ''cd''" "\<lambda>t. None"] show ?thesis
    by (simp add: bar_def SH_CTRL_L_def cmd_execute_def rd_def word_def flip: numeral_2_eq_2 numeral_3_eq_3)
qed

end
