(* ===== verification/Stdstreams.thy ===== *)
theory Stdstreams
  imports Fs Tty
begin

unbundle bit_operations_syntax

text \<open>
  The three standard entries of the file table, \<open>tty_init\<close> of \<open>src/src/device/tty.c\<close>, and what the file
  system calls do on them. \<open>tty\<close> is the address of the terminal, whose own reads and writes (theory
  \<open>Tty\<close>) come in through the parameter \<open>dev\<close>.
\<close>

definition std_file :: "nat \<Rightarrow> fops \<Rightarrow> nat \<Rightarrow> nat \<Rightarrow> fs \<Rightarrow> fs option" where
  "std_file tty ops flag fi s =
     upd_file s fi (\<lambda>x. (init_file_struct x)\<lparr>count := 1, op := ops, fd_flag := flag, private_data := tty\<rparr>)"

definition tty_init :: "nat \<Rightarrow> fs \<Rightarrow> fs option" where
  "tty_init tty s =
     do { s \<leftarrow> std_file tty Tty_input_ops O_RDONLY 0 s;
          s \<leftarrow> std_file tty Tty_output_ops O_WRONLY 1 s;
          std_file tty Tty_output_ops O_WRONLY 2 s }"

text \<open>The descriptors of a new thread.\<close>

definition std_fds :: "int list" where
  "std_fds = [0, 1, 2, -1, -1, -1, -1, -1]"

lemma tty_init_files:
  assumes "tty_init tty s = Some s'"
  shows "3 \<le> length (file_table s') \<and> fd_table s' = fd_table s \<and>
    op (file_table s' ! 0) = Tty_input_ops \<and> fd_flag (file_table s' ! 0) = O_RDONLY \<and>
    (\<forall>i\<in>{1, 2}. op (file_table s' ! i) = Tty_output_ops \<and> fd_flag (file_table s' ! i) = O_WRONLY) \<and>
    (\<forall>i\<in>{0, 1, 2}. fd_inode (file_table s' ! i) = fd_inode (file_table s ! i))"
  using assms
  by (auto simp: tty_init_def std_file_def upd_file_def outcome_simps init_file_struct_def nth_list_update)

text \<open>
  With the descriptors of a new thread, descriptor 0 reads from the terminal and 1 and 2 write
  to it; writing to 0 and reading from 1 or 2 fail and change nothing.
\<close>

theorem std_streams:
  assumes "tty_init tty s = Some s'" "fd_table s = std_fds" "fd = 1 \<or> fd = 2"
  shows "sys_read dev s' 0 n = d_read dev Tty_input_ops s' 0 n \<and>
    sys_write dev s' 0 bs = Some (- 1, s') \<and>
    sys_write dev s' fd bs = d_write dev Tty_output_ops s' (nat fd) bs \<and>
    sys_read dev s' fd n = Some (- 1, [], s')"
proof -
  note f = tty_init_files [OF assms(1)]
  obtain k where k: "nat fd = k" "k \<in> {1, 2}" "0 \<le> fd" "k < 3" using assms(3) by auto
  then have "fd_table s' ! k = int k" using f assms(2) by (auto simp: std_fds_def One_nat_def numeral_2_eq_2)
  then have g: "fd_local2global s' 0 = Some 0" "fd_local2global s' fd = Some k"
    using f assms(2) k by (auto simp: fd_local2global_def std_fds_def kassert_def rd_def MAX_FILE_OPEN_def)
  have ops: "rd (file_table s') 0 = Some (file_table s' ! 0)" "rd (file_table s') k = Some (file_table s' ! k)"
    using f k by (auto simp: rd_def)
  have kinds: "op (file_table s' ! k) = Tty_output_ops" "fd_flag (file_table s' ! k) = O_WRONLY"
    "op (file_table s' ! 0) = Tty_input_ops" "fd_flag (file_table s' ! 0) = O_RDONLY"
    using f k(2) by blast+
  show ?thesis
    using k by (simp add: sys_read_def sys_write_def op_read_def op_write_def g ops kinds kassert_def O_RDONLY_def O_WRONLY_def O_RDWR_def)
qed

definition demo_slot :: kfile where
  "demo_slot = \<lparr>fd_pos = 0, fd_flag = 0, fd_inode = 0, count = 0, op = Null_ops, private_data = 0\<rparr>"

definition demo_std_fs :: fs where
  "demo_std_fs = demo_fs\<lparr>file_table := replicate 32 demo_slot, fd_table := std_fds\<rparr>"

definition demo_tty_dev :: dev_ops where
  "demo_tty_dev = \<lparr>d_read = (\<lambda>k s fi n. Some (0, [], s)), d_write = (\<lambda>k s fi bs. Some (int (length bs), s)),
     d_release = (\<lambda>k s fi. Some (0, s))\<rparr>"

lemma demo_tty_init: "\<exists>s'. tty_init 5 demo_std_fs = Some s'"
  by (simp add: tty_init_def std_file_def upd_file_def demo_std_fs_def rd_def wr_def)

theorem std_streams_witness:
  "\<exists>s'. tty_init 5 demo_std_fs = Some s' \<and> sys_write demo_tty_dev s' 0 [65] = Some (- 1, s') \<and>
     sys_write demo_tty_dev s' 2 [65] = Some (1, s')"
proof -
  obtain s' where s': "tty_init 5 demo_std_fs = Some s'" using demo_tty_init by blast
  have "fd_table demo_std_fs = std_fds" by (simp add: demo_std_fs_def)
  from std_streams [OF s' this, of 2 demo_tty_dev 0 "[65]"] s' show ?thesis
    by (simp add: demo_tty_dev_def)
qed

text \<open>A seek on one of them stops the kernel: the terminal has no inode.\<close>

theorem std_seek_panics:
  assumes "tty_init tty s = Some s'" "fd_table s = std_fds" "fd_inode (file_table s ! nat fd) = 0" "fd \<in> {0, 1, 2}"
  shows "sys_lseek s' fd off whence = None"
proof -
  note f = tty_init_files [OF assms(1)]
  obtain k where k: "nat fd = k" "k \<in> {0, 1, 2}" "0 \<le> fd" "k < 3" using assms(4) by auto
  then have "fd_table s' ! k = int k" using f assms(2) by (auto simp: std_fds_def One_nat_def numeral_2_eq_2)
  then have "fd_local2global s' fd = Some k"
    using f assms(2) k by (auto simp: fd_local2global_def std_fds_def kassert_def rd_def MAX_FILE_OPEN_def)
  moreover have "fd_inode (file_table s' ! k) = 0" using f k assms(3) by auto
  ultimately show ?thesis
    using k f by (simp add: sys_lseek_def rd_def kassert_def)
qed

end
