(* ===== verification/Syscall.thy ===== *)
theory Syscall
  imports Prelude
begin

text \<open>
  The system call interface: the numbers of \<open>src/include/lib/user/syscall.h\<close>, the functions user programs
  call (\<open>src/src/lib/user/syscall.c\<close>), the entry of the interrupt 0x80 (\<open>syscall_handler\<close> of
  \<open>src/src/kernel/kernel.S\<close>) and the table of \<open>src/src/userprog/syscall-init.c\<close>. A kernel function is
  named by a string: what it does is in the theory of its component.
\<close>

section \<open>The numbers\<close>

datatype SYSCALL_NR =
    SYS_GETPID | SYS_WRITE | SYS_MALLOC | SYS_FREE | SYS_FORK | SYS_READ
  | SYS_PUTCHAR | SYS_CLEAR | SYS_GETCWD | SYS_OPEN | SYS_CLOSE | SYS_LSEEK
  | SYS_UNLINK | SYS_MKDIR | SYS_OPENDIR | SYS_CLOSEDIR | SYS_CHDIR | SYS_RMDIR
  | SYS_READDIR | SYS_REWINDDIR | SYS_STAT | SYS_PS | SYS_EXECVE | SYS_EXIT
  | SYS_WAIT | SYS_PIPE | SYS_FD_REDIRECT | SYS_MSLEEP | SYS_YIELD | SYS_SIGNAL
  | SYS_KILL | SYS_SIGRETURN | SYS_SET_FG_PID

fun sysno :: "SYSCALL_NR \<Rightarrow> nat" where
  "sysno SYS_GETPID = 0"
| "sysno SYS_WRITE = 1"
| "sysno SYS_MALLOC = 2"
| "sysno SYS_FREE = 3"
| "sysno SYS_FORK = 4"
| "sysno SYS_READ = 5"
| "sysno SYS_PUTCHAR = 6"
| "sysno SYS_CLEAR = 7"
| "sysno SYS_GETCWD = 8"
| "sysno SYS_OPEN = 9"
| "sysno SYS_CLOSE = 10"
| "sysno SYS_LSEEK = 11"
| "sysno SYS_UNLINK = 12"
| "sysno SYS_MKDIR = 13"
| "sysno SYS_OPENDIR = 14"
| "sysno SYS_CLOSEDIR = 15"
| "sysno SYS_CHDIR = 16"
| "sysno SYS_RMDIR = 17"
| "sysno SYS_READDIR = 18"
| "sysno SYS_REWINDDIR = 19"
| "sysno SYS_STAT = 20"
| "sysno SYS_PS = 21"
| "sysno SYS_EXECVE = 22"
| "sysno SYS_EXIT = 23"
| "sysno SYS_WAIT = 24"
| "sysno SYS_PIPE = 25"
| "sysno SYS_FD_REDIRECT = 26"
| "sysno SYS_MSLEEP = 27"
| "sysno SYS_YIELD = 28"
| "sysno SYS_SIGNAL = 29"
| "sysno SYS_KILL = 30"
| "sysno SYS_SIGRETURN = 31"
| "sysno SYS_SET_FG_PID = 32"

section \<open>The calls of a user program\<close>

record regs =
  eax :: u32
  ebx :: u32
  ecx :: u32
  edx :: u32

text \<open>
  The registers a call does not set keep what they had: that is the argument \<open>r\<close>. Arguments
  narrower than a register are extended by their type, a process number and a character with
  their sign; the kernel functions do not read the bits above.
\<close>

definition syscall0 :: "regs \<Rightarrow> SYSCALL_NR \<Rightarrow> regs" where
  "syscall0 r number = r\<lparr>eax := of_nat (sysno number)\<rparr>"

definition syscall1 :: "regs \<Rightarrow> SYSCALL_NR \<Rightarrow> u32 \<Rightarrow> regs" where
  "syscall1 r number arg1 = r\<lparr>eax := of_nat (sysno number), ebx := arg1\<rparr>"

definition syscall2 :: "regs \<Rightarrow> SYSCALL_NR \<Rightarrow> u32 \<Rightarrow> u32 \<Rightarrow> regs" where
  "syscall2 r number arg1 arg2 = r\<lparr>eax := of_nat (sysno number), ebx := arg1, ecx := arg2\<rparr>"

definition syscall3 :: "regs \<Rightarrow> SYSCALL_NR \<Rightarrow> u32 \<Rightarrow> u32 \<Rightarrow> u32 \<Rightarrow> regs" where
  "syscall3 r number arg1 arg2 arg3 = r\<lparr>eax := of_nat (sysno number), ebx := arg1, ecx := arg2, edx := arg3\<rparr>"

text \<open>The \<open>envp\<close> of \<open>Execv\<close> is the address of its local array that holds only a null pointer.\<close>

datatype user_call =
    Getpid
  | Write u32 u32 u32
  | Malloc u32
  | Free u32
  | Fork
  | Read u32 u32 u32
  | Putchar u8
  | Clear
  | Getcwd u32 u32
  | Open u32 u8
  | Close u32
  | Lseek u32 u32 u8
  | Unlink u32
  | Mkdir u32
  | Opendir u32
  | Closedir u32
  | Rmdir u32
  | Readdir u32
  | Rewinddir u32
  | Stat u32 u32
  | Chdir u32
  | Ps
  | Execv u32 u32 u32
  | Execve u32 u32 u32
  | Exit u32
  | Wait u32
  | Pipe u32
  | Fd_redirect u32 u32
  | Msleep u32
  | Yield
  | Signal u32 u32
  | Kill u16 u32
  | Sigreturn
  | Set_fg_pid u16

fun user_stub :: "regs \<Rightarrow> user_call \<Rightarrow> regs" where
  "user_stub r Getpid = syscall0 r SYS_GETPID"
| "user_stub r (Write fd buf count) = syscall3 r SYS_WRITE fd buf count"
| "user_stub r (Malloc sz) = syscall1 r SYS_MALLOC sz"
| "user_stub r (Free ptr) = syscall1 r SYS_FREE ptr"
| "user_stub r Fork = syscall0 r SYS_FORK"
| "user_stub r (Read fd buf count) = syscall3 r SYS_READ fd buf count"
| "user_stub r (Putchar c) = syscall1 r SYS_PUTCHAR (scast c)"
| "user_stub r Clear = syscall0 r SYS_CLEAR"
| "user_stub r (Getcwd buf sz) = syscall2 r SYS_GETCWD buf sz"
| "user_stub r (Open path flag) = syscall2 r SYS_OPEN path (ucast flag)"
| "user_stub r (Close fd) = syscall1 r SYS_CLOSE fd"
| "user_stub r (Lseek fd off whence) = syscall3 r SYS_LSEEK fd off (ucast whence)"
| "user_stub r (Unlink path) = syscall1 r SYS_UNLINK path"
| "user_stub r (Mkdir path) = syscall1 r SYS_MKDIR path"
| "user_stub r (Opendir path) = syscall1 r SYS_OPENDIR path"
| "user_stub r (Closedir dr) = syscall1 r SYS_CLOSEDIR dr"
| "user_stub r (Rmdir path) = syscall1 r SYS_RMDIR path"
| "user_stub r (Readdir dr) = syscall1 r SYS_READDIR dr"
| "user_stub r (Rewinddir dr) = syscall1 r SYS_REWINDDIR dr"
| "user_stub r (Stat path buf) = syscall2 r SYS_STAT path buf"
| "user_stub r (Chdir path) = syscall1 r SYS_CHDIR path"
| "user_stub r Ps = syscall0 r SYS_PS"
| "user_stub r (Execv path argv envp) = syscall3 r SYS_EXECVE path argv envp"
| "user_stub r (Execve path argv envp) = syscall3 r SYS_EXECVE path argv envp"
| "user_stub r (Exit status) = syscall1 r SYS_EXIT status"
| "user_stub r (Wait status) = syscall1 r SYS_WAIT status"
| "user_stub r (Pipe pipefd) = syscall1 r SYS_PIPE pipefd"
| "user_stub r (Fd_redirect old new) = syscall2 r SYS_FD_REDIRECT old new"
| "user_stub r (Msleep millis) = syscall1 r SYS_MSLEEP millis"
| "user_stub r Yield = syscall0 r SYS_YIELD"
| "user_stub r (Signal signum handler) = syscall2 r SYS_SIGNAL signum handler"
| "user_stub r (Kill pid signum) = syscall2 r SYS_KILL (scast pid) signum"
| "user_stub r Sigreturn = syscall0 r SYS_SIGRETURN"
| "user_stub r (Set_fg_pid pid) = syscall1 r SYS_SET_FG_PID (scast pid)"

section \<open>The table and the entry\<close>

definition syscall_nr :: nat where "syscall_nr = 64"

definition set_syscall :: "SYSCALL_NR \<Rightarrow> string \<Rightarrow> string option list \<Rightarrow> string option list" where
  "set_syscall number f table = table[sysno number := Some f]"

definition syscall_init :: "string option list" where
  "syscall_init = fold (\<lambda>(number, f). set_syscall number f)
     [(SYS_GETPID, ''sys_getpid''),
      (SYS_WRITE, ''sys_write''),
      (SYS_MALLOC, ''sys_malloc''),
      (SYS_FREE, ''sys_free''),
      (SYS_FORK, ''sys_fork''),
      (SYS_READ, ''sys_read''),
      (SYS_PUTCHAR, ''sys_putchar''),
      (SYS_CLEAR, ''cls_screen''),
      (SYS_GETCWD, ''sys_getcwd''),
      (SYS_OPEN, ''sys_open''),
      (SYS_CLOSE, ''sys_close''),
      (SYS_LSEEK, ''sys_lseek''),
      (SYS_UNLINK, ''sys_unlink''),
      (SYS_MKDIR, ''sys_mkdir''),
      (SYS_OPENDIR, ''sys_opendir''),
      (SYS_CLOSEDIR, ''sys_closedir''),
      (SYS_CHDIR, ''sys_chdir''),
      (SYS_RMDIR, ''sys_rmdir''),
      (SYS_READDIR, ''sys_readdir''),
      (SYS_REWINDDIR, ''sys_rewinddir''),
      (SYS_STAT, ''sys_stat''),
      (SYS_PS, ''sys_ps''),
      (SYS_EXECVE, ''sys_execve''),
      (SYS_EXIT, ''sys_exit''),
      (SYS_WAIT, ''sys_wait''),
      (SYS_PIPE, ''sys_pipe''),
      (SYS_FD_REDIRECT, ''sys_fd_redirect''),
      (SYS_MSLEEP, ''sys_msleep''),
      (SYS_YIELD, ''sys_yield''),
      (SYS_SIGNAL, ''sys_signal''),
      (SYS_KILL, ''sys_kill''),
      (SYS_SIGRETURN, ''sys_sigreturn''),
      (SYS_SET_FG_PID, ''sys_set_fg_pid'')]
     (replicate syscall_nr None)"

text \<open>
  The function called and what is pushed for it, the third argument first. The number is not
  tested: outside the table, or at an entry that was never set, there is no outcome. The value
  the function returns goes to \<open>eax\<close>.
\<close>

definition syscall_handler :: "string option list \<Rightarrow> regs \<Rightarrow> (string \<times> u32 list) option" where
  "syscall_handler table r =
     do { slot \<leftarrow> rd table (unat (eax r)); f \<leftarrow> slot; Some (f, [ebx r, ecx r, edx r]) }"

definition syscall_return :: "regs \<Rightarrow> u32 \<Rightarrow> regs" where
  "syscall_return r retval = r\<lparr>eax := retval\<rparr>"

section \<open>The names agree\<close>

text \<open>The name of a function of the library, its arguments as the kernel is to see them.\<close>

fun lib_name :: "user_call \<Rightarrow> string" where
  "lib_name Getpid = ''getpid''"
| "lib_name (Write fd buf count) = ''write''"
| "lib_name (Malloc sz) = ''malloc''"
| "lib_name (Free ptr) = ''free''"
| "lib_name Fork = ''fork''"
| "lib_name (Read fd buf count) = ''read''"
| "lib_name (Putchar c) = ''putchar''"
| "lib_name Clear = ''clear''"
| "lib_name (Getcwd buf sz) = ''getcwd''"
| "lib_name (Open path flag) = ''open''"
| "lib_name (Close fd) = ''close''"
| "lib_name (Lseek fd off whence) = ''lseek''"
| "lib_name (Unlink path) = ''unlink''"
| "lib_name (Mkdir path) = ''mkdir''"
| "lib_name (Opendir path) = ''opendir''"
| "lib_name (Closedir dr) = ''closedir''"
| "lib_name (Rmdir path) = ''rmdir''"
| "lib_name (Readdir dr) = ''readdir''"
| "lib_name (Rewinddir dr) = ''rewinddir''"
| "lib_name (Stat path buf) = ''stat''"
| "lib_name (Chdir path) = ''chdir''"
| "lib_name Ps = ''ps''"
| "lib_name (Execv path argv envp) = ''execve''"
| "lib_name (Execve path argv envp) = ''execve''"
| "lib_name (Exit status) = ''exit''"
| "lib_name (Wait status) = ''wait''"
| "lib_name (Pipe pipefd) = ''pipe''"
| "lib_name (Fd_redirect old new) = ''fd_redirect''"
| "lib_name (Msleep millis) = ''msleep''"
| "lib_name Yield = ''yield''"
| "lib_name (Signal signum handler) = ''signal''"
| "lib_name (Kill pid signum) = ''kill''"
| "lib_name Sigreturn = ''sigreturn''"
| "lib_name (Set_fg_pid pid) = ''set_fg_pid''"

fun lib_args :: "user_call \<Rightarrow> u32 list" where
  "lib_args (Write fd buf count) = [fd, buf, count]"
| "lib_args (Malloc sz) = [sz]"
| "lib_args (Free ptr) = [ptr]"
| "lib_args (Read fd buf count) = [fd, buf, count]"
| "lib_args (Putchar c) = [scast c]"
| "lib_args (Getcwd buf sz) = [buf, sz]"
| "lib_args (Open path flag) = [path, ucast flag]"
| "lib_args (Close fd) = [fd]"
| "lib_args (Lseek fd off whence) = [fd, off, ucast whence]"
| "lib_args (Unlink path) = [path]"
| "lib_args (Mkdir path) = [path]"
| "lib_args (Opendir path) = [path]"
| "lib_args (Closedir dr) = [dr]"
| "lib_args (Rmdir path) = [path]"
| "lib_args (Readdir dr) = [dr]"
| "lib_args (Rewinddir dr) = [dr]"
| "lib_args (Stat path buf) = [path, buf]"
| "lib_args (Chdir path) = [path]"
| "lib_args (Execv path argv envp) = [path, argv, envp]"
| "lib_args (Execve path argv envp) = [path, argv, envp]"
| "lib_args (Exit status) = [status]"
| "lib_args (Wait status) = [status]"
| "lib_args (Pipe pipefd) = [pipefd]"
| "lib_args (Fd_redirect old new) = [old, new]"
| "lib_args (Msleep millis) = [millis]"
| "lib_args (Signal signum handler) = [signum, handler]"
| "lib_args (Kill pid signum) = [scast pid, signum]"
| "lib_args (Set_fg_pid pid) = [scast pid]"
| "lib_args u = []"

lemmas stubs = syscall0_def syscall1_def syscall2_def syscall3_def

lemma length_syscall_init: "length syscall_init = 64"
  by (simp add: syscall_init_def set_syscall_def syscall_nr_def)

lemma syscall_entries:
  "syscall_init ! 0 = Some ''sys_getpid''"
  "syscall_init ! 1 = Some ''sys_write''"
  "syscall_init ! 2 = Some ''sys_malloc''"
  "syscall_init ! 3 = Some ''sys_free''"
  "syscall_init ! 4 = Some ''sys_fork''"
  "syscall_init ! 5 = Some ''sys_read''"
  "syscall_init ! 6 = Some ''sys_putchar''"
  "syscall_init ! 7 = Some ''cls_screen''"
  "syscall_init ! 8 = Some ''sys_getcwd''"
  "syscall_init ! 9 = Some ''sys_open''"
  "syscall_init ! 10 = Some ''sys_close''"
  "syscall_init ! 11 = Some ''sys_lseek''"
  "syscall_init ! 12 = Some ''sys_unlink''"
  "syscall_init ! 13 = Some ''sys_mkdir''"
  "syscall_init ! 14 = Some ''sys_opendir''"
  "syscall_init ! 15 = Some ''sys_closedir''"
  "syscall_init ! 16 = Some ''sys_chdir''"
  "syscall_init ! 17 = Some ''sys_rmdir''"
  "syscall_init ! 18 = Some ''sys_readdir''"
  "syscall_init ! 19 = Some ''sys_rewinddir''"
  "syscall_init ! 20 = Some ''sys_stat''"
  "syscall_init ! 21 = Some ''sys_ps''"
  "syscall_init ! 22 = Some ''sys_execve''"
  "syscall_init ! 23 = Some ''sys_exit''"
  "syscall_init ! 24 = Some ''sys_wait''"
  "syscall_init ! 25 = Some ''sys_pipe''"
  "syscall_init ! 26 = Some ''sys_fd_redirect''"
  "syscall_init ! 27 = Some ''sys_msleep''"
  "syscall_init ! 28 = Some ''sys_yield''"
  "syscall_init ! 29 = Some ''sys_signal''"
  "syscall_init ! 30 = Some ''sys_kill''"
  "syscall_init ! 31 = Some ''sys_sigreturn''"
  "syscall_init ! 32 = Some ''sys_set_fg_pid''"
  by (simp_all add: syscall_init_def set_syscall_def syscall_nr_def One_nat_def)

lemma syscall_init_unset: "33 \<le> i \<Longrightarrow> i < 64 \<Longrightarrow> syscall_init ! i = None"
  by (simp add: syscall_init_def set_syscall_def syscall_nr_def nth_list_update)


lemma sysno_less: "sysno n < 33"
  by (cases n) simp_all

lemma handler_entry:
  "unat (eax r) = i \<Longrightarrow> i < 33 \<Longrightarrow> syscall_handler syscall_init r = map_option (\<lambda>f. (f, [ebx r, ecx r, edx r])) (syscall_init ! i)"
  by (auto simp: syscall_handler_def rd_def length_syscall_init split: bind_split)

text \<open>
  Property C30. The three tables agree: every function of the library reaches the function of the
  kernel of its own name (\<open>clear\<close> reaches \<open>cls_screen\<close>) and hands it its arguments in order.
\<close>

theorem syscall_reaches_kernel:
  "\<exists>f args. syscall_handler syscall_init (user_stub r u) = Some (f, args) \<and>
     f = (if u = Clear then ''cls_screen'' else ''sys_'' @ lib_name u) \<and> take (length (lib_args u)) args = lib_args u"
  by (cases u) (simp_all add: stubs handler_entry syscall_entries)

text \<open>The number is not tested: every other one makes the kernel call a null pointer or read past the table.\<close>

theorem syscall_number_unchecked: "syscall_handler syscall_init r = None \<longleftrightarrow> 33 \<le> unat (eax r)"
proof (cases "unat (eax r) < 33")
  case True
  then have "unat (eax r) \<in> {..<33}" by simp
  then have "syscall_init ! unat (eax r) \<noteq> None"
    by (simp add: lessThan_nat_numeral) (elim disjE; simp add: syscall_entries)
  with True show ?thesis by (auto simp: handler_entry)
next
  case False
  then show ?thesis
    by (cases "unat (eax r) < 64") (simp_all add: syscall_handler_def rd_def length_syscall_init syscall_init_unset)
qed

end
