(* ===== verification/Boot.thy ===== *)
theory Boot
  imports Fs
begin

unbundle bit_operations_syntax

text \<open>
  What the kernel does after it is initialised, \<open>main\<close> of \<open>src/src/kernel/main.c\<close>: it reads the index
  and the package \<open>src/system/pack.py\<close> wrote to the system disk and copies every file into the file
  system. The allocation of the buffers is taken to succeed (the code does not test it), and
  nothing is printed.
\<close>

definition space :: u8 where "space = 32"
definition line_feed :: u8 where "line_feed = 10"

section \<open>A line of the index\<close>

text \<open>\<open>n\<close> bytes of the path are stored in \<open>f_path\<close>; a path that does not fit in the 128 bytes has no outcome.\<close>

fun index_path :: "u8 list \<Rightarrow> nat \<Rightarrow> u8 list \<Rightarrow> (u8 list \<times> nat \<times> u8 list) option" where
  "index_path f_path n [] = Some (f_path, n, [])"
| "index_path f_path n (c # cs) =
     (if c = space then Some (f_path, n, c # cs)
      else do { f_path \<leftarrow> wr f_path n c; index_path f_path (Suc n) cs })"

text \<open>Signed 32-bit arithmetic; the bytes are not tested to be digits.\<close>

fun index_number :: "u8 \<Rightarrow> u32 \<Rightarrow> u8 list \<Rightarrow> u32 \<times> u8 list" where
  "index_number stop acc [] = (acc, [])"
| "index_number stop acc (c # cs) =
     (if c = stop then (acc, c # cs) else index_number stop (acc * 10 + (scast c - 48)) cs)"

text \<open>
  The bytes from \<open>ptr\<close> to \<open>end\<close>; the buffer of the path, and the offset, the size and the rest of
  the index, or \<open>None\<close> for the null pointer.
\<close>

definition parse_index_line :: "u8 list \<Rightarrow> u8 list \<Rightarrow> (u8 list \<times> (u32 \<times> u32 \<times> u8 list) option) option" where
  "parse_index_line ptr f_path =
     do { (f_path, n, ptr) \<leftarrow> index_path f_path 0 ptr;
          if ptr = [] then Some (f_path, None)
          else
            do { f_path \<leftarrow> wr f_path n 0;
                 let (offset, ptr) = index_number space 0 (tl ptr) in
                 if ptr = [] then Some (f_path, None)
                 else let (sz, ptr) = index_number line_feed 0 (tl ptr) in
                   if ptr = [] then Some (f_path, None)
                   else Some (f_path, Some (offset, sz, tl ptr)) } }"

lemma index_number_shorter: "index_number stop acc cs = (r, cs') \<Longrightarrow> length cs' \<le> length cs"
  by (induction stop acc cs rule: index_number.induct) (auto split: if_splits)

lemma index_path_shorter: "index_path b n cs = Some (b', n', cs') \<Longrightarrow> length cs' \<le> length cs"
  by (induction b n cs rule: index_path.induct) (auto simp: outcome_simps split: if_splits)

lemma parse_index_line_shorter:
  assumes "parse_index_line ptr b = Some (b', Some (offset, sz, ptr'))"
  shows "length ptr' < length ptr"
proof -
  from assms obtain b1 n p1 p2 p3 where
    "index_path b 0 ptr = Some (b1, n, p1)" "p1 \<noteq> []" "index_number space 0 (tl p1) = (offset, p2)" "p2 \<noteq> []"
    "index_number line_feed 0 (tl p2) = (sz, p3)" "p3 \<noteq> []" "ptr' = tl p3"
    by (auto simp: parse_index_line_def outcome_simps split: if_splits prod.splits)
  moreover from this have "length p1 \<le> length ptr" "length p2 \<le> length (tl p1)" "length p3 \<le> length (tl p2)"
    by (auto dest: index_path_shorter index_number_shorter)
  ultimately show ?thesis by (cases p1; cases p2; cases p3) simp_all
qed

section \<open>The directories above a path\<close>

definition ensure_dir :: "u8 list \<Rightarrow> fs \<Rightarrow> fs option" where
  "ensure_dir pathname s =
     do { kassert (length pathname < 512);
          (r, _, s) \<leftarrow> sys_stat s pathname;
          if r = - 1 then do { (_, s) \<leftarrow> sys_mkdir s pathname; Some s } else Some s }"

text \<open>\<open>i\<close> is \<open>t - path\<close>.\<close>

function parent_loop :: "u8 list \<Rightarrow> nat \<Rightarrow> fs \<Rightarrow> fs option" where
  "parent_loop path i s =
     (let n = length (takeWhile (\<lambda>c. c \<noteq> slash) (drop i path)) in
      if i + n < length path then
        do { s \<leftarrow> ensure_dir (take (i + n) path) s; parent_loop path (i + n + 1) s }
      else Some s)"
  by pat_completeness auto
termination by (relation "measure (\<lambda>(path, i, s). length path - i)") auto

definition make_parent_dirs :: "u8 list \<Rightarrow> fs \<Rightarrow> fs option" where
  "make_parent_dirs path s = parent_loop path 1 s"

section \<open>The files\<close>

text \<open>
  The calls for one file; the bytes \<open>buf + f_offset\<close> points to are read first, as nothing in between
  writes to the package.
\<close>

definition copy_file :: "dev_ops \<Rightarrow> u8 list \<Rightarrow> u8 list \<Rightarrow> fs \<Rightarrow> fs option" where
  "copy_file dev f_path bs s =
     do { (_, s) \<leftarrow> sys_unlink s f_path;
          s \<leftarrow> make_parent_dirs f_path s;
          (fd, s) \<leftarrow> sys_open s f_path (O_CREAT OR O_RDWR);
          kassert (0 \<le> fd);
          (n, s) \<leftarrow> sys_write dev s fd bs;
          kassert (0 \<le> n \<and> n = int (length bs));
          (_, s) \<leftarrow> sys_close dev s fd;
          Some s }"

definition install_entry :: "dev_ops \<Rightarrow> u8 list \<Rightarrow> u8 list \<Rightarrow> u32 \<Rightarrow> u32 \<Rightarrow> fs \<Rightarrow> fs option" where
  "install_entry dev pack f_path f_offset f_size s =
     do { kassert (f_path \<noteq> []);
          kassert (hd f_path = slash);
          kassert (0 \<le> sint f_offset);
          kassert (0 \<le> sint f_size);
          bs \<leftarrow> rd_block pack (unat f_offset) (unat f_size);
          copy_file dev f_path bs s }"

function install_loop :: "dev_ops \<Rightarrow> u8 list \<Rightarrow> u8 list \<Rightarrow> u8 list \<Rightarrow> fs \<Rightarrow> fs option" where
  "install_loop dev pack ptr f_path s =
     (case parse_index_line ptr f_path of
        None \<Rightarrow> None
      | Some (f_path, None) \<Rightarrow> Some s
      | Some (f_path, Some (offset, sz, ptr)) \<Rightarrow>
          do { s \<leftarrow> install_entry dev pack (takeWhile (\<lambda>c. c \<noteq> 0) f_path) offset sz s;
               install_loop dev pack ptr f_path s })"
  by pat_completeness auto
termination
  by (relation "measure (\<lambda>(dev, pack, ptr, f_path, s). length ptr)") (auto dest: parse_index_line_shorter)

text \<open>The image: the sizes in sector 500, the index from sector 600, the package from sector 700.\<close>

definition read_image :: "disk \<Rightarrow> (u8 list \<times> u8 list) option" where
  "read_image sda =
     do { buf \<leftarrow> disk_read sda 500 1;
          let index_file_size = dec32 buf; pack_file_size = dec32 (drop 4 buf) in
          do { kassert (index_file_size + 511 < 2 ^ 31 \<and> pack_file_size + 511 < 2 ^ 31);
               idx_buf \<leftarrow> disk_read sda 600 (div_round_up index_file_size 512);
               buf \<leftarrow> disk_read sda 700 (div_round_up pack_file_size 512);
               Some (take index_file_size idx_buf, buf) } }"

definition install_system :: "dev_ops \<Rightarrow> disk \<Rightarrow> u8 list \<Rightarrow> fs \<Rightarrow> fs option" where
  "install_system dev sda f_path s =
     do { (idx, pack) \<leftarrow> read_image sda; install_loop dev pack idx f_path s }"

section \<open>What \<open>pack.py\<close> writes\<close>

fun decimal :: "nat \<Rightarrow> u8 list" where
  "decimal n = (if n < 10 then [48 + of_nat n] else decimal (n div 10) @ [48 + of_nat (n mod 10)])"

declare decimal.simps [simp del]

definition index_line :: "u8 list \<Rightarrow> nat \<Rightarrow> nat \<Rightarrow> u8 list" where
  "index_line path offset sz = path @ [space] @ decimal offset @ [space] @ decimal sz @ [line_feed]"

text \<open>The index and the package for files of the given paths and contents, from an offset on.\<close>

fun index_text :: "nat \<Rightarrow> (u8 list \<times> u8 list) list \<Rightarrow> u8 list" where
  "index_text offset [] = []"
| "index_text offset ((path, bs) # files) = index_line path offset (length bs) @ index_text (offset + length bs) files"

definition package :: "(u8 list \<times> u8 list) list \<Rightarrow> u8 list" where
  "package files = concat (map snd files)"

lemma digit_byte:
  assumes "d < 10"
  shows "(48 + of_nat d :: u8) \<noteq> space" "(48 + of_nat d :: u8) \<noteq> line_feed" "(scast (48 + of_nat d :: u8) :: u32) - 48 = of_nat d"
proof -
  from assms have "d \<in> {..<10}" by simp
  then have d: "d = 9 \<or> d = 8 \<or> d = 7 \<or> d = 6 \<or> d = 5 \<or> d = 4 \<or> d = 3 \<or> d = 2 \<or> d = 1 \<or> d = 0"
    by (simp add: lessThan_nat_numeral lessThan_Suc One_nat_def)
  then show "(48 + of_nat d :: u8) \<noteq> space" "(48 + of_nat d :: u8) \<noteq> line_feed" "(scast (48 + of_nat d :: u8) :: u32) - 48 = of_nat d"
    by (auto simp: space_def line_feed_def)
qed

lemma index_number_decimal:
  "stop = space \<or> stop = line_feed \<Longrightarrow>
   index_number stop acc (decimal n @ ys) = index_number stop (acc * 10 ^ length (decimal n) + of_nat n) ys"
proof (induction n arbitrary: ys rule: decimal.induct)
  case (1 n)
  show ?case
  proof (cases "n < 10")
    case True
    with 1(2) digit_byte [OF True] show ?thesis by (auto simp: decimal.simps [of n])
  next
    case False
    have m: "n mod 10 < 10" by simp
    have "(of_nat n :: u32) = of_nat (n div 10) * 10 + of_nat (n mod 10)"
      by (metis div_mult_mod_eq of_nat_add of_nat_mult of_nat_numeral)
    with False 1 digit_byte [OF m] show ?thesis
      by (auto simp: decimal.simps [of n] algebra_simps)
  qed
qed

lemma index_path_run:
  assumes "space \<notin> set path" "length pre + length path < length b" "take (length pre) b = pre"
  shows "index_path b (length pre) (path @ space # ys) =
    Some (pre @ path @ drop (length pre + length path) b, length pre + length path, space # ys)"
  using assms
proof (induction path arbitrary: pre b)
  case Nil
  then show ?case by (metis append_Nil append_take_drop_id index_path.simps(2) list.size(3) add.right_neutral)
next
  case (Cons c path)
  let ?b = "b[length pre := c]"
  have "take (length (pre @ [c])) ?b = pre @ [c]"
    using Cons.prems by (simp add: take_Suc_conv_app_nth)
  moreover have "drop (length (pre @ [c]) + length path) ?b = drop (length pre + length (c # path)) b" by simp
  ultimately have "index_path ?b (length (pre @ [c])) (path @ space # ys) =
      Some ((pre @ [c]) @ path @ drop (length pre + length (c # path)) b, length (pre @ [c]) + length path, space # ys)"
    using Cons.IH [of "pre @ [c]" ?b] Cons.prems by simp
  moreover have "c \<noteq> space" using Cons.prems(1) by auto
  ultimately show ?case using Cons.prems by (simp add: wr_def)
qed

text \<open>
  Reading back a line of the index gives the path, as a string in the buffer, the offset
  and the size it was written with, and the rest of the index.
\<close>

theorem index_line_roundtrip:
  assumes "space \<notin> set path" "0 \<notin> set path" "length path < length b"
  shows "\<exists>b'. parse_index_line (index_line path offset sz @ rest) b = Some (b', Some (of_nat offset, of_nat sz, rest)) \<and>
    takeWhile (\<lambda>c. c \<noteq> 0) b' = path \<and> length b' = length b"
proof -
  have run: "index_path b 0 (path @ space # ys) = Some (path @ drop (length path) b, length path, space # ys)" for ys
    using index_path_run [of path "[]" b ys] assms by simp
  have "(path @ drop (length path) b)[length path := 0] = path @ 0 # drop (length path + 1) b"
    using assms(3) by (simp add: list_update_append Cons_nth_drop_Suc [symmetric] Suc_eq_plus1)
  moreover have "takeWhile (\<lambda>c. c \<noteq> 0) (path @ 0 # xs) = path" for xs
    using assms(2) by (induction path) auto
  ultimately show ?thesis
    using assms(3)
    by (auto simp: parse_index_line_def index_line_def run wr_def index_number_decimal)
qed

theorem index_line_roundtrip_witness:
  "\<exists>b'. parse_index_line (index_line [47, 97] 512 1024 @ [47]) (replicate 128 0) = Some (b', Some (512, 1024, [47]))"
  using index_line_roundtrip [of "[47, 97]" "replicate 128 0" 512 1024 "[47]"]
  by (auto simp: space_def)

section \<open>Traces of system calls\<close>

text \<open>
  What installing is to do is stated on its own as a language of traces, the calls made and what each of
  them returned; \<open>performs\<close> replays a trace on the file system.
\<close>

datatype kcall = Unlink "u8 list" | Stat "u8 list" | Mkdir "u8 list" | Open "u8 list" nat | Write int "u8 list" | Close int

fun perform :: "dev_ops \<Rightarrow> kcall \<Rightarrow> fs \<Rightarrow> (int \<times> fs) option" where
  "perform dev (Unlink path) s = sys_unlink s path"
| "perform dev (Stat path) s = map_option (\<lambda>(r, _, s). (r, s)) (sys_stat s path)"
| "perform dev (Mkdir path) s = sys_mkdir s path"
| "perform dev (Open path flags) s = sys_open s path flags"
| "perform dev (Write fd bs) s = sys_write dev s fd bs"
| "perform dev (Close fd) s = sys_close dev s fd"

fun performs :: "dev_ops \<Rightarrow> (kcall \<times> int) list \<Rightarrow> fs \<Rightarrow> fs \<Rightarrow> bool" where
  "performs dev [] s s' \<longleftrightarrow> s = s'"
| "performs dev ((c, r) # tr) s s' \<longleftrightarrow> (\<exists>s1. perform dev c s = Some (r, s1) \<and> performs dev tr s1 s')"

text \<open>The directories above a path, the nearest to the root first.\<close>

definition parents_of :: "u8 list \<Rightarrow> u8 list list" where
  "parents_of path = map (\<lambda>i. take i path) (filter (\<lambda>i. path ! i = slash) [1..<length path])"

text \<open>Every directory is looked up, and one that is not found is made, whatever that returns.\<close>

fun parent_trace :: "u8 list list \<Rightarrow> (kcall \<times> int) list \<Rightarrow> bool" where
  "parent_trace [] tr \<longleftrightarrow> tr = []"
| "parent_trace (d # ds) tr \<longleftrightarrow>
     (\<exists>r tr'. r \<noteq> - 1 \<and> tr = (Stat d, r) # tr' \<and> parent_trace ds tr')
     \<or> (\<exists>m tr'. tr = (Stat d, - 1) # (Mkdir d, m) # tr' \<and> parent_trace ds tr')"

text \<open>
  A file: whatever has its path is unlinked, the directories are made, the file is created for reading and
  writing (flags 6), all its bytes are written with one call, and the descriptor is closed.
\<close>

definition file_trace :: "u8 list \<Rightarrow> u8 list \<Rightarrow> (kcall \<times> int) list \<Rightarrow> bool" where
  "file_trace path bs tr \<longleftrightarrow> (\<exists>u ds fd c. 0 \<le> fd \<and> parent_trace (parents_of path) ds \<and>
     tr = (Unlink path, u) # ds @ [(Open path 6, fd), (Write fd bs, int (length bs)), (Close fd, c)])"

fun image_trace :: "(u8 list \<times> u8 list) list \<Rightarrow> (kcall \<times> int) list \<Rightarrow> bool" where
  "image_trace [] tr \<longleftrightarrow> tr = []"
| "image_trace ((path, bs) # files) tr \<longleftrightarrow> (\<exists>t1 t2. tr = t1 @ t2 \<and> file_trace path bs t1 \<and> image_trace files t2)"

lemma performs_append: "performs dev (t1 @ t2) s s' \<longleftrightarrow> (\<exists>s1. performs dev t1 s s1 \<and> performs dev t2 s1 s')"
  by (induction t1 arbitrary: s) (auto, blast+)

definition good_path :: "u8 list \<Rightarrow> bool" where
  "good_path path \<longleftrightarrow> path \<noteq> [] \<and> hd path = slash \<and> space \<notin> set path \<and> 0 \<notin> set path \<and> length path < 128"

lemma next_slash:
  assumes "n = length (takeWhile (\<lambda>c. c \<noteq> slash) (drop i path))"
  shows "filter (\<lambda>j. path ! j = slash) [i..<length path] =
    (if i + n < length path then (i + n) # filter (\<lambda>j. path ! j = slash) [i + n + 1..<length path] else [])"
proof -
  have before: "path ! j \<noteq> slash" if "i \<le> j" "j < i + n" for j
  proof -
    have "j - i < n" using that by linarith
    with assms have "(takeWhile (\<lambda>c. c \<noteq> slash) (drop i path)) ! (j - i) \<noteq> slash"
      by (metis (mono_tags, lifting) nth_mem set_takeWhileD)
    moreover have "(takeWhile (\<lambda>c. c \<noteq> slash) (drop i path)) ! (j - i) = drop i path ! (j - i)"
      using \<open>j - i < n\<close> assms by (simp add: takeWhile_nth)
    moreover have "n \<le> length path - i"
      using assms length_takeWhile_le [of "\<lambda>c. c \<noteq> slash" "drop i path"] by simp
    ultimately show ?thesis using that by auto
  qed
  show ?thesis
  proof (cases "i + n < length path")
    case True
    have "[i..<length path] = [i..<i + n] @ (i + n) # [i + n + 1..<length path]"
      using True by (metis Suc_eq_plus1 le_add1 less_or_eq_imp_le upt_add_eq_append upt_conv_Cons le_iff_add)
    moreover have "filter (\<lambda>j. path ! j = slash) [i..<i + n] = []"
      using before by (simp add: filter_empty_conv)
    moreover have "path ! (i + n) = slash"
      using True assms nth_length_takeWhile [of "\<lambda>c. c \<noteq> slash" "drop i path"] by simp
    ultimately show ?thesis using True by simp
  next
    case False
    with before show ?thesis by (auto simp: filter_empty_conv)
  qed
qed

declare parent_loop.simps [simp del]

text \<open>The proofs go through the compositions of the code's own steps; the properties do not mention them.\<close>

fun ensure_all :: "u8 list list \<Rightarrow> fs \<Rightarrow> fs option" where
  "ensure_all [] s = Some s"
| "ensure_all (d # ds) s = do { s \<leftarrow> ensure_dir d s; ensure_all ds s }"

lemma parent_loop_all: "make_parent_dirs path s = ensure_all (parents_of path) s"
proof -
  have "parent_loop path i s = ensure_all (map (\<lambda>i. take i path) (filter (\<lambda>i. path ! i = slash) [i..<length path])) s" for i s
  proof (induction path i s rule: parent_loop.induct)
    case (1 path i s)
    define n where "n = length (takeWhile (\<lambda>c. c \<noteq> slash) (drop i path))"
    show ?case
    proof (cases "i + n < length path")
      case True
      note IH = 1 [OF n_def True]
      show ?thesis
        unfolding parent_loop.simps [of path i s] Let_def n_def [symmetric] next_slash [OF n_def]
        using True IH by (simp split: bind_split)
    next
      case False
      then show ?thesis
        unfolding parent_loop.simps [of path i s] Let_def n_def [symmetric] next_slash [OF n_def] by simp
    qed
  qed
  then show ?thesis by (simp add: make_parent_dirs_def parents_of_def)
qed

lemma ensure_dir_calls:
  assumes "length d < 512"
  shows "ensure_dir d s = Some s' \<longleftrightarrow>
    (\<exists>r. r \<noteq> - 1 \<and> performs dev [(Stat d, r)] s s') \<or> (\<exists>m. performs dev [(Stat d, - 1), (Mkdir d, m)] s s')"
proof (cases "sys_stat s d")
  case None
  with assms show ?thesis by (simp add: ensure_dir_def)
next
  case (Some q)
  obtain r st s1 where q: "q = (r, st, s1)" by (cases q)
  show ?thesis
  proof (cases "r = - 1")
    case True
    with assms Some q show ?thesis by (cases "sys_mkdir s1 d") (auto simp: ensure_dir_def)
  next
    case False
    with assms Some q show ?thesis by (simp add: ensure_dir_def)
  qed
qed

lemma ensure_all_calls:
  "\<forall>d\<in>set ds. length d < 512 \<Longrightarrow> ensure_all ds s = Some s' \<longleftrightarrow> (\<exists>tr. parent_trace ds tr \<and> performs dev tr s s')"
proof (induction ds arbitrary: s)
  case Nil
  then show ?case by auto
next
  case (Cons d ds)
  have "ensure_all (d # ds) s = Some s' \<longleftrightarrow> (\<exists>s1. ensure_dir d s = Some s1 \<and> ensure_all ds s1 = Some s')"
    by (simp add: outcome_simps)
  also have "\<dots> \<longleftrightarrow> (\<exists>s1. ((\<exists>r. r \<noteq> - 1 \<and> performs dev [(Stat d, r)] s s1) \<or> (\<exists>m. performs dev [(Stat d, - 1), (Mkdir d, m)] s s1))
      \<and> (\<exists>tr. parent_trace ds tr \<and> performs dev tr s1 s'))"
    using Cons ensure_dir_calls [of d s _ dev] by simp
  also have "\<dots> \<longleftrightarrow> (\<exists>r tr'. r \<noteq> - 1 \<and> parent_trace ds tr' \<and> performs dev ((Stat d, r) # tr') s s')
      \<or> (\<exists>m tr'. parent_trace ds tr' \<and> performs dev ((Stat d, - 1) # (Mkdir d, m) # tr') s s')"
    using performs_append [of dev "[(Stat d, _)]"] performs_append [of dev "[(Stat d, - 1), (Mkdir d, _)]"]
    unfolding append_Cons append_Nil by blast
  also have "\<dots> \<longleftrightarrow> (\<exists>tr. parent_trace (d # ds) tr \<and> performs dev tr s s')"
    unfolding parent_trace.simps by blast
  finally show ?case .
qed

lemma parents_short: "d \<in> set (parents_of path) \<Longrightarrow> length d < length path"
  by (auto simp: parents_of_def)

lemma make_parents_calls:
  assumes "length path \<le> 512"
  shows "make_parent_dirs path s = Some s' \<longleftrightarrow> (\<exists>tr. parent_trace (parents_of path) tr \<and> performs dev tr s s')"
  unfolding parent_loop_all by (rule ensure_all_calls) (use parents_short assms in \<open>fastforce\<close>)

lemma copy_file_calls:
  assumes "length path \<le> 512"
  shows "copy_file dev path bs s = Some s' \<longleftrightarrow> (\<exists>tr. file_trace path bs tr \<and> performs dev tr s s')"
proof -
  have fl: "O_CREAT OR O_RDWR = 6" by (simp add: O_CREAT_def O_RDWR_def)
  have "copy_file dev path bs s = Some s' \<longleftrightarrow> (\<exists>u s1 s2 fd s3 s4 c. sys_unlink s path = Some (u, s1) \<and>
      make_parent_dirs path s1 = Some s2 \<and> sys_open s2 path 6 = Some (fd, s3) \<and> 0 \<le> fd \<and>
      sys_write dev s3 fd bs = Some (int (length bs), s4) \<and> sys_close dev s4 fd = Some (c, s'))"
    by (auto simp: copy_file_def fl outcome_simps)
  also have "\<dots> \<longleftrightarrow> (\<exists>u s1 s2 fd s3 s4 c ds. sys_unlink s path = Some (u, s1) \<and>
      parent_trace (parents_of path) ds \<and> performs dev ds s1 s2 \<and> sys_open s2 path 6 = Some (fd, s3) \<and> 0 \<le> fd \<and>
      sys_write dev s3 fd bs = Some (int (length bs), s4) \<and> sys_close dev s4 fd = Some (c, s'))"
    unfolding make_parents_calls [OF assms, where dev = dev] by blast
  also have "\<dots> \<longleftrightarrow> (\<exists>tr. file_trace path bs tr \<and> performs dev tr s s')"
  proof
    assume "\<exists>tr. file_trace path bs tr \<and> performs dev tr s s'"
    then obtain u ds fd c where "0 \<le> fd" "parent_trace (parents_of path) ds"
      "performs dev ((Unlink path, u) # ds @ [(Open path 6, fd), (Write fd bs, int (length bs)), (Close fd, c)]) s s'"
      unfolding file_trace_def by blast
    then show "\<exists>u s1 s2 fd s3 s4 c ds. sys_unlink s path = Some (u, s1) \<and>
      parent_trace (parents_of path) ds \<and> performs dev ds s1 s2 \<and> sys_open s2 path 6 = Some (fd, s3) \<and> 0 \<le> fd \<and>
      sys_write dev s3 fd bs = Some (int (length bs), s4) \<and> sys_close dev s4 fd = Some (c, s')"
      by (auto simp: performs_append) blast
  next
    assume "\<exists>u s1 s2 fd s3 s4 c ds. sys_unlink s path = Some (u, s1) \<and>
      parent_trace (parents_of path) ds \<and> performs dev ds s1 s2 \<and> sys_open s2 path 6 = Some (fd, s3) \<and> 0 \<le> fd \<and>
      sys_write dev s3 fd bs = Some (int (length bs), s4) \<and> sys_close dev s4 fd = Some (c, s')"
    then obtain u s1 s2 fd s3 s4 c ds where x: "sys_unlink s path = Some (u, s1)" "parent_trace (parents_of path) ds"
      "performs dev ds s1 s2" "sys_open s2 path 6 = Some (fd, s3)" "0 \<le> fd"
      "sys_write dev s3 fd bs = Some (int (length bs), s4)" "sys_close dev s4 fd = Some (c, s')" by blast
    let ?tr = "(Unlink path, u) # ds @ [(Open path 6, fd), (Write fd bs, int (length bs)), (Close fd, c)]"
    have "file_trace path bs ?tr" using x(2,5) unfolding file_trace_def by blast
    moreover have "performs dev ?tr s s'" using x by (auto simp: performs_append)
    ultimately show "\<exists>tr. file_trace path bs tr \<and> performs dev tr s s'" by blast
  qed
  finally show ?thesis .
qed

fun copy_all :: "dev_ops \<Rightarrow> (u8 list \<times> u8 list) list \<Rightarrow> fs \<Rightarrow> fs option" where
  "copy_all dev [] s = Some s"
| "copy_all dev ((path, bs) # files) s = do { s \<leftarrow> copy_file dev path bs s; copy_all dev files s }"

lemma copy_all_calls:
  "\<forall>(path, bs)\<in>set files. length path \<le> 512 \<Longrightarrow>
    copy_all dev files s = Some s' \<longleftrightarrow> (\<exists>tr. image_trace files tr \<and> performs dev tr s s')"
proof (induction files arbitrary: s)
  case Nil
  then show ?case by auto
next
  case (Cons f files)
  obtain path bs where f: "f = (path, bs)" by (cases f)
  have "copy_all dev (f # files) s = Some s' \<longleftrightarrow> (\<exists>s1. copy_file dev path bs s = Some s1 \<and> copy_all dev files s1 = Some s')"
    by (simp add: f outcome_simps)
  also have "\<dots> \<longleftrightarrow> (\<exists>s1. (\<exists>t1. file_trace path bs t1 \<and> performs dev t1 s s1) \<and> (\<exists>t2. image_trace files t2 \<and> performs dev t2 s1 s'))"
    using Cons copy_file_calls [of path dev bs s] by (simp add: f)
  also have "\<dots> \<longleftrightarrow> (\<exists>t1 t2. file_trace path bs t1 \<and> image_trace files t2 \<and> performs dev (t1 @ t2) s s')"
    unfolding performs_append by blast
  also have "\<dots> \<longleftrightarrow> (\<exists>tr. image_trace (f # files) tr \<and> performs dev tr s s')"
    unfolding f image_trace.simps by blast
  finally show ?case .
qed

section \<open>The copy as a whole\<close>

declare install_loop.simps [simp del]

lemma sint_small: "n < 2 ^ 31 \<Longrightarrow> 0 \<le> sint (of_nat n :: u32)"
  by (simp add: sint_uint uint_nat unat_of_nat signed_take_bit_int_eq_self)

lemma install_line:
  assumes "good_path path" "length b = 128" "length pre + length bs < 2 ^ 31"
  shows "\<exists>b'. install_loop dev (pre @ bs @ post) (index_line path (length pre) (length bs) @ rest) b s =
    do { s \<leftarrow> copy_file dev path bs s; install_loop dev (pre @ bs @ post) rest b' s } \<and> length b' = 128"
proof -
  obtain b' where "parse_index_line (index_line path (length pre) (length bs) @ rest) b =
      Some (b', Some (of_nat (length pre), of_nat (length bs), rest))" "takeWhile (\<lambda>c. c \<noteq> 0) b' = path" "length b' = 128"
    using index_line_roundtrip [of path b "length pre" "length bs" rest] assms(1,2) by (auto simp: good_path_def)
  moreover have "rd_block (pre @ bs @ post) (length pre) (length bs) = Some bs"
    by (simp add: rd_block_def)
  moreover have "unat (of_nat (length pre) :: u32) = length pre" "unat (of_nat (length bs) :: u32) = length bs"
    using assms(3) by (simp_all add: unat_of_nat)
  moreover have "0 \<le> sint (of_nat (length pre) :: u32)" "0 \<le> sint (of_nat (length bs) :: u32)"
    using assms(3) by (auto intro: sint_small)
  ultimately show ?thesis
    using assms(1)
    by (subst install_loop.simps) (auto simp: install_entry_def kassert_def good_path_def)
qed

lemma install_entrys:
  assumes "\<forall>(path, bs)\<in>set files. good_path path" "length pre + length (package files) < 2 ^ 31" "length b = 128"
  shows "install_loop dev (pre @ package files @ post) (index_text (length pre) files) b s = copy_all dev files s"
  using assms
proof (induction files arbitrary: pre b s)
  case Nil
  then show ?case by (simp add: install_loop.simps parse_index_line_def)
next
  case (Cons f files)
  obtain path bs where f: "f = (path, bs)" by (cases f)
  have pk: "package ((path, bs) # files) = bs @ package files" by (simp add: package_def)
  from install_line [of path b pre bs dev "package files @ post" "index_text (length pre + length bs) files" s]
  obtain b' where step: "install_loop dev (pre @ bs @ package files @ post)
        (index_line path (length pre) (length bs) @ index_text (length pre + length bs) files) b s =
      do { s \<leftarrow> copy_file dev path bs s;
           install_loop dev (pre @ bs @ package files @ post) (index_text (length pre + length bs) files) b' s }"
    and b': "length b' = 128"
    using Cons.prems by (auto simp: f pk)
  have "install_loop dev (pre @ bs @ package files @ post) (index_text (length pre + length bs) files) b' s' = copy_all dev files s'" for s'
    using Cons.IH [of "pre @ bs" b' s'] Cons.prems b' by (simp add: f pk)
  with step show ?case by (simp add: f pk)
qed

text \<open>
  Property C5. The kernel installs the image \<open>pack.py\<close> makes with exactly these system calls, file by file in
  the order of the index: unlink the path, look up every directory above it and make those that are not
  found, create the file, write the file's own bytes of the package with one call that stores all of
  them, close it. It comes to an end exactly when those calls do and the file can be opened and written,
  for every list of files whose paths fit and whose contents stay below two gigabytes.
\<close>

theorem install_copies_image:
  assumes "\<forall>(path, bs)\<in>set files. good_path path" "length (package files) < 2 ^ 31" "length f_path = 128"
  shows "install_loop dev (package files @ post) (index_text 0 files) f_path s = Some s' \<longleftrightarrow>
    (\<exists>tr. image_trace files tr \<and> performs dev tr s s')"
proof -
  have "\<forall>(path, bs)\<in>set files. length path \<le> 512" using assms(1) by (auto simp: good_path_def)
  with install_entrys [of files "[]" f_path dev post s] copy_all_calls [of files dev s s'] assms show ?thesis by simp
qed

theorem install_copies_image_witness:
  "\<forall>dev s s'. install_loop dev (package [([47, 97, 47, 99], [1, 2, 3])] @ [0]) (index_text 0 [([47, 97, 47, 99], [1, 2, 3])]) (replicate 128 0) s
     = Some s' \<longleftrightarrow> (\<exists>tr. image_trace [([47, 97, 47, 99], [1, 2, 3])] tr \<and> performs dev tr s s')"
  by (intro allI install_copies_image) (simp_all add: good_path_def slash_def space_def package_def)

section \<open>The directories that are made\<close>

text \<open>
  Property C31. The directories above a path are looked up one after the other, each after the one it lies in,
  and exactly those the lookup does not find are made, with no other call; what \<open>sys_mkdir\<close> returns is not
  looked at.
\<close>

theorem make_parent_dirs_calls:
  assumes "length path \<le> 512"
  shows "make_parent_dirs path s = Some s' \<longleftrightarrow> (\<exists>tr. parent_trace (parents_of path) tr \<and> performs dev tr s s')"
  by (rule make_parents_calls [OF assms])

theorem make_parent_dirs_calls_witness:
  "parents_of [47, 97, 47, 98, 47, 99] = [[47, 97], [47, 97, 47, 98]]
    \<and> (\<forall>dev s s'. make_parent_dirs [47, 97, 47, 98, 47, 99] s = Some s' \<longleftrightarrow>
         (\<exists>tr. parent_trace (parents_of [47, 97, 47, 98, 47, 99]) tr \<and> performs dev tr s s'))"
proof
  show "parents_of [47, 97, 47, 98, 47, 99] = [[47, 97], [47, 97, 47, 98]]"
    by (simp add: parents_of_def slash_def upt_rec nth_Cons')
  show "\<forall>dev s s'. make_parent_dirs [47, 97, 47, 98, 47, 99] s = Some s' \<longleftrightarrow>
         (\<exists>tr. parent_trace (parents_of [47, 97, 47, 98, 47, 99]) tr \<and> performs dev tr s s')"
    by (intro allI make_parent_dirs_calls) simp
qed

end
