(* ===== verification/Switch.thy ===== *)
theory Switch
  imports Process
begin

text \<open>
  The stacks of the threads at the level of machine instructions:
  \<open>switch_to\<close> (\<open>src/src/thread/switch.S\<close>), the return from an interrupt
  (\<open>src/src/kernel/kernel.S\<close>), the frames that \<open>thread_create\<close> (\<open>thread.c\<close>) and
  \<open>build_child_stack\<close> (\<open>fork.c\<close>) prepare for the first switch to a thread, and \<open>setjmp\<close> and
  \<open>longjmp\<close> of the user library (\<open>src/system/crt/setjmp.c\<close>).

  Memory is the byte memory of theory \<open>Cstring\<close>, a register a \<open>nat\<close> below \<open>2^32\<close>. Access to
  unmapped memory is \<open>None\<close>. The addresses of \<open>kernel_thread\<close> and \<open>intr_exit\<close> are chosen by the
  linker and are arguments here.
\<close>

section \<open>Words in memory\<close>

definition rd32 :: "mem \<Rightarrow> nat \<Rightarrow> nat option" where
  "rd32 m a = map_option dec32 (load m a 4)"

definition wr32 :: "mem \<Rightarrow> nat \<Rightarrow> nat \<Rightarrow> mem option" where
  "wr32 m a v = store m a (enc32 v)"

text \<open>The interface of a memory of words: what a write makes readable and what it leaves.\<close>

definition apart :: "nat \<Rightarrow> nat \<Rightarrow> nat \<Rightarrow> nat \<Rightarrow> bool" where
  "apart a n b k \<longleftrightarrow> a + n \<le> b \<or> b + k \<le> a"

definition cell :: "mem \<Rightarrow> nat \<Rightarrow> bool" where
  "cell m a \<longleftrightarrow> m a \<noteq> None \<and> m (a + 1) \<noteq> None \<and> m (a + 2) \<noteq> None \<and> m (a + 3) \<noteq> None"

definition put32 :: "mem \<Rightarrow> nat \<Rightarrow> nat \<Rightarrow> mem" where
  "put32 m a v = m(a \<mapsto> enc32 v ! 0, a + 1 \<mapsto> enc32 v ! 1, a + 2 \<mapsto> enc32 v ! 2, a + 3 \<mapsto> enc32 v ! 3)"

locale word_memory =
  fixes rd :: "'m \<Rightarrow> nat \<Rightarrow> nat option"
    and wr :: "'m \<Rightarrow> nat \<Rightarrow> nat \<Rightarrow> 'm option"
    and put :: "'m \<Rightarrow> nat \<Rightarrow> nat \<Rightarrow> 'm"
    and ok :: "'m \<Rightarrow> nat \<Rightarrow> bool"
  assumes wr_put: "ok m a \<Longrightarrow> wr m a v = Some (put m a v)"
    and rd_ok: "rd m a = Some v \<Longrightarrow> ok m a"
    and ok_put: "ok m b \<Longrightarrow> ok (put m a v) b"
    and rd_same: "rd (put m a v) a = Some (w32 v)"
    and rd_apart: "apart a 4 b 4 \<Longrightarrow> rd (put m a v) b = rd m b"
begin

fun push_words :: "'m \<Rightarrow> nat \<Rightarrow> nat list \<Rightarrow> 'm" where
  "push_words m e [] = m"
| "push_words m e (v # vs) = push_words (put m (e - 4) v) (e - 4) vs"

lemma ok_push_words: "ok m b \<Longrightarrow> ok (push_words m e vs) b"
  by (induction vs arbitrary: m e) (simp_all add: ok_put)

lemma push_words_apart: "4 * length vs \<le> e \<Longrightarrow> apart (e - 4 * length vs) (4 * length vs) b 4 \<Longrightarrow>
    rd (push_words m e vs) b = rd m b"
proof (induction vs arbitrary: m e)
  case (Cons v vs)
  have "apart (e - 4 - 4 * length vs) (4 * length vs) b 4" "apart (e - 4) 4 b 4" "4 * length vs \<le> e - 4"
    using Cons.prems by (auto simp: apart_def)
  then show ?case using Cons.IH [of "e - 4" "put m (e - 4) v"] by (simp add: rd_apart)
qed simp

lemma push_words_nth: "4 * length vs \<le> e \<Longrightarrow> k < length vs \<Longrightarrow>
    rd (push_words m e vs) (e - 4 * (k + 1)) = Some (w32 (vs ! k))"
proof (induction vs arbitrary: m e k)
  case (Cons v vs)
  show ?case
  proof (cases k)
    case 0
    have "apart (e - 4 - 4 * length vs) (4 * length vs) (e - 4) 4" "4 * length vs \<le> e - 4"
      using Cons.prems by (auto simp: apart_def)
    then show ?thesis using 0 by (simp add: push_words_apart rd_same)
  next
    case (Suc j)
    then have "4 * length vs \<le> e - 4" "j < length vs" "e - 4 - 4 * (j + 1) = e - 4 * (k + 1)"
      using Cons.prems by auto
    then show ?thesis using Cons.IH [of "e - 4" j "put m (e - 4) v"] Suc by simp
  qed
qed simp

end

lemma enc32_all: "enc32 v = [enc32 v ! 0, enc32 v ! 1, enc32 v ! 2, enc32 v ! 3]"
  by (simp add: enc32_def One_nat_def)

lemma dec32_enc32_w32 [simp]: "dec32 (enc32 v) = w32 v"
proof -
  have "unat (of_nat (v div k) :: u8) = v div k mod 256" for k by (rule unat_of_nat8)
  then have "dec32 (enc32 v) = v mod 256 + 256 * (v div 256 mod 256) + 65536 * (v div 65536 mod 256)
      + 16777216 * (v div 16777216 mod 256)"
    by (simp add: dec32_def enc32_def unat_of_nat8 One_nat_def)
  then show ?thesis
    using mod_mult2_eq [of v 256 256] mod_mult2_eq [of v 65536 256] mod_mult2_eq [of v 16777216 256]
    by (simp add: w32_def)
qed

lemma load4: "load m a 4 = do { b0 \<leftarrow> m a; b1 \<leftarrow> m (a + 1); b2 \<leftarrow> m (a + 2); b3 \<leftarrow> m (a + 3); Some [b0, b1, b2, b3] }"
  by (simp add: numeral_eq_Suc One_nat_def split: bind_split)

lemma store4: "store m a [b0, b1, b2, b3] =
    (if m a \<noteq> None \<and> m (a + 1) \<noteq> None \<and> m (a + 2) \<noteq> None \<and> m (a + 3) \<noteq> None
     then Some (m(a \<mapsto> b0, a + 1 \<mapsto> b1, a + 2 \<mapsto> b2, a + 3 \<mapsto> b3)) else None)"
  by (simp add: st_def numeral_eq_Suc One_nat_def)

lemma wr32_cell: "cell m a \<Longrightarrow> wr32 m a v = Some (put32 m a v)"
  by (subst wr32_def, subst enc32_all, simp add: store4 cell_def put32_def del: store.simps)

lemma rd32_put32_same: "rd32 (put32 m a v) a = Some (w32 v)"
proof -
  have "load (put32 m a v) a 4 = Some (enc32 v)"
    by (subst enc32_all) (simp add: load4 put32_def)
  then show ?thesis by (simp add: rd32_def)
qed

lemma put32_out: "x < a \<or> a + 4 \<le> x \<Longrightarrow> put32 m a v x = m x"
  by (auto simp: put32_def)

lemma rd32_cong:
  assumes "\<forall>x. a \<le> x \<longrightarrow> x < a + 4 \<longrightarrow> m' x = m x"
  shows "rd32 m' a = rd32 m a"
proof -
  have "m' a = m a" "m' (a + 1) = m (a + 1)" "m' (a + 2) = m (a + 2)" "m' (a + 3) = m (a + 3)"
    using assms by simp_all
  then show ?thesis by (simp add: rd32_def load4)
qed

interpretation kmem: word_memory rd32 wr32 put32 cell
proof
  fix m a b v w
  show "cell m a \<Longrightarrow> wr32 m a v = Some (put32 m a v)" by (rule wr32_cell)
  show "rd32 m a = Some v \<Longrightarrow> cell m a"
    by (auto simp: rd32_def load4 cell_def split: bind_splits)
  show "cell m b \<Longrightarrow> cell (put32 m a v) b" by (auto simp: cell_def put32_def)
  show "rd32 (put32 m a v) a = Some (w32 v)" by (rule rd32_put32_same)
  show "rd32 (put32 m a v) b = rd32 m b" if "apart a 4 b 4"
    by (rule rd32_cong) (use that in \<open>auto simp: apart_def intro!: put32_out\<close>)
qed

section \<open>Instructions\<close>

datatype reg = EAX | EBX | ECX | EDX | ESI | EDI | EBP | ESP | EIP | GS | FS | ES | DS | CS | EFLAGS | SS

record cpu =
  regs :: "reg \<Rightarrow> nat"
  ram :: mem

text \<open>
  \<open>Load r b n\<close> is \<open>mov r, [b + n]\<close>, \<open>Store b n r\<close> is \<open>mov [b + n], r\<close>, \<open>Skip n\<close> is \<open>add esp, n\<close> and
  \<open>Room n\<close> is \<open>sub esp, n\<close>. A segment register takes the low half of the word it is loaded with;
  \<open>Iretd\<close> takes the stack of the outer level too when it returns to a less privileged one.
\<close>

datatype instr = Push reg | Pop reg | Mov reg reg | Load reg reg nat | Store reg nat reg | Skip nat | Room nat | Ret | Iretd

definition trim :: "reg \<Rightarrow> nat \<Rightarrow> nat" where
  "trim r v = (if r \<in> {GS, FS, ES, DS, CS, SS} then w16 v else v)"

definition push :: "nat \<Rightarrow> cpu \<Rightarrow> cpu option" where
  "push v c =
     (let e = sub32 (regs c ESP) 4 in
      do { m \<leftarrow> wr32 (ram c) e v; Some (c\<lparr>regs := (regs c)(ESP := e), ram := m\<rparr>) })"

definition pop :: "reg \<Rightarrow> cpu \<Rightarrow> cpu option" where
  "pop r c =
     do { v \<leftarrow> rd32 (ram c) (regs c ESP);
          Some (c\<lparr>regs := (regs c)(ESP := w32 (regs c ESP + 4), r := trim r v)\<rparr>) }"

definition iretd :: "cpu \<Rightarrow> cpu option" where
  "iretd c =
     do { d \<leftarrow> pop EIP c;
          d \<leftarrow> pop CS d;
          d \<leftarrow> pop EFLAGS d;
          if regs c CS AND 3 < regs d CS AND 3 then
            do { esp \<leftarrow> rd32 (ram d) (regs d ESP);
                 ss \<leftarrow> rd32 (ram d) (w32 (regs d ESP + 4));
                 Some (d\<lparr>regs := (regs d)(ESP := esp, SS := trim SS ss)\<rparr>) }
          else Some d }"

fun step :: "instr \<Rightarrow> cpu \<Rightarrow> cpu option" where
  "step (Push r) c = push (regs c r) c"
| "step (Pop r) c = pop r c"
| "step (Mov r q) c = Some (c\<lparr>regs := (regs c)(r := regs c q)\<rparr>)"
| "step (Load r b n) c = do { v \<leftarrow> rd32 (ram c) (w32 (regs c b + n)); Some (c\<lparr>regs := (regs c)(r := v)\<rparr>) }"
| "step (Store b n r) c = do { m \<leftarrow> wr32 (ram c) (w32 (regs c b + n)) (regs c r); Some (c\<lparr>ram := m\<rparr>) }"
| "step (Skip n) c = Some (c\<lparr>regs := (regs c)(ESP := w32 (regs c ESP + n))\<rparr>)"
| "step (Room n) c = Some (c\<lparr>regs := (regs c)(ESP := sub32 (regs c ESP) n)\<rparr>)"
| "step Ret c = pop EIP c"
| "step Iretd c = iretd c"

fun run :: "instr list \<Rightarrow> cpu \<Rightarrow> cpu option" where
  "run [] c = Some c"
| "run (i # is) c = do { c \<leftarrow> step i c; run is c }"

definition switch_code :: "instr list" where
  "switch_code =
     [Push ESI, Push EDI, Push EBX, Push EBP,
      Load EAX ESP 20, Store EAX 0 ESP, Load EAX ESP 24, Load ESP EAX 0,
      Pop EBP, Pop EBX, Pop EDI, Pop ESI, Ret]"

definition popad :: "instr list" where
  "popad = [Pop EDI, Pop ESI, Pop EBP, Skip 4, Pop EBX, Pop EDX, Pop ECX, Pop EAX]"

definition return_from_intr :: "instr list" where
  "return_from_intr = [Skip 4] @ popad @ [Pop GS, Pop FS, Pop ES, Pop DS, Skip 4, Iretd]"

section \<open>The frames of threads that have not run yet\<close>

definition thread_create_stack :: "mem \<Rightarrow> nat \<Rightarrow> nat \<Rightarrow> nat \<Rightarrow> nat \<Rightarrow> mem option" where
  "thread_create_stack m pthread kernel_thread func func_arg =
     do { k \<leftarrow> rd32 m pthread;
          m \<leftarrow> wr32 m pthread (sub32 k intr_stack_size);
          k \<leftarrow> rd32 m pthread;
          m \<leftarrow> wr32 m pthread (sub32 k thread_stack_size);
          kthread_stack \<leftarrow> rd32 m pthread;
          m \<leftarrow> wr32 m (kthread_stack + 16) kernel_thread;
          m \<leftarrow> wr32 m (kthread_stack + 24) func;
          m \<leftarrow> wr32 m (kthread_stack + 28) func_arg;
          m \<leftarrow> wr32 m (kthread_stack + 8) 0;
          m \<leftarrow> wr32 m (kthread_stack + 12) 0;
          m \<leftarrow> wr32 m (kthread_stack + 4) 0;
          wr32 m kthread_stack 0 }"

definition build_child_stack :: "mem \<Rightarrow> nat \<Rightarrow> nat \<Rightarrow> mem option" where
  "build_child_stack m child_thread intr_exit =
     (let intr_0_stack = w32 (child_thread + PG_SIZE - intr_stack_size) in
      do { m \<leftarrow> wr32 m (intr_0_stack + 32) 0;
           let ret_addr = sub32 intr_0_stack 4; esi_ptr = sub32 intr_0_stack 8; edi_ptr = sub32 intr_0_stack 12;
               ebx_ptr = sub32 intr_0_stack 16; ebp_ptr = sub32 intr_0_stack 20 in
           do { m \<leftarrow> wr32 m ret_addr intr_exit;
                m \<leftarrow> wr32 m esi_ptr 0;
                m \<leftarrow> wr32 m edi_ptr 0;
                m \<leftarrow> wr32 m ebx_ptr 0;
                m \<leftarrow> wr32 m ebp_ptr 0;
                wr32 m child_thread ebp_ptr } })"

section \<open>Non-local jumps\<close>

text \<open>
  The functions as compiled with a frame pointer; \<open>setjmp\<close> reads \<open>ebx\<close>, \<open>edi\<close> and \<open>esi\<close> while they are
  still its caller's. A \<open>jmp_buf\<close> holds \<open>esp\<close>, \<open>ebp\<close>, \<open>ret_addr\<close>, \<open>ebx\<close>, \<open>esi\<close>, \<open>edi\<close> in this order.
\<close>

definition setjmp :: "cpu \<Rightarrow> cpu option" where
  "setjmp c =
     do { c \<leftarrow> run [Push EBP, Mov EBP ESP] c;
          let ebp = regs c EBP in
          do { buf \<leftarrow> rd32 (ram c) (w32 (ebp + 8));
               m \<leftarrow> wr32 (ram c) buf (w32 (ebp + 4));
               x \<leftarrow> rd32 m ebp;
               m \<leftarrow> wr32 m (buf + 4) x;
               x \<leftarrow> rd32 m (w32 (ebp + 4));
               m \<leftarrow> wr32 m (buf + 8) x;
               m \<leftarrow> wr32 m (buf + 12) (regs c EBX);
               m \<leftarrow> wr32 m (buf + 20) (regs c EDI);
               m \<leftarrow> wr32 m (buf + 16) (regs c ESI);
               run [Mov ESP EBP, Pop EBP, Ret] (c\<lparr>regs := (regs c)(EAX := 0), ram := m\<rparr>) } }"

text \<open>\<open>locals\<close> is the size of the frame the compiler gives \<open>longjmp\<close>.\<close>

definition longjmp :: "nat \<Rightarrow> cpu \<Rightarrow> cpu option" where
  "longjmp locals c =
     do { c \<leftarrow> run [Push EBP, Mov EBP ESP, Room locals] c;
          buf \<leftarrow> rd32 (ram c) (w32 (regs c EBP + 8));
          new_esp \<leftarrow> rd32 (ram c) buf;
          ra \<leftarrow> rd32 (ram c) (buf + 8);
          m \<leftarrow> wr32 (ram c) new_esp ra;
          c \<leftarrow> Some (c\<lparr>ram := m\<rparr>);
          x \<leftarrow> rd32 (ram c) buf; c \<leftarrow> push x c;
          x \<leftarrow> rd32 (ram c) (w32 (regs c EBP + 12)); c \<leftarrow> push x c;
          x \<leftarrow> rd32 (ram c) (buf + 4); c \<leftarrow> push x c;
          x \<leftarrow> rd32 (ram c) (buf + 12); c \<leftarrow> push x c;
          x \<leftarrow> rd32 (ram c) (buf + 20); c \<leftarrow> push x c;
          x \<leftarrow> rd32 (ram c) (buf + 16); c \<leftarrow> push x c;
          run [Pop ESI, Pop EDI, Pop EBX, Pop EBP, Pop EAX, Pop ESP, Ret] c }"

section \<open>Runs of instructions\<close>

definition mapped :: "mem \<Rightarrow> nat \<Rightarrow> nat \<Rightarrow> bool" where
  "mapped m lo hi \<longleftrightarrow> (\<forall>x. lo \<le> x \<longrightarrow> x < hi \<longrightarrow> m x \<noteq> None)"

lemma mapped_cell: "mapped m lo hi \<Longrightarrow> lo \<le> a \<Longrightarrow> a + 4 \<le> hi \<Longrightarrow> cell m a"
  by (simp add: mapped_def cell_def)

lemma apart_sub: "apart a n b k \<Longrightarrow> a \<le> a' \<Longrightarrow> a' + n' \<le> a + n \<Longrightarrow> b \<le> b' \<Longrightarrow> b' + k' \<le> b + k \<Longrightarrow> apart a' n' b' k'"
  by (auto simp: apart_def)

lemma rd32_less: "rd32 m a = Some v \<Longrightarrow> v < 4294967296"
  by (auto simp: rd32_def dec32_less)

lemma trim_plain [simp]: "r \<notin> {GS, FS, ES, DS, CS, SS} \<Longrightarrow> trim r v = v"
  by (simp add: trim_def)

lemma push_run:
  "4 \<le> regs c ESP \<Longrightarrow> regs c ESP < 4294967296 \<Longrightarrow> cell (ram c) (regs c ESP - 4) \<Longrightarrow>
   push v c = Some (c\<lparr>regs := (regs c)(ESP := regs c ESP - 4), ram := put32 (ram c) (regs c ESP - 4) v\<rparr>)"
  by (simp add: push_def sub32_le kmem.wr_put Let_def)

lemma pop_run:
  "rd32 (ram c) (regs c ESP) = Some v \<Longrightarrow> regs c ESP + 4 < 4294967296 \<Longrightarrow>
   pop r c = Some (c\<lparr>regs := (regs c)(ESP := regs c ESP + 4, r := trim r v)\<rparr>)"
  by (simp add: pop_def)

lemma run_append: "run (xs @ ys) c = do { c \<leftarrow> run xs c; run ys c }"
  by (induction xs arbitrary: c) (simp_all split: bind_split)

lemma run_pushes:
  assumes "regs c ESP = e" "4 * length rs \<le> e" "e < 4294967296" "ESP \<notin> set rs" "mapped (ram c) (e - 4 * length rs) e"
  shows "run (map Push rs) c = Some (c\<lparr>regs := (regs c)(ESP := e - 4 * length rs),
    ram := kmem.push_words (ram c) e (map (regs c) rs)\<rparr>)"
  using assms
proof (induction rs arbitrary: c e)
  case Nil
  then show ?case by (cases c) auto
next
  case (Cons r rs)
  let ?d = "c\<lparr>regs := (regs c)(ESP := e - 4), ram := put32 (ram c) (e - 4) (regs c r)\<rparr>"
  have "cell (ram c) (e - 4)" by (rule mapped_cell [OF Cons.prems(5)]) (use Cons.prems(2) in auto)
  then have 1: "push (regs c r) c = Some ?d" using Cons.prems(1,2,3) by (simp add: push_run)
  have "mapped (ram ?d) (e - 4 - 4 * length rs) (e - 4)"
    using Cons.prems(5) by (auto simp: mapped_def put32_def)
  then have 2: "run (map Push rs) ?d = Some (?d\<lparr>regs := (regs ?d)(ESP := e - 4 - 4 * length rs),
      ram := kmem.push_words (ram ?d) (e - 4) (map (regs ?d) rs)\<rparr>)" (is "_ = Some ?f")
    using Cons.prems by (intro Cons.IH) auto
  have m: "map ((regs c)(ESP := e - 4)) rs = map (regs c) rs" using Cons.prems(4) by auto
  have "run (map Push (r # rs)) c = run (map Push rs) ?d" using 1 by simp
  also note 2
  also have "?f = c\<lparr>regs := (regs c)(ESP := e - 4 * length (r # rs)),
      ram := kmem.push_words (ram c) e (map (regs c) (r # rs))\<rparr>"
    by (rule cpu.equality) (simp_all add: m fun_eq_iff del: map_eq_conv)
  finally show ?case .
qed

declare kmem.push_words.simps [simp del]

lemma push_words_out: "4 * length vs \<le> e \<Longrightarrow> x < e - 4 * length vs \<or> e \<le> x \<Longrightarrow> kmem.push_words m e vs x = m x"
proof (induction vs arbitrary: m e)
  case (Cons v vs)
  have "4 * length vs \<le> e - 4" "x < e - 4 - 4 * length vs \<or> e - 4 \<le> x" "x < e - 4 \<or> e - 4 + 4 \<le> x"
    using Cons.prems by auto
  then show ?case by (simp add: kmem.push_words.simps Cons.IH put32_out)
qed (simp add: kmem.push_words.simps)

section \<open>Switching threads\<close>

text \<open>
  The state in which \<open>schedule\<close> enters \<open>switch_to(cur, next)\<close>: sixteen bytes of room from \<open>s\<close>
  on, then the return address and the two arguments, away from the control block of \<open>cur\<close>,
  whose first word takes the stack pointer.
\<close>

definition called_switch :: "cpu \<Rightarrow> nat \<Rightarrow> nat \<Rightarrow> nat \<Rightarrow> bool" where
  "called_switch c s cur next \<longleftrightarrow>
     regs c ESP = s + 16 \<and> s + 28 \<le> 4294967296 \<and> mapped (ram c) s (s + 28) \<and>
     rd32 (ram c) (s + 20) = Some cur \<and> rd32 (ram c) (s + 24) = Some next \<and>
     cell (ram c) cur \<and> apart s 28 cur 4 \<and> (\<forall>r. regs c r < 4294967296)"

text \<open>The memory after the first half.\<close>

definition switch_out :: "cpu \<Rightarrow> nat \<Rightarrow> nat \<Rightarrow> mem" where
  "switch_out c s cur = put32 (kmem.push_words (ram c) (s + 16) (map (regs c) [ESI, EDI, EBX, EBP])) cur s"

lemma switch_out_frame:
  assumes "called_switch c s cur next"
  shows "rd32 (switch_out c s cur) cur = Some s"
    and "rd32 (switch_out c s cur) s = Some (regs c EBP)"
    and "rd32 (switch_out c s cur) (s + 4) = Some (regs c EBX)"
    and "rd32 (switch_out c s cur) (s + 8) = Some (regs c EDI)"
    and "rd32 (switch_out c s cur) (s + 12) = Some (regs c ESI)"
proof -
  let ?vs = "map (regs c) [ESI, EDI, EBX, EBP]"
  have a: "apart cur 4 (s + k) 4" if "k \<le> 24" for k
    using assms that by (auto simp: called_switch_def apart_def)
  have r: "regs c r < 4294967296" for r using assms by (simp add: called_switch_def)
  show "rd32 (switch_out c s cur) cur = Some s"
    using assms by (simp add: switch_out_def kmem.rd_same called_switch_def)
  have n: "rd32 (switch_out c s cur) (s + j) = Some (?vs ! k)" if "k < 4" "j + 4 * (k + 1) = 16" for j k
  proof -
    have "w32 (?vs ! k) = ?vs ! k" by (rule w32_small) (use that r in \<open>simp add: nth_map del: list.map\<close>)
    moreover have "s + 16 - 4 * (k + 1) = s + j" using that by simp
    ultimately have "rd32 (kmem.push_words (ram c) (s + 16) ?vs) (s + j) = Some (?vs ! k)"
      using kmem.push_words_nth [of ?vs "s + 16" k "ram c"] that by simp
    then show ?thesis using a [of j] that by (simp add: switch_out_def kmem.rd_apart)
  qed
  show "rd32 (switch_out c s cur) s = Some (regs c EBP)" using n [of 3 0] by simp
  show "rd32 (switch_out c s cur) (s + 4) = Some (regs c EBX)" using n [of 2 4] by simp
  show "rd32 (switch_out c s cur) (s + 8) = Some (regs c EDI)" using n [of 1 8] by (simp add: One_nat_def)
  show "rd32 (switch_out c s cur) (s + 12) = Some (regs c ESI)" using n [of 0 12] by simp
qed

lemma switch_out_elsewhere:
  "x < s \<or> s + 16 \<le> x \<Longrightarrow> x < cur \<or> cur + 4 \<le> x \<Longrightarrow> switch_out c s cur x = ram c x"
  by (simp add: switch_out_def put32_out push_words_out)

text \<open>The whole of \<open>switch_to\<close>: what the next thread saved comes back from where its stack pointer points.\<close>

definition resume :: "instr list" where
  "resume = [Pop EBP, Pop EBX, Pop EDI, Pop ESI, Ret]"

lemma switch_to_run:
  assumes c: "called_switch c s cur next"
  shows "run switch_code c = do { k \<leftarrow> rd32 (switch_out c s cur) next;
    run resume (c\<lparr>regs := (regs c)(EAX := next, ESP := k), ram := switch_out c s cur\<rparr>) }"
proof -
  let ?ps = "[ESI, EDI, EBX, EBP]"
  let ?m = "kmem.push_words (ram c) (s + 16) (map (regs c) ?ps)"
  have h: "regs c ESP = s + 16" "s + 28 \<le> 4294967296" "rd32 (ram c) (s + 20) = Some cur"
    "rd32 (ram c) (s + 24) = Some next" "cell (ram c) cur" "apart s 28 cur 4"
    using c by (simp_all add: called_switch_def)
  have "mapped (ram c) (s + 16 - 4 * length ?ps) (s + 16)" using c by (simp add: called_switch_def mapped_def)
  then have p: "run (map Push ?ps) c = Some (c\<lparr>regs := (regs c)(ESP := s), ram := ?m\<rparr>)"
    using run_pushes [of c "s + 16" ?ps] h by simp
  have "rd32 ?m (s + 20) = Some cur" "rd32 ?m (s + 24) = Some next"
    using h by (simp_all add: kmem.push_words_apart apart_def)
  moreover have "cell ?m cur" using h(5) by (rule kmem.ok_push_words)
  moreover have "rd32 (put32 ?m cur s) (s + 24) = rd32 ?m (s + 24)"
    by (rule kmem.rd_apart) (use h(6) in \<open>auto simp: apart_def\<close>)
  moreover have "cur < 4294967296" "next < 4294967296" using h rd32_less by blast+
  ultimately have mid: "run [Load EAX ESP 20, Store EAX 0 ESP, Load EAX ESP 24, Load ESP EAX 0]
      (c\<lparr>regs := (regs c)(ESP := s), ram := ?m\<rparr>) = do { k \<leftarrow> rd32 (switch_out c s cur) next;
      Some (c\<lparr>regs := (regs c)(EAX := next, ESP := k), ram := switch_out c s cur\<rparr>) }"
    using h(2) unfolding switch_out_def by (simp add: kmem.wr_put fun_upd_twist del: list.map split: bind_split)
  have code: "switch_code = map Push ?ps @ [Load EAX ESP 20, Store EAX 0 ESP, Load EAX ESP 24, Load ESP EAX 0]
      @ resume" by (simp add: switch_code_def resume_def)
  have "run (map Push ?ps @ [Load EAX ESP 20, Store EAX 0 ESP, Load EAX ESP 24, Load ESP EAX 0] @ resume) c =
      do { c \<leftarrow> run [Load EAX ESP 20, Store EAX 0 ESP, Load EAX ESP 24, Load ESP EAX 0]
             (c\<lparr>regs := (regs c)(ESP := s), ram := ?m\<rparr>); run resume c }"
    unfolding run_append p by (rule Option.bind.simps(2))
  then show ?thesis unfolding code mid by (simp split: bind_split)
qed

lemma resume_run:
  assumes "regs d ESP = k" "k + 20 < 4294967296" "rd32 (ram d) k = Some bp" "rd32 (ram d) (k + 4) = Some bx"
    "rd32 (ram d) (k + 8) = Some di" "rd32 (ram d) (k + 12) = Some si" "rd32 (ram d) (k + 16) = Some ra"
  shows "run resume d =
    Some (d\<lparr>regs := (regs d)(ESP := k + 20, EBP := bp, EBX := bx, EDI := di, ESI := si, EIP := ra)\<rparr>)"
  using assms by (simp add: resume_def pop_run fun_upd_twist add.commute [of k])

lemma resume_ram: "run resume d = Some d' \<Longrightarrow> ram d' = ram d"
  by (auto simp: resume_def pop_def split: bind_splits)

lemma switch_ram: "called_switch c s cur next \<Longrightarrow> run switch_code c = Some c1 \<Longrightarrow> ram c1 = switch_out c s cur"
  by (auto simp: switch_to_run dest: resume_ram split: bind_splits)

lemma rd32_switch_out: "apart s 16 a 4 \<Longrightarrow> apart cur 4 a 4 \<Longrightarrow> rd32 (switch_out c s cur) a = rd32 (ram c) a"
  by (rule rd32_cong) (auto simp: apart_def intro!: switch_out_elsewhere)

text \<open>A memory of zeros, for examples.\<close>

definition zeros :: mem where "zeros = (\<lambda>_. Some 0)"

lemma rd32_zeros [simp]: "rd32 zeros a = Some 0"
  by (simp add: rd32_def load4 zeros_def dec32_def One_nat_def)

definition everywhere :: "mem \<Rightarrow> bool" where "everywhere m \<longleftrightarrow> (\<forall>x. m x \<noteq> None)"

lemma everywhere_mapped: "everywhere m \<Longrightarrow> mapped m lo hi" "everywhere m \<Longrightarrow> cell m a"
  by (simp_all add: everywhere_def mapped_def cell_def)

lemma everywhere_put [simp]: "everywhere zeros" "everywhere m \<Longrightarrow> everywhere (put32 m a v)"
  by (simp_all add: everywhere_def zeros_def put32_def)

text \<open>A call \<open>switch_to(cur, next)\<close> with the stack pointer at \<open>4112\<close>.\<close>

definition demo_call :: "mem \<Rightarrow> nat \<Rightarrow> nat \<Rightarrow> cpu" where
  "demo_call m cur next = \<lparr>regs = (\<lambda>_. 0)(ESP := 4112, EBX := 7, EBP := 9),
     ram = put32 (put32 (put32 m 4112 1280) 4116 cur) 4120 next\<rparr>"

lemma demo_call:
  "everywhere m \<Longrightarrow> cur < 4294967296 \<Longrightarrow> next < 4294967296 \<Longrightarrow> 4124 \<le> cur \<Longrightarrow> called_switch (demo_call m cur next) 4096 cur next"
  "rd32 (ram (demo_call m cur next)) 4112 = Some 1280"
  "everywhere m \<Longrightarrow> everywhere (ram (demo_call m cur next))"
  "x < 4112 \<or> 4124 \<le> x \<Longrightarrow> ram (demo_call m cur next) x = m x"
  "regs (demo_call m cur next) CS = 0"
  by (auto simp: demo_call_def called_switch_def everywhere_mapped kmem.rd_same kmem.rd_apart apart_def put32_out)

text \<open>
  Property C19. A thread that calls \<open>switch_to\<close> is continued, by whichever later call of \<open>switch_to\<close> names
  it as the next thread, at the instruction after its own call, with the stack pointer and the
  registers \<open>ebp\<close>, \<open>ebx\<close>, \<open>edi\<close> and \<open>esi\<close> it had; only its saved words and the first word of its
  control block have to be left alone in between.
\<close>

theorem switch_resumes_caller:
  assumes first: "called_switch c s cur next" "rd32 (ram c) (s + 16) = Some ra" "run switch_code c = Some c1"
    and again: "called_switch c2 s2 other cur"
      "apart s2 16 s 20" "apart s2 16 cur 4" "apart other 4 s 20" "apart other 4 cur 4"
    and keep: "\<forall>x. s \<le> x \<and> x < s + 20 \<or> cur \<le> x \<and> x < cur + 4 \<longrightarrow> ram c2 x = ram c1 x"
  shows "\<exists>c3. run switch_code c2 = Some c3 \<and> regs c3 ESP = s + 20 \<and> regs c3 EIP = ra \<and>
    map (regs c3) [EBP, EBX, EDI, ESI] = map (regs c) [EBP, EBX, EDI, ESI]"
proof -
  have m1: "ram c1 = switch_out c s cur" using switch_ram [OF first(1,3)] .
  have far: "apart s 28 cur 4" "s + 28 \<le> 4294967296" using first(1) by (simp_all add: called_switch_def)
  have same: "rd32 (ram c2) (s + j) = rd32 (switch_out c s cur) (s + j)" if "j + 4 \<le> 20" for j
    by (rule rd32_cong) (use keep m1 that in auto)
  have cur: "rd32 (ram c2) cur = rd32 (switch_out c s cur) cur"
    by (rule rd32_cong) (use keep m1 in auto)
  have ret: "rd32 (switch_out c s cur) (s + 16) = Some ra"
    using first(2) far(1) by (subst rd32_switch_out) (auto simp: apart_def)
  have stay: "rd32 (switch_out c2 s2 other) (s + j) = rd32 (ram c2) (s + j)" if "j + 4 \<le> 20" for j
    by (rule rd32_switch_out) (use that again in \<open>auto simp: apart_def\<close>)
  have stay': "rd32 (switch_out c2 s2 other) cur = rd32 (ram c2) cur"
    by (rule rd32_switch_out) (use again in auto)
  note f = switch_out_frame [OF first(1)]
  have j: "rd32 (switch_out c2 s2 other) s = Some (regs c EBP)"
    "rd32 (switch_out c2 s2 other) (s + 4) = Some (regs c EBX)"
    "rd32 (switch_out c2 s2 other) (s + 8) = Some (regs c EDI)"
    "rd32 (switch_out c2 s2 other) (s + 12) = Some (regs c ESI)"
    "rd32 (switch_out c2 s2 other) (s + 16) = Some ra"
    using f same [of 0] same [of 4] same [of 8] same [of 12] same [of 16]
      stay [of 0] stay [of 4] stay [of 8] stay [of 12] stay [of 16] ret by simp_all
  have "rd32 (switch_out c2 s2 other) cur = Some s" using f(1) cur stay' by simp
  then show ?thesis using again(1) far(2) j by (simp add: switch_to_run resume_run)
qed

lemma demo_switch: "\<exists>c1. run switch_code (demo_call zeros 8192 12288) = Some c1 \<and> everywhere (ram c1)"
proof -
  let ?m = "switch_out (demo_call zeros 8192 12288) 4096 8192"
  have z: "rd32 ?m a = Some 0" if "a + 4 \<le> 4096 \<or> a = 12288" for a
    using that by (auto simp: rd32_switch_out apart_def demo_call_def kmem.rd_apart)
  have "everywhere ?m" by (simp add: switch_out_def kmem.push_words.simps demo_call_def)
  then show ?thesis
    by (simp add: switch_to_run [OF demo_call(1)] z resume_run [where k = 0])
qed

theorem switch_resumes_caller_witness:
  "\<exists>c1 c3. run switch_code (demo_call zeros 8192 12288) = Some c1 \<and>
     run switch_code (c1\<lparr>regs := (\<lambda>_. 0)(ESP := 32784), ram := put32 (put32 (ram c1) 32788 12288) 32792 8192\<rparr>) = Some c3 \<and>
     map (regs c3) [EIP, ESP, EBP, EBX] = [1280, 4116, 9, 7]"
proof -
  from demo_switch obtain c1 where c1: "run switch_code (demo_call zeros 8192 12288) = Some c1" "everywhere (ram c1)" by blast
  let ?c2 = "c1\<lparr>regs := (\<lambda>_. 0)(ESP := 32784), ram := put32 (put32 (ram c1) 32788 12288) 32792 8192\<rparr>"
  have 2: "called_switch ?c2 32768 12288 8192"
    using c1(2) by (simp add: called_switch_def everywhere_mapped kmem.rd_same kmem.rd_apart apart_def)
  have "\<exists>c3. run switch_code ?c2 = Some c3 \<and> regs c3 ESP = 4096 + 20 \<and> regs c3 EIP = 1280 \<and>
      map (regs c3) [EBP, EBX, EDI, ESI] = map (regs (demo_call zeros 8192 12288)) [EBP, EBX, EDI, ESI]"
    by (rule switch_resumes_caller [OF demo_call(1) _ c1(1) 2]) (auto simp: demo_call(2) apart_def put32_out)
  then show ?thesis using c1(1) by (auto simp: demo_call_def)
qed

section \<open>The first switch to a thread\<close>

lemma put32_mapped: "mapped m lo hi \<Longrightarrow> mapped (put32 m a v) lo hi"
  by (auto simp: mapped_def put32_def)

lemma thread_create_stack_frame:
  assumes m: "mapped m t (t + 4096)" "t + 4096 < 4294967296" "rd32 m t = Some (t + 4096)"
    and v: "kt < 4294967296" "f < 4294967296" "arg < 4294967296"
  shows "\<exists>m'. thread_create_stack m t kt f arg = Some m' \<and> rd32 m' t = Some (t + 3988) \<and>
    rd32 m' (t + 3988) = Some 0 \<and> rd32 m' (t + 3992) = Some 0 \<and> rd32 m' (t + 3996) = Some 0 \<and>
    rd32 m' (t + 4000) = Some 0 \<and> rd32 m' (t + 4004) = Some kt \<and> rd32 m' (t + 4012) = Some f \<and>
    rd32 m' (t + 4016) = Some arg"
proof -
  have c: "cell m' (j + t)" if "mapped m' t (t + 4096)" "j + 4 \<le> 4096" for m' j
    using that by (intro mapped_cell [of m' t "t + 4096"]) auto
  have c0: "cell m' t" if "mapped m' t (t + 4096)" for m' using c [OF that, of 0] by simp
  have s: "sub32 (4096 + t) 76 = 4020 + t" "sub32 (4020 + t) 32 = 3988 + t"
    using m(2) by (simp_all add: sub32_le)
  show ?thesis
    using m v by (simp add: thread_create_stack_def intr_stack_size_def thread_stack_size_def s
        kmem.wr_put c c0 put32_mapped kmem.rd_same kmem.rd_apart apart_def add.commute [of t])
qed

text \<open>
  The first switch to a thread that \<open>thread_create\<close> has prepared enters \<open>kernel_thread\<close>
  with the function and its argument as the arguments on the stack, behind an unused return address.
\<close>

theorem new_thread_enters_function:
  assumes m: "mapped m t (t + 4096)" "t + 4096 < 4294967296" "rd32 m t = Some (t + 4096)"
    and v: "kt < 4294967296" "f < 4294967296" "arg < 4294967296"
    and made: "thread_create_stack m t kt f arg = Some m'"
    and call: "called_switch c s cur t" "apart s 16 t 4096" "apart cur 4 t 4096"
      "\<forall>x. t \<le> x \<and> x < t + 4096 \<longrightarrow> ram c x = m' x"
  shows "\<exists>c1. run switch_code c = Some c1 \<and> regs c1 EIP = kt \<and>
    rd32 (ram c1) (regs c1 ESP + 4) = Some f \<and> rd32 (ram c1) (regs c1 ESP + 8) = Some arg \<and>
    map (regs c1) [EBP, EBX, EDI, ESI] = [0, 0, 0, 0]"
proof -
  from thread_create_stack_frame [OF m v] made have f: "rd32 m' t = Some (t + 3988)"
    "rd32 m' (t + 3988) = Some 0" "rd32 m' (t + 3992) = Some 0" "rd32 m' (t + 3996) = Some 0"
    "rd32 m' (t + 4000) = Some 0" "rd32 m' (t + 4004) = Some kt" "rd32 m' (t + 4012) = Some f"
    "rd32 m' (t + 4016) = Some arg" by auto
  have r: "rd32 (switch_out c s cur) (t + j) = rd32 m' (t + j)" if "j + 4 \<le> 4096" for j
  proof -
    have "rd32 (switch_out c s cur) (t + j) = rd32 (ram c) (t + j)"
      by (rule rd32_switch_out) (use that call in \<open>auto simp: apart_def\<close>)
    also have "\<dots> = rd32 m' (t + j)" by (rule rd32_cong) (use that call(4) in auto)
    finally show ?thesis .
  qed
  have "rd32 (switch_out c s cur) t = Some (t + 3988)" using r [of 0] f(1) by simp
  moreover have "rd32 (switch_out c s cur) (t + 3988) = Some 0" "rd32 (switch_out c s cur) (t + 3988 + 4) = Some 0"
    "rd32 (switch_out c s cur) (t + 3988 + 8) = Some 0" "rd32 (switch_out c s cur) (t + 3988 + 12) = Some 0"
    "rd32 (switch_out c s cur) (t + 3988 + 16) = Some kt" "rd32 (switch_out c s cur) (t + 3988 + 20 + 4) = Some f"
    "rd32 (switch_out c s cur) (t + 3988 + 20 + 8) = Some arg"
    using f r [of 3988] r [of 3992] r [of 3996] r [of 4000] r [of 4004] r [of 4012] r [of 4016]
    by (simp_all add: add.commute [of t])
  ultimately show ?thesis using call(1) m(2)
    by (simp add: switch_to_run resume_run [where k = "t + 3988"] del: add_numeral_left)
qed

theorem new_thread_enters_function_witness:
  "\<exists>m' c1. thread_create_stack (put32 zeros 16384 20480) 16384 100 200 300 = Some m' \<and>
     run switch_code (demo_call m' 8192 16384) = Some c1 \<and> regs c1 EIP = 100 \<and>
     rd32 (ram c1) (regs c1 ESP + 4) = Some 200 \<and> rd32 (ram c1) (regs c1 ESP + 8) = Some 300"
proof -
  let ?m = "put32 zeros 16384 20480"
  have m: "mapped ?m 16384 (16384 + 4096)" "rd32 ?m 16384 = Some (16384 + 4096)"
    by (simp_all add: everywhere_mapped kmem.rd_same)
  obtain m' where m': "thread_create_stack ?m 16384 100 200 300 = Some m'"
    using thread_create_stack_frame [OF m(1) _ m(2), of 100 200 300] by auto
  have e: "everywhere m'" using m'
    by (simp add: thread_create_stack_def kmem.rd_same kmem.wr_put everywhere_mapped
        intr_stack_size_def thread_stack_size_def sub32_le) (metis everywhere_put)
  have "\<exists>c1. run switch_code (demo_call m' 8192 16384) = Some c1 \<and> regs c1 EIP = 100 \<and>
      rd32 (ram c1) (regs c1 ESP + 4) = Some 200 \<and> rd32 (ram c1) (regs c1 ESP + 8) = Some 300 \<and>
      map (regs c1) [EBP, EBX, EDI, ESI] = [0, 0, 0, 0]"
    by (rule new_thread_enters_function [OF m(1) _ m(2) _ _ _ m' demo_call(1)])
      (auto simp: demo_call(4) e apart_def)
  then show ?thesis using m' by blast
qed

section \<open>The return from an interrupt\<close>

definition frame_at :: "mem \<Rightarrow> nat \<Rightarrow> intr_stack \<Rightarrow> bool" where
  "frame_at m k stk \<longleftrightarrow> list_all (\<lambda>j. rd32 m (k + 4 * j) = Some (stack_words stk ! j)) [0..<19]"

text \<open>The registers of the interrupted program that a frame holds.\<close>

fun frame_regs :: "intr_stack \<Rightarrow> reg \<Rightarrow> nat" where
  "frame_regs k EAX = r_eax k" | "frame_regs k EBX = r_ebx k" | "frame_regs k ECX = r_ecx k"
| "frame_regs k EDX = r_edx k" | "frame_regs k ESI = r_esi k" | "frame_regs k EDI = r_edi k"
| "frame_regs k EBP = r_ebp k" | "frame_regs k ESP = r_esp k" | "frame_regs k EIP = r_eip k"
| "frame_regs k GS = w16 (r_gs k)" | "frame_regs k FS = w16 (r_fs k)" | "frame_regs k ES = w16 (r_es k)"
| "frame_regs k DS = w16 (r_ds k)" | "frame_regs k CS = w16 (r_cs k)" | "frame_regs k EFLAGS = r_eflags k"
| "frame_regs k SS = w16 (r_ss k)"

lemma frame_at_words:
  "frame_at m k stk \<longleftrightarrow> rd32 m k = Some (vec_no stk) \<and> rd32 m (k + 4) = Some (r_edi stk) \<and>
     rd32 m (k + 8) = Some (r_esi stk) \<and> rd32 m (k + 12) = Some (r_ebp stk) \<and> rd32 m (k + 16) = Some (r_esp_dummy stk) \<and>
     rd32 m (k + 20) = Some (r_ebx stk) \<and> rd32 m (k + 24) = Some (r_edx stk) \<and> rd32 m (k + 28) = Some (r_ecx stk) \<and>
     rd32 m (k + 32) = Some (r_eax stk) \<and> rd32 m (k + 36) = Some (r_gs stk) \<and> rd32 m (k + 40) = Some (r_fs stk) \<and>
     rd32 m (k + 44) = Some (r_es stk) \<and> rd32 m (k + 48) = Some (r_ds stk) \<and> rd32 m (k + 52) = Some (err_code stk) \<and>
     rd32 m (k + 56) = Some (r_eip stk) \<and> rd32 m (k + 60) = Some (r_cs stk) \<and> rd32 m (k + 64) = Some (r_eflags stk) \<and>
     rd32 m (k + 68) = Some (r_esp stk) \<and> rd32 m (k + 72) = Some (r_ss stk)"
proof -
  have u: "[0..<19] = [0, 1, 2, 3, 4, 5, 6, 7, 8, 9, 10, 11, 12, 13, 14, 15, 16, 17, 18 :: nat]"
    by (simp add: upt_conv_Cons One_nat_def)
  show ?thesis unfolding frame_at_def u by (simp add: stack_words_def numeral_eq_Suc One_nat_def)
qed

lemma frame_regs_all:
  "g(EDI := r_edi k, ESI := r_esi k, EBP := r_ebp k, EBX := r_ebx k, EDX := r_edx k, ECX := r_ecx k, EAX := r_eax k,
     GS := w16 (r_gs k), FS := w16 (r_fs k), ES := w16 (r_es k), DS := w16 (r_ds k), EIP := r_eip k,
     CS := w16 (r_cs k), EFLAGS := r_eflags k, ESP := r_esp k, SS := w16 (r_ss k)) = frame_regs k"
proof
  fix r show "(g(EDI := r_edi k, ESI := r_esi k, EBP := r_ebp k, EBX := r_ebx k, EDX := r_edx k, ECX := r_ecx k,
     EAX := r_eax k, GS := w16 (r_gs k), FS := w16 (r_fs k), ES := w16 (r_es k), DS := w16 (r_ds k), EIP := r_eip k,
     CS := w16 (r_cs k), EFLAGS := r_eflags k, ESP := r_esp k, SS := w16 (r_ss k))) r = frame_regs k r"
    by (cases r) simp_all
qed

lemma return_from_intr_run:
  assumes f: "frame_at (ram c) k stk" and k: "regs c ESP = k" "k + 76 < 4294967296"
    and user: "regs c CS AND 3 < w16 (r_cs stk) AND 3"
  shows "run return_from_intr c = Some (c\<lparr>regs := frame_regs stk\<rparr>)"
  using f [unfolded frame_at_words add.commute [of k]] k user
  by (simp add: return_from_intr_def popad_def pop_run iretd_def trim_def frame_regs_all add.commute [of k])

lemma frame_at_cong: "\<forall>x. k \<le> x \<longrightarrow> x < k + 76 \<longrightarrow> m' x = m x \<Longrightarrow> frame_at m' k stk = frame_at m k stk"
proof -
  assume h: "\<forall>x. k \<le> x \<longrightarrow> x < k + 76 \<longrightarrow> m' x = m x"
  have "rd32 m' (k + 4 * j) = rd32 m (k + 4 * j)" if "j < 19" for j
    by (rule rd32_cong) (use h that in auto)
  then show ?thesis by (auto simp: frame_at_def list_all_iff)
qed

lemma rd32_shift:
  assumes "\<forall>i < 4. m' (b + i) = m (a + i)"
  shows "rd32 m' b = rd32 m a"
proof -
  have "m' b = m a" "m' (b + 1) = m (a + 1)" "m' (b + 2) = m (a + 2)" "m' (b + 3) = m (a + 3)"
    using assms [rule_format, of 0] assms [rule_format, of 1] assms [rule_format, of 2] assms [rule_format, of 3]
    by simp_all
  then show ?thesis by (simp add: rd32_def load4)
qed

lemma frame_at_shift: "\<forall>i < 76. m' (b + i) = m (a + i) \<Longrightarrow> frame_at m' b stk = frame_at m a stk"
proof -
  assume h: "\<forall>i < 76. m' (b + i) = m (a + i)"
  have "rd32 m' (b + 4 * j) = rd32 m (a + 4 * j)" if "j < 19" for j
  proof (rule rd32_shift, intro allI impI)
    fix i :: nat assume "i < 4"
    then have "4 * j + i < 76" using that by simp
    then show "m' (b + 4 * j + i) = m (a + 4 * j + i)" using h by (metis add.assoc)
  qed
  then show ?thesis by (auto simp: frame_at_def list_all_iff)
qed

lemma build_child_stack_frame:
  assumes m: "mapped m c (c + 4096)" "c + 4096 < 4294967296" "frame_at m (c + 4020) stk" "ie < 4294967296"
  shows "\<exists>m'. build_child_stack m c ie = Some m' \<and> frame_at m' (c + 4020) (stk\<lparr>r_eax := 0\<rparr>) \<and>
    rd32 m' c = Some (c + 4000) \<and> rd32 m' (c + 4000) = Some 0 \<and> rd32 m' (c + 4004) = Some 0 \<and>
    rd32 m' (c + 4008) = Some 0 \<and> rd32 m' (c + 4012) = Some 0 \<and> rd32 m' (c + 4016) = Some ie"
proof -
  have c: "cell m' (j + c)" if "mapped m' c (c + 4096)" "j + 4 \<le> 4096" for m' j
    using that by (intro mapped_cell [of m' c "c + 4096"]) auto
  have c0: "cell m' c" if "mapped m' c (c + 4096)" for m' using c [OF that, of 0] by simp
  have s: "sub32 (4020 + c) 4 = 4016 + c" "sub32 (4020 + c) 8 = 4012 + c" "sub32 (4020 + c) 12 = 4008 + c"
    "sub32 (4020 + c) 16 = 4004 + c" "sub32 (4020 + c) 20 = 4000 + c" "c + 4096 - 76 = 4020 + c"
    using m(2) by (simp_all add: sub32_le)
  have w: "w32 (4020 + c) = 4020 + c" using m(2) by simp
  show ?thesis
    using m(1,2,4) m(3) [unfolded frame_at_words add.commute [of c]]
    by (simp add: build_child_stack_def intr_stack_size_def PG_SIZE_def s w frame_at_words Let_def
        kmem.wr_put c c0 put32_mapped kmem.rd_same kmem.rd_apart apart_def add.commute [of c])
qed

text \<open>
  Property C18. A forked child returns from \<open>fork\<close> with result 0 and the parent's registers: the
  first switch to it enters \<open>intr_exit\<close>, whose return takes from the copied kernel stack exactly
  what the parent saved when it entered the kernel, with \<open>eax\<close> cleared.
\<close>

theorem fork_child_returns_zero:
  assumes parent: "frame_at m (p + 4020) stk" "mapped m p (p + 4096)"
    and child: "mapped m c (c + 4096)" "c + 4096 < 4294967296" "apart c 4096 p 4096"
    and made: "memcpy m c p PG_SIZE = Some m1" "mapped m2 c (c + 4096)"
      "\<forall>x. c + 4020 \<le> x \<and> x < c + 4096 \<longrightarrow> m2 x = m1 x"
      "ie < 4294967296" "build_child_stack m2 c ie = Some m3"
    and call: "called_switch q s cur c" "apart s 16 c 4096" "apart cur 4 c 4096"
      "\<forall>x. c \<le> x \<and> x < c + 4096 \<longrightarrow> ram q x = m3 x"
    and user: "regs q CS AND 3 < w16 (r_cs stk) AND 3"
  shows "\<exists>q1 q2. run switch_code q = Some q1 \<and> regs q1 EIP = ie \<and>
    run return_from_intr q1 = Some q2 \<and> regs q2 = (frame_regs stk)(EAX := 0)"
proof -
  have "\<exists>m'. memcpy m c p PG_SIZE = Some m' \<and> (\<forall>i < PG_SIZE. m' (c + i) = m (p + i)) \<and>
      (\<forall>a. a < c \<or> c + PG_SIZE \<le> a \<longrightarrow> m' a = m a)"
    using memcpy_spec [of p PG_SIZE m c] parent(2) child by (auto simp: mapped_def PG_SIZE_def apart_def)
  then have cp: "m1 (c + i) = m (p + i)" if "i < 4096" for i using made(1) that by (auto simp: PG_SIZE_def)
  have "frame_at m1 (c + 4020) stk = frame_at m (p + 4020) stk"
    by (rule frame_at_shift) (use cp in \<open>simp add: add.assoc\<close>)
  moreover have "frame_at m2 (c + 4020) stk = frame_at m1 (c + 4020) stk"
    by (rule frame_at_cong) (use made(3) in auto)
  ultimately have "frame_at m2 (c + 4020) stk" using parent(1) by simp
  from build_child_stack_frame [OF made(2) child(2) this made(4)] made(5)
  have f: "frame_at m3 (c + 4020) (stk\<lparr>r_eax := 0\<rparr>)" "rd32 m3 c = Some (c + 4000)" "rd32 m3 (c + 4000) = Some 0"
    "rd32 m3 (c + 4004) = Some 0" "rd32 m3 (c + 4008) = Some 0" "rd32 m3 (c + 4012) = Some 0" "rd32 m3 (c + 4016) = Some ie"
    by auto
  have r: "rd32 (switch_out q s cur) (j + c) = rd32 m3 (j + c)" if "j + 4 \<le> 4096" for j
  proof -
    have "rd32 (switch_out q s cur) (j + c) = rd32 (ram q) (j + c)"
      by (rule rd32_switch_out) (use that call in \<open>auto simp: apart_def\<close>)
    also have "\<dots> = rd32 m3 (j + c)" by (rule rd32_cong) (use that call(4) in auto)
    finally show ?thesis .
  qed
  let ?q = "q\<lparr>regs := (regs q)(EAX := c, ESP := c + 4020, EBP := 0, EBX := 0, EDI := 0, ESI := 0, EIP := ie),
    ram := switch_out q s cur\<rparr>"
  have "rd32 (switch_out q s cur) c = Some (c + 4000)" using r [of 0] f(2) by simp
  then have 1: "run switch_code q = Some ?q" using call(1) child(2) f(2-)
    by (simp add: switch_to_run resume_run [where k = "c + 4000"] r add.commute [of c] fun_upd_twist)
  have "frame_at (switch_out q s cur) (c + 4020) (stk\<lparr>r_eax := 0\<rparr>) = frame_at m3 (c + 4020) (stk\<lparr>r_eax := 0\<rparr>)"
    by (rule frame_at_cong) (use call(2-) in \<open>auto simp: apart_def switch_out_elsewhere\<close>)
  then have 2: "run return_from_intr ?q = Some (?q\<lparr>regs := frame_regs (stk\<lparr>r_eax := 0\<rparr>)\<rparr>)"
    using f(1) child(2) user by (intro return_from_intr_run) auto
  have "frame_regs (stk\<lparr>r_eax := 0\<rparr>) r = ((frame_regs stk)(EAX := 0)) r" for r by (cases r) simp_all
  then show ?thesis using 1 2 by auto
qed

definition demo_user_frame :: intr_stack where
  "demo_user_frame = \<lparr>vec_no = 0, r_edi = 0, r_esi = 0, r_ebp = 0, r_esp_dummy = 0, r_ebx = 0, r_edx = 0, r_ecx = 0,
     r_eax = 2, r_gs = 0, r_fs = 0, r_es = 0, r_ds = 0, err_code = 0, r_eip = 0, r_cs = 43, r_eflags = 0, r_esp = 0, r_ss = 0\<rparr>"

definition demo_parent :: mem where
  "demo_parent = put32 (put32 zeros 20436 2) 20464 43"

lemma demo_parent: "frame_at demo_parent 20404 demo_user_frame" "everywhere demo_parent"
  by (simp_all add: frame_at_words demo_user_frame_def demo_parent_def kmem.rd_same kmem.rd_apart apart_def)

lemma memcpy_everywhere: "everywhere m \<Longrightarrow> dst + n \<le> src \<or> src + n \<le> dst \<Longrightarrow>
    \<exists>m'. memcpy m dst src n = Some m' \<and> everywhere m' \<and> (\<forall>i < n. m' (dst + i) = m (src + i))"
proof -
  assume e: "everywhere m" and d: "dst + n \<le> src \<or> src + n \<le> dst"
  obtain m' where m': "memcpy m dst src n = Some m'" "\<forall>i < n. m' (dst + i) = m (src + i)"
    "\<forall>a. a < dst \<or> dst + n \<le> a \<longrightarrow> m' a = m a"
    using memcpy_spec [of src n m dst] e d by (auto simp: everywhere_def)
  have "m' x \<noteq> None" for x
  proof (cases "x < dst \<or> dst + n \<le> x")
    case False
    then have "m' (dst + (x - dst)) = m (src + (x - dst))" using m'(2) by (metis add_diff_inverse_nat leI less_diff_conv2 not_le add.commute)
    then show ?thesis using e False by (simp add: everywhere_def)
  qed (use m'(3) e in \<open>auto simp: everywhere_def\<close>)
  with m' show ?thesis by (auto simp: everywhere_def)
qed

lemma wr32_everywhere: "wr32 m a v = Some m' \<Longrightarrow> everywhere m \<Longrightarrow> everywhere m'"
  by (simp add: kmem.wr_put everywhere_mapped) (metis everywhere_put(2))

lemma build_child_everywhere: "build_child_stack m c ie = Some m' \<Longrightarrow> everywhere m \<Longrightarrow> everywhere m'"
  by (auto simp: build_child_stack_def Let_def split: bind_splits)
    (blast dest: wr32_everywhere)

lemma frame_shift_index: "\<forall>i < (4096 :: nat). m1 (24576 + i) = m (16384 + i) \<Longrightarrow> i < 76 \<Longrightarrow> m1 (28596 + i) = m (20404 + i)"
  by (drule spec [of _ "4020 + i"]) simp

theorem fork_child_returns_zero_witness:
  "\<exists>m1 m3 q1 q2. memcpy demo_parent 24576 16384 PG_SIZE = Some m1 \<and> build_child_stack m1 24576 100 = Some m3 \<and>
     run switch_code (demo_call m3 8192 24576) = Some q1 \<and> run return_from_intr q1 = Some q2 \<and>
     regs q2 EAX = 0 \<and> regs q2 CS = 43"
proof -
  obtain m1 where m1: "memcpy demo_parent 24576 16384 PG_SIZE = Some m1" "everywhere m1"
    "\<forall>i < PG_SIZE. m1 (24576 + i) = demo_parent (16384 + i)"
    using memcpy_everywhere [OF demo_parent(2), of 24576 PG_SIZE 16384] by (auto simp: PG_SIZE_def)
  have "frame_at m1 28596 demo_user_frame"
    using frame_at_shift [of m1 28596 demo_parent 20404 demo_user_frame] demo_parent(1) m1(3)
    by (simp add: PG_SIZE_def frame_shift_index)
  then obtain m3 where m3: "build_child_stack m1 24576 100 = Some m3"
    using build_child_stack_frame [of m1 24576 demo_user_frame 100] m1(2) by (auto simp: everywhere_mapped)
  have e: "everywhere m3" using build_child_everywhere [OF m3 m1(2)] .
  have "\<exists>q1 q2. run switch_code (demo_call m3 8192 24576) = Some q1 \<and> regs q1 EIP = 100 \<and>
      run return_from_intr q1 = Some q2 \<and> regs q2 = (frame_regs demo_user_frame)(EAX := 0)"
    by (rule fork_child_returns_zero [OF _ _ _ _ _ m1(1) _ _ _ m3 demo_call(1)])
      (use demo_parent m1(2) e in \<open>auto simp: everywhere_mapped apart_def demo_call(4,5) demo_user_frame_def\<close>)
  then show ?thesis using m1(1) m3 by (auto simp: demo_user_frame_def)
qed

section \<open>Jumping back into \<open>setjmp\<close>\<close>

lemma apart_off:
  "apart (i + a) 4 (j + a) 4 \<longleftrightarrow> i + 4 \<le> j \<or> j + 4 \<le> i"
  "apart a 4 (j + a) 4 \<longleftrightarrow> 4 \<le> j" "apart (i + a) 4 a 4 \<longleftrightarrow> 4 \<le> i"
  by (auto simp: apart_def)

lemma cpu_all: "c\<lparr>ram := m, regs := g\<rparr> = \<lparr>regs = g, ram = m\<rparr>" "c\<lparr>regs := g, ram := m\<rparr> = \<lparr>regs = g, ram = m\<rparr>"
  by (cases c; simp)+

lemma setjmp_run:
  assumes e: "regs c ESP = s + 4" "s + 12 \<le> 4294967296" "cell (ram c) s" "rd32 (ram c) (s + 4) = Some ra"
      "rd32 (ram c) (s + 8) = Some buf"
    and b: "mapped (ram c) buf (buf + 24)" "apart s 12 buf 24" and r: "\<forall>r. regs c r < 4294967296"
  shows "\<exists>m'. setjmp c = Some \<lparr>regs = (regs c)(EAX := 0, ESP := s + 8, EBP := regs c EBP, EIP := ra), ram = m'\<rparr> \<and>
    rd32 m' buf = Some (s + 4) \<and> rd32 m' (buf + 4) = Some (regs c EBP) \<and> rd32 m' (buf + 8) = Some ra \<and>
    rd32 m' (buf + 12) = Some (regs c EBX) \<and> rd32 m' (buf + 16) = Some (regs c ESI) \<and>
    rd32 m' (buf + 20) = Some (regs c EDI)"
proof -
  have cb: "cell m (j + buf)" if "mapped m buf (buf + 24)" "j + 4 \<le> 24" for m j
    using that by (intro mapped_cell [of m buf "buf + 24"]) auto
  have c0: "cell m buf" if "mapped m buf (buf + 24)" for m using cb [OF that, of 0] by simp
  have a: "apart (j + buf) 4 (i + s) 4" if "i + 4 \<le> 12" "j + 4 \<le> 24" for i j
    using b(2) that by (auto simp: apart_def)
  have a1: "apart (j + buf) 4 s 4" "apart s 4 (j + buf) 4" if "j + 4 \<le> 24" for j
    using b(2) that by (auto simp: apart_def)
  have a2: "apart buf 4 (i + s) 4" if "i + 4 \<le> 12" for i
    using b(2) that by (auto simp: apart_def)
  have a3: "apart buf 4 s 4" "apart s 4 buf 4" using b(2) by (auto simp: apart_def)
  have ra: "ra < 4294967296" using e(4) by (rule rd32_less)
  show ?thesis using e b(1) r ra
    by (simp add: setjmp_def push_run pop_run kmem.wr_put cb c0 put32_mapped kmem.ok_put kmem.rd_same kmem.rd_apart a a1 a2 a3
        apart_off Let_def add.commute [of s] add.commute [of buf] fun_upd_twist cpu_all)
qed

lemma longjmp_run:
  assumes e: "regs c ESP = t + 4" "t = b + 24 + n" "t + 16 \<le> 4294967296" "mapped (ram c) b (t + 4)"
      "rd32 (ram c) (t + 8) = Some buf" "rd32 (ram c) (t + 12) = Some val"
    and x: "cell (ram c) x" "t + 4 \<le> x" "x + 4 < 4294967296" "apart x 4 (t + 12) 4" "apart x 4 buf 24"
    and buf: "rd32 (ram c) buf = Some x" "rd32 (ram c) (buf + 4) = Some bp" "rd32 (ram c) (buf + 8) = Some ra"
      "rd32 (ram c) (buf + 12) = Some bx" "rd32 (ram c) (buf + 16) = Some si" "rd32 (ram c) (buf + 20) = Some di"
      "apart b 24 buf 24" "apart t 4 buf 24"
  shows "\<exists>m'. longjmp n c = Some \<lparr>regs = (regs c)(ESP := x + 4, EAX := val, EBP := bp, EBX := bx, EDI := di,
    ESI := si, EIP := ra), ram = m'\<rparr>"
proof -
  have cl: "cell (ram c) t" "cell (ram c) b" "cell (ram c) (4 + b)" "cell (ram c) (8 + b)" "cell (ram c) (12 + b)"
      "cell (ram c) (16 + b)" "cell (ram c) (20 + b)"
    using e(2) by (auto intro!: mapped_cell [OF e(4)])
  have s: "sub32 t n = b + 24" using e(2,3) by (simp add: sub32_le)
  have a1: "apart x 4 (j + buf) 4" "apart t 4 (j + buf) 4" "apart b 4 (j + buf) 4" if "j + 4 \<le> 24" for j
    using x(5) buf(7,8) that by (auto simp: apart_def)
  have a2: "apart (i + b) 4 (j + buf) 4" if "i + 4 \<le> 24" "j + 4 \<le> 24" for i j
    using buf(7) that by (auto simp: apart_def)
  have a3: "apart (i + b) 4 buf 4" "apart (i + b) 4 (12 + t) 4" "apart (i + b) 4 x 4" if "i + 4 \<le> 24" for i
    using e(2) x(2) buf(7) that by (auto simp: apart_def)
  have a4: "apart x 4 buf 4" "apart t 4 buf 4" "apart b 4 buf 4" "apart x 4 (12 + t) 4" "apart b 4 x 4"
    using e(2) x buf(7,8) by (auto simp: apart_def)
  have b: "b + 24 < 4294967296" using e(2,3) by simp
  have v: "bp < 4294967296" "ra < 4294967296" "bx < 4294967296" "si < 4294967296" "di < 4294967296" "val < 4294967296"
      "x < 4294967296"
    using buf e(6) rd32_less by blast+
  show ?thesis using e(1,3,5,6) x(1,3) buf(1-6) b v
    by (simp add: longjmp_def push_run pop_run s cl kmem.wr_put kmem.ok_put kmem.rd_same kmem.rd_apart a1 a2 a3 a4
        apart_off add.commute [of t] add.commute [of b] add.commute [of buf] add.commute [of x] fun_upd_twist cpu_all)
qed

text \<open>
  Property C20. \<open>longjmp(env, val)\<close> continues at the return of the call of \<open>setjmp\<close> that filled
  \<open>env\<close>, which now has the value \<open>val\<close>, with the stack pointer and the registers the caller's
  code relies on as that call had left them; the caller's frame must still be on the stack.
\<close>

theorem longjmp_returns_from_setjmp:
  assumes call: "regs c ESP = s + 4" "s + 12 \<le> 4294967296" "cell (ram c) s" "rd32 (ram c) (s + 4) = Some ra"
      "rd32 (ram c) (s + 8) = Some env" "\<forall>r. regs c r < 4294967296"
    and env: "mapped (ram c) env (env + 24)" "apart s 12 env 24" "s + 8 < 4294967296"
    and first: "setjmp c = Some c1"
    and jump: "regs c2 ESP = t + 4" "t = b + 24 + n" "t + 16 \<le> 4294967296" "mapped (ram c2) b (t + 4)"
      "rd32 (ram c2) (t + 8) = Some env" "rd32 (ram c2) (t + 12) = Some val"
    and live: "t \<le> s" "cell (ram c2) (s + 4)" "apart (s + 4) 4 (t + 12) 4"
      "apart b 24 env 24" "apart t 4 env 24" "\<forall>x. env \<le> x \<and> x < env + 24 \<longrightarrow> ram c2 x = ram c1 x"
  shows "\<exists>c3. longjmp n c2 = Some c3 \<and> regs c1 EAX = 0 \<and> regs c3 EAX = val \<and>
    map (regs c3) [EIP, ESP, EBP, EBX, EDI, ESI] = map (regs c1) [EIP, ESP, EBP, EBX, EDI, ESI]"
proof -
  from setjmp_run [OF call(1-5) env(1,2) call(6)] first obtain m' where
    c1: "c1 = \<lparr>regs = (regs c)(EAX := 0, ESP := s + 8, EBP := regs c EBP, EIP := ra), ram = m'\<rparr>"
    and w: "rd32 m' env = Some (s + 4)" "rd32 m' (env + 4) = Some (regs c EBP)" "rd32 m' (env + 8) = Some ra"
      "rd32 m' (env + 12) = Some (regs c EBX)" "rd32 m' (env + 16) = Some (regs c ESI)"
      "rd32 m' (env + 20) = Some (regs c EDI)" by auto
  have k: "rd32 (ram c2) (env + j) = rd32 m' (env + j)" if "j + 4 \<le> 24" for j
    by (rule rd32_cong) (use live(6) c1 that in auto)
  have k0: "rd32 (ram c2) env = rd32 m' env" using k [of 0] by simp
  have "\<exists>m''. longjmp n c2 = Some \<lparr>regs = (regs c2)(ESP := (s + 4) + 4, EAX := val, EBP := regs c EBP,
      EBX := regs c EBX, EDI := regs c EDI, ESI := regs c ESI, EIP := ra), ram = m''\<rparr>"
    by (rule longjmp_run [OF jump live(2)]) (use live env w in \<open>auto simp: k k0 apart_def\<close>)
  then show ?thesis using c1 by auto
qed

definition demo_setjmp :: cpu where
  "demo_setjmp = \<lparr>regs = (\<lambda>_. 0)(ESP := 4100, EBP := 5000, EBX := 7), ram = put32 (put32 zeros 4100 1280) 4104 8192\<rparr>"

lemma setjmp_everywhere: "setjmp c = Some c1 \<Longrightarrow> everywhere (ram c) \<Longrightarrow> everywhere (ram c1)"
  by (auto simp: setjmp_def push_def pop_def Let_def split: bind_splits)
    (blast dest: wr32_everywhere)

theorem longjmp_returns_from_setjmp_witness:
  "\<exists>c1 c3. setjmp demo_setjmp = Some c1 \<and>
     longjmp 8 (c1\<lparr>regs := (\<lambda>_. 0)(ESP := 2052), ram := put32 (put32 (ram c1) 2056 8192) 2060 5\<rparr>) = Some c3 \<and>
     regs c3 EAX = 5 \<and> map (regs c3) [EIP, ESP, EBP, EBX] = map (regs c1) [EIP, ESP, EBP, EBX]"
proof -
  have 1: "regs demo_setjmp ESP = 4096 + 4" "(4096 :: nat) + 12 \<le> 4294967296" "cell (ram demo_setjmp) 4096"
    "rd32 (ram demo_setjmp) (4096 + 4) = Some 1280" "rd32 (ram demo_setjmp) (4096 + 8) = Some 8192"
    "\<forall>r. regs demo_setjmp r < 4294967296" "mapped (ram demo_setjmp) 8192 (8192 + 24)" "apart 4096 12 8192 24"
    "everywhere (ram demo_setjmp)"
    by (simp_all add: demo_setjmp_def kmem.rd_same kmem.rd_apart apart_def everywhere_mapped)
  then obtain c1 where c1: "setjmp demo_setjmp = Some c1"
    using setjmp_run [OF 1(1-5) 1(7,8,6)] by blast
  have e: "everywhere (ram c1)" using setjmp_everywhere [OF c1 1(9)] .
  let ?c2 = "c1\<lparr>regs := (\<lambda>_. 0)(ESP := 2052), ram := put32 (put32 (ram c1) 2056 8192) 2060 5\<rparr>"
  have "\<exists>c3. longjmp 8 ?c2 = Some c3 \<and> regs c1 EAX = 0 \<and> regs c3 EAX = 5 \<and>
      map (regs c3) [EIP, ESP, EBP, EBX, EDI, ESI] = map (regs c1) [EIP, ESP, EBP, EBX, EDI, ESI]"
    by (rule longjmp_returns_from_setjmp [OF 1(1-8) _ c1, where t = 2048 and b = 2016])
      (use e in \<open>auto simp: kmem.rd_same kmem.rd_apart apart_def everywhere_mapped put32_out\<close>)
  then show ?thesis using c1 by auto
qed

end
