(* ===== verification/Coreutils.thy ===== *)
theory Coreutils
  imports Tools Fs Stdio
begin

text \<open>
  The programs that work on whole files and directories: \<open>ls\<close>, \<open>rm\<close>, \<open>mkdir\<close>, \<open>rmdir\<close>, \<open>echo\<close>,
  \<open>pwd\<close>, \<open>clear\<close> and the argument handling of \<open>cat\<close> (\<open>src/system/src\<close>), and \<open>ps\<close> and \<open>help\<close> of the shell (\<open>sh/builtin.c\<close>). A program yields
  the bytes it prints and its exit status; the system calls are arguments. Printing goes through the
  model of \<open>vsprintf\<close>, whose buffer of 1024 bytes a long argument overruns (\<open>None\<close>).
\<close>

section \<open>Printing\<close>

definition chars :: "u8 list \<Rightarrow> string" where
  "chars bs = map (\<lambda>b. char_of (unat b)) bs"

definition bytes :: "string \<Rightarrow> u8 list" where
  "bytes s = map of_char s"

text \<open>\<open>printf\<close> and \<open>fprintf\<close> collect their arguments and write through \<open>vfprintf\<close>.\<close>

definition fprintf :: "(string \<Rightarrow> 's \<Rightarrow> int \<times> 's) \<Rightarrow> string \<Rightarrow> va_arg list \<Rightarrow> 's \<Rightarrow> (int \<times> 's) option" where
  "fprintf write fmt args s = vfprintf write fmt args s"

text \<open>The standard output of a program is the bytes written so far.\<close>

definition write_out :: "string \<Rightarrow> u8 list \<Rightarrow> int \<times> u8 list" where
  "write_out txt out = (int (length txt), out @ bytes txt)"

definition printf :: "string \<Rightarrow> va_arg list \<Rightarrow> u8 list \<Rightarrow> u8 list option" where
  "printf fmt args out = do { (n, out) \<leftarrow> vfprintf write_out fmt args out; Some out }"

abbreviation line_end :: string where "line_end \<equiv> [CHR 0x0A]"

section \<open>ls\<close>

text \<open>The arguments: a message and an exit status, or the options and the path.\<close>

fun ls_args :: "u8 list list \<Rightarrow> bool \<Rightarrow> u8 list option \<Rightarrow> (u8 list \<times> int + bool \<times> u8 list option) option" where
  "ls_args [] long_info pathname = Some (Inr (long_info, pathname))"
| "ls_args (a # as) long_info pathname =
     (if a \<noteq> [] \<and> hd a = minus_sign then
        if chars a = ''-l'' then ls_args as True pathname
        else if chars a = ''-h'' then
          do { out \<leftarrow> printf (''usage: -l list all infomation about the file.'' @ line_end @ ''-h for help'' @ line_end
                 @ ''list all files in the current dirctory if no option'' @ line_end) [] [];
               Some (Inl (out, 1)) }
        else
          do { out \<leftarrow> printf (''ls: invalid option %s'' @ line_end @ ''Try `ls -h' for more information.'' @ line_end)
                 [AStr (chars a)] [];
               Some (Inl (out, 1)) }
      else if pathname = None then ls_args as long_info (Some a)
      else do { out \<leftarrow> printf (''ls: only support one path'' @ line_end) [] []; Some (Inl (out, 1)) })"

definition entry_name :: "dir_entry \<Rightarrow> u8 list" where
  "entry_name e = takeWhile (\<lambda>c. c \<noteq> 0) (filename e)"

text \<open>The long listing. An entry whose path \<open>stat\<close> does not find ends the program.\<close>

fun ls_long :: "(u8 list \<Rightarrow> stat option) \<Rightarrow> u8 list \<Rightarrow> dir_entry list \<Rightarrow> u8 list \<Rightarrow> (u8 list \<times> int) option" where
  "ls_long stat_of sub_pathname [] out = Some (out, 0)"
| "ls_long stat_of sub_pathname (e # es) out =
     do { let ftype = (if f_type e = FT_REGULAR then CHR ''-'' else CHR ''d''); path = sub_pathname @ entry_name e in
          do { kassert (length path < MAX_PATH_LEN);
               case stat_of path of
                 None \<Rightarrow>
                   do { out \<leftarrow> printf (''ls: cannot access %s: No such file or directory'' @ line_end) [AStr (chars (entry_name e))] out;
                        Some (out, 2) }
               | Some fs \<Rightarrow>
                   do { out \<leftarrow> printf (''%c  %d  %d  %s'' @ line_end)
                          [AChar ftype, AInt (of_nat (de_i_no e)), AInt (of_nat (st_size fs)), AStr (chars (entry_name e))] out;
                        ls_long stat_of sub_pathname es out } } }"

fun ls_short :: "dir_entry list \<Rightarrow> u8 list \<Rightarrow> u8 list option" where
  "ls_short [] out = Some out"
| "ls_short (e # es) out = do { out \<leftarrow> printf ''%s '' [AStr (chars (entry_name e))] out; ls_short es out }"

text \<open>\<open>entries path\<close>: what \<open>opendir\<close> and \<open>readdir\<close> give; a directory that cannot be opened is a null pointer.\<close>

definition ls_path :: "(u8 list \<Rightarrow> stat option) \<Rightarrow> (u8 list \<Rightarrow> dir_entry list option) \<Rightarrow> bool \<Rightarrow> u8 list \<Rightarrow> (u8 list \<times> int) option" where
  "ls_path stat_of entries long_info pathname =
     (case stat_of pathname of
        None \<Rightarrow>
          do { out \<leftarrow> printf (''ls: cannot access %s: No such file or directory'' @ line_end) [AStr (chars pathname)] [];
               Some (out, 2) }
      | Some fs \<Rightarrow>
          if st_filetype fs = FT_DIRECTORY then
            do { es \<leftarrow> entries pathname;
                 kassert (pathname \<noteq> []);
                 let sub_pathname = (if last pathname \<noteq> slash then pathname @ [slash] else pathname) in
                 if long_info then
                   do { out \<leftarrow> printf (''total: %d'' @ line_end) [AInt (of_nat (st_size fs))] [];
                        ls_long stat_of sub_pathname es out }
                 else
                   do { out \<leftarrow> ls_short es [];
                        out \<leftarrow> printf line_end [] out;
                        Some (out, 0) } }
          else if long_info then
            do { out \<leftarrow> printf (''-  %d  %d  %s'' @ line_end) [AInt (of_nat (st_ino fs)), AInt (of_nat (st_size fs)), AStr (chars pathname)] [];
                 Some (out, 0) }
          else do { out \<leftarrow> printf (''%s'' @ line_end) [AStr (chars pathname)] []; Some (out, 0) })"

definition ls_main :: "u8 list option \<Rightarrow> (u8 list \<Rightarrow> stat option) \<Rightarrow> (u8 list \<Rightarrow> dir_entry list option) \<Rightarrow> u8 list list \<Rightarrow> (u8 list \<times> int) option" where
  "ls_main cwd stat_of entries argv =
     do { r \<leftarrow> ls_args (tl argv) False None;
          case r of
            Inl res \<Rightarrow> Some res
          | Inr (long_info, None) \<Rightarrow>
              (case cwd of
                 Some d \<Rightarrow> ls_path stat_of entries long_info d
               | None \<Rightarrow> do { out \<leftarrow> printf (''ls: getcwd for default path failed'' @ line_end) [] []; Some (out, 1) })
          | Inr (long_info, Some p) \<Rightarrow>
              do { final_path \<leftarrow> make_clear_abs_path cwd p; ls_path stat_of entries long_info final_path } }"

section \<open>rm, mkdir and rmdir\<close>

text \<open>Each takes the system call it makes; the root is left alone silently, with the status -1.\<close>

definition rm_main :: "(u8 list \<Rightarrow> 's \<Rightarrow> int \<times> 's) \<Rightarrow> u8 list option \<Rightarrow> u8 list list \<Rightarrow> 's \<Rightarrow> (u8 list \<times> int \<times> 's) option" where
  "rm_main unlink cwd argv s =
     (if length argv \<noteq> 2 then do { out \<leftarrow> printf (''rm: only support 1 argument!'' @ line_end) [] []; Some (out, - 1, s) }
      else
        do { final_path \<leftarrow> make_clear_abs_path cwd (argv ! 1);
             if final_path \<noteq> [slash] then
               let (r, s) = unlink final_path s in
               if r = 0 then Some ([], 0, s)
               else do { out \<leftarrow> printf (''rm: delete %s failed.'' @ line_end) [AStr (chars (argv ! 1))] []; Some (out, - 1, s) }
             else Some ([], - 1, s) })"

definition mkdir_main :: "(u8 list \<Rightarrow> 's \<Rightarrow> int \<times> 's) \<Rightarrow> u8 list option \<Rightarrow> u8 list list \<Rightarrow> 's \<Rightarrow> (u8 list \<times> int \<times> 's) option" where
  "mkdir_main mkdir cwd argv s =
     (if length argv \<noteq> 2 then do { out \<leftarrow> printf (''mkdir: only support 1 argument!'' @ line_end) [] []; Some (out, - 1, s) }
      else
        do { final_path \<leftarrow> make_clear_abs_path cwd (argv ! 1);
             if final_path \<noteq> [slash] then
               let (r, s) = mkdir final_path s in
               if r = 0 then Some ([], 0, s)
               else do { out \<leftarrow> printf (''mkdir: create directory %s failed.'' @ line_end) [AStr (chars (argv ! 1))] []; Some (out, - 1, s) }
             else Some ([], - 1, s) })"

definition rmdir_main :: "(u8 list \<Rightarrow> 's \<Rightarrow> int \<times> 's) \<Rightarrow> u8 list option \<Rightarrow> u8 list list \<Rightarrow> 's \<Rightarrow> (u8 list \<times> int \<times> 's) option" where
  "rmdir_main rmdir cwd argv s =
     (if length argv \<noteq> 2 then do { out \<leftarrow> printf (''rmdir: only support 1 argument!'' @ line_end) [] []; Some (out, - 1, s) }
      else
        do { final_path \<leftarrow> make_clear_abs_path cwd (argv ! 1);
             if final_path \<noteq> [slash] then
               let (r, s) = rmdir final_path s in
               if r = 0 then Some ([], 0, s)
               else do { out \<leftarrow> printf (''rmdir: remove %s failed.'' @ line_end) [AStr (chars (argv ! 1))] []; Some (out, - 1, s) }
             else Some ([], - 1, s) })"

section \<open>cat\<close>

text \<open>
  The path is the argument itself or the working directory, a slash and the argument; it is not
  cleaned. \<open>exit\<close> with -2 and the return of -1 are exit statuses.
\<close>

definition cat_path :: "u8 list option \<Rightarrow> u8 list \<Rightarrow> u8 list option" where
  "cat_path cwd a =
     (let abs_path = (if a = [] \<or> hd a \<noteq> slash then (case cwd of None \<Rightarrow> [] | Some d \<Rightarrow> d) @ [slash] @ a else a) in
      do { kassert (length abs_path < 512); Some abs_path })"

definition cat_main ::
  "(nat \<Rightarrow> 's \<Rightarrow> int \<times> u8 list \<times> 's) \<Rightarrow> (u8 list \<Rightarrow> 's \<Rightarrow> int \<times> 's) \<Rightarrow> (int \<Rightarrow> nat \<Rightarrow> 's \<Rightarrow> int \<times> u8 list \<times> 's) \<Rightarrow>
   u8 list option \<Rightarrow> u8 list list \<Rightarrow> 's \<Rightarrow> (u8 list \<times> int) option" where
  "cat_main rd_stdin opn rdf cwd argv s =
     (if 2 < length argv then do { out \<leftarrow> printf (''cat: argument error'' @ line_end) [] []; Some (out, - 2) }
      else if length argv = 1 then
        do { (out, r) \<leftarrow> cat_stdin rd_stdin s;
             out \<leftarrow> (if r < 0 then printf (''[cat] read return %d'' @ line_end) [AInt (of_int r)] out else Some out);
             Some (out, 0) }
      else
        do { a \<leftarrow> rd argv 1;
             abs_path \<leftarrow> cat_path cwd a;
             let (fd, s) = opn abs_path s in
             if fd = - 1 then
               do { out \<leftarrow> printf (''cat: open: open %s failed'' @ line_end) [AStr (chars a)] []; Some (out, - 1) }
             else do { out \<leftarrow> cat_file (rdf fd) s; Some (out, 0) } })"

section \<open>echo, pwd and clear\<close>

fun echo_rest :: "u8 list list \<Rightarrow> u8 list \<Rightarrow> u8 list option" where
  "echo_rest [] out = Some out"
| "echo_rest (a # as) out = do { out \<leftarrow> printf '' %s'' [AStr (chars a)] out; echo_rest as out }"

definition echo_main :: "u8 list list \<Rightarrow> (u8 list \<times> int) option" where
  "echo_main argv =
     (if length argv < 2 then do { out \<leftarrow> printf line_end [] []; Some (out, 0) }
      else
        do { out \<leftarrow> printf ''%s'' [AStr (chars (argv ! 1))] [];
             out \<leftarrow> echo_rest (drop 2 argv) out;
             out \<leftarrow> printf line_end [] out;
             Some (out, 0) })"

definition pwd_main :: "u8 list option \<Rightarrow> u8 list list \<Rightarrow> (u8 list \<times> int) option" where
  "pwd_main cwd argv =
     (if length argv \<noteq> 1 then do { out \<leftarrow> printf (''pwd: no argument support!'' @ line_end) [] []; Some (out, 1) }
      else (case cwd of
          None \<Rightarrow> do { out \<leftarrow> printf (''pwd: get current work directory failed.'' @ line_end) [] []; Some (out, 1) }
        | Some d \<Rightarrow> do { out \<leftarrow> printf (''%s'' @ line_end) [AStr (chars d)] []; Some (out, 0) }))"

definition clear_main :: "('s \<Rightarrow> 's) \<Rightarrow> u8 list list \<Rightarrow> 's \<Rightarrow> (u8 list \<times> int \<times> 's) option" where
  "clear_main clear argv s =
     (if length argv \<noteq> 1 then do { out \<leftarrow> printf (''clear: no argument support!'' @ line_end) [] []; Some (out, 1, s) }
      else Some ([], 0, clear s))"

section \<open>ps and help\<close>

definition buildin_ps :: "('s \<Rightarrow> 's) \<Rightarrow> u8 list list \<Rightarrow> 's \<Rightarrow> (u8 list \<times> 's) option" where
  "buildin_ps ps argv s =
     (if length argv \<noteq> 1 then do { out \<leftarrow> printf (''ps: no argument support!'' @ line_end) [] []; Some (out, s) }
      else Some ([], ps s))"

definition buildin_help :: "u8 list option" where
  "buildin_help =
     printf ('' buildin commands:'' @ line_end
       @ ''       ls: show directory or file information'' @ line_end
       @ ''       cd: change current work directory'' @ line_end
       @ ''       mkdir: create a directory'' @ line_end
       @ ''       rmdir: remove a empty directory'' @ line_end
       @ ''       rm: remove a regular file'' @ line_end
       @ ''       pwd: show current work directory'' @ line_end
       @ ''       ps: show process information'' @ line_end
       @ ''       clear: clear screen'' @ line_end
       @ '' shortcut key:'' @ line_end
       @ ''       ctrl+l: clear screen'' @ line_end
       @ ''       ctrl+u: clear input'' @ line_end @ line_end) [] []"

section \<open>What is printed\<close>

lemma bytes_chars [simp]: "bytes (chars bs) = bs"
proof -
  have "(of_char (char_of (unat b) :: char) :: u8) = b" for b :: u8
  proof -
    have "(of_char (char_of (unat b) :: char) :: u8) = of_nat (of_char (char_of (unat b) :: char))"
      by (rule of_nat_of_char [symmetric])
    also have "of_char (char_of (unat b) :: char) = unat b mod 256" by (rule of_char_of)
    also have "unat b mod 256 = unat b"
    proof (rule mod_less)
      have "unat b < 2 ^ LENGTH(8)" by (rule unsigned_less)
      then show "unat b < 256" by simp
    qed
    finally show ?thesis by simp
  qed
  then show ?thesis by (simp add: bytes_def chars_def map_idI)
qed

lemma bytes_append [simp]: "bytes (s @ t) = bytes s @ bytes t" "bytes (c # s) = of_char c # bytes s" "bytes [] = []"
  by (simp_all add: bytes_def)

lemma nul_chars [simp]: "nul \<in> set (chars bs) \<longleftrightarrow> 0 \<in> set bs"
proof -
  have "char_of (unat b) = nul \<longleftrightarrow> b = 0" for b :: u8
  proof
    assume "char_of (unat b) = nul"
    then have "bytes (chars [b]) = bytes [nul]" by (simp add: chars_def)
    then show "b = 0" by (simp add: bytes_def del: bytes_chars) (simp add: bytes_chars [unfolded bytes_def])
  qed (simp add: char_of_def)
  then show ?thesis unfolding chars_def set_map image_iff by metis
qed

lemma length_chars [simp]: "length (chars bs) = length bs"
  by (simp add: chars_def)

lemma printf_text:
  assumes "render fmt args = Some txt" "length txt < 1024" "nul \<notin> set txt"
  shows "printf fmt args out = Some (out @ bytes txt)"
  using vsprintf_text [OF assms] by (simp add: printf_def vfprintf_def write_out_def)

lemma entry_name_ok [simp]: "0 \<notin> set (entry_name e)"
  by (auto simp: entry_name_def dest: set_takeWhileD)

lemma entry_name_length: "length (filename e) \<le> 16 \<Longrightarrow> length (entry_name e) \<le> 16"
  using length_takeWhile_le [of "\<lambda>c. c \<noteq> 0" "filename e"] by (simp add: entry_name_def)

text \<open>The names of a directory, as a listing shows them.\<close>

definition names_text :: "dir_entry list \<Rightarrow> u8 list" where
  "names_text es = concat (map (\<lambda>e. entry_name e @ [32]) es)"

lemma ls_short_names:
  "\<forall>e\<in>set es. length (filename e) \<le> 16 \<Longrightarrow> ls_short es out = Some (out @ names_text es)"
proof (induction es arbitrary: out)
  case (Cons e es)
  have "printf ''%s '' [AStr (chars (entry_name e))] out = Some (out @ bytes (chars (entry_name e) @ '' ''))"
    by (rule printf_text) (use Cons.prems entry_name_length [of e] in simp_all)
  then show ?case using Cons by (simp add: names_text_def)
qed (simp add: names_text_def)

text \<open>
  \<open>ls\<close> without options prints the name of every entry of the directory, each with a
  space, in the order \<open>readdir\<close> gives them, and a line end, and succeeds; the directory is the
  working directory or, cleaned, the one that is named.
\<close>

theorem ls_lists_names:
  assumes "if args = [] then cwd = Some d else args = [a] \<and> (a = [] \<or> hd a \<noteq> minus_sign) \<and> make_clear_abs_path cwd a = Some d"
    and "stat_of d = Some fs" "st_filetype fs = FT_DIRECTORY" "d \<noteq> []" "entries d = Some es"
    and "\<forall>e\<in>set es. length (filename e) \<le> 16"
  shows "ls_main cwd stat_of entries (nm # args) = Some (names_text es @ [newline], 0)"
proof -
  have nl: "printf line_end [] out = Some (out @ [newline])" for out
    using printf_text [of line_end "[]" line_end out] by (simp add: newline_def)
  have "ls_path stat_of entries False d = Some (names_text es @ [newline], 0)"
    using assms(2-5) ls_short_names [OF assms(6), of "[]"] by (simp add: ls_path_def nl)
  then show ?thesis using assms(1) by (auto simp: ls_main_def split: if_splits)
qed

theorem ls_lists_names_witness:
  "ls_main (Some [47]) (\<lambda>p. Some \<lparr>st_ino = 0, st_size = 48, st_filetype = FT_DIRECTORY\<rparr>)
     (\<lambda>p. Some [\<lparr>filename = [46] @ replicate 15 0, de_i_no = 0, f_type = FT_DIRECTORY\<rparr>,
              \<lparr>filename = [97, 98] @ replicate 14 0, de_i_no = 1, f_type = FT_REGULAR\<rparr>]) [[108, 115]]
   = Some ([46, 32, 97, 98, 32, 10], 0)"
  using ls_lists_names [of "[]" "Some [47]" "[47]" undefined "\<lambda>p. Some \<lparr>st_ino = 0, st_size = 48, st_filetype = FT_DIRECTORY\<rparr>"
      "\<lparr>st_ino = 0, st_size = 48, st_filetype = FT_DIRECTORY\<rparr>"
      "\<lambda>p. Some [\<lparr>filename = [46] @ replicate 15 0, de_i_no = 0, f_type = FT_DIRECTORY\<rparr>,
              \<lparr>filename = [97, 98] @ replicate 14 0, de_i_no = 1, f_type = FT_REGULAR\<rparr>]" _ "[108, 115]"]
  by (simp add: names_text_def entry_name_def newline_def)

lemma printf_string:
  "length pre + length a < 1024 \<Longrightarrow> 0 \<notin> set a \<Longrightarrow> pre = [] \<or> pre = '' '' \<Longrightarrow>
   printf (pre @ ''%s'') [AStr (chars a)] out = Some (out @ bytes pre @ a)"
  using printf_text [of "pre @ ''%s''" "[AStr (chars a)]" "pre @ chars a" out] by auto

lemma echo_rest_words:
  "\<forall>a\<in>set as. length a < 1023 \<and> 0 \<notin> set a \<Longrightarrow> echo_rest as out = Some (out @ concat (map (\<lambda>a. 32 # a) as))"
proof (induction as arbitrary: out)
  case (Cons a as)
  then show ?case using printf_string [of "'' ''" a out] by simp
qed simp

text \<open>\<open>echo\<close> prints its arguments, one space between two of them, and a line end.\<close>

lemma echo_prints_arguments:
  "\<forall>a\<in>set (w # as). length a < 1023 \<and> 0 \<notin> set a \<Longrightarrow>
   echo_main (nm # w # as) = Some (w @ concat (map (\<lambda>a. 32 # a) as) @ [newline], 0)"
  using printf_string [of "[]" w "[]"] printf_text [of line_end "[]" line_end]
  by (simp add: echo_main_def echo_rest_words newline_def One_nat_def numeral_2_eq_2)

text \<open>A path that leads to the root is refused by the three programs, without a system call.\<close>

lemma root_is_refused:
  assumes "make_clear_abs_path cwd a = Some [slash]"
  shows "rm_main syscall cwd [nm, a] s = Some ([], - 1, s)" "mkdir_main syscall cwd [nm, a] s = Some ([], - 1, s)"
    "rmdir_main syscall cwd [nm, a] s = Some ([], - 1, s)"
  using assms by (simp_all add: rm_main_def mkdir_main_def rmdir_main_def One_nat_def)

end
