(* ===== verification/Heap.thy ===== *)
theory Heap
  imports Paging
begin

text \<open>
  What \<open>sys_malloc\<close> and \<open>sys_free\<close> of \<open>src/src/kernel/memory.c\<close> promise: the blocks in use never
  overlap, a new block is none of them, and freeing one takes exactly it away. The definitions of the
  code are in theory \<open>Memory\<close>; here are the invariant of arenas, free lists and the map of virtual
  pages, one lemma for each way they change, and the allocator interface the code implements.
\<close>

section \<open>The heap of one address pool\<close>

text \<open>
  The pool starts at \<open>s\<close>; \<open>U\<close> are its pages in use, \<open>A\<close> the arenas by their first page, \<open>ds\<close> the
  descriptors. A large arena holds one block on several pages.
\<close>

definition arena_pages :: "arena \<Rightarrow> nat" where
  "arena_pages a = (if a_desc a = None then a_cnt a else 1)"

definition blk :: "nat \<Rightarrow> mem_block_desc \<Rightarrow> nat \<Rightarrow> nat \<Rightarrow> nat" where
  "blk s d p j = s + 4096 * p + 12 + j * block_size d"

definition desc_ok :: "mem_block_desc \<Rightarrow> bool" where
  "desc_ok d \<longleftrightarrow> 0 < block_size d \<and> 0 < blocks_per_arena d \<and> 12 + blocks_per_arena d * block_size d \<le> 4096"

definition free_idx :: "nat \<Rightarrow> mem_block_desc \<Rightarrow> nat \<Rightarrow> nat set" where
  "free_idx s d p = {j. j < blocks_per_arena d \<and> blk s d p j \<in> set (free_list d)}"

definition arena_ok :: "nat \<Rightarrow> mem_block_desc list \<Rightarrow> pool_flags \<Rightarrow> nat \<Rightarrow> arena \<Rightarrow> bool" where
  "arena_ok s ds pf p a \<longleftrightarrow>
     (case a_desc a of None \<Rightarrow> a_large a
      | Some (g, i) \<Rightarrow> g = pf \<and> i < length ds \<and> a_cnt a = card (free_idx s (ds ! i) p))"

definition list_ok :: "nat \<Rightarrow> mem_block_desc list \<Rightarrow> pool_flags \<Rightarrow> (nat \<rightharpoonup> arena) \<Rightarrow> nat \<Rightarrow> bool" where
  "list_ok s ds pf A i \<longleftrightarrow> distinct (free_list (ds ! i)) \<and>
     (\<forall>x \<in> set (free_list (ds ! i)). \<exists>p a j. A p = Some a \<and> a_desc a = Some (pf, i) \<and>
        j < blocks_per_arena (ds ! i) \<and> x = blk s (ds ! i) p j)"

definition heap_inv :: "nat \<Rightarrow> nat set \<Rightarrow> mem_block_desc list \<Rightarrow> pool_flags \<Rightarrow> (nat \<rightharpoonup> arena) \<Rightarrow> bool" where
  "heap_inv s U ds pf A \<longleftrightarrow>
     (\<forall>i < length ds. desc_ok (ds ! i) \<and> list_ok s ds pf A i) \<and>
     (\<forall>p a. A p = Some a \<longrightarrow> 0 < arena_pages a \<and> {p ..< p + arena_pages a} \<subseteq> U \<and> arena_ok s ds pf p a) \<and>
     (\<forall>p a q b. A p = Some a \<longrightarrow> A q = Some b \<longrightarrow> p < q \<longrightarrow> p + arena_pages a \<le> q)"

text \<open>The blocks in use, with their lengths.\<close>

definition blocks :: "nat \<Rightarrow> mem_block_desc list \<Rightarrow> nat \<Rightarrow> arena \<Rightarrow> (nat \<times> nat) set" where
  "blocks s ds p a =
     (case a_desc a of None \<Rightarrow> {(s + 4096 * p + 12, 4096 * a_cnt a - 12)}
      | Some (g, i) \<Rightarrow> (\<lambda>j. (blk s (ds ! i) p j, block_size (ds ! i))) ` ({..< blocks_per_arena (ds ! i)} - free_idx s (ds ! i) p))"

definition live :: "nat \<Rightarrow> mem_block_desc list \<Rightarrow> (nat \<rightharpoonup> arena) \<Rightarrow> (nat \<times> nat) set" where
  "live s ds A = {x. \<exists>p a. A p = Some a \<and> x \<in> blocks s ds p a}"

lemma blk_range: "desc_ok d \<Longrightarrow> j < blocks_per_arena d \<Longrightarrow>
    s + 4096 * p + 12 \<le> blk s d p j \<and> blk s d p j + block_size d \<le> s + 4096 * p + 4096"
proof -
  assume d: "desc_ok d" and j: "j < blocks_per_arena d"
  have "j * block_size d + block_size d \<le> blocks_per_arena d * block_size d"
    using mult_le_mono1 [of "Suc j" "blocks_per_arena d" "block_size d"] j by simp
  then show ?thesis using d by (simp add: blk_def desc_ok_def)
qed

lemma blk_page: "desc_ok d \<Longrightarrow> j < blocks_per_arena d \<Longrightarrow> (blk s d p j - s) div 4096 = p"
  using blk_range [of d j s p] by (intro div_nat_eqI) (auto simp: desc_ok_def)

lemma blk_inj: "desc_ok d \<Longrightarrow> blk s d p j = blk s d p k \<longleftrightarrow> j = k"
  by (auto simp: blk_def desc_ok_def)

lemma blk_eq:
  assumes "desc_ok d" "j < blocks_per_arena d" "k < blocks_per_arena d"
  shows "blk s d p j = blk s d q k \<longleftrightarrow> p = q \<and> j = k"
  using blk_page [OF assms(1,2), of s p] blk_page [OF assms(1,3), of s q] blk_inj [OF assms(1)] by metis

lemma finite_free_idx [simp]: "finite (free_idx s d p)"
  by (simp add: free_idx_def)

lemma heap_invD:
  assumes "heap_inv s U ds pf A"
  shows "i < length ds \<Longrightarrow> desc_ok (ds ! i)" "i < length ds \<Longrightarrow> list_ok s ds pf A i"
    "A p = Some a \<Longrightarrow> 0 < arena_pages a \<and> {p ..< p + arena_pages a} \<subseteq> U"
    "A p = Some a \<Longrightarrow> arena_ok s ds pf p a"
    "A p = Some a \<Longrightarrow> A q = Some b \<Longrightarrow> p < q \<Longrightarrow> p + arena_pages a \<le> q"
  using assms by (auto simp: heap_inv_def)

lemma heap_inv_more: "heap_inv s U ds pf A \<Longrightarrow> U \<subseteq> U' \<Longrightarrow> heap_inv s U' ds pf A"
  unfolding heap_inv_def by (meson subset_trans)

text \<open>A block lies inside its arena, behind the header.\<close>

lemma block_in_arena:
  assumes "heap_inv s U ds pf A" "A p = Some a" "(x, n) \<in> blocks s ds p a"
  shows "s + 4096 * p + 12 \<le> x \<and> x + n \<le> s + 4096 * (p + arena_pages a) \<and> 0 < n"
proof (cases "a_desc a")
  case None
  then show ?thesis using assms heap_invD(3) [OF assms(1,2)] by (auto simp: blocks_def arena_pages_def)
next
  case (Some gi)
  obtain g i where gi: "gi = (g, i)" by (cases gi)
  have i: "i < length ds" using heap_invD(4) [OF assms(1,2)] Some gi by (simp add: arena_ok_def)
  note d = heap_invD(1) [OF assms(1) i]
  from assms(3) Some gi obtain j where "x = blk s (ds ! i) p j" "n = block_size (ds ! i)" "j < blocks_per_arena (ds ! i)"
    by (auto simp: blocks_def)
  then show ?thesis using blk_range [OF d, of j s p] d Some by (auto simp: arena_pages_def desc_ok_def)
qed

text \<open>No two blocks in use overlap.\<close>

lemma live_apart:
  assumes inv: "heap_inv s U ds pf A" and x: "(x, n) \<in> live s ds A" "(y, k) \<in> live s ds A" "(x, n) \<noteq> (y, k)"
  shows "x + n \<le> y \<or> y + k \<le> x"
proof -
  from x obtain p a q b where p: "A p = Some a" "(x, n) \<in> blocks s ds p a" and q: "A q = Some b" "(y, k) \<in> blocks s ds q b"
    by (auto simp: live_def)
  have bp: "s + 4096 * p + 12 \<le> x" "x + n \<le> s + 4096 * (p + arena_pages a)"
    and bq: "s + 4096 * q + 12 \<le> y" "y + k \<le> s + 4096 * (q + arena_pages b)"
    using block_in_arena [OF inv p] block_in_arena [OF inv q] by simp_all
  consider "p < q" | "q < p" | "p = q" by linarith
  then show ?thesis
  proof cases
    case 1
    then have "4096 * (p + arena_pages a) \<le> 4096 * q" using heap_invD(5) [OF inv p(1) q(1)] by simp
    then have "x + n \<le> y" using bp bq by linarith
    then show ?thesis ..
  next
    case 2
    then have "4096 * (q + arena_pages b) \<le> 4096 * p" using heap_invD(5) [OF inv q(1) p(1)] by simp
    then have "y + k \<le> x" using bp bq by linarith
    then show ?thesis ..
  next
    case 3
    then have ab: "a = b" using p q by simp
    then obtain g i where gi: "a_desc a = Some (g, i)"
      using p(2) q(2) x(3) 3 by (cases "a_desc a") (auto simp: blocks_def)
    have "i < length ds" using heap_invD(4) [OF inv p(1)] gi by (simp add: arena_ok_def)
    from p(2) q(2) gi 3 ab obtain j l where "x = blk s (ds ! i) p j" "n = block_size (ds ! i)"
      "y = blk s (ds ! i) p l" "k = block_size (ds ! i)" by (auto simp: blocks_def)
    moreover from this x(3) have "j \<noteq> l" by auto
    then have "j + 1 \<le> l \<or> l + 1 \<le> j" by auto
    then have "j * block_size (ds ! i) + block_size (ds ! i) \<le> l * block_size (ds ! i) \<or>
        l * block_size (ds ! i) + block_size (ds ! i) \<le> j * block_size (ds ! i)"
      using mult_le_mono1 [of "Suc j" l "block_size (ds ! i)"] mult_le_mono1 [of "Suc l" j "block_size (ds ! i)"] by auto
    ultimately show ?thesis by (auto simp: blk_def)
  qed
qed

section \<open>How the heap changes\<close>

text \<open>Only one descriptor's list changes at a time: the invariant for the others carries over.\<close>

lemma same_desc:
  assumes "desc_ok d'" "block_size d' = block_size d" "blocks_per_arena d' = blocks_per_arena d"
  shows "blk s d' = blk s d" "desc_ok d"
  using assms by (auto simp: blk_def desc_ok_def fun_eq_iff)

lemma live_upd: "live s ds (A(p \<mapsto> a)) = blocks s ds p a \<union> live s ds (A(p := None))"
proof -
  have "x \<in> blocks s ds p a \<Longrightarrow> x \<in> live s ds (A(p \<mapsto> a))" for x by (auto simp: live_def)
  moreover have "x \<in> live s ds (A(p := None)) \<Longrightarrow> x \<in> live s ds (A(p \<mapsto> a))" for x
    by (auto simp: live_def split: if_splits)
  ultimately show ?thesis by (auto simp: live_def split: if_splits)
qed

text \<open>Pages that are not in use belong to no arena.\<close>

lemma fresh_pages:
  assumes inv: "heap_inv s U ds pf A" and U: "{p ..< p + k} \<inter> U = {}" "0 < k"
  shows "A p = None" and "A q = Some b \<Longrightarrow> q + arena_pages b \<le> p \<or> p + k \<le> q"
    and "(s + 4096 * p + 12 + r, n) \<in> live s ds A \<Longrightarrow> 12 + r < 4096 * k \<Longrightarrow> False"
proof -
  have new: "A p = None"
  proof (cases "A p")
    case (Some b)
    then have "p \<in> U" using heap_invD(3) [OF inv Some] by auto
    moreover have "p \<in> {p ..< p + k}" using U(2) by simp
    ultimately show ?thesis using U(1) by blast
  qed
  have sep: "q + arena_pages b \<le> p \<or> p + k \<le> q" if "A q = Some b" for q b
  proof (rule ccontr)
    assume n: "\<not> ?thesis"
    have "{q ..< q + arena_pages b} \<subseteq> U" "0 < arena_pages b" using heap_invD(3) [OF inv that] by auto
    moreover from n have "max p q \<in> {q ..< q + arena_pages b}" "max p q \<in> {p ..< p + k}"
      using U(2) heap_invD(3) [OF inv that] by auto
    ultimately show False using U(1) by blast
  qed
  show "A p = None" by (rule new)
  show "A q = Some b \<Longrightarrow> q + arena_pages b \<le> p \<or> p + k \<le> q" by (rule sep)
  assume l: "(s + 4096 * p + 12 + r, n) \<in> live s ds A" "12 + r < 4096 * k"
  then obtain q b where q: "A q = Some b" "(s + 4096 * p + 12 + r, n) \<in> blocks s ds q b" by (auto simp: live_def)
  have b: "s + 4096 * q + 12 \<le> s + 4096 * p + 12 + r" "s + 4096 * p + 12 + r + n \<le> s + 4096 * (q + arena_pages b)" "0 < n"
    using block_in_arena [OF inv q] by auto
  from sep [OF q(1)] show False
  proof
    assume "q + arena_pages b \<le> p"
    then have "4096 * (q + arena_pages b) \<le> 4096 * p" by simp
    with b show False by linarith
  next
    assume "p + k \<le> q"
    then have "4096 * p + 4096 * k \<le> 4096 * q" by simp
    with b l(2) show False by linarith
  qed
qed

text \<open>A large arena is entered.\<close>

lemma enter_large:
  assumes inv: "heap_inv s U ds pf A" and U': "U \<subseteq> U'" "{p ..< p + k} \<inter> U = {}" "{p ..< p + k} \<subseteq> U'" "0 < k"
    and a: "a_desc a = None" "a_large a" "a_cnt a = k"
  shows "heap_inv s U' ds pf (A(p \<mapsto> a))"
    and "live s ds (A(p \<mapsto> a)) = insert (s + 4096 * p + 12, 4096 * k - 12) (live s ds A)"
proof -
  note new = fresh_pages(1) [OF inv U'(2,4)] and sep = fresh_pages(2) [OF inv U'(2,4)]
  have pg: "arena_pages a = k" using a by (simp add: arena_pages_def)
  show "heap_inv s U' ds pf (A(p \<mapsto> a))" unfolding heap_inv_def
  proof (intro conjI allI impI)
    fix i assume i: "i < length ds"
    show "desc_ok (ds ! i)" by (rule heap_invD(1) [OF inv i])
    show "list_ok s ds pf (A(p \<mapsto> a)) i" using heap_invD(2) [OF inv i] new unfolding list_ok_def
      by (metis fun_upd_other option.distinct(1))
  next
    fix q b assume "(A(p \<mapsto> a)) q = Some b"
    then have "q = p \<and> b = a \<or> A q = Some b" by (auto split: if_splits)
    then show "0 < arena_pages b" "{q ..< q + arena_pages b} \<subseteq> U'" "arena_ok s ds pf q b"
      using heap_invD(3,4) [OF inv, of q b] U' pg a by (auto simp: arena_ok_def)
  next
    fix q b r c assume h: "(A(p \<mapsto> a)) q = Some b" "(A(p \<mapsto> a)) r = Some c" "q < r"
    show "q + arena_pages b \<le> r"
      using h sep [of q b] sep [of r c] pg U'(4) heap_invD(5) [OF inv, of q b r c] heap_invD(3) [OF inv, of r c]
      by (auto split: if_splits)
  qed
  have "blocks s ds p a = {(s + 4096 * p + 12, 4096 * k - 12)}" using a by (simp add: blocks_def)
  then show "live s ds (A(p \<mapsto> a)) = insert (s + 4096 * p + 12, 4096 * k - 12) (live s ds A)"
    using new by (simp add: live_upd fun_upd_idem)
qed

lemma one_page: "{p ..< p + 1} = {p :: nat}"
  by auto

text \<open>Pages that no arena covers may be given up.\<close>

lemma heap_inv_less:
  assumes "heap_inv s U ds pf A" "\<forall>q b. A q = Some b \<longrightarrow> {q ..< q + arena_pages b} \<inter> R = {}"
  shows "heap_inv s (U - R) ds pf A"
  using assms unfolding heap_inv_def by (metis Diff_eq Int_greatest disjoint_eq_subset_Compl)

text \<open>A new free list for one descriptor, and one arena of that size entered, changed or removed.\<close>

definition with_list :: "mem_block_desc list \<Rightarrow> nat \<Rightarrow> nat list \<Rightarrow> mem_block_desc list" where
  "with_list ds i l = ds[i := (ds ! i)\<lparr>free_list := l\<rparr>]"

lemma with_list_simps [simp]:
  "length (with_list ds i l) = length ds"
  "i < length ds \<Longrightarrow> with_list ds i l ! k = (if k = i then (ds ! i)\<lparr>free_list := l\<rparr> else ds ! k)"
  "blk s (d\<lparr>free_list := l\<rparr>) = blk s d"
  "desc_ok (d\<lparr>free_list := l\<rparr>) = desc_ok d"
  by (auto simp: with_list_def blk_def desc_ok_def fun_eq_iff)

lemma change_list:
  assumes inv: "heap_inv s U ds pf A" and i: "i < length ds" and l: "distinct l"
    and old: "A p = None \<or> (\<exists>a. A p = Some a \<and> a_desc a = Some (pf, i))"
    and new: "case x of None \<Rightarrow> True | Some a \<Rightarrow> a_desc a = Some (pf, i) \<and> p \<in> U \<and>
      a_cnt a = card (free_idx s ((ds ! i)\<lparr>free_list := l\<rparr>) p) \<and>
      (\<forall>q b. A q = Some b \<longrightarrow> q \<noteq> p \<longrightarrow> q + arena_pages b \<le> p \<or> p + 1 \<le> q)"
    and mem: "\<forall>y\<in>set l. \<exists>q b j. (A(p := x)) q = Some b \<and> a_desc b = Some (pf, i) \<and>
      j < blocks_per_arena (ds ! i) \<and> y = blk s (ds ! i) q j"
    and same: "\<And>q j. q \<noteq> p \<Longrightarrow> j < blocks_per_arena (ds ! i) \<Longrightarrow>
      blk s (ds ! i) q j \<in> set l \<longleftrightarrow> blk s (ds ! i) q j \<in> set (free_list (ds ! i))"
  shows "heap_inv s U (with_list ds i l) pf (A(p := x))"
    and "live s (with_list ds i l) (A(p := None)) = live s ds (A(p := None))"
proof -
  have free: "free_idx s (with_list ds i l ! k) q = free_idx s (ds ! k) q" if "q \<noteq> p" "k < length ds" for q k
    using same [OF that(1)] i that by (auto simp: free_idx_def)
  show "heap_inv s U (with_list ds i l) pf (A(p := x))" unfolding heap_inv_def
  proof (intro conjI allI impI)
    fix k assume "k < length (with_list ds i l)"
    then have k: "k < length ds" by simp
    show "desc_ok (with_list ds i l ! k)" using heap_invD(1) [OF inv k] heap_invD(1) [OF inv i] i by simp
    show "list_ok s (with_list ds i l) pf (A(p := x)) k"
    proof (cases "k = i")
      case True
      then show ?thesis using i l mem by (simp add: list_ok_def)
    next
      case False
      have "\<exists>q b j. (A(p := x)) q = Some b \<and> a_desc b = Some (pf, k) \<and> j < blocks_per_arena (ds ! k) \<and> y = blk s (ds ! k) q j"
        if "y \<in> set (free_list (ds ! k))" for y
      proof -
        from heap_invD(2) [OF inv k] that obtain q b j where
          q: "A q = Some b" "a_desc b = Some (pf, k)" "j < blocks_per_arena (ds ! k)" "y = blk s (ds ! k) q j"
          by (auto simp: list_ok_def)
        then have "q \<noteq> p" using old False by auto
        with q show ?thesis by (intro exI [of _ q] exI [of _ b] exI [of _ j]) simp
      qed
      then show ?thesis using False i heap_invD(2) [OF inv k] by (simp add: list_ok_def)
    qed
  next
    fix q b assume b: "(A(p := x)) q = Some b"
    show "0 < arena_pages b" "{q ..< q + arena_pages b} \<subseteq> U" "arena_ok s (with_list ds i l) pf q b"
    proof (atomize (full), cases "q = p")
      case True
      note one_page [of p]
      with True show "0 < arena_pages b \<and> {q ..< q + arena_pages b} \<subseteq> U \<and> arena_ok s (with_list ds i l) pf q b"
        using b new i by (simp add: arena_pages_def arena_ok_def)
    next
      case False
      then have A: "A q = Some b" using b by simp
      have "arena_ok s (with_list ds i l) pf q b"
        using heap_invD(4) [OF inv A] free [OF False] by (auto simp: arena_ok_def split: option.splits prod.splits)
      then show "0 < arena_pages b \<and> {q ..< q + arena_pages b} \<subseteq> U \<and> arena_ok s (with_list ds i l) pf q b"
        using heap_invD(3) [OF inv A] by simp
    qed
  next
    fix q b r c assume h: "(A(p := x)) q = Some b" "(A(p := x)) r = Some c" "q < r"
    show "q + arena_pages b \<le> r"
    proof (cases "q = p \<or> r = p")
      case True
      then obtain a where x: "x = Some a" using h by (cases x) auto
      then have a: "arena_pages a = 1" and sep: "\<And>q b. A q = Some b \<Longrightarrow> q \<noteq> p \<Longrightarrow> q + arena_pages b \<le> p \<or> p + 1 \<le> q"
        using new by (simp_all add: arena_pages_def)
      show ?thesis
      proof (cases "q = p")
        case True
        then have "A r = Some c" "b = a" using h x by simp_all
        then show ?thesis using sep [of r c] a True h(3) by auto
      next
        case False
        then have "r = p" "A q = Some b" using h True by simp_all
        then show ?thesis using sep [of q b] False h(3) by auto
      qed
    next
      case False
      then show ?thesis using h heap_invD(5) [OF inv, of q b r c] by simp
    qed
  qed
  have "blocks s (with_list ds i l) q b = blocks s ds q b" if "(A(p := None)) q = Some b" for q b
  proof -
    have q: "q \<noteq> p" "A q = Some b" using that by (auto split: if_splits)
    have fi: "free_idx s ((ds ! i)\<lparr>free_list := l\<rparr>) q = free_idx s (ds ! i) q" using free [OF q(1) i] i by simp
    show ?thesis using heap_invD(4) [OF inv q(2)] fi i
      by (auto simp: blocks_def arena_ok_def split: option.splits prod.splits)
  qed
  then show "live s (with_list ds i l) (A(p := None)) = live s ds (A(p := None))"
    unfolding live_def by auto
qed

text \<open>An arena of blocks is entered, all of them free.\<close>

lemma enter_small:
  assumes inv: "heap_inv s U ds pf A" and i: "i < length ds" and U': "U \<subseteq> U'" "p \<notin> U" "p \<in> U'"
    and a: "a_desc a = Some (pf, i)" "a_cnt a = blocks_per_arena (ds ! i)"
    and l: "l = free_list (ds ! i) @ map (blk s (ds ! i) p) [0 ..< blocks_per_arena (ds ! i)]"
  shows "heap_inv s U' (with_list ds i l) pf (A(p \<mapsto> a))" and "live s (with_list ds i l) (A(p \<mapsto> a)) = live s ds A"
proof -
  let ?d = "ds ! i"
  have U: "{p ..< p + 1} \<inter> U = {}" "(0 :: nat) < 1" using U'(2) by (simp_all add: one_page)
  note new = fresh_pages(1) [OF inv U]
  note d = heap_invD(1) [OF inv i]
  have inl: "blk s ?d q j \<in> set l \<longleftrightarrow> blk s ?d q j \<in> set (free_list ?d) \<or> q = p" if "j < blocks_per_arena ?d" for q j
    using that by (auto simp: l blk_eq [OF d])
  have notin: "blk s ?d p j \<notin> set (free_list ?d)" if "j < blocks_per_arena ?d" for j
  proof
    assume "blk s ?d p j \<in> set (free_list ?d)"
    then obtain q b k where "A q = Some b" "k < blocks_per_arena ?d" "blk s ?d p j = blk s ?d q k"
      using heap_invD(2) [OF inv i] by (auto simp: list_ok_def)
    then show False using blk_eq [OF d that] new by auto
  qed
  have dist: "distinct l"
    using heap_invD(2) [OF inv i] notin by (auto simp: l list_ok_def distinct_map inj_on_def blk_inj [OF d])
  have all: "free_idx s (?d\<lparr>free_list := l\<rparr>) p = {..< blocks_per_arena ?d}"
    using inl by (auto simp: free_idx_def)
  have mem: "\<forall>y\<in>set l. \<exists>q b j. (A(p \<mapsto> a)) q = Some b \<and> a_desc b = Some (pf, i) \<and>
      j < blocks_per_arena ?d \<and> y = blk s ?d q j"
  proof
    fix y assume "y \<in> set l"
    then consider "y \<in> set (free_list ?d)" | j where "j < blocks_per_arena ?d" "y = blk s ?d p j" by (auto simp: l)
    then show "\<exists>q b j. (A(p \<mapsto> a)) q = Some b \<and> a_desc b = Some (pf, i) \<and> j < blocks_per_arena ?d \<and> y = blk s ?d q j"
    proof cases
      case 1
      then obtain q b j where "A q = Some b" "a_desc b = Some (pf, i)" "j < blocks_per_arena ?d" "y = blk s ?d q j"
        using heap_invD(2) [OF inv i] by (auto simp: list_ok_def)
      then show ?thesis using new by (intro exI [of _ q] exI [of _ b] exI [of _ j]) auto
    next
      case 2
      then show ?thesis using a(1) by (intro exI [of _ p] exI [of _ a] exI [of _ j]) simp
    qed
  qed
  have inv': "heap_inv s U' ds pf A" using heap_inv_more [OF inv U'(1)] .
  have case_new: "case Some a of None \<Rightarrow> True | Some a \<Rightarrow> a_desc a = Some (pf, i) \<and> p \<in> U' \<and>
      a_cnt a = card (free_idx s (?d\<lparr>free_list := l\<rparr>) p) \<and>
      (\<forall>q b. A q = Some b \<longrightarrow> q \<noteq> p \<longrightarrow> q + arena_pages b \<le> p \<or> p + 1 \<le> q)"
    using a U'(3) all fresh_pages(2) [OF inv U] by auto
  note c = change_list [OF inv' i dist disjI1 [OF new] case_new mem]
  show "heap_inv s U' (with_list ds i l) pf (A(p \<mapsto> a))" by (rule c(1)) (use inl in auto)
  have "live s (with_list ds i l) (A(p := None)) = live s ds (A(p := None))" by (rule c(2)) (use inl in auto)
  moreover have "blocks s (with_list ds i l) p a = {}" using a i all by (simp add: blocks_def)
  ultimately show "live s (with_list ds i l) (A(p \<mapsto> a)) = live s ds A"
    using new by (simp add: live_upd fun_upd_idem)
qed

text \<open>A block that starts inside an arena is one of this arena's.\<close>

lemma live_owner:
  assumes inv: "heap_inv s U ds pf A" and p: "A p = Some a" and x: "(x, n) \<in> live s ds A"
    and r: "s + 4096 * p \<le> x" "x < s + 4096 * p + 4096 * arena_pages a"
  shows "(x, n) \<in> blocks s ds p a"
proof -
  from x obtain q b where q: "A q = Some b" "(x, n) \<in> blocks s ds q b" by (auto simp: live_def)
  have bq: "s + 4096 * q + 12 \<le> x" "x + n \<le> s + (4096 * q + 4096 * arena_pages b)" "0 < n"
    using block_in_arena [OF inv q] by (simp_all add: algebra_simps)
  consider "p < q" | "q < p" | "p = q" by linarith
  then show ?thesis
  proof cases
    case 1
    then have "4096 * p + 4096 * arena_pages a \<le> 4096 * q" using heap_invD(5) [OF inv p q(1)] by simp
    then show ?thesis using bq r by linarith
  next
    case 2
    then have "4096 * q + 4096 * arena_pages b \<le> 4096 * p" using heap_invD(5) [OF inv q(1) p] by simp
    then show ?thesis using bq r by linarith
  next
    case 3
    then show ?thesis using p q by simp
  qed
qed

lemma blk_owner:
  assumes inv: "heap_inv s U ds pf A" and p: "A p = Some a" "a_desc a = Some (pf, i)" and j: "j < blocks_per_arena (ds ! i)"
    and x: "(blk s (ds ! i) p j, n) \<in> live s ds A"
  shows "n = block_size (ds ! i) \<and> j \<notin> free_idx s (ds ! i) p"
proof -
  have i: "i < length ds" using heap_invD(4) [OF inv p(1)] p(2) by (simp add: arena_ok_def)
  note d = heap_invD(1) [OF inv i]
  have "arena_pages a = 1" using p(2) by (simp add: arena_pages_def)
  then have "(blk s (ds ! i) p j, n) \<in> blocks s ds p a"
    using live_owner [OF inv p(1) x] blk_range [OF d j, of s p] d by (simp add: desc_ok_def)
  then show ?thesis using p(2) blk_inj [OF d] by (auto simp: blocks_def)
qed

text \<open>The first free block of a list is handed out.\<close>

lemma take_small:
  assumes inv: "heap_inv s U ds pf A" and i: "i < length ds" and hd: "free_list (ds ! i) = x # l"
  shows "\<exists>p a. A p = Some a \<and> a_desc a = Some (pf, i) \<and> s + 4096 * p \<le> x \<and> x < s + 4096 * p + 4096 \<and> 0 < a_cnt a \<and>
    heap_inv s U (with_list ds i l) pf (A(p \<mapsto> a\<lparr>a_cnt := a_cnt a - 1\<rparr>)) \<and>
    live s (with_list ds i l) (A(p \<mapsto> a\<lparr>a_cnt := a_cnt a - 1\<rparr>)) = insert (x, block_size (ds ! i)) (live s ds A) \<and>
    (\<forall>n. (x, n) \<notin> live s ds A)"
proof -
  let ?d = "ds ! i"
  note d = heap_invD(1) [OF inv i] and lo = heap_invD(2) [OF inv i]
  from lo hd obtain p a j where p: "A p = Some a" "a_desc a = Some (pf, i)" and j: "j < blocks_per_arena ?d" "x = blk s ?d p j"
    by (auto simp: list_ok_def)
  let ?a = "a\<lparr>a_cnt := a_cnt a - 1\<rparr>"
  have l: "distinct l" "x \<notin> set l" using lo hd by (auto simp: list_ok_def)
  have jf: "j \<in> free_idx s ?d p" using j hd by (simp add: free_idx_def)
  have f: "free_idx s (?d\<lparr>free_list := l\<rparr>) p = free_idx s ?d p - {j}"
    using l(2) j hd blk_inj [OF d] by (auto simp: free_idx_def)
  have cnt: "a_cnt a = card (free_idx s ?d p)" using heap_invD(4) [OF inv p(1)] p(2) by (simp add: arena_ok_def)
  then have pos: "0 < a_cnt a" using jf by (auto simp: card_gt_0_iff)
  have pg: "arena_pages a = 1" "p \<in> U" using p(2) heap_invD(3) [OF inv p(1)] by (auto simp: arena_pages_def)
  have mem: "\<forall>y\<in>set l. \<exists>q b k. (A(p \<mapsto> ?a)) q = Some b \<and> a_desc b = Some (pf, i) \<and> k < blocks_per_arena ?d \<and> y = blk s ?d q k"
  proof
    fix y assume "y \<in> set l"
    then obtain q b k where q: "A q = Some b" "a_desc b = Some (pf, i)" "k < blocks_per_arena ?d" "y = blk s ?d q k"
      using lo hd by (auto simp: list_ok_def)
    show "\<exists>q b k. (A(p \<mapsto> ?a)) q = Some b \<and> a_desc b = Some (pf, i) \<and> k < blocks_per_arena ?d \<and> y = blk s ?d q k"
      using q p(2) by (intro exI [of _ q] exI [of _ "if q = p then ?a else b"] exI [of _ k]) auto
  qed
  have sep: "q + arena_pages b \<le> p \<or> p + 1 \<le> q" if "A q = Some b" "q \<noteq> p" for q b
    using heap_invD(5) [OF inv that(1) p(1)] heap_invD(5) [OF inv p(1) that(1)] that(2) pg(1) by fastforce
  have new: "case Some ?a of None \<Rightarrow> True | Some a \<Rightarrow> a_desc a = Some (pf, i) \<and> p \<in> U \<and>
      a_cnt a = card (free_idx s (?d\<lparr>free_list := l\<rparr>) p) \<and>
      (\<forall>q b. A q = Some b \<longrightarrow> q \<noteq> p \<longrightarrow> q + arena_pages b \<le> p \<or> p + 1 \<le> q)"
    using p(2) pg(2) cnt jf sep by (auto simp: f)
  have same: "blk s ?d q k \<in> set l \<longleftrightarrow> blk s ?d q k \<in> set (free_list ?d)" if "q \<noteq> p" "k < blocks_per_arena ?d" for q k
    using that hd j blk_eq [OF d that(2) j(1)] by auto
  have old: "A p = None \<or> (\<exists>a. A p = Some a \<and> a_desc a = Some (pf, i))" using p by simp
  note c = change_list [OF inv i l(1) old new mem same]
  have "blocks s (with_list ds i l) p ?a = insert (x, block_size ?d) (blocks s ds p a)"
    using p(2) i f jf j by (auto simp: blocks_def)
  then have "live s (with_list ds i l) (A(p \<mapsto> ?a)) = insert (x, block_size ?d) (live s ds A)"
    using c(2) live_upd [of s ds A p a] p(1) by (simp add: live_upd fun_upd_idem)
  moreover have "(x, n) \<notin> live s ds A" for n using blk_owner [OF inv p j(1)] jf j(2) by blast
  moreover have "s + 4096 * p \<le> x" "x < s + 4096 * p + 4096"
    using blk_range [OF d j(1), of s p] d j(2) by (simp_all add: desc_ok_def)
  ultimately show ?thesis using p pos c(1) by blast
qed

text \<open>Two arenas keep their distance.\<close>

lemma arena_sep:
  assumes inv: "heap_inv s U ds pf A" and p: "A p = Some a" "a_desc a = Some (pf, i)" and q: "A q = Some b" "q \<noteq> p"
  shows "q + arena_pages b \<le> p \<or> p + 1 \<le> q"
proof -
  have "arena_pages a = 1" using p(2) by (simp add: arena_pages_def)
  then show ?thesis
    using heap_invD(5) [OF inv q(1) p(1)] heap_invD(5) [OF inv p(1) q(1)] q(2) by fastforce
qed

text \<open>A block in use goes back to the end of its list.\<close>

lemma give_back:
  assumes inv: "heap_inv s U ds pf A" and p: "A p = Some a" "a_desc a = Some (pf, i)"
    and j: "j < blocks_per_arena (ds ! i)" "j \<notin> free_idx s (ds ! i) p" and x: "x = blk s (ds ! i) p j"
  shows "heap_inv s U (with_list ds i (free_list (ds ! i) @ [x])) pf (A(p \<mapsto> a\<lparr>a_cnt := a_cnt a + 1\<rparr>))"
    and "live s (with_list ds i (free_list (ds ! i) @ [x])) (A(p \<mapsto> a\<lparr>a_cnt := a_cnt a + 1\<rparr>)) =
      {y \<in> live s ds A. fst y \<noteq> x}"
proof -
  let ?d = "ds ! i" and ?l = "free_list (ds ! i) @ [x]" and ?a = "a\<lparr>a_cnt := a_cnt a + 1\<rparr>"
  have ao: "i < length ds" "a_cnt a = card (free_idx s ?d p)"
    using heap_invD(4) [OF inv p(1)] p(2) by (simp_all add: arena_ok_def)
  note i = ao(1)
  note d = heap_invD(1) [OF inv i] and lo = heap_invD(2) [OF inv i]
  have nx: "x \<notin> set (free_list ?d)" using j x by (simp add: free_idx_def)
  then have l: "distinct ?l" using lo by (simp add: list_ok_def)
  have f: "free_idx s (?d\<lparr>free_list := ?l\<rparr>) p = insert j (free_idx s ?d p)"
    using j x blk_inj [OF d] by (auto simp: free_idx_def)
  have pU: "p \<in> U" using heap_invD(3) [OF inv p(1)] by auto
  have mem: "\<forall>y\<in>set ?l. \<exists>q b k. (A(p \<mapsto> ?a)) q = Some b \<and> a_desc b = Some (pf, i) \<and> k < blocks_per_arena ?d \<and> y = blk s ?d q k"
  proof
    fix y assume y: "y \<in> set ?l"
    show "\<exists>q b k. (A(p \<mapsto> ?a)) q = Some b \<and> a_desc b = Some (pf, i) \<and> k < blocks_per_arena ?d \<and> y = blk s ?d q k"
    proof (cases "y = x")
      case True
      then show ?thesis using p(2) j x by (intro exI [of _ p] exI [of _ ?a] exI [of _ j]) simp
    next
      case False
      with y lo obtain q b k where q: "A q = Some b" "a_desc b = Some (pf, i)" "k < blocks_per_arena ?d" "y = blk s ?d q k"
        by (auto simp: list_ok_def)
      then show ?thesis using p(2) by (intro exI [of _ q] exI [of _ "if q = p then ?a else b"] exI [of _ k]) auto
    qed
  qed
  have new: "case Some ?a of None \<Rightarrow> True | Some a \<Rightarrow> a_desc a = Some (pf, i) \<and> p \<in> U \<and>
      a_cnt a = card (free_idx s (?d\<lparr>free_list := ?l\<rparr>) p) \<and>
      (\<forall>q b. A q = Some b \<longrightarrow> q \<noteq> p \<longrightarrow> q + arena_pages b \<le> p \<or> p + 1 \<le> q)"
    using p(2) pU ao(2) j(2) arena_sep [OF inv p] by (auto simp: f)
  have same: "blk s ?d q k \<in> set ?l \<longleftrightarrow> blk s ?d q k \<in> set (free_list ?d)" if "q \<noteq> p" "k < blocks_per_arena ?d" for q k
    using that x blk_eq [OF d that(2) j(1)] by auto
  have old: "A p = None \<or> (\<exists>a. A p = Some a \<and> a_desc a = Some (pf, i))" using p by simp
  note c = change_list [OF inv i l old new mem same]
  show "heap_inv s U (with_list ds i ?l) pf (A(p \<mapsto> ?a))" by (rule c(1))
  have b: "blocks s ds p a = insert (x, block_size ?d) (blocks s (with_list ds i ?l) p ?a)"
    "(x, block_size ?d) \<notin> blocks s (with_list ds i ?l) p ?a"
    using p(2) i f j x blk_inj [OF d] by (auto simp: blocks_def)
  have lv: "live s (with_list ds i ?l) (A(p \<mapsto> ?a)) = blocks s (with_list ds i ?l) p ?a \<union> live s ds (A(p := None))"
    using c(2) by (simp add: live_upd)
  have lv0: "live s ds A = insert (x, block_size ?d) (live s (with_list ds i ?l) (A(p \<mapsto> ?a)))"
    using live_upd [of s ds A p a] p(1) b(1) lv by (simp add: fun_upd_idem)
  have "(x, n) \<notin> live s (with_list ds i ?l) (A(p \<mapsto> ?a))" for n
  proof
    assume "(x, n) \<in> live s (with_list ds i ?l) (A(p \<mapsto> ?a))"
    then have "j \<notin> free_idx s (with_list ds i ?l ! i) p"
      using blk_owner [OF c(1), of p ?a i j n] p(2) j i x by simp
    then show False using f i by simp
  qed
  then show "live s (with_list ds i ?l) (A(p \<mapsto> ?a)) = {y \<in> live s ds A. fst y \<noteq> x}"
    unfolding lv0 by auto
qed

text \<open>An arena whose blocks are all free leaves the heap, with its blocks and its page.\<close>

lemma release_small:
  assumes inv: "heap_inv s U ds pf A" and p: "A p = Some a" "a_desc a = Some (pf, i)" "a_cnt a = blocks_per_arena (ds ! i)"
    and l: "l = filter (\<lambda>x. x \<notin> blk s (ds ! i) p ` {..< blocks_per_arena (ds ! i)}) (free_list (ds ! i))"
  shows "heap_inv s (U - {p}) (with_list ds i l) pf (A(p := None))"
    and "live s (with_list ds i l) (A(p := None)) = live s ds A"
proof -
  let ?d = "ds ! i"
  have ao: "i < length ds" "a_cnt a = card (free_idx s ?d p)"
    using heap_invD(4) [OF inv p(1)] p(2) by (simp_all add: arena_ok_def)
  note i = ao(1)
  note d = heap_invD(1) [OF inv i] and lo = heap_invD(2) [OF inv i]
  have "free_idx s ?d p \<subseteq> {..< blocks_per_arena ?d}" by (auto simp: free_idx_def)
  then have all: "free_idx s ?d p = {..< blocks_per_arena ?d}"
    using card_subset_eq [of "{..< blocks_per_arena ?d}" "free_idx s ?d p"] ao(2) p(3) by simp
  have dist: "distinct l" using lo by (simp add: l list_ok_def)
  have mem: "\<forall>y\<in>set l. \<exists>q b k. (A(p := None)) q = Some b \<and> a_desc b = Some (pf, i) \<and> k < blocks_per_arena ?d \<and> y = blk s ?d q k"
  proof
    fix y assume y: "y \<in> set l"
    then obtain q b k where q: "A q = Some b" "a_desc b = Some (pf, i)" "k < blocks_per_arena ?d" "y = blk s ?d q k"
      using lo by (auto simp: l list_ok_def)
    with y have "q \<noteq> p" by (auto simp: l)
    with q show "\<exists>q b k. (A(p := None)) q = Some b \<and> a_desc b = Some (pf, i) \<and> k < blocks_per_arena ?d \<and> y = blk s ?d q k"
      by (intro exI [of _ q] exI [of _ b] exI [of _ k]) simp
  qed
  have same: "blk s ?d q k \<in> set l \<longleftrightarrow> blk s ?d q k \<in> set (free_list ?d)" if "q \<noteq> p" "k < blocks_per_arena ?d" for q k
    using that by (auto simp: l blk_eq [OF d that(2)])
  have old: "A p = None \<or> (\<exists>a. A p = Some a \<and> a_desc a = Some (pf, i))" using p by simp
  note c = change_list [OF inv i dist old _ mem same]
  have "{q ..< q + arena_pages b} \<inter> {p} = {}" if "(A(p := None)) q = Some b" for q b
  proof -
    have "A q = Some b" "q \<noteq> p" using that by (auto split: if_splits)
    from arena_sep [OF inv p(1,2) this] show ?thesis by auto
  qed
  then show "heap_inv s (U - {p}) (with_list ds i l) pf (A(p := None))"
    using c(1) by (intro heap_inv_less) auto
  have "blocks s ds p a = {}" using p(2) all by (simp add: blocks_def)
  then show "live s (with_list ds i l) (A(p := None)) = live s ds A"
    using c(2) live_upd [of s ds A p a] p(1) by (simp add: fun_upd_idem)
qed

text \<open>A large arena leaves the heap.\<close>

lemma release_large:
  assumes inv: "heap_inv s U ds pf A" and p: "A p = Some a" "a_desc a = None"
  shows "heap_inv s (U - {p ..< p + a_cnt a}) ds pf (A(p := None))"
    and "live s ds (A(p := None)) = {y \<in> live s ds A. fst y \<noteq> s + 4096 * p + 12}"
proof -
  have pg: "arena_pages a = a_cnt a" "0 < a_cnt a" using p(2) heap_invD(3) [OF inv p(1)] by (auto simp: arena_pages_def)
  have "heap_inv s U ds pf (A(p := None))" unfolding heap_inv_def
  proof (intro conjI allI impI)
    fix i assume i: "i < length ds"
    show "desc_ok (ds ! i)" by (rule heap_invD(1) [OF inv i])
    show "list_ok s ds pf (A(p := None)) i" using heap_invD(2) [OF inv i] p unfolding list_ok_def
      by (metis fun_upd_apply option.distinct(1) option.inject)
  next
    fix q b assume "(A(p := None)) q = Some b"
    then have "A q = Some b" by (auto split: if_splits)
    then show "0 < arena_pages b" "{q ..< q + arena_pages b} \<subseteq> U" "arena_ok s ds pf q b"
      using heap_invD(3,4) [OF inv, of q b] by auto
  next
    fix q b r c assume "(A(p := None)) q = Some b" "(A(p := None)) r = Some c" "q < r"
    then show "q + arena_pages b \<le> r" using heap_invD(5) [OF inv, of q b r c] by (auto split: if_splits)
  qed
  moreover have "{q ..< q + arena_pages b} \<inter> {p ..< p + a_cnt a} = {}" if "(A(p := None)) q = Some b" for q b
  proof -
    have q: "A q = Some b" "q \<noteq> p" using that by (auto split: if_splits)
    show ?thesis using heap_invD(5) [OF inv q(1) p(1)] heap_invD(5) [OF inv p(1) q(1)] q(2) pg by fastforce
  qed
  ultimately show "heap_inv s (U - {p ..< p + a_cnt a}) ds pf (A(p := None))" by (intro heap_inv_less) auto
  have b: "blocks s ds p a = {(s + 4096 * p + 12, 4096 * a_cnt a - 12)}" using p by (simp add: blocks_def)
  have lv: "live s ds A = insert (s + 4096 * p + 12, 4096 * a_cnt a - 12) (live s ds (A(p := None)))"
    using live_upd [of s ds A p a] p(1) b by (simp add: fun_upd_idem)
  have "(s + 4096 * p + 12, n) \<notin> live s ds (A(p := None))" for n
  proof
    assume "(s + 4096 * p + 12, n) \<in> live s ds (A(p := None))"
    then obtain q c where q: "(A(p := None)) q = Some c" "(s + 4096 * p + 12, n) \<in> blocks s ds q c"
      by (auto simp: live_def)
    then have qp: "A q = Some c" "q \<noteq> p" by (auto split: if_splits)
    have "s + 4096 * q + 12 \<le> s + 4096 * p + 12" "s + 4096 * p + 12 + n \<le> s + 4096 * (q + arena_pages c)" "0 < n"
      using block_in_arena [OF inv qp(1) q(2)] by auto
    moreover from qp(2) have "p < q \<or> q < p" by auto
    then have "4096 * p + 4096 * a_cnt a \<le> 4096 * q \<or> 4096 * (q + arena_pages c) \<le> 4096 * p"
      using heap_invD(5) [OF inv qp(1) p(1)] heap_invD(5) [OF inv p(1) qp(1)] pg by auto
    ultimately show False using pg(2) by linarith
  qed
  then show "live s ds (A(p := None)) = {y \<in> live s ds A. fst y \<noteq> s + 4096 * p + 12}"
    unfolding lv by auto
qed

section \<open>The heap in the state of the memory manager\<close>

text \<open>The heap of the running thread: the kernel's, or its process's own.\<close>

definition heap_pf :: "mm \<Rightarrow> pool_flags" where
  "heap_pf m = (if in_process m then PF_USER else PF_KERNEL)"

definition heap_start :: "mm \<Rightarrow> nat" where
  "heap_start m = vaddr_start (get_vaddr m (heap_pf m))"

definition heap_map :: "mm \<Rightarrow> bitmap" where
  "heap_map m = vaddr_bitmap (get_vaddr m (heap_pf m))"

definition heap_descs :: "mm \<Rightarrow> mem_block_desc list" where
  "heap_descs m = get_descs m (heap_pf m)"

definition heap_arenas :: "mm \<Rightarrow> nat \<rightharpoonup> arena" where
  "heap_arenas m = (\<lambda>p. if p < nbits (heap_map m) then arenas m (heap_start m + 4096 * p) else None)"

definition heap_ok :: "mm \<Rightarrow> bool" where
  "heap_ok m \<longleftrightarrow> heap_start m mod 4096 = 0 \<and> 0 < heap_start m \<and>
     heap_start m + 4096 * nbits (heap_map m) \<le> 4294967296 \<and>
     length (bits (heap_map m)) = btmp_bytes_len (heap_map m) \<and>
     heap_inv (heap_start m) (used_bits (heap_map m)) (heap_descs m) (heap_pf m) (heap_arenas m)"

definition live_blocks :: "mm \<Rightarrow> (nat \<times> nat) set" where
  "live_blocks m = live (heap_start m) (heap_descs m) (heap_arenas m)"

text \<open>What page tables and physical pools do not touch.\<close>

definition keeps :: "mm \<Rightarrow> mm \<Rightarrow> bool" where
  "keeps m m' \<longleftrightarrow> arenas m' = arenas m \<and> in_process m' = in_process m \<and> kernel_vaddr m' = kernel_vaddr m \<and>
     user_vaddr m' = user_vaddr m \<and> k_block_descs m' = k_block_descs m \<and> u_block_descs m' = u_block_descs m"

lemma keeps_refl [simp]: "keeps m m"
  by (simp add: keeps_def)

lemma keeps_trans: "keeps m m1 \<Longrightarrow> keeps m1 m2 \<Longrightarrow> keeps m m2"
  by (simp add: keeps_def)

lemma keeps_heap:
  "keeps m m' \<Longrightarrow> heap_pf m' = heap_pf m \<and> heap_start m' = heap_start m \<and> heap_map m' = heap_map m \<and>
     heap_descs m' = heap_descs m \<and> heap_arenas m' = heap_arenas m"
  by (simp add: keeps_def heap_pf_def heap_start_def heap_map_def heap_descs_def heap_arenas_def get_vaddr_def get_descs_def
      split: pool_flags.splits cong: if_cong)

lemma vwrite_keeps: "vwrite m v x = Some m' \<Longrightarrow> keeps m m'"
  by (auto simp: vwrite_def keeps_def split: bind_splits)

lemma vzero_keeps: "vzero m v n = Some m' \<Longrightarrow> keeps m m'"
proof (induction n arbitrary: m v)
  case (Suc n)
  then obtain m1 where "vwrite m v 0 = Some m1" "vzero m1 (v + 4) n = Some m'" by (auto split: bind_splits)
  then show ?case using Suc.IH [of m1 "v + 4"] vwrite_keeps [of m v 0 m1] keeps_trans by blast
qed simp

lemma set_pool_keeps: "keeps m (set_pool_bitmap m pf b)"
  by (simp add: set_pool_bitmap_def keeps_def split: pool_flags.splits)

lemma palloc_keeps: "palloc m pf = Some (x, m') \<Longrightarrow> keeps m m'"
  by (auto simp: palloc_def set_pool_keeps split: bind_splits if_splits)

lemma pfree_keeps: "pfree m x = Some m' \<Longrightarrow> keeps m m'"
  by (auto simp: pfree_def Let_def set_pool_keeps split: bind_splits if_splits)

lemma page_table_add_keeps: "page_table_add m v x = Some m' \<Longrightarrow> keeps m m'"
  by (auto simp: page_table_add_def split: bind_splits if_splits prod.splits)
    (meson vwrite_keeps palloc_keeps vzero_keeps keeps_trans)+

lemma map_pages_keeps: "map_pages m pf v n = Some (r, m') \<Longrightarrow> keeps m m'"
proof (induction n arbitrary: m v)
  case (Suc n)
  then obtain x m1 where p: "palloc m pf = Some (x, m1)" by (auto split: bind_splits)
  note k = palloc_keeps [OF p]
  show ?case
  proof (cases "x = 0")
    case True
    then show ?thesis using Suc.prems p k by simp
  next
    case False
    then obtain m2 where m2: "page_table_add m1 v x = Some m2" "map_pages m2 pf (w32 (v + PG_SIZE)) n = Some (r, m')"
      using Suc.prems p by (auto split: bind_splits)
    then show ?thesis using k page_table_add_keeps [OF m2(1)] Suc.IH [OF m2(2)] keeps_trans by blast
  qed
qed simp

lemma free_pages_keeps: "free_pages m user v n = Some m' \<Longrightarrow> keeps m m'"
proof (induction n arbitrary: m v)
  case (Suc n)
  then obtain p m1 m2 where h: "pfree m p = Some m1" "page_table_pte_remove m1 v = Some m2"
    "free_pages m2 user (w32 (v + PG_SIZE)) n = Some m'" by (auto split: bind_splits)
  have "keeps m1 m2" using h(2) by (auto simp: page_table_pte_remove_def split: bind_splits dest: vwrite_keeps)
  then show ?case using pfree_keeps [OF h(1)] Suc.IH [OF h(3)] keeps_trans by blast
qed simp

text \<open>The map of virtual pages.\<close>

lemma set_bits_spec:
  "set_bits b st n v = Some b' \<Longrightarrow>
     btmp_bytes_len b' = btmp_bytes_len b \<and> length (bits b') = length (bits b) \<and> (0 < n \<longrightarrow> v = 0 \<or> v = 1) \<and>
     (0 < n \<longrightarrow> st + n \<le> 8 * length (bits b)) \<and>
     (\<forall>j. bit_at b' j = (if st \<le> j \<and> j < st + n then v = 1 else bit_at b j))"
proof (induction n arbitrary: b st)
  case (Suc n)
  then obtain b1 where b1: "bitmap_set b st v = Some b1" "set_bits b1 (st + 1) n v = Some b'" by (auto split: bind_splits)
  have v: "v = 0 \<or> v = 1" and st: "st div 8 < length (bits b)"
    using b1(1) by (auto simp: bitmap_set_def Let_def outcome_simps)
  note l = bitmap_set_length [OF b1(1)] and s = bit_at_bitmap_set [OF b1(1)] and IH = Suc.IH [OF b1(2)]
  have "st + Suc n \<le> 8 * length (bits b)"
  proof (cases n)
    case 0
    then show ?thesis using st by linarith
  qed (use IH l in auto)
  moreover have "bit_at b' j = (if st \<le> j \<and> j < st + Suc n then v = 1 else bit_at b j)" for j
    using IH s by auto
  ultimately show ?case using l IH v by simp
qed auto

lemma heap_of_map:
  assumes "btmp_bytes_len b = btmp_bytes_len (heap_map m)"
  shows "heap_pf (set_vaddr_bitmap m (heap_pf m) b) = heap_pf m" "heap_start (set_vaddr_bitmap m (heap_pf m) b) = heap_start m"
    "heap_map (set_vaddr_bitmap m (heap_pf m) b) = b" "heap_descs (set_vaddr_bitmap m (heap_pf m) b) = heap_descs m"
    "heap_arenas (set_vaddr_bitmap m (heap_pf m) b) = heap_arenas m"
  using assms by (auto simp: set_vaddr_bitmap_def heap_pf_def heap_start_def heap_map_def heap_descs_def heap_arenas_def
      get_vaddr_def get_descs_def fun_eq_iff)

lemma used_after_set:
  assumes "set_bits b st n v = Some b'" "length (bits b) = btmp_bytes_len b"
  shows "used_bits b' = (if v = 1 then used_bits b \<union> {st ..< st + n} else used_bits b - {st ..< st + n})"
    and "btmp_bytes_len b' = btmp_bytes_len b" "length (bits b') = length (bits b)" "0 < n \<Longrightarrow> st + n \<le> nbits b"
proof -
  have r: "btmp_bytes_len b' = btmp_bytes_len b" "length (bits b') = length (bits b)" "0 < n \<Longrightarrow> v = 0 \<or> v = 1"
    "0 < n \<Longrightarrow> st + n \<le> nbits b" "\<And>j. bit_at b' j = (if st \<le> j \<and> j < st + n then v = 1 else bit_at b j)"
    using set_bits_spec [OF assms(1)] assms(2) by simp_all
  show "btmp_bytes_len b' = btmp_bytes_len b" "length (bits b') = length (bits b)" by (rule r)+
  show n: "st + n \<le> nbits b" if "0 < n" by (rule r(4) [OF that])
  show "used_bits b' = (if v = 1 then used_bits b \<union> {st ..< st + n} else used_bits b - {st ..< st + n})"
  proof (cases "n = 0")
    case True
    then show ?thesis using r(1,5) by (simp add: used_bits_def)
  next
    case False
    then have "i < nbits b" if "i < st + n" for i using n that by simp
    then show ?thesis using r(1,5) by (auto simp: used_bits_def)
  qed
qed

text \<open>Virtual pages are taken: they were free, and are in use now.\<close>

lemma malloc_page_heap:
  assumes r: "malloc_page m (heap_pf m) k = Some (v, m')"
    and ok: "heap_start m + 4096 * nbits (heap_map m) \<le> 4294967296" "length (bits (heap_map m)) = btmp_bytes_len (heap_map m)"
  shows "\<exists>b. keeps (set_vaddr_bitmap m (heap_pf m) b) m' \<and> btmp_bytes_len b = btmp_bytes_len (heap_map m) \<and>
    length (bits b) = btmp_bytes_len b \<and> used_bits (heap_map m) \<subseteq> used_bits b \<and> 0 < k \<and>
    (v \<noteq> 0 \<longrightarrow> (\<exists>p. v = heap_start m + 4096 * p \<and> p + k \<le> nbits b \<and>
       {p ..< p + k} \<inter> used_bits (heap_map m) = {} \<and> {p ..< p + k} \<subseteq> used_bits b))"
proof -
  from r obtain m1 w where k: "0 < k" and g: "vaddr_get m (heap_pf m) k = Some (w, m1)"
    by (auto simp: malloc_page_def kassert_def split: bind_splits if_splits)
  show ?thesis
  proof (cases "w = 0")
    case True
    have "v = 0" "m' = m1" using r g True by (auto simp: malloc_page_def split: bind_splits)
    obtain x where x: "bitmap_scan (heap_map m) k = Some x" using g by (auto simp: vaddr_get_def heap_map_def split: bind_splits)
    show ?thesis
    proof (cases "x = - 1")
      case True
      then have "m1 = m" using g x by (simp add: vaddr_get_def heap_map_def)
      moreover have "set_vaddr_bitmap m (heap_pf m) (heap_map m) = m"
        by (simp add: set_vaddr_bitmap_def heap_map_def get_vaddr_def split: pool_flags.splits)
      ultimately show ?thesis using \<open>v = 0\<close> \<open>m' = m1\<close> ok k by (intro exI [of _ "heap_map m"]) simp
    next
      case False
      then obtain b where b: "set_bits (heap_map m) (nat x) k 1 = Some b" "m1 = set_vaddr_bitmap m (heap_pf m) b"
        using g x by (auto simp: vaddr_get_def heap_map_def Let_def kassert_def split: bind_splits if_splits)
      then show ?thesis using \<open>v = 0\<close> \<open>m' = m1\<close> used_after_set [OF b(1) ok(2)] ok(2) k by (intro exI [of _ b]) simp
    qed
  next
    case False
    from g False obtain x b where x: "bitmap_scan (heap_map m) k = Some x" "x \<noteq> - 1"
      and b: "set_bits (heap_map m) (nat x) k 1 = Some b" "m1 = set_vaddr_bitmap m (heap_pf m) b"
      and w: "w = w32 (heap_start m + nat x * PG_SIZE)"
      by (auto simp: vaddr_get_def heap_map_def heap_start_def Let_def kassert_def split: bind_splits if_splits)
    note u = used_after_set [OF b(1) ok(2)]
    from scan_spec [OF x(1) k] x(2) obtain p where p: "x = int p" "p < nbits (heap_map m)"
      "\<forall>i. p \<le> i \<longrightarrow> i < p + k \<longrightarrow> \<not> bit_at (heap_map m) i" by auto
    have wv: "w = heap_start m + 4096 * p"
      using w p(1,2) ok(1) by (simp add: PG_SIZE_def)
    have d: "{p ..< p + k} \<inter> used_bits (heap_map m) = {}" using p(3) by (auto simp: used_bits_def)
    from r g False obtain ok' where mp: "map_pages m1 (heap_pf m) w k = Some (ok', m')" "v = (if ok' then w else 0)"
      by (auto simp: malloc_page_def split: bind_splits if_splits)
    have "keeps (set_vaddr_bitmap m (heap_pf m) b) m'" using map_pages_keeps [OF mp(1)] b(2) by simp
    moreover have "{p ..< p + k} \<subseteq> used_bits b" "p + k \<le> nbits b" using u p(1) k by auto
    ultimately show ?thesis using u d wv mp(2) k ok(2) p(1)
      by (intro exI [of _ b]) (auto split: if_splits)
  qed
qed

lemma add_blocks_spec:
  "add_blocks l a bsize idx n = Some l' \<Longrightarrow> l' = l @ map (arena2block a bsize) [idx ..< idx + n]"
proof (induction n arbitrary: l idx)
  case (Suc n)
  then have "add_blocks (l @ [arena2block a bsize idx]) a bsize (Suc idx) n = Some l'" by (auto split: bind_splits)
  from Suc.IH [OF this] show ?case by (simp add: upt_conv_Cons del: upt_Suc)
qed simp

lemma remove_blocks_spec:
  "distinct l \<Longrightarrow> remove_blocks l a bsize idx n = Some l' \<Longrightarrow>
     l' = filter (\<lambda>x. x \<notin> arena2block a bsize ` {idx ..< idx + n}) l"
proof (induction n arbitrary: l idx)
  case (Suc n)
  then have "remove_blocks (remove1 (arena2block a bsize idx) l) a bsize (Suc idx) n = Some l'" by (auto split: bind_splits)
  moreover have "remove1 (arena2block a bsize idx) l = filter (\<lambda>x. x \<noteq> arena2block a bsize idx) l"
    using Suc.prems(1) by (simp add: distinct_remove1_removeAll removeAll_filter_not_eq eq_commute)
  moreover have "{idx ..< idx + Suc n} = insert idx {Suc idx ..< Suc idx + n}" by auto
  ultimately show ?case using Suc.IH [of "remove1 (arena2block a bsize idx) l" "Suc idx"] Suc.prems(1)
    by (auto simp: conj_commute intro: filter_cong)
qed simp

text \<open>Changing the free list of a descriptor, and the entry of an arena.\<close>

lemma set_free_list_heap:
  assumes "set_free_list m (heap_pf m) i l = Some m'"
  shows "i < length (heap_descs m)" "heap_descs m' = with_list (heap_descs m) i l" "heap_pf m' = heap_pf m"
    "heap_start m' = heap_start m" "heap_map m' = heap_map m" "heap_arenas m' = heap_arenas m" "arenas m' = arenas m"
  using assms by (auto simp: set_free_list_def set_descs_def heap_pf_def heap_start_def heap_map_def heap_descs_def
      heap_arenas_def get_vaddr_def get_descs_def with_list_def outcome_simps fun_eq_iff split: if_splits cong: if_cong)

lemma set_arena_heap:
  assumes "p < nbits (heap_map m)"
  shows "heap_arenas (m\<lparr>arenas := (arenas m)(heap_start m + 4096 * p := x)\<rparr>) = (heap_arenas m)(p := x)"
    "heap_descs (m\<lparr>arenas := A\<rparr>) = heap_descs m" "heap_pf (m\<lparr>arenas := A\<rparr>) = heap_pf m"
    "heap_start (m\<lparr>arenas := A\<rparr>) = heap_start m" "heap_map (m\<lparr>arenas := A\<rparr>) = heap_map m"
  using assms by (auto simp: heap_pf_def heap_start_def heap_map_def heap_descs_def
      heap_arenas_def get_vaddr_def get_descs_def fun_eq_iff)

lemma block2arena_page:
  assumes "s mod 4096 = 0" "s + 4096 * p \<le> x" "x < s + 4096 * p + 4096" "s + 4096 * p + 4096 \<le> 4294967296"
  shows "block2arena x = s + 4096 * p"
proof -
  from assms(1) obtain t where t: "s = 4096 * t" by (auto elim: dvdE simp: mod_eq_0_iff_dvd)
  have "x div 4096 = t + p" by (rule div_nat_eqI) (use assms t in auto)
  moreover have "t + p < 1048576" using assms t by auto
  ultimately show ?thesis using t by (simp add: block2arena_def and_frame)
qed

lemma heap_okD:
  assumes "heap_ok m"
  shows "heap_start m mod 4096 = 0" "0 < heap_start m" "heap_start m + 4096 * nbits (heap_map m) \<le> 4294967296"
    "length (bits (heap_map m)) = btmp_bytes_len (heap_map m)"
    "heap_inv (heap_start m) (used_bits (heap_map m)) (heap_descs m) (heap_pf m) (heap_arenas m)"
    "heap_arenas m p = Some a \<Longrightarrow> p < nbits (heap_map m) \<and> arenas m (heap_start m + 4096 * p) = Some a"
  using assms by (auto simp: heap_ok_def heap_arenas_def split: if_splits)

lemma arena2block_blk:
  assumes "desc_ok d" "j < blocks_per_arena d" "s + 4096 * p + 4096 \<le> 4294967296"
  shows "arena2block (s + 4096 * p) (block_size d) j = blk s d p j"
  using blk_range [OF assms(1,2), of s p] assms by (simp add: arena2block_def blk_def arena_size_def desc_ok_def)

lemma desc_few: "desc_ok d \<Longrightarrow> blocks_per_arena d \<le> 4096"
proof -
  assume d: "desc_ok d"
  then have "blocks_per_arena d * 1 \<le> blocks_per_arena d * block_size d"
    by (intro mult_le_mono2) (simp add: desc_ok_def)
  then have "blocks_per_arena d \<le> blocks_per_arena d * block_size d" by (simp only: mult_1_right)
  moreover have "blocks_per_arena d * block_size d \<le> 4084" using d by (simp add: desc_ok_def)
  ultimately show ?thesis by linarith
qed

lemma take_block_heap:
  assumes ok: "heap_ok m" and r: "take_block m (heap_pf m) i = Some (x, m')"
  shows "heap_ok m' \<and> live_blocks m' = insert (x, block_size (heap_descs m ! i)) (live_blocks m) \<and>
    (\<forall>n. (x, n) \<notin> live_blocks m) \<and> x \<noteq> 0"
proof -
  let ?s = "heap_start m"
  note o = heap_okD [OF ok]
  from r obtain m1 m2 a where i: "i < length (heap_descs m)" and x: "free_list (heap_descs m ! i) = x # tl (free_list (heap_descs m ! i))"
    and m1: "set_free_list m (heap_pf m) i (tl (free_list (heap_descs m ! i))) = Some m1"
    and m2: "vzero m1 x (block_size (heap_descs m ! i) div 4) = Some m2" and a: "arenas m2 (block2arena x) = Some a"
    and m': "m' = m2\<lparr>arenas := (arenas m2)(block2arena x \<mapsto> a\<lparr>a_cnt := sub32 (a_cnt a) 1\<rparr>)\<rparr>"
    by (auto simp: take_block_def heap_descs_def kassert_def Let_def outcome_simps split: bind_splits if_splits)
  note l1 = set_free_list_heap [OF m1] and k2 = keeps_heap [OF vzero_keeps [OF m2]]
  obtain p a0 where p: "heap_arenas m p = Some a0" "a_desc a0 = Some (heap_pf m, i)" "?s + 4096 * p \<le> x" "x < ?s + 4096 * p + 4096"
    "0 < a_cnt a0" and inv: "heap_inv ?s (used_bits (heap_map m)) (heap_descs m1) (heap_pf m) ((heap_arenas m)(p \<mapsto> a0\<lparr>a_cnt := a_cnt a0 - 1\<rparr>))"
    and lv: "live ?s (heap_descs m1) ((heap_arenas m)(p \<mapsto> a0\<lparr>a_cnt := a_cnt a0 - 1\<rparr>)) = insert (x, block_size (heap_descs m ! i)) (live_blocks m)"
    "\<forall>n. (x, n) \<notin> live_blocks m"
    using take_small [OF o(5) i x] l1(2) by (auto simp: live_blocks_def)
  note pn = o(6) [OF p(1)]
  have aa: "block2arena x = ?s + 4096 * p"
    by (rule block2arena_page [OF o(1) p(3,4)]) (use pn o(3) in auto)
  have "arenas m2 = arenas m" using vzero_keeps [OF m2] l1(7) by (simp add: keeps_def)
  then have a0: "a = a0" using a aa pn by simp
  have "a_cnt a0 = card (free_idx ?s (heap_descs m ! i) p)" using heap_invD(4) [OF o(5) p(1)] p(2) by (simp add: arena_ok_def)
  also have "\<dots> \<le> card {..< blocks_per_arena (heap_descs m ! i)}" by (rule card_mono) (auto simp: free_idx_def)
  also have "\<dots> \<le> 4096"
    using desc_few [OF heap_invD(1) [OF o(5) i]] by simp
  finally have "sub32 (a_cnt a0) 1 = a_cnt a0 - 1" using p(5) by (simp add: sub32_le)
  then have h: "heap_arenas m' = (heap_arenas m)(p \<mapsto> a0\<lparr>a_cnt := a_cnt a0 - 1\<rparr>)" "heap_descs m' = heap_descs m1"
    "heap_pf m' = heap_pf m" "heap_start m' = ?s" "heap_map m' = heap_map m"
    using m' a0 aa l1 k2 set_arena_heap [of p m2] pn by simp_all
  have "x \<noteq> 0" using o(2) p(3) by simp
  then show ?thesis using inv lv o by (simp add: heap_ok_def live_blocks_def h)
qed

lemma new_arena_heap:
  assumes ok: "heap_ok m" and r: "new_arena m (heap_pf m) i = Some (ok', m')"
  shows "heap_ok m' \<and> live_blocks m' = live_blocks m \<and> heap_pf m' = heap_pf m \<and>
    map block_size (heap_descs m') = map block_size (heap_descs m)"
proof -
  let ?s = "heap_start m"
  note o = heap_okD [OF ok]
  from r obtain a m1 where m1: "malloc_page m (heap_pf m) 1 = Some (a, m1)" by (auto simp: new_arena_def split: bind_splits)
  from malloc_page_heap [OF m1 o(3,4)] obtain b where b: "keeps (set_vaddr_bitmap m (heap_pf m) b) m1"
    "btmp_bytes_len b = btmp_bytes_len (heap_map m)" "length (bits b) = btmp_bytes_len b" "used_bits (heap_map m) \<subseteq> used_bits b"
    "a \<noteq> 0 \<longrightarrow> (\<exists>p. a = ?s + 4096 * p \<and> p + 1 \<le> nbits b \<and> {p ..< p + 1} \<inter> used_bits (heap_map m) = {} \<and> {p ..< p + 1} \<subseteq> used_bits b)"
    by auto
  note h1 = keeps_heap [OF b(1)] heap_of_map [OF b(2)]
  show ?thesis
  proof (cases "a = 0")
    case True
    then have "m' = m1" using r m1 by (simp add: new_arena_def)
    then show ?thesis using o b heap_inv_more [OF o(5) b(4)] h1 by (simp add: heap_ok_def live_blocks_def)
  next
    case False
    with b(5) obtain p where p: "a = ?s + 4096 * p" "p + 1 \<le> nbits b" "p \<notin> used_bits (heap_map m)" "p \<in> used_bits b"
      by (auto simp: one_page)
    from r m1 False obtain m2 l m3 where m2: "vzero m1 a (PG_SIZE div 4) = Some m2" and i: "i < length (heap_descs m2)"
      and l: "add_blocks (free_list (heap_descs m2 ! i)) a (block_size (heap_descs m2 ! i)) 0 (blocks_per_arena (heap_descs m2 ! i)) = Some l"
      and m3: "set_free_list m2 (heap_pf m) i l = Some m3"
      and m': "m' = m3\<lparr>arenas := (arenas m3)(a \<mapsto> \<lparr>a_desc = Some (heap_pf m, i), a_cnt = blocks_per_arena (heap_descs m2 ! i), a_large = False\<rparr>)\<rparr>"
      using keeps_heap [OF vzero_keeps] h1
      by (auto simp: new_arena_def heap_descs_def outcome_simps split: bind_splits if_splits)
    note h2 = keeps_heap [OF vzero_keeps [OF m2]]
    have d2: "heap_descs m2 = heap_descs m" "heap_pf m2 = heap_pf m" "heap_start m2 = ?s" "heap_map m2 = b" "heap_arenas m2 = heap_arenas m"
      using h1 h2 by simp_all
    note h3 = set_free_list_heap [OF m3 [folded d2(2)]]
    note i = i [unfolded d2(1)]
    have d: "desc_ok (heap_descs m ! i)" by (rule heap_invD(1) [OF o(5) i])
    have pn: "?s + 4096 * p + 4096 \<le> 4294967296" using p(2) b(2) o(3) by simp
    have "map (arena2block a (block_size (heap_descs m ! i))) [0 ..< blocks_per_arena (heap_descs m ! i)]
        = map (blk ?s (heap_descs m ! i) p) [0 ..< blocks_per_arena (heap_descs m ! i)]"
      using arena2block_blk [OF d _ pn] p(1) by simp
    then have l': "l = free_list (heap_descs m ! i) @ map (blk ?s (heap_descs m ! i) p) [0 ..< blocks_per_arena (heap_descs m ! i)]"
      using add_blocks_spec [OF l] d2(1) by simp
    let ?a = "\<lparr>a_desc = Some (heap_pf m, i), a_cnt = blocks_per_arena (heap_descs m ! i), a_large = False\<rparr>"
    note e = enter_small [OF o(5) i b(4) p(3,4), of ?a, OF _ _ l']
    have pm: "p < nbits (heap_map m3)" using p(2) d2 h3 by simp
    have "heap_start m3 = ?s" using d2 h3 by simp
    then have h': "heap_arenas m' = (heap_arenas m)(p \<mapsto> ?a)" "heap_descs m' = with_list (heap_descs m) i l"
      "heap_pf m' = heap_pf m" "heap_start m' = ?s" "heap_map m' = b"
      using m' d2 h3 p(1) set_arena_heap [OF pm] by simp_all
    have "map block_size (with_list (heap_descs m) i l) = map block_size (heap_descs m)"
      using i by (intro nth_equalityI) auto
    then show ?thesis using e o b(2,3) by (simp add: heap_ok_def live_blocks_def h')
  qed
qed

lemma malloc_large_heap:
  assumes ok: "heap_ok m" and r: "malloc_large m (heap_pf m) n = Some (x, m')"
  shows "heap_ok m' \<and> (if x = 0 then live_blocks m' = live_blocks m else
    \<exists>k \<ge> n. live_blocks m' = insert (x, k) (live_blocks m) \<and> (\<forall>k. (x, k) \<notin> live_blocks m))"
proof -
  let ?s = "heap_start m" and ?k = "div_round_up (n + arena_size) PG_SIZE"
  note o = heap_okD [OF ok]
  from r obtain a m1 where m1: "malloc_page m (heap_pf m) ?k = Some (a, m1)" by (auto simp: malloc_large_def Let_def split: bind_splits)
  from malloc_page_heap [OF m1 o(3,4)] obtain b where b: "keeps (set_vaddr_bitmap m (heap_pf m) b) m1"
    "btmp_bytes_len b = btmp_bytes_len (heap_map m)" "length (bits b) = btmp_bytes_len b" "used_bits (heap_map m) \<subseteq> used_bits b" "0 < ?k"
    "a \<noteq> 0 \<longrightarrow> (\<exists>p. a = ?s + 4096 * p \<and> p + ?k \<le> nbits b \<and> {p ..< p + ?k} \<inter> used_bits (heap_map m) = {} \<and> {p ..< p + ?k} \<subseteq> used_bits b)"
    by auto
  note h1 = keeps_heap [OF b(1)] heap_of_map [OF b(2)]
  show ?thesis
  proof (cases "a = 0")
    case True
    then have "m' = m1" "x = 0" using r m1 by (simp_all add: malloc_large_def)
    then show ?thesis using o b heap_inv_more [OF o(5) b(4)] h1 by (simp add: heap_ok_def live_blocks_def)
  next
    case False
    with b(6) obtain p where p: "a = ?s + 4096 * p" "p + ?k \<le> nbits b" "{p ..< p + ?k} \<inter> used_bits (heap_map m) = {}"
      "{p ..< p + ?k} \<subseteq> used_bits b" by auto
    let ?a = "\<lparr>a_desc = None, a_cnt = ?k, a_large = True\<rparr>"
    from r m1 False obtain m2 where m2: "vzero m1 a (?k * PG_SIZE div 4) = Some m2" and x: "x = w32 (a + arena_size)"
      and m': "m' = m2\<lparr>arenas := (arenas m2)(a \<mapsto> ?a)\<rparr>"
      by (auto simp: malloc_large_def Let_def split: bind_splits)
    note h2 = keeps_heap [OF vzero_keeps [OF m2]]
    have d2: "heap_descs m2 = heap_descs m" "heap_pf m2 = heap_pf m" "heap_start m2 = ?s" "heap_map m2 = b" "heap_arenas m2 = heap_arenas m"
      using h1 h2 by simp_all
    have pm: "p < nbits (heap_map m2)" using p(2) d2 b(5) by simp
    have h': "heap_arenas m' = (heap_arenas m)(p \<mapsto> ?a)" "heap_descs m' = heap_descs m"
      "heap_pf m' = heap_pf m" "heap_start m' = ?s" "heap_map m' = b"
      using m' d2 p(1) set_arena_heap [OF pm] by simp_all
    note e = enter_large [OF o(5) b(4) p(3,4) b(5), of ?a]
    have pn: "4096 * p + 4096 * ?k \<le> 4096 * nbits b" using p(2) by simp
    have xv: "x = ?s + 4096 * p + 12" using x p(1) pn b(2,5) o(3) by (simp add: arena_size_def)
    have n: "n + 12 \<le> 4096 * ?k" using div_round_up_enough [of PG_SIZE "n + arena_size"] by (simp add: PG_SIZE_def arena_size_def mult.commute)
    have "(x, j) \<notin> live_blocks m" for j
      using fresh_pages(3) [OF o(5) p(3) b(5), of 0 j] n b(5) xv by (auto simp: live_blocks_def)
    moreover have "live_blocks m' = insert (x, 4096 * ?k - 12) (live_blocks m)"
      using e xv by (simp add: live_blocks_def h')
    moreover have "n \<le> 4096 * ?k - 12" using n by simp
    moreover have "heap_ok m'" using e o b(2,3) by (simp add: heap_ok_def h')
    ultimately show ?thesis using xv by auto
  qed
qed

lemma find_desc_fits: "find_desc ds n < length ds \<Longrightarrow> n \<le> block_size (ds ! find_desc ds n)"
  by (induction ds) (auto split: if_splits)

lemma sys_malloc_heap:
  assumes ok: "heap_ok m" and r: "sys_malloc m n = Some (x, m')"
  shows "heap_ok m' \<and> (if x = 0 then live_blocks m' = live_blocks m else
    \<exists>k \<ge> n. live_blocks m' = insert (x, k) (live_blocks m) \<and> (\<forall>k. (x, k) \<notin> live_blocks m))"
proof -
  let ?pf = "heap_pf m"
  consider (bad) "\<not> (0 < n \<and> n < pool_size (get_pool m ?pf))" | (large) "0 < n \<and> n < pool_size (get_pool m ?pf)" "1024 < n"
    | (small) "0 < n \<and> n < pool_size (get_pool m ?pf)" "\<not> 1024 < n" by blast
  then show ?thesis
  proof cases
    case bad
    then show ?thesis using r ok by (auto simp: sys_malloc_def heap_pf_def Let_def split: if_splits)
  next
    case large
    then have "malloc_large m ?pf n = Some (x, m')" using r by (simp add: sys_malloc_def heap_pf_def Let_def split: if_splits)
    then show ?thesis by (rule malloc_large_heap [OF ok])
  next
    case small
    let ?i = "find_desc (heap_descs m) n"
    from r small obtain fine m1 where i: "?i < length (heap_descs m)"
      and m1: "(if free_list (heap_descs m ! ?i) = [] then new_arena m ?pf ?i else Some (True, m)) = Some (fine, m1)"
      and rest: "(if fine then take_block m1 ?pf ?i else Some (0, m1)) = Some (x, m')"
      by (auto simp: sys_malloc_def heap_descs_def heap_pf_def Let_def outcome_simps split: bind_splits if_splits)
    have h1: "heap_ok m1 \<and> live_blocks m1 = live_blocks m \<and> heap_pf m1 = ?pf \<and> map block_size (heap_descs m1) = map block_size (heap_descs m)"
      using m1 ok new_arena_heap [OF ok] by (auto split: if_splits)
    have "length (heap_descs m1) = length (heap_descs m)" using h1 map_eq_imp_length_eq by metis
    then have bs: "block_size (heap_descs m1 ! ?i) = block_size (heap_descs m ! ?i)"
      using h1 i by (metis nth_map)
    show ?thesis
    proof (cases fine)
      case False
      then show ?thesis using rest h1 by simp
    next
      case True
      then have "take_block m1 (heap_pf m1) ?i = Some (x, m')" using rest h1 by simp
      from take_block_heap [OF _ this] h1 bs find_desc_fits [OF i] show ?thesis by auto
    qed
  qed
qed

section \<open>Freeing\<close>

lemma mfree_page_heap:
  assumes r: "mfree_page m (heap_pf m) (heap_start m + 4096 * p) k = Some m'"
    and ok: "heap_start m + 4096 * nbits (heap_map m) \<le> 4294967296" "length (bits (heap_map m)) = btmp_bytes_len (heap_map m)"
      "p < nbits (heap_map m)"
  shows "\<exists>b. keeps (set_vaddr_bitmap m (heap_pf m) b) m' \<and> btmp_bytes_len b = btmp_bytes_len (heap_map m) \<and>
    length (bits b) = btmp_bytes_len b \<and> used_bits b = used_bits (heap_map m) - {p ..< p + k}"
proof -
  from r obtain user m1 where m1: "free_pages m user (heap_start m + 4096 * p) k = Some m1"
    and m': "vaddr_remove m1 (heap_pf m) (heap_start m + 4096 * p) k = Some m'"
    by (auto simp: mfree_page_def split: bind_splits)
  note k1 = free_pages_keeps [OF m1]
  note h1 = keeps_heap [OF k1]
  have "heap_start m + 4096 * p < 4294967296" using ok(1,3) by simp
  then have "sub32 (heap_start m + 4096 * p) (heap_start m) div PG_SIZE = p"
    by (simp add: sub32_le PG_SIZE_def)
  then obtain b where b: "set_bits (heap_map m) p k 0 = Some b" "m' = set_vaddr_bitmap m1 (heap_pf m) b"
    using m' h1 by (auto simp: vaddr_remove_def heap_map_def heap_start_def split: bind_splits)
  have "keeps (set_vaddr_bitmap m (heap_pf m) b) m'"
    using k1 b(2) by (simp add: keeps_def set_vaddr_bitmap_def split: pool_flags.splits)
  then show ?thesis using used_after_set [OF b(1) ok(2)] ok(2) by (intro exI [of _ b]) simp
qed

text \<open>The pages of an arena that has left the heap are given back.\<close>

lemma give_pages_back:
  assumes r: "mfree_page m (heap_pf m) (heap_start m + 4096 * p) k = Some m'" and p: "p < nbits (heap_map m)"
    and ok: "heap_start m mod 4096 = 0" "0 < heap_start m" "heap_start m + 4096 * nbits (heap_map m) \<le> 4294967296"
      "length (bits (heap_map m)) = btmp_bytes_len (heap_map m)"
    and inv: "heap_inv (heap_start m) (used_bits (heap_map m) - {p ..< p + k}) (heap_descs m) (heap_pf m) (heap_arenas m)"
  shows "heap_ok m' \<and> live_blocks m' = live_blocks m"
proof -
  from mfree_page_heap [OF r ok(3,4) p] obtain b where b: "keeps (set_vaddr_bitmap m (heap_pf m) b) m'"
    "btmp_bytes_len b = btmp_bytes_len (heap_map m)" "length (bits b) = btmp_bytes_len b"
    "used_bits b = used_bits (heap_map m) - {p ..< p + k}" by auto
  note h = keeps_heap [OF b(1)] heap_of_map [OF b(2)]
  show ?thesis using h b(2-4) ok inv by (simp add: heap_ok_def live_blocks_def)
qed

lemma free_block_heap:
  assumes ok: "heap_ok m" and p: "heap_arenas m p = Some a" "a_desc a = Some (heap_pf m, i)"
    and j: "j < blocks_per_arena (heap_descs m ! i)" "j \<notin> free_idx (heap_start m) (heap_descs m ! i) p"
    and x: "x = blk (heap_start m) (heap_descs m ! i) p j"
    and r: "free_block m (heap_pf m) x (heap_pf m) i = Some m'"
  shows "heap_ok m' \<and> live_blocks m' = {y \<in> live_blocks m. fst y \<noteq> x}"
proof -
  let ?s = "heap_start m" and ?d = "heap_descs m ! i"
  let ?l = "free_list ?d @ [x]" and ?a = "a\<lparr>a_cnt := a_cnt a + 1\<rparr>"
  note o = heap_okD [OF ok]
  note pn = o(6) [OF p(1)]
  have i: "i < length (heap_descs m)" and cnt: "a_cnt a = card (free_idx ?s ?d p)"
    using heap_invD(4) [OF o(5) p(1)] p(2) by (simp_all add: arena_ok_def)
  note d = heap_invD(1) [OF o(5) i]
  have top: "?s + 4096 * p + 4096 \<le> 4294967296" using pn o(3) by simp
  have aa: "block2arena x = ?s + 4096 * p"
    by (rule block2arena_page [OF o(1) _ _ top]) (use blk_range [OF d j(1), of ?s p] d x in \<open>auto simp: desc_ok_def\<close>)
  have "a_cnt a \<le> card {..< blocks_per_arena ?d}" unfolding cnt by (rule card_mono) (auto simp: free_idx_def)
  then have w: "w32 (a_cnt a + 1) = a_cnt a + 1" using desc_few [OF d] by simp
  note g = give_back [OF o(5) p j x]
  have rd: "rd (get_descs m (heap_pf m)) i = Some ?d" using i by (simp add: heap_descs_def outcome_simps)
  obtain m1 where m1: "set_free_list m (heap_pf m) i ?l = Some m1"
    using i by (simp add: set_free_list_def heap_descs_def outcome_simps)
  note l1 = set_free_list_heap [OF m1]
  let ?m2 = "m1\<lparr>arenas := (arenas m1)(?s + 4096 * p \<mapsto> ?a)\<rparr>"
  have pm: "p < nbits (heap_map m1)" using pn l1 by simp
  have h2: "heap_arenas ?m2 = (heap_arenas m)(p \<mapsto> ?a)" "heap_descs ?m2 = with_list (heap_descs m) i ?l"
    "heap_pf ?m2 = heap_pf m" "heap_start ?m2 = ?s" "heap_map ?m2 = heap_map m"
    using set_arena_heap [OF pm] l1 by simp_all
  have ok2: "heap_ok ?m2" "live_blocks ?m2 = {y \<in> live_blocks m. fst y \<noteq> x}"
    using g o by (simp_all add: heap_ok_def live_blocks_def h2)
  have arn: "arenas m1 (?s + 4096 * p) = Some a" using pn l1(7) by simp
  have rest: "(if a_cnt a + 1 = blocks_per_arena ?d then
      do { l \<leftarrow> remove_blocks ?l (?s + 4096 * p) (block_size ?d) 0 (blocks_per_arena ?d);
           t \<leftarrow> set_free_list ?m2 (heap_pf m) i l;
           mfree_page (t\<lparr>arenas := (arenas t)(?s + 4096 * p := None)\<rparr>) (heap_pf m) (?s + 4096 * p) 1 }
      else Some ?m2) = Some m'"
    using r by (simp add: free_block_def aa rd m1 arn w Let_def cong: if_cong)
  show ?thesis
  proof (cases "a_cnt a + 1 = blocks_per_arena ?d")
    case False
    then show ?thesis using rest ok2 by simp
  next
    case True
    from rest True obtain l m3 where
      l: "remove_blocks ?l (?s + 4096 * p) (block_size ?d) 0 (blocks_per_arena ?d) = Some l"
      and m3: "set_free_list ?m2 (heap_pf m) i l = Some m3"
      and m': "mfree_page (m3\<lparr>arenas := (arenas m3)(?s + 4096 * p := None)\<rparr>) (heap_pf m) (?s + 4096 * p) 1 = Some m'"
      by (auto split: bind_splits)
    have "set_free_list ?m2 (heap_pf ?m2) i l = Some m3" using m3 h2(3) by (simp only:)
    note l3 = set_free_list_heap [OF this]
    note inv2 = heap_okD(5) [OF ok2(1)]
    have "distinct ?l" using heap_invD(2) [OF inv2, of i] i h2 by (simp add: list_ok_def)
    from remove_blocks_spec [OF this l]
    have l': "l = filter (\<lambda>y. y \<notin> blk (heap_start ?m2) (heap_descs ?m2 ! i) p ` {..< blocks_per_arena (heap_descs ?m2 ! i)}) (free_list (heap_descs ?m2 ! i))"
      using arena2block_blk [OF d _ top] i h2 by (auto intro!: filter_cong simp: image_iff atLeast0LessThan)
    have p2: "heap_arenas ?m2 p = Some ?a" "a_desc ?a = Some (heap_pf ?m2, i)" "a_cnt ?a = blocks_per_arena (heap_descs ?m2 ! i)"
      using p True h2 i by simp_all
    note e = release_small [OF inv2 p2, OF l']
    let ?m4 = "m3\<lparr>arenas := (arenas m3)(?s + 4096 * p := None)\<rparr>"
    have pm3: "p < nbits (heap_map m3)" using pn l3 h2 by simp
    have s3: "heap_start m3 = ?s" using l3 h2 by simp
    have h4: "heap_arenas ?m4 = (heap_arenas ?m2)(p := None)" "heap_descs ?m4 = with_list (heap_descs ?m2) i l"
      "heap_pf ?m4 = heap_pf m" "heap_start ?m4 = ?s" "heap_map ?m4 = heap_map m"
      using set_arena_heap [OF pm3, unfolded s3] l3 h2 s3 by simp_all
    have "heap_ok m' \<and> live_blocks m' = live_blocks ?m4"
    proof (rule give_pages_back)
      show "mfree_page ?m4 (heap_pf ?m4) (heap_start ?m4 + 4096 * p) 1 = Some m'" using m' h4 by simp
      show "heap_inv (heap_start ?m4) (used_bits (heap_map ?m4) - {p ..< p + 1}) (heap_descs ?m4) (heap_pf ?m4) (heap_arenas ?m4)"
        using e(1) h4(1-5) h2(3-5) by (simp only: one_page)
    qed (use h4 o pn in auto)
    moreover have "live_blocks ?m4 = live_blocks ?m2" using e(2) h4(1,2,4) h2(4) by (simp only: live_blocks_def)
    ultimately show ?thesis using ok2(2) by simp
  qed
qed

lemma sys_free_heap:
  assumes ok: "heap_ok m" and x: "(x, n) \<in> live_blocks m" and r: "sys_free m x = Some m'"
  shows "heap_ok m' \<and> live_blocks m' = {y \<in> live_blocks m. fst y \<noteq> x}"
proof -
  let ?s = "heap_start m"
  note o = heap_okD [OF ok]
  from x obtain p a where p: "heap_arenas m p = Some a" and b: "(x, n) \<in> blocks ?s (heap_descs m) p a"
    by (auto simp: live_blocks_def live_def)
  note pn = o(6) [OF p]
  have top: "?s + 4096 * p + 4096 \<le> 4294967296" using pn o(3) by simp
  have x0: "x \<noteq> 0" using block_in_arena [OF o(5) p b] by simp
  show ?thesis
  proof (cases "a_desc a")
    case None
    then have xv: "x = ?s + 4096 * p + 12" using b by (simp add: blocks_def)
    have aa: "block2arena x = ?s + 4096 * p" by (rule block2arena_page [OF o(1) _ _ top]) (use xv in auto)
    let ?m1 = "m\<lparr>arenas := (arenas m)(?s + 4096 * p := None)\<rparr>"
    have m': "mfree_page ?m1 (heap_pf m) (?s + 4096 * p) (a_cnt a) = Some m'"
      using r x0 aa pn None by (auto simp: sys_free_def heap_pf_def Let_def split: bind_splits)
    have h: "heap_arenas ?m1 = (heap_arenas m)(p := None)" "heap_descs ?m1 = heap_descs m"
      "heap_pf ?m1 = heap_pf m" "heap_start ?m1 = ?s" "heap_map ?m1 = heap_map m"
      using set_arena_heap [OF conjunct1 [OF pn]] by simp_all
    note e = release_large [OF o(5) p None]
    have "heap_ok m' \<and> live_blocks m' = live_blocks ?m1"
      by (rule give_pages_back [of ?m1 p "a_cnt a"]) (use m' h e(1) o pn in \<open>simp_all only: conj_assoc\<close>)
    then show ?thesis using e(2) h xv by (simp add: live_blocks_def)
  next
    case (Some gi)
    then obtain i where g: "a_desc a = Some (heap_pf m, i)"
      using heap_invD(4) [OF o(5) p] by (cases gi) (simp add: arena_ok_def)
    then obtain j where j: "j < blocks_per_arena (heap_descs m ! i)" "j \<notin> free_idx ?s (heap_descs m ! i) p"
      "x = blk ?s (heap_descs m ! i) p j" using b by (auto simp: blocks_def)
    note d = heap_invD(1) [OF o(5), of i]
    have i: "i < length (heap_descs m)" using heap_invD(4) [OF o(5) p] g by (simp add: arena_ok_def)
    have aa: "block2arena x = ?s + 4096 * p"
      by (rule block2arena_page [OF o(1) _ _ top]) (use blk_range [OF d [OF i] j(1), of ?s p] d [OF i] j(3) in \<open>auto simp: desc_ok_def\<close>)
    have "free_block m (heap_pf m) x (heap_pf m) i = Some m'"
      using r x0 aa pn g by (auto simp: sys_free_def heap_pf_def Let_def split: bind_splits)
    from free_block_heap [OF ok p g j this] show ?thesis .
  qed
qed

section \<open>What the callers rely on\<close>

text \<open>
  The interface of a heap: a block is fresh and large enough, freeing takes one block away, and the
  blocks in use never overlap.
\<close>

locale block_heap =
  fixes ok :: "'m \<Rightarrow> bool" and used :: "'m \<Rightarrow> (nat \<times> nat) set"
    and alloc :: "'m \<Rightarrow> nat \<Rightarrow> (nat \<times> 'm) option" and release :: "'m \<Rightarrow> nat \<Rightarrow> 'm option"
  assumes alloc_law: "ok m \<Longrightarrow> alloc m n = Some (x, m1) \<Longrightarrow> x \<noteq> 0 \<Longrightarrow>
      ok m1 \<and> (\<exists>k \<ge> n. used m1 = insert (x, k) (used m) \<and> (\<forall>k. (x, k) \<notin> used m))"
    and fail_law: "ok m \<Longrightarrow> alloc m n = Some (0, m1) \<Longrightarrow> ok m1 \<and> used m1 = used m"
    and release_law: "ok m \<Longrightarrow> (x, n) \<in> used m \<Longrightarrow> release m x = Some m1 \<Longrightarrow>
      ok m1 \<and> used m1 = {y \<in> used m. fst y \<noteq> x}"
    and apart_law: "ok m \<Longrightarrow> (x, n) \<in> used m \<Longrightarrow> (y, k) \<in> used m \<Longrightarrow> (x, n) \<noteq> (y, k) \<Longrightarrow> x + n \<le> y \<or> y + k \<le> x"
begin

lemma alloc_release:
  assumes "ok m" "alloc m n = Some (x, m1)" "x \<noteq> 0"
  shows "ok m1" "\<exists>k \<ge> n. used m1 = insert (x, k) (used m) \<and> (\<forall>(y, j) \<in> used m. x + k \<le> y \<or> y + j \<le> x)"
    "release m1 x = Some m2 \<Longrightarrow> ok m2 \<and> used m2 = used m"
proof -
  note a = alloc_law [OF assms]
  then obtain k where k: "n \<le> k" "used m1 = insert (x, k) (used m)" "\<forall>k. (x, k) \<notin> used m" by blast
  show ok1: "ok m1" using a by blast
  have "x + k \<le> y \<or> y + j \<le> x" if "(y, j) \<in> used m" for y j
    by (rule apart_law [OF ok1]) (use k that in auto)
  then show "\<exists>k \<ge> n. used m1 = insert (x, k) (used m) \<and> (\<forall>(y, j) \<in> used m. x + k \<le> y \<or> y + j \<le> x)"
    using k by (intro exI [of _ k]) auto
  assume "release m1 x = Some m2"
  from release_law [OF ok1 _ this, of k] k show "ok m2 \<and> used m2 = used m" by auto
qed

text \<open>Two blocks taken one after the other do not overlap, and freeing one leaves the other.\<close>

lemma alloc_twice:
  assumes "ok m" "alloc m n = Some (x, m1)" "x \<noteq> 0" "alloc m1 k = Some (y, m2)" "y \<noteq> 0"
  shows "\<exists>i \<ge> n. \<exists>j \<ge> k. (x, i) \<in> used m2 \<and> (y, j) \<in> used m2 \<and> (x + i \<le> y \<or> y + j \<le> x) \<and>
    (\<forall>m3. release m2 x = Some m3 \<longrightarrow> (y, j) \<in> used m3)"
proof -
  note a = alloc_law [OF assms(1-3)]
  then obtain i where i: "n \<le> i" "used m1 = insert (x, i) (used m)" by blast
  note b = alloc_law [OF conjunct1 [OF a] assms(4,5)]
  then obtain j where j: "k \<le> j" "used m2 = insert (y, j) (used m1)" "\<forall>k. (y, k) \<notin> used m1" by blast
  have u: "(x, i) \<in> used m2" "(y, j) \<in> used m2" "x \<noteq> y" using i j by auto
  have "x + i \<le> y \<or> y + j \<le> x" using apart_law [of m2, OF _ u(1,2)] b u(3) by blast
  moreover have "(y, j) \<in> used m3" if "release m2 x = Some m3" for m3
    using release_law [OF _ u(1) that] b u by auto
  ultimately show ?thesis using i(1) j(1) u(1,2) by blast
qed

end

interpretation kheap: block_heap heap_ok live_blocks sys_malloc sys_free
proof
  fix m m1 n x
  assume "heap_ok m" "sys_malloc m n = Some (x, m1)" "x \<noteq> 0"
  then show "heap_ok m1 \<and> (\<exists>k \<ge> n. live_blocks m1 = insert (x, k) (live_blocks m) \<and> (\<forall>k. (x, k) \<notin> live_blocks m))"
    using sys_malloc_heap by fastforce
next
  fix m m1 n
  assume "heap_ok m" "sys_malloc m n = Some (0, m1)"
  then show "heap_ok m1 \<and> live_blocks m1 = live_blocks m" using sys_malloc_heap by fastforce
next
  fix m m1 x n
  assume "heap_ok m" "(x, n) \<in> live_blocks m" "sys_free m x = Some m1"
  then show "heap_ok m1 \<and> live_blocks m1 = {y \<in> live_blocks m. fst y \<noteq> x}" by (rule sys_free_heap)
next
  fix m x n y k
  assume "heap_ok m" "(x, n) \<in> live_blocks m" "(y, k) \<in> live_blocks m" "(x, n) \<noteq> (y, k)"
  then show "x + n \<le> y \<or> y + k \<le> x" unfolding live_blocks_def by (intro live_apart [OF heap_okD(5)])
qed

text \<open>A kernel heap of one arena of 16 byte blocks, the first of them in use.\<close>

definition demo_heap :: mm where
  "demo_heap = demo_mm\<lparr>k_block_descs := with_list block_desc_init 0 (map (\<lambda>j. 0xc010000c + j * 16) [1 ..< 255]),
     arenas := [0xc0100000 \<mapsto> \<lparr>a_desc = Some (PF_KERNEL, 0), a_cnt = 254, a_large = False\<rparr>]\<rparr>"

definition demo_desc :: mem_block_desc where
  "demo_desc = \<lparr>block_size = 16, blocks_per_arena = 255, free_list = map (\<lambda>j. 0xc010000c + j * 16) [1 ..< 255]\<rparr>"

definition demo_descs :: "mem_block_desc list" where
  "demo_descs = map (\<lambda>(b, n). \<lparr>block_size = b, blocks_per_arena = n, free_list = []\<rparr>)
      [(32, 127), (64, 63), (128, 31), (256, 15), (512, 7), (1024, 3)]"

lemma block_desc_init_eq:
  "block_desc_init = \<lparr>block_size = 16, blocks_per_arena = 255, free_list = []\<rparr> # demo_descs"
proof -
  have n: "DESC_CNT = Suc (Suc (Suc (Suc (Suc (Suc (Suc 0))))))" by (simp add: DESC_CNT_def)
  show ?thesis unfolding block_desc_init_def n by (simp add: demo_descs_def arena_size_def PG_SIZE_def)
qed

lemma demo_heap_parts:
  "heap_pf demo_heap = PF_KERNEL" "heap_start demo_heap = 0xc0100000"
  "heap_map demo_heap = \<lparr>btmp_bytes_len = 1, bits = [1]\<rparr>"
  "heap_descs demo_heap = demo_desc # demo_descs"
  "heap_arenas demo_heap = [0 \<mapsto> \<lparr>a_desc = Some (PF_KERNEL, 0), a_cnt = 254, a_large = False\<rparr>]"
  by (auto simp: demo_heap_def demo_mm_def heap_pf_def heap_start_def heap_map_def heap_descs_def heap_arenas_def
      get_vaddr_def get_descs_def fun_eq_iff with_list_def block_desc_init_eq demo_desc_def)

lemma demo_free_idx: "free_idx 0xc0100000 demo_desc 0 = {1 ..< 255}"
  by (auto simp: free_idx_def demo_desc_def blk_def image_iff)

lemma demo_heap_ok: "heap_ok demo_heap" "live_blocks demo_heap = {(0xc010000c, 16)}"
proof -
  let ?a = "\<lparr>a_desc = Some (PF_KERNEL, 0), a_cnt = 254, a_large = False\<rparr> :: arena"
  have U: "used_bits \<lparr>btmp_bytes_len = 1, bits = [1]\<rparr> = {0}"
    by (auto simp: used_bits_def bit_at_def bit_1_iff)
  have ds: "\<forall>d \<in> set demo_descs. desc_ok d \<and> free_list d = []" by (simp add: demo_descs_def desc_ok_def)
  have d: "desc_ok demo_desc" by (simp add: demo_desc_def desc_ok_def)
  have l: "list_ok 0xc0100000 (demo_desc # demo_descs) PF_KERNEL [0 \<mapsto> ?a] 0"
    by (auto simp: list_ok_def demo_desc_def blk_def distinct_map inj_on_def)
  have "desc_ok ((demo_desc # demo_descs) ! i) \<and> list_ok 0xc0100000 (demo_desc # demo_descs) PF_KERNEL [0 \<mapsto> ?a] i"
    if "i < length (demo_desc # demo_descs)" for i
    using that ds d l by (cases i) (auto simp: list_ok_def)
  then have "heap_inv 0xc0100000 {0} (demo_desc # demo_descs) PF_KERNEL [0 \<mapsto> ?a]"
    by (auto simp: heap_inv_def arena_pages_def arena_ok_def demo_free_idx split: if_splits)
  then show "heap_ok demo_heap" by (simp add: heap_ok_def demo_heap_parts U)
  have "{..< 255} - {1 ..< 255} = {0 :: nat}" by auto
  moreover have "block_size demo_desc = 16" "blocks_per_arena demo_desc = 255" by (simp_all add: demo_desc_def)
  ultimately have "blocks 0xc0100000 (demo_desc # demo_descs) 0 ?a = {(0xc010000c, 16)}"
    by (simp add: blocks_def demo_free_idx blk_def)
  then show "live_blocks demo_heap = {(0xc010000c, 16)}"
    unfolding live_blocks_def live_def demo_heap_parts by simp
qed

text \<open>Clearing words of the one mapped heap page changes physical memory only.\<close>

definition demo_mapped :: "mm \<Rightarrow> bool" where
  "demo_mapped m \<longleftrightarrow> cr3 m = 0x100000 \<and> (\<forall>a. a \<notin> {0x102000 ..< 0x103000} \<longrightarrow> phys m a = phys demo_mm a)"

lemma demo_mmu: "demo_mapped m \<Longrightarrow> k < 4096 \<Longrightarrow> mmu m (0xc0100000 + k) = Some (0x102000 + k)"
proof -
  assume m: "demo_mapped m" and k: "k < 4096"
  have "(0xc0100000 + k) div 4194304 = 768" "(0xc0100000 + k) div 4096 = 786688"
    using k by (intro div_nat_eqI; simp)+
  moreover from this(2) have "(0xc0100000 + k) mod 4096 = k"
    using div_mult_mod_eq [of "0xc0100000 + k" 4096] by simp
  ultimately show ?thesis using m k by (simp add: demo_mapped_def mmu_def demo_mm_def Let_def and_frame and_one_eq odd_iff_mod_2_eq_one)
qed

lemma demo_vzero:
  "demo_mapped m \<Longrightarrow> k + 4 * n \<le> 4096 \<Longrightarrow> \<exists>f. vzero m (0xc0100000 + k) n = Some (m\<lparr>phys := f\<rparr>)"
proof (induction n arbitrary: m k)
  case 0
  show ?case by (intro exI [of _ "phys m"]) simp
next
  case (Suc n)
  let ?m = "m\<lparr>phys := (phys m)(0x102000 + k := 0)\<rparr>"
  have w: "vwrite m (0xc0100000 + k) 0 = Some ?m" using demo_mmu [OF Suc.prems(1), of k] Suc.prems(2) by (simp add: vwrite_def)
  have "demo_mapped ?m" using Suc.prems by (simp add: demo_mapped_def)
  with Suc.IH [of ?m "k + 4"] Suc.prems(2) obtain f where "vzero ?m (0xc0100000 + (k + 4)) n = Some (?m\<lparr>phys := f\<rparr>)" by auto
  moreover have "vzero m (0xc0100000 + k) (Suc n) = vzero ?m (0xc0100000 + (k + 4)) n" by (simp add: w add.assoc)
  ultimately show ?case by (intro exI [of _ f]) simp
qed

lemma demo_malloc: "\<exists>m1. sys_malloc demo_heap 10 = Some (0xc010001c, m1) \<and> (\<exists>m2. sys_free m1 0xc010001c = Some m2)"
proof -
  have "[1 ..< 255] = 1 # [2 ..< 255 :: nat]" using upt_conv_Cons [of 1 255] by (simp del: upt_rec_numeral)
  then obtain l where fl: "free_list demo_desc = 0xc010001c # l" by (simp add: demo_desc_def del: upt_rec_numeral)
  let ?a = "\<lparr>a_desc = Some (PF_KERNEL, 0), a_cnt = 254, a_large = False\<rparr> :: arena"
  let ?m = "demo_heap\<lparr>k_block_descs := demo_desc\<lparr>free_list := l\<rparr> # demo_descs\<rparr>"
  have ds: "k_block_descs demo_heap = demo_desc # demo_descs" "in_process demo_heap = False"
    "arenas demo_heap = [0xc0100000 \<mapsto> ?a]" "pool_size (kernel_pool demo_heap) = 32768"
    using demo_heap_parts(4) by (simp_all add: heap_descs_def get_descs_def heap_pf_def demo_heap_def demo_mm_def)
  have "demo_mapped ?m" by (simp add: demo_mapped_def demo_heap_def demo_mm_def)
  from demo_vzero [OF this, of 28 4] obtain f where f: "vzero ?m 0xc010001c 4 = Some (?m\<lparr>phys := f\<rparr>)" by auto
  have b: "block2arena 0xc010001c = 0xc0100000" by (simp add: block2arena_def and_frame)
  let ?m1 = "?m\<lparr>phys := f, arenas := [0xc0100000 \<mapsto> ?a\<lparr>a_cnt := 253\<rparr>]\<rparr>"
  have sz: "block_size demo_desc = 16" "blocks_per_arena demo_desc = 255" by (simp_all add: demo_desc_def)
  have "take_block demo_heap PF_KERNEL 0 = Some (0xc010001c, ?m1)"
    by (simp add: take_block_def set_free_list_def set_descs_def get_descs_def ds fl f b sz outcome_simps sub32_le)
  then have "sys_malloc demo_heap 10 = Some (0xc010001c, ?m1)"
    by (simp add: sys_malloc_def ds get_pool_def get_descs_def fl sz outcome_simps)
  moreover have "\<exists>m2. sys_free ?m1 0xc010001c = Some m2"
    by (simp add: sys_free_def ds b free_block_def set_free_list_def set_descs_def get_descs_def sz K_HEAP_START_def outcome_simps)
  ultimately show ?thesis by blast
qed

text \<open>
  Property C12. Every block \<open>sys_malloc\<close> returns is at least as long as asked for, is not in use and
  overlaps no block in use, whether it comes from a free list, a new arena or pages of its own; the
  other blocks stay as they are, and freeing it leaves exactly the blocks that were in use before. The
  invariant of arenas, free lists, counters and page map holds throughout.
\<close>

theorem malloc_then_free:
  assumes "heap_ok m" "sys_malloc m n = Some (x, m1)" "x \<noteq> 0"
  shows "heap_ok m1 \<and>
    (\<exists>k \<ge> n. live_blocks m1 = insert (x, k) (live_blocks m) \<and> (\<forall>(y, j) \<in> live_blocks m. x + k \<le> y \<or> y + j \<le> x)) \<and>
    (\<forall>m2. sys_free m1 x = Some m2 \<longrightarrow> heap_ok m2 \<and> live_blocks m2 = live_blocks m)"
  using kheap.alloc_release [OF assms] by blast

theorem malloc_then_free_witness:
  "\<exists>m1. sys_malloc demo_heap 10 = Some (0xc010001c, m1) \<and>
     (\<exists>k \<ge> 10. live_blocks m1 = {(0xc010001c, k), (0xc010000c, 16)}) \<and>
     (\<exists>m2. sys_free m1 0xc010001c = Some m2 \<and> live_blocks m2 = {(0xc010000c, 16)})"
proof -
  obtain m1 m2 where m: "sys_malloc demo_heap 10 = Some (0xc010001c, m1)" "sys_free m1 0xc010001c = Some m2"
    using demo_malloc by blast
  from malloc_then_free [OF demo_heap_ok(1) m(1)] m show ?thesis by (auto simp: demo_heap_ok(2))
qed

end
