(* ===== verification/Screen.thy ===== *)
theory Screen
  imports Tty Stdio
begin

text \<open>
  The text screen: \<open>src/src/lib/kernel/print.S\<close>, with the functions of \<open>src/src/device/console.c\<close> and
  \<open>printk\<close> (\<open>src/src/lib/kernel/stdio-kernel.c\<close>) on top of it. The instructions are followed at the
  width of their registers. The lock of the console makes each of its calls one step.
\<close>

section \<open>Video memory\<close>

text \<open>
  The segment of \<open>gs\<close> holds the 32768 bytes from \<open>0xb8000\<close> on (\<open>VIDEO_DESC\<close> of
  \<open>src/src/boot/loader.S\<close>), two per character; a write behind them faults (\<open>None\<close>). The
  cursor is the value of the two registers of the video controller.
\<close>

record vga =
  video :: "u8 list"
  cursor :: "16 word"

definition VIDEO_SIZE :: nat where "VIDEO_SIZE = 32768"

text \<open>\<open>rep movsd\<close> copies words of four bytes forward; the second loop clears cells.\<close>

fun rep_movsd :: "u8 list \<Rightarrow> nat \<Rightarrow> nat \<Rightarrow> nat \<Rightarrow> u8 list option" where
  "rep_movsd v src dst 0 = Some v"
| "rep_movsd v src dst (Suc n) =
     do { w \<leftarrow> rd_block v src 4; v \<leftarrow> wr_block v dst w; rep_movsd v (src + 4) (dst + 4) n }"

fun clear_cells :: "u8 list \<Rightarrow> nat \<Rightarrow> nat \<Rightarrow> u8 list option" where
  "clear_cells v ebx 0 = Some v"
| "clear_cells v ebx (Suc n) = do { v \<leftarrow> wr v ebx 0x20; v \<leftarrow> wr v (ebx + 1) 0x07; clear_cells v (ebx + 2) n }"

definition roll_screen :: "vga \<Rightarrow> vga option" where
  "roll_screen t =
     do { v \<leftarrow> rep_movsd (video t) 0xa0 0 960;
          v \<leftarrow> clear_cells v 3840 80;
          Some (t\<lparr>video := v, cursor := 1920\<rparr>) }"

definition set_cursor :: "nat \<Rightarrow> vga \<Rightarrow> vga" where
  "set_cursor cursor_pos t = t\<lparr>cursor := of_nat cursor_pos\<rparr>"

definition cls_screen :: "vga \<Rightarrow> vga option" where
  "cls_screen t = do { v \<leftarrow> clear_cells (video t) 0 (80 * 25); Some (t\<lparr>video := v, cursor := 0\<rparr>) }"

text \<open>Both line ends move to the start of the next line. \<open>jl\<close> compares signed values.\<close>

definition next_line :: "16 word \<Rightarrow> vga \<Rightarrow> vga option" where
  "next_line bx t =
     (let bx = bx - bx mod 80 + 80 in
      if bx <s 2000 then Some (t\<lparr>cursor := bx\<rparr>) else roll_screen t)"

text \<open>A character and its attribute are stored at twice the cursor.\<close>

definition store_cell :: "u8 list \<Rightarrow> 16 word \<Rightarrow> u8 \<Rightarrow> u8 list option" where
  "store_cell v bx c = do { v \<leftarrow> wr v (unat bx) c; wr v (unat (bx + 1)) 0x07 }"

definition put_char :: "u8 \<Rightarrow> vga \<Rightarrow> vga option" where
  "put_char c t =
     (let bx = cursor t in
      if c = 0x0d \<or> c = 0x0a then next_line bx t
      else if c = 0x08 then
        let bx = push_bit 1 (bx - 1) in
        do { v \<leftarrow> store_cell (video t) bx 0x20;
             Some (t\<lparr>video := v, cursor := drop_bit 1 (bx + 1)\<rparr>) }
      else
        let bx = push_bit 1 bx in
        do { v \<leftarrow> store_cell (video t) bx c;
             let bx = drop_bit 1 (bx + 1) + 1; t = t\<lparr>video := v\<rparr> in
             if bx <s 2000 then Some (t\<lparr>cursor := bx\<rparr>) else next_line bx t })"

fun put_chars :: "u8 list \<Rightarrow> vga \<Rightarrow> vga option" where
  "put_chars [] t = Some t"
| "put_chars (c # cs) t = do { t \<leftarrow> put_char c t; put_chars cs t }"

text \<open>A string without a terminating zero runs on behind its end.\<close>

fun screen_put_str :: "u8 list \<Rightarrow> vga \<Rightarrow> vga option" where
  "screen_put_str [] t = None"
| "screen_put_str (c # cs) t = (if c = 0 then Some t else do { t \<leftarrow> put_char c t; screen_put_str cs t })"

text \<open>\<open>put_int\<close>: eight hexadecimal digits, of which those in front of the first that is not zero are left out.\<close>

definition hex_digit :: "nat \<Rightarrow> u8" where
  "hex_digit d = (if d > 9 then of_nat (d - 10 + 65) else of_nat (d + 48))"

fun int_digits :: "nat \<Rightarrow> nat \<Rightarrow> u8 list \<Rightarrow> u8 list" where
  "int_digits 0 num ds = ds"
| "int_digits (Suc n) num ds = int_digits n (num div 16) (hex_digit (num mod 16) # ds)"

definition put_int :: "u32 \<Rightarrow> vga \<Rightarrow> vga option" where
  "put_int num t =
     (let ds = dropWhile (\<lambda>c. c = 48) (int_digits 8 (unat num) []) in
      put_chars (if ds = [] then [48] else ds) t)"

section \<open>The console\<close>

definition console_put_str :: "u8 list \<Rightarrow> vga \<Rightarrow> vga option" where
  "console_put_str s t = screen_put_str s t"

definition console_put_char :: "u8 \<Rightarrow> vga \<Rightarrow> vga option" where
  "console_put_char char_asci t = put_char char_asci t"

definition console_put_int :: "u32 \<Rightarrow> vga \<Rightarrow> vga option" where
  "console_put_int num t = put_int num t"

definition printk :: "string \<Rightarrow> va_arg list \<Rightarrow> vga \<Rightarrow> vga option" where
  "printk fmt args t =
     do { (n, buf) \<leftarrow> vsprintf (replicate 1024 nul) fmt args;
          console_put_str (map of_char buf) t }"

section \<open>Cells\<close>

definition cell :: "vga \<Rightarrow> nat \<Rightarrow> u8" where
  "cell t i = video t ! (2 * i)"

definition vga_ok :: "vga \<Rightarrow> bool" where
  "vga_ok t \<longleftrightarrow> length (video t) = VIDEO_SIZE \<and> unat (cursor t) < 2000"

lemma rep_movsd_spec:
  assumes "dst + k + 4 * n \<le> length v"
  shows "\<exists>v'. rep_movsd v (dst + k) dst n = Some v' \<and> length v' = length v \<and>
    (\<forall>i < length v. v' ! i = (if dst \<le> i \<and> i < dst + 4 * n then v ! (i + k) else v ! i))"
  using assms
proof (induction n arbitrary: v dst)
  case (Suc n)
  define w where "w = take 4 (drop (dst + k) v)"
  let ?v = "take dst v @ w @ drop (dst + 4) v"
  have lw: "length w = 4" and wi: "j < 4 \<Longrightarrow> w ! j = v ! (dst + k + j)" for j
    using Suc.prems by (simp_all add: w_def)
  have w: "rd_block v (dst + k) 4 = Some w" "wr_block v dst w = Some ?v" "length ?v = length v"
    using Suc.prems lw by (simp_all add: rd_block_def wr_block_def w_def)
  have at: "?v ! i = (if dst \<le> i \<and> i < dst + 4 then v ! (i + k) else v ! i)" if "i < length v" for i
    using Suc.prems that lw wi [of "i - dst"] by (auto simp: nth_append add.commute)
  have "dst + 4 + k + 4 * n \<le> length ?v" using Suc.prems w(3) by simp
  from Suc.IH [OF this] obtain v' where v': "rep_movsd ?v (dst + 4 + k) (dst + 4) n = Some v'" "length v' = length v"
    "\<forall>i < length v. v' ! i = (if dst + 4 \<le> i \<and> i < dst + 4 + 4 * n then ?v ! (i + k) else ?v ! i)" using w(3) by auto
  have "v' ! i = (if dst \<le> i \<and> i < dst + 4 * Suc n then v ! (i + k) else v ! i)" if i: "i < length v" for i
    using v'(3) i at [of i] at [of "i + k"] Suc.prems by (auto simp del: nth_append)
  then show ?case using w v'(1,2) by (auto simp: ac_simps)
qed auto

lemma clear_cells_spec:
  assumes "2 * (b + n) \<le> length v"
  shows "\<exists>v'. clear_cells v (2 * b) n = Some v' \<and> length v' = length v \<and>
    (\<forall>i. v' ! (2 * i) = (if b \<le> i \<and> i < b + n then 0x20 else v ! (2 * i)))"
  using assms
proof (induction n arbitrary: v b)
  case (Suc n)
  let ?v = "v[2 * b := 0x20, 2 * b + 1 := 0x07]"
  have "?v ! (2 * i) = (if i = b then 0x20 else v ! (2 * i))" for i
    using Suc.prems nth_list_update_neq [of "2 * b + 1" "2 * i" "v[2 * b := 0x20]" "0x07"] by (auto; presburger)
  moreover from Suc.IH [of "b + 1" ?v] Suc.prems obtain v' where "clear_cells ?v (2 * (b + 1)) n = Some v'" "length v' = length v"
    "\<forall>i. v' ! (2 * i) = (if b + 1 \<le> i \<and> i < b + 1 + n then 0x20 else ?v ! (2 * i))" by auto
  ultimately show ?case using Suc.prems by (auto simp: wr_def)
qed auto

lemma roll_screen_spec:
  assumes "length (video t) = VIDEO_SIZE"
  shows "\<exists>t'. roll_screen t = Some t' \<and> vga_ok t' \<and> unat (cursor t') = 1920 \<and>
    (\<forall>i < 2000. cell t' i = (if i < 1920 then cell t (i + 80) else 0x20))"
proof -
  from rep_movsd_spec [of 0 "0xa0" 960 "video t"] assms obtain v where v: "rep_movsd (video t) 0xa0 0 960 = Some v"
    "length v = VIDEO_SIZE" "\<forall>i < VIDEO_SIZE. v ! i = (if i < 3840 then video t ! (i + 160) else video t ! i)"
    by (auto simp: VIDEO_SIZE_def)
  from clear_cells_spec [of 1920 80 v] v(2) obtain v' where v': "clear_cells v 3840 80 = Some v'" "length v' = VIDEO_SIZE"
    "\<forall>i. v' ! (2 * i) = (if 1920 \<le> i \<and> i < 2000 then 0x20 else v ! (2 * i))" by (auto simp: VIDEO_SIZE_def)
  let ?t = "t\<lparr>video := v', cursor := 1920\<rparr>"
  have "cell ?t i = (if i < 1920 then cell t (i + 80) else 0x20)" if "i < 2000" for i
    using that v(3) v'(3) by (simp add: cell_def VIDEO_SIZE_def)
  then show ?thesis using v v' by (intro exI [of _ ?t]) (simp add: roll_screen_def vga_ok_def)
qed

lemma cls_screen_spec:
  assumes "length (video t) = VIDEO_SIZE"
  shows "\<exists>t'. cls_screen t = Some t' \<and> vga_ok t' \<and> unat (cursor t') = 0 \<and> (\<forall>i < 2000. cell t' i = 0x20)"
proof -
  from clear_cells_spec [of 0 2000 "video t"] assms obtain v where v: "clear_cells (video t) 0 2000 = Some v"
    "length v = VIDEO_SIZE" "\<forall>i. v ! (2 * i) = (if i < 2000 then 0x20 else video t ! (2 * i))" by (auto simp: VIDEO_SIZE_def)
  then show ?thesis by (intro exI [of _ "t\<lparr>video := v, cursor := 0\<rparr>"]) (simp add: cls_screen_def vga_ok_def cell_def)
qed

text \<open>The registers of a cursor on the screen.\<close>

lemma cursor_of_nat: "vga_ok t \<Longrightarrow> \<exists>k < 2000. cursor t = of_nat k \<and> unat (cursor t) = k"
  by (intro exI [of _ "unat (cursor t)"]) (simp add: vga_ok_def)

lemma small_word:
  assumes "k < 32768"
  shows "unat (of_nat k :: 16 word) = k" "(of_nat k :: 16 word) <s 2000 \<longleftrightarrow> k < 2000"
    "(of_nat k :: 16 word) mod 80 = of_nat (k mod 80)"
proof -
  show u: "unat (of_nat k :: 16 word) = k" using assms by (simp add: unat_of_nat)
  have "sint (of_nat k :: 16 word) = int k"
    using assms by (simp add: sint_uint signed_take_bit_int_eq_self uint_nat u)
  then show "(of_nat k :: 16 word) <s 2000 \<longleftrightarrow> k < 2000" by (simp add: word_sless_alt)
  show "(of_nat k :: 16 word) mod 80 = of_nat (k mod 80)"
    by (rule word_unat_eq_iff [THEN iffD2]) (use assms u in \<open>simp add: unat_mod_distrib unat_of_nat\<close>)
qed

lemma twice:
  assumes "k < 16384"
  shows "unat (push_bit 1 (of_nat k :: 16 word)) = 2 * k" "unat (push_bit 1 (of_nat k) + 1 :: 16 word) = 2 * k + 1"
    "drop_bit 1 (push_bit 1 (of_nat k) + 1 :: 16 word) = of_nat k"
proof -
  have p: "push_bit 1 (of_nat k :: 16 word) = of_nat (2 * k)" by (simp add: push_bit_of_nat [symmetric] push_bit_eq_mult mult.commute)
  show "unat (push_bit 1 (of_nat k :: 16 word)) = 2 * k" unfolding p unat_of_nat using assms by simp
  have q: "push_bit 1 (of_nat k) + 1 = (of_nat (2 * k + 1) :: 16 word)" unfolding p by simp
  show u: "unat (push_bit 1 (of_nat k) + 1 :: 16 word) = 2 * k + 1" unfolding q unat_of_nat using assms by simp
  show "drop_bit 1 (push_bit 1 (of_nat k) + 1 :: 16 word) = of_nat k"
    by (rule word_unat_eq_iff [THEN iffD2]) (use assms in \<open>simp only: unat_drop_bit_eq u; simp add: drop_bit_eq_div unat_of_nat\<close>)
qed

section \<open>What a character does\<close>

lemma store_cell_spec:
  assumes "length v = VIDEO_SIZE" "k < 16384"
  shows "\<exists>v'. store_cell v (push_bit 1 (of_nat k)) c = Some v' \<and> length v' = VIDEO_SIZE \<and>
    (\<forall>i. v' ! (2 * i) = (if i = k then c else v ! (2 * i)))"
proof -
  let ?v = "v[2 * k := c, 2 * k + 1 := 0x07]"
  have "?v ! (2 * i) = (if i = k then c else v ! (2 * i))" for i
    using assms nth_list_update_neq [of "2 * k + 1" "2 * i" "v[2 * k := c]" "0x07"] by (auto simp: VIDEO_SIZE_def; presburger)
  then show ?thesis using assms by (intro exI [of _ ?v]) (simp add: store_cell_def twice VIDEO_SIZE_def wr_def)
qed

text \<open>Moving to the start of line \<open>k div 80 + 1\<close>, from a position \<open>k\<close> of the screen or behind its last cell.\<close>

lemma next_line_spec:
  assumes v: "length (video t) = VIDEO_SIZE" and k: "k \<le> 2000"
  shows "\<exists>t'. next_line (of_nat k) t = Some t' \<and> vga_ok t' \<and>
    (if k < 1920 then unat (cursor t') = 80 * (k div 80) + 80 \<and> (\<forall>i. cell t' i = cell t i)
     else unat (cursor t') = 1920 \<and> (\<forall>i < 2000. cell t' i = (if i < 1920 then cell t (i + 80) else 0x20)))"
proof -
  have l: "80 * (k div 80) = k - k mod 80" using minus_mod_eq_mult_div [of k 80] by simp
  have "(of_nat k :: 16 word) - of_nat k mod 80 = of_nat (80 * (k div 80))"
    unfolding l using k small_word(3) [of k] by (simp add: of_nat_diff)
  then have b: "(of_nat k :: 16 word) - of_nat k mod 80 + 80 = of_nat (80 * (k div 80) + 80)" by simp
  have s: "80 * (k div 80) + 80 < 32768" using k l by linarith
  show ?thesis
  proof (cases "k < 1920")
    case True
    then have "k div 80 < 24" by (simp add: div_less_iff_less_mult)
    then have "80 * (k div 80) + 80 < 2000" by linarith
    then show ?thesis using True v s small_word [of "80 * (k div 80) + 80"]
      by (simp only: next_line_def b Let_def) (simp add: vga_ok_def cell_def)
  next
    case False
    then have "24 \<le> k div 80" by (simp add: less_eq_div_iff_mult_less_eq)
    then have "\<not> 80 * (k div 80) + 80 < 2000" by linarith
    then show ?thesis using False s small_word [of "80 * (k div 80) + 80"] roll_screen_spec [OF v]
      by (simp only: next_line_def b Let_def) simp
  qed
qed

lemma put_char_line_end:
  assumes t: "vga_ok t" and c: "c = NL \<or> c = CR" and k: "k = unat (cursor t)"
  shows "\<exists>t'. put_char c t = Some t' \<and> vga_ok t' \<and>
    (if k < 1920 then unat (cursor t') = 80 * (k div 80) + 80 \<and> (\<forall>i. cell t' i = cell t i)
     else unat (cursor t') = 1920 \<and> (\<forall>i < 2000. cell t' i = (if i < 1920 then cell t (i + 80) else 0x20)))"
proof -
  have "put_char c t = next_line (of_nat k) t" using c k by (auto simp: put_char_def)
  then show ?thesis using next_line_spec [of t k] t k by (simp add: vga_ok_def)
qed

lemma put_char_shows:
  assumes t: "vga_ok t" and c: "c \<noteq> NL" "c \<noteq> CR" "c \<noteq> BS" and k: "k = unat (cursor t)"
  shows "\<exists>t'. put_char c t = Some t' \<and> vga_ok t' \<and>
    (if k < 1999 then unat (cursor t') = k + 1 \<and> (\<forall>i. cell t' i = (if i = k then c else cell t i))
     else unat (cursor t') = 1920 \<and>
       (\<forall>i < 2000. cell t' i = (if i = 1919 then c else if i < 1920 then cell t (i + 80) else 0x20)))"
proof -
  have cu: "cursor t = of_nat k" and k2: "k < 2000" and v: "length (video t) = VIDEO_SIZE" using t k by (simp_all add: vga_ok_def)
  from store_cell_spec [OF v, of k c] k2 obtain v' where v': "store_cell (video t) (push_bit 1 (of_nat k)) c = Some v'"
    "length v' = VIDEO_SIZE" "\<forall>i. v' ! (2 * i) = (if i = k then c else video t ! (2 * i))" by auto
  let ?t = "t\<lparr>video := v'\<rparr>"
  have d: "drop_bit 1 (push_bit 1 (of_nat k) + 1 :: 16 word) + 1 = of_nat (k + 1)" using twice(3) [of k] k2 by simp
  have cell: "cell ?t i = (if i = k then c else cell t i)" for i using v'(3) by (simp add: cell_def)
  have p: "put_char c t = (if (of_nat (k + 1) :: 16 word) <s 2000 then Some (?t\<lparr>cursor := of_nat (k + 1)\<rparr>)
      else next_line (of_nat (k + 1)) ?t)"
    using c v'(1) by (simp only: put_char_def cu Let_def d) simp
  show ?thesis
  proof (cases "k < 1999")
    case True
    then show ?thesis using p v' cell small_word [of "k + 1"] by (simp add: vga_ok_def cell_def)
  next
    case False
    then have k3: "k = 1999" using k2 by simp
    from next_line_spec [of ?t 2000] v'(2) obtain t' where t': "next_line (of_nat 2000) ?t = Some t'" "vga_ok t'"
      "unat (cursor t') = 1920" "\<forall>i < 2000. cell t' i = (if i < 1920 then cell ?t (i + 80) else 0x20)" by auto
    have "put_char c t = Some t'" using p t'(1) small_word(2) [of 2000] k3 by simp
    then show ?thesis using t' cell k3 by auto
  qed
qed

lemma put_char_rubs_out:
  assumes t: "vga_ok t" and k: "unat (cursor t) = k + 1"
  shows "\<exists>t'. put_char BS t = Some t' \<and> vga_ok t' \<and> unat (cursor t') = k \<and> (\<forall>i. cell t' i = (if i = k then 0x20 else cell t i))"
proof -
  have k2: "k < 1999" and v: "length (video t) = VIDEO_SIZE" using t k by (simp_all add: vga_ok_def)
  have "cursor t = of_nat (k + 1)" using k2 by (simp only: unat_of_nat word_unat_eq_iff k) simp
  then have cu: "cursor t - 1 = of_nat k" by simp
  from store_cell_spec [OF v, of k "0x20"] k2 obtain v' where v': "store_cell (video t) (push_bit 1 (of_nat k)) 0x20 = Some v'"
    "length v' = VIDEO_SIZE" "\<forall>i. v' ! (2 * i) = (if i = k then 0x20 else video t ! (2 * i))" by auto
  have "put_char BS t = Some (t\<lparr>video := v', cursor := of_nat k\<rparr>)"
    using v'(1) twice(3) [of k] k2 by (simp add: put_char_def cu)
  then show ?thesis using v' k2 small_word(1) [of k] by (simp add: vga_ok_def cell_def)
qed

text \<open>
  A backspace at the first cell of the screen writes at offset 65534, behind the segment: the
  processor faults in the kernel.
\<close>

lemma backspace_at_origin_faults:
  assumes "vga_ok t" "cursor t = 0"
  shows "put_char BS t = None"
proof -
  have "push_bit 1 (0 - 1) = (of_nat 65534 :: 16 word)" by (simp add: push_bit_eq_mult One_nat_def)
  then have "unat (push_bit 1 (0 - 1) :: 16 word) = 65534" by (simp only: unat_of_nat) simp
  then show ?thesis using assms by (simp add: put_char_def store_cell_def wr_def vga_ok_def VIDEO_SIZE_def)
qed

section \<open>A page that grows\<close>

text \<open>
  A reference: everything printed since the screen was clear is one text without line ends, in which a line
  end fills the line up to 80 characters (and adds an empty line behind a full one). The screen
  shows its last 25 lines.
\<close>

definition typeset :: "u8 list \<Rightarrow> u8 \<Rightarrow> u8 list" where
  "typeset page c = (if c = NL \<or> c = CR then page @ replicate (80 - length page mod 80) 0x20 else page @ [c])"

definition hidden :: "u8 list \<Rightarrow> nat" where
  "hidden page = 80 * (length page div 80 - 24)"

definition on_screen :: "vga \<Rightarrow> u8 list \<Rightarrow> bool" where
  "on_screen t page \<longleftrightarrow> vga_ok t \<and> unat (cursor t) = length page - hidden page \<and>
     (\<forall>i < 2000. cell t i = (if hidden page + i < length page then page ! (hidden page + i) else 0x20))"

lemma hidden_le: "hidden page \<le> length page" "length page - hidden page < 2000"
  "(length page - hidden page) mod 80 = length page mod 80"
proof -
  define q r where "q = length page div 80" and "r = length page mod 80"
  have l: "length page = 80 * q + r" "r < 80" by (simp_all add: q_def r_def)
  have h: "hidden page = 80 * (q - 24)" by (simp add: hidden_def q_def)
  show "hidden page \<le> length page" "length page - hidden page < 2000" using l h by linarith+
  have "length page - hidden page = 80 * (q - (q - 24)) + r" using l h by (cases "q \<le> 24") auto
  then show "(length page - hidden page) mod 80 = length page mod 80" using l(2) by (simp add: r_def [symmetric])
qed

lemma typeset_shows:
  assumes t: "on_screen t page" and c: "c \<noteq> BS"
  shows "\<exists>t'. put_char c t = Some t' \<and> on_screen t' (typeset page c)"
proof -
  define q r where "q = length page div 80" and "r = length page mod 80"
  have l: "length page = 80 * q + r" "r < 80" by (simp_all add: q_def r_def)
  have h: "hidden page = 80 * (q - 24)" by (simp add: hidden_def q_def)
  define k where "k = length page - hidden page"
  have ok: "vga_ok t" and k: "k = unat (cursor t)"
    and cells: "\<forall>i < 2000. cell t i = (if hidden page + i < length page then page ! (hidden page + i) else 0x20)"
    using t by (simp_all add: on_screen_def k_def)
  have kq: "k = (if q < 24 then 80 * q + r else 1920 + r)" using l h by (auto simp: k_def)
  show ?thesis
  proof (cases "c = NL \<or> c = CR")
    case True
    let ?p = "page @ replicate (80 - r) 0x20"
    have p: "typeset page c = ?p" using True by (simp add: typeset_def r_def)
    have lp: "length ?p = 80 * (q + 1)" using l by simp
    then have hp: "hidden ?p = 80 * (q + 1 - 24)" unfolding hidden_def lp by simp
    have np: "?p ! j = (if j < length page then page ! j else 0x20)" if "j < length ?p" for j
      using that by (auto simp: nth_append)
    from put_char_line_end [OF ok True k] obtain t' where t': "put_char c t = Some t'" "vga_ok t'"
      "if k < 1920 then unat (cursor t') = 80 * (k div 80) + 80 \<and> (\<forall>i. cell t' i = cell t i)
       else unat (cursor t') = 1920 \<and> (\<forall>i < 2000. cell t' i = (if i < 1920 then cell t (i + 80) else 0x20))" by blast
    have "on_screen t' ?p"
    proof (cases "q < 24")
      case True
      then have "k < 1920" "k div 80 = q" "hidden page = 0" "hidden ?p = 0" using kq l h hp by auto
      then show ?thesis using t'(2,3) lp cells np l unfolding on_screen_def by auto
    next
      case False
      then have hh: "\<not> k < 1920" "hidden ?p = hidden page + 80" "length ?p - hidden ?p = 1920" "length page < hidden page + 2000"
        using kq h hp lp l by auto
      have "cell t' i = (if hidden ?p + i < length ?p then ?p ! (hidden ?p + i) else 0x20)" if i: "i < 2000" for i
      proof (cases "i < 1920")
        case True
        then have "cell t' i = cell t (i + 80)" using t'(3) hh(1) i by simp
        also have "\<dots> = (if hidden page + (i + 80) < length page then page ! (hidden page + (i + 80)) else 0x20)"
          using cells True by simp
        also have "\<dots> = ?p ! (hidden ?p + i)" using np [of "hidden ?p + i"] hh(2,3) True by (simp add: ac_simps)
        finally show ?thesis using True hh(3) by auto
      next
        case False
        then show ?thesis using t'(3) hh i by auto
      qed
      then show ?thesis using t'(2,3) hh by (simp add: on_screen_def)
    qed
    then show ?thesis using t'(1) p by auto
  next
    case False
    let ?p = "page @ [c]"
    have p: "typeset page c = ?p" using False by (simp add: typeset_def)
    have np: "?p ! j = (if j < length page then page ! j else c)" if "j \<le> length page" for j
      using that by (auto simp: nth_append)
    from put_char_shows [OF ok _ _ c k] False obtain t' where t': "put_char c t = Some t'" "vga_ok t'"
      "if k < 1999 then unat (cursor t') = k + 1 \<and> (\<forall>i. cell t' i = (if i = k then c else cell t i))
       else unat (cursor t') = 1920 \<and>
         (\<forall>i < 2000. cell t' i = (if i = 1919 then c else if i < 1920 then cell t (i + 80) else 0x20))" by blast
    have "on_screen t' ?p"
    proof (cases "k < 1999")
      case True
      have "(length page + 1) div 80 - 24 = q - 24"
      proof (cases "r = 79")
        case r: True
        then have "length page + 1 = 80 * (q + 1)" using l by simp
        then have "(length page + 1) div 80 = q + 1" by simp
        moreover have "q < 24" using True kq r by (auto split: if_splits)
        ultimately show ?thesis by simp
      next
        case False
        then have "length page + 1 = (r + 1) + q * 80" "r + 1 < 80" using l by simp_all
        then show ?thesis by simp
      qed
      then have hp: "hidden ?p = hidden page" using h by (simp add: hidden_def)
      have "cell t' i = (if hidden ?p + i < length ?p then ?p ! (hidden ?p + i) else 0x20)" if i: "i < 2000" for i
        using t'(3) True cells i np [of "hidden page + i"] hidden_le(1) [of page] unfolding hp k_def by auto
      then show ?thesis using t'(2,3) True hp hidden_le(1) [of page] by (simp add: on_screen_def k_def)
    next
      case False
      then have r: "r = 79" "24 \<le> q" "k = 1999" using kq l(2) hidden_le(2) [of page] by (auto simp: k_def split: if_splits)
      then have lp: "length ?p = 80 * (q + 1)" using l by simp
      then have hp: "hidden ?p = hidden page + 80" using h r unfolding hidden_def lp by simp
      have len: "length page = hidden page + 1999" using r(3) hidden_le(1) [of page] by (simp add: k_def)
      have "cell t' i = (if hidden ?p + i < length ?p then ?p ! (hidden ?p + i) else 0x20)" if i: "i < 2000" for i
      proof (cases "i < 1919")
        case True
        then show ?thesis using t'(3) r(3) cells np [of "hidden page + (i + 80)"] len unfolding hp by (simp add: ac_simps)
      next
        case False
        then have "i = 1919 \<or> 1919 < i" by auto
        then show ?thesis
        proof
          assume "i = 1919"
          then show ?thesis using t'(3) r(3) np [of "length page"] len unfolding hp by (simp add: ac_simps)
        next
          assume "1919 < i"
          then show ?thesis using t'(3) r(3) i len unfolding hp by simp
        qed
      qed
      then show ?thesis using t'(2,3) r(3) hp len by (simp add: on_screen_def)
    qed
    then show ?thesis using t'(1) p by auto
  qed
qed

lemma put_str_shows:
  "on_screen t page \<Longrightarrow> 0 \<notin> set s \<Longrightarrow> BS \<notin> set s \<Longrightarrow>
     \<exists>t'. screen_put_str (s @ 0 # rest) t = Some t' \<and> on_screen t' (foldl typeset page s)"
proof (induction s arbitrary: t page)
  case (Cons c s)
  from typeset_shows [OF Cons.prems(1), of c] Cons.prems(3) obtain t1 where
    t1: "put_char c t = Some t1" "on_screen t1 (typeset page c)" by auto
  with Cons.IH [OF t1(2)] Cons.prems(2,3) show ?case by auto
qed simp

lemma put_chars_shows:
  "on_screen t page \<Longrightarrow> BS \<notin> set s \<Longrightarrow> \<exists>t'. put_chars s t = Some t' \<and> on_screen t' (foldl typeset page s)"
proof (induction s arbitrary: t page)
  case (Cons c s)
  from typeset_shows [OF Cons.prems(1), of c] Cons.prems(2) obtain t1 where
    t1: "put_char c t = Some t1" "on_screen t1 (typeset page c)" by auto
  with Cons.IH [OF t1(2)] Cons.prems(2) show ?case by auto
qed simp

lemma cls_screen_empty:
  assumes "length (video t) = VIDEO_SIZE"
  shows "\<exists>t'. cls_screen t = Some t' \<and> on_screen t' []"
  using cls_screen_spec [OF assms] by (auto simp: on_screen_def hidden_def)

section \<open>Numbers\<close>

text \<open>The value of hexadecimal digits.\<close>

definition hex_value :: "u8 list \<Rightarrow> nat" where
  "hex_value = foldl (\<lambda>n c. n * 16 + (if 65 \<le> c then unat c - 55 else unat c - 48)) 0"

lemma hex_digit_code: "d < 16 \<Longrightarrow> unat (hex_digit d) = (if 9 < d then d + 55 else d + 48)"
  unfolding hex_digit_def by (cases "9 < d") (simp_all only: unat_of_nat if_True if_False, simp_all)

lemma hex_digit_value: "d < 16 \<Longrightarrow> (if 65 \<le> hex_digit d then unat (hex_digit d) - 55 else unat (hex_digit d) - 48) = d"
  by (simp add: word_le_nat_alt hex_digit_code)

lemma int_digits_value:
  "num < 16 ^ n \<Longrightarrow> \<exists>ds. int_digits n num acc = ds @ acc \<and> hex_value ds = num \<and> (\<forall>c \<in> set ds. 48 \<le> c)"
proof (induction n arbitrary: num acc)
  case 0
  then show ?case by (simp add: hex_value_def)
next
  case (Suc n)
  then have "num div 16 < 16 ^ n" by (simp add: less_mult_imp_div_less mult.commute)
  from Suc.IH [OF this, of "hex_digit (num mod 16) # acc"] obtain ds where ds:
    "int_digits n (num div 16) (hex_digit (num mod 16) # acc) = ds @ hex_digit (num mod 16) # acc" "hex_value ds = num div 16" "\<forall>c \<in> set ds. 48 \<le> c" by blast
  have "hex_value (ds @ [hex_digit (num mod 16)]) = num"
    using ds(2) hex_digit_value [of "num mod 16"] by (simp add: hex_value_def)
  moreover have "48 \<le> hex_digit (num mod 16)" by (simp add: word_le_nat_alt hex_digit_code)
  ultimately show ?case using ds(1,3) by (intro exI [of _ "ds @ [hex_digit (num mod 16)]"]) simp
qed

lemma hex_value_strip: "hex_value (dropWhile (\<lambda>c. c = 48) ds) = hex_value ds"
proof (induction ds)
  case (Cons c ds)
  then show ?case by (auto simp: hex_value_def)
qed simp

text \<open>\<open>put_int\<close> prints the shortest numeral of its argument, with capital letters.\<close>

lemma put_int_prints_number:
  assumes "on_screen t page"
  shows "\<exists>ds t'. put_int num t = Some t' \<and> on_screen t' (page @ ds) \<and> hex_value ds = unat num \<and> ds \<noteq> [] \<and>
    (unat num \<noteq> 0 \<longrightarrow> hd ds \<noteq> 48)"
proof -
  from int_digits_value [of "unat num" 8 "[]"] unsigned_less [of num] obtain ds where
    d: "int_digits 8 (unat num) [] = ds" "hex_value ds = unat num" "\<forall>c \<in> set ds. 48 \<le> c" by auto
  define es where "es = (let ds = dropWhile (\<lambda>c. c = 48) ds in if ds = [] then [48] else ds)"
  have "hex_value es = unat num \<and> es \<noteq> [] \<and> (unat num \<noteq> 0 \<longrightarrow> hd es \<noteq> 48)"
  proof (cases "dropWhile (\<lambda>c. c = 48) ds = []")
    case True
    then have "unat num = 0" using hex_value_strip [of ds] d(2) by (simp only: hex_value_def foldl_Nil)
    then show ?thesis using True by (simp add: es_def hex_value_def)
  next
    case False
    then show ?thesis using hex_value_strip [of ds] d(2) hd_dropWhile [of "\<lambda>c. c = 48" ds]
      by (auto simp: es_def Let_def simp del: dropWhile_eq_Nil_conv)
  qed
  moreover have big: "48 \<le> c" if "c \<in> set es" for c
    using that d(3) by (auto simp: es_def Let_def split: if_splits dest: set_dropWhileD)
  then have no: "NL \<notin> set es" "CR \<notin> set es" "BS \<notin> set es" by (auto dest!: big)
  have "foldl typeset page es = page @ es" using no(1,2)
    by (induction es arbitrary: page) (auto simp: typeset_def)
  moreover have "put_int num t = put_chars es t" using d(1) by (simp add: put_int_def es_def)
  ultimately show ?thesis using put_chars_shows [OF assms no(3)] by (intro exI [of _ es]) auto
qed

section \<open>The line on the screen\<close>

text \<open>
  \<open>shown_from t h page\<close>: the screen shows the page from its character \<open>h\<close> on, the cursor behind it and blanks
  after that. A page that only grew is shown from \<open>hidden page\<close> on (\<open>on_screen\<close>); rubbing out does not scroll
  back, so that \<open>h\<close> may be further down afterwards.
\<close>

definition shown_from :: "vga \<Rightarrow> nat \<Rightarrow> u8 list \<Rightarrow> bool" where
  "shown_from t h page \<longleftrightarrow> vga_ok t \<and> h \<le> length page \<and> unat (cursor t) = length page - h \<and>
     (\<forall>i < 2000. cell t i = (if h + i < length page then page ! (h + i) else 0x20))"

lemma on_screen_shown: "on_screen t page \<longleftrightarrow> shown_from t (hidden page) page"
  using hidden_le(1) by (simp add: on_screen_def shown_from_def)

lemma put_chars_append: "put_chars (a @ b) t = do { t \<leftarrow> put_chars a t; put_chars b t }"
  by (induction a arbitrary: t) (auto split: Option.bind_splits)

lemma rub_out_shown:
  assumes "shown_from t h (page @ [c])" "h \<le> length page"
  shows "\<exists>t'. put_char BS t = Some t' \<and> shown_from t' h page"
proof -
  define k where "k = length page - h"
  have "vga_ok t" "unat (cursor t) = k + 1" using assms by (simp_all add: shown_from_def k_def)
  from put_char_rubs_out [OF this] obtain t' where t': "put_char BS t = Some t'" "vga_ok t'" "unat (cursor t') = k"
    "\<forall>i. cell t' i = (if i = k then 0x20 else cell t i)" by blast
  have "cell t' i = (if h + i < length page then page ! (h + i) else 0x20)" if "i < 2000" for i
  proof -
    have "cell t i = (if h + i < length page + 1 then (page @ [c]) ! (h + i) else 0x20)"
      using assms(1) that by (simp add: shown_from_def del: nth_append)
    then show ?thesis using t'(4) assms(2) by (auto simp: k_def nth_append)
  qed
  then show ?thesis using t' assms(2) by (intro exI [of _ t']) (simp add: shown_from_def k_def)
qed

lemma rub_all_shown:
  "shown_from t h (page @ line) \<Longrightarrow> h \<le> length page \<Longrightarrow>
     \<exists>t'. put_chars (replicate (length line) BS) t = Some t' \<and> shown_from t' h page"
proof (induction line arbitrary: t rule: rev_induct)
  case (snoc c line)
  from rub_out_shown [of t h "page @ line" c] snoc.prems obtain t1 where "put_char BS t = Some t1" "shown_from t1 h (page @ line)" by auto
  with snoc.IH [of t1] snoc.prems(2) show ?case by auto
qed simp

text \<open>A character in the last cell scrolls the screen by one row.\<close>

lemma type_shown:
  assumes t: "shown_from t h page" and c: "c \<notin> {NL, CR, BS}"
  shows "\<exists>t'. put_char c t = Some t' \<and> shown_from t' (if length page = h + 1999 then h + 80 else h) (page @ [c])"
proof -
  define k where "k = length page - h"
  have ok: "vga_ok t" "k = unat (cursor t)" "length page = h + k" "k < 2000"
    using t by (auto simp: shown_from_def k_def vga_ok_def)
  have cells: "cell t i = (if i < k then page ! (h + i) else 0x20)" if "i < 2000" for i
    using t that ok(3) by (simp add: shown_from_def)
  have np: "(page @ [c]) ! (h + i) = (if i < k then page ! (h + i) else c)" if "i \<le> k" for i
    using that ok(3) by (auto simp: nth_append)
  from put_char_shows [OF ok(1) _ _ _ ok(2)] c obtain t' where t': "put_char c t = Some t'" "vga_ok t'"
      "if k < 1999 then unat (cursor t') = k + 1 \<and> (\<forall>i. cell t' i = (if i = k then c else cell t i))
       else unat (cursor t') = 1920 \<and>
         (\<forall>i < 2000. cell t' i = (if i = 1919 then c else if i < 1920 then cell t (i + 80) else 0x20))" by auto
  show ?thesis
  proof (cases "k < 1999")
    case True
    have "cell t' i = (if i < k + 1 then (page @ [c]) ! (h + i) else 0x20)" if "i < 2000" for i
      using t'(3) True cells [OF that] np [of i] by (auto simp del: nth_append)
    then have "shown_from t' h (page @ [c])" using t'(2,3) True ok(3) by (simp add: shown_from_def)
    then show ?thesis using t'(1) True ok(3) by simp
  next
    case False
    then have k: "k = 1999" using ok(4) by simp
    have "cell t' i = (if i < 1920 then (page @ [c]) ! (h + 80 + i) else 0x20)" if i: "i < 2000" for i
    proof -
      have "cell t (i + 80) = page ! (h + (i + 80))" if "i < 1919" using cells [of "i + 80"] that k by simp
      then show ?thesis using t'(3) k i np [of "i + 80"] by (cases "i = 1919") (auto simp: ac_simps simp del: nth_append)
    qed
    then have "shown_from t' (h + 80) (page @ [c])" using t'(2,3) k ok(3) by (simp add: shown_from_def)
    then show ?thesis using t'(1) k ok(3) by simp
  qed
qed

text \<open>The screen scrolls by whole rows, and only for a line that reaches its end.\<close>

definition scrolls :: "nat \<Rightarrow> nat \<Rightarrow> nat \<Rightarrow> bool" where
  "scrolls start h h' \<longleftrightarrow> h' = h \<or> (\<exists>n. h' = h + 80 * n) \<and> h' + 1920 < start + N_TTY_LINE_BUF_SIZE"

lemma scrolls_trans:
  assumes "scrolls start h h1" and "scrolls start h1 h2"
  shows "scrolls start h h2"
proof -
  have "\<exists>n. h + 80 * a + 80 * b = h + 80 * n" for a b by (intro exI [of _ "a + b"]) simp
  with assms show ?thesis unfolding scrolls_def by auto
qed

lemma scrolls_le: "scrolls start h h' \<Longrightarrow> h \<le> start \<Longrightarrow> h' \<le> start"
  by (auto simp: scrolls_def N_TTY_LINE_BUF_SIZE_def)

lemma echo_shows:
  assumes "shown_from t h (page @ line)" "h \<le> length page" "\<forall>c\<in>set keys. plain_key c" "edit line keys = Some l"
  shows "\<exists>t' h'. put_chars (echoed line keys) t = Some t' \<and> scrolls (length page) h h' \<and> shown_from t' h' (page @ l)"
  using assms
proof (induction keys arbitrary: line t h)
  case Nil
  then show ?case by (auto simp: scrolls_def)
next
  case (Cons c keys)
  have c: "c \<noteq> NL" "c \<noteq> CR" using Cons.prems(3) by (auto simp: plain_key_def)
  have "\<exists>t1 h1. put_chars (key_echo line c) t = Some t1 \<and> scrolls (length page) h h1 \<and>
      shown_from t1 h1 (page @ key_line line c) \<and> edit (key_line line c) keys = Some l"
  proof -
    consider "c = BS" | "c = CTRL_U" "c \<noteq> BS" | "c \<noteq> BS" "c \<noteq> CTRL_U" by blast
    then show ?thesis
    proof cases
      case 1
      then have l: "line \<noteq> []" "edit (butlast line) keys = Some l" using Cons.prems(4) by (auto split: if_splits)
      then obtain t1 where "put_char BS t = Some t1" "shown_from t1 h (page @ butlast line)"
        using rub_out_shown [of t h "page @ butlast line" "last line"] Cons.prems(1,2) by auto
      then show ?thesis using l 1 by (auto simp: key_echo_def key_line_def scrolls_def)
    next
      case 2
      then show ?thesis using rub_all_shown [OF Cons.prems(1,2)] Cons.prems(4)
        by (auto simp: key_echo_def key_line_def scrolls_def)
    next
      case 3
      then have l: "length line + 1 < N_TTY_LINE_BUF_SIZE" "edit (line @ [c]) keys = Some l"
        using Cons.prems(4) by (auto split: if_splits)
      define h1 where "h1 = (if length (page @ line) = h + 1999 then h + 80 else h)"
      have "scrolls (length page) h h1" using l(1) unfolding h1_def scrolls_def
        by (auto intro: exI [of _ "1 :: nat"])
      moreover from type_shown [OF Cons.prems(1), of c] c 3(1) obtain t1 where
        "put_char c t = Some t1" "shown_from t1 h1 (page @ line @ [c])" by (auto simp: h1_def)
      ultimately show ?thesis using 3 l(2) by (auto simp: key_echo_def key_line_def)
    qed
  qed
  then obtain t1 h1 where t1: "put_chars (key_echo line c) t = Some t1" "scrolls (length page) h h1"
    "shown_from t1 h1 (page @ key_line line c)" "edit (key_line line c) keys = Some l" by blast
  have "\<forall>c\<in>set keys. plain_key c" using Cons.prems(3) by simp
  from Cons.IH [OF t1(3) scrolls_le [OF t1(2) Cons.prems(2)] this t1(4)] obtain t' h' where
    "put_chars (echoed (key_line line c) keys) t1 = Some t'" "scrolls (length page) h1 h'" "shown_from t' h' (page @ l)" by blast
  with t1(1) scrolls_trans [OF t1(2)] show ?case by (auto simp: put_chars_append)
qed

section \<open>Properties\<close>

lemma unat_of_char: "unat (of_char c :: u8) = of_char c"
proof -
  have "(of_char c :: u8) = of_nat (of_char c)" by (rule of_nat_of_char [symmetric])
  then have "unat (of_char c :: u8) = of_char c mod 2 ^ LENGTH(8)" by (simp only: unat_of_nat)
  then show ?thesis by simp
qed

lemma of_char_cases: "(of_char c :: u8) = 0 \<longleftrightarrow> c = nul" "(of_char c :: u8) = BS \<longleftrightarrow> c = CHR 0x08"
proof -
  have "(of_char c :: u8) = of_char d \<longleftrightarrow> c = d" for d
    using unat_of_char [of c] unat_of_char [of d] by (metis of_char_eq_iff)
  from this [of nul] this [of "CHR 0x08"]
  show "(of_char c :: u8) = 0 \<longleftrightarrow> c = nul" "(of_char c :: u8) = BS \<longleftrightarrow> c = CHR 0x08" by simp_all
qed

text \<open>
  Property C24. What the kernel prints is on the screen: \<open>printk\<close> continues the page of everything printed so
  far by the rendering of its format, with lines broken at 80 characters and at line ends, and the
  screen shows the last 25 lines of the page with the cursor behind it, having scrolled as often as needed.
\<close>

theorem printk_shows_text:
  assumes "on_screen t page" "render fmt args = Some out" "length out < 1024" "nul \<notin> set out" "CHR 0x08 \<notin> set out"
  shows "\<exists>t'. printk fmt args t = Some t' \<and> on_screen t' (foldl typeset page (map of_char out))"
proof -
  let ?s = "map of_char out :: u8 list"
  have "replicate (1024 - length out) nul = nul # replicate (1024 - length out - 1) nul"
    using assms(3) by (cases "1024 - length out") simp_all
  then have v: "vsprintf (replicate 1024 nul) fmt args = Some (length out, out @ nul # replicate (1024 - length out - 1) nul)"
    using vsprintf_text [OF assms(2-4)] by simp
  have "0 \<notin> set ?s" "BS \<notin> set ?s" using assms(4,5) of_char_cases by (auto simp: image_iff)
  from put_str_shows [OF assms(1) this] show ?thesis by (simp add: printk_def console_put_str_def v of_char_cases)
qed

definition demo_vga :: vga where
  "demo_vga = \<lparr>video = replicate VIDEO_SIZE 0x41, cursor = 77\<rparr>"

lemma demo_vga_length: "length (video demo_vga) = VIDEO_SIZE"
  by (simp add: demo_vga_def)

theorem printk_shows_text_witness:
  "\<exists>t1 t'. cls_screen demo_vga = Some t1 \<and> printk ''fd=%d:%x%%'' [AInt (- 12), AInt 255] t1 = Some t' \<and>
     on_screen t' (map of_char ''fd=-12:FF'')"
proof -
  obtain t1 where t1: "cls_screen demo_vga = Some t1" "on_screen t1 []" using cls_screen_empty [OF demo_vga_length] by blast
  have "foldl typeset [] (map of_char ''fd=-12:FF'') = map of_char ''fd=-12:FF''" by (simp add: typeset_def)
  then show ?thesis using printk_shows_text [OF t1(2) demo_render] t1(1) by auto
qed

text \<open>
  Property C23. The screen shows the line the terminal holds, wherever on the screen the line starts: the echo
  of the keys of an unfinished line, with its rubouts and the clearing of the whole line, leaves on the screen
  the text that stood before it followed by exactly the line a reader will be given, the cursor behind it
  and blanks after that; the screen scrolls by whole rows, and not at all for a line that has room
  below its start.
\<close>

theorem typed_line_is_shown:
  assumes "holds_line tt line" "\<forall>c\<in>set keys. plain_key c" "edit line keys = Some l"
    and "shown_from t h (page @ line)" "h \<le> length page"
  shows "\<exists>out tt' t' h'. tty_data_arrived ks tt keys = Some (out, None, ks, tt') \<and> holds_line tt' l \<and>
    put_chars out t = Some t' \<and> shown_from t' h' (page @ l) \<and> h' \<le> length page \<and> (\<exists>n. h' = h + 80 * n) \<and>
    (length page - h + N_TTY_LINE_BUF_SIZE \<le> 2000 \<longrightarrow> h' = h)"
proof -
  from receive_edits [OF assms(1-3), of ks "[]"] obtain tt' where tt: "holds_line tt' l"
    "tty_data_arrived ks tt keys = Some (echoed line keys, None, ks, tt')" by (auto simp: tty_data_arrived_def)
  from echo_shows [OF assms(4,5,2,3)] obtain t' h' where t': "put_chars (echoed line keys) t = Some t'"
    "scrolls (length page) h h'" "shown_from t' h' (page @ l)" by blast
  have "\<exists>n. h' = h + 80 * n" using t'(2) by (auto simp: scrolls_def intro: exI [of _ "0 :: nat"])
  moreover have "h' = h" if "length page - h + N_TTY_LINE_BUF_SIZE \<le> 2000"
    using t'(2) that assms(5) by (auto simp: scrolls_def N_TTY_LINE_BUF_SIZE_def)
  ultimately show ?thesis using tt t' scrolls_le [OF t'(2) assms(5)] by blast
qed

text \<open>A screen full of text but for its last two cells.\<close>

definition demo_full_vga :: vga where
  "demo_full_vga = \<lparr>video = replicate 3996 0x41 @ replicate (VIDEO_SIZE - 3996) 0x20, cursor = 1998\<rparr>"

lemma demo_full_shown: "shown_from demo_full_vga 0 (replicate 1998 0x41)"
  unfolding shown_from_def
proof (intro conjI allI impI)
  show "vga_ok demo_full_vga" by (simp add: vga_ok_def demo_full_vga_def VIDEO_SIZE_def del: replicate.simps)
  show "unat (cursor demo_full_vga) = length (replicate 1998 (0x41 :: u8)) - 0" by (simp add: demo_full_vga_def)
  show "cell demo_full_vga i = (if 0 + i < length (replicate 1998 (0x41 :: u8)) then replicate 1998 0x41 ! (0 + i) else 0x20)" if "i < 2000" for i
    using that by (auto simp: cell_def demo_full_vga_def VIDEO_SIZE_def nth_append)
qed simp

theorem typed_line_is_shown_witness:
  "\<exists>out tt' t' n. tty_data_arrived demo_kst demo_tty [0x6c, 0x78, BS, 0x73] = Some (out, None, demo_kst, tt') \<and>
     put_chars out demo_full_vga = Some t' \<and> unat (cursor t') = n + 2 \<and> cell t' n = 0x6c \<and> cell t' (n + 1) = 0x73"
proof -
  let ?page = "replicate 1998 0x41 :: u8 list"
  have "edit [] [0x6c, 0x78, BS, 0x73] = Some [0x6c, 0x73]" by (simp add: ctrl_values N_TTY_LINE_BUF_SIZE_def)
  moreover have "\<forall>c\<in>set [0x6c, 0x78, BS, 0x73]. plain_key c" by (simp add: plain_key_def ctrl_values)
  moreover have "shown_from demo_full_vga 0 (?page @ [])" "0 \<le> length ?page" using demo_full_shown by simp_all
  ultimately obtain out tt' t' h' where r: "tty_data_arrived demo_kst demo_tty [0x6c, 0x78, BS, 0x73] = Some (out, None, demo_kst, tt')"
    "put_chars out demo_full_vga = Some t'" "shown_from t' h' (?page @ [0x6c, 0x73])" "h' \<le> length ?page"
    using typed_line_is_shown [OF demo_tty_ok(1), of "[0x6c, 0x78, BS, 0x73]" "[0x6c, 0x73]" demo_full_vga 0 ?page demo_kst] by blast
  define n where "n = 1998 - h'"
  have h: "h' + n = 1998" "unat (cursor t') = n + 2" "n + 2 < 2000" using r(3,4) by (auto simp: shown_from_def n_def vga_ok_def)
  have "cell t' i = (if h' + i < 2000 then (?page @ [0x6c, 0x73]) ! (h' + i) else 0x20)" if "i < 2000" for i
    using r(3) that by (simp add: shown_from_def del: nth_append replicate.simps)
  from this [of n] this [of "n + 1"] h have "cell t' n = 0x6c" "cell t' (n + 1) = 0x73"
    by (simp_all add: nth_append add.assoc [symmetric] del: replicate.simps)
  with r h(2) show ?thesis by blast
qed

end
