(* ===== verification/Spec2Isabelle.thy ===== *)
theory Spec2Isabelle
  imports Prelude Bitmap Klist Cstring Stdio Ide Ideinit Inode File Dir Dirview Path Fs Format Memory Paging
    Machine Atomic Thread Sync Ioqueue Signal Pipe Tty Keyboard Process Exec Userlib Userprog Tools Shell
    Stdstreams Syscall Boot Switch Coreutils Heap Screen
begin

text \<open>
  tros is a small multitasking kernel for 32-bit x86 machines, with the C library and the programs that run
  on it. This development models the kernel from the disk driver to the system calls, and the parts of the
  library and the programs that have logic of their own, and proves what makes each part correct. Paths below
  are those of the repository.

  \<^bold>\<open>The program and its parts.\<close> Programs enter the kernel through interrupt 0x80: a function of
  \<open>src/src/lib/user/syscall.c\<close> puts a number and its arguments into registers, \<open>syscall_handler\<close> of
  \<open>src/src/kernel/kernel.S\<close> calls the entry of the table \<open>src/src/userprog/syscall-init.c\<close> fills. File calls
  (\<open>src/src/fs/fs.c\<close>) turn a path into an inode with the directory operations (\<open>src/src/fs/dir.c\<close>), a descriptor
  into an entry of the file table, and then call the operations of that entry: those of a disk file
  (\<open>src/src/fs/file.c\<close>), of a pipe (\<open>src/src/ipc/pipe.c\<close>) or of the terminal (\<open>src/src/device/tty.c\<close>). Disk files and
  directories stand on inodes (\<open>src/src/fs/inode.c\<close>), two allocation bitmaps
  (\<open>src/src/lib/kernel/bitmap.c\<close>) and the disk driver (\<open>src/src/device/ide.c\<close>). Pipes and the terminal stand on a
  bounded queue of bytes (\<open>src/src/device/ioqueue.c\<close>), which the keyboard interrupt
  (\<open>src/src/device/keyboard.c\<close>) fills by way of the line discipline. Threads (\<open>src/src/thread/thread.c\<close>) wait for one
  another with semaphores, locks and condition variables (\<open>src/src/thread/sync.c\<close>); processes are threads
  with page tables of their own (\<open>src/src/userprog\<close>, \<open>src/src/kernel/memory.c\<close>) and take signals
  (\<open>src/src/kernel/signal.c\<close>) on their way back to user mode.

  \<^bold>\<open>Conventions.\<close> The outcome of a C function is an \<open>option\<close>: \<open>None\<close> is a call that does not come back, because an
  \<open>ASSERT\<close> or \<open>PANIC\<close> stops the kernel, because it reads or writes outside its memory, or because a loop never
  ends. What the code returns, errors such as -1 included, is a value inside \<open>Some\<close>. Loops that may run for ever are
  \<open>partial_function (option)\<close>; all others are total functions with their termination proofs. No fuel is used in the
  model: the only counters are those of the schedules in \<open>Pipe\<close> (turns of the two ends, shown to be enough for the whole
  transfer), \<open>Thread\<close> (timer interrupts) and \<open>Atomic\<close> (steps), which are what the properties bound. Integers of the
  code that can overflow keep their width, as words or as \<open>nat\<close> with \<open>w8\<close>, \<open>w16\<close>, \<open>w32\<close> and \<open>sub32\<close> written out.
  State is passed explicitly in records. Sections with interrupts off, or under a lock that is never given up inside,
  are one step; an operation that may block is split where it blocks.
  What comes from outside (the answers of the disk controller, the success of a memory request, the bytes
  a read delivers, the padding of a structure on the stack) is an argument of the definitions.

  \<^bold>\<open>Foundations.\<close>
  \<^item> \<open>Prelude\<close>: machine types, outcomes (\<open>kassert\<close>, \<open>rd\<close>, \<open>wr\<close>, \<open>rd_block\<close>, \<open>wr_block\<close>), the collections \<open>outcome_simps\<close>
    and \<open>codec_simps\<close>, little-endian encodings with their round trips, and the interface \<open>slot_pool\<close> of an allocator of
    numbered slots.
  \<^item> \<open>Bitmap\<close> (\<open>src/src/lib/kernel/bitmap.c\<close>): scanning, setting and testing bits; interprets \<open>slot_pool\<close>, so taking gives
    the lowest free slot and dropping undoes it.
  \<^item> \<open>Klist\<close> (\<open>src/src/lib/kernel/list.c\<close>): the intrusive doubly linked lists over a heap of links. They refine
    sequences (interface \<open>fifo_list\<close>), which is why the later theories use lists.
  \<^item> \<open>Cstring\<close> (\<open>src/src/lib/string.c\<close>): every function over a byte memory, against lists of bytes.
  \<^item> \<open>Stdio\<close> (\<open>src/src/lib/stdio.c\<close>): \<open>itoa\<close> and \<open>vsprintf\<close>, against a rendering function. \<open>printf\<close> and \<open>fprintf\<close>,
    which write its result to a descriptor, are in \<open>Coreutils\<close>.
  \<^item> \<open>Atomic\<close> (\<open>src/src/lib/atomic.c\<close>): compare-and-exchange loops under any interleaving: no update is lost, and \<open>n\<close> calls
    end after at most \<open>n (n + 1)\<close> steps.

  \<^bold>\<open>The file system.\<close>
  \<^item> \<open>Ide\<close>, \<open>Ideinit\<close> (\<open>src/src/device/ide.c\<close>): the registers of a transfer, its chunks of 256 sectors, polling, the
    interrupt handler, the partition table, identification and set-up. The controller is a function of the registers
    that follows the LBA28 protocol when the device register selects the drive and LBA addressing (\<open>ata_reads\<close>,
    \<open>ata_writes\<close>), and is not assumed to do anything otherwise; the driver refines reads and writes of whole
    sectors (\<open>disk_read\<close>, \<open>disk_write\<close>), the interface \<open>block_device\<close>, on which the theories above stand.
  \<^item> \<open>Inode\<close> (\<open>src/src/fs/inode.c\<close>): the state \<open>fs\<close> of the mounted file system; opening, closing, storing and deleting
    inodes, with what each leaves of the inode table and of the bitmaps on the disk; the error of inode numbers from
    256 on.
  \<^item> \<open>File\<close> (\<open>src/src/fs/file.c\<close>): file table, descriptors, reading and writing with direct and indirect blocks. The
    contents of a file is a list of bytes; writing appends to it, touches no other file (neither its blocks nor
    its slot in the inode table), and is read back.
  \<^item> \<open>Dir\<close>, \<open>Dirview\<close> (\<open>src/src/fs/dir.c\<close>): directories as blocks of entries, and as the set of used entries (interface
    \<open>name_store\<close>): insertion, deletion, search and enumeration agree with the set.
  \<^item> \<open>Path\<close>, \<open>Fs\<close> (\<open>src/src/fs/fs.c\<close>): path parsing, the search from the root, and the system calls.
  \<^item> \<open>Format\<close> (\<open>src/src/fs/fs.c\<close>): formatting and mounting; a formatted partition mounts as a well-formed file
    system with two entries in its root.
  \<^item> \<open>Stdstreams\<close> (\<open>src/src/device/tty.c\<close>): the three standard entries of the file table, and what the calls do on them.
  \<^item> \<open>Boot\<close> (\<open>src/src/kernel/main.c\<close>): the copy of the image \<open>src/system/pack.py\<close> writes into the file system,
    against a language of traces of system calls (\<open>image_trace\<close>).

  \<^bold>\<open>Memory and processes.\<close>
  \<^item> \<open>Memory\<close>, \<open>Paging\<close> (\<open>src/src/kernel/memory.c\<close>): page pools, page tables through their own mapping, the heap of blocks.
    The table code is compared with the walk of the processor.
  \<^item> \<open>Heap\<close>: the invariant of arenas, free lists, counters and page map that \<open>sys_malloc\<close> and \<open>sys_free\<close> keep
    (interface \<open>block_heap\<close>): blocks in use never overlap, and freeing takes exactly one of them away.
  \<^item> \<open>Switch\<close> (\<open>src/src/thread/switch.S\<close>, \<open>src/src/kernel/kernel.S\<close>, \<open>src/system/crt/setjmp.c\<close>): the instructions of the
    thread switch, of the return from an interrupt and of the non-local jump on registers and a byte memory, with the
    stacks the kernel builds for new threads and forked children.
  \<^item> \<open>Machine\<close> (\<open>src/src/kernel/interrupt.c\<close>, \<open>src/src/userprog/tss.c\<close>, \<open>src/src/device/timer.c\<close>): descriptors, gates,
    interrupt masks, the timer and sleeping.
  \<^item> \<open>Thread\<close> (\<open>src/src/thread/thread.c\<close>): control blocks, pids and the scheduler. \<open>sched_inv\<close> is its invariant, kept by every
    operation; a ready thread runs after a bounded number of timer interrupts.
  \<^item> \<open>Sync\<close> (\<open>src/src/thread/sync.c\<close>): semaphores, locks, condition variables. \<open>lstep\<close> interleaves the pieces of the lock
    operations of any number of threads with interrupts and everything else threads do; over the reachable states
    (\<open>lreach\<close>) at most one thread is inside and no wakeup is lost.
  \<^item> \<open>Process\<close> (\<open>src/src/userprog/process.c\<close>, \<open>fork.c\<close>, \<open>wait_exit.c\<close>): creation, \<open>fork\<close>, \<open>exit\<close> and \<open>wait\<close>;
    the status of a process that exits is what its parent is given.
  \<^item> \<open>Exec\<close> (\<open>src/src/userprog/exec.c\<close>): loading a program and building its stack.
  \<^item> \<open>Signal\<close> (\<open>src/src/kernel/signal.c\<close>): the frame of a handler; delivery and return restore the registers.
  \<^item> \<open>Syscall\<close>: the numbers, the stubs, the entry and the table, which agree.

  \<^bold>\<open>Byte streams.\<close>
  \<^item> \<open>Ioqueue\<close> (\<open>src/src/device/ioqueue.c\<close>): the ring refines a bounded queue (interface \<open>byte_channel\<close>).
  \<^item> \<open>Pipe\<close> (\<open>src/src/ipc/pipe.c\<close>): a writer and a reader that take turns finish and transfer every byte in order; the
    deadlock of a reader that closes while a writer waits.
  \<^item> \<open>Screen\<close> (\<open>src/src/lib/kernel/print.S\<close>, \<open>src/src/device/console.c\<close>): characters in the video memory, cursor and
    scrolling, and \<open>printk\<close>. The screen shows the end of the page of everything printed (\<open>on_screen\<close>); what is echoed
    while a line is typed is the line the terminal holds, wherever it starts and also when it scrolls (\<open>shown_from\<close>).
  \<^item> \<open>Tty\<close>, \<open>Keyboard\<close>: from scan codes to the line a program reads, against a reference editor of lines.

  \<^bold>\<open>User programs.\<close>
  \<^item> \<open>Userlib\<close> (\<open>src/system/crt\<close>): \<open>getenv\<close>, paths and their normal form, the search along \<open>PATH\<close>.
  \<^item> \<open>Userprog\<close>: streams (\<open>src/src/lib/stdio.c\<close>), with \<open>fgets\<close> over the interface \<open>line_source\<close> for a buffer of the size
    the code assumes, for the shorter one of \<open>stdin\<close>, and for input that overflows it; \<open>seq\<close>, \<open>grep\<close>, the sorting of \<open>sort\<close>, the words of a command line.
  \<^item> \<open>Tools\<close>: \<open>sort\<close> from input to output, equal to the sorting function of the library on lines in the order of
    \<open>strcmp\<close> for as much input as the buffer of \<open>stdin\<close> holds; the loops of \<open>cat\<close>.
  \<^item> \<open>Shell\<close> (\<open>src/system/src/sh/sh.c\<close>): what is done with a line; a pipeline is wired as written and leaves no pipe end open.

  \<^item> \<open>Coreutils\<close>: \<open>printf\<close>, and the programs \<open>ls\<close>, \<open>rm\<close>, \<open>mkdir\<close>, \<open>rmdir\<close>, \<open>echo\<close>, \<open>pwd\<close>, \<open>clear\<close> and the arguments of \<open>cat\<close>
    (\<open>src/system/src\<close>), with the built-in commands \<open>ps\<close> and \<open>help\<close> of the shell, from their arguments to the text they
    print; what the system calls answer is an argument.

  \<^bold>\<open>Not modelled.\<close> The assembler of the boot loader and of the program start; the messages the kernel prints
  on the way; \<open>init_all\<close>, which only calls the initialisations one after the other, the init process and the test
  functions of \<open>src/src/kernel/main.c\<close>; \<open>src/src/kernel/bugs.c\<close> and the test programs. The caches of the processor,
  among them the one for translations, and the timing of the hardware have no model, and the interleavings are
  those of one processor.
\<close>

end
